(* ===== verification/Prelude.thy ===== *)
theory Prelude
  imports Main "HOL-Library.Word"
begin

text \<open>
  Shared vocabulary of the development: machine-integer wrap-around written out on
  \<^typ>\<open>nat\<close> and \<^typ>\<open>int\<close>, the result type with error values, the digit-list value, and
  the list lemmas the components share.
\<close>

unbundle bit_operations_syntax

section \<open>Machine integers\<close>

text \<open>
  The port is a 32-bit Arm build: \<^verbatim>\<open>size_t\<close>, \<^verbatim>\<open>mp_uint_t\<close> and \<^verbatim>\<open>uint32_t\<close> are 32 bits
  wide and wrap, \<^verbatim>\<open>mp_int_t\<close> and \<^verbatim>\<open>int32_t\<close> are two's complement. An arithmetic right
  shift is a division rounding down, a mask with \<open>2 ^ k - 1\<close> is a remainder.
\<close>

definition u16 :: "nat \<Rightarrow> nat" where
  "u16 x = x mod 2 ^ 16"

definition u32 :: "nat \<Rightarrow> nat" where
  "u32 x = x mod 2 ^ 32"

definition s32 :: "int \<Rightarrow> int" where
  "s32 x = (x + 2 ^ 31) mod 2 ^ 32 - 2 ^ 31"

text \<open>Decrement of an unsigned 32-bit counter: zero wraps to the largest value.\<close>

definition dec32 :: "nat \<Rightarrow> nat" where
  "dec32 x = u32 (x + (2 ^ 32 - 1))"

named_theorems wrap_simps \<open>removing a wrap-around whose argument is in range\<close>

lemma u16_id [wrap_simps]: "x < 2 ^ 16 \<Longrightarrow> u16 x = x"
  by (simp add: u16_def)

lemma u32_id [wrap_simps]: "x < 2 ^ 32 \<Longrightarrow> u32 x = x"
  by (simp add: u32_def)

lemma u32_less [simp]: "u32 x < 2 ^ 32"
  by (simp add: u32_def)

lemma s32_id [wrap_simps]: "- (2 ^ 31) \<le> x \<Longrightarrow> x < 2 ^ 31 \<Longrightarrow> s32 x = x"
  by (simp add: s32_def)

lemma s32_range: "- (2 ^ 31) \<le> s32 x \<and> s32 x < 2 ^ 31"
  by (simp add: s32_def)

lemma s32_mod [simp]: "s32 (x mod 2 ^ 32) = s32 x"
  by (simp add: s32_def mod_add_left_eq)

lemma dec32_pos [wrap_simps]: "0 < x \<Longrightarrow> x < 2 ^ 32 \<Longrightarrow> dec32 x = x - 1"
  by (simp add: dec32_def u32_def mod_if)

lemma dec32_0 [simp]: "dec32 0 = 2 ^ 32 - 1"
  by (simp add: dec32_def u32_def)

section \<open>Results\<close>

text \<open>A fallible operation returns \<^term>\<open>Inl e\<close> for an error and \<^term>\<open>Inr x\<close> for a result.\<close>

definition res_bind :: "'e + 'a \<Rightarrow> ('a \<Rightarrow> 'e + 'b) \<Rightarrow> 'e + 'b" where
  "res_bind r f = (case r of Inl e \<Rightarrow> Inl e | Inr x \<Rightarrow> f x)"

lemma res_bind_simps [simp]:
  "res_bind (Inl e) f = Inl e"
  "res_bind (Inr x) f = f x"
  by (simp_all add: res_bind_def)

lemma res_bind_Inr_iff:
  "res_bind r f = Inr y \<longleftrightarrow> (\<exists>x. r = Inr x \<and> f x = Inr y)"
  by (cases r) simp_all

section \<open>Bits of a number split at a position\<close>

lemma bit_below: "a < 2 ^ n \<Longrightarrow> bit (a :: nat) m \<Longrightarrow> m < n"
  by (metis bit_take_bit_iff take_bit_nat_eq_self)

lemma bit_concat:
  assumes "a < 2 ^ n"
  shows "bit (a + 2 ^ n * c :: nat) m \<longleftrightarrow> (if m < n then bit a m else bit c (m - n))"
proof -
  have "a AND push_bit n c = 0"
    using bit_below [OF assms] by (fastforce simp: bit_eq_iff bit_simps)
  then have "a + 2 ^ n * c = a OR push_bit n c"
    by (simp add: disjunctive_add_eq_or [symmetric] push_bit_eq_mult mult.commute)
  then show ?thesis
    using bit_below [OF assms] by (auto simp: bit_simps)
qed

lemma and_concat:
  assumes "a < 2 ^ n" "b < 2 ^ n"
  shows "(a + 2 ^ n * c :: nat) AND (b + 2 ^ n * d) = (a AND b) + 2 ^ n * (c AND d)"
proof -
  have "a AND b < 2 ^ n" using assms by (metis take_bit_and take_bit_nat_eq_self take_bit_nat_less_exp)
  then show ?thesis using assms by (simp add: bit_eq_iff bit_concat bit_and_iff)
qed

lemma or_concat:
  assumes "a < 2 ^ n" "b < 2 ^ n"
  shows "(a + 2 ^ n * c :: nat) OR (b + 2 ^ n * d) = (a OR b) + 2 ^ n * (c OR d)"
proof -
  have "a OR b < 2 ^ n" using assms by (metis take_bit_or take_bit_nat_eq_self take_bit_nat_less_exp)
  then show ?thesis using assms by (simp add: bit_eq_iff bit_concat bit_or_iff)
qed

lemma xor_concat:
  assumes "a < 2 ^ n" "b < 2 ^ n"
  shows "(a + 2 ^ n * c :: nat) XOR (b + 2 ^ n * d) = (a XOR b) + 2 ^ n * (c XOR d)"
proof -
  have "a XOR b < 2 ^ n" using assms by (metis take_bit_xor take_bit_nat_eq_self take_bit_nat_less_exp)
  then show ?thesis using assms by (simp add: bit_eq_iff bit_concat bit_xor_iff)
qed

lemma or_shift: "b < 2 ^ n \<Longrightarrow> (a * 2 ^ n) OR b = a * 2 ^ n + (b :: nat)"
  using or_concat [of 0 n b a 0] by (simp add: mult.commute)

lemma xor_mask: "a < 2 ^ n \<Longrightarrow> a XOR (2 ^ n - 1) = 2 ^ n - 1 - (a :: nat)"
proof -
  assume a: "a < 2 ^ n"
  have "a AND (a XOR mask n) = 0" "a OR (a XOR mask n) = mask n"
    using bit_below [OF a] by (auto simp: bit_eq_iff bit_simps)
  then have "a + (a XOR mask n) = mask n" by (simp add: disjunctive_add_eq_or)
  then show ?thesis by (simp add: mask_eq_exp_minus_1)
qed

end
