(* ===== verification/Mpn.thy ===== *)
theory Mpn
  imports Prelude
begin

text \<open>
  The \<^verbatim>\<open>mpn\<close> layer of \<^verbatim>\<open>py/mpz.c\<close>: natural-number arithmetic on little-endian digit
  arrays. The port has \<^verbatim>\<open>MPZ_DIG_SIZE = 16\<close>: \<^verbatim>\<open>mpz_dig_t\<close> is \<^verbatim>\<open>uint16_t\<close>,
  \<^verbatim>\<open>mpz_dbl_dig_t\<close> is \<^verbatim>\<open>uint32_t\<close>, \<^verbatim>\<open>mpz_dbl_dig_signed_t\<close> is \<^verbatim>\<open>int32_t\<close>, and
  \<^verbatim>\<open>MICROPY_OPT_MPZ_BITWISE\<close> is 0. A digit array with its length is the list of its
  digits. A routine that writes digits through \<^verbatim>\<open>idig\<close> and returns a length gives the pair
  of the digits written and that length.
\<close>

section \<open>Digits\<close>

definition DIG_SIZE :: nat where
  "DIG_SIZE = 16"

definition DIG_BASE :: nat where
  "DIG_BASE = 2 ^ DIG_SIZE"

definition DIG_MASK :: nat where
  "DIG_MASK = DIG_BASE - 1"

definition DIG_MSB :: nat where
  "DIG_MSB = 2 ^ (DIG_SIZE - 1)"

text \<open>The value of a digit array, and that all its digits are in range.\<close>

fun dval :: "nat list \<Rightarrow> nat" where
  "dval [] = 0"
| "dval (d # ds) = d + DIG_BASE * dval ds"

definition digits_ok :: "nat list \<Rightarrow> bool" where
  "digits_ok ds \<longleftrightarrow> (\<forall>d \<in> set ds. d < DIG_BASE)"

text \<open>Normalised: in range and with no zero at the high end.\<close>

definition normed :: "nat list \<Rightarrow> bool" where
  "normed ds \<longleftrightarrow> digits_ok ds \<and> (ds = [] \<or> last ds \<noteq> 0)"

section \<open>Operations\<close>

text \<open>Digits \<open>ds\<close> of an array, \<open>n\<close> of them between \<^verbatim>\<open>oidig\<close> and \<^verbatim>\<open>idig\<close>.\<close>

fun mpn_remove_trailing_zeros :: "nat list \<Rightarrow> nat \<Rightarrow> nat" where
  "mpn_remove_trailing_zeros ds 0 = 0"
| "mpn_remove_trailing_zeros ds (Suc n) =
     (if ds ! n = 0 then mpn_remove_trailing_zeros ds n else Suc n)"

fun mpn_cmp_loop :: "nat list \<Rightarrow> nat list \<Rightarrow> nat \<Rightarrow> int" where
  "mpn_cmp_loop idig jdig 0 = 0"
| "mpn_cmp_loop idig jdig (Suc n) =
     (let cmp = s32 (int (idig ! n) - int (jdig ! n))
      in if cmp < 0 then -1 else if cmp > 0 then 1 else mpn_cmp_loop idig jdig n)"

definition mpn_cmp :: "nat list \<Rightarrow> nat list \<Rightarrow> int" where
  "mpn_cmp idig jdig =
     (if length idig < length jdig then -1
      else if length idig > length jdig then 1
      else mpn_cmp_loop idig jdig (length idig))"

text \<open>
  The loop of \<^verbatim>\<open>mpn_shl\<close> runs from the high end, so it takes the digits of \<open>j\<close> reversed
  and gives the digits of \<open>i\<close> from the high end; the last one holds the remaining bits.
\<close>

fun mpn_shl_loop :: "nat \<Rightarrow> nat \<Rightarrow> nat list \<Rightarrow> nat list" where
  "mpn_shl_loop n_part d [] = [d div 2 ^ (DIG_SIZE - n_part) mod DIG_BASE]"
| "mpn_shl_loop n_part d (j # js) =
     (let d = d OR j
      in (d div 2 ^ (DIG_SIZE - n_part) mod DIG_BASE)
           # mpn_shl_loop n_part (u32 (d * DIG_BASE)) js)"

definition mpn_shl :: "nat list \<Rightarrow> nat \<Rightarrow> nat list \<times> nat" where
  "mpn_shl jdig n =
     (let n_whole = u32 (n + DIG_SIZE - 1) div DIG_SIZE;
          n_part = (if n mod DIG_SIZE = 0 then DIG_SIZE else n mod DIG_SIZE);
          idig = replicate (n_whole - 1) 0 @ rev (mpn_shl_loop n_part 0 (rev jdig))
      in (idig, mpn_remove_trailing_zeros idig (length jdig + n_whole)))"

fun mpn_shr_loop :: "nat \<Rightarrow> nat list \<Rightarrow> nat list" where
  "mpn_shr_loop n_part [] = []"
| "mpn_shr_loop n_part [j] = [j div 2 ^ n_part mod DIG_BASE]"
| "mpn_shr_loop n_part (j # j1 # js) =
     ((j OR u32 (j1 * DIG_BASE)) div 2 ^ n_part mod DIG_BASE) # mpn_shr_loop n_part (j1 # js)"

definition mpn_shr :: "nat list \<Rightarrow> nat \<Rightarrow> nat list \<times> nat" where
  "mpn_shr jdig n =
     (let n_whole = n div DIG_SIZE; n_part = n mod DIG_SIZE
      in if n_whole \<ge> length jdig then ([], 0)
         else let idig = mpn_shr_loop n_part (drop n_whole jdig);
                  jlen = length jdig - n_whole
              in (idig, if last idig = 0 then jlen - 1 else jlen))"

text \<open>
  \<^verbatim>\<open>mpn_add\<close> and \<^verbatim>\<open>mpn_sub\<close> require \<open>jlen \<ge> klen\<close>: the case of digits of \<open>k\<close> left
  when \<open>j\<close> has none reads outside the array and is outside their contract.
\<close>

fun mpn_add_loop :: "nat \<Rightarrow> nat list \<Rightarrow> nat list \<Rightarrow> nat list" where
  "mpn_add_loop carry (j # js) (k # ks) =
     (let carry = u32 (carry + (j + k))
      in carry mod DIG_BASE # mpn_add_loop (carry div DIG_BASE) js ks)"
| "mpn_add_loop carry (j # js) [] =
     (let carry = u32 (carry + j)
      in carry mod DIG_BASE # mpn_add_loop (carry div DIG_BASE) js [])"
| "mpn_add_loop carry [] _ = (if carry \<noteq> 0 then [u16 carry] else [])"

definition mpn_add :: "nat list \<Rightarrow> nat list \<Rightarrow> nat list \<times> nat" where
  "mpn_add jdig kdig = (let idig = mpn_add_loop 0 jdig kdig in (idig, length idig))"

fun mpn_sub_loop :: "int \<Rightarrow> nat list \<Rightarrow> nat list \<Rightarrow> nat list" where
  "mpn_sub_loop borrow (j # js) (k # ks) =
     (let borrow = s32 (borrow + (int j - int k))
      in nat (borrow mod int DIG_BASE) # mpn_sub_loop (borrow div int DIG_BASE) js ks)"
| "mpn_sub_loop borrow (j # js) [] =
     (let borrow = s32 (borrow + int j)
      in nat (borrow mod int DIG_BASE) # mpn_sub_loop (borrow div int DIG_BASE) js [])"
| "mpn_sub_loop borrow [] _ = []"

definition mpn_sub :: "nat list \<Rightarrow> nat list \<Rightarrow> nat list \<times> nat" where
  "mpn_sub jdig kdig =
     (let idig = mpn_sub_loop 0 jdig kdig
      in (idig, mpn_remove_trailing_zeros idig (length idig)))"

text \<open>
  The three bitwise loops share their handling of the shorter operand: both counters are
  decremented, and \<^verbatim>\<open>--klen <= --jlen\<close> holds until \<open>klen\<close> wraps below zero.
\<close>

fun mpn_and_neg_loop ::
  "nat \<Rightarrow> nat \<Rightarrow> nat \<Rightarrow> nat \<Rightarrow> nat \<Rightarrow> nat \<Rightarrow> nat \<Rightarrow> nat \<Rightarrow> nat list \<Rightarrow> nat list \<Rightarrow> nat list"
where
  "mpn_and_neg_loop imask jmask kmask carryi carryj carryk jlen klen [] kdig =
     (if carryi \<noteq> 0 then [u16 carryi] else [])"
| "mpn_and_neg_loop imask jmask kmask carryi carryj carryk jlen klen (j # jdig) kdig =
     (let carryj = u32 (carryj + (j XOR jmask));
          more = dec32 klen \<le> dec32 jlen;
          carryk = u32 (carryk + (if more then hd kdig XOR kmask else kmask));
          carryi = u32 (carryi + (((carryj AND carryk) XOR imask) AND DIG_MASK))
      in carryi mod DIG_BASE
           # mpn_and_neg_loop imask jmask kmask
               (carryi div DIG_BASE) (carryj div DIG_BASE) (carryk div DIG_BASE)
               (dec32 jlen) (dec32 klen) jdig (if more then tl kdig else kdig))"

definition mpn_and_neg :: "nat list \<Rightarrow> nat list \<Rightarrow> nat \<Rightarrow> nat \<Rightarrow> nat \<Rightarrow> nat list \<times> nat" where
  "mpn_and_neg jdig kdig carryi carryj carryk =
     (let imask = (if carryi = 0 then 0 else DIG_MASK);
          jmask = (if carryj = 0 then 0 else DIG_MASK);
          kmask = (if carryk = 0 then 0 else DIG_MASK);
          idig = mpn_and_neg_loop imask jmask kmask carryi carryj carryk
                   (length jdig) (length kdig) jdig kdig
      in (idig, mpn_remove_trailing_zeros idig (length idig)))"

text \<open>The assertion after the loop of \<^verbatim>\<open>mpn_or_neg\<close> makes the result an option.\<close>

fun mpn_or_neg_loop ::
  "nat \<Rightarrow> nat \<Rightarrow> nat \<Rightarrow> nat \<Rightarrow> nat \<Rightarrow> nat \<Rightarrow> nat \<Rightarrow> nat \<Rightarrow> nat list \<Rightarrow> nat list \<Rightarrow> nat list option"
where
  "mpn_or_neg_loop imask jmask kmask carryi carryj carryk jlen klen [] kdig =
     (if carryi = 0 then Some [] else None)"
| "mpn_or_neg_loop imask jmask kmask carryi carryj carryk jlen klen (j # jdig) kdig =
     (let carryj = u32 (carryj + (j XOR jmask));
          more = dec32 klen \<le> dec32 jlen;
          carryk = u32 (carryk + (if more then hd kdig XOR kmask else kmask));
          carryi = u32 (carryi + (((carryj OR carryk) XOR imask) AND DIG_MASK))
      in map_option (Cons (carryi mod DIG_BASE))
           (mpn_or_neg_loop imask jmask kmask
               (carryi div DIG_BASE) (carryj div DIG_BASE) (carryk div DIG_BASE)
               (dec32 jlen) (dec32 klen) jdig (if more then tl kdig else kdig)))"

definition mpn_or_neg ::
  "nat list \<Rightarrow> nat list \<Rightarrow> nat \<Rightarrow> nat \<Rightarrow> nat \<Rightarrow> (nat list \<times> nat) option" where
  "mpn_or_neg jdig kdig carryi carryj carryk =
     (let imask = (if carryi = 0 then 0 else DIG_MASK);
          jmask = (if carryj = 0 then 0 else DIG_MASK);
          kmask = (if carryk = 0 then 0 else DIG_MASK)
      in map_option (\<lambda>idig. (idig, mpn_remove_trailing_zeros idig (length idig)))
           (mpn_or_neg_loop imask jmask kmask carryi carryj carryk
              (length jdig) (length kdig) jdig kdig))"

fun mpn_xor_neg_loop ::
  "nat \<Rightarrow> nat \<Rightarrow> nat \<Rightarrow> nat \<Rightarrow> nat \<Rightarrow> nat list \<Rightarrow> nat list \<Rightarrow> nat list"
where
  "mpn_xor_neg_loop carryi carryj carryk jlen klen [] kdig =
     (if carryi \<noteq> 0 then [u16 carryi] else [])"
| "mpn_xor_neg_loop carryi carryj carryk jlen klen (j # jdig) kdig =
     (let carryj = u32 (carryj + (j + DIG_MASK));
          more = dec32 klen \<le> dec32 jlen;
          carryk = u32 (carryk + (if more then hd kdig + DIG_MASK else DIG_MASK));
          carryi = u32 (carryi + ((carryj XOR carryk) AND DIG_MASK))
      in carryi mod DIG_BASE
           # mpn_xor_neg_loop
               (carryi div DIG_BASE) (carryj div DIG_BASE) (carryk div DIG_BASE)
               (dec32 jlen) (dec32 klen) jdig (if more then tl kdig else kdig))"

definition mpn_xor_neg :: "nat list \<Rightarrow> nat list \<Rightarrow> nat \<Rightarrow> nat \<Rightarrow> nat \<Rightarrow> nat list \<times> nat" where
  "mpn_xor_neg jdig kdig carryi carryj carryk =
     (let idig = mpn_xor_neg_loop carryi carryj carryk (length jdig) (length kdig) jdig kdig
      in (idig, mpn_remove_trailing_zeros idig (length idig)))"

fun mpn_mul_dig_add_dig_loop :: "nat \<Rightarrow> nat \<Rightarrow> nat list \<Rightarrow> nat list" where
  "mpn_mul_dig_add_dig_loop dmul carry [] = (if carry \<noteq> 0 then [u16 carry] else [])"
| "mpn_mul_dig_add_dig_loop dmul carry (i # idig) =
     (let carry = u32 (carry + i * dmul)
      in carry mod DIG_BASE # mpn_mul_dig_add_dig_loop dmul (carry div DIG_BASE) idig)"

definition mpn_mul_dig_add_dig :: "nat list \<Rightarrow> nat \<Rightarrow> nat \<Rightarrow> nat list \<times> nat" where
  "mpn_mul_dig_add_dig idig dmul dadd =
     (let idig = mpn_mul_dig_add_dig_loop dmul dadd idig in (idig, length idig))"

text \<open>
  \<^verbatim>\<open>mpn_mul\<close> accumulates into the memory at \<^verbatim>\<open>idig\<close>, given as the list of its digits.
  Running over the end of that memory is \<^term>\<open>None\<close>. The inner loop also gives the
  number of digits \<^verbatim>\<open>id\<close> moved.
\<close>

fun mpn_mul_inner :: "nat \<Rightarrow> nat list \<Rightarrow> nat list \<Rightarrow> nat \<Rightarrow> (nat list \<times> nat) option" where
  "mpn_mul_inner carry is [] k =
     (if carry \<noteq> 0 then (case is of [] \<Rightarrow> None | i # is \<Rightarrow> Some (u16 carry # is, 1))
      else Some (is, 0))"
| "mpn_mul_inner carry [] (j # js) k = None"
| "mpn_mul_inner carry (i # is) (j # js) k =
     (let carry = u32 (carry + (i + j * k))
      in map_option (\<lambda>(is, n). (carry mod DIG_BASE # is, Suc n))
           (mpn_mul_inner (carry div DIG_BASE) is js k))"

fun mpn_mul_outer :: "nat \<Rightarrow> nat \<Rightarrow> nat list \<Rightarrow> nat list \<Rightarrow> nat list \<Rightarrow> (nat list \<times> nat) option" where
  "mpn_mul_outer pos ilen is jdig [] = Some (is, ilen)"
| "mpn_mul_outer pos ilen is jdig (k # kdig) =
     (case mpn_mul_inner 0 is jdig k of
        None \<Rightarrow> None
      | Some (is', n) \<Rightarrow>
          map_option (\<lambda>(r, l). (take 1 is' @ r, l))
            (mpn_mul_outer (Suc pos) (pos + n) (drop 1 is') jdig kdig))"

definition mpn_mul :: "nat list \<Rightarrow> nat list \<Rightarrow> nat list \<Rightarrow> (nat list \<times> nat) option" where
  "mpn_mul idig jdig kdig = mpn_mul_outer 0 0 idig jdig kdig"

section \<open>Digit values\<close>

named_theorems dig_simps \<open>facts on the digit base\<close>

lemma DIG_BASE_num: "DIG_BASE = 65536"
  by (simp add: DIG_BASE_def DIG_SIZE_def)

lemma DIG_BASE_pos [simp, dig_simps]: "0 < DIG_BASE" "DIG_BASE \<noteq> 0" "Suc 0 < DIG_BASE" "Suc 0 \<le> DIG_BASE"
  by (simp_all add: DIG_BASE_num)

lemma DIG_BASE_sq: "DIG_BASE * DIG_BASE = 2 ^ 32"
  by (simp add: DIG_BASE_num)

lemma DIG_BASE_less_2_32: "x < DIG_BASE \<Longrightarrow> x < 2 ^ 32"
  by (simp add: DIG_BASE_num)

lemma u16_eq_mod_base: "u16 x = x mod DIG_BASE"
  by (simp add: u16_def DIG_BASE_num)

lemma digits_ok_simps [simp]:
  "digits_ok []"
  "digits_ok (d # ds) \<longleftrightarrow> d < DIG_BASE \<and> digits_ok ds"
  "digits_ok (xs @ ys) \<longleftrightarrow> digits_ok xs \<and> digits_ok ys"
  "digits_ok (rev xs) \<longleftrightarrow> digits_ok xs"
  "digits_ok (replicate n 0)"
  by (auto simp: digits_ok_def)

lemma digits_ok_take [simp]: "digits_ok ds \<Longrightarrow> digits_ok (take n ds)"
  by (auto simp: digits_ok_def dest: in_set_takeD)

lemma digits_ok_drop [simp]: "digits_ok ds \<Longrightarrow> digits_ok (drop n ds)"
  by (auto simp: digits_ok_def dest: in_set_dropD)

lemma digits_ok_nth: "digits_ok ds \<Longrightarrow> n < length ds \<Longrightarrow> ds ! n < DIG_BASE"
  by (simp add: digits_ok_def)

lemma dval_append: "dval (xs @ ys) = dval xs + DIG_BASE ^ length xs * dval ys"
  by (induction xs) (simp_all add: algebra_simps)

lemma dval_replicate_0 [simp]: "dval (replicate n 0) = 0"
  by (induction n) simp_all

lemma dval_bound: "digits_ok ds \<Longrightarrow> dval ds < DIG_BASE ^ length ds"
proof (induction ds)
  case (Cons d ds)
  then have "d < DIG_BASE" "Suc (dval ds) \<le> DIG_BASE ^ length ds" by auto
  then have "d + DIG_BASE * dval ds < DIG_BASE * Suc (dval ds)" by simp
  also have "\<dots> \<le> DIG_BASE * DIG_BASE ^ length ds"
    using \<open>Suc (dval ds) \<le> _\<close> by (rule mult_le_mono2)
  finally show ?case by simp
qed simp

lemma dval_take_drop: "dval ds = dval (take n ds) + DIG_BASE ^ min (length ds) n * dval (drop n ds)"
  using dval_append [of "take n ds" "drop n ds"] by (simp add: min.commute)

lemma dval_eq_0_iff: "dval ds = 0 \<longleftrightarrow> (\<forall>d \<in> set ds. d = 0)"
  by (induction ds) auto

lemma dval_last_lower:
  assumes "ds \<noteq> []" "last ds \<noteq> 0"
  shows "DIG_BASE ^ (length ds - 1) \<le> dval ds"
proof -
  have "dval ds = dval (butlast ds) + DIG_BASE ^ (length ds - 1) * last ds"
    using dval_append [of "butlast ds" "[last ds]"] assms(1) by simp
  moreover have "DIG_BASE ^ (length ds - 1) * 1 \<le> DIG_BASE ^ (length ds - 1) * last ds"
    using assms(2) by (intro mult_le_mono2) simp
  ultimately show ?thesis by linarith
qed

lemma normed_dval_0_iff: "normed ds \<Longrightarrow> dval ds = 0 \<longleftrightarrow> ds = []"
proof -
  assume n: "normed ds"
  have "0 < dval ds" if "ds \<noteq> []"
    using n that dval_last_lower [of ds] less_le_trans [of 0 "DIG_BASE ^ (length ds - 1)"]
    by (auto simp: normed_def)
  then show ?thesis by (cases "ds = []") auto
qed

lemma normed_digits_ok [simp]: "normed ds \<Longrightarrow> digits_ok ds"
  by (simp add: normed_def)

lemma normed_Nil [simp]: "normed []"
  by (simp add: normed_def)

text \<open>A natural number has one normalised digit array.\<close>

lemma dval_length_mono:
  assumes "normed xs" "digits_ok ys" "length ys < length xs"
  shows "dval ys < dval xs"
proof -
  from assms have "xs \<noteq> []" "last xs \<noteq> 0" by (auto simp: normed_def)
  then have "DIG_BASE ^ (length xs - 1) \<le> dval xs" by (rule dval_last_lower)
  moreover have "dval ys < DIG_BASE ^ length ys" using assms(2) by (rule dval_bound)
  moreover have "DIG_BASE ^ length ys \<le> DIG_BASE ^ (length xs - 1)"
    using assms(3) by (intro power_increasing) simp_all
  ultimately show ?thesis by linarith
qed

lemma dval_inj: "digits_ok xs \<Longrightarrow> digits_ok ys \<Longrightarrow> length xs = length ys \<Longrightarrow> dval xs = dval ys \<Longrightarrow> xs = ys"
proof (induction xs arbitrary: ys)
  case (Cons x xs)
  then obtain y ys' where ys: "ys = y # ys'" by (cases ys) auto
  with Cons.prems have "x + DIG_BASE * dval xs = y + DIG_BASE * dval ys'" by simp
  then have "(x + DIG_BASE * dval xs) mod DIG_BASE = (y + DIG_BASE * dval ys') mod DIG_BASE"
    by (rule arg_cong)
  moreover have "x < DIG_BASE" "y < DIG_BASE" using Cons.prems ys by simp_all
  ultimately have xy: "x = y" unfolding mod_mult_self2 by simp
  with Cons.prems ys have "dval xs = dval ys'" by simp
  with Cons ys xy show ?case by simp
qed simp

lemma normed_unique:
  assumes "normed xs" "normed ys" "dval xs = dval ys"
  shows "xs = ys"
proof -
  have "\<not> length xs < length ys" "\<not> length ys < length xs"
    using assms dval_length_mono [of xs ys] dval_length_mono [of ys xs] by auto
  then show ?thesis using assms by (intro dval_inj) auto
qed

section \<open>Stripping and comparing\<close>

lemma mpn_remove_trailing_zeros_le: "mpn_remove_trailing_zeros ds n \<le> n"
  by (induction n) auto

lemma mpn_remove_trailing_zeros_dval:
  "n \<le> length ds \<Longrightarrow> dval (take (mpn_remove_trailing_zeros ds n) ds) = dval (take n ds)"
  by (induction n) (auto simp: take_Suc_conv_app_nth dval_append)

lemma mpn_remove_trailing_zeros_last:
  "n \<le> length ds \<Longrightarrow> mpn_remove_trailing_zeros ds n \<noteq> 0 \<Longrightarrow>
   ds ! (mpn_remove_trailing_zeros ds n - 1) \<noteq> 0"
  by (induction n) (auto split: if_splits)

lemma mpn_remove_trailing_zeros_normed:
  assumes "digits_ok ds" "n \<le> length ds"
  shows "normed (take (mpn_remove_trailing_zeros ds n) ds)"
proof (cases "mpn_remove_trailing_zeros ds n")
  case (Suc m)
  then have "m < length ds" using mpn_remove_trailing_zeros_le [of ds n] assms(2) by simp
  moreover have "ds ! m \<noteq> 0" using mpn_remove_trailing_zeros_last [OF assms(2)] Suc by simp
  ultimately show ?thesis
    using assms(1) Suc by (auto simp: normed_def take_Suc_conv_app_nth digits_ok_nth)
qed simp

text \<open>What a routine that strips leaves: a normalised array of the same value.\<close>

lemma strip_result:
  assumes "digits_ok ds"
  shows "normed (take (mpn_remove_trailing_zeros ds (length ds)) ds)"
    and "dval (take (mpn_remove_trailing_zeros ds (length ds)) ds) = dval ds"
  using mpn_remove_trailing_zeros_normed [OF assms, of "length ds"]
    mpn_remove_trailing_zeros_dval [of "length ds" ds] by simp_all

lemma mpn_cmp_loop_sgn:
  "digits_ok idig \<Longrightarrow> digits_ok jdig \<Longrightarrow> n \<le> length idig \<Longrightarrow> n \<le> length jdig \<Longrightarrow>
   mpn_cmp_loop idig jdig n = sgn (int (dval (take n idig)) - int (dval (take n jdig)))"
proof (induction n)
  case (Suc n)
  let ?a = "dval (take n idig)" and ?b = "dval (take n jdig)" and ?P = "DIG_BASE ^ n"
  have d: "idig ! n < DIG_BASE" "jdig ! n < DIG_BASE"
    using Suc.prems by (simp_all add: digits_ok_nth)
  then have cmp: "s32 (int (idig ! n) - int (jdig ! n)) = int (idig ! n) - int (jdig ! n)"
    by (intro s32_id) (simp_all add: DIG_BASE_num)
  have val: "dval (take (Suc n) idig) = ?a + ?P * idig ! n" "dval (take (Suc n) jdig) = ?b + ?P * jdig ! n"
    using Suc.prems by (simp_all add: take_Suc_conv_app_nth dval_append)
  have bound: "?a < ?P" "?b < ?P"
    using Suc.prems dval_bound [of "take n idig"] dval_bound [of "take n jdig"] by simp_all
  have lt: "x + ?P * a < y + ?P * b" if "a < b" "x < ?P" for a b x y :: nat
  proof -
    have "?P * Suc a \<le> ?P * b" using that by (intro mult_le_mono2) simp
    then show ?thesis using that by simp
  qed
  consider "idig ! n < jdig ! n" | "idig ! n > jdig ! n" | "idig ! n = jdig ! n" by linarith
  then show ?case
  proof cases
    case 1
    then have "?a + ?P * idig ! n < ?b + ?P * jdig ! n" using bound by (intro lt)
    then have "int (dval (take (Suc n) idig)) - int (dval (take (Suc n) jdig)) < 0"
      unfolding val by linarith
    with 1 cmp show ?thesis by simp
  next
    case 2
    then have "?b + ?P * jdig ! n < ?a + ?P * idig ! n" using bound by (intro lt)
    then have "int (dval (take (Suc n) idig)) - int (dval (take (Suc n) jdig)) > 0"
      unfolding val by linarith
    with 2 cmp show ?thesis by simp
  next
    case 3
    then show ?thesis using Suc cmp val by simp
  qed
qed simp

lemma mpn_cmp_sgn:
  assumes "normed idig" "normed jdig"
  shows "mpn_cmp idig jdig = sgn (int (dval idig) - int (dval jdig))"
proof -
  consider "length idig < length jdig" | "length idig > length jdig" | "length idig = length jdig"
    by linarith
  then show ?thesis
  proof cases
    case 1
    then have "dval idig < dval jdig" using assms by (intro dval_length_mono) auto
    with 1 show ?thesis by (simp add: mpn_cmp_def)
  next
    case 2
    then have "dval jdig < dval idig" using assms by (intro dval_length_mono) auto
    with 2 show ?thesis by (simp add: mpn_cmp_def)
  next
    case 3
    then show ?thesis using assms mpn_cmp_loop_sgn [of idig jdig "length idig"]
      by (simp add: mpn_cmp_def)
  qed
qed

section \<open>Addition and subtraction\<close>

lemma digit_split: "c mod DIG_BASE + DIG_BASE * (c div DIG_BASE + x) = c + DIG_BASE * x"
  by (simp add: algebra_simps)

lemma carry_step:
  assumes "carry \<le> 1" "j < DIG_BASE" "k < DIG_BASE"
  shows "(carry + (j + k)) div DIG_BASE \<le> 1" and "u32 (carry + (j + k)) = carry + (j + k)"
proof -
  have "carry + (j + k) < 2 * DIG_BASE" using assms by linarith
  then show "(carry + (j + k)) div DIG_BASE \<le> 1" "u32 (carry + (j + k)) = carry + (j + k)"
    using less_mult_imp_div_less [of "carry + (j + k)" 2 DIG_BASE]
    by (simp_all add: u32_def DIG_BASE_num)
qed

lemmas carry_step1 = carry_step [where k = 0, simplified]

lemma mpn_add_loop_correct:
  "carry \<le> 1 \<Longrightarrow> digits_ok js \<Longrightarrow> digits_ok ks \<Longrightarrow> length ks \<le> length js \<Longrightarrow>
   digits_ok (mpn_add_loop carry js ks) \<and> dval (mpn_add_loop carry js ks) = carry + dval js + dval ks"
proof (induction carry js ks rule: mpn_add_loop.induct)
  case (1 carry j js k ks)
  then have "u32 (carry + (j + k)) = carry + (j + k)" "(carry + (j + k)) div DIG_BASE \<le> 1"
    using carry_step [of carry j k] by simp_all
  with 1 show ?case by (simp add: Let_def digit_split algebra_simps)
next
  case (2 carry j js)
  then have "u32 (carry + j) = carry + j" "(carry + j) div DIG_BASE \<le> 1"
    using carry_step1 [of carry j] by simp_all
  with 2 show ?case by (simp add: Let_def digit_split algebra_simps)
next
  case (3 carry ks)
  then show ?case by (auto simp: u16_def DIG_BASE_num)
qed

lemma mpn_add_loop_length:
  "length ks \<le> length js \<Longrightarrow> length js \<le> length (mpn_add_loop carry js ks) \<and>
   length (mpn_add_loop carry js ks) \<le> length js + 1"
  by (induction carry js ks rule: mpn_add_loop.induct) (auto simp: Let_def)

text \<open>The value of the sum of a normalised array has no zero at its high end.\<close>

lemma normed_if_dval_ge:
  assumes "digits_ok ds" "ds \<noteq> [] \<Longrightarrow> DIG_BASE ^ (length ds - 1) \<le> dval ds"
  shows "normed ds"
proof (cases "ds = []")
  case False
  have "last ds \<noteq> 0"
  proof
    assume "last ds = 0"
    then have "dval ds = dval (butlast ds)"
      using dval_append [of "butlast ds" "[last ds]"] append_butlast_last_id [OF False] by simp
    moreover have "digits_ok (butlast ds)" using assms(1) by (simp add: butlast_conv_take)
    ultimately show False using dval_bound [of "butlast ds"] assms(2) False by simp
  qed
  then show ?thesis using assms(1) by (simp add: normed_def)
qed simp

lemma normed_grow:
  assumes "normed xs" "digits_ok ds" "length ds = length xs" "dval xs \<le> dval ds"
  shows "normed ds"
proof (rule normed_if_dval_ge [OF assms(2)])
  assume "ds \<noteq> []"
  with assms(1,3) have "xs \<noteq> []" "last xs \<noteq> 0" by (auto simp: normed_def)
  then show "DIG_BASE ^ (length ds - 1) \<le> dval ds"
    using dval_last_lower [of xs] assms(3,4) by simp
qed

lemma mpn_add_loop_carry_last:
  "carry \<le> 1 \<Longrightarrow> digits_ok js \<Longrightarrow> digits_ok ks \<Longrightarrow> length ks \<le> length js \<Longrightarrow>
   length (mpn_add_loop carry js ks) = length js + 1 \<Longrightarrow> last (mpn_add_loop carry js ks) \<noteq> 0"
proof (induction carry js ks rule: mpn_add_loop.induct)
  case (1 carry j js k ks)
  let ?c = "u32 (carry + (j + k))"
  have "?c div DIG_BASE \<le> 1"
    using 1 carry_step [of carry j k] by simp
  moreover have "mpn_add_loop (?c div DIG_BASE) js ks \<noteq> []"
    using 1 mpn_add_loop_length [of ks js "?c div DIG_BASE"] by (auto simp: Let_def)
  ultimately show ?case using 1 by (simp add: Let_def)
next
  case (2 carry j js)
  let ?c = "u32 (carry + j)"
  have "?c div DIG_BASE \<le> 1"
    using 2 carry_step1 [of carry j] by simp
  moreover have "mpn_add_loop (?c div DIG_BASE) js [] \<noteq> []"
    using 2 mpn_add_loop_length [of "[]" js "?c div DIG_BASE"] by (auto simp: Let_def)
  ultimately show ?case using 2 by (simp add: Let_def)
next
  case (3 carry ks)
  then show ?case by (auto simp: u16_def split: if_splits)
qed

lemma mpn_add_correct:
  assumes "normed jdig" "normed kdig" "length kdig \<le> length jdig" "mpn_add jdig kdig = (ds, n)"
  shows "n = length ds \<and> normed ds \<and> dval ds = dval jdig + dval kdig \<and>
    length ds \<le> length jdig + 1"
proof -
  have ds: "ds = mpn_add_loop 0 jdig kdig" "n = length ds"
    using assms(4) by (auto simp: mpn_add_def Let_def)
  have ok: "digits_ok ds" and val: "dval ds = dval jdig + dval kdig"
    using assms mpn_add_loop_correct [of 0 jdig kdig] ds by auto
  have len: "length jdig \<le> length ds" "length ds \<le> length jdig + 1"
    using assms(3) mpn_add_loop_length [of kdig jdig 0] ds by auto
  have "normed ds"
  proof (cases "length ds = length jdig + 1")
    case True
    then show ?thesis
      using assms ok ds mpn_add_loop_carry_last [of 0 jdig kdig] by (simp add: normed_def)
  next
    case False
    with len have "length ds = length jdig" by simp
    then show ?thesis using assms(1) ok val by (intro normed_grow [of jdig ds]) simp_all
  qed
  with ds val len show ?thesis by simp
qed

lemma mpn_sub_loop_length [simp]: "length (mpn_sub_loop borrow js ks) = length js"
  by (induction borrow js ks rule: mpn_sub_loop.induct) (simp_all add: Let_def)

text \<open>The digits written are the difference modulo the length; the final borrow is the quotient.\<close>

lemma int_digit_split: "int (nat (b mod int DIG_BASE)) = b mod int DIG_BASE"
  by simp

lemma sub_step_div:
  fixes b x P :: int
  assumes "0 < P"
  shows "(b div int DIG_BASE + x) mod P * int DIG_BASE + b mod int DIG_BASE =
    (b + int DIG_BASE * x) mod (int DIG_BASE * P)"
proof -
  have "b + int DIG_BASE * x = int DIG_BASE * (b div int DIG_BASE + x) + b mod int DIG_BASE"
    by (simp add: algebra_simps)
  moreover have "(int DIG_BASE * (b div int DIG_BASE + x) + b mod int DIG_BASE) mod (int DIG_BASE * P)
      = int DIG_BASE * ((b div int DIG_BASE + x) mod P) + b mod int DIG_BASE"
    by (subst zmod_zmult2_eq) (use assms in \<open>simp_all add: div_mult_self1\<close>)
  ultimately show ?thesis by (simp add: mult.commute)
qed

lemma borrow_step:
  assumes "- 1 \<le> borrow" "borrow \<le> 0" "j < DIG_BASE" "k < DIG_BASE"
  defines "b \<equiv> borrow + (int j - int k)"
  shows "s32 b = b" and "- 1 \<le> b div int DIG_BASE" and "b div int DIG_BASE \<le> 0"
proof -
  have b: "- 65536 \<le> b" "b \<le> 65535" using assms by (simp_all add: DIG_BASE_num)
  then show "s32 b = b" by (intro s32_id) simp_all
  show "- 1 \<le> b div int DIG_BASE" "b div int DIG_BASE \<le> 0"
    unfolding DIG_BASE_num of_nat_numeral using b by linarith+
qed

lemmas borrow_step1 = borrow_step [where k = 0, simplified]

lemma mpn_sub_loop_correct:
  "- 1 \<le> borrow \<Longrightarrow> borrow \<le> 0 \<Longrightarrow> digits_ok js \<Longrightarrow> digits_ok ks \<Longrightarrow> length ks \<le> length js \<Longrightarrow>
   digits_ok (mpn_sub_loop borrow js ks) \<and>
   int (dval (mpn_sub_loop borrow js ks)) =
     (borrow + int (dval js) - int (dval ks)) mod int (DIG_BASE ^ length js)"
proof (induction borrow js ks rule: mpn_sub_loop.induct)
  case (1 borrow j js k ks)
  let ?b = "borrow + (int j - int k)"
  have b: "s32 ?b = ?b" and d: "- 1 \<le> ?b div int DIG_BASE" "?b div int DIG_BASE \<le> 0"
    using 1 borrow_step [of borrow j k] by simp_all
  let ?R = "mpn_sub_loop (?b div int DIG_BASE) js ks"
  have R: "mpn_sub_loop borrow (j # js) (k # ks) = nat (?b mod int DIG_BASE) # ?R"
    by (simp add: Let_def b)
  have "digits_ok ?R" and "int (dval ?R) =
      (?b div int DIG_BASE + (int (dval js) - int (dval ks))) mod int (DIG_BASE ^ length js)"
    using 1 b d by (simp_all add: add_diff_eq [symmetric])
  then show ?case
    unfolding R using sub_step_div [of "int (DIG_BASE ^ length js)" ?b "int (dval js) - int (dval ks)"]
    by (simp add: nat_less_iff algebra_simps)
next
  case (2 borrow j js)
  let ?b = "borrow + int j"
  have b: "s32 ?b = ?b" and d: "- 1 \<le> ?b div int DIG_BASE" "?b div int DIG_BASE \<le> 0"
    using 2 borrow_step1 [of borrow j] by simp_all
  let ?R = "mpn_sub_loop (?b div int DIG_BASE) js []"
  have R: "mpn_sub_loop borrow (j # js) [] = nat (?b mod int DIG_BASE) # ?R"
    by (simp add: Let_def b)
  have "digits_ok ?R" and "int (dval ?R) =
      (?b div int DIG_BASE + int (dval js)) mod int (DIG_BASE ^ length js)"
    using 2 b d by simp_all
  then show ?case
    unfolding R using sub_step_div [of "int (DIG_BASE ^ length js)" ?b "int (dval js)"]
    by (simp add: nat_less_iff algebra_simps)
next
  case (3 borrow ks)
  then show ?case by simp
qed

lemma mpn_sub_correct:
  assumes "normed jdig" "normed kdig" "dval kdig \<le> dval jdig" "mpn_sub jdig kdig = (ds, n)"
  shows "length ds = length jdig \<and> n \<le> length ds \<and> normed (take n ds) \<and>
    dval (take n ds) = dval jdig - dval kdig"
proof -
  have ds: "ds = mpn_sub_loop 0 jdig kdig" "n = mpn_remove_trailing_zeros ds (length ds)"
    using assms(4) by (auto simp: mpn_sub_def Let_def)
  have len: "length kdig \<le> length jdig"
    using assms dval_length_mono [of kdig jdig] by (cases "length kdig \<le> length jdig") auto
  have c: "digits_ok ds" "int (dval ds) = (int (dval jdig) - int (dval kdig)) mod int (DIG_BASE ^ length jdig)"
    using assms len mpn_sub_loop_correct [of 0 jdig kdig] ds by auto
  have "dval jdig < DIG_BASE ^ length jdig" using assms(1) by (simp add: dval_bound)
  then have "int (dval jdig) - int (dval kdig) < int (DIG_BASE ^ length jdig)"
    by (simp add: of_nat_less_iff [symmetric] del: of_nat_less_iff of_nat_power)
  then have "dval ds = dval jdig - dval kdig" using c(2) assms(3) by simp
  then show ?thesis
    using ds c strip_result [OF c(1)] mpn_remove_trailing_zeros_le [of ds "length ds"] by simp
qed

section \<open>Multiplication\<close>

lemma mul_step:
  assumes "carry < DIG_BASE" "i < DIG_BASE" "j < DIG_BASE" "k < DIG_BASE"
  shows "u32 (carry + (i + j * k)) = carry + (i + j * k)"
    and "(carry + (i + j * k)) div DIG_BASE < DIG_BASE"
proof -
  have "j * k \<le> (DIG_BASE - 1) * (DIG_BASE - 1)"
    using assms by (intro mult_le_mono) simp_all
  then have le: "carry + (i + j * k) < DIG_BASE * DIG_BASE"
    using assms by (simp add: DIG_BASE_num)
  then show "u32 (carry + (i + j * k)) = carry + (i + j * k)"
    by (intro u32_id) (simp add: DIG_BASE_num)
  show "(carry + (i + j * k)) div DIG_BASE < DIG_BASE"
    using le by (rule less_mult_imp_div_less)
qed

lemmas mul_step0 = mul_step [where i = 0, simplified]

lemma mpn_mul_dig_add_dig_loop_correct:
  "carry < DIG_BASE \<Longrightarrow> dmul < DIG_BASE \<Longrightarrow> digits_ok idig \<Longrightarrow>
   digits_ok (mpn_mul_dig_add_dig_loop dmul carry idig) \<and>
   dval (mpn_mul_dig_add_dig_loop dmul carry idig) = carry + dmul * dval idig \<and>
   length idig \<le> length (mpn_mul_dig_add_dig_loop dmul carry idig) \<and>
   length (mpn_mul_dig_add_dig_loop dmul carry idig) \<le> length idig + 1 \<and>
   (length (mpn_mul_dig_add_dig_loop dmul carry idig) = length idig + 1 \<longrightarrow>
      last (mpn_mul_dig_add_dig_loop dmul carry idig) \<noteq> 0)"
proof (induction dmul carry idig rule: mpn_mul_dig_add_dig_loop.induct)
  case (1 dmul carry)
  then show ?case by (simp add: u16_eq_mod_base)
next
  case (2 dmul carry i idig)
  let ?c = "carry + i * dmul"
  have c: "u32 ?c = ?c" "?c div DIG_BASE < DIG_BASE"
    using 2 mul_step0 [of carry i dmul] by simp_all
  let ?R = "mpn_mul_dig_add_dig_loop dmul (?c div DIG_BASE) idig"
  have R: "mpn_mul_dig_add_dig_loop dmul carry (i # idig) = ?c mod DIG_BASE # ?R"
    by (simp add: Let_def c)
  have "digits_ok ?R" and v: "dval ?R = ?c div DIG_BASE + dmul * dval idig"
    and "length idig \<le> length ?R" "length ?R \<le> length idig + 1"
    and "length ?R = length idig + 1 \<Longrightarrow> last ?R \<noteq> 0 \<and> ?R \<noteq> []"
    using 2 c by (auto simp: Let_def)
  then show ?case unfolding R by (auto simp: digit_split v algebra_simps)
qed

lemma mpn_mul_dig_add_dig_correct:
  assumes "normed idig" "0 < dmul" "dmul < DIG_BASE" "dadd < DIG_BASE"
    "mpn_mul_dig_add_dig idig dmul dadd = (ds, n)"
  shows "n = length ds \<and> normed ds \<and> dval ds = dmul * dval idig + dadd \<and> length ds \<le> length idig + 1"
proof -
  have ds: "ds = mpn_mul_dig_add_dig_loop dmul dadd idig" "n = length ds"
    using assms(5) by (auto simp: mpn_mul_dig_add_dig_def Let_def)
  have c: "digits_ok ds" "dval ds = dadd + dmul * dval idig" "length idig \<le> length ds"
    "length ds \<le> length idig + 1" "length ds = length idig + 1 \<Longrightarrow> last ds \<noteq> 0"
    using assms mpn_mul_dig_add_dig_loop_correct [of dadd dmul idig] ds by auto
  have "normed ds"
  proof (cases "length ds = length idig + 1")
    case True
    then show ?thesis using c by (simp add: normed_def)
  next
    case False
    with c have len: "length ds = length idig" by simp
    have "dval idig \<le> dmul * dval idig" using assms(2) by simp
    then have "dval idig \<le> dval ds" unfolding c(2) by linarith
    then show ?thesis using assms(1) c(1) len by (intro normed_grow [of idig ds])
  qed
  with ds c show ?thesis by simp
qed

lemma mpn_mul_inner_correct:
  "carry < DIG_BASE \<Longrightarrow> k < DIG_BASE \<Longrightarrow> digits_ok is \<Longrightarrow> digits_ok js \<Longrightarrow>
   length js < length is \<Longrightarrow> \<forall>d \<in> set (drop (length js) is). d = 0 \<Longrightarrow>
   \<exists>r n. mpn_mul_inner carry is js k = Some (r, n) \<and> length r = length is \<and> digits_ok r \<and>
     dval r = carry + dval is + dval js * k \<and> length js \<le> n \<and> n \<le> length js + 1 \<and>
     (\<forall>d \<in> set (drop n r). d = 0) \<and> (n = length js + 1 \<longrightarrow> r ! length js \<noteq> 0)"
proof (induction carry "is" js k rule: mpn_mul_inner.induct)
  case (1 carry "is" k)
  then show ?case by (cases "is") (auto simp: u16_eq_mod_base)
next
  case (2 carry j js k)
  then show ?case by simp
next
  case (3 carry i "is" j js k)
  let ?c = "carry + (i + j * k)"
  have c: "u32 ?c = ?c" "?c div DIG_BASE < DIG_BASE"
    using 3 mul_step [of carry i j k] by simp_all
  then obtain r n where IH: "mpn_mul_inner (?c div DIG_BASE) is js k = Some (r, n)"
    "length r = length is" "digits_ok r" "dval r = ?c div DIG_BASE + dval is + dval js * k"
    "length js \<le> n" "n \<le> length js + 1" "\<forall>d \<in> set (drop n r). d = 0"
    "n = length js + 1 \<longrightarrow> r ! length js \<noteq> 0"
    using 3 by auto
  have "?c mod DIG_BASE + DIG_BASE * dval r = carry + dval (i # is) + dval (j # js) * k"
    using IH(4) digit_split [of ?c "dval is + dval js * k"] by (simp add: algebra_simps)
  with IH c show ?case by (simp add: Let_def)
qed

lemma mpn_mul_outer_correct:
  "digits_ok is \<Longrightarrow> digits_ok js \<Longrightarrow> digits_ok ks \<Longrightarrow> ks \<noteq> [] \<Longrightarrow>
   length js + length ks \<le> length is \<Longrightarrow> \<forall>d \<in> set (drop (length js) is). d = 0 \<Longrightarrow>
   \<exists>r l. mpn_mul_outer pos ilen is js ks = Some (r, pos + l) \<and> length r = length is \<and> digits_ok r \<and>
     dval r = dval is + dval js * dval ks \<and> length js + length ks \<le> l + 1 \<and>
     l \<le> length js + length ks \<and> (\<forall>d \<in> set (drop l r). d = 0) \<and>
     (l = length js + length ks \<longrightarrow> r ! (l - 1) \<noteq> 0)"
proof (induction pos ilen "is" js ks rule: mpn_mul_outer.induct)
  case (1 pos ilen "is" jdig)
  then show ?case by simp
next
  case (2 pos ilen "is" js k ks)
  obtain r n where inner: "mpn_mul_inner 0 is js k = Some (r, n)"
    "length r = length is" "digits_ok r" "dval r = dval is + dval js * k"
    "length js \<le> n" "n \<le> length js + 1" "\<forall>d \<in> set (drop n r). d = 0"
    "n = length js + 1 \<longrightarrow> r ! length js \<noteq> 0"
    using 2 mpn_mul_inner_correct [of 0 k "is" js] by auto
  then obtain d r' where r: "r = d # r'" using 2(6) by (cases r) auto
  show ?case
  proof (cases "ks = []")
    case True
    then show ?thesis using inner 2 r by auto
  next
    case False
    have "\<forall>d \<in> set (drop (length js) r'). d = 0"
      using inner(6,7) r set_drop_subset_set_drop [of n "length js + 1" r] by auto
    then obtain q l where IH: "mpn_mul_outer (Suc pos) (pos + n) r' js ks = Some (q, Suc pos + l)"
      "length q = length r'" "digits_ok q" "dval q = dval r' + dval js * dval ks"
      "length js + length ks \<le> l + 1" "l \<le> length js + length ks" "\<forall>d \<in> set (drop l q). d = 0"
      "l = length js + length ks \<longrightarrow> q ! (l - 1) \<noteq> 0"
      using 2(1) [OF inner(1) refl] 2 inner r False by auto
    have "dval (d # q) = dval is + dval js * dval (k # ks)"
      using IH(4) inner(4) r by (simp add: algebra_simps)
    moreover have "mpn_mul_outer pos ilen is js (k # ks) = Some (d # q, pos + Suc l)"
      using inner(1) r IH(1) by simp
    moreover have "l = length js + length ks \<Longrightarrow> (d # q) ! l \<noteq> 0"
      using IH(8) False by (cases l) auto
    ultimately show ?thesis using inner r IH by (intro exI [of _ "d # q"] exI [of _ "Suc l"]) auto
  qed
qed

lemma mpn_mul_correct:
  assumes "normed jdig" "normed kdig" "jdig \<noteq> []" "kdig \<noteq> []"
    "length jdig + length kdig \<le> m"
  shows "\<exists>r l. mpn_mul (replicate m 0) jdig kdig = Some (r, l) \<and> length r = m \<and> l \<le> m \<and>
    normed (take l r) \<and> dval (take l r) = dval jdig * dval kdig"
proof -
  obtain r l where m: "mpn_mul (replicate m 0) jdig kdig = Some (r, l)" "length r = m" "digits_ok r"
    "dval r = dval jdig * dval kdig" "length jdig + length kdig \<le> l + 1"
    "l \<le> length jdig + length kdig" "\<forall>d \<in> set (drop l r). d = 0"
    "l = length jdig + length kdig \<longrightarrow> r ! (l - 1) \<noteq> 0"
    using mpn_mul_outer_correct [of "replicate m 0" jdig kdig 0 0] assms by (auto simp: mpn_mul_def)
  have "dval (drop l r) = 0" using m(7) by (simp add: dval_eq_0_iff)
  then have v: "dval (take l r) = dval jdig * dval kdig"
    using dval_take_drop [of r l] m(4) by simp
  have "normed (take l r)"
  proof (cases "l = length jdig + length kdig")
    case True
    then have "take l r \<noteq> []" "length (take l r) = l" using m assms by auto
    then have "last (take l r) = r ! (l - 1)" by (simp add: last_conv_nth)
    then show ?thesis using True m by (simp add: normed_def)
  next
    case False
    then have l: "l - 1 = (length jdig - 1) + (length kdig - 1)"
      using m assms by (cases jdig; cases kdig) auto
    have "DIG_BASE ^ (length jdig - 1) * DIG_BASE ^ (length kdig - 1) \<le> dval jdig * dval kdig"
      using assms by (intro mult_le_mono dval_last_lower) (auto simp: normed_def)
    moreover have "length (take l r) = l" using m assms(5) by simp
    ultimately show ?thesis
      using m(3) v l by (intro normed_if_dval_ge) (simp_all add: power_add)
  qed
  with m v assms(5) show ?thesis by auto
qed

section \<open>Shifts\<close>

lemma DIG_BASE_split: "a + b = DIG_SIZE \<Longrightarrow> DIG_BASE = 2 ^ a * 2 ^ b"
  by (simp add: DIG_BASE_def power_add [symmetric])

lemma or_digit: "j < DIG_BASE \<Longrightarrow> p * DIG_BASE OR j = p * DIG_BASE + j"
  by (simp add: DIG_BASE_def or_shift)

lemma shift_step:
  fixes p j P V np s :: nat
  assumes "np + s = DIG_SIZE" "0 < P" "V < P"
  shows "(p * DIG_BASE + j) div 2 ^ s mod DIG_BASE * (P * DIG_BASE) +
      (j * P + V) * 2 ^ np mod (P * DIG_BASE) =
    (p * (P * DIG_BASE) + (j * P + V)) * 2 ^ np mod (P * DIG_BASE * DIG_BASE)"
proof -
  let ?W = "j * P + V"
  have B: "DIG_BASE = 2 ^ np * 2 ^ s" using assms(1) by (rule DIG_BASE_split)
  have "?W * 2 ^ np div (P * DIG_BASE) = ?W div (P * 2 ^ s)"
  proof -
    have "P * DIG_BASE = (P * 2 ^ s) * 2 ^ np" by (simp add: B)
    then show ?thesis by (simp only: div_mult_mult2 power_not_zero zero_neq_numeral) simp
  qed
  also have "\<dots> = ?W div P div 2 ^ s" by (simp add: div_mult2_eq)
  also have "?W div P = j" using assms(2,3) by simp
  finally have q: "?W * 2 ^ np div (P * DIG_BASE) = j div 2 ^ s" .
  have t: "(p * DIG_BASE + j) div 2 ^ s = p * 2 ^ np + j div 2 ^ s"
  proof -
    have "p * DIG_BASE + j = j + (p * 2 ^ np) * 2 ^ s" by (simp add: B)
    then show ?thesis by (simp only: div_mult_self1 power_not_zero zero_neq_numeral) simp
  qed
  have "(p * (P * DIG_BASE) + ?W) * 2 ^ np = p * 2 ^ np * (P * DIG_BASE) + ?W * 2 ^ np"
    by (simp add: algebra_simps)
  also have "\<dots> = p * 2 ^ np * (P * DIG_BASE) + (?W * 2 ^ np div (P * DIG_BASE) * (P * DIG_BASE)
      + ?W * 2 ^ np mod (P * DIG_BASE))"
    by (simp only: div_mult_mod_eq)
  also have "\<dots> = (p * 2 ^ np + ?W * 2 ^ np div (P * DIG_BASE)) * (P * DIG_BASE)
      + ?W * 2 ^ np mod (P * DIG_BASE)"
    by (simp only: add_mult_distrib add.assoc)
  finally have "(p * (P * DIG_BASE) + ?W) * 2 ^ np =
      (p * 2 ^ np + ?W * 2 ^ np div (P * DIG_BASE)) * (P * DIG_BASE) + ?W * 2 ^ np mod (P * DIG_BASE)" .
  then have "(p * (P * DIG_BASE) + ?W) * 2 ^ np mod (P * DIG_BASE * DIG_BASE) =
      ((p * 2 ^ np + j div 2 ^ s) * (P * DIG_BASE) + ?W * 2 ^ np mod (P * DIG_BASE))
        mod ((P * DIG_BASE) * DIG_BASE)"
    by (simp only: q)
  also have "\<dots> = (p * 2 ^ np + j div 2 ^ s) mod DIG_BASE * (P * DIG_BASE) + ?W * 2 ^ np mod (P * DIG_BASE)"
    using assms(2) by (subst mod_mult2_eq) (simp add: mult.commute)
  finally show ?thesis unfolding t by simp
qed

lemma mpn_shl_loop_correct:
  "np + s = DIG_SIZE \<Longrightarrow> p < DIG_BASE \<Longrightarrow> digits_ok js \<Longrightarrow>
   length (mpn_shl_loop np (p * DIG_BASE) js) = length js + 1 \<and>
   digits_ok (mpn_shl_loop np (p * DIG_BASE) js) \<and>
   dval (rev (mpn_shl_loop np (p * DIG_BASE) js)) =
     (p * DIG_BASE ^ length js + dval (rev js)) * 2 ^ np mod DIG_BASE ^ (length js + 1)"
proof (induction js arbitrary: p)
  case Nil
  then have "DIG_SIZE - np = s" "p * DIG_BASE = p * 2 ^ np * 2 ^ s"
    using DIG_BASE_split [of np s] by auto
  then have "p * DIG_BASE div 2 ^ (DIG_SIZE - np) = p * 2 ^ np"
    by (simp only: nonzero_mult_div_cancel_right power_not_zero zero_neq_numeral) simp
  then show ?case by simp
next
  case (Cons j js)
  let ?n = "length js"
  have s: "DIG_SIZE - np = s" using Cons.prems by simp
  have or: "p * DIG_BASE OR j = p * DIG_BASE + j" using Cons.prems by (simp add: or_digit)
  have "(p * DIG_BASE + j) * DIG_BASE = j * DIG_BASE + p * (DIG_BASE * DIG_BASE)"
    by (simp add: algebra_simps)
  moreover have "j * DIG_BASE < 2 ^ 32" using Cons.prems by (simp add: DIG_BASE_num)
  ultimately have next_d: "u32 ((p * DIG_BASE + j) * DIG_BASE) = j * DIG_BASE"
    by (simp add: u32_def DIG_BASE_sq)
  let ?R = "mpn_shl_loop np (j * DIG_BASE) js"
  have R: "mpn_shl_loop np (p * DIG_BASE) (j # js) =
      ((p * DIG_BASE + j) div 2 ^ s mod DIG_BASE) # ?R"
    by (simp add: Let_def or next_d s)
  have IH: "length ?R = ?n + 1" "digits_ok ?R"
    "dval (rev ?R) = (j * DIG_BASE ^ ?n + dval (rev js)) * 2 ^ np mod DIG_BASE ^ (?n + 1)"
    using Cons by auto
  have "dval (rev js) < DIG_BASE ^ ?n" using Cons.prems dval_bound [of "rev js"] by simp
  let ?t = "(p * DIG_BASE + j) div 2 ^ s mod DIG_BASE"
  have "dval (rev (mpn_shl_loop np (p * DIG_BASE) (j # js))) = dval (rev ?R) + DIG_BASE ^ (?n + 1) * ?t"
    unfolding R by (simp add: dval_append IH(1))
  also have "\<dots> = ?t * (DIG_BASE ^ ?n * DIG_BASE) +
      (j * DIG_BASE ^ ?n + dval (rev js)) * 2 ^ np mod (DIG_BASE ^ ?n * DIG_BASE)"
    unfolding IH(3) by (simp add: mult.commute)
  also have "\<dots> = (p * (DIG_BASE ^ ?n * DIG_BASE) + (j * DIG_BASE ^ ?n + dval (rev js))) * 2 ^ np
        mod (DIG_BASE ^ ?n * DIG_BASE * DIG_BASE)"
    using Cons.prems \<open>dval (rev js) < _\<close> by (intro shift_step) simp_all
  also have "j * DIG_BASE ^ ?n + dval (rev js) = dval (rev (j # js))" by (simp add: dval_append)
  also have "DIG_BASE ^ ?n * DIG_BASE = DIG_BASE ^ length (j # js)" by simp
  also have "DIG_BASE ^ length (j # js) * DIG_BASE = DIG_BASE ^ (length (j # js) + 1)" by simp
  finally show ?case unfolding R using IH(1,2) by simp
qed

lemma mpn_shl_correct:
  assumes "normed jdig" "0 < n" "n < 2 ^ 31" "mpn_shl jdig n = (ds, l)"
  shows "length ds = length jdig + (n + DIG_SIZE - 1) div DIG_SIZE \<and> l \<le> length ds \<and>
    normed (take l ds) \<and> dval (take l ds) = dval jdig * 2 ^ n"
proof -
  define np where "np = (if n mod DIG_SIZE = 0 then DIG_SIZE else n mod DIG_SIZE)"
  define w where "w = (n + DIG_SIZE - 1) div DIG_SIZE"
  have n: "n = DIG_SIZE * (w - 1) + np" and w: "0 < w" and np: "0 < np" "np \<le> DIG_SIZE"
  proof -
    obtain m where m: "n = Suc m" using assms(2) by (cases n) auto
    then have "np = Suc (m mod DIG_SIZE)" by (simp add: np_def DIG_SIZE_def mod_Suc)
    moreover have "w = Suc (m div DIG_SIZE)" by (simp add: w_def m DIG_SIZE_def)
    ultimately show "n = DIG_SIZE * (w - 1) + np" "0 < w" "0 < np" "np \<le> DIG_SIZE"
      using m by (simp_all add: DIG_SIZE_def Suc_leI)
  qed
  let ?L = "mpn_shl_loop np 0 (rev jdig)"
  have w32: "u32 (n + DIG_SIZE - 1) div DIG_SIZE = w"
    using assms(3) by (simp add: u32_def w_def DIG_SIZE_def)
  have ds: "ds = replicate (w - 1) 0 @ rev ?L"
    "l = mpn_remove_trailing_zeros ds (length jdig + w)"
    using assms(4) w32 by (auto simp: mpn_shl_def Let_def np_def [symmetric])
  have L: "length ?L = length jdig + 1" "digits_ok ?L"
    "dval (rev ?L) = dval jdig * 2 ^ np mod DIG_BASE ^ (length jdig + 1)"
    using mpn_shl_loop_correct [of np "DIG_SIZE - np" 0 "rev jdig"] assms(1) np by auto
  have "2 ^ np \<le> DIG_BASE" using np(2) unfolding DIG_BASE_def by (intro power_increasing) simp_all
  then have "dval jdig * 2 ^ np < DIG_BASE ^ length jdig * DIG_BASE"
    using dval_bound [of jdig] assms(1) by (intro mult_less_le_imp_less) simp_all
  then have "dval (rev ?L) = dval jdig * 2 ^ np" using L(3) by (simp add: mult.commute)
  then have "dval ds = dval jdig * (2 ^ np * DIG_BASE ^ (w - 1))"
    by (simp add: ds(1) dval_append)
  also have "2 ^ np * DIG_BASE ^ (w - 1) = 2 ^ n"
    by (simp add: DIG_BASE_def n power_add power_mult)
  finally have v: "dval ds = dval jdig * 2 ^ n" .
  have len: "length ds = length jdig + w" and ok: "digits_ok ds" using ds(1) L w by simp_all
  show ?thesis
    using strip_result [OF ok] mpn_remove_trailing_zeros_le [of ds "length ds"] v len ds(2)
    unfolding w_def by simp
qed

lemma mpn_shr_loop_correct:
  "np < DIG_SIZE \<Longrightarrow> digits_ok js \<Longrightarrow>
   length (mpn_shr_loop np js) = length js \<and> digits_ok (mpn_shr_loop np js) \<and>
   dval (mpn_shr_loop np js) = dval js div 2 ^ np"
proof (induction np js rule: mpn_shr_loop.induct)
  case (1 np)
  then show ?case by simp
next
  case (2 np j)
  then have "j div 2 ^ np < DIG_BASE" by (simp add: le_less_trans [OF div_le_dividend])
  then show ?case by simp
next
  case (3 np j j1 js)
  obtain s where B: "DIG_BASE = 2 ^ s * 2 ^ np"
    using 3(2) DIG_BASE_split [of "DIG_SIZE - np" np] by auto
  have "u32 (j1 * DIG_BASE) = j1 * DIG_BASE"
    using 3 by (intro u32_id) (simp add: DIG_BASE_num)
  then have d: "j OR u32 (j1 * DIG_BASE) = j + j1 * DIG_BASE"
    using 3 or_digit [of j j1] by (simp add: or.commute)
  let ?D = "dval js"
  let ?X = "j1 + DIG_BASE * ?D"
  have "(j + DIG_BASE * ?X) div 2 ^ np = j div 2 ^ np + 2 ^ s * ?X"
  proof -
    have "j + DIG_BASE * ?X = j + (2 ^ s * ?X) * 2 ^ np" by (simp add: B)
    then show ?thesis by (simp only: div_mult_self1 power_not_zero zero_neq_numeral) simp
  qed
  moreover have "(j + j1 * DIG_BASE) div 2 ^ np = j div 2 ^ np + 2 ^ s * j1"
  proof -
    have "j + j1 * DIG_BASE = j + (2 ^ s * j1) * 2 ^ np" by (simp add: B)
    then show ?thesis by (simp only: div_mult_self1 power_not_zero zero_neq_numeral) simp
  qed
  moreover have "(j div 2 ^ np + 2 ^ s * j1) mod DIG_BASE + DIG_BASE * (?X div 2 ^ np) =
      j div 2 ^ np + 2 ^ s * ?X"
  proof -
    have jl: "j div 2 ^ np < 2 ^ s"
      using 3(3) by (intro less_mult_imp_div_less) (simp add: B)
    have sX: "2 ^ s * ?X = 2 ^ s * (?X mod 2 ^ np) + DIG_BASE * (?X div 2 ^ np)"
      unfolding B mult.assoc add_mult_distrib2 [symmetric] by simp
    have "?X = j1 + 2 ^ s * ?D * 2 ^ np" by (simp add: B)
    then have "?X mod 2 ^ np = j1 mod 2 ^ np" by (simp only: mod_mult_self1)
    moreover have "(j div 2 ^ np + 2 ^ s * j1) mod DIG_BASE = j div 2 ^ np + 2 ^ s * (j1 mod 2 ^ np)"
      using jl by (simp add: B mod_mult2_eq)
    ultimately show ?thesis using sX by simp
  qed
  moreover have "dval (mpn_shr_loop np (j1 # js)) = ?X div 2 ^ np" using 3 by simp
  ultimately show ?case using 3 d by (simp add: algebra_simps)
qed

lemma dval_drop: "digits_ok ds \<Longrightarrow> n \<le> length ds \<Longrightarrow> dval (drop n ds) = dval ds div DIG_BASE ^ n"
proof -
  assume "digits_ok ds" "n \<le> length ds"
  then have "dval (take n ds) < DIG_BASE ^ n" "dval ds = dval (take n ds) + dval (drop n ds) * DIG_BASE ^ n"
    using dval_bound [of "take n ds"] dval_take_drop [of ds n] by (simp_all add: min_absorb2 mult.commute)
  then show ?thesis by (simp only: div_mult_self1 power_not_zero DIG_BASE_pos div_less add_0_right)
qed

lemma dval_ge_length: "digits_ok ds \<Longrightarrow> length ds \<le> n \<Longrightarrow> dval ds div DIG_BASE ^ n = 0"
proof -
  assume "digits_ok ds" "length ds \<le> n"
  then have "dval ds < DIG_BASE ^ length ds" "DIG_BASE ^ length ds \<le> DIG_BASE ^ n"
    by (simp_all add: dval_bound power_increasing)
  then show ?thesis by (intro div_less) (rule less_le_trans)
qed

lemma shr_lower:
  assumes "DIG_BASE ^ Suc m \<le> x" "np < DIG_SIZE"
  shows "DIG_BASE ^ m \<le> x div 2 ^ np"
proof -
  have "2 ^ np \<le> DIG_BASE" using assms(2) unfolding DIG_BASE_def by (intro power_increasing) simp_all
  then have "DIG_BASE ^ m * 2 ^ np \<le> DIG_BASE ^ m * DIG_BASE" by (rule mult_le_mono2)
  also have "\<dots> \<le> x" using assms(1) by (simp add: mult.commute)
  finally show ?thesis using div_le_mono [of "DIG_BASE ^ m * 2 ^ np" x "2 ^ np"] by simp
qed

lemma mpn_shr_correct:
  assumes "normed jdig" "mpn_shr jdig n = (ds, l)"
  shows "length ds \<le> length jdig \<and> l \<le> length ds \<and> normed (take l ds) \<and>
    dval (take l ds) = dval jdig div 2 ^ n"
proof (cases "n div DIG_SIZE \<ge> length jdig")
  case True
  have "2 ^ n = DIG_BASE ^ (n div DIG_SIZE) * 2 ^ (n mod DIG_SIZE)"
    by (simp add: DIG_BASE_def power_mult [symmetric] power_add [symmetric])
  then have "dval jdig div 2 ^ n = 0"
    using True assms(1) by (simp add: div_mult2_eq dval_ge_length)
  then show ?thesis using assms(2) True by (auto simp: mpn_shr_def Let_def)
next
  case False
  let ?w = "n div DIG_SIZE" and ?np = "n mod DIG_SIZE" and ?D = "drop (n div DIG_SIZE) jdig"
  have np: "?np < DIG_SIZE" by (simp add: DIG_SIZE_def)
  have D: "digits_ok ?D" "?D \<noteq> []" "last ?D \<noteq> 0" "dval ?D = dval jdig div DIG_BASE ^ ?w"
    using False assms(1) by (auto simp: normed_def dval_drop)
  have ds: "ds = mpn_shr_loop ?np ?D" "l = (if last ds = 0 then length ds - 1 else length ds)"
    using assms(2) False mpn_shr_loop_correct [OF np D(1)] by (auto simp: mpn_shr_def Let_def)
  have c: "length ds = length ?D" "digits_ok ds" "dval ds = dval ?D div 2 ^ ?np"
    using mpn_shr_loop_correct [OF np D(1)] ds by auto
  have "2 ^ n = DIG_BASE ^ ?w * 2 ^ ?np"
    by (simp add: DIG_BASE_def power_mult [symmetric] power_add [symmetric])
  then have v: "dval ds = dval jdig div 2 ^ n" by (simp add: c D div_mult2_eq)
  have ne: "ds \<noteq> []" using c(1) D(2) by auto
  show ?thesis
  proof (cases "last ds = 0")
    case False
    then show ?thesis using ds c v D ne by (simp add: normed_def)
  next
    case True
    have tk: "take l ds = butlast ds" using True ds by (simp add: butlast_conv_take)
    have vb: "dval (butlast ds) = dval ds"
      using dval_append [of "butlast ds" "[last ds]"] append_butlast_last_id [OF ne] True by simp
    have "normed (butlast ds)"
    proof (rule normed_if_dval_ge)
      show "digits_ok (butlast ds)" using c(2) by (simp add: butlast_conv_take)
      assume "butlast ds \<noteq> []"
      then have "length (butlast ds) \<noteq> 0" by (simp del: length_butlast)
      then have "length ds - 1 \<noteq> 0" by simp
      then obtain m where m: "length ds = Suc (Suc m)" by (cases "length ds"; cases "length ds - 1") auto
      have "length ?D - 1 = Suc m" using c(1) m by linarith
      then have "DIG_BASE ^ Suc m \<le> dval ?D" using dval_last_lower [OF D(2,3)] by simp
      then show "DIG_BASE ^ (length (butlast ds) - 1) \<le> dval (butlast ds)"
        using shr_lower [OF _ np] m by (simp add: vb c(3))
    qed
    then show ?thesis using tk vb v ds c D by auto
  qed
qed

end
