(* ===== verification/Mpn_Bitwise.thy ===== *)
theory Mpn_Bitwise
  imports Mpn
begin

text \<open>
  Correctness of the bitwise loops of \<^verbatim>\<open>py/mpz.c\<close> on sign-and-magnitude operands. Each loop
  turns both operands into two's complement digits on the fly, combines the digits, and
  turns the result back into a magnitude. The proofs factor every loop through one carry
  chain, \<open>ripple\<close>.
\<close>

section \<open>A carry chain\<close>

fun ripple :: "nat \<Rightarrow> nat list \<Rightarrow> nat list" where
  "ripple c [] = []"
| "ripple c (d # ds) = (c + d) mod DIG_BASE # ripple ((c + d) div DIG_BASE) ds"

fun ripple_carry :: "nat \<Rightarrow> nat list \<Rightarrow> nat" where
  "ripple_carry c [] = c"
| "ripple_carry c (d # ds) = ripple_carry ((c + d) div DIG_BASE) ds"

lemma ripple_length [simp]: "length (ripple c ds) = length ds"
  by (induction c ds rule: ripple.induct) simp_all

lemma ripple_digits_ok [simp]: "digits_ok (ripple c ds)"
  by (induction c ds rule: ripple.induct) simp_all

lemma ripple_split: "dval (ripple c ds) + DIG_BASE ^ length ds * ripple_carry c ds = c + dval ds"
proof (induction c ds rule: ripple.induct)
  case (2 c d ds)
  have "dval (ripple c (d # ds)) + DIG_BASE ^ length (d # ds) * ripple_carry c (d # ds) =
      (c + d) mod DIG_BASE + DIG_BASE * (dval (ripple ((c + d) div DIG_BASE) ds) +
        DIG_BASE ^ length ds * ripple_carry ((c + d) div DIG_BASE) ds)"
    by (simp add: algebra_simps)
  also have "\<dots> = c + dval (d # ds)"
    unfolding 2 by (simp add: digit_split)
  finally show ?case .
qed simp

lemma ripple_dval: "dval (ripple c ds) = (c + dval ds) mod DIG_BASE ^ length ds"
proof -
  have "dval (ripple c ds) < DIG_BASE ^ length ds" using dval_bound [of "ripple c ds"] by simp
  then show ?thesis by (simp flip: ripple_split [of c ds])
qed

lemma ripple_carry_dval: "ripple_carry c ds = (c + dval ds) div DIG_BASE ^ length ds"
proof -
  have "dval (ripple c ds) < DIG_BASE ^ length ds" using dval_bound [of "ripple c ds"] by simp
  then show ?thesis by (simp flip: ripple_split [of c ds])
qed

section \<open>The shorter operand\<close>

text \<open>
  The counters of the loops: \<open>klen\<close> counts the digits of \<open>k\<close> left, or has wrapped below
  zero and stays above \<open>jlen\<close>.
\<close>

definition counters :: "nat \<Rightarrow> nat \<Rightarrow> 'a list \<Rightarrow> 'b list \<Rightarrow> bool" where
  "counters jlen klen js ks \<longleftrightarrow> jlen = length js \<and> jlen < 2 ^ 32 \<and>
     (klen = length ks \<and> length ks \<le> length js \<or> ks = [] \<and> jlen < klen \<and> klen < 2 ^ 32)"

lemma counters_test:
  assumes "counters jlen klen (j # js) ks"
  shows "dec32 klen \<le> dec32 jlen \<longleftrightarrow> ks \<noteq> []"
proof (cases ks)
  case Nil
  then show ?thesis using assms by (cases "klen = 0") (auto simp: counters_def dec32_pos)
next
  case (Cons k ks')
  then show ?thesis using assms by (auto simp: counters_def dec32_pos)
qed

lemma counters_step:
  assumes "counters jlen klen (j # js) ks"
  shows "counters (dec32 jlen) (dec32 klen) js (if dec32 klen \<le> dec32 jlen then tl ks else ks)"
proof (cases ks)
  case Nil
  then show ?thesis
    using assms by (cases "klen = 0") (auto simp: counters_def dec32_pos counters_test [OF assms])
next
  case (Cons k ks')
  then show ?thesis using assms by (auto simp: counters_def dec32_pos counters_test [OF assms])
qed

text \<open>The digits of the shorter operand, padded with zeros.\<close>

definition pad :: "nat \<Rightarrow> nat list \<Rightarrow> nat list" where
  "pad n ks = ks @ replicate (n - length ks) 0"

lemma pad_Cons_step:
  assumes "counters jlen klen (j # js) ks"
  shows "pad (length (j # js)) ks = (if ks = [] then 0 else hd ks) #
    pad (length js) (if dec32 klen \<le> dec32 jlen then tl ks else ks)"
  using assms by (cases ks) (auto simp: pad_def counters_test [OF assms])

lemma pad_facts:
  "length ks \<le> n \<Longrightarrow> length (pad n ks) = n"
  "dval (pad n ks) = dval ks"
  "digits_ok (pad n ks) \<longleftrightarrow> digits_ok ks"
  by (simp_all add: pad_def dval_append)

lemma mask_xor:
  assumes "d < DIG_BASE" "m = 0 \<or> m = DIG_MASK"
  shows "d XOR m < DIG_BASE"
  using assms xor_mask [of d DIG_SIZE] by (auto simp: DIG_BASE_def DIG_MASK_def)

lemma mask_0 [simp]: "0 XOR m = (m :: nat)"
  by simp

lemma and_mask: "x AND DIG_MASK = x mod DIG_BASE"
  using take_bit_eq_mask [of DIG_SIZE x]
  by (simp add: DIG_MASK_def DIG_BASE_def mask_eq_exp_minus_1 take_bit_eq_mod)

section \<open>The loops as carry chains\<close>

lemma mask_less: "m = 0 \<or> m = DIG_MASK \<Longrightarrow> m < DIG_BASE"
  by (auto simp: DIG_MASK_def)

lemma mod_base_take_bit: "x mod DIG_BASE = take_bit DIG_SIZE x"
  by (simp add: DIG_BASE_def take_bit_eq_mod)

lemma mask_take_bit: "m < DIG_BASE \<Longrightarrow> take_bit DIG_SIZE m = m"
  by (simp add: DIG_BASE_def take_bit_nat_eq_self)

lemma combine_and:
  "m < DIG_BASE \<Longrightarrow> ((a AND b) XOR m) AND DIG_MASK = ((a mod DIG_BASE) AND (b mod DIG_BASE)) XOR m"
  by (simp only: and_mask mod_base_take_bit take_bit_and take_bit_xor mask_take_bit)

lemma combine_or:
  "m < DIG_BASE \<Longrightarrow> ((a OR b) XOR m) AND DIG_MASK = ((a mod DIG_BASE) OR (b mod DIG_BASE)) XOR m"
  by (simp only: and_mask mod_base_take_bit take_bit_or take_bit_xor mask_take_bit)

lemma combine_xor: "(a XOR b) AND DIG_MASK = (a mod DIG_BASE) XOR (b mod DIG_BASE)"
  by (simp only: and_mask mod_base_take_bit take_bit_xor)

lemma digit_ops_less:
  assumes "a < DIG_BASE" "b < DIG_BASE"
  shows "a AND b < DIG_BASE" "a OR b < DIG_BASE" "a XOR b < DIG_BASE"
  using assms take_bit_nat_eq_self [of a DIG_SIZE] take_bit_nat_eq_self [of b DIG_SIZE]
    take_bit_nat_less_exp [of DIG_SIZE "a AND b"] take_bit_nat_less_exp [of DIG_SIZE "a OR b"]
    take_bit_nat_less_exp [of DIG_SIZE "a XOR b"]
  by (simp_all add: DIG_BASE_def)

text \<open>The stream of two's complement digits of an operand.\<close>

abbreviation flip :: "nat \<Rightarrow> nat list \<Rightarrow> nat list" where
  "flip m ds \<equiv> map (\<lambda>d. d XOR m) ds"

definition chain_out :: "nat \<Rightarrow> nat list \<Rightarrow> nat list" where
  "chain_out c ds = ripple c ds @ (if ripple_carry c ds \<noteq> 0 then [u16 (ripple_carry c ds)] else [])"

lemma chain_out_simps:
  "chain_out c [] = (if c \<noteq> 0 then [u16 c] else [])"
  "chain_out c (d # ds) = (c + d) mod DIG_BASE # chain_out ((c + d) div DIG_BASE) ds"
  by (simp_all add: chain_out_def)

lemma carry_bit:
  assumes "c \<le> 1" "d < DIG_BASE"
  shows "u32 (c + d) = c + d" "(c + d) div DIG_BASE \<le> 1"
  using carry_step1 [of c d] assms by simp_all

lemma mpn_and_neg_loop_eq:
  "counters jlen klen js ks \<Longrightarrow> digits_ok js \<Longrightarrow> digits_ok ks \<Longrightarrow> ci \<le> 1 \<Longrightarrow> cj \<le> 1 \<Longrightarrow> ck \<le> 1 \<Longrightarrow>
   im = 0 \<or> im = DIG_MASK \<Longrightarrow> jm = 0 \<or> jm = DIG_MASK \<Longrightarrow> km = 0 \<or> km = DIG_MASK \<Longrightarrow>
   mpn_and_neg_loop im jm km ci cj ck jlen klen js ks =
     chain_out ci (map2 (\<lambda>a b. (a AND b) XOR im)
       (ripple cj (flip jm js)) (ripple ck (flip km (pad (length js) ks))))"
proof (induction im jm km ci cj ck jlen klen js ks rule: mpn_and_neg_loop.induct)
  case (1 im jm km ci cj ck jlen klen ks)
  then show ?case by (simp add: chain_out_simps pad_def)
next
  case (2 im jm km ci cj ck jlen klen j js ks)
  let ?k = "if ks = [] then 0 else hd ks"
  let ?ks = "if dec32 klen \<le> dec32 jlen then tl ks else ks"
  have k: "?k < DIG_BASE" "digits_ok ?ks" using 2 by (cases ks; auto)+
  let ?a = "cj + (j XOR jm)" and ?b = "ck + (?k XOR km)"
  let ?d = "(?a mod DIG_BASE AND ?b mod DIG_BASE) XOR im"
  have a: "u32 ?a = ?a" "?a div DIG_BASE \<le> 1" and b: "u32 ?b = ?b" "?b div DIG_BASE \<le> 1"
    using 2 k carry_bit mask_xor by simp_all
  have "?d < DIG_BASE" using mask_less [OF 2(8)] by (simp add: digit_ops_less)
  then have d: "u32 (ci + ?d) = ci + ?d" "(ci + ?d) div DIG_BASE \<le> 1" using 2 carry_bit by simp_all
  have sel: "(if dec32 klen \<le> dec32 jlen then hd ks XOR km else km) = ?k XOR km"
    using counters_test [OF 2(2)] by simp
  have "mpn_and_neg_loop im jm km ci cj ck jlen klen (j # js) ks = (ci + ?d) mod DIG_BASE #
      mpn_and_neg_loop im jm km ((ci + ?d) div DIG_BASE) (?a div DIG_BASE) (?b div DIG_BASE)
        (dec32 jlen) (dec32 klen) js ?ks"
    using 2 by (simp add: Let_def sel a b d combine_and mask_less)
  also have "\<dots> = (ci + ?d) mod DIG_BASE # chain_out ((ci + ?d) div DIG_BASE)
      (map2 (\<lambda>a b. (a AND b) XOR im) (ripple (?a div DIG_BASE) (flip jm js))
        (ripple (?b div DIG_BASE) (flip km (pad (length js) ?ks))))"
    using 2 k a b d counters_step [OF 2(2)] by (simp add: Let_def sel combine_and mask_less)
  finally show ?case
    unfolding pad_Cons_step [OF 2(2)] by (simp add: chain_out_simps)
qed

text \<open>The loop of \<^verbatim>\<open>mpn_or_neg\<close> asserts that nothing is carried out.\<close>

definition chain_opt :: "nat \<Rightarrow> nat list \<Rightarrow> nat list option" where
  "chain_opt c ds = (if ripple_carry c ds = 0 then Some (ripple c ds) else None)"

lemma chain_opt_simps:
  "chain_opt c [] = (if c = 0 then Some [] else None)"
  "chain_opt c (d # ds) = map_option (Cons ((c + d) mod DIG_BASE)) (chain_opt ((c + d) div DIG_BASE) ds)"
  by (simp_all add: chain_opt_def)

lemma mpn_or_neg_loop_eq:
  "counters jlen klen js ks \<Longrightarrow> digits_ok js \<Longrightarrow> digits_ok ks \<Longrightarrow> ci \<le> 1 \<Longrightarrow> cj \<le> 1 \<Longrightarrow> ck \<le> 1 \<Longrightarrow>
   im = 0 \<or> im = DIG_MASK \<Longrightarrow> jm = 0 \<or> jm = DIG_MASK \<Longrightarrow> km = 0 \<or> km = DIG_MASK \<Longrightarrow>
   mpn_or_neg_loop im jm km ci cj ck jlen klen js ks =
     chain_opt ci (map2 (\<lambda>a b. (a OR b) XOR im)
       (ripple cj (flip jm js)) (ripple ck (flip km (pad (length js) ks))))"
proof (induction im jm km ci cj ck jlen klen js ks rule: mpn_or_neg_loop.induct)
  case (1 im jm km ci cj ck jlen klen ks)
  then show ?case by (simp add: chain_opt_simps pad_def)
next
  case (2 im jm km ci cj ck jlen klen j js ks)
  let ?k = "if ks = [] then 0 else hd ks"
  let ?ks = "if dec32 klen \<le> dec32 jlen then tl ks else ks"
  have k: "?k < DIG_BASE" "digits_ok ?ks" using 2 by (cases ks; auto)+
  let ?a = "cj + (j XOR jm)" and ?b = "ck + (?k XOR km)"
  let ?d = "(?a mod DIG_BASE OR ?b mod DIG_BASE) XOR im"
  have a: "u32 ?a = ?a" "?a div DIG_BASE \<le> 1" and b: "u32 ?b = ?b" "?b div DIG_BASE \<le> 1"
    using 2 k carry_bit mask_xor by simp_all
  have "?d < DIG_BASE" using mask_less [OF 2(8)] by (simp add: digit_ops_less)
  then have d: "u32 (ci + ?d) = ci + ?d" "(ci + ?d) div DIG_BASE \<le> 1" using 2 carry_bit by simp_all
  have sel: "(if dec32 klen \<le> dec32 jlen then hd ks XOR km else km) = ?k XOR km"
    using counters_test [OF 2(2)] by simp
  have "mpn_or_neg_loop im jm km ci cj ck jlen klen (j # js) ks = map_option (Cons ((ci + ?d) mod DIG_BASE))
      (mpn_or_neg_loop im jm km ((ci + ?d) div DIG_BASE) (?a div DIG_BASE) (?b div DIG_BASE)
        (dec32 jlen) (dec32 klen) js ?ks)"
    using 2 by (simp add: Let_def sel a b d combine_or mask_less)
  also have "\<dots> = map_option (Cons ((ci + ?d) mod DIG_BASE)) (chain_opt ((ci + ?d) div DIG_BASE)
      (map2 (\<lambda>a b. (a OR b) XOR im) (ripple (?a div DIG_BASE) (flip jm js))
        (ripple (?b div DIG_BASE) (flip km (pad (length js) ?ks)))))"
    using 2 k a b d counters_step [OF 2(2)] by (simp add: Let_def sel combine_or mask_less)
  finally show ?case
    unfolding pad_Cons_step [OF 2(2)] by (simp add: chain_opt_simps)
qed

text \<open>\<^verbatim>\<open>mpn_xor_neg\<close> works on the operands less one, with the borrow as a carry.\<close>

abbreviation lift_digits :: "nat list \<Rightarrow> nat list" where
  "lift_digits ds \<equiv> map (\<lambda>d. d + DIG_MASK) ds"

lemma mpn_xor_neg_loop_eq:
  "counters jlen klen js ks \<Longrightarrow> digits_ok js \<Longrightarrow> digits_ok ks \<Longrightarrow> ci \<le> 1 \<Longrightarrow> cj \<le> 1 \<Longrightarrow> ck \<le> 1 \<Longrightarrow>
   mpn_xor_neg_loop ci cj ck jlen klen js ks =
     chain_out ci (map2 (\<lambda>a b. a XOR b)
       (ripple cj (lift_digits js)) (ripple ck (lift_digits (pad (length js) ks))))"
proof (induction ci cj ck jlen klen js ks rule: mpn_xor_neg_loop.induct)
  case (1 ci cj ck jlen klen ks)
  then show ?case by (simp add: chain_out_simps pad_def)
next
  case (2 ci cj ck jlen klen j js ks)
  let ?k = "if ks = [] then 0 else hd ks"
  let ?ks = "if dec32 klen \<le> dec32 jlen then tl ks else ks"
  have k: "?k < DIG_BASE" "digits_ok ?ks" using 2 by (cases ks; auto)+
  let ?a = "cj + (j + DIG_MASK)" and ?b = "ck + (?k + DIG_MASK)"
  let ?d = "?a mod DIG_BASE XOR ?b mod DIG_BASE"
  have a: "u32 ?a = ?a" "?a div DIG_BASE \<le> 1" and b: "u32 ?b = ?b" "?b div DIG_BASE \<le> 1"
    using 2 k carry_step [of cj j DIG_MASK] carry_step [of ck ?k DIG_MASK] mask_less [of DIG_MASK]
    by simp_all
  have "?d < DIG_BASE" by (simp add: digit_ops_less)
  then have d: "u32 (ci + ?d) = ci + ?d" "(ci + ?d) div DIG_BASE \<le> 1" using 2 carry_bit by simp_all
  have sel: "(if dec32 klen \<le> dec32 jlen then hd ks + DIG_MASK else DIG_MASK) = ?k + DIG_MASK"
    using counters_test [OF 2(2)] by simp
  have "mpn_xor_neg_loop ci cj ck jlen klen (j # js) ks = (ci + ?d) mod DIG_BASE #
      mpn_xor_neg_loop ((ci + ?d) div DIG_BASE) (?a div DIG_BASE) (?b div DIG_BASE)
        (dec32 jlen) (dec32 klen) js ?ks"
    using 2 by (simp add: Let_def sel a b d combine_xor)
  also have "\<dots> = (ci + ?d) mod DIG_BASE # chain_out ((ci + ?d) div DIG_BASE)
      (map2 (\<lambda>a b. a XOR b) (ripple (?a div DIG_BASE) (lift_digits js))
        (ripple (?b div DIG_BASE) (lift_digits (pad (length js) ?ks))))"
    using 2 k a b d counters_step [OF 2(2)] by (simp add: Let_def sel combine_xor)
  finally show ?case
    unfolding pad_Cons_step [OF 2(2)] by (simp add: chain_out_simps)
qed

section \<open>Values\<close>

text \<open>A sign flag and a magnitude as an integer.\<close>

definition sval :: "bool \<Rightarrow> nat list \<Rightarrow> int" where
  "sval neg ds = (if neg then - int (dval ds) else int (dval ds))"

lemma chain_out_facts:
  assumes "digits_ok ds" "c \<le> 1"
  shows "digits_ok (chain_out c ds)" "dval (chain_out c ds) = c + dval ds"
    "length (chain_out c ds) \<le> length ds + c"
proof -
  have le: "ripple_carry c ds \<le> c"
  proof (cases "c = 0")
    case True
    then show ?thesis using dval_bound [OF assms(1)] by (simp add: ripple_carry_dval)
  next
    case False
    then have "c = 1" using assms(2) by simp
    moreover have "(1 + dval ds) div DIG_BASE ^ length ds \<le> DIG_BASE ^ length ds div DIG_BASE ^ length ds"
      using dval_bound [OF assms(1)] by (intro div_le_mono) simp
    ultimately show ?thesis by (simp add: ripple_carry_dval)
  qed
  then have u: "u16 (ripple_carry c ds) = ripple_carry c ds" using assms(2) by (simp add: u16_def)
  show "digits_ok (chain_out c ds)" using le assms(2) by (auto simp: chain_out_def u DIG_BASE_num)
  show "dval (chain_out c ds) = c + dval ds"
    using ripple_split [of c ds] by (auto simp: chain_out_def dval_append u)
  show "length (chain_out c ds) \<le> length ds + c" using le by (auto simp: chain_out_def)
qed

lemma flip_0 [simp]: "flip 0 ds = ds"
  by simp

lemma flip_mask_dval:
  "digits_ok ds \<Longrightarrow> digits_ok (flip DIG_MASK ds) \<and> dval (flip DIG_MASK ds) + dval ds + 1 = DIG_BASE ^ length ds"
proof (induction ds)
  case (Cons d ds)
  have d: "d XOR DIG_MASK = DIG_MASK - d" using Cons.prems xor_mask [of d DIG_SIZE]
    by (simp add: DIG_BASE_def DIG_MASK_def)
  then have "(d XOR DIG_MASK) + d + 1 = DIG_BASE" using Cons.prems by (simp add: DIG_MASK_def)
  moreover have "dval (flip DIG_MASK (d # ds)) + dval (d # ds) + 1 =
      (d XOR DIG_MASK) + d + 1 + DIG_BASE * (dval (flip DIG_MASK ds) + dval ds)"
    by (simp add: algebra_simps)
  ultimately have "dval (flip DIG_MASK (d # ds)) + dval (d # ds) + 1 =
      DIG_BASE * (dval (flip DIG_MASK ds) + dval ds + 1)"
    by (simp add: algebra_simps)
  moreover have "dval (flip DIG_MASK ds) + dval ds + 1 = DIG_BASE ^ length ds"
    "digits_ok (flip DIG_MASK ds)" using Cons by simp_all
  ultimately have "dval (flip DIG_MASK (d # ds)) + dval (d # ds) + 1 = DIG_BASE ^ length (d # ds)"
    by (simp only: power_Suc length_Cons)
  moreover have "d XOR DIG_MASK < DIG_BASE" using Cons.prems mask_xor [of d DIG_MASK] by simp
  ultimately show ?case using \<open>digits_ok (flip DIG_MASK ds)\<close> by simp
qed simp

lemma DIG_BASE_pow: "DIG_BASE ^ n = 2 ^ (DIG_SIZE * n)"
  by (simp add: DIG_BASE_def power_mult)

lemma twos_complement:
  assumes "digits_ok ds"
  shows "int (dval (ripple (of_bool neg) (flip (if neg then DIG_MASK else 0) ds))) =
    take_bit (DIG_SIZE * length ds) (sval neg ds)"
proof (cases neg)
  case True
  have "int (1 + dval (flip DIG_MASK ds)) = int (DIG_BASE ^ length ds) - int (dval ds)"
    unfolding conjunct2 [OF flip_mask_dval [OF assms], symmetric] by simp
  then show ?thesis
    using True by (simp add: ripple_dval take_bit_eq_mod sval_def DIG_BASE_pow zmod_int mod_diff_left_eq)
next
  case False
  then show ?thesis
    by (simp add: ripple_dval take_bit_eq_mod sval_def DIG_BASE_pow zmod_int)
qed

lemma lifted_dval: "dval (lift_digits ds) + 1 = dval ds + DIG_BASE ^ length ds"
proof (induction ds)
  case (Cons d ds)
  have "dval (lift_digits (d # ds)) + 1 = d + (DIG_MASK + 1) + DIG_BASE * dval (lift_digits ds)" by simp
  also have "\<dots> = d + DIG_BASE * (dval (lift_digits ds) + 1)" by (simp add: DIG_MASK_def)
  also have "\<dots> = dval (d # ds) + DIG_BASE ^ length (d # ds)"
    unfolding Cons by (simp add: algebra_simps)
  finally show ?case .
qed simp

lemma lifted_stream:
  assumes "digits_ok ds" "neg \<Longrightarrow> dval ds \<noteq> 0"
  shows "int (dval (ripple (of_bool (\<not> neg)) (lift_digits ds))) = (if neg then NOT (sval neg ds) else sval neg ds)"
proof -
  have "int (of_bool (\<not> neg) + dval (lift_digits ds)) =
      int (dval ds) - of_bool neg + int (DIG_BASE ^ length ds)"
    using arg_cong [OF lifted_dval [of ds], of int] by (cases neg) simp_all
  then have "int (dval (ripple (of_bool (\<not> neg)) (lift_digits ds))) =
      (int (dval ds) - of_bool neg) mod int (DIG_BASE ^ length ds)"
    by (simp add: ripple_dval zmod_int)
  moreover have "int (dval ds) < int (DIG_BASE ^ length ds)"
    using dval_bound [OF assms(1)] by (simp only: of_nat_less_iff)
  then have "(int (dval ds) - of_bool neg) mod int (DIG_BASE ^ length ds) = int (dval ds) - of_bool neg"
    using assms(2) by (intro mod_pos_pos_trivial) (auto simp del: of_nat_power)
  ultimately show ?thesis by (auto simp: sval_def not_int_def)
qed

lemmas dig_concat =
  and_concat [where n = DIG_SIZE, folded DIG_BASE_def]
  or_concat [where n = DIG_SIZE, folded DIG_BASE_def]
  xor_concat [where n = DIG_SIZE, folded DIG_BASE_def]

lemma map2_dval:
  assumes "digits_ok xs" "digits_ok ys" "length xs = length ys"
  shows "dval (map2 (AND) xs ys) = dval xs AND dval ys" "digits_ok (map2 (AND) xs ys)"
    and "dval (map2 (OR) xs ys) = dval xs OR dval ys" "digits_ok (map2 (OR) xs ys)"
    and "dval (map2 (XOR) xs ys) = dval xs XOR dval ys" "digits_ok (map2 (XOR) xs ys)"
  using assms(3,1,2)
  by (induction xs ys rule: list_induct2)
    (simp_all add: digit_ops_less dig_concat)

lemma map2_flip: "map2 (\<lambda>a b. f a b XOR m) xs ys = flip m (map2 f xs ys)"
  by (simp add: case_prod_unfold o_def)

section \<open>Correctness\<close>

lemma masks:
  "(if of_bool b = (0::nat) then 0 else DIG_MASK) = (if b then DIG_MASK else 0)"
  by simp

lemma take_bit_magnitude:
  assumes "digits_ok ds" "length ds \<le> n"
  shows "int (dval ds) < 2 ^ (DIG_SIZE * n)"
proof -
  have "dval ds < DIG_BASE ^ length ds" "DIG_BASE ^ length ds \<le> DIG_BASE ^ n"
    using assms by (simp_all add: dval_bound power_increasing)
  then have "dval ds < DIG_BASE ^ n" by (rule less_le_trans)
  then have "dval ds < 2 ^ (DIG_SIZE * n)" by (simp add: DIG_BASE_pow)
  then show ?thesis by (metis of_nat_less_iff of_nat_numeral of_nat_power)
qed

lemma div_neg_range:
  fixes z :: int
  assumes "- (2 ^ N) \<le> z" "z < 0"
  shows "z div 2 ^ N = - 1"
proof -
  have "(z + 2 ^ N) div 2 ^ N = 0" using assms by (intro div_pos_pos_trivial) simp_all
  then show ?thesis using div_add_self2 [of "2 ^ N" z] by simp
qed

lemma take_bit_of_negative: "(z :: int) div 2 ^ N = - 1 \<Longrightarrow> take_bit N z = 2 ^ N + z"
  using div_mult_mod_eq [of z "2 ^ N"] by (simp add: take_bit_eq_mod)

lemma and_neg_range:
  fixes x y :: int
  assumes "- (2 ^ N) \<le> x" "x < 0" "- (2 ^ N) \<le> y" "y < 0"
  shows "take_bit N (x AND y) = 2 ^ N + (x AND y)"
proof (rule take_bit_of_negative)
  show "(x AND y) div 2 ^ N = - 1"
    using div_neg_range [OF assms(1,2)] div_neg_range [OF assms(3,4)]
    by (metis and.idem drop_bit_and drop_bit_eq_div)
qed

lemma or_neg_range:
  fixes x y :: int
  assumes "- (2 ^ N) \<le> x" "x < 2 ^ N" "- (2 ^ N) \<le> y" "y < 2 ^ N" "x < 0 \<or> y < 0"
  shows "take_bit N (x OR y) = 2 ^ N + (x OR y)"
proof (rule take_bit_of_negative)
  have d: "z div 2 ^ N = (if z < 0 then - 1 else 0)" if "- (2 ^ N) \<le> z" "z < 2 ^ N" for z :: int
    using that div_neg_range [of N z] by simp
  have "(x OR y) div 2 ^ N = (x div 2 ^ N) OR (y div 2 ^ N)"
    by (simp add: drop_bit_or flip: drop_bit_eq_div)
  then show "(x OR y) div 2 ^ N = - 1"
    using assms by (auto simp: d)
qed

text \<open>Turning two's complement digits of a negative number back into its magnitude.\<close>

lemma negate_digits:
  assumes "digits_ok R" "length R = n" "int (dval R) = 2 ^ (DIG_SIZE * n) + v"
  shows "digits_ok (flip DIG_MASK R)" "int (1 + dval (flip DIG_MASK R)) = - v"
proof -
  have f: "digits_ok (flip DIG_MASK R)" "dval (flip DIG_MASK R) + dval R + 1 = DIG_BASE ^ n"
    using flip_mask_dval [OF assms(1)] assms(2) by simp_all
  have "int (dval (flip DIG_MASK R)) + int (dval R) + 1 = 2 ^ (DIG_SIZE * n)"
    using arg_cong [OF f(2), of int]
    by (simp only: of_nat_add of_nat_1 DIG_BASE_pow of_nat_power of_nat_numeral)
  then show "int (1 + dval (flip DIG_MASK R)) = - v" using assms(3) by simp
  show "digits_ok (flip DIG_MASK R)" by (rule f)
qed

lemma strip_sval:
  assumes "digits_ok ds"
  shows "sval neg (take (mpn_remove_trailing_zeros ds (length ds)) ds) = sval neg ds"
  using strip_result [OF assms] by (simp add: sval_def)

lemma sval_range:
  assumes "digits_ok ds" "length ds \<le> n"
  shows "- (2 ^ (DIG_SIZE * n)) < sval neg ds" "sval neg ds < 2 ^ (DIG_SIZE * n)"
proof -
  have "int (dval ds) < 2 ^ (DIG_SIZE * n)" "0 \<le> int (dval ds)" "(0 :: int) < 2 ^ (DIG_SIZE * n)"
    using take_bit_magnitude [OF assms] by simp_all
  then have "- (2 ^ (DIG_SIZE * n)) < sval neg ds \<and> sval neg ds < 2 ^ (DIG_SIZE * n)"
    by (intro conjI) (cases neg; simp only: sval_def if_True if_False; linarith)+
  then show "- (2 ^ (DIG_SIZE * n)) < sval neg ds" "sval neg ds < 2 ^ (DIG_SIZE * n)" by simp_all
qed

lemma pad_sval: "sval neg (pad n ks) = sval neg ks"
  by (simp add: sval_def pad_facts)

lemma mpn_and_neg_correct:
  assumes "normed jdig" "normed kdig" "length kdig \<le> length jdig" "length jdig < 2 ^ 32"
    and neg: "nj \<Longrightarrow> jdig \<noteq> []" "nk \<Longrightarrow> kdig \<noteq> []"
    and r: "mpn_and_neg jdig kdig (of_bool (nj \<and> nk)) (of_bool nj) (of_bool nk) = (ds, l)"
  shows "length ds \<le> length jdig + of_bool (nj \<and> nk) \<and> l \<le> length ds \<and> normed (take l ds) \<and>
    sval (nj \<and> nk) (take l ds) = sval nj jdig AND sval nk kdig"
proof -
  let ?N = "DIG_SIZE * length jdig" and ?x = "sval nj jdig" and ?y = "sval nk kdig"
  let ?X = "ripple (of_bool nj) (flip (if nj then DIG_MASK else 0) jdig)"
  let ?Y = "ripple (of_bool nk) (flip (if nk then DIG_MASK else 0) (pad (length jdig) kdig))"
  let ?m = "if nj \<and> nk then DIG_MASK else 0"
  define R where "R = map2 (AND) ?X ?Y"
  have ok: "digits_ok jdig" "digits_ok kdig" using assms by simp_all
  have ds: "ds = chain_out (of_bool (nj \<and> nk)) (flip ?m R)"
    "l = mpn_remove_trailing_zeros ds (length ds)"
    using r assms ok mpn_and_neg_loop_eq [of "length jdig" "length kdig" jdig kdig "of_bool (nj \<and> nk)"
        "of_bool nj" "of_bool nk" ?m "if nj then DIG_MASK else 0" "if nk then DIG_MASK else 0"]
    by (auto simp: mpn_and_neg_def Let_def counters_def map2_flip R_def split: if_splits)
  have len: "length (pad (length jdig) kdig) = length jdig" using assms(3) by (rule pad_facts(1))
  have R: "digits_ok R" "length R = length jdig"
    using map2_dval(2) [of ?X ?Y] len by (simp_all add: R_def)
  have "int (dval R) = int (dval ?X) AND int (dval ?Y)"
    unfolding R_def using map2_dval(1) [of ?X ?Y] len by (simp only: of_nat_and_eq ripple_digits_ok ripple_length length_map)
  also have "\<dots> = take_bit ?N (?x AND ?y)"
    using twos_complement [OF ok(1), of nj] twos_complement [of "pad (length jdig) kdig" nk] ok(2) len
    by (simp add: pad_sval pad_facts)
  finally have Rv: "int (dval R) = take_bit ?N (?x AND ?y)" .
  have range: "- (2 ^ ?N) < ?x" "?x < 2 ^ ?N" "- (2 ^ ?N) < ?y" "?y < 2 ^ ?N"
    using sval_range ok assms(3) by auto
  have "sval (nj \<and> nk) ds = ?x AND ?y \<and> digits_ok ds \<and> length ds \<le> length jdig + of_bool (nj \<and> nk)"
  proof (cases "nj \<and> nk")
    case True
    have "?x < 0" "?y < 0"
      using True neg assms normed_dval_0_iff [of jdig] normed_dval_0_iff [of kdig] by (auto simp: sval_def)
    then have v: "int (dval R) = 2 ^ ?N + (?x AND ?y)"
      using Rv range and_neg_range [of ?N ?x ?y] by simp
    note f = negate_digits [OF R v]
    then show ?thesis
      using True ds(1) chain_out_facts [OF f(1), of 1] R(2) by (simp add: sval_def)
  next
    case False
    then have "0 \<le> ?x \<or> 0 \<le> ?y" by (auto simp: sval_def)
    then have "0 \<le> ?x AND ?y" "?x AND ?y < 2 ^ ?N"
      using range AND_upper1 [of ?x ?y] AND_upper2 [of ?y ?x] by auto
    then have "int (dval R) = ?x AND ?y" unfolding Rv by (rule take_bit_int_eq_self)
    then show ?thesis
      using False ds(1) chain_out_facts [OF R(1), of 0] R(2) by (auto simp: sval_def)
  qed
  then show ?thesis
    using ds(2) strip_result [of ds] mpn_remove_trailing_zeros_le [of ds "length ds"]
    by (simp add: strip_sval)
qed

lemma mpn_or_neg_correct:
  assumes "normed jdig" "normed kdig" "length kdig \<le> length jdig" "length jdig < 2 ^ 32"
    and neg: "nj \<Longrightarrow> jdig \<noteq> []" "nk \<Longrightarrow> kdig \<noteq> []"
    and r: "mpn_or_neg jdig kdig (of_bool (nj \<or> nk)) (of_bool nj) (of_bool nk) = res"
  shows "\<exists>ds l. res = Some (ds, l) \<and> length ds = length jdig \<and> l \<le> length ds \<and> normed (take l ds) \<and>
    sval (nj \<or> nk) (take l ds) = sval nj jdig OR sval nk kdig"
proof -
  let ?N = "DIG_SIZE * length jdig" and ?x = "sval nj jdig" and ?y = "sval nk kdig"
  let ?X = "ripple (of_bool nj) (flip (if nj then DIG_MASK else 0) jdig)"
  let ?Y = "ripple (of_bool nk) (flip (if nk then DIG_MASK else 0) (pad (length jdig) kdig))"
  let ?m = "if nj \<or> nk then DIG_MASK else 0"
  define R where "R = map2 (OR) ?X ?Y"
  have ok: "digits_ok jdig" "digits_ok kdig" using assms by simp_all
  have loop: "res = map_option (\<lambda>ds. (ds, mpn_remove_trailing_zeros ds (length ds)))
      (chain_opt (of_bool (nj \<or> nk)) (flip ?m R))"
    using r assms ok mpn_or_neg_loop_eq [of "length jdig" "length kdig" jdig kdig "of_bool (nj \<or> nk)"
        "of_bool nj" "of_bool nk" ?m "if nj then DIG_MASK else 0" "if nk then DIG_MASK else 0"]
    by (auto simp: mpn_or_neg_def Let_def counters_def map2_flip R_def split: if_splits)
  have len: "length (pad (length jdig) kdig) = length jdig" using assms(3) by (rule pad_facts(1))
  have R: "digits_ok R" "length R = length jdig"
    using map2_dval(4) [of ?X ?Y] len by (simp_all add: R_def)
  have "int (dval R) = int (dval ?X) OR int (dval ?Y)"
    unfolding R_def using map2_dval(3) [of ?X ?Y] len by (simp only: of_nat_or_eq ripple_digits_ok ripple_length length_map)
  also have "\<dots> = take_bit ?N (?x OR ?y)"
    using twos_complement [OF ok(1), of nj] twos_complement [of "pad (length jdig) kdig" nk] ok(2) len
    by (simp add: pad_sval pad_facts)
  finally have Rv: "int (dval R) = take_bit ?N (?x OR ?y)" .
  have range: "- (2 ^ ?N) < ?x" "?x < 2 ^ ?N" "- (2 ^ ?N) < ?y" "?y < 2 ^ ?N"
    using sval_range ok assms(3) by auto
  have "\<exists>ds. chain_opt (of_bool (nj \<or> nk)) (flip ?m R) = Some ds \<and> digits_ok ds \<and>
      length ds = length jdig \<and> sval (nj \<or> nk) ds = ?x OR ?y"
  proof (cases "nj \<or> nk")
    case True
    have lt: "nj \<Longrightarrow> ?x < 0" "nk \<Longrightarrow> ?y < 0"
      using neg assms normed_dval_0_iff [of jdig] normed_dval_0_iff [of kdig] by (auto simp: sval_def)
    then have v: "int (dval R) = 2 ^ ?N + (?x OR ?y)"
      using True Rv range or_neg_range [of ?N ?x ?y] by auto
    note f = negate_digits [OF R v]
    have "take_bit ?N ?x \<noteq> 0 \<or> take_bit ?N ?y \<noteq> 0"
      using True lt range div_neg_range take_bit_of_negative by force
    then have "int (dval R) \<noteq> 0" unfolding Rv by (auto simp: or_eq_0_iff)
    then have "0 < int (dval R)" by simp
    then have "int (1 + dval (flip DIG_MASK R)) < int (DIG_BASE ^ length jdig)"
      using f(2) v by (simp add: DIG_BASE_pow)
    then have "1 + dval (flip DIG_MASK R) < DIG_BASE ^ length jdig" by (simp only: of_nat_less_iff)
    then have "ripple_carry 1 (flip DIG_MASK R) = 0" "dval (ripple 1 (flip DIG_MASK R)) = 1 + dval (flip DIG_MASK R)"
      using R(2) by (simp_all add: ripple_carry_dval ripple_dval)
    then show ?thesis using True f(2) R(2) by (simp add: chain_opt_def sval_def)
  next
    case False
    then have "0 \<le> ?x" "0 \<le> ?y" by (auto simp: sval_def)
    then have "0 \<le> ?x OR ?y" "?x OR ?y < 2 ^ ?N" using range by (simp_all add: OR_upper)
    then have v: "int (dval R) = ?x OR ?y" unfolding Rv by (rule take_bit_int_eq_self)
    have "dval R < DIG_BASE ^ length jdig" using dval_bound [OF R(1)] R(2) by simp
    then have "ripple_carry 0 R = 0" "dval (ripple 0 R) = dval R"
      using R(2) by (simp_all add: ripple_carry_dval ripple_dval)
    then show ?thesis using False v R(2) by (simp add: chain_opt_def sval_def)
  qed
  then obtain ds where ds: "chain_opt (of_bool (nj \<or> nk)) (flip ?m R) = Some ds" "digits_ok ds"
    "length ds = length jdig" "sval (nj \<or> nk) ds = ?x OR ?y" by blast
  show ?thesis
    unfolding loop ds(1) using ds strip_result [OF ds(2)] mpn_remove_trailing_zeros_le [of ds "length ds"]
      strip_sval [OF ds(2), of "nj \<or> nk"] by simp
qed

lemma mpn_xor_neg_correct:
  assumes "normed jdig" "normed kdig" "length kdig \<le> length jdig" "length jdig < 2 ^ 32"
    and neg: "nj \<Longrightarrow> jdig \<noteq> []" "nk \<Longrightarrow> kdig \<noteq> []"
    and r: "mpn_xor_neg jdig kdig (of_bool (nj \<noteq> nk)) (of_bool (\<not> nj)) (of_bool (\<not> nk)) = (ds, l)"
  shows "length ds \<le> length jdig + of_bool (nj \<noteq> nk) \<and> l \<le> length ds \<and> normed (take l ds) \<and>
    sval (nj \<noteq> nk) (take l ds) = sval nj jdig XOR sval nk kdig"
proof -
  let ?x = "sval nj jdig" and ?y = "sval nk kdig"
  let ?X = "ripple (of_bool (\<not> nj)) (lift_digits jdig)"
  let ?Y = "ripple (of_bool (\<not> nk)) (lift_digits (pad (length jdig) kdig))"
  define R where "R = map2 (XOR) ?X ?Y"
  have ok: "digits_ok jdig" "digits_ok kdig" "nj \<Longrightarrow> dval jdig \<noteq> 0" "nk \<Longrightarrow> dval kdig \<noteq> 0"
    using assms normed_dval_0_iff [of jdig] normed_dval_0_iff [of kdig] by auto
  have ds: "ds = chain_out (of_bool (nj \<noteq> nk)) R" "l = mpn_remove_trailing_zeros ds (length ds)"
    using r assms ok mpn_xor_neg_loop_eq [of "length jdig" "length kdig" jdig kdig "of_bool (nj \<noteq> nk)"
        "of_bool (\<not> nj)" "of_bool (\<not> nk)"]
    by (auto simp: mpn_xor_neg_def Let_def counters_def R_def split: if_splits)
  have len: "length (pad (length jdig) kdig) = length jdig" using assms(3) by (rule pad_facts(1))
  have R: "digits_ok R" "length R = length jdig"
    using map2_dval(6) [of ?X ?Y] len by (simp_all add: R_def)
  have "int (dval R) = int (dval ?X) XOR int (dval ?Y)"
    unfolding R_def using map2_dval(5) [of ?X ?Y] len
    by (simp only: of_nat_xor_eq ripple_digits_ok ripple_length length_map)
  also have "\<dots> = (if nj then NOT ?x else ?x) XOR (if nk then NOT ?y else ?y)"
    using lifted_stream [OF ok(1,3)] lifted_stream [of "pad (length jdig) kdig" nk] ok(2,4)
    by (simp add: pad_sval pad_facts)
  finally have v: "int (of_bool (nj \<noteq> nk) + dval R) = (if nj \<noteq> nk then - (?x XOR ?y) else ?x XOR ?y)"
    by (cases nj; cases nk) (simp_all add: minus_eq_not_plus_1)
  have c: "digits_ok ds" "dval ds = of_bool (nj \<noteq> nk) + dval R" "length ds \<le> length jdig + of_bool (nj \<noteq> nk)"
    using chain_out_facts [OF R(1), of "of_bool (nj \<noteq> nk)"] R(2) ds(1) by auto
  have "sval (nj \<noteq> nk) ds = ?x XOR ?y" using c(2) v by (simp add: sval_def split: if_splits)
  then show ?thesis
    using c ds(2) strip_result [OF c(1)] mpn_remove_trailing_zeros_le [of ds "length ds"]
    by (simp add: strip_sval)
qed

end
