(* ===== verification/Mpn_Div.thy ===== *)
theory Mpn_Div
  imports Mpn
begin

text \<open>
  \<^verbatim>\<open>mpn_div\<close> of \<^verbatim>\<open>py/mpz.c\<close>: schoolbook division that normalises the denominator on the fly,
  estimates each quotient digit from two digits of the numerator and one of the
  denominator, and adds the denominator back while the estimate was too large. The loops
  whose end depends on the data are \<^theory_text>\<open>partial_function (option)\<close>: not returning is
  \<^term>\<open>None\<close>. The main lemma shows that on normalised arguments every one of them returns.
\<close>

section \<open>Operations\<close>

text \<open>Counting the leading zeros of the leading digit of the denominator.\<close>

partial_function (option) mpn_div_norm_shift :: "nat \<Rightarrow> nat \<Rightarrow> nat option" where
  "mpn_div_norm_shift d norm_shift =
     (if d AND DIG_MSB = 0 then mpn_div_norm_shift (u16 (d * 2)) (u16 (norm_shift + 1))
      else Some norm_shift)"

text \<open>Shifting the numerator left, from the low end.\<close>

fun mpn_div_shl :: "nat \<Rightarrow> nat \<Rightarrow> nat list \<Rightarrow> nat list" where
  "mpn_div_shl norm_shift carry [] = []"
| "mpn_div_shl norm_shift carry (n # num) =
     ((n * 2 ^ norm_shift) OR carry) mod DIG_BASE
       # mpn_div_shl norm_shift (u16 (n div 2 ^ (DIG_SIZE - norm_shift))) num"

text \<open>Subtracting \<open>quo * den\<close> from a window of the numerator; the final borrow is kept.\<close>

fun mpn_div_sub :: "nat \<Rightarrow> nat \<Rightarrow> nat \<Rightarrow> int \<Rightarrow> nat list \<Rightarrow> nat list \<Rightarrow> nat list \<times> int" where
  "mpn_div_sub norm_shift quo d_norm borrow (n # num) (d # den) =
     (let d_norm = u32 (d * 2 ^ norm_shift) OR (d_norm div DIG_BASE);
          x = u32 (quo * (d_norm mod DIG_BASE));
          low_digs = s32 (borrow mod int DIG_BASE + int n - int (x mod DIG_BASE));
          borrow = s32 (borrow div int DIG_BASE - int (x div DIG_BASE) + low_digs div int DIG_BASE);
          (num', borrow') = mpn_div_sub norm_shift quo d_norm borrow num den
      in (nat (low_digs mod int DIG_BASE) # num', borrow'))"
| "mpn_div_sub norm_shift quo d_norm borrow _ _ = ([], borrow)"

text \<open>Adding the denominator back to the window; the final carry is kept.\<close>

fun mpn_div_add :: "nat \<Rightarrow> nat \<Rightarrow> nat \<Rightarrow> nat list \<Rightarrow> nat list \<Rightarrow> nat list \<times> nat" where
  "mpn_div_add norm_shift d_norm carry (n # num) (d # den) =
     (let d_norm = u32 (d * 2 ^ norm_shift) OR (d_norm div DIG_BASE);
          carry = u32 (carry + (n + d_norm mod DIG_BASE));
          (num', carry') = mpn_div_add norm_shift d_norm (carry div DIG_BASE) num den
      in (carry mod DIG_BASE # num', carry'))"
| "mpn_div_add norm_shift d_norm carry _ _ = ([], carry)"

partial_function (option) mpn_div_addback ::
  "nat \<Rightarrow> nat list \<Rightarrow> nat \<Rightarrow> int \<Rightarrow> nat list \<Rightarrow> (nat \<times> nat list) option" where
  "mpn_div_addback norm_shift den quo borrow num =
     (if borrow = 0 then Some (quo, num)
      else (case mpn_div_add norm_shift 0 0 num den of
              (num', carry) \<Rightarrow>
                mpn_div_addback norm_shift den (dec32 quo) (s32 (borrow + int carry)) num'))"

text \<open>
  One round of the main loop on the numerator digits \<open>num\<close> still in use: the quotient digit
  and the digits left, one fewer.
\<close>

definition mpn_div_digit ::
  "nat \<Rightarrow> nat \<Rightarrow> nat list \<Rightarrow> nat list \<Rightarrow> (nat \<times> nat list) option" where
  "mpn_div_digit norm_shift lead_den_digit den num =
     (let p = length num - 1;
          quo = (u32 (num ! p * DIG_BASE) OR num ! (p - 1)) div lead_den_digit;
          (win, borrow) = mpn_div_sub norm_shift quo 0 0 (drop (p - length den) (take p num)) den
      in case mpn_div_addback norm_shift den quo (s32 (borrow + int (num ! p))) win of
           None \<Rightarrow> None
         | Some (quo, win) \<Rightarrow> Some (quo mod DIG_BASE, take (p - length den) num @ win))"

text \<open>
  The main loop runs while \<^verbatim>\<open>num_len > den_len\<close>; its first argument is
  \<^verbatim>\<open>num_len - den_len\<close>. Quotient digits are stored from the high end.
\<close>

fun mpn_div_loop ::
  "nat \<Rightarrow> nat \<Rightarrow> nat \<Rightarrow> nat list \<Rightarrow> nat list \<Rightarrow> nat list \<Rightarrow> (nat list \<times> nat list) option" where
  "mpn_div_loop 0 norm_shift lead_den_digit den num quo = Some (num, quo)"
| "mpn_div_loop (Suc k) norm_shift lead_den_digit den num quo =
     (case mpn_div_digit norm_shift lead_den_digit den num of
        None \<Rightarrow> None
      | Some (q, num') \<Rightarrow> mpn_div_loop k norm_shift lead_den_digit den num' (q # quo))"

text \<open>Shifting the remainder right, from the high end.\<close>

fun mpn_div_shr :: "nat \<Rightarrow> nat \<Rightarrow> nat list \<Rightarrow> nat list" where
  "mpn_div_shr norm_shift carry [] = []"
| "mpn_div_shr norm_shift carry (n # num) =
     ((n div 2 ^ norm_shift) OR carry) mod DIG_BASE
       # mpn_div_shr norm_shift (u16 (u32 (n * 2 ^ (DIG_SIZE - norm_shift)))) num"

text \<open>
  The whole routine: the numerator digits with their new length, which hold the remainder,
  and the quotient digits with their length.
\<close>

definition mpn_div :: "nat list \<Rightarrow> nat list \<Rightarrow> ((nat list \<times> nat) \<times> (nat list \<times> nat)) option" where
  "mpn_div num den =
     (let cmp = mpn_cmp num den
      in if cmp = 0 then Some ((num, 0), ([1], 1))
         else if cmp < 0 then Some ((num, length num), ([], 0))
         else case mpn_div_norm_shift (den ! (length den - 1)) 0 of
           None \<Rightarrow> None
         | Some norm_shift \<Rightarrow>
             (let num1 = mpn_div_shl norm_shift 0 (num @ [0]);
                  lead = u32 (den ! (length den - 1) * 2 ^ norm_shift);
                  lead_den_digit = (if length den \<ge> 2
                    then lead OR (den ! (length den - 2) div 2 ^ (DIG_SIZE - norm_shift))
                    else lead)
              in case mpn_div_loop (length num1 - length den) norm_shift lead_den_digit den num1 [] of
                   None \<Rightarrow> None
                 | Some (num2, quo) \<Rightarrow>
                     (let num3 = rev (mpn_div_shr norm_shift 0 (rev num2))
                      in Some ((num3, mpn_remove_trailing_zeros num3 (length num3)),
                               (quo, mpn_remove_trailing_zeros quo (length quo))))))"

section \<open>Normalisation\<close>

lemma msb_clear: "d < DIG_BASE \<Longrightarrow> d AND DIG_MSB = 0 \<longleftrightarrow> 2 * d < DIG_BASE"
proof -
  assume d: "d < DIG_BASE"
  have "d AND DIG_MSB = 0 \<longleftrightarrow> \<not> bit d 15"
    using and_exp_eq_0_iff_not_bit [of d 15] by (simp add: DIG_MSB_def DIG_SIZE_def)
  also have "\<dots> \<longleftrightarrow> even (d div 2 ^ 15)" by (simp add: bit_iff_odd)
  also have "\<dots> \<longleftrightarrow> 2 * d < DIG_BASE"
  proof (cases "d < 2 ^ 15")
    case False
    then have "d div 2 ^ 15 = 1" using d by (intro div_nat_eqI) (simp_all add: DIG_BASE_num)
    then show ?thesis using False by (simp add: DIG_BASE_num)
  qed (simp add: DIG_BASE_num)
  finally show ?thesis .
qed

lemma mpn_div_norm_shift_returns:
  "2 ^ a \<le> d \<Longrightarrow> d < DIG_BASE \<Longrightarrow>
   \<exists>s. mpn_div_norm_shift d a = Some (a + s) \<and> DIG_BASE \<le> 2 * (d * 2 ^ s) \<and> d * 2 ^ s < DIG_BASE"
proof (induction "DIG_BASE - d" arbitrary: d a rule: less_induct)
  case less
  show ?case
  proof (cases "d AND DIG_MSB = 0")
    case True
    then have d2: "2 * d < DIG_BASE" using less.prems msb_clear by simp
    have "0 < d" using less.prems(1) by (cases d) auto
    have "(2::nat) ^ a < 2 ^ 16" using less.prems by (simp add: DIG_BASE_num)
    then have "a < 16" by (rule power_less_imp_less_exp [rotated]) simp
    then have u: "u16 (a + 1) = Suc a" "u16 (d * 2) = 2 * d" using d2 by (simp_all add: u16_def DIG_BASE_num)
    have "DIG_BASE - 2 * d < DIG_BASE - d" using \<open>0 < d\<close> d2 by simp
    then obtain s where s: "mpn_div_norm_shift (2 * d) (Suc a) = Some (Suc a + s)"
      "DIG_BASE \<le> 2 * (2 * d * 2 ^ s)" "2 * d * 2 ^ s < DIG_BASE"
      using less.hyps [of "2 * d" "Suc a"] less.prems(1) d2 by auto
    have "mpn_div_norm_shift d a = Some (a + Suc s)"
      by (subst mpn_div_norm_shift.simps) (simp add: True u s(1) del: One_nat_def)
    with s(2,3) show ?thesis by (intro exI [of _ "Suc s"]) (simp add: algebra_simps)
  next
    case False
    then have "DIG_BASE \<le> 2 * d" using less.prems msb_clear by simp
    moreover have "mpn_div_norm_shift d a = Some (a + 0)"
      by (subst mpn_div_norm_shift.simps) (simp add: False)
    ultimately show ?thesis using less.prems by (intro exI [of _ 0]) simp
  qed
qed

lemma shift_bound:
  assumes "0 < d" "d * 2 ^ ns < DIG_BASE"
  shows "ns < DIG_SIZE"
proof -
  have "1 * 2 ^ ns \<le> d * 2 ^ ns" using assms(1) by (intro mult_le_mono1) simp
  then have "(2::nat) ^ ns < DIG_BASE" using assms(2) by linarith
  then have "(2::nat) ^ ns < 2 ^ DIG_SIZE" unfolding DIG_BASE_def .
  then show ?thesis by (rule power_less_imp_less_exp [rotated]) simp
qed

section \<open>The rows\<close>

text \<open>The digits of the denominator shifted left, as the rows recompute them.\<close>

fun norm_digits :: "nat \<Rightarrow> nat \<Rightarrow> nat list \<Rightarrow> nat list" where
  "norm_digits ns c [] = []"
| "norm_digits ns c (d # ds) =
     (d * 2 ^ ns + c) mod DIG_BASE # norm_digits ns ((d * 2 ^ ns + c) div DIG_BASE) ds"

lemma norm_digits_facts:
  "length (norm_digits ns c ds) = length ds" "digits_ok (norm_digits ns c ds)"
  by (induction ns c ds rule: norm_digits.induct) simp_all

lemma norm_digits_dval:
  "dval (norm_digits ns c ds) = (c + dval ds * 2 ^ ns) mod DIG_BASE ^ length ds"
proof (induction ns c ds rule: norm_digits.induct)
  case (2 ns c d ds)
  let ?e = "d * 2 ^ ns + c" and ?P = "DIG_BASE ^ length ds"
  have "(c + dval (d # ds) * 2 ^ ns) = ?e mod DIG_BASE + DIG_BASE * (?e div DIG_BASE + dval ds * 2 ^ ns)"
    unfolding digit_split by (simp add: algebra_simps)
  then have "(c + dval (d # ds) * 2 ^ ns) mod (DIG_BASE * ?P) =
      ?e mod DIG_BASE + DIG_BASE * ((?e div DIG_BASE + dval ds * 2 ^ ns) mod ?P)"
    by (simp add: mod_mult2_eq)
  with 2 show ?case by simp
qed simp

text \<open>One step of the shifted digit stream: no bits collide and nothing wraps.\<close>

lemma d_norm_step:
  assumes "ns < DIG_SIZE" "d < DIG_BASE" "c < 2 ^ ns"
  shows "u32 (d * 2 ^ ns) OR c = d * 2 ^ ns + c" and "(d * 2 ^ ns + c) div DIG_BASE < 2 ^ ns"
proof -
  have "2 ^ ns \<le> DIG_BASE" using assms(1) unfolding DIG_BASE_def by (intro power_increasing) simp_all
  have "d * 2 ^ ns + c < (d + 1) * 2 ^ ns" using assms(3) by simp
  also have "\<dots> \<le> DIG_BASE * 2 ^ ns" using assms(2) by (intro mult_le_mono1) simp
  finally have lt: "d * 2 ^ ns + c < DIG_BASE * 2 ^ ns" .
  also have "\<dots> \<le> DIG_BASE * DIG_BASE" using \<open>2 ^ ns \<le> DIG_BASE\<close> by (rule mult_le_mono2)
  finally have "d * 2 ^ ns + c < 2 ^ 32" unfolding DIG_BASE_sq .
  then have "u32 (d * 2 ^ ns) = d * 2 ^ ns" by (intro u32_id) simp
  then show "u32 (d * 2 ^ ns) OR c = d * 2 ^ ns + c" using assms(3) by (simp add: or_shift)
  show "(d * 2 ^ ns + c) div DIG_BASE < 2 ^ ns"
    using lt by (intro less_mult_imp_div_less) (simp add: mult.commute)
qed

lemma sub_digit:
  fixes b :: int
  assumes "- int (DIG_BASE + 1) \<le> b" "b \<le> 0" "n < DIG_BASE" "e < DIG_BASE" "quo \<le> DIG_BASE + 1"
  defines "x \<equiv> u32 (quo * e)"
  defines "low \<equiv> s32 (b mod int DIG_BASE + int n - int (x mod DIG_BASE))"
  defines "b' \<equiv> s32 (b div int DIG_BASE - int (x div DIG_BASE) + low div int DIG_BASE)"
  shows "low mod int DIG_BASE + int DIG_BASE * b' = b + int n - int (quo * e)"
    and "- int (DIG_BASE + 1) \<le> b'" and "b' \<le> 0"
proof -
  let ?B = "int DIG_BASE" and ?v = "b + int n - int (quo * e)"
  have "quo * e \<le> (DIG_BASE + 1) * (DIG_BASE - 1)" using assms by (intro mult_le_mono) simp_all
  then have qe: "quo * e \<le> DIG_BASE * DIG_BASE - 1" by (simp add: DIG_BASE_num)
  then have x: "x = quo * e" unfolding x_def by (intro u32_id) (simp add: DIG_BASE_num)
  have "0 \<le> b mod ?B" "b mod ?B < ?B" "x mod DIG_BASE < DIG_BASE" by simp_all
  then have low: "low = b mod ?B + int n - int (x mod DIG_BASE)"
    unfolding low_def using assms(3) by (intro s32_id) (simp_all add: DIG_BASE_num)
  have bx: "b = ?B * (b div ?B) + b mod ?B" "int (quo * e) = ?B * int (x div DIG_BASE) + int (x mod DIG_BASE)"
    using x by (simp_all flip: of_nat_mult of_nat_add)
  then have v: "?v = ?B * (b div ?B - int (x div DIG_BASE)) + low"
    unfolding low by (simp only: algebra_simps)
  have "(?B * (b div ?B - int (x div DIG_BASE)) + low) div ?B = b div ?B - int (x div DIG_BASE) + low div ?B"
    using div_mult_self2 [of ?B low "b div ?B - int (x div DIG_BASE)"] by (simp add: add.commute)
  then have d: "b div ?B - int (x div DIG_BASE) + low div ?B = ?v div ?B" unfolding v by simp
  have m: "low mod ?B = ?v mod ?B" unfolding v by simp
  have "int (quo * e) \<le> int (DIG_BASE * DIG_BASE - 1)" using qe by (simp only: of_nat_le_iff)
  then have "- (?B * (?B + 1)) \<le> ?v" using assms(1) by (simp add: DIG_BASE_num del: of_nat_mult)
  then have "?B * - (?B + 1) \<le> ?v" by (simp only: mult_minus_right)
  then have "?B * - (?B + 1) div ?B \<le> ?v div ?B" by (rule zdiv_mono1) simp
  moreover have "?B * - (?B + 1) div ?B = - (?B + 1)" by (rule nonzero_mult_div_cancel_left) simp
  ultimately have "- (?B + 1) \<le> ?v div ?B" by simp
  moreover have "?v div ?B \<le> 0"
  proof -
    have "int n < ?B" "0 \<le> int (quo * e)" using assms(3) by simp_all
    then have "?v \<le> ?B - 1" using assms(2) by linarith
    then have "?v div ?B \<le> (?B - 1) div ?B" by (rule zdiv_mono1) simp
    then show ?thesis by simp
  qed
  moreover from calculation have "b' = ?v div ?B"
    unfolding b'_def d by (intro s32_id) (simp_all add: DIG_BASE_num)
  ultimately show "low mod ?B + ?B * b' = ?v" "- int (DIG_BASE + 1) \<le> b'" "b' \<le> 0"
    using m by (simp_all add: mod_mult_div_eq)
qed

lemma mpn_div_sub_correct:
  "ns < DIG_SIZE \<Longrightarrow> quo \<le> DIG_BASE + 1 \<Longrightarrow> - int (DIG_BASE + 1) \<le> b \<Longrightarrow> b \<le> 0 \<Longrightarrow>
   digits_ok num \<Longrightarrow> digits_ok den \<Longrightarrow> length num = length den \<Longrightarrow> dn div DIG_BASE < 2 ^ ns \<Longrightarrow>
   \<exists>r b'. mpn_div_sub ns quo dn b num den = (r, b') \<and> length r = length den \<and> digits_ok r \<and>
     - int (DIG_BASE + 1) \<le> b' \<and> b' \<le> 0 \<and>
     int (dval r) + int (DIG_BASE ^ length den) * b' =
       b + int (dval num) - int (quo * dval (norm_digits ns (dn div DIG_BASE) den))"
proof (induction ns quo dn b num den rule: mpn_div_sub.induct)
  case (1 ns quo dn b n num d den)
  let ?dn = "d * 2 ^ ns + dn div DIG_BASE"
  let ?e = "?dn mod DIG_BASE"
  define x where "x = u32 (quo * ?e)"
  define low where "low = s32 (b mod int DIG_BASE + int n - int (x mod DIG_BASE))"
  define b1 where "b1 = s32 (b div int DIG_BASE - int (x div DIG_BASE) + low div int DIG_BASE)"
  have st: "u32 (d * 2 ^ ns) OR dn div DIG_BASE = ?dn" "?dn div DIG_BASE < 2 ^ ns"
    using 1 d_norm_step [of ns d "dn div DIG_BASE"] by simp_all
  have sd: "low mod int DIG_BASE + int DIG_BASE * b1 = b + int n - int (quo * ?e)"
    "- int (DIG_BASE + 1) \<le> b1" "b1 \<le> 0"
    using 1(2-) sub_digit [of b n ?e quo] by (simp_all add: x_def low_def b1_def)
  obtain r b' where IH: "mpn_div_sub ns quo ?dn b1 num den = (r, b')" "length r = length den" "digits_ok r"
    "- int (DIG_BASE + 1) \<le> b'" "b' \<le> 0"
    "int (dval r) + int (DIG_BASE ^ length den) * b' =
       b1 + int (dval num) - int (quo * dval (norm_digits ns (?dn div DIG_BASE) den))"
    using 1(1) [OF refl refl refl refl] 1(2-) st sd unfolding st(1) x_def low_def b1_def by auto
  have eq: "mpn_div_sub ns quo dn b (n # num) (d # den) = (nat (low mod int DIG_BASE) # r, b')"
    unfolding mpn_div_sub.simps Let_def st(1) x_def [symmetric] low_def [symmetric] b1_def [symmetric] IH(1)
    by simp
  have "int (dval (nat (low mod int DIG_BASE) # r)) + int (DIG_BASE ^ length (d # den)) * b' =
      low mod int DIG_BASE + int DIG_BASE * (int (dval r) + int (DIG_BASE ^ length den) * b')"
    by (simp add: algebra_simps)
  also have "\<dots> = (low mod int DIG_BASE + int DIG_BASE * b1) +
      int DIG_BASE * (int (dval num) - int (quo * dval (norm_digits ns (?dn div DIG_BASE) den)))"
    unfolding IH(6) by (simp add: algebra_simps)
  also have "\<dots> = b + int (dval (n # num)) -
      int (quo * dval (norm_digits ns (dn div DIG_BASE) (d # den)))"
    unfolding sd(1) by (simp add: algebra_simps)
  finally show ?case unfolding eq using IH by (simp add: nat_less_iff)
qed simp_all

lemma mpn_div_add_correct:
  "ns < DIG_SIZE \<Longrightarrow> c \<le> 1 \<Longrightarrow> digits_ok num \<Longrightarrow> digits_ok den \<Longrightarrow> length num = length den \<Longrightarrow>
   dn div DIG_BASE < 2 ^ ns \<Longrightarrow>
   \<exists>r c'. mpn_div_add ns dn c num den = (r, c') \<and> length r = length den \<and> digits_ok r \<and> c' \<le> 1 \<and>
     dval r + DIG_BASE ^ length den * c' = c + dval num + dval (norm_digits ns (dn div DIG_BASE) den)"
proof (induction ns dn c num den rule: mpn_div_add.induct)
  case (1 ns dn c n num d den)
  let ?dn = "d * 2 ^ ns + dn div DIG_BASE"
  let ?e = "?dn mod DIG_BASE"
  let ?c = "c + (n + ?e)"
  have st: "u32 (d * 2 ^ ns) OR dn div DIG_BASE = ?dn" "?dn div DIG_BASE < 2 ^ ns"
    using 1 d_norm_step [of ns d "dn div DIG_BASE"] by simp_all
  have cs: "?c div DIG_BASE \<le> 1" "u32 ?c = ?c" using 1 carry_step [of c n ?e] by simp_all
  obtain r c' where IH: "mpn_div_add ns ?dn (?c div DIG_BASE) num den = (r, c')" "length r = length den"
    "digits_ok r" "c' \<le> 1" "dval r + DIG_BASE ^ length den * c' =
       ?c div DIG_BASE + dval num + dval (norm_digits ns (?dn div DIG_BASE) den)"
    using 1(1) [OF refl refl] 1(2-) st cs by auto
  have "mpn_div_add ns dn c (n # num) (d # den) = (?c mod DIG_BASE # r, c')"
    by (simp add: Let_def st(1) cs(2) IH(1))
  moreover have "dval (?c mod DIG_BASE # r) + DIG_BASE ^ length (d # den) * c' =
      ?c mod DIG_BASE + DIG_BASE * (dval r + DIG_BASE ^ length den * c')"
    by (simp add: algebra_simps)
  moreover have "\<dots> = c + dval (n # num) + dval (norm_digits ns (dn div DIG_BASE) (d # den))"
    unfolding IH(5) by (simp add: add.assoc digit_split) (simp add: algebra_simps)
  ultimately show ?case using IH by simp
qed simp_all

section \<open>Adding back\<close>

text \<open>
  \<open>V\<close> is the signed value of the window with its borrow. If adding the denominator \<open>k\<close>
  times brings it into range, the loop runs exactly \<open>k\<close> times and returns.
\<close>

lemma mpn_div_addback_returns:
  assumes "ns < DIG_SIZE" "digits_ok den" "D = dval (norm_digits ns 0 den)"
  shows "digits_ok num \<Longrightarrow> length num = length den \<Longrightarrow> k \<le> quo \<Longrightarrow> quo < 2 ^ 32 \<Longrightarrow>
    - (2 ^ 31) \<le> borrow \<Longrightarrow> borrow \<le> 0 \<Longrightarrow>
    V = borrow * int (DIG_BASE ^ length den) + int (dval num) \<Longrightarrow>
    0 \<le> V + int k * int D \<Longrightarrow> V + int k * int D < int D \<Longrightarrow>
    \<exists>r. mpn_div_addback ns den quo borrow num = Some (quo - k, r) \<and> length r = length den \<and>
      digits_ok r \<and> int (dval r) = V + int k * int D"
proof (induction k arbitrary: num quo borrow V)
  case 0
  have "int D < int (DIG_BASE ^ length den)"
    using assms(3) dval_bound [of "norm_digits ns 0 den"] norm_digits_facts [of ns 0 den]
    by (simp only: of_nat_less_iff)
  have "borrow = 0"
  proof (rule ccontr)
    assume "borrow \<noteq> 0"
    then have "borrow \<le> - 1" using 0 by simp
    then have "borrow * int (DIG_BASE ^ length den) \<le> - 1 * int (DIG_BASE ^ length den)"
      by (intro mult_right_mono) simp_all
    moreover have "int (dval num) < int (DIG_BASE ^ length den)"
      using 0 dval_bound [of num] by (simp only: of_nat_less_iff)
    ultimately show False using 0 by linarith
  qed
  then show ?case using 0 by (subst mpn_div_addback.simps) simp
next
  case (Suc k)
  obtain r c where add: "mpn_div_add ns 0 0 num den = (r, c)" "length r = length den" "digits_ok r"
    "c \<le> 1" "dval r + DIG_BASE ^ length den * c = dval num + D"
    using mpn_div_add_correct [of ns 0 num den 0] Suc.prems assms by auto
  have "0 \<le> int k * int D" by simp
  moreover have "V + int D + int k * int D < int D" using Suc.prems(9) by (simp add: algebra_simps)
  ultimately have "V < 0" by linarith
  have "borrow \<noteq> 0" using \<open>V < 0\<close> Suc.prems(7) by auto
  then have b: "borrow + int c \<le> 0" "- (2 ^ 31) \<le> borrow + int c" using add(4) Suc.prems by auto
  then have sb: "s32 (borrow + int c) = borrow + int c" by (intro s32_id) simp_all
  have dq: "dec32 quo = quo - 1" using Suc.prems by (intro dec32_pos) simp_all
  have "int (dval r) + int (DIG_BASE ^ length den) * int c = int (dval num) + int D"
    using arg_cong [OF add(5), of int] by (simp only: of_nat_add of_nat_mult)
  then have V: "V + int D = (borrow + int c) * int (DIG_BASE ^ length den) + int (dval r)"
    using Suc.prems(7) by (simp only: algebra_simps)
  have k: "V + int (Suc k) * int D = V + int D + int k * int D" by (simp add: algebra_simps)
  have q: "k \<le> quo - 1" "quo - 1 < 2 ^ 32" using Suc.prems(3,4) by simp_all
  obtain r' where r': "mpn_div_addback ns den (quo - 1) (borrow + int c) r = Some (quo - 1 - k, r')"
    "length r' = length den" "digits_ok r'" "int (dval r') = V + int D + int k * int D"
    using Suc.IH [OF add(3,2) q b(2,1) V] Suc.prems(8,9) unfolding k by blast
  have "mpn_div_addback ns den quo borrow num = Some (quo - Suc k, r')"
    using \<open>borrow \<noteq> 0\<close> r'(1) by (subst mpn_div_addback.simps) (simp add: add(1) sb dq)
  with r' show ?case unfolding k by blast
qed

section \<open>The estimate\<close>

text \<open>
  The leading digit of the normalised denominator is at least half the base, so the
  estimated quotient digit is never too small and at most two too large.
\<close>

lemma quo_estimate:
  fixes u1 u0 w lead d' P D W :: nat
  assumes "w < P" "d' < P" "u0 < DIG_BASE" "DIG_BASE \<le> 2 * lead" "lead < DIG_BASE"
    and D: "D = lead * P + d'" and W: "W = (u1 * DIG_BASE + u0) * P + w" and lt: "W < D * DIG_BASE"
  defines "qe \<equiv> (u1 * DIG_BASE + u0) div lead"
  shows "W div D \<le> qe" "qe \<le> W div D + 2" "qe \<le> DIG_BASE + 1" "W div D < DIG_BASE" "u1 \<le> lead"
proof -
  let ?U = "u1 * DIG_BASE + u0"
  have P: "0 < P" and lead: "0 < lead" using assms(1,4) by (auto intro: gr0I)
  then have D0: "0 < D" using D by simp
  show "W div D < DIG_BASE" using lt by (intro less_mult_imp_div_less) (simp add: mult.commute)
  have "u1 * P * DIG_BASE \<le> W" unfolding W by (simp add: algebra_simps)
  also have "W < D * DIG_BASE" by (rule lt)
  finally have "u1 * P < D" by simp
  also have "D < (lead + 1) * P" using assms(2) D by simp
  finally have "u1 < lead + 1" by (simp only: mult_less_cancel2)
  then show u1: "u1 \<le> lead" by simp
  have "W div D * lead * P \<le> W div D * D" unfolding D by (simp add: algebra_simps)
  also have "\<dots> \<le> W" by (rule div_times_less_eq_dividend)
  also have "W < (?U + 1) * P" using assms(1) W by simp
  finally have "W div D * lead < ?U + 1" by (simp only: mult_less_cancel2)
  then show "W div D \<le> qe" unfolding qe_def using lead by (simp add: less_eq_div_iff_mult_less_eq)
  have qe_le: "qe * lead \<le> ?U" unfolding qe_def by (rule div_times_less_eq_dividend)
  have "u1 * DIG_BASE \<le> lead * DIG_BASE" using u1 by (rule mult_le_mono1)
  moreover have "lead * (DIG_BASE + 2) = lead * DIG_BASE + 2 * lead" by simp
  ultimately have "?U < lead * (DIG_BASE + 2)" using assms(3,4) by linarith
  then have "qe < DIG_BASE + 2" unfolding qe_def by (intro less_mult_imp_div_less) (simp add: mult.commute)
  then show qe: "qe \<le> DIG_BASE + 1" by simp
  have UW: "qe * lead * P \<le> W" using mult_le_mono1 [OF qe_le, of P] W by linarith
  have "(qe - 2) * D \<le> W"
  proof (cases "qe \<le> DIG_BASE")
    case True
    have "qe * d' \<le> DIG_BASE * P" using True assms(2) by (intro mult_le_mono) simp_all
    also have "\<dots> \<le> 2 * lead * P" using assms(4) by (rule mult_le_mono1)
    also have "\<dots> \<le> 2 * D" unfolding D by simp
    finally have "qe * D \<le> W + 2 * D" using UW unfolding D by (simp add: algebra_simps)
    then show ?thesis by (simp add: diff_mult_distrib)
  next
    case False
    with qe have qeB: "qe = DIG_BASE + 1" by simp
    have "(DIG_BASE - 1) * d' \<le> (2 * lead - 1) * P" using assms(2,4) by (intro mult_le_mono) simp_all
    then have "(DIG_BASE - 1) * D \<le> (DIG_BASE - 1) * lead * P + 2 * lead * P"
      unfolding D by (simp add: algebra_simps diff_mult_distrib)
    also have "\<dots> = qe * lead * P" unfolding qeB by (cases DIG_BASE) (simp_all add: algebra_simps)
    finally show ?thesis using UW qeB by simp
  qed
  then have "qe - 2 \<le> W div D" using D0 by (simp add: less_eq_div_iff_mult_less_eq)
  then show "qe \<le> W div D + 2" by simp
qed

section \<open>One quotient digit\<close>

lemma window_split:
  assumes "length num = n + k + 1" "0 < n"
  defines "win \<equiv> drop k (take (n + k) num)"
  shows "length win = n" "num = take k num @ win @ [num ! (n + k)]" "last win = num ! (n + k - 1)"
    "dval num = dval (take k num) + DIG_BASE ^ k * (dval win + DIG_BASE ^ n * num ! (n + k))"
    "dval win + DIG_BASE ^ n * num ! (n + k) =
      (num ! (n + k) * DIG_BASE + num ! (n + k - 1)) * DIG_BASE ^ (n - 1) + dval (butlast win)"
proof -
  show len: "length win = n" unfolding win_def using assms(1) by simp
  have "take (n + k) num = take k num @ win"
    unfolding win_def using append_take_drop_id [of k "take (n + k) num"] by (simp add: min_absorb1)
  moreover have "num = take (n + k) num @ [num ! (n + k)]"
    using assms(1) take_Suc_conv_app_nth [of "n + k" num] by simp
  ultimately show num: "num = take k num @ win @ [num ! (n + k)]" by (metis append.assoc)
  have "dval num = dval (take k num @ win @ [num ! (n + k)])" using num by (rule arg_cong)
  then show "dval num = dval (take k num) + DIG_BASE ^ k * (dval win + DIG_BASE ^ n * num ! (n + k))"
    using assms(1) len by (simp add: dval_append)
  have ne: "win \<noteq> []" using len assms(2) by auto
  have "win ! (n - 1) = num ! (n + k - 1)"
    unfolding win_def using assms(1,2) by (simp add: add.commute)
  then show last: "last win = num ! (n + k - 1)" using ne len by (simp add: last_conv_nth)
  have "dval win = dval (butlast win) + DIG_BASE ^ (n - 1) * last win"
    using dval_append [of "butlast win" "[last win]"] append_butlast_last_id [OF ne] len by simp
  moreover have "DIG_BASE ^ n = DIG_BASE ^ (n - 1) * DIG_BASE" using assms(2) by (cases n) simp_all
  ultimately show "dval win + DIG_BASE ^ n * num ! (n + k) =
      (num ! (n + k) * DIG_BASE + num ! (n + k - 1)) * DIG_BASE ^ (n - 1) + dval (butlast win)"
    using last by (simp add: algebra_simps)
qed

lemma mpn_div_digit_correct:
  assumes ns: "ns < DIG_SIZE" and den: "digits_ok den" "den \<noteq> []"
    and D: "D = dval den * 2 ^ ns" "D < DIG_BASE ^ length den"
    and lead: "lead = D div DIG_BASE ^ (length den - 1)" "DIG_BASE \<le> 2 * lead"
    and num: "digits_ok num" "length num = length den + k + 1" "dval num < D * DIG_BASE ^ (k + 1)"
  shows "\<exists>q num'. mpn_div_digit ns lead den num = Some (q, num') \<and> q < DIG_BASE \<and>
    length num' = length den + k \<and> digits_ok num' \<and> dval num = q * D * DIG_BASE ^ k + dval num' \<and>
    dval num' < D * DIG_BASE ^ k"
proof -
  let ?n = "length den"
  define p where "p = ?n + k"
  define win where "win = drop k (take p num)"
  define W where "W = dval win + DIG_BASE ^ ?n * num ! p"
  define qe where "qe = (num ! p * DIG_BASE + num ! (p - 1)) div lead"
  have n0: "0 < ?n" using den by simp
  note sp = window_split [OF num(2) n0, folded p_def, folded win_def]
  have win: "length win = ?n" "digits_ok win" using sp(1) num(1) by (simp_all add: win_def)
  have dig: "num ! p < DIG_BASE" "num ! (p - 1) < DIG_BASE"
    using num n0 by (simp_all add: p_def digits_ok_nth)
  have numW: "dval num = dval (take k num) + DIG_BASE ^ k * W" using sp(4) by (simp add: W_def)
  then have "W * DIG_BASE ^ k \<le> dval num" by (simp add: mult.commute)
  also have "dval num < D * DIG_BASE * DIG_BASE ^ k" using num(3) by (simp add: mult.assoc)
  finally have "W * DIG_BASE ^ k < D * DIG_BASE * DIG_BASE ^ k" .
  then have W_lt: "W < D * DIG_BASE" by simp
  have Weq: "W = (num ! p * DIG_BASE + num ! (p - 1)) * DIG_BASE ^ (?n - 1) + dval (butlast win)"
    using sp(5) by (simp add: W_def)
  have bl: "dval (butlast win) < DIG_BASE ^ (?n - 1)"
    using dval_bound [of "butlast win"] win by (simp add: butlast_conv_take)
  have Deq: "D = lead * DIG_BASE ^ (?n - 1) + D mod DIG_BASE ^ (?n - 1)"
    unfolding lead(1) by (rule div_mult_mod_eq [symmetric])
  have dm: "D mod DIG_BASE ^ (?n - 1) < DIG_BASE ^ (?n - 1)" by simp
  have "DIG_BASE * DIG_BASE ^ (?n - 1) = DIG_BASE ^ ?n" using n0 by (cases ?n) simp_all
  then have ll: "lead < DIG_BASE" unfolding lead(1) using D(2) by (intro less_mult_imp_div_less) simp
  note est = quo_estimate [OF bl dm dig(2) lead(2) ll Deq Weq W_lt, folded qe_def]
  have nD: "dval (norm_digits ns 0 den) = D" using D by (simp add: norm_digits_dval)
  obtain r b where sub: "mpn_div_sub ns qe 0 0 win den = (r, b)" "length r = ?n" "digits_ok r"
    "- int (DIG_BASE + 1) \<le> b" "b \<le> 0"
    "int (dval r) + int (DIG_BASE ^ ?n) * b = int (dval win) - int (qe * D)"
    using mpn_div_sub_correct [of ns qe 0 win den 0] ns est(3) win den nD by auto
  define V where "V = (b + int (num ! p)) * int (DIG_BASE ^ ?n) + int (dval r)"
  have V: "V = int W - int (qe * D)" using sub(6) by (simp add: V_def W_def algebra_simps)
  have kD: "V + int (qe - W div D) * int D = int (W mod D)"
  proof -
    have "int (qe * D) = int (W div D * D) + int (qe - W div D) * int D"
      using est(1) by (simp add: of_nat_diff algebra_simps)
    moreover have "int W = int (W div D * D) + int (W mod D)"
      by (simp only: of_nat_add [symmetric] div_mult_mod_eq)
    ultimately show ?thesis unfolding V by simp
  qed
  have D0: "0 < D" using W_lt by (cases D) simp_all
  have modD: "int (W mod D) < int D" using D0 by simp
  have b0: "b + int (num ! p) \<le> 0"
  proof (rule ccontr)
    assume "\<not> ?thesis"
    then have "1 * int (DIG_BASE ^ ?n) \<le> (b + int (num ! p)) * int (DIG_BASE ^ ?n)"
      by (intro mult_right_mono) simp_all
    moreover have "int D < int (DIG_BASE ^ ?n)" using D(2) by (simp only: of_nat_less_iff)
    moreover have "0 \<le> int (qe - W div D) * int D" by simp
    ultimately show False using kD modD V_def by linarith
  qed
  have b1: "- (2 ^ 31) \<le> b + int (num ! p)" using sub(4) by (simp add: DIG_BASE_num)
  have sb: "s32 (b + int (num ! p)) = b + int (num ! p)" using b0 b1 by (intro s32_id) simp_all
  have q32: "qe - W div D \<le> qe" "qe < 2 ^ 32" using est(3) by (simp_all add: DIG_BASE_num)
  obtain r' where r': "mpn_div_addback ns den qe (b + int (num ! p)) r = Some (qe - (qe - W div D), r')"
    "length r' = ?n" "digits_ok r'" "int (dval r') = int (W mod D)"
    using mpn_div_addback_returns [OF ns den(1) nD [symmetric] sub(3,2) q32 b1 b0 V_def] modD
    unfolding kD by auto
  have "u32 (num ! p * DIG_BASE) = num ! p * DIG_BASE" using dig by (intro u32_id) (simp add: DIG_BASE_num)
  then have quo: "(u32 (num ! p * DIG_BASE) OR num ! (p - 1)) div lead = qe"
    using dig(2) by (simp add: or_digit qe_def)
  have p: "length num - 1 = p" "p - ?n = k" using num(2) by (simp_all add: p_def)
  have "mpn_div_digit ns lead den num = Some (W div D mod DIG_BASE, take k num @ r')"
    unfolding mpn_div_digit_def Let_def p quo win_def [symmetric] sub(1) prod.case sb r'(1)
    using est(1) by simp
  moreover have "dval num = W div D * D * DIG_BASE ^ k + dval (take k num @ r')"
  proof -
    have "DIG_BASE ^ k * W = DIG_BASE ^ k * (W div D * D + W mod D)" by (simp only: div_mult_mod_eq)
    also have "\<dots> = W div D * D * DIG_BASE ^ k + DIG_BASE ^ k * (W mod D)"
      by (simp only: add_mult_distrib2 mult.commute [of "DIG_BASE ^ k" "W div D * D"])
    finally show ?thesis using numW r'(4) num(2) by (simp add: dval_append)
  qed
  moreover have "dval (take k num @ r') < D * DIG_BASE ^ k"
  proof -
    have "dval (take k num) < DIG_BASE ^ k" using dval_bound [of "take k num"] num by simp
    moreover have "DIG_BASE ^ k * Suc (W mod D) \<le> DIG_BASE ^ k * D"
      using D0 by (intro mult_le_mono2 Suc_leI mod_less_divisor)
    ultimately show ?thesis using r'(4) num(2) by (simp add: dval_append mult.commute)
  qed
  ultimately show ?thesis using est(4) r' num by (intro exI [of _ "W div D"] exI [of _ "take k num @ r'"]) simp
qed

section \<open>The main loop\<close>

lemma mpn_div_loop_correct:
  assumes "ns < DIG_SIZE" "digits_ok den" "den \<noteq> []" "D = dval den * 2 ^ ns"
    "D < DIG_BASE ^ length den" "lead = D div DIG_BASE ^ (length den - 1)" "DIG_BASE \<le> 2 * lead"
  shows "digits_ok num \<Longrightarrow> length num = length den + k \<Longrightarrow> dval num < D * DIG_BASE ^ k \<Longrightarrow>
    \<exists>r qs. mpn_div_loop k ns lead den num acc = Some (r, qs @ acc) \<and> length r = length den \<and>
      digits_ok r \<and> length qs = k \<and> digits_ok qs \<and> dval num = dval qs * D + dval r \<and> dval r < D"
proof (induction k arbitrary: num acc)
  case 0
  then show ?case by auto
next
  case (Suc k)
  obtain q num' where d: "mpn_div_digit ns lead den num = Some (q, num')" "q < DIG_BASE"
    "length num' = length den + k" "digits_ok num'" "dval num = q * D * DIG_BASE ^ k + dval num'"
    "dval num' < D * DIG_BASE ^ k"
    using mpn_div_digit_correct [OF assms Suc.prems(1), of k] Suc.prems by auto
  obtain r qs where l: "mpn_div_loop k ns lead den num' (q # acc) = Some (r, qs @ q # acc)"
    "length r = length den" "digits_ok r" "length qs = k" "digits_ok qs"
    "dval num' = dval qs * D + dval r" "dval r < D"
    using Suc.IH [of num' "q # acc"] d by auto
  have "dval num = dval (qs @ [q]) * D + dval r"
    using d(5) l(4,6) by (simp add: dval_append algebra_simps)
  then show ?case using d l by (intro exI [of _ r] exI [of _ "qs @ [q]"]) simp
qed

section \<open>Shifting numerator and remainder\<close>

lemma mpn_div_shl_correct:
  "ns < DIG_SIZE \<Longrightarrow> c < 2 ^ ns \<Longrightarrow> digits_ok ds \<Longrightarrow>
   mpn_div_shl ns c ds = norm_digits ns c ds"
proof (induction ns c ds rule: mpn_div_shl.induct)
  case (2 ns c n num)
  have B: "DIG_BASE = 2 ^ (DIG_SIZE - ns) * 2 ^ ns"
    using 2(2) DIG_BASE_split [of "DIG_SIZE - ns" ns] by simp
  have "(n * 2 ^ ns + c) div DIG_BASE = n div 2 ^ (DIG_SIZE - ns)"
  proof -
    have "(n * 2 ^ ns + c) div 2 ^ ns = n" using 2(3) by simp
    then show ?thesis unfolding B by (simp add: mult.commute [of "2 ^ (DIG_SIZE - ns)"] div_mult2_eq)
  qed
  moreover have "u16 (n div 2 ^ (DIG_SIZE - ns)) = n div 2 ^ (DIG_SIZE - ns)"
    using 2(4) by (simp add: u16_eq_mod_base le_less_trans [OF div_le_dividend])
  moreover have "n * 2 ^ ns OR c = n * 2 ^ ns + c" using 2(3) by (rule or_shift)
  moreover have "(n * 2 ^ ns + c) div DIG_BASE < 2 ^ ns" using 2 d_norm_step [of ns n c] by simp
  ultimately show ?case using 2 by simp
qed simp

lemma shr_digit:
  fixes p j P V ns s :: nat
  assumes "s + ns = DIG_SIZE" "0 < P" "V < P" "j < DIG_BASE"
  defines "t \<equiv> (j div 2 ^ ns OR p * 2 ^ s mod DIG_BASE) mod DIG_BASE"
  shows "t * P + (j * P + V) div 2 ^ ns mod P = (p * (P * DIG_BASE) + (j * P + V)) div 2 ^ ns mod (P * DIG_BASE)"
proof -
  let ?W = "j * P + V"
  have B: "DIG_BASE = 2 ^ s * 2 ^ ns" using assms(1) by (rule DIG_BASE_split)
  have jl: "j div 2 ^ ns < 2 ^ s" using assms(4) by (intro less_mult_imp_div_less) (simp add: B)
  have pm: "p * 2 ^ s mod DIG_BASE = (p mod 2 ^ ns) * 2 ^ s"
    unfolding B by (simp add: mult.commute [of "2 ^ s" "2 ^ ns"] mult_mod_left)
  have "(p mod 2 ^ ns) * 2 ^ s + j div 2 ^ ns < (p mod 2 ^ ns + 1) * 2 ^ s" using jl by simp
  also have "\<dots> \<le> 2 ^ ns * 2 ^ s" by (intro mult_le_mono1) (simp add: Suc_leI)
  finally have lt: "(p mod 2 ^ ns) * 2 ^ s + j div 2 ^ ns < DIG_BASE" by (simp add: B mult.commute)
  have "j div 2 ^ ns OR p mod 2 ^ ns * 2 ^ s = p mod 2 ^ ns * 2 ^ s + j div 2 ^ ns"
    unfolding or_shift [OF jl, symmetric] by (rule or.commute)
  then have t: "t = (p mod 2 ^ ns) * 2 ^ s + j div 2 ^ ns" unfolding t_def pm using lt by simp
  have "(p * 2 ^ s + j div 2 ^ ns) mod DIG_BASE = (p * 2 ^ s mod DIG_BASE + j div 2 ^ ns) mod DIG_BASE"
    by (simp add: mod_add_left_eq)
  then have t': "(p * 2 ^ s + j div 2 ^ ns) mod DIG_BASE = t" unfolding pm t using lt by simp
  have "?W div 2 ^ ns div P = ?W div P div 2 ^ ns" by (simp add: div_mult2_eq [symmetric] mult.commute)
  also have "?W div P = j" using assms(2,3) by simp
  finally have q: "?W div 2 ^ ns div P = j div 2 ^ ns" .
  have "p * (P * DIG_BASE) + ?W = ?W + p * 2 ^ s * P * 2 ^ ns" by (simp add: B)
  then have "(p * (P * DIG_BASE) + ?W) div 2 ^ ns = ?W div 2 ^ ns + p * 2 ^ s * P"
    by (simp only: div_mult_self1 power_not_zero zero_neq_numeral) simp
  then have "(p * (P * DIG_BASE) + ?W) div 2 ^ ns mod (P * DIG_BASE) =
      P * ((?W div 2 ^ ns + p * 2 ^ s * P) div P mod DIG_BASE) + (?W div 2 ^ ns + p * 2 ^ s * P) mod P"
    by (simp only: mod_mult2_eq)
  also have "(?W div 2 ^ ns + p * 2 ^ s * P) div P = p * 2 ^ s + j div 2 ^ ns"
    using assms(2) q by simp
  also have "(?W div 2 ^ ns + p * 2 ^ s * P) mod P = ?W div 2 ^ ns mod P" by simp
  finally show ?thesis unfolding t' by simp
qed

lemma mpn_div_shr_correct:
  "s + ns = DIG_SIZE \<Longrightarrow> digits_ok js \<Longrightarrow>
   length (mpn_div_shr ns (p * 2 ^ s mod DIG_BASE) js) = length js \<and>
   digits_ok (mpn_div_shr ns (p * 2 ^ s mod DIG_BASE) js) \<and>
   dval (rev (mpn_div_shr ns (p * 2 ^ s mod DIG_BASE) js)) =
     (p * DIG_BASE ^ length js + dval (rev js)) div 2 ^ ns mod DIG_BASE ^ length js"
proof (induction js arbitrary: p)
  case (Cons j js)
  let ?P = "DIG_BASE ^ length js" and ?V = "dval (rev js)"
  let ?t = "(j div 2 ^ ns OR p * 2 ^ s mod DIG_BASE) mod DIG_BASE"
  let ?R = "mpn_div_shr ns (j * 2 ^ s mod DIG_BASE) js"
  have s: "DIG_SIZE - ns = s" using Cons.prems(1) by simp
  have "u16 (u32 (j * 2 ^ s)) = j * 2 ^ s mod DIG_BASE"
    by (simp add: u16_def u32_def DIG_BASE_num mod_mod_cancel)
  then have R: "mpn_div_shr ns (p * 2 ^ s mod DIG_BASE) (j # js) = ?t # ?R" by (simp add: s)
  have IH: "length ?R = length js" "digits_ok ?R" "dval (rev ?R) = (j * ?P + ?V) div 2 ^ ns mod ?P"
    using Cons by auto
  have "?V < ?P" using Cons.prems dval_bound [of "rev js"] by simp
  then have sd: "?t * ?P + (j * ?P + ?V) div 2 ^ ns mod ?P =
      (p * (?P * DIG_BASE) + (j * ?P + ?V)) div 2 ^ ns mod (?P * DIG_BASE)"
    using Cons.prems by (intro shr_digit) simp_all
  have "dval (rev (?t # ?R)) = dval (rev ?R) + ?P * ?t" using IH(1) by (simp add: dval_append)
  also have "\<dots> = ?t * ?P + (j * ?P + ?V) div 2 ^ ns mod ?P" unfolding IH(3) by simp
  also note sd
  also have "j * ?P + ?V = dval (rev (j # js))" by (simp add: dval_append)
  also have "?P * DIG_BASE = DIG_BASE ^ length (j # js)" by simp
  finally have "dval (rev (?t # ?R)) =
      (p * DIG_BASE ^ length (j # js) + dval (rev (j # js))) div 2 ^ ns mod DIG_BASE ^ length (j # js)"
    .
  then show ?case unfolding R using IH by simp
qed simp

section \<open>The routine\<close>

text \<open>The leading digit the code caches is the leading digit of the shifted denominator.\<close>

lemma lead_digit:
  assumes "ns < DIG_SIZE" "digits_ok den" "den \<noteq> []"
  defines "l \<equiv> den ! (length den - 1) * 2 ^ ns"
  shows "(if length den \<ge> 2 then u32 l OR (den ! (length den - 2) div 2 ^ (DIG_SIZE - ns)) else u32 l) =
    dval den * 2 ^ ns div DIG_BASE ^ (length den - 1)"
proof -
  have d: "den ! (length den - 1) < DIG_BASE" using assms by (simp add: digits_ok_nth)
  have u: "u32 l = l" using d_norm_step(1) [OF assms(1) d, of 0] unfolding l_def by simp
  have B: "DIG_BASE = 2 ^ (DIG_SIZE - ns) * 2 ^ ns"
    using assms(1) DIG_BASE_split [of "DIG_SIZE - ns" ns] by simp
  have top: "dval den = dval (butlast den) + DIG_BASE ^ (length den - 1) * den ! (length den - 1)"
    using dval_append [of "butlast den" "[last den]"] append_butlast_last_id [OF assms(3)]
    by (simp add: last_conv_nth [OF assms(3)])
  show ?thesis
  proof (cases "length den \<ge> 2")
    case False
    then have "length den = 1" using assms(3) by (cases den) (auto simp: Suc_le_eq)
    then show ?thesis using u top l_def by (auto simp: length_Suc_conv)
  next
    case True
    let ?X = "dval (butlast den)" and ?e = "den ! (length den - 2)" and ?Q = "DIG_BASE ^ (length den - 2)"
    have e: "?e < DIG_BASE" using True assms(2) by (simp add: digits_ok_nth)
    then have el: "?e div 2 ^ (DIG_SIZE - ns) < 2 ^ ns"
      by (intro less_mult_imp_div_less) (simp add: B mult.commute)
    have P: "DIG_BASE ^ (length den - 1) = ?Q * 2 ^ (DIG_SIZE - ns) * 2 ^ ns"
    proof -
      have "length den - 1 = Suc (length den - 2)" using True by simp
      then show ?thesis using B by (simp add: mult.assoc)
    qed
    have "?X div ?Q = ?e"
    proof -
      have "?X div ?Q = dval (drop (length den - 2) (butlast den))"
        using assms(2) True by (simp add: dval_drop butlast_conv_take)
      also have "drop (length den - 2) (butlast den) = [?e]"
        using True by (intro nth_equalityI) (auto simp: nth_butlast)
      finally show ?thesis by simp
    qed
    moreover have "?X * 2 ^ ns div (?Q * 2 ^ (DIG_SIZE - ns) * 2 ^ ns) = ?X div (?Q * 2 ^ (DIG_SIZE - ns))"
      by (rule div_mult_mult2) simp
    ultimately have "?X * 2 ^ ns div DIG_BASE ^ (length den - 1) = ?e div 2 ^ (DIG_SIZE - ns)"
      unfolding P by (simp add: div_mult2_eq)
    moreover have "dval den * 2 ^ ns = ?X * 2 ^ ns + l * DIG_BASE ^ (length den - 1)"
      unfolding top l_def by (simp add: algebra_simps)
    ultimately have "dval den * 2 ^ ns div DIG_BASE ^ (length den - 1) = l + ?e div 2 ^ (DIG_SIZE - ns)"
      by (simp only: div_mult_self1 power_not_zero DIG_BASE_pos) simp
    then show ?thesis using True u el by (simp add: l_def or_shift)
  qed
qed

lemma shifted_den:
  assumes "digits_ok den" "den \<noteq> []" "ns < DIG_SIZE"
    and l: "DIG_BASE \<le> 2 * (den ! (length den - 1) * 2 ^ ns)" "den ! (length den - 1) * 2 ^ ns < DIG_BASE"
  defines "D \<equiv> dval den * 2 ^ ns"
  shows "D < DIG_BASE ^ length den" "DIG_BASE \<le> 2 * (D div DIG_BASE ^ (length den - 1))"
proof -
  let ?l = "den ! (length den - 1)" and ?P = "DIG_BASE ^ (length den - 1)"
  have B: "DIG_BASE = 2 ^ (DIG_SIZE - ns) * 2 ^ ns"
    using assms(3) DIG_BASE_split [of "DIG_SIZE - ns" ns] by simp
  have top: "dval den = dval (butlast den) + ?P * ?l"
    using dval_append [of "butlast den" "[last den]"] append_butlast_last_id [OF assms(2)]
    by (simp add: last_conv_nth [OF assms(2)])
  have "dval (butlast den) < ?P" using dval_bound [of "butlast den"] assms(1) by (simp add: butlast_conv_take)
  then have "dval den < ?P * (?l + 1)" using top by simp
  also have "?l < 2 ^ (DIG_SIZE - ns)" using l(2) unfolding B by simp
  then have "?P * (?l + 1) \<le> ?P * 2 ^ (DIG_SIZE - ns)" by (intro mult_le_mono2) simp
  finally have "dval den < ?P * 2 ^ (DIG_SIZE - ns)" .
  then have "D < ?P * 2 ^ (DIG_SIZE - ns) * 2 ^ ns" unfolding D_def by simp
  also have "\<dots> = ?P * DIG_BASE" unfolding mult.assoc B [symmetric] ..
  also have "\<dots> = DIG_BASE ^ length den" using assms(2) by (cases den) simp_all
  finally show "D < DIG_BASE ^ length den" .
  have "?l * 2 ^ ns * ?P \<le> D" unfolding D_def top by (simp add: algebra_simps)
  then have "?l * 2 ^ ns \<le> D div ?P" by (simp add: less_eq_div_iff_mult_less_eq)
  then show "DIG_BASE \<le> 2 * (D div ?P)" using l(1) by linarith
qed

lemma mpn_div_correct:
  assumes num: "normed num" and den: "normed den" "den \<noteq> []"
  shows "\<exists>r rl q ql. mpn_div num den = Some ((r, rl), (q, ql)) \<and>
    rl \<le> length r \<and> length r \<le> length num \<and> ql \<le> length q \<and> length q \<le> length num \<and>
    normed (take rl r) \<and> normed (take ql q) \<and>
    dval num = dval (take ql q) * dval den + dval (take rl r) \<and> dval (take rl r) < dval den"
proof -
  let ?n = "length den" and ?m = "length num"
  have d0: "0 < dval den" using den normed_dval_0_iff [of den] by simp
  have cmp: "mpn_cmp num den = sgn (int (dval num) - int (dval den))" using mpn_cmp_sgn num den(1) .
  consider "dval num = dval den" | "dval num < dval den" | "dval num > dval den" by linarith
  then show ?thesis
  proof cases
    case 1
    then have "num \<noteq> []" using d0 by auto
    then show ?thesis using 1 cmp d0
      by (simp add: mpn_div_def Let_def normed_def Suc_le_eq)
  next
    case 2
    then show ?thesis using cmp num by (simp add: mpn_div_def Let_def)
  next
    case 3
    have mn: "?n \<le> ?m" using 3 num den dval_length_mono [of den num] by (cases "?n \<le> ?m") auto
    let ?l = "den ! (?n - 1)"
    have l: "?l < DIG_BASE" "2 ^ 0 \<le> ?l"
      using den by (auto simp: normed_def digits_ok_nth last_conv_nth Suc_le_eq)
    obtain ns where ns: "mpn_div_norm_shift ?l 0 = Some ns" "DIG_BASE \<le> 2 * (?l * 2 ^ ns)"
      "?l * 2 ^ ns < DIG_BASE"
      using mpn_div_norm_shift_returns [OF l(2,1)] by auto
    have ns16: "ns < DIG_SIZE" using shift_bound [of ?l ns] l(2) ns(3) by simp
    define D where "D = dval den * 2 ^ ns"
    define lead where "lead = D div DIG_BASE ^ (?n - 1)"
    have ok: "digits_ok den" "digits_ok num" using num den by simp_all
    note sd = shifted_den [OF ok(1) den(2) ns16 ns(2,3), folded D_def, folded lead_def]
    define num1 where "num1 = mpn_div_shl ns 0 (num @ [0])"
    have n1: "num1 = norm_digits ns 0 (num @ [0])"
      unfolding num1_def using ns16 ok by (intro mpn_div_shl_correct) simp_all
    have m1: "length num1 = ?n + (?m + 1 - ?n)" "digits_ok num1"
      using norm_digits_facts [of ns 0 "num @ [0]"] mn by (simp_all add: n1)
    have P2: "2 ^ ns \<le> DIG_BASE" using ns16 unfolding DIG_BASE_def by (intro power_increasing) simp_all
    have "dval num * 2 ^ ns < DIG_BASE ^ ?m * DIG_BASE"
      using dval_bound [OF ok(2)] P2 by (intro mult_less_le_imp_less) simp_all
    then have v1: "dval num1 = dval num * 2 ^ ns"
      by (simp add: n1 norm_digits_dval dval_append mult.commute)
    have "dval num * 2 ^ ns < DIG_BASE ^ ?m * 2 ^ ns" using dval_bound [OF ok(2)] by simp
    also have "DIG_BASE ^ ?m = DIG_BASE ^ (?n - 1) * DIG_BASE ^ (?m + 1 - ?n)"
      using mn den(2) by (cases den) (simp_all add: power_add [symmetric])
    also have "\<dots> * 2 ^ ns \<le> D * DIG_BASE ^ (?m + 1 - ?n)"
      using den dval_last_lower [of den] unfolding D_def by (simp add: normed_def)
    finally have lt: "dval num1 < D * DIG_BASE ^ (?m + 1 - ?n)" by (simp add: v1)
    obtain r qs where loop: "mpn_div_loop (?m + 1 - ?n) ns lead den num1 [] = Some (r, qs)"
      "length r = ?n" "digits_ok r" "length qs = ?m + 1 - ?n" "digits_ok qs"
      "dval num1 = dval qs * D + dval r" "dval r < D"
      using mpn_div_loop_correct [OF ns16 ok(1) den(2) D_def sd(1) lead_def sd(2) m1(2,1) lt, of "[]"] by auto
    define r' where "r' = rev (mpn_div_shr ns 0 (rev r))"
    have r': "length r' = ?n" "digits_ok r'" "dval r' = dval r div 2 ^ ns mod DIG_BASE ^ ?n"
      using mpn_div_shr_correct [of "DIG_SIZE - ns" ns "rev r" 0] ns16 loop(2,3) by (simp_all add: r'_def)
    have "dval r div 2 ^ ns \<le> dval r" by (rule div_le_dividend)
    also have "dval r < DIG_BASE ^ ?n" using loop(7) sd(1) by simp
    finally have rv: "dval r' = dval r div 2 ^ ns" using r'(3) by simp
    have "dval num * 2 ^ ns = dval qs * dval den * 2 ^ ns + dval r"
      using loop(6) v1 by (simp add: D_def)
    then have "dval qs * dval den * 2 ^ ns \<le> dval num * 2 ^ ns"
      and re: "dval r = (dval num - dval qs * dval den) * 2 ^ ns" by (simp_all add: diff_mult_distrib)
    then have "dval qs * dval den \<le> dval num" "dval r' = dval num - dval qs * dval den"
      by (simp_all add: rv)
    then have q: "dval num = dval qs * dval den + dval r'" and "dval r = dval r' * 2 ^ ns"
      using re by simp_all
    then have "dval r' < dval den" using loop(7) by (simp add: D_def)
    moreover have "mpn_div num den = Some ((r', mpn_remove_trailing_zeros r' (length r')),
        (qs, mpn_remove_trailing_zeros qs (length qs)))"
    proof -
      have c: "mpn_cmp num den \<noteq> 0" "\<not> mpn_cmp num den < 0" using 3 cmp by simp_all
      have k: "length num1 - ?n = ?m + 1 - ?n" using m1(1) by simp
      note lead_eq = lead_digit [OF ns16 ok(1) den(2), folded D_def, folded lead_def]
      show ?thesis
        unfolding mpn_div_def Let_def if_not_P [OF c(1)] if_not_P [OF c(2)] ns(1) option.case
          num1_def [symmetric] lead_eq k loop(1) prod.case r'_def [symmetric] ..
    qed
    ultimately show ?thesis
      using q mn den(2) loop(4) r'(1) strip_result [OF r'(2)] strip_result [OF loop(5)]
        mpn_remove_trailing_zeros_le [of r' "length r'"] mpn_remove_trailing_zeros_le [of qs "length qs"]
      by (cases den) auto
  qed
qed

end
