(* ===== verification/Mpz.thy ===== *)
theory Mpz
  imports Mpn_Bitwise Mpn_Div
begin

text \<open>
  The signed layer of \<^verbatim>\<open>py/mpz.c\<close> on top of the digit routines: the \<^verbatim>\<open>mpz_t\<close> object,
  initialisation, comparison, negation, shifts, addition, subtraction, bitwise operations,
  multiplication and division. An object keeps its digits \<^verbatim>\<open>dig[0..len)\<close> as a list; the
  digits between \<^verbatim>\<open>len\<close> and \<^verbatim>\<open>alloc\<close> are never read before they are written. Every write is
  checked against \<^verbatim>\<open>alloc\<close>, so a result \<^term>\<open>Inr z\<close> also says that no write left the buffer.
  Memory requests succeed, and no object comes near the \<open>2 ^ 30\<close> digits the \<^verbatim>\<open>alloc\<close>
  bit-field holds (2 GiB, on a part with 264 KiB of RAM).

  Where the code compares pointers, or reads an operand after writing the destination, the
  operation takes flags that say which arguments are the destination object itself; a call
  with such a flag passes the same object value for both.
\<close>

record mpz =
  neg :: bool
  fixed_dig :: bool
  alloc :: nat
  dig :: "nat list"

datatype mpz_error =
    AssertFixedDig    \<comment> \<open>\<^verbatim>\<open>assert(!z->fixed_dig)\<close> of \<^verbatim>\<open>mpz_need_dig\<close>\<close>
  | AssertAlloc       \<comment> \<open>\<^verbatim>\<open>assert(src->alloc != 0)\<close> of \<^verbatim>\<open>mpz_clone\<close>\<close>
  | AssertNonzero     \<comment> \<open>\<^verbatim>\<open>assert(!mpz_is_zero(rhs))\<close> of \<^verbatim>\<open>mpz_divmod_inpl\<close>\<close>
  | AssertCarry       \<comment> \<open>\<^verbatim>\<open>assert(carryi == 0)\<close> of \<^verbatim>\<open>mpn_or_neg\<close>\<close>
  | AssertBase        \<comment> \<open>the assertions on the base of the string conversions\<close>
  | BufferOverrun     \<comment> \<open>a write past the end of a buffer\<close>
  | Diverges          \<comment> \<open>a loop that does not end\<close>

definition mpz_len :: "mpz \<Rightarrow> nat" where
  "mpz_len z = length (dig z)"

text \<open>The integer an object stands for.\<close>

definition mpz_val :: "mpz \<Rightarrow> int" where
  "mpz_val z = sval (neg z) (dig z)"

text \<open>
  Well-formed: no leading zero digit, and the digits fit the buffer. Canonical: in addition
  not a negative zero.
\<close>

definition mpz_wf :: "mpz \<Rightarrow> bool" where
  "mpz_wf z \<longleftrightarrow> normed (dig z) \<and> length (dig z) \<le> alloc z"

definition mpz_canon :: "mpz \<Rightarrow> bool" where
  "mpz_canon z \<longleftrightarrow> mpz_wf z \<and> (neg z \<longrightarrow> dig z \<noteq> [])"

section \<open>Objects and buffers\<close>

definition MIN_ALLOC :: nat where
  "MIN_ALLOC = 2"

definition MPZ_NUM_DIG_FOR_INT :: nat where
  "MPZ_NUM_DIG_FOR_INT = (4 * 8 + DIG_SIZE - 1) div DIG_SIZE"

definition MPZ_NUM_DIG_FOR_LL :: nat where
  "MPZ_NUM_DIG_FOR_LL = (8 * 8 + DIG_SIZE - 1) div DIG_SIZE"

definition mpz_init_zero :: mpz where
  "mpz_init_zero = \<lparr>neg = False, fixed_dig = False, alloc = 0, dig = []\<rparr>"

definition mpz_need_dig :: "mpz \<Rightarrow> nat \<Rightarrow> mpz_error + mpz" where
  "mpz_need_dig z need =
     (let need = (if need < MIN_ALLOC then MIN_ALLOC else need)
      in if alloc z < need
         then (if fixed_dig z then Inl AssertFixedDig else Inr (z\<lparr>alloc := need\<rparr>))
         else Inr z)"

text \<open>Digits written at \<^verbatim>\<open>z->dig\<close>, and the new \<^verbatim>\<open>z->len\<close>.\<close>

definition put_dig :: "mpz \<Rightarrow> nat list \<times> nat \<Rightarrow> mpz_error + mpz" where
  "put_dig z w =
     (if length (fst w) \<le> alloc z then Inr (z\<lparr>dig := take (snd w) (fst w)\<rparr>)
      else Inl BufferOverrun)"

definition mpz_clone :: "mpz \<Rightarrow> mpz_error + mpz" where
  "mpz_clone src =
     (if alloc src = 0 then Inl AssertAlloc
      else Inr \<lparr>neg = neg src, fixed_dig = False, alloc = alloc src, dig = dig src\<rparr>)"

definition mpz_set :: "mpz \<Rightarrow> mpz \<Rightarrow> mpz_error + mpz" where
  "mpz_set dest src =
     res_bind (mpz_need_dig dest (mpz_len src)) (\<lambda>dest.
     put_dig (dest\<lparr>neg := neg src\<rparr>) (dig src, mpz_len src))"

text \<open>The loops \<^verbatim>\<open>while (uval > 0)\<close> of the conversions from machine integers.\<close>

fun uval_digits :: "nat \<Rightarrow> nat list" where
  "uval_digits uval =
     (if uval > 0 then uval mod DIG_BASE # uval_digits (uval div DIG_BASE) else [])"

declare uval_digits.simps [simp del]

definition mpz_set_from_int :: "mpz \<Rightarrow> int \<Rightarrow> mpz_error + mpz" where
  "mpz_set_from_int z val =
     (if val = 0 then Inr (z\<lparr>dig := []\<rparr>)
      else res_bind (mpz_need_dig z MPZ_NUM_DIG_FOR_INT) (\<lambda>z.
           let uval = (if val < 0 then u32 (nat (- val)) else u32 (nat val));
               ds = uval_digits uval
           in put_dig (z\<lparr>neg := (val < 0)\<rparr>) (ds, length ds)))"

definition mpz_set_from_ll :: "mpz \<Rightarrow> int \<Rightarrow> bool \<Rightarrow> mpz_error + mpz" where
  "mpz_set_from_ll z val is_signed =
     res_bind (mpz_need_dig z MPZ_NUM_DIG_FOR_LL) (\<lambda>z.
     let uval = (if is_signed \<and> val < 0 then nat (- val) mod 2 ^ 64 else nat (val mod 2 ^ 64));
         ds = uval_digits uval
     in put_dig (z\<lparr>neg := (is_signed \<and> val < 0)\<rparr>) (ds, length ds))"

definition mpz_init_from_int :: "int \<Rightarrow> mpz_error + mpz" where
  "mpz_init_from_int val = mpz_set_from_int mpz_init_zero val"

definition mpz_init_fixed_from_int :: "nat \<Rightarrow> int \<Rightarrow> mpz_error + mpz" where
  "mpz_init_fixed_from_int n val =
     mpz_set_from_int \<lparr>neg = False, fixed_dig = True, alloc = n, dig = []\<rparr> val"

definition mpz_is_zero :: "mpz \<Rightarrow> bool" where
  "mpz_is_zero z \<longleftrightarrow> mpz_len z = 0"

definition mpz_is_neg :: "mpz \<Rightarrow> bool" where
  "mpz_is_neg z \<longleftrightarrow> mpz_len z \<noteq> 0 \<and> neg z"

definition mpz_max_num_bits :: "mpz \<Rightarrow> nat" where
  "mpz_max_num_bits z = u32 (mpz_len z * DIG_SIZE)"

section \<open>Comparison, sign and shifts\<close>

definition mpz_cmp :: "mpz \<Rightarrow> mpz \<Rightarrow> int" where
  "mpz_cmp z1 z2 =
     (if mpz_len z1 = 0 \<and> mpz_len z2 = 0 then 0
      else let cmp = of_bool (neg z2) - of_bool (neg z1)
           in if cmp \<noteq> 0 then cmp
              else let cmp = mpn_cmp (dig z1) (dig z2)
                   in if neg z1 then - cmp else cmp)"

definition mpz_abs_inpl :: "bool \<Rightarrow> mpz \<Rightarrow> mpz \<Rightarrow> mpz_error + mpz" where
  "mpz_abs_inpl same dest z =
     res_bind (if same then Inr dest else mpz_set dest z) (\<lambda>dest.
     Inr (dest\<lparr>neg := False\<rparr>))"

definition mpz_neg_inpl :: "bool \<Rightarrow> mpz \<Rightarrow> mpz \<Rightarrow> mpz_error + mpz" where
  "mpz_neg_inpl same dest z =
     res_bind (if same then Inr dest else mpz_set dest z) (\<lambda>dest.
     Inr (dest\<lparr>neg := \<not> neg dest\<rparr>))"

definition mpz_not_inpl :: "bool \<Rightarrow> mpz \<Rightarrow> mpz \<Rightarrow> mpz_error + mpz" where
  "mpz_not_inpl same dest z =
     res_bind (if same then Inr dest else mpz_set dest z) (\<lambda>dest.
     if mpz_len dest = 0 then
       res_bind (mpz_need_dig dest 1) (\<lambda>dest.
       res_bind (put_dig dest ([1], 1)) (\<lambda>dest.
       Inr (dest\<lparr>neg := True\<rparr>)))
     else if neg dest then put_dig (dest\<lparr>neg := False\<rparr>) (mpn_sub (dig dest) [1])
     else
       res_bind (mpz_need_dig dest (mpz_len dest + 1)) (\<lambda>dest.
       res_bind (put_dig dest (mpn_add (dig dest) [1])) (\<lambda>dest.
       Inr (dest\<lparr>neg := True\<rparr>))))"

definition mpz_shl_inpl :: "mpz \<Rightarrow> mpz \<Rightarrow> nat \<Rightarrow> mpz_error + mpz" where
  "mpz_shl_inpl dest lhs rhs =
     (if mpz_len lhs = 0 \<or> rhs = 0 then mpz_set dest lhs
      else res_bind (mpz_need_dig dest (mpz_len lhs + u32 (rhs + DIG_SIZE - 1) div DIG_SIZE)) (\<lambda>dest.
           res_bind (put_dig dest (mpn_shl (dig lhs) rhs)) (\<lambda>dest.
           Inr (dest\<lparr>neg := neg lhs\<rparr>))))"

text \<open>
  The rounding of \<^verbatim>\<open>mpz_shr_inpl\<close> reads \<open>lhs\<close> again after the shift was stored in \<open>dest\<close>;
  with \<open>same\<close> set it reads the shifted digits.
\<close>

definition shr_round_up :: "mpz \<Rightarrow> nat \<Rightarrow> bool" where
  "shr_round_up lhs rhs =
     (let n_whole = rhs div DIG_SIZE; n_part = rhs mod DIG_SIZE
      in (\<exists>d \<in> set (take n_whole (dig lhs)). d \<noteq> 0) \<or>
         (n_whole < mpz_len lhs \<and> (dig lhs ! n_whole) mod 2 ^ n_part \<noteq> 0))"

definition mpz_shr_inpl :: "bool \<Rightarrow> mpz \<Rightarrow> mpz \<Rightarrow> nat \<Rightarrow> mpz_error + mpz" where
  "mpz_shr_inpl same dest lhs rhs =
     (if mpz_len lhs = 0 \<or> rhs = 0 then mpz_set dest lhs
      else res_bind (mpz_need_dig dest (mpz_len lhs)) (\<lambda>dest.
           res_bind (put_dig dest (mpn_shr (dig lhs) rhs)) (\<lambda>dest.
           let dest = dest\<lparr>neg := neg lhs\<rparr>
           in if neg dest \<and> shr_round_up (if same then dest else lhs) rhs
              then (if mpz_len dest = 0 then put_dig dest ([1], 1)
                    else put_dig dest (mpn_add (dig dest) [1]))
              else Inr dest)))"

section \<open>Addition and subtraction\<close>

definition mpz_add_inpl :: "mpz \<Rightarrow> mpz \<Rightarrow> mpz \<Rightarrow> mpz_error + mpz" where
  "mpz_add_inpl dest lhs rhs =
     (let (lhs, rhs) = (if mpn_cmp (dig lhs) (dig rhs) < 0 then (rhs, lhs) else (lhs, rhs))
      in res_bind
           (if neg lhs = neg rhs
            then res_bind (mpz_need_dig dest (mpz_len lhs + 1)) (\<lambda>dest.
                 put_dig dest (mpn_add (dig lhs) (dig rhs)))
            else res_bind (mpz_need_dig dest (mpz_len lhs)) (\<lambda>dest.
                 put_dig dest (mpn_sub (dig lhs) (dig rhs))))
           (\<lambda>dest. Inr (dest\<lparr>neg := neg lhs\<rparr>)))"

definition mpz_sub_inpl :: "mpz \<Rightarrow> mpz \<Rightarrow> mpz \<Rightarrow> mpz_error + mpz" where
  "mpz_sub_inpl dest lhs rhs =
     (let swap = (mpn_cmp (dig lhs) (dig rhs) < 0);
          (lhs, rhs) = (if swap then (rhs, lhs) else (lhs, rhs))
      in res_bind
           (if neg lhs \<noteq> neg rhs
            then res_bind (mpz_need_dig dest (mpz_len lhs + 1)) (\<lambda>dest.
                 put_dig dest (mpn_add (dig lhs) (dig rhs)))
            else res_bind (mpz_need_dig dest (mpz_len lhs)) (\<lambda>dest.
                 put_dig dest (mpn_sub (dig lhs) (dig rhs))))
           (\<lambda>dest. Inr (dest\<lparr>neg := (if swap then \<not> neg lhs else neg lhs)\<rparr>)))"

section \<open>Bitwise operations\<close>

definition mpz_and_inpl :: "mpz \<Rightarrow> mpz \<Rightarrow> mpz \<Rightarrow> mpz_error + mpz" where
  "mpz_and_inpl dest lhs rhs =
     (let (lhs, rhs) = (if mpz_len lhs < mpz_len rhs then (rhs, lhs) else (lhs, rhs))
      in res_bind (mpz_need_dig dest (mpz_len lhs + of_bool (neg lhs \<or> neg rhs))) (\<lambda>dest.
         res_bind (put_dig dest (mpn_and_neg (dig lhs) (dig rhs)
             (if neg lhs = neg rhs then of_bool (neg lhs) else 0)
             (of_bool (neg lhs)) (of_bool (neg rhs)))) (\<lambda>dest.
         Inr (dest\<lparr>neg := (neg lhs \<and> neg rhs)\<rparr>))))"

definition mpz_or_inpl :: "mpz \<Rightarrow> mpz \<Rightarrow> mpz \<Rightarrow> mpz_error + mpz" where
  "mpz_or_inpl dest lhs rhs =
     (let (lhs, rhs) = (if mpz_len lhs < mpz_len rhs then (rhs, lhs) else (lhs, rhs))
      in res_bind (mpz_need_dig dest (mpz_len lhs + of_bool (neg lhs \<or> neg rhs))) (\<lambda>dest.
         case mpn_or_neg (dig lhs) (dig rhs) (of_bool (neg lhs \<or> neg rhs))
                (of_bool (neg lhs)) (of_bool (neg rhs)) of
           None \<Rightarrow> Inl AssertCarry
         | Some w \<Rightarrow> res_bind (put_dig dest w) (\<lambda>dest.
             Inr (dest\<lparr>neg := (neg lhs \<or> neg rhs)\<rparr>))))"

definition mpz_xor_inpl :: "mpz \<Rightarrow> mpz \<Rightarrow> mpz \<Rightarrow> mpz_error + mpz" where
  "mpz_xor_inpl dest lhs rhs =
     (let (lhs, rhs) = (if mpz_len lhs < mpz_len rhs then (rhs, lhs) else (lhs, rhs))
      in res_bind (mpz_need_dig dest (mpz_len lhs + of_bool (neg lhs \<or> neg rhs))) (\<lambda>dest.
         res_bind (put_dig dest (mpn_xor_neg (dig lhs) (dig rhs)
             (of_bool (neg lhs \<noteq> neg rhs)) (of_bool (\<not> neg lhs)) (of_bool (\<not> neg rhs)))) (\<lambda>dest.
         Inr (dest\<lparr>neg := (neg lhs \<noteq> neg rhs)\<rparr>))))"

section \<open>Multiplication and division\<close>

definition mpz_mul_inpl :: "bool \<Rightarrow> bool \<Rightarrow> mpz \<Rightarrow> mpz \<Rightarrow> mpz \<Rightarrow> mpz_error + mpz" where
  "mpz_mul_inpl same_l same_r dest lhs rhs =
     (if mpz_len lhs = 0 \<or> mpz_len rhs = 0 then mpz_set_from_int dest 0
      else
        res_bind (if same_l then mpz_clone lhs else Inr lhs) (\<lambda>lhs'.
        res_bind (if same_l then Inr (if same_r then lhs' else rhs)
                  else if same_r then mpz_clone rhs else Inr rhs) (\<lambda>rhs'.
        res_bind (mpz_need_dig dest (mpz_len lhs' + mpz_len rhs')) (\<lambda>dest.
        case mpn_mul (replicate (alloc dest) 0) (dig lhs') (dig rhs') of
          None \<Rightarrow> Inl BufferOverrun
        | Some w \<Rightarrow> res_bind (put_dig dest w) (\<lambda>dest.
            Inr (dest\<lparr>neg := (neg lhs' \<noteq> neg rhs')\<rparr>))))))"

text \<open>\<^verbatim>\<open>mpn_div\<close> writes one digit beyond the numerator, \<^verbatim>\<open>num_dig[*num_len] = 0\<close>.\<close>

definition mpz_divmod_inpl :: "mpz \<Rightarrow> mpz \<Rightarrow> mpz \<Rightarrow> mpz \<Rightarrow> mpz_error + mpz \<times> mpz" where
  "mpz_divmod_inpl dest_quo dest_rem lhs rhs =
     (if mpz_is_zero rhs then Inl AssertNonzero
      else
        res_bind (mpz_need_dig dest_quo (mpz_len lhs + 1)) (\<lambda>dest_quo.
        res_bind (put_dig dest_quo (replicate (mpz_len lhs + 1) 0, 0)) (\<lambda>dest_quo.
        res_bind (mpz_need_dig dest_rem (mpz_len lhs + 1)) (\<lambda>dest_rem.
        res_bind (mpz_set dest_rem lhs) (\<lambda>dest_rem.
        if alloc dest_rem < mpz_len dest_rem + 1 then Inl BufferOverrun
        else case mpn_div (dig dest_rem) (dig rhs) of
          None \<Rightarrow> Inl Diverges
        | Some (rw, qw) \<Rightarrow>
            res_bind (put_dig dest_rem rw) (\<lambda>dest_rem.
            res_bind (put_dig dest_quo qw) (\<lambda>dest_quo.
            if neg lhs \<noteq> neg rhs then
              let dest_quo = dest_quo\<lparr>neg := True\<rparr>
              in if \<not> mpz_is_zero dest_rem then
                   res_bind (mpz_init_from_int (-1)) (\<lambda>mpzone.
                   res_bind (mpz_add_inpl dest_quo dest_quo mpzone) (\<lambda>dest_quo.
                   res_bind (mpz_add_inpl dest_rem dest_rem rhs) (\<lambda>dest_rem.
                   Inr (dest_quo, dest_rem))))
                 else Inr (dest_quo, dest_rem)
            else Inr (dest_quo, dest_rem))))))))"

section \<open>Buffers and values\<close>

lemma mpz_need_dig_ok:
  "\<not> fixed_dig z \<Longrightarrow> mpz_need_dig z need = Inr (z\<lparr>alloc := max (alloc z) (max need MIN_ALLOC)\<rparr>)"
  by (auto simp: mpz_need_dig_def Let_def max_def)

lemma mpz_need_dig_fixed:
  "max need MIN_ALLOC \<le> alloc z \<Longrightarrow> mpz_need_dig z need = Inr z"
  by (auto simp: mpz_need_dig_def Let_def max_def split: if_splits)

lemma put_dig_ok: "length ds \<le> alloc z \<Longrightarrow> put_dig z (ds, n) = Inr (z\<lparr>dig := take n ds\<rparr>)"
  by (simp add: put_dig_def)

lemma mpz_wfI: "normed (dig z) \<Longrightarrow> length (dig z) \<le> alloc z \<Longrightarrow> mpz_wf z"
  by (simp add: mpz_wf_def)

lemma mpz_wfD: "mpz_wf z \<Longrightarrow> normed (dig z)" "mpz_wf z \<Longrightarrow> length (dig z) \<le> alloc z"
  by (simp_all add: mpz_wf_def)

lemma sval_simps [simp]:
  "sval False ds = int (dval ds)"
  "sval True ds = - int (dval ds)"
  by (simp_all add: sval_def)

lemma sval_abs [simp]: "\<bar>sval n ds\<bar> = int (dval ds)"
  by (simp add: sval_def)

lemma mpz_val_0_iff: "mpz_wf z \<Longrightarrow> mpz_val z = 0 \<longleftrightarrow> mpz_len z = 0"
  using normed_dval_0_iff [of "dig z"] by (auto simp: mpz_wf_def mpz_val_def mpz_len_def sval_def)

lemma mpz_val_sign:
  assumes "mpz_canon z"
  shows "neg z \<longleftrightarrow> mpz_val z < 0"
  using assms normed_dval_0_iff [of "dig z"]
  by (cases "neg z") (auto simp: mpz_canon_def mpz_wf_def mpz_val_def)

lemma mpz_canon_unique:
  assumes "mpz_canon y" "mpz_canon z" "mpz_val y = mpz_val z"
  shows "neg y = neg z" "dig y = dig z"
proof -
  show "neg y = neg z" using assms by (simp add: mpz_val_sign)
  then have "dval (dig y) = dval (dig z)"
    using assms(3) by (cases "neg z") (simp_all add: mpz_val_def)
  then show "dig y = dig z" using assms(1,2) by (auto intro: normed_unique simp: mpz_canon_def mpz_wf_def)
qed

text \<open>
  What an operation with destination \<open>dest\<close> promises: it returns, with a well-formed object
  of value \<open>v\<close> in a buffer that is of the same kind and no smaller.
\<close>

definition mpz_yields :: "mpz_error + mpz \<Rightarrow> mpz \<Rightarrow> int \<Rightarrow> bool" where
  "mpz_yields m dest v \<longleftrightarrow>
     (\<exists>z. m = Inr z \<and> mpz_wf z \<and> mpz_val z = v \<and> fixed_dig z = fixed_dig dest \<and> alloc dest \<le> alloc z)"

lemma mpz_yieldsI:
  "m = Inr z \<Longrightarrow> normed (dig z) \<Longrightarrow> length (dig z) \<le> alloc z \<Longrightarrow> mpz_val z = v \<Longrightarrow>
   fixed_dig z = fixed_dig dest \<Longrightarrow> alloc dest \<le> alloc z \<Longrightarrow> mpz_yields m dest v"
  by (auto simp: mpz_yields_def mpz_wf_def)

lemma mpz_yieldsE:
  assumes "mpz_yields m dest v"
  obtains z where "m = Inr z" "mpz_wf z" "mpz_val z = v" "fixed_dig z = fixed_dig dest" "alloc dest \<le> alloc z"
  using assms by (auto simp: mpz_yields_def)

lemma mpz_set_yields:
  assumes "\<not> fixed_dig dest" "mpz_wf src"
  shows "mpz_yields (mpz_set dest src) dest (mpz_val src)"
  using assms
  by (auto intro!: mpz_yieldsI simp: mpz_set_def mpz_need_dig_ok put_dig_ok mpz_len_def mpz_wf_def mpz_val_def)

lemma mpz_set_eq:
  assumes "\<not> fixed_dig dest" "mpz_wf src"
  shows "mpz_set dest src =
    Inr (dest\<lparr>alloc := max (alloc dest) (max (mpz_len src) MIN_ALLOC), neg := neg src, dig := dig src\<rparr>)"
  using assms by (simp add: mpz_set_def mpz_need_dig_ok put_dig_ok mpz_len_def)

section \<open>Machine integers\<close>

lemma uval_digits_normed: "normed (uval_digits n) \<and> dval (uval_digits n) = n"
proof (induction n rule: uval_digits.induct)
  case (1 n)
  show ?case
  proof (cases "n = 0")
    case True then show ?thesis by (simp add: uval_digits.simps [of 0] normed_def)
  next
    case False
    let ?r = "uval_digits (n div DIG_BASE)"
    have IH: "normed ?r" "dval ?r = n div DIG_BASE" using 1 False by auto
    have "?r = [] \<Longrightarrow> n div DIG_BASE = 0" using IH(2) by (metis dval.simps(1))
    then have "?r = [] \<Longrightarrow> n mod DIG_BASE \<noteq> 0" using False
      by (metis add.right_neutral mod_div_mult_eq mult_0_right mult.commute)
    then show ?thesis using IH False
      by (auto simp: uval_digits.simps [of n] normed_def)
  qed
qed

lemma normed_length_bound:
  assumes "normed ds" "dval ds < DIG_BASE ^ k"
  shows "length ds \<le> k"
proof (rule ccontr)
  assume "\<not> length ds \<le> k"
  then have k: "k \<le> length ds - 1" "ds \<noteq> []" by auto
  then have "DIG_BASE ^ (length ds - 1) \<le> dval ds"
    using assms(1) by (intro dval_last_lower) (auto simp: normed_def)
  moreover have "DIG_BASE ^ k \<le> DIG_BASE ^ (length ds - 1)"
    using k by (intro power_increasing) simp_all
  ultimately show False using assms(2) by linarith
qed

lemma uval_digits_length: "n < DIG_BASE ^ k \<Longrightarrow> length (uval_digits n) \<le> k"
  by (rule normed_length_bound) (simp_all add: uval_digits_normed)

lemma put_uval_digits:
  assumes "n < DIG_BASE ^ k" "k \<le> alloc z"
  shows "put_dig z (uval_digits n, length (uval_digits n)) = Inr (z\<lparr>dig := uval_digits n\<rparr>)"
  using assms uval_digits_length [of n k] by (simp add: put_dig_ok)

lemma mpz_set_from_int_yields:
  assumes "\<not> fixed_dig z \<or> MPZ_NUM_DIG_FOR_INT \<le> alloc z" "- (2 ^ 31) \<le> val" "val < 2 ^ 31"
  shows "mpz_yields (mpz_set_from_int z val) z val \<and> 
    (val \<noteq> 0 \<longrightarrow> (\<forall>r. mpz_set_from_int z val = Inr r \<longrightarrow> mpz_canon r))"
proof (cases "val = 0")
  case True
  then show ?thesis
    by (auto intro!: mpz_yieldsI simp: mpz_set_from_int_def mpz_val_def normed_def sval_def)
next
  case False
  define u where "u = nat \<bar>val\<bar>"
  have u: "u32 (nat (- val)) = u" if "val < 0" using that assms by (simp add: u_def u32_id)
  have u': "u32 (nat val) = u" if "\<not> val < 0" using that assms by (simp add: u_def u32_id)
  have lt: "u < DIG_BASE ^ 2" using assms by (simp add: u_def DIG_BASE_num)
  obtain a where a: "mpz_need_dig z MPZ_NUM_DIG_FOR_INT = Inr (z\<lparr>alloc := a\<rparr>)" "2 \<le> a" "alloc z \<le> a"
  proof (cases "fixed_dig z")
    case True
    then show thesis using assms(1) that [of "alloc z"]
      by (simp add: mpz_need_dig_fixed MPZ_NUM_DIG_FOR_INT_def MIN_ALLOC_def DIG_SIZE_def)
  next
    case False
    show thesis by (rule that [of "max (alloc z) (max MPZ_NUM_DIG_FOR_INT MIN_ALLOC)"])
      (simp_all add: False mpz_need_dig_ok MIN_ALLOC_def)
  qed
  have r: "mpz_set_from_int z val = Inr (z\<lparr>alloc := a, neg := (val < 0), dig := uval_digits u\<rparr>)"
    using False u u' a lt by (simp add: mpz_set_from_int_def Let_def put_uval_digits [of _ 2])
  have "u \<noteq> 0" using False by (simp add: u_def)
  then have "uval_digits u \<noteq> []" using uval_digits_normed [of u] by auto
  moreover have "length (uval_digits u) \<le> a" using uval_digits_length [OF lt] a by simp
  ultimately show ?thesis using a uval_digits_normed [of u]
    by (auto intro!: mpz_yieldsI simp: r mpz_val_def sval_def u_def mpz_canon_def mpz_wf_def)
qed

section \<open>Comparison and sign\<close>

lemma mpz_cmp_sgn:
  assumes "mpz_canon x" "mpz_canon y"
  shows "mpz_cmp x y = sgn (mpz_val x - mpz_val y)"
proof -
  have n: "normed (dig x)" "normed (dig y)" using assms by (simp_all add: mpz_canon_def mpz_wf_def)
  have pos: "neg x \<Longrightarrow> 0 < dval (dig x)" "neg y \<Longrightarrow> 0 < dval (dig y)"
    using assms normed_dval_0_iff n by (auto simp: mpz_canon_def)
  show ?thesis using mpn_cmp_sgn [OF n] pos
    by (cases "neg x"; cases "neg y")
      (auto simp: mpz_cmp_def mpz_len_def mpz_val_def sgn_if Let_def)
qed

lemma dest_copy:
  assumes "\<not> fixed_dig dest" "mpz_wf z" "same \<Longrightarrow> dest = z"
  obtains d where "(if same then Inr dest else mpz_set dest z) = Inr d" "mpz_wf d" "neg d = neg z"
    "dig d = dig z" "\<not> fixed_dig d" "alloc dest \<le> alloc d"
proof (cases same)
  case True then show thesis using assms that by auto
next
  case False then show thesis using assms
    by (auto simp: mpz_set_eq mpz_wf_def mpz_len_def intro!: that)
qed

lemma mpz_abs_inpl_yields:
  assumes "\<not> fixed_dig dest" "mpz_wf z" "same \<Longrightarrow> dest = z"
  shows "mpz_yields (mpz_abs_inpl same dest z) dest \<bar>mpz_val z\<bar>"
  by (rule dest_copy [OF assms], assumption)
    (use assms(1) in \<open>auto intro!: mpz_yieldsI simp: mpz_abs_inpl_def mpz_wf_def mpz_val_def\<close>)

lemma mpz_neg_inpl_yields:
  assumes "\<not> fixed_dig dest" "mpz_wf z" "same \<Longrightarrow> dest = z"
  shows "mpz_yields (mpz_neg_inpl same dest z) dest (- mpz_val z)"
  by (rule dest_copy [OF assms], assumption)
    (use assms(1) in \<open>auto intro!: mpz_yieldsI simp: mpz_neg_inpl_def mpz_wf_def mpz_val_def sval_def\<close>)

lemma normed_one: "normed [Suc 0]"
  by (simp add: normed_def DIG_BASE_num)

lemma mpz_not_inpl_yields:
  assumes "\<not> fixed_dig dest" "mpz_wf z" "same \<Longrightarrow> dest = z"
  shows "mpz_yields (mpz_not_inpl same dest z) dest (NOT (mpz_val z))"
proof -
  obtain d where d: "(if same then Inr dest else mpz_set dest z) = Inr d" "mpz_wf d" "neg d = neg z"
    "dig d = dig z" "\<not> fixed_dig d" "alloc dest \<le> alloc d" using dest_copy [OF assms] by blast
  consider "dig z = []" | "dig z \<noteq> []" "neg z" | "dig z \<noteq> []" "\<not> neg z" by blast
  then show ?thesis
  proof cases
    case 1
    then show ?thesis using d assms(1)
      by (auto intro!: mpz_yieldsI simp: mpz_not_inpl_def mpz_len_def mpz_need_dig_ok put_dig_ok
        MIN_ALLOC_def mpz_val_def normed_one not_int_def sval_def)
  next
    case 2
    obtain ds n where s: "mpn_sub (dig z) [Suc 0] = (ds, n)" by fastforce
    have "dval [Suc 0] \<le> dval (dig z)" using 2 assms(2) normed_dval_0_iff [of "dig z"]
      by (simp add: mpz_wf_def Suc_le_eq)
    from mpn_sub_correct [OF _ normed_one this s] assms(2)
    have "length ds = length (dig z) \<and> n \<le> length ds \<and> normed (take n ds)"
      "dval (take n ds) = dval (dig z) - 1" "1 \<le> dval (dig z)"
      using 2 normed_dval_0_iff [of "dig z"] by (auto simp: mpz_wf_def Suc_le_eq)
    then show ?thesis using d 2 assms(1) s
      by (auto intro!: mpz_yieldsI simp: mpz_not_inpl_def mpz_len_def put_dig_ok mpz_wf_def
        mpz_val_def not_int_def sval_def)
  next
    case 3
    obtain ds n where s: "mpn_add (dig z) [Suc 0] = (ds, n)" by fastforce
    have "length [Suc 0] \<le> length (dig z)" using 3 by (cases "dig z") auto
    from mpn_add_correct [OF _ normed_one this s] assms(2)
    have "n = length ds \<and> normed ds \<and> dval ds = dval (dig z) + 1 \<and> length ds \<le> length (dig z) + 1"
      by (auto simp: mpz_wf_def)
    then show ?thesis using d 3 assms(1) s
      by (auto intro!: mpz_yieldsI simp: mpz_not_inpl_def mpz_len_def mpz_need_dig_ok put_dig_ok mpz_wf_def
        mpz_val_def not_int_def sval_def)
  qed
qed

section \<open>Shifts\<close>

lemma mpz_shl_inpl_yields:
  assumes "\<not> fixed_dig dest" "mpz_wf lhs" "rhs < 2 ^ 31"
  shows "mpz_yields (mpz_shl_inpl dest lhs rhs) dest (mpz_val lhs * 2 ^ rhs)"
proof (cases "mpz_len lhs = 0 \<or> rhs = 0")
  case True
  then have e: "mpz_val lhs * 2 ^ rhs = mpz_val lhs"
    using assms by (auto simp: mpz_val_0_iff [symmetric])
  show ?thesis unfolding e using mpz_set_yields [OF assms(1,2)] True by (simp add: mpz_shl_inpl_def)
next
  case False
  obtain ds n where s: "mpn_shl (dig lhs) rhs = (ds, n)" by fastforce
  have u: "u32 (rhs + DIG_SIZE - 1) = rhs + DIG_SIZE - 1"
    using assms(3) by (simp add: u32_id DIG_SIZE_def)
  from mpn_shl_correct [OF _ _ assms(3) s] False assms(2)
  have "length ds = length (dig lhs) + (rhs + DIG_SIZE - 1) div DIG_SIZE \<and> n \<le> length ds \<and>
    normed (take n ds) \<and> dval (take n ds) = dval (dig lhs) * 2 ^ rhs"
    by (auto simp: mpz_wf_def)
  then show ?thesis using False s assms(1) u
    by (auto intro!: mpz_yieldsI simp: mpz_shl_inpl_def mpz_len_def mpz_need_dig_ok put_dig_ok mpz_val_def
      sval_def)
qed

lemma shr_round_up_iff:
  assumes "digits_ok (dig z)"
  shows "shr_round_up z n \<longleftrightarrow> dval (dig z) mod 2 ^ n \<noteq> 0"
proof -
  define w p where "w = n div DIG_SIZE" and "p = n mod DIG_SIZE"
  have B: "DIG_BASE ^ w * 2 ^ p = 2 ^ n"
    by (simp add: DIG_BASE_def power_mult [symmetric] power_add [symmetric] w_def p_def)
  let ?lo = "take w (dig z)" and ?hi = "drop w (dig z)"
  have v: "dval (dig z) = dval ?lo + DIG_BASE ^ length ?lo * dval ?hi"
    using dval_append [of ?lo ?hi] by simp
  have lo: "dval ?lo < DIG_BASE ^ w"
    using less_le_trans [OF dval_bound [of ?lo] power_increasing [of "length ?lo" w DIG_BASE]] assms
    by simp
  have "dval (dig z) mod 2 ^ n = dval ?lo + DIG_BASE ^ w * (dval ?hi mod 2 ^ p)"
  proof (cases "w < length (dig z)")
    case True
    have "dval (dig z) = DIG_BASE ^ w * dval ?hi + dval ?lo" using v True by simp
    then show ?thesis using lo
      by (simp add: B [symmetric] mod_mult2_eq)
  next
    case False
    then have "dval (dig z) < DIG_BASE ^ w" using lo by simp
    also have "\<dots> \<le> 2 ^ n" by (simp add: B [symmetric])
    finally show ?thesis using False by simp
  qed
  moreover have "dval ?hi mod 2 ^ p \<noteq> 0 \<longleftrightarrow> w < length (dig z) \<and> (dig z ! w) mod 2 ^ p \<noteq> 0"
  proof (cases "w < length (dig z)")
    case True
    have "(2::nat) ^ p dvd DIG_BASE" 
      unfolding DIG_BASE_def p_def by (intro le_imp_power_dvd) (simp add: DIG_SIZE_def less_imp_le)
    then have "(DIG_BASE * x) mod 2 ^ p = 0" for x by (simp add: mod_0_imp_dvd dvd_imp_mod_0)
    then have "dval ?hi mod 2 ^ p = (dig z ! w) mod 2 ^ p"
      using True mod_add_right_eq [of "dig z ! w" "DIG_BASE * dval (drop (Suc w) (dig z))" "2 ^ p"]
      by (simp add: Cons_nth_drop_Suc [symmetric])
    then show ?thesis using True by simp
  qed simp
  moreover have "0 < DIG_BASE ^ w" by (simp add: DIG_BASE_num)
  ultimately show ?thesis using dval_eq_0_iff [of ?lo]
    by (auto simp: shr_round_up_def Let_def w_def [symmetric] p_def [symmetric] mpz_len_def)
qed

text \<open>A right shift rounds to minus infinity; here the destination is another object.\<close>

lemma mpz_shr_inpl_yields:
  assumes "\<not> fixed_dig dest" "mpz_wf lhs"
  shows "mpz_yields (mpz_shr_inpl False dest lhs rhs) dest (mpz_val lhs div 2 ^ rhs)"
proof (cases "mpz_len lhs = 0 \<or> rhs = 0")
  case True
  then have e: "mpz_val lhs div 2 ^ rhs = mpz_val lhs"
    using assms by (auto simp: mpz_val_0_iff [symmetric])
  show ?thesis unfolding e using mpz_set_yields [OF assms(1,2)] True by (simp add: mpz_shr_inpl_def)
next
  case False
  let ?v = "dval (dig lhs)"
  obtain ds n where s: "mpn_shr (dig lhs) rhs = (ds, n)" by fastforce
  have c: "length ds \<le> length (dig lhs)" "n \<le> length ds" "normed (take n ds)"
    "dval (take n ds) = ?v div 2 ^ rhs"
    using mpn_shr_correct [OF _ s] assms(2) by (auto simp: mpz_wf_def)
  define d where "d = dest\<lparr>alloc := max (alloc dest) (max (mpz_len lhs) MIN_ALLOC), dig := take n ds, neg := neg lhs\<rparr>"
  have r: "mpz_shr_inpl False dest lhs rhs =
      (if neg lhs \<and> shr_round_up lhs rhs
       then (if mpz_len d = 0 then put_dig d ([1], 1) else put_dig d (mpn_add (dig d) [1])) else Inr d)"
    using False assms(1) s c(1) mpz_len_def [of lhs]
    by (simp add: mpz_shr_inpl_def mpz_need_dig_ok put_dig_ok d_def Let_def)
  have up: "shr_round_up lhs rhs \<longleftrightarrow> ?v mod 2 ^ rhs \<noteq> 0"
    using assms(2) by (intro shr_round_up_iff) (simp add: mpz_wf_def)
  have v: "mpz_val lhs div 2 ^ rhs =
      (if neg lhs then - int (?v div 2 ^ rhs) - of_bool (?v mod 2 ^ rhs \<noteq> 0) else int (?v div 2 ^ rhs))"
    using zdiv_zminus1_eq_if [of "2 ^ rhs" "int ?v"] zmod_int [of ?v "2 ^ rhs"]
    by (auto simp: mpz_val_def zdiv_int)
  show ?thesis
  proof (cases "neg lhs \<and> ?v mod 2 ^ rhs \<noteq> 0")
    case True
    show ?thesis
    proof (cases "dig d = []")
      case True
      then have "?v div 2 ^ rhs = 0" using c(4) by (auto simp: d_def)
      then show ?thesis using True \<open>neg lhs \<and> _\<close> assms(1) up v
        by (auto intro!: mpz_yieldsI simp: r put_dig_ok d_def MIN_ALLOC_def normed_one mpz_val_def mpz_len_def)
    next
      case False
      then have one: "length [Suc 0] \<le> length (dig d)" by (cases "dig d") auto
      obtain es m where a: "mpn_add (dig d) [Suc 0] = (es, m)" by fastforce
      have e: "m = length es" "normed es" "dval es = ?v div 2 ^ rhs + 1"
        using mpn_add_correct [OF _ normed_one one a] c(3,4) by (auto simp: d_def)
      have "dval es \<le> ?v"
      proof -
        have "0 < rhs" using \<open>\<not> (mpz_len lhs = 0 \<or> rhs = 0)\<close> by simp
        then have "(2::nat) ^ 1 \<le> 2 ^ rhs" by (intro power_increasing) auto
        moreover have "0 < ?v div 2 ^ rhs" using False c normed_dval_0_iff [OF c(3)] by (simp add: d_def)
        moreover have "?v div 2 ^ rhs * 2 ^ rhs \<le> ?v" by simp
        moreover have "?v div 2 ^ rhs * 2 \<le> ?v div 2 ^ rhs * 2 ^ rhs"
          using calculation(1) by (intro mult_le_mono2) simp
        ultimately show ?thesis using e(3) by linarith
      qed
      then have "length es \<le> length (dig lhs)"
        using dval_length_mono [of es "dig lhs"] e assms(2) by (force simp: mpz_wf_def)
      then have "length es \<le> alloc d" by (simp add: d_def mpz_len_def)
      then show ?thesis using False \<open>neg lhs \<and> _\<close> assms(1) up v a e
        by (auto intro!: mpz_yieldsI simp: r put_dig_ok mpz_val_def mpz_len_def) (auto simp: d_def)
    qed
  next
    case False
    then have "mpz_val d = mpz_val lhs div 2 ^ rhs" using v c(4) by (auto simp: mpz_val_def d_def)
    then show ?thesis using False up assms(1) c
      by (auto intro!: mpz_yieldsI [of _ d] simp: r) (auto simp: d_def mpz_len_def)
  qed
qed

section \<open>Addition and subtraction\<close>

text \<open>The two branches both operations share; \<open>lhs\<close> is the operand of larger magnitude.\<close>

lemma add_branch_yields:
  assumes "\<not> fixed_dig dest" "normed j" "normed k" "dval k \<le> dval j"
  shows "\<exists>d. res_bind (mpz_need_dig dest (length j + 1)) (\<lambda>dest. put_dig dest (mpn_add j k)) = Inr d \<and>
    normed (dig d) \<and> length (dig d) \<le> alloc d \<and> dval (dig d) = dval j + dval k \<and>
    fixed_dig d = fixed_dig dest \<and> alloc dest \<le> alloc d"
proof -
  obtain ds n where s: "mpn_add j k = (ds, n)" by fastforce
  have "length k \<le> length j" using assms dval_length_mono [of k j] by force
  from mpn_add_correct [OF assms(2,3) this s] show ?thesis
    using assms(1) s by (auto simp: mpz_need_dig_ok put_dig_ok)
qed

lemma sub_branch_yields:
  assumes "\<not> fixed_dig dest" "normed j" "normed k" "dval k \<le> dval j"
  shows "\<exists>d. res_bind (mpz_need_dig dest (length j)) (\<lambda>dest. put_dig dest (mpn_sub j k)) = Inr d \<and>
    normed (dig d) \<and> length (dig d) \<le> alloc d \<and> dval (dig d) = dval j - dval k \<and>
    fixed_dig d = fixed_dig dest \<and> alloc dest \<le> alloc d"
proof -
  obtain ds n where s: "mpn_sub j k = (ds, n)" by fastforce
  from mpn_sub_correct [OF assms(2-4) s] show ?thesis
    using assms(1) s by (auto simp: mpz_need_dig_ok put_dig_ok)
qed

lemma mpn_cmp_neg_iff:
  "normed i \<Longrightarrow> normed j \<Longrightarrow> mpn_cmp i j < 0 \<longleftrightarrow> dval i < dval j"
  by (simp add: mpn_cmp_sgn sgn_if)

lemma mpz_add_inpl_yields:
  assumes "\<not> fixed_dig dest" "mpz_wf lhs" "mpz_wf rhs"
  shows "mpz_yields (mpz_add_inpl dest lhs rhs) dest (mpz_val lhs + mpz_val rhs)"
proof -
  have n: "normed (dig lhs)" "normed (dig rhs)" using assms by (simp_all add: mpz_wf_def)
  have core: "mpz_yields (res_bind
           (if neg l = neg r
            then res_bind (mpz_need_dig dest (mpz_len l + 1)) (\<lambda>dest. put_dig dest (mpn_add (dig l) (dig r)))
            else res_bind (mpz_need_dig dest (mpz_len l)) (\<lambda>dest. put_dig dest (mpn_sub (dig l) (dig r))))
           (\<lambda>dest. Inr (dest\<lparr>neg := neg l\<rparr>))) dest (mpz_val l + mpz_val r)"
    if "normed (dig l)" "normed (dig r)" "dval (dig r) \<le> dval (dig l)" for l r :: mpz
    using add_branch_yields [OF assms(1) that] sub_branch_yields [OF assms(1) that] that(3)
    by (cases "neg l = neg r") (auto intro!: mpz_yieldsI simp: mpz_len_def mpz_val_def sval_def of_nat_diff)
  show ?thesis
  proof (cases "mpn_cmp (dig lhs) (dig rhs) < 0")
    case True
    then show ?thesis using core [of rhs lhs] n
      by (simp add: mpz_add_inpl_def mpn_cmp_neg_iff add.commute)
  next
    case False
    then show ?thesis using core [of lhs rhs] n by (simp add: mpz_add_inpl_def mpn_cmp_neg_iff)
  qed
qed

lemma mpz_sub_inpl_yields:
  assumes "\<not> fixed_dig dest" "mpz_wf lhs" "mpz_wf rhs"
  shows "mpz_yields (mpz_sub_inpl dest lhs rhs) dest (mpz_val lhs - mpz_val rhs)"
proof -
  have n: "normed (dig lhs)" "normed (dig rhs)" using assms by (simp_all add: mpz_wf_def)
  have core: "mpz_yields (res_bind
           (if neg l \<noteq> neg r
            then res_bind (mpz_need_dig dest (mpz_len l + 1)) (\<lambda>dest. put_dig dest (mpn_add (dig l) (dig r)))
            else res_bind (mpz_need_dig dest (mpz_len l)) (\<lambda>dest. put_dig dest (mpn_sub (dig l) (dig r))))
           (\<lambda>dest. Inr (dest\<lparr>neg := (if swap then \<not> neg l else neg l)\<rparr>))) dest
           (if swap then mpz_val r - mpz_val l else mpz_val l - mpz_val r)"
    if "normed (dig l)" "normed (dig r)" "dval (dig r) \<le> dval (dig l)" for l r :: mpz and swap
    using add_branch_yields [OF assms(1) that] sub_branch_yields [OF assms(1) that] that(3)
    by (cases "neg l = neg r") (auto intro!: mpz_yieldsI simp: mpz_len_def mpz_val_def sval_def of_nat_diff)
  show ?thesis
  proof (cases "mpn_cmp (dig lhs) (dig rhs) < 0")
    case True
    then show ?thesis using core [of rhs lhs True] n
      by (simp add: mpz_sub_inpl_def mpn_cmp_neg_iff Let_def)
  next
    case False
    then show ?thesis using core [of lhs rhs False] n by (simp add: mpz_sub_inpl_def mpn_cmp_neg_iff Let_def)
  qed
qed

section \<open>Bitwise operations\<close>

text \<open>
  The digit routines need the operands canonical: on a negative zero the two's complement
  conversion leaves a carry that has no digit to go to.
\<close>

lemma mpz_canonD:
  "mpz_canon z \<Longrightarrow> normed (dig z)" "mpz_canon z \<Longrightarrow> neg z \<Longrightarrow> dig z \<noteq> []"
  by (simp_all add: mpz_canon_def mpz_wf_def)

lemma mpz_and_inpl_yields:
  assumes "\<not> fixed_dig dest" "mpz_canon lhs" "mpz_canon rhs" "mpz_len lhs < 2 ^ 32" "mpz_len rhs < 2 ^ 32"
  shows "mpz_yields (mpz_and_inpl dest lhs rhs) dest (mpz_val lhs AND mpz_val rhs)"
proof -
  have core: "mpz_yields (res_bind (mpz_need_dig dest (mpz_len l + of_bool (neg l \<or> neg r))) (\<lambda>dest.
         res_bind (put_dig dest (mpn_and_neg (dig l) (dig r)
             (if neg l = neg r then of_bool (neg l) else 0) (of_bool (neg l)) (of_bool (neg r)))) (\<lambda>dest.
         Inr (dest\<lparr>neg := (neg l \<and> neg r)\<rparr>)))) dest (mpz_val l AND mpz_val r)"
    if lr: "mpz_canon l" "mpz_canon r" "mpz_len r \<le> mpz_len l" "mpz_len l < 2 ^ 32" for l r :: mpz
  proof -
    have carry: "(if neg l = neg r then of_bool (neg l) else 0) = (of_bool (neg l \<and> neg r) :: nat)" by auto
    obtain ds n where s: "mpn_and_neg (dig l) (dig r) (of_bool (neg l \<and> neg r)) (of_bool (neg l))
      (of_bool (neg r)) = (ds, n)" by fastforce
    from mpn_and_neg_correct [OF mpz_canonD(1) [OF lr(1)] mpz_canonD(1) [OF lr(2)] _ _
        mpz_canonD(2) [OF lr(1)] mpz_canonD(2) [OF lr(2)] s] lr(3,4)
    have "length ds \<le> length (dig l) + of_bool (neg l \<and> neg r)" "n \<le> length ds" "normed (take n ds)"
      "sval (neg l \<and> neg r) (take n ds) = mpz_val l AND mpz_val r"
      by (simp_all add: mpz_len_def mpz_val_def)
    then show ?thesis unfolding carry using assms(1) s
      by (auto intro!: mpz_yieldsI simp: mpz_need_dig_ok mpz_len_def put_dig_ok mpz_val_def)
  qed
  then show ?thesis using assms core [of lhs rhs] core [of rhs lhs]
    by (simp add: mpz_and_inpl_def and.commute not_le [symmetric])
qed

lemma mpz_or_inpl_yields:
  assumes "\<not> fixed_dig dest" "mpz_canon lhs" "mpz_canon rhs" "mpz_len lhs < 2 ^ 32" "mpz_len rhs < 2 ^ 32"
  shows "mpz_yields (mpz_or_inpl dest lhs rhs) dest (mpz_val lhs OR mpz_val rhs)"
proof -
  have core: "mpz_yields (res_bind (mpz_need_dig dest (mpz_len l + of_bool (neg l \<or> neg r))) (\<lambda>dest.
         case mpn_or_neg (dig l) (dig r) (of_bool (neg l \<or> neg r)) (of_bool (neg l)) (of_bool (neg r)) of
           None \<Rightarrow> Inl AssertCarry
         | Some w \<Rightarrow> res_bind (put_dig dest w) (\<lambda>dest.
             Inr (dest\<lparr>neg := (neg l \<or> neg r)\<rparr>)))) dest (mpz_val l OR mpz_val r)"
    if lr: "mpz_canon l" "mpz_canon r" "mpz_len r \<le> mpz_len l" "mpz_len l < 2 ^ 32" for l r :: mpz
  proof -
    from mpn_or_neg_correct [where nj = "neg l" and nk = "neg r", OF mpz_canonD(1) [OF lr(1)] mpz_canonD(1) [OF lr(2)] _ _
        mpz_canonD(2) [OF lr(1)] mpz_canonD(2) [OF lr(2)] refl] lr(3,4)
    obtain ds n where "mpn_or_neg (dig l) (dig r) (of_bool (neg l \<or> neg r)) (of_bool (neg l))
      (of_bool (neg r)) = Some (ds, n)" "length ds = length (dig l)" "n \<le> length ds" "normed (take n ds)"
      "sval (neg l \<or> neg r) (take n ds) = mpz_val l OR mpz_val r"
      by (auto simp: mpz_len_def mpz_val_def)
    then show ?thesis using assms(1)
      by (auto intro!: mpz_yieldsI simp: mpz_need_dig_ok mpz_len_def put_dig_ok mpz_val_def)
  qed
  then show ?thesis using assms core [of lhs rhs] core [of rhs lhs]
    by (simp add: mpz_or_inpl_def or.commute not_le [symmetric])
qed

lemma mpz_xor_inpl_yields:
  assumes "\<not> fixed_dig dest" "mpz_canon lhs" "mpz_canon rhs" "mpz_len lhs < 2 ^ 32" "mpz_len rhs < 2 ^ 32"
  shows "mpz_yields (mpz_xor_inpl dest lhs rhs) dest (mpz_val lhs XOR mpz_val rhs)"
proof -
  have core: "mpz_yields (res_bind (mpz_need_dig dest (mpz_len l + of_bool (neg l \<or> neg r))) (\<lambda>dest.
         res_bind (put_dig dest (mpn_xor_neg (dig l) (dig r)
             (of_bool (neg l \<noteq> neg r)) (of_bool (\<not> neg l)) (of_bool (\<not> neg r)))) (\<lambda>dest.
         Inr (dest\<lparr>neg := (neg l \<noteq> neg r)\<rparr>)))) dest (mpz_val l XOR mpz_val r)"
    if lr: "mpz_canon l" "mpz_canon r" "mpz_len r \<le> mpz_len l" "mpz_len l < 2 ^ 32" for l r :: mpz
  proof -
    obtain ds n where s: "mpn_xor_neg (dig l) (dig r) (of_bool (neg l \<noteq> neg r)) (of_bool (\<not> neg l))
      (of_bool (\<not> neg r)) = (ds, n)" by fastforce
    from mpn_xor_neg_correct [OF mpz_canonD(1) [OF lr(1)] mpz_canonD(1) [OF lr(2)] _ _
        mpz_canonD(2) [OF lr(1)] mpz_canonD(2) [OF lr(2)] s] lr(3,4)
    have "length ds \<le> length (dig l) + of_bool (neg l \<noteq> neg r)" "n \<le> length ds" "normed (take n ds)"
      "sval (neg l \<noteq> neg r) (take n ds) = mpz_val l XOR mpz_val r"
      by (simp_all add: mpz_len_def mpz_val_def)
    moreover have "(of_bool (neg l \<noteq> neg r) :: nat) \<le> of_bool (neg l \<or> neg r)" by auto
    ultimately show ?thesis using assms(1) s
      by (auto intro!: mpz_yieldsI simp: mpz_need_dig_ok mpz_len_def put_dig_ok mpz_val_def split: if_splits)
  qed
  then show ?thesis using assms core [of lhs rhs] core [of rhs lhs]
    by (auto simp: mpz_xor_inpl_def xor.commute not_le [symmetric] eq_commute)
qed

section \<open>Multiplication and division\<close>

lemma mpz_mul_inpl_yields:
  assumes "\<not> fixed_dig dest" "mpz_wf lhs" "mpz_wf rhs"
    and "same_l \<Longrightarrow> dest = lhs" "same_r \<Longrightarrow> dest = rhs"
  shows "mpz_yields (mpz_mul_inpl same_l same_r dest lhs rhs) dest (mpz_val lhs * mpz_val rhs)"
proof (cases "mpz_len lhs = 0 \<or> mpz_len rhs = 0")
  case True
  then have "mpz_val lhs * mpz_val rhs = 0" using assms by (auto simp: mpz_val_0_iff)
  then show ?thesis using True
    by (auto intro!: mpz_yieldsI simp: mpz_mul_inpl_def mpz_set_from_int_def normed_def mpz_val_def sval_def)
next
  case False
  have clone: "\<exists>c. mpz_clone z = Inr c \<and> neg c = neg z \<and> dig c = dig z" if "mpz_wf z" "mpz_len z \<noteq> 0" for z
    using that by (cases "dig z") (auto simp: mpz_clone_def mpz_wf_def mpz_len_def)
  obtain l where l: "(if same_l then mpz_clone lhs else Inr lhs) = Inr l" "neg l = neg lhs" "dig l = dig lhs"
    using clone [of lhs] assms(2) False by (cases same_l) auto
  have both: "same_l \<Longrightarrow> same_r \<Longrightarrow> lhs = rhs" using assms(4,5) by metis
  obtain c where c: "mpz_clone rhs = Inr c" "neg c = neg rhs" "dig c = dig rhs"
    using clone [of rhs] assms(3) False by auto
  define r where "r = (if same_l then if same_r then l else rhs else if same_r then c else rhs)"
  have r: "(if same_l then Inr (if same_r then l else rhs)
      else if same_r then mpz_clone rhs else Inr rhs) = Inr r" by (simp add: r_def c)
  have nd: "neg r = neg rhs" "dig r = dig rhs" using l(2,3) c(2,3) both by (simp_all add: r_def)
  define m where "m = max (alloc dest) (max (length (dig lhs) + length (dig rhs)) MIN_ALLOC)"
  have m: "length (dig lhs) + length (dig rhs) \<le> m" "alloc dest \<le> m"
    by (simp_all add: m_def le_max_iff_disj)
  obtain w n where w: "mpn_mul (replicate m 0) (dig lhs) (dig rhs) = Some (w, n)" "length w = m" "n \<le> m"
    "normed (take n w)" "dval (take n w) = dval (dig lhs) * dval (dig rhs)"
    using mpn_mul_correct [of "dig lhs" "dig rhs" m] m(1) assms(2,3) False
    by (auto simp: mpz_wf_def mpz_len_def)
  have e: "mpz_mul_inpl same_l same_r dest lhs rhs =
      Inr (dest\<lparr>alloc := m, dig := take n w, neg := (neg lhs \<noteq> neg rhs)\<rparr>)"
    using assms(1) l nd w False unfolding mpz_mul_inpl_def l(1) r res_bind_simps
    by (simp add: r mpz_need_dig_ok mpz_len_def put_dig_ok m_def [symmetric])
  show ?thesis using w m unfolding e
    by (auto intro!: mpz_yieldsI simp: mpz_val_def sval_def)
qed

text \<open>The floor quotient and remainder of the signed operands, from those of the magnitudes.\<close>

lemma floor_signs:
  fixes q r b :: nat
  assumes "r < b"
  shows "(- int (q * b + r)) div int b = - int q - of_bool (r \<noteq> 0)"
    "(- int (q * b + r)) mod int b = of_bool (r \<noteq> 0) * int b - int r"
    "int (q * b + r) div int b = int q" "int (q * b + r) mod int b = int r"
proof -
  show 1: "int (q * b + r) div int b = int q" "int (q * b + r) mod int b = int r"
    using assms by (simp_all add: zdiv_int [symmetric] zmod_int [symmetric])
  show "(- int (q * b + r)) div int b = - int q - of_bool (r \<noteq> 0)"
    "(- int (q * b + r)) mod int b = of_bool (r \<noteq> 0) * int b - int r"
    using zdiv_zminus1_eq_if [of "int b" "int (q * b + r)"] zmod_zminus1_eq_if [of "int (q * b + r)" "int b"] 1 assms
    by (auto simp del: of_nat_add of_nat_mult)
qed

lemma mpz_divmod_inpl_correct:
  assumes dest: "\<not> fixed_dig dest_quo" "\<not> fixed_dig dest_rem"
    and ops: "mpz_wf lhs" "mpz_wf rhs" "mpz_val rhs \<noteq> 0"
  shows "\<exists>quo rem. mpz_divmod_inpl dest_quo dest_rem lhs rhs = Inr (quo, rem) \<and>
    mpz_wf quo \<and> mpz_wf rem \<and> \<not> fixed_dig quo \<and> \<not> fixed_dig rem \<and>
    mpz_val rem = mpz_val lhs mod mpz_val rhs \<and>
    ((neg lhs = neg rhs \<longrightarrow> \<not> neg dest_quo) \<longrightarrow> mpz_val quo = mpz_val lhs div mpz_val rhs)"
proof -
  have n: "normed (dig lhs)" "normed (dig rhs)" "dig rhs \<noteq> []"
    using ops by (auto simp: mpz_wf_def mpz_val_def sval_def split: if_splits)
  obtain r rl q ql where d: "mpn_div (dig lhs) (dig rhs) = Some ((r, rl), (q, ql))"
    "rl \<le> length r" "length r \<le> length (dig lhs)" "ql \<le> length q" "length q \<le> length (dig lhs)"
    "normed (take rl r)" "normed (take ql q)"
    "dval (dig lhs) = dval (take ql q) * dval (dig rhs) + dval (take rl r)"
    "dval (take rl r) < dval (dig rhs)"
    using mpn_div_correct [OF n] by auto
  define Q where "Q = dest_quo\<lparr>alloc := max (alloc dest_quo) (max (mpz_len lhs + 1) MIN_ALLOC), dig := take ql q\<rparr>"
  obtain a where R0: "res_bind (mpz_need_dig dest_rem (mpz_len lhs + 1)) (\<lambda>d. mpz_set d lhs) =
      Inr (dest_rem\<lparr>alloc := a, neg := neg lhs, dig := dig lhs\<rparr>)" "mpz_len lhs + 1 \<le> a"
    using dest ops(1) by (simp add: mpz_need_dig_ok mpz_set_eq)
  define R where "R = dest_rem\<lparr>alloc := a, neg := neg lhs, dig := take rl r\<rparr>"
  have step: "mpz_divmod_inpl dest_quo dest_rem lhs rhs =
      (if neg lhs \<noteq> neg rhs then
         if \<not> mpz_is_zero R then
           res_bind (mpz_init_from_int (-1)) (\<lambda>mpzone.
           res_bind (mpz_add_inpl (Q\<lparr>neg := True\<rparr>) (Q\<lparr>neg := True\<rparr>) mpzone) (\<lambda>quo.
           res_bind (mpz_add_inpl R R rhs) (\<lambda>rem. Inr (quo, rem))))
         else Inr (Q\<lparr>neg := True\<rparr>, R)
       else Inr (Q, R))"
    using n(3) dest R0 d
    by (simp add: mpz_divmod_inpl_def mpz_is_zero_def mpz_len_def mpz_need_dig_ok put_dig_ok Q_def R_def
      Let_def)
  have Q: "mpz_wf (Q\<lparr>neg := True\<rparr>)" "mpz_wf Q" "\<not> fixed_dig Q" and R: "mpz_wf R" "\<not> fixed_dig R"
    using d dest R0(2) by (auto simp: mpz_wf_def Q_def R_def mpz_len_def) 
  let ?q = "dval (take ql q)" and ?r = "dval (take rl r)" and ?b = "dval (dig rhs)"
  have z: "mpz_is_zero R \<longleftrightarrow> ?r = 0"
    using normed_dval_0_iff [OF d(6)] d(2) by (auto simp: mpz_is_zero_def mpz_len_def R_def min_absorb2 [OF d(2)])
  note f = floor_signs [OF d(9), of ?q, folded d(8)]
  show ?thesis
  proof (cases "neg lhs = neg rhs")
    case True
    then have "\<not> neg dest_quo \<longrightarrow> mpz_val Q = mpz_val lhs div mpz_val rhs"
      "mpz_val R = mpz_val lhs mod mpz_val rhs"
      using f by (cases "neg lhs"; simp add: mpz_val_def Q_def R_def)+
    then show ?thesis using True Q R by (simp add: step)
  next
    case False
    have v: "mpz_val lhs div mpz_val rhs = - int ?q - of_bool (?r \<noteq> 0)"
      "mpz_val lhs mod mpz_val rhs = mpz_val R + of_bool (?r \<noteq> 0) * mpz_val rhs"
      using False f by (cases "neg lhs"; simp add: mpz_val_def R_def div_minus_right mod_minus_right)+
    show ?thesis
    proof (cases "?r = 0")
      case True
      then show ?thesis using False z v Q R by (auto simp: step mpz_val_def Q_def)
    next
      case nz: False
      obtain m where m: "mpz_init_from_int (-1) = Inr m" "mpz_wf m" "mpz_val m = -1"
        using mpz_set_from_int_yields [of mpz_init_zero "-1"]
        by (auto simp: mpz_init_from_int_def mpz_init_zero_def elim!: mpz_yieldsE)
      have "mpz_yields (mpz_add_inpl (Q\<lparr>neg := True\<rparr>) (Q\<lparr>neg := True\<rparr>) m) Q (- int ?q - 1)"
        using mpz_add_inpl_yields [of "Q\<lparr>neg := True\<rparr>" "Q\<lparr>neg := True\<rparr>" m] Q m
        by (simp add: mpz_yields_def mpz_val_def [of "Q\<lparr>neg := True\<rparr>"]) (simp add: Q_def)
      moreover have "mpz_yields (mpz_add_inpl R R rhs) R (mpz_val R + mpz_val rhs)"
        using mpz_add_inpl_yields R ops by blast
      ultimately show ?thesis using nz False z v m Q(3) R
        by (auto simp: step elim!: mpz_yieldsE)
    qed
  qed
qed

end
