(* ===== verification/Mpz_Pow.thy ===== *)
theory Mpz_Pow
  imports Mpz
begin

text \<open>
  Powers: \<^verbatim>\<open>mpz_pow_inpl\<close> and the modular \<^verbatim>\<open>mpz_pow3_inpl\<close> of \<^verbatim>\<open>py/mpz.c\<close>. Their loops halve
  the exponent by \<^verbatim>\<open>mpn_shr\<close> until it has no digits; they run on fuel, one unit a turn. An
  exponent of \<open>l\<close> digits is below \<open>2 ^ (16 * l)\<close>, so \<open>16 * l\<close> turns are enough, and the lemmas
  below show that the loops never report \<^const>\<open>Diverges\<close>.
\<close>

fun mpz_pow_loop :: "nat \<Rightarrow> mpz \<Rightarrow> mpz \<Rightarrow> mpz \<Rightarrow> mpz_error + mpz" where
  "mpz_pow_loop fuel dest x n =
     (if mpz_len n = 0 then Inr dest
      else case fuel of 0 \<Rightarrow> Inl Diverges | Suc fuel' \<Rightarrow>
        res_bind (if hd (dig n) mod 2 \<noteq> 0 then mpz_mul_inpl True False dest dest x else Inr dest) (\<lambda>dest.
        res_bind (put_dig n (mpn_shr (dig n) 1)) (\<lambda>n.
        if mpz_len n = 0 then Inr dest
        else res_bind (mpz_mul_inpl True True x x x) (\<lambda>x.
             mpz_pow_loop fuel' dest x n))))"

declare mpz_pow_loop.simps [simp del]

definition mpz_pow_inpl :: "mpz \<Rightarrow> mpz \<Rightarrow> mpz \<Rightarrow> mpz_error + mpz" where
  "mpz_pow_inpl dest lhs rhs =
     (if mpz_len lhs = 0 \<or> neg rhs then mpz_set_from_int dest 0
      else if mpz_len rhs = 0 then mpz_set_from_int dest 1
      else
        res_bind (mpz_clone lhs) (\<lambda>x.
        res_bind (mpz_clone rhs) (\<lambda>n.
        res_bind (mpz_set_from_int dest 1) (\<lambda>dest.
        mpz_pow_loop (DIG_SIZE * mpz_len n) dest x n))))"

fun mpz_pow3_loop :: "nat \<Rightarrow> mpz \<Rightarrow> mpz \<Rightarrow> mpz \<Rightarrow> mpz \<Rightarrow> mpz \<Rightarrow> mpz_error + mpz" where
  "mpz_pow3_loop fuel quo dest x n m =
     (if mpz_len n = 0 then Inr dest
      else case fuel of 0 \<Rightarrow> Inl Diverges | Suc fuel' \<Rightarrow>
        res_bind (if hd (dig n) mod 2 \<noteq> 0
                  then res_bind (mpz_mul_inpl True False dest dest x) (\<lambda>dest.
                       mpz_divmod_inpl quo dest dest m)
                  else Inr (quo, dest)) (\<lambda>(quo, dest).
        res_bind (put_dig n (mpn_shr (dig n) 1)) (\<lambda>n.
        if mpz_len n = 0 then Inr dest
        else res_bind (mpz_mul_inpl True True x x x) (\<lambda>x.
             res_bind (mpz_divmod_inpl quo x x m) (\<lambda>(quo, x).
             mpz_pow3_loop fuel' quo dest x n m)))))"

declare mpz_pow3_loop.simps [simp del]

text \<open>
  The destination is set to one before \<open>lhs\<close> and \<open>rhs\<close> are copied, so a flag here changes
  what the copies see.
\<close>

definition mpz_pow3_inpl :: "bool \<Rightarrow> bool \<Rightarrow> mpz \<Rightarrow> mpz \<Rightarrow> mpz \<Rightarrow> mpz \<Rightarrow> mpz_error + mpz" where
  "mpz_pow3_inpl same_l same_r dest lhs rhs m =
     (if mpz_len lhs = 0 \<or> neg rhs \<or> (mpz_len m = 1 \<and> dig m ! 0 = 1) then mpz_set_from_int dest 0
      else
        res_bind (mpz_set_from_int dest 1) (\<lambda>dest.
        let lhs = (if same_l then dest else lhs); rhs = (if same_r then dest else rhs)
        in if mpz_len rhs = 0 then Inr dest
           else
             res_bind (mpz_clone lhs) (\<lambda>x.
             res_bind (mpz_clone rhs) (\<lambda>n.
             mpz_pow3_loop (DIG_SIZE * mpz_len n) mpz_init_zero dest x n m))))"

section \<open>One turn of the loops\<close>

lemma odd_low_digit:
  assumes "ds \<noteq> []"
  shows "hd ds mod 2 \<noteq> 0 \<longleftrightarrow> odd (dval ds)"
  using assms by (cases ds) (auto simp: DIG_BASE_num odd_iff_mod_2_eq_one)

lemma halve_exponent:
  assumes "mpz_wf n"
  obtains n' where "put_dig n (mpn_shr (dig n) 1) = Inr n'" "mpz_wf n'"
    "dval (dig n') = dval (dig n) div 2"
proof -
  obtain ds l where s: "mpn_shr (dig n) 1 = (ds, l)" by fastforce
  from mpn_shr_correct [OF _ s] assms have "length ds \<le> length (dig n)" "l \<le> length ds"
    "normed (take l ds)" "dval (take l ds) = dval (dig n) div 2" by (auto simp: mpz_wf_def)
  then show thesis using assms s by (intro that [of "n\<lparr>dig := take l ds\<rparr>"]) (auto simp: put_dig_ok mpz_wf_def)
qed

lemma dval_0_len: "mpz_wf z \<Longrightarrow> mpz_len z = 0 \<longleftrightarrow> dval (dig z) = 0"
  using normed_dval_0_iff [of "dig z"] by (simp add: mpz_wf_def mpz_len_def)

lemma square_power: "(x * x) ^ n = (x :: int) ^ (2 * n)"
  by (simp add: power_mult power2_eq_square)

lemma halve_power: "(if odd n then d * x else d) * (x * x) ^ (n div 2) = d * (x :: int) ^ n"
proof (cases "odd n")
  case True
  then obtain k where "n = Suc (2 * k)" by (auto elim: oddE)
  then show ?thesis by (simp add: square_power)
qed (auto simp: square_power)

lemma mpz_mul_dest:
  assumes "mpz_wf dest" "mpz_wf x" "\<not> fixed_dig dest"
  obtains p where "mpz_mul_inpl True False dest dest x = Inr p" "mpz_wf p" "\<not> fixed_dig p"
    "mpz_val p = mpz_val dest * mpz_val x"
  using mpz_mul_inpl_yields [of dest dest x True False] assms by (auto elim!: mpz_yieldsE)

lemma mpz_square:
  assumes "mpz_wf x" "\<not> fixed_dig x"
  obtains p where "mpz_mul_inpl True True x x x = Inr p" "mpz_wf p" "\<not> fixed_dig p"
    "mpz_val p = mpz_val x * mpz_val x"
  using mpz_mul_inpl_yields [of x x x True True] assms by (auto elim!: mpz_yieldsE)

lemma mpz_pow_loop_correct:
  assumes "mpz_wf n" "dval (dig n) < 2 ^ fuel" "mpz_wf dest" "mpz_wf x"
    "\<not> fixed_dig dest" "\<not> fixed_dig x"
  shows "\<exists>z. mpz_pow_loop fuel dest x n = Inr z \<and> mpz_wf z \<and> \<not> fixed_dig z \<and>
    mpz_val z = mpz_val dest * mpz_val x ^ dval (dig n)"
  using assms
proof (induction fuel arbitrary: dest x n)
  case 0
  then show ?case by (subst mpz_pow_loop.simps) (simp add: dval_0_len)
next
  case (Suc fuel)
  show ?case
  proof (cases "mpz_len n = 0")
    case True then show ?thesis using Suc.prems
      by (subst mpz_pow_loop.simps) (simp add: dval_0_len)
  next
    case False
    let ?m = "dval (dig n)"
    have o: "hd (dig n) mod 2 \<noteq> 0 \<longleftrightarrow> odd ?m" using False odd_low_digit by (auto simp: mpz_len_def)
    obtain d where d: "(if hd (dig n) mod 2 \<noteq> 0 then mpz_mul_inpl True False dest dest x else Inr dest) = Inr d"
      "mpz_wf d" "\<not> fixed_dig d" "mpz_val d = (if odd ?m then mpz_val dest * mpz_val x else mpz_val dest)"
      using mpz_mul_inpl_yields [of dest dest x True False] Suc.prems o
      by (cases "odd ?m") (auto elim!: mpz_yieldsE)
    obtain n' where n': "put_dig n (mpn_shr (dig n) 1) = Inr n'" "mpz_wf n'" "dval (dig n') = ?m div 2"
      using halve_exponent Suc.prems by blast
    obtain x' where x': "mpz_mul_inpl True True x x x = Inr x'" "mpz_wf x'" "\<not> fixed_dig x'"
      "mpz_val x' = mpz_val x * mpz_val x"
      using mpz_square Suc.prems(4,6) by blast
    have step: "mpz_pow_loop (Suc fuel) dest x n =
        (if mpz_len n' = 0 then Inr d else mpz_pow_loop fuel d x' n')"
      using False d(1) n'(1) x'(1) by (subst mpz_pow_loop.simps) (simp del: One_nat_def)
    have hp: "mpz_val d * (mpz_val x * mpz_val x) ^ (?m div 2) = mpz_val dest * mpz_val x ^ ?m"
      using halve_power [of ?m "mpz_val dest" "mpz_val x"] d(4) by simp
    have "?m div 2 < 2 ^ fuel" using Suc.prems by simp
    then show ?thesis
      using Suc.IH [of n' d x'] n' d x' hp dval_0_len [OF n'(2)] by (auto simp: step)
  qed
qed

lemma fuel_enough: "mpz_wf n \<Longrightarrow> dval (dig n) < 2 ^ (DIG_SIZE * mpz_len n)"
  using dval_bound [of "dig n"] by (simp add: mpz_wf_def DIG_BASE_def power_mult mpz_len_def)

lemma mpz_clone_ok:
  assumes "mpz_wf z" "mpz_len z \<noteq> 0"
  obtains c where "mpz_clone z = Inr c" "mpz_wf c" "\<not> fixed_dig c" "neg c = neg z" "dig c = dig z"
  using assms by (cases "dig z") (auto simp: mpz_clone_def mpz_wf_def mpz_len_def)

lemma mpz_pow_inpl_correct:
  assumes "\<not> fixed_dig dest" "mpz_wf lhs" "mpz_wf rhs" "\<not> neg rhs" "mpz_val lhs \<noteq> 0 \<or> mpz_val rhs \<noteq> 0"
  shows "\<exists>z. mpz_pow_inpl dest lhs rhs = Inr z \<and> mpz_wf z \<and> \<not> fixed_dig z \<and>
    mpz_val z = mpz_val lhs ^ nat (mpz_val rhs)"
proof -
  have r: "nat (mpz_val rhs) = dval (dig rhs)" using assms(4) by (simp add: mpz_val_def)
  obtain one where one: "mpz_set_from_int dest 1 = Inr one" "mpz_wf one" "\<not> fixed_dig one" "mpz_val one = 1"
    using mpz_set_from_int_yields [of dest 1] assms(1) by (auto elim!: mpz_yieldsE)
  consider "mpz_len lhs = 0" | "mpz_len lhs \<noteq> 0" "mpz_len rhs = 0" | "mpz_len lhs \<noteq> 0" "mpz_len rhs \<noteq> 0"
    by blast
  then show ?thesis
  proof cases
    case 1
    then have "mpz_val lhs = 0" using assms(2) by (simp add: mpz_val_0_iff)
    moreover from this have "dval (dig rhs) \<noteq> 0" using assms(4,5) by (simp add: mpz_val_def)
    moreover obtain z where "mpz_set_from_int dest 0 = Inr z" "mpz_wf z" "\<not> fixed_dig z" "mpz_val z = 0"
      using mpz_set_from_int_yields [of dest 0] assms(1) by (auto elim!: mpz_yieldsE)
    ultimately show ?thesis using 1 r by (simp add: mpz_pow_inpl_def)
  next
    case 2
    then show ?thesis using one assms(3,4) r by (simp add: mpz_pow_inpl_def dval_0_len)
  next
    case 3
    obtain x where x: "mpz_clone lhs = Inr x" "mpz_wf x" "\<not> fixed_dig x" "neg x = neg lhs" "dig x = dig lhs"
      using mpz_clone_ok [OF assms(2) 3(1)] .
    obtain n where n: "mpz_clone rhs = Inr n" "mpz_wf n" "dig n = dig rhs"
      using mpz_clone_ok [OF assms(3) 3(2)] by blast
    have "mpz_val x = mpz_val lhs" using x by (simp add: mpz_val_def)
    then show ?thesis
      using mpz_pow_loop_correct [OF n(2) fuel_enough [OF n(2)] one(2) x(2) one(3) x(3)] 3 x n one assms(4) r
      by (simp add: mpz_pow_inpl_def)
  qed
qed

section \<open>Modular power\<close>

lemma halve_power_mod:
  assumes "d mod m = (if odd n then d0 * x else d0) mod m" "y mod m = (x * x) mod (m :: int)"
  shows "(d * y ^ (n div 2)) mod m = (d0 * x ^ n) mod m"
proof -
  have "(d * y ^ (n div 2)) mod m = ((d mod m) * ((y mod m) ^ (n div 2) mod m)) mod m"
    by (simp add: mod_mult_eq power_mod)
  also have "\<dots> = ((if odd n then d0 * x else d0) * (x * x) ^ (n div 2)) mod m"
    unfolding assms by (simp add: mod_mult_eq power_mod)
  finally show ?thesis by (simp only: halve_power)
qed

lemma mpz_pow3_loop_correct:
  assumes "mpz_wf n" "dval (dig n) < 2 ^ fuel" "dval (dig n) \<noteq> 0" "mpz_wf dest" "mpz_wf x"
    "\<not> fixed_dig dest" "\<not> fixed_dig x" "\<not> fixed_dig quo" "mpz_wf m" "mpz_val m \<noteq> 0"
  shows "\<exists>z. mpz_pow3_loop fuel quo dest x n m = Inr z \<and> mpz_wf z \<and> \<not> fixed_dig z \<and>
    mpz_val z = (mpz_val dest * mpz_val x ^ dval (dig n)) mod mpz_val m"
  using assms
proof (induction fuel arbitrary: quo dest x n)
  case (Suc fuel)
  let ?n = "dval (dig n)" and ?M = "mpz_val m"
  have nz: "mpz_len n \<noteq> 0" using Suc.prems(1,3) by (simp add: dval_0_len)
  have o: "hd (dig n) mod 2 \<noteq> 0 \<longleftrightarrow> odd ?n" using nz odd_low_digit by (auto simp: mpz_len_def)
  obtain q d where d: "(if hd (dig n) mod 2 \<noteq> 0
                  then res_bind (mpz_mul_inpl True False dest dest x) (\<lambda>dest. mpz_divmod_inpl quo dest dest m)
                  else Inr (quo, dest)) = Inr (q, d)" "mpz_wf d" "\<not> fixed_dig d" "\<not> fixed_dig q"
    "mpz_val d = (if odd ?n then (mpz_val dest * mpz_val x) mod ?M else mpz_val dest)"
  proof (cases "odd ?n")
    case True
    obtain p where p: "mpz_mul_inpl True False dest dest x = Inr p" "mpz_wf p" "\<not> fixed_dig p"
      "mpz_val p = mpz_val dest * mpz_val x"
      using mpz_mul_dest Suc.prems(4-6) by blast
    obtain q d where "mpz_divmod_inpl quo p p m = Inr (q, d)" "mpz_wf d" "\<not> fixed_dig q" "\<not> fixed_dig d"
      "mpz_val d = mpz_val p mod ?M"
      using mpz_divmod_inpl_correct [OF Suc.prems(8) p(3) p(2) Suc.prems(9,10)] by blast
    then show thesis using True o p by (intro that [of q d]) simp_all
  next
    case False then show thesis using Suc.prems o by (intro that [of quo dest]) simp_all
  qed
  obtain n' where n': "put_dig n (mpn_shr (dig n) 1) = Inr n'" "mpz_wf n'" "dval (dig n') = ?n div 2"
    using halve_exponent Suc.prems by blast
  obtain p where p: "mpz_mul_inpl True True x x x = Inr p" "mpz_wf p" "\<not> fixed_dig p"
    "mpz_val p = mpz_val x * mpz_val x"
    using mpz_square Suc.prems(5,7) by blast
  obtain q' x' where x': "mpz_divmod_inpl q p p m = Inr (q', x')" "mpz_wf x'" "\<not> fixed_dig x'" "\<not> fixed_dig q'"
    "mpz_val x' = (mpz_val x * mpz_val x) mod ?M"
    using mpz_divmod_inpl_correct [OF d(4) p(3) p(2) Suc.prems(9,10)] p(4) by auto
  have step: "mpz_pow3_loop (Suc fuel) quo dest x n m =
      (if mpz_len n' = 0 then Inr d else mpz_pow3_loop fuel q' d x' n' m)"
    using nz d(1) n'(1) p(1) x'(1) by (subst mpz_pow3_loop.simps) (simp del: One_nat_def)
  have hp: "(mpz_val d * mpz_val x' ^ (?n div 2)) mod ?M = (mpz_val dest * mpz_val x ^ ?n) mod ?M"
    using d(5) x'(5) by (intro halve_power_mod) simp_all
  show ?case
  proof (cases "mpz_len n' = 0")
    case True
    then have "?n = 1" using n' dval_0_len [OF n'(2)] Suc.prems(3) by simp
    then show ?thesis using True d by (simp add: step)
  next
    case False
    moreover have "?n div 2 < 2 ^ fuel" using Suc.prems by simp
    ultimately show ?thesis
      using Suc.IH [of n' d x' q'] n' d x' hp dval_0_len [OF n'(2)] Suc.prems by (simp add: step)
  qed
qed simp

lemma mpz_pow3_inpl_correct:
  assumes "\<not> fixed_dig dest" "mpz_wf lhs" "mpz_wf rhs" "mpz_wf m" "mpz_val m \<noteq> 0" "0 < mpz_val rhs"
  shows "\<exists>z. mpz_pow3_inpl False False dest lhs rhs m = Inr z \<and> mpz_wf z \<and> \<not> fixed_dig z \<and>
    mpz_val z = mpz_val lhs ^ nat (mpz_val rhs) mod mpz_val m"
proof -
  have nr: "\<not> neg rhs" using assms(6) by (auto simp: mpz_val_def)
  have r: "nat (mpz_val rhs) = dval (dig rhs)" "dval (dig rhs) \<noteq> 0"
    using nr assms(6) by (simp_all add: mpz_val_def)
  obtain one where one: "mpz_set_from_int dest 1 = Inr one" "mpz_wf one" "\<not> fixed_dig one" "mpz_val one = 1"
    using mpz_set_from_int_yields [of dest 1] assms(1) by (auto elim!: mpz_yieldsE)
  show ?thesis
  proof (cases "mpz_len lhs = 0 \<or> (mpz_len m = 1 \<and> dig m ! 0 = 1)")
    case True
    moreover have "mpz_val lhs ^ nat (mpz_val rhs) mod mpz_val m = 0"
    proof (cases "mpz_len lhs = 0")
      case True
      then show ?thesis using r assms(2) by (simp add: mpz_val_0_iff [symmetric] zero_power)
    next
      case False
      then have "dig m = [1]" using True by (cases "dig m") (auto simp: mpz_len_def)
      then show ?thesis by (cases "neg m") (simp_all add: mpz_val_def)
    qed
    moreover obtain z where "mpz_set_from_int dest 0 = Inr z" "mpz_wf z" "\<not> fixed_dig z" "mpz_val z = 0"
      using mpz_set_from_int_yields [of dest 0] assms(1) by (auto elim!: mpz_yieldsE)
    ultimately show ?thesis using nr by (auto simp: mpz_pow3_inpl_def)
  next
    case False
    obtain x where x: "mpz_clone lhs = Inr x" "mpz_wf x" "\<not> fixed_dig x" "neg x = neg lhs" "dig x = dig lhs"
      using mpz_clone_ok [OF assms(2)] False by blast
    have rl: "mpz_len rhs \<noteq> 0" using r assms(3) by (simp add: dval_0_len)
    obtain n where n: "mpz_clone rhs = Inr n" "mpz_wf n" "dig n = dig rhs"
      using mpz_clone_ok [OF assms(3) rl] by blast
    have "mpz_val x = mpz_val lhs" using x by (simp add: mpz_val_def)
    moreover have "\<not> fixed_dig mpz_init_zero" by (simp add: mpz_init_zero_def)
    ultimately show ?thesis
      using mpz_pow3_loop_correct [OF n(2) fuel_enough [OF n(2)] _ one(2) x(2) one(3) x(3), of mpz_init_zero m]
        False x n one nr r rl assms by (auto simp: mpz_pow3_inpl_def Let_def)
  qed
qed

end
