(* ===== verification/Mpz_Conv.thy ===== *)
theory Mpz_Conv
  imports Mpz
begin

text \<open>
  Conversions of \<^verbatim>\<open>py/mpz.c\<close> between \<^verbatim>\<open>mpz_t\<close> and strings, byte arrays and machine integers,
  with the buffer size \<^verbatim>\<open>mp_int_format_size\<close> of \<^verbatim>\<open>py/objint.c\<close>. Characters and bytes are
  their codes (\<^verbatim>\<open>char\<close> is unsigned on Arm), a string is the list of its characters without
  the terminator, and a null prefix is \<^const>\<open>None\<close>.
\<close>

section \<open>From strings and bytes\<close>

definition char_value :: "nat \<Rightarrow> nat option" where
  "char_value v =
     (if 48 \<le> v \<and> v \<le> 57 then Some (v - 48)
      else if 65 \<le> v \<and> v \<le> 90 then Some (v - (65 - 10))
      else if 97 \<le> v \<and> v \<le> 122 then Some (v - (97 - 10))
      else None)"

fun set_from_str_loop :: "mpz \<Rightarrow> nat \<Rightarrow> nat \<Rightarrow> nat list \<Rightarrow> mpz_error + mpz \<times> nat" where
  "set_from_str_loop z base cur [] = Inr (z, cur)"
| "set_from_str_loop z base cur (c # cs) =
     (case char_value c of
        None \<Rightarrow> Inr (z, cur)
      | Some v \<Rightarrow>
          if v \<ge> base then Inr (z, cur)
          else res_bind (put_dig z (mpn_mul_dig_add_dig (dig z) base v)) (\<lambda>z.
               set_from_str_loop z base (Suc cur) cs))"

text \<open>The result is the object and the number of characters processed.\<close>

definition mpz_set_from_str :: "mpz \<Rightarrow> nat list \<Rightarrow> bool \<Rightarrow> nat \<Rightarrow> mpz_error + mpz \<times> nat" where
  "mpz_set_from_str z str ng base =
     (if \<not> base \<le> 36 then Inl AssertBase
      else res_bind (mpz_need_dig z (u32 (length str * 8) div DIG_SIZE + 1)) (\<lambda>z.
           set_from_str_loop (z\<lparr>neg := ng, dig := []\<rparr>) base 0 str))"

text \<open>The inner loop gathers bytes into a digit while \<^verbatim>\<open>num_bits < DIG_SIZE\<close>.\<close>

fun from_bytes_digit :: "nat \<Rightarrow> int \<Rightarrow> nat list \<Rightarrow> nat \<times> int \<times> nat list" where
  "from_bytes_digit d num_bits [] = (d, num_bits, [])"
| "from_bytes_digit d num_bits (b # bs) =
     (if num_bits < int DIG_SIZE
      then from_bytes_digit (d OR u16 (b * 2 ^ nat num_bits)) (num_bits + 8) bs
      else (d, num_bits, b # bs))"

text \<open>Each turn of the outer loop takes at least a byte, so the length is enough fuel.\<close>

fun from_bytes_loop :: "nat \<Rightarrow> int \<Rightarrow> nat list \<Rightarrow> mpz_error + nat list" where
  "from_bytes_loop fuel num_bits bs =
     (if bs = [] then Inr []
      else case fuel of 0 \<Rightarrow> Inl Diverges | Suc fuel' \<Rightarrow>
        (case from_bytes_digit 0 num_bits bs of (d, num_bits, bs) \<Rightarrow>
         res_bind (from_bytes_loop fuel' (num_bits - int DIG_SIZE) bs) (\<lambda>ds.
         Inr (d mod DIG_BASE # ds))))"

declare from_bytes_loop.simps [simp del]

definition mpz_set_from_bytes :: "mpz \<Rightarrow> bool \<Rightarrow> nat list \<Rightarrow> mpz_error + mpz" where
  "mpz_set_from_bytes z big_endian buf =
     res_bind (mpz_need_dig z (u32 (length buf * 8 + DIG_SIZE - 1) div DIG_SIZE)) (\<lambda>z.
     res_bind (from_bytes_loop (length buf) 0 (if big_endian then rev buf else buf)) (\<lambda>ds.
     put_dig (z\<lparr>neg := False\<rparr>) (ds, mpn_remove_trailing_zeros ds (length ds))))"

section \<open>To machine integers\<close>

fun hash_loop :: "nat \<Rightarrow> nat list \<Rightarrow> nat" where
  "hash_loop val [] = val"
| "hash_loop val (d # ds) = hash_loop (u32 (val * DIG_BASE) OR d) ds"

definition mpz_hash :: "mpz \<Rightarrow> int" where
  "mpz_hash z =
     (let val = int (hash_loop 0 (rev (dig z)))
      in s32 (if neg z then (- val) mod 2 ^ 32 else val))"

fun checked_loop :: "nat \<Rightarrow> nat \<Rightarrow> nat list \<Rightarrow> nat option" where
  "checked_loop limit val [] = Some val"
| "checked_loop limit val (d # ds) =
     (if val > limit then None else checked_loop limit (u32 (val * DIG_BASE) OR d) ds)"

definition mpz_as_int_checked :: "mpz \<Rightarrow> int option" where
  "mpz_as_int_checked i =
     map_option (\<lambda>val. s32 (if neg i then (- int val) mod 2 ^ 32 else int val))
       (checked_loop ((2 ^ 31 - 1) div 2 ^ DIG_SIZE) 0 (rev (dig i)))"

definition mpz_as_uint_checked :: "mpz \<Rightarrow> nat option" where
  "mpz_as_uint_checked i =
     (if neg i then None
      else checked_loop ((2 ^ 31 - 1) div 2 ^ (DIG_SIZE - 1)) 0 (rev (dig i)))"

section \<open>To bytes and strings\<close>

text \<open>The byte written for the digit bits \<open>d\<close>, complemented with a carry when negative.\<close>

definition as_bytes_byte :: "bool \<Rightarrow> nat \<Rightarrow> nat \<Rightarrow> nat \<times> nat" where
  "as_bytes_byte ng d carry =
     (let val = u16 d
      in if ng then let val = u16 ((255 - val mod 256) + carry) in (val mod 256, val div 2 ^ 8)
         else (val mod 256, carry))"

text \<open>
  The loop over the bytes of one digit: \<^term>\<open>Inr (Inl out)\<close> is the early return when the
  buffer is full, \<^term>\<open>Inr (Inr s)\<close> the state after the loop.
\<close>

fun as_bytes_digit :: "bool \<Rightarrow> nat \<Rightarrow> nat \<Rightarrow> nat \<Rightarrow> nat \<Rightarrow> nat list \<Rightarrow>
  mpz_error + (nat list + nat \<times> nat \<times> nat \<times> nat list)" where
  "as_bytes_digit ng len bits d carry out =
     (if \<not> bits \<ge> 8 then Inr (Inr (bits, d, carry, out))
      else if \<not> length out < len then Inl BufferOverrun
      else if length out + 1 = len then Inr (Inl (out @ [fst (as_bytes_byte ng d carry)]))
      else as_bytes_digit ng len (bits - 8) (d div 2 ^ 8) (snd (as_bytes_byte ng d carry))
             (out @ [fst (as_bytes_byte ng d carry)]))"

declare as_bytes_digit.simps [simp del]

fun as_bytes_loop :: "bool \<Rightarrow> nat \<Rightarrow> nat \<Rightarrow> nat \<Rightarrow> nat \<Rightarrow> nat list \<Rightarrow> nat list \<Rightarrow> mpz_error + nat list" where
  "as_bytes_loop ng len bits d carry out [] =
     Inr (out @ replicate (len - length out) (if ng then 255 else 0))"
| "as_bytes_loop ng len bits d carry out (z # zs) =
     res_bind (as_bytes_digit ng len (bits + DIG_SIZE) (u32 (d * DIG_BASE) OR z) carry out)
       (\<lambda>r. case r of
          Inl out \<Rightarrow> Inr out
        | Inr (bits, d, carry, out) \<Rightarrow> as_bytes_loop ng len bits d carry out zs)"

definition mpz_as_bytes :: "mpz \<Rightarrow> bool \<Rightarrow> nat \<Rightarrow> mpz_error + nat list" where
  "mpz_as_bytes z big_endian len =
     res_bind (as_bytes_loop (neg z) len 0 0 1 [] (dig z)) (\<lambda>out.
     Inr (if big_endian then rev out else out))"

text \<open>One division of the digits by the base, from the high end.\<close>

fun as_str_div :: "nat \<Rightarrow> nat \<Rightarrow> nat list \<Rightarrow> nat list \<times> nat" where
  "as_str_div base a [] = ([], a)"
| "as_str_div base a (d # ds) =
     (let a = u32 (a * DIG_BASE) OR d;
          (qs, r) = as_str_div base (a mod base) ds
      in (u16 (a div base) # qs, r))"

definition as_str_char :: "nat \<Rightarrow> nat \<Rightarrow> nat" where
  "as_str_char base_char a =
     (let a = a + 48 in (if a > 57 then u32 (a + base_char + 2 ^ 32 - 57 - 1) else a) mod 256)"

text \<open>
  A character appended to the string built so far, with the comma when three characters
  have followed the index \<open>last_comma\<close>; \<open>comma = 0\<close> is no comma.
\<close>

definition as_str_push :: "nat \<Rightarrow> nat \<Rightarrow> nat \<Rightarrow> nat list \<times> nat \<Rightarrow> nat list \<times> nat" where
  "as_str_push base_char comma a st =
     (case st of (s, last_comma) \<Rightarrow>
        let s = s @ [as_str_char base_char a]
        in if comma \<noteq> 0 \<and> length s - last_comma = 3 then (s @ [comma], length s + 1)
           else (s, last_comma))"

fun as_str_loop :: "nat \<Rightarrow> nat \<Rightarrow> nat \<Rightarrow> nat \<Rightarrow> nat list \<Rightarrow> nat list \<times> nat \<Rightarrow> mpz_error + nat list" where
  "as_str_loop 0 base base_char comma ds st = Inl Diverges"
| "as_str_loop (Suc fuel) base base_char comma ds st =
     (let (qs, a) = as_str_div base 0 (rev ds);
          st = as_str_push base_char comma a st
      in if \<forall>d \<in> set (rev qs). d = 0 then Inr (fst st)
         else as_str_loop fuel base base_char comma (rev qs) st)"

definition mpz_as_str_inpl :: "mpz \<Rightarrow> nat \<Rightarrow> nat list option \<Rightarrow> nat \<Rightarrow> nat \<Rightarrow> mpz_error + nat list" where
  "mpz_as_str_inpl i base prefix base_char comma =
     (if \<not> (2 \<le> base \<and> base \<le> 32) then Inl AssertBase
      else if mpz_len i = 0 then Inr ((case prefix of None \<Rightarrow> [] | Some p \<Rightarrow> p) @ [48])
      else
        res_bind (as_str_loop (DIG_SIZE * mpz_len i + 1) base base_char comma (dig i) ([], 0)) (\<lambda>s.
        let s = s @ (case prefix of None \<Rightarrow> [] | Some p \<Rightarrow> rev p);
            s = (if neg i then s @ [45] else s)
        in Inr (rev s)))"

definition log_base2_floor :: "nat list" where
  "log_base2_floor = [0, 1, 1, 2, 2, 2, 2, 3, 3, 3, 3, 3, 3, 3, 3, 4]"

text \<open>The size is a sum of \<^verbatim>\<open>size_t\<close> values, which wraps.\<close>

definition mp_int_format_size :: "nat \<Rightarrow> nat \<Rightarrow> nat list option \<Rightarrow> nat \<Rightarrow> mpz_error + nat" where
  "mp_int_format_size num_bits base prefix comma =
     (if \<not> (2 \<le> base \<and> base \<le> 16) then Inl AssertBase
      else let num_digits = u32 (num_bits div (log_base2_floor ! (base - 1)) + 1);
               num_commas = (if comma \<noteq> 0 then num_digits div 3 else 0);
               prefix_len = (case prefix of None \<Rightarrow> 0 | Some p \<Rightarrow> length p)
           in Inr (u32 (num_digits + num_commas + prefix_len + 2)))"

section \<open>Parsing\<close>

text \<open>
  The reference: the value of the longest prefix of digits of the base, by Horner's rule, and
  the length of that prefix.
\<close>

fun parse_nat :: "nat \<Rightarrow> nat \<Rightarrow> nat \<Rightarrow> nat list \<Rightarrow> nat \<times> nat" where
  "parse_nat base acc n [] = (acc, n)"
| "parse_nat base acc n (c # cs) =
     (case char_value c of
        None \<Rightarrow> (acc, n)
      | Some v \<Rightarrow> if v < base then parse_nat base (base * acc + v) (Suc n) cs else (acc, n))"

lemma DIG_BASE_256: "DIG_BASE ^ n = 256 ^ (2 * n)"
  by (simp add: DIG_BASE_num power_mult)

lemma length_from_bytes_bound:
  assumes "normed ds" "dval ds < 256 ^ k"
  shows "length ds \<le> (k + 1) div 2"
proof (rule normed_length_bound [OF assms(1)])
  have "(256 :: nat) ^ k \<le> 256 ^ (2 * ((k + 1) div 2))" by (intro power_increasing) auto
  then show "dval ds < DIG_BASE ^ ((k + 1) div 2)" using assms(2) unfolding DIG_BASE_256 by linarith
qed

lemma set_from_str_loop_correct:
  assumes "normed (dig z)" "dval (dig z) < 256 ^ k" "(k + length cs) div 2 + 1 \<le> alloc z" "base \<le> 36"
  shows "\<exists>ds. set_from_str_loop z base cur cs = Inr (z\<lparr>dig := ds\<rparr>, snd (parse_nat base (dval (dig z)) cur cs)) \<and>
    normed ds \<and> length ds \<le> alloc z \<and> dval ds = fst (parse_nat base (dval (dig z)) cur cs)"
  using assms
proof (induction cs arbitrary: z k cur)
  case Nil
  have "length (dig z) \<le> alloc z" using length_from_bytes_bound [OF Nil(1,2)] Nil(3) by simp
  then show ?case using Nil by (intro exI [of _ "dig z"]) simp
next
  case (Cons c cs)
  have len: "length (dig z) \<le> alloc z" using length_from_bytes_bound [OF Cons.prems(1,2)] Cons.prems(3) by simp
  have stop: ?case if "char_value c = None \<or> (\<exists>v. char_value c = Some v \<and> \<not> v < base)"
    using that Cons.prems len by (intro exI [of _ "dig z"]) auto
  show ?case
  proof (cases "\<exists>v. char_value c = Some v \<and> v < base")
    case True
    then obtain v where v: "char_value c = Some v" "v < base" by blast
    obtain ds n where m: "mpn_mul_dig_add_dig (dig z) base v = (ds, n)" by fastforce
    have "n = length ds \<and> normed ds \<and> dval ds = base * dval (dig z) + v \<and> length ds \<le> length (dig z) + 1"
      using mpn_mul_dig_add_dig_correct [OF Cons.prems(1) _ _ _ m] v Cons.prems(4)
      by (simp add: DIG_BASE_num)
    then have ds: "n = length ds" "normed ds" "dval ds = base * dval (dig z) + v" by auto
    have "base * dval (dig z) + v < base * (dval (dig z) + 1)" using v by simp
    also have "\<dots> \<le> 256 * 256 ^ k" using Cons.prems(2,4) by (intro mult_le_mono) auto
    finally have b: "dval ds < 256 ^ (Suc k)" using ds by simp
    then have "length ds \<le> (Suc k + 1) div 2" by (rule length_from_bytes_bound [OF ds(2)])
    then have "length ds \<le> alloc z" using Cons.prems(3) by simp
    then show ?thesis using Cons.IH [of "z\<lparr>dig := ds\<rparr>" "Suc k" "Suc cur"] ds b v m Cons.prems(3,4)
      by (simp add: put_dig_ok)
  next
    case False
    then show ?thesis using stop by (cases "char_value c") auto
  qed
qed

lemma mpz_set_from_str_correct:
  assumes "\<not> fixed_dig z" "base \<le> 36" "length str < 2 ^ 29"
  shows "\<exists>z'. mpz_set_from_str z str ng base = Inr (z', snd (parse_nat base 0 0 str)) \<and> mpz_wf z' \<and>
    mpz_val z' = (if ng then - int (fst (parse_nat base 0 0 str)) else int (fst (parse_nat base 0 0 str)))"
proof -
  let ?z = "z\<lparr>alloc := max (alloc z) (max (u32 (length str * 8) div DIG_SIZE + 1) MIN_ALLOC), neg := ng, dig := []\<rparr>"
  have "u32 (length str * 8) = length str * 8" using assms(3) by (simp add: u32_id)
  then have "(0 + length str) div 2 + 1 \<le> alloc ?z" by (simp add: DIG_SIZE_def le_max_iff_disj)
  from set_from_str_loop_correct [OF _ _ this assms(2), of 0]
  show ?thesis using assms(1,2)
    by (auto simp: mpz_set_from_str_def mpz_need_dig_ok normed_def mpz_wf_def mpz_val_def)
qed

section \<open>Printing\<close>

text \<open>The digits of a number in a base, least significant first; zero has one digit.\<close>

function nat_digits :: "nat \<Rightarrow> nat \<Rightarrow> nat list" where
  "nat_digits b n = (if b < 2 \<or> n div b = 0 then [n mod b] else n mod b # nat_digits b (n div b))"
  by pat_completeness auto
termination
  by (relation "measure snd") (auto intro!: div_less_dividend gr0I)

declare nat_digits.simps [simp del]

lemma as_str_div_correct:
  assumes "digits_ok ds" "a < base" "base \<le> DIG_BASE" "as_str_div base a ds = (qs, r)"
  shows "digits_ok qs \<and> length qs = length ds \<and> r < base \<and>
    dval (rev ds) + DIG_BASE ^ length ds * a = base * dval (rev qs) + r"
  using assms
proof (induction ds arbitrary: a qs r)
  case (Cons d ds)
  define x where "x = a * DIG_BASE + d"
  have "d < DIG_BASE" using Cons.prems by simp
  moreover have "(a + 1) * DIG_BASE \<le> base * DIG_BASE" using Cons.prems(2) by (intro mult_le_mono1) simp
  ultimately have "x < base * DIG_BASE" unfolding x_def by (simp add: algebra_simps)
  moreover have "base * DIG_BASE \<le> 2 ^ 32" using Cons.prems(3) by (simp add: DIG_BASE_num)
  ultimately have x: "u32 (a * DIG_BASE) OR d = x" "x div base < DIG_BASE" "x < base * DIG_BASE"
    using or_shift [of d 16 a] \<open>d < DIG_BASE\<close>
    by (simp_all add: u32_id DIG_BASE_num x_def less_mult_imp_div_less mult.commute)
  obtain qs' where q: "as_str_div base (x mod base) ds = (qs', r)" "qs = x div base # qs'"
    using Cons.prems(4) x by (auto simp: Let_def u16_id DIG_BASE_num split: prod.splits)
  have IH: "digits_ok qs' \<and> length qs' = length ds \<and> r < base \<and>
      dval (rev ds) + DIG_BASE ^ length ds * (x mod base) = base * dval (rev qs') + r"
    using Cons.IH [OF _ _ _ q(1)] Cons.prems by simp
  have "dval (rev (d # ds)) + DIG_BASE ^ length (d # ds) * a = dval (rev ds) + DIG_BASE ^ length ds * x"
    by (simp add: dval_append x_def algebra_simps)
  also have "DIG_BASE ^ length ds * x =
      DIG_BASE ^ length ds * (x mod base) + base * (DIG_BASE ^ length ds * (x div base))"
    by (metis distrib_left mod_mult_div_eq mult.left_commute)
  also have "dval (rev ds) + \<dots> = base * dval (rev qs) + r"
    using IH q(2) by (simp add: dval_append distrib_left)
  finally show ?case using IH q x by simp
qed simp

lemma as_str_loop_correct:
  assumes "digits_ok ds" "dval ds < 2 ^ fuel" "2 \<le> base" "base \<le> 32"
  shows "as_str_loop (Suc fuel) base bc comma ds st =
    Inr (fst (fold (as_str_push bc comma) (nat_digits base (dval ds)) st))"
  using assms
proof (induction fuel arbitrary: ds st)
  case (0 ds)
  obtain qs r where q: "as_str_div base 0 (rev ds) = (qs, r)" by fastforce
  have c: "dval ds = base * dval (rev qs) + r" "r < base"
    using as_str_div_correct [OF _ _ _ q] 0 by (simp_all add: DIG_BASE_num)
  have "dval ds div base = 0" "dval ds mod base = r" "dval (rev qs) = 0" using 0 c by simp_all
  then show ?case using q dval_eq_0_iff [of "rev qs"] 0 by (simp add: nat_digits.simps)
next
  case (Suc fuel ds)
  obtain qs r where q: "as_str_div base 0 (rev ds) = (qs, r)" by fastforce
  have c: "dval ds = base * dval (rev qs) + r" "r < base" "digits_ok qs"
    using as_str_div_correct [OF _ _ _ q] Suc.prems by (simp_all add: DIG_BASE_num)
  have v: "dval ds div base = dval (rev qs)" "dval ds mod base = r" using c(2) by (simp_all add: c(1))
  have "2 * dval (rev qs) \<le> base * dval (rev qs)" using Suc.prems by simp
  then have "dval (rev qs) < 2 ^ fuel" using Suc.prems(2) c(1) unfolding power_Suc by linarith
  then have IH: "as_str_loop (Suc fuel) base bc comma (rev qs) t =
      Inr (fst (fold (as_str_push bc comma) (nat_digits base (dval (rev qs))) t))" for t
    using c(3) by (intro Suc.IH [OF _ _ Suc.prems(3,4)]) simp_all
  have all: "(\<forall>d \<in> set (rev qs). d = 0) \<longleftrightarrow> dval (rev qs) = 0" using dval_eq_0_iff [of "rev qs"] by simp
  show ?case
    by (subst as_str_loop.simps) (simp only: q Let_def prod.case all IH nat_digits.simps [of base "dval ds"] v
      if_distrib fold.simps o_apply if_cancel split: if_split, use Suc.prems in auto)
qed

lemma mpz_as_str_inpl_eq:
  assumes "mpz_wf z" "2 \<le> base" "base \<le> 32" "mpz_len z \<noteq> 0"
  shows "mpz_as_str_inpl z base prefix bc comma =
    Inr ((if neg z then [45] else []) @ (case prefix of None \<Rightarrow> [] | Some p \<Rightarrow> p) @
      rev (fst (fold (as_str_push bc comma) (nat_digits base (dval (dig z))) ([], 0))))"
proof -
  have "digits_ok (dig z)" "dval (dig z) < 2 ^ (DIG_SIZE * mpz_len z)"
    using assms(1) dval_bound [of "dig z"] by (simp_all add: mpz_wf_def DIG_BASE_def power_mult mpz_len_def)
  from as_str_loop_correct [OF this assms(2,3)] show ?thesis
    using assms(2-4) by (simp add: mpz_as_str_inpl_def Let_def split: option.splits)
qed

lemma nat_digits_less: "2 \<le> b \<Longrightarrow> \<forall>d \<in> set (nat_digits b n). d < b"
proof (induction b n rule: nat_digits.induct)
  case (1 b n)
  have m: "n mod b < b" using 1(2) by simp
  show ?case
  proof (cases "n div b = 0")
    case True then show ?thesis using m by (simp add: nat_digits.simps [of b n])
  next
    case False
    then have "\<forall>d \<in> set (nat_digits b (n div b)). d < b" using 1 by simp
    then show ?thesis using m False by (subst nat_digits.simps) simp
  qed
qed

lemma nat_digits_value: "2 \<le> b \<Longrightarrow> foldr (\<lambda>v a. b * a + v) (nat_digits b n) 0 = n"
proof (induction b n rule: nat_digits.induct)
  case (1 b n)
  show ?case
  proof (cases "n div b = 0")
    case True then show ?thesis using 1(2) by (simp add: nat_digits.simps [of b n] div_eq_0_iff)
  next
    case False then show ?thesis using 1 by (subst nat_digits.simps) simp
  qed
qed

lemma nat_digits_pow: "2 \<le> b \<Longrightarrow> n \<noteq> 0 \<Longrightarrow> b ^ (length (nat_digits b n) - 1) \<le> n"
proof (induction b n rule: nat_digits.induct)
  case (1 b n)
  show ?case
  proof (cases "n div b = 0")
    case True then show ?thesis using 1(3) by (simp add: nat_digits.simps [of b n])
  next
    case False
    have IH: "b ^ (length (nat_digits b (n div b)) - 1) \<le> n div b" using 1 False by simp
    have "length (nat_digits b (n div b)) \<noteq> 0" by (subst nat_digits.simps) simp
    then have "b ^ (length (nat_digits b n) - 1) = b * b ^ (length (nat_digits b (n div b)) - 1)"
      using 1(2) False by (subst nat_digits.simps) (simp add: power_Suc [symmetric] del: power_Suc)
    also have "\<dots> \<le> b * (n div b)" using IH by simp
    also have "\<dots> \<le> n" by simp
    finally show ?thesis .
  qed
qed

lemma fold_push_no_comma:
  "fold (as_str_push bc 0) ds (s, k) = (s @ map (as_str_char bc) ds, k)"
  by (induction ds arbitrary: s) (simp_all add: as_str_push_def)

lemma as_str_char_eq:
  assumes "bc = 65 \<or> bc = 97" "v < 32"
  shows "as_str_char bc v = (if v < 10 then 48 + v else bc + (v - 10))"
proof (cases "v < 10")
  case False
  have e: "v + 48 + bc + 2 ^ 32 - 57 - 1 = (bc + (v - 10)) + 2 ^ 32" using False by simp
  have "u32 (v + 48 + bc + 2 ^ 32 - 57 - 1) = bc + (v - 10)"
    unfolding e u32_def mod_add_self2 using assms by auto
  then show ?thesis using False assms by (auto simp: as_str_char_def Let_def)
qed (simp add: as_str_char_def)

lemma char_value_as_str_char:
  "bc = 65 \<or> bc = 97 \<Longrightarrow> v < 32 \<Longrightarrow> char_value (as_str_char bc v) = Some v"
  by (auto simp: char_value_def as_str_char_eq)

lemma parse_nat_chars:
  assumes "\<forall>v \<in> set vs. v < base" "base \<le> 32" "bc = 65 \<or> bc = 97"
  shows "parse_nat base acc n (map (as_str_char bc) vs) =
    (foldl (\<lambda>a v. base * a + v) acc vs, n + length vs)"
  using assms
proof (induction vs arbitrary: acc n)
  case (Cons v vs)
  then have "char_value (as_str_char bc v) = Some v" by (intro char_value_as_str_char) auto
  then show ?case using Cons by simp
qed simp

text \<open>Number of commas: one after every third digit, also after the last.\<close>

lemma fold_push_comma_length:
  assumes "comma \<noteq> 0"
  shows "length (fst (fold (as_str_push bc comma) ds ([], 0))) = length ds + length ds div 3"
proof -
  have "length (fst (fold (as_str_push bc comma) ds ([], 0))) = length ds + length ds div 3 \<and>
    snd (fold (as_str_push bc comma) ds ([], 0)) + length ds mod 3 =
    length (fst (fold (as_str_push bc comma) ds ([], 0)))"
  proof (induction ds rule: rev_induct)
    case (snoc d ds)
    obtain s k where f: "fold (as_str_push bc comma) ds ([], 0) = (s, k)" by fastforce
    then have s: "length s = length ds + length ds div 3" "k + length ds mod 3 = length s"
      using snoc by simp_all
    have p: "fold (as_str_push bc comma) (ds @ [d]) ([], 0) = as_str_push bc comma d (s, k)" by (simp add: f)
    note push = as_str_push_def [of bc comma d "(s, k)"]
    show ?case
    proof (cases "length ds mod 3 = 2")
      case True
      then have "Suc (length ds) div 3 = Suc (length ds div 3)" "Suc (length ds) mod 3 = 0" by presburger+
      then show ?thesis unfolding p push using assms s True by (auto simp: Let_def)
    next
      case False
      then have "Suc (length ds) div 3 = length ds div 3" "Suc (length ds) mod 3 = Suc (length ds mod 3)"
        by presburger+
      then show ?thesis unfolding p push using assms s False by (auto simp: Let_def)
    qed
  qed simp
  then show ?thesis by simp
qed

lemma fold_push_length:
  "length (fst (fold (as_str_push bc comma) ds ([], 0))) =
    length ds + (if comma \<noteq> 0 then length ds div 3 else 0)"
  using fold_push_comma_length [of comma bc ds] by (cases "comma = 0") (simp_all add: fold_push_no_comma)

lemma nat_digits_length:
  assumes "2 \<le> b" "n < 2 ^ k" "2 ^ l \<le> b" "0 < l"
  shows "length (nat_digits b n) \<le> k div l + 1"
proof (cases "n = 0")
  case True then show ?thesis by (simp add: nat_digits.simps [of b])
next
  case False
  let ?m = "length (nat_digits b n) - 1"
  have "(2 :: nat) ^ (l * ?m) \<le> b ^ ?m" using assms(3) by (simp add: power_mult power_mono)
  also have "\<dots> \<le> n" using nat_digits_pow [OF assms(1) False] .
  finally have "(2 :: nat) ^ (l * ?m) < 2 ^ k" using assms(2) by linarith
  then have "l * ?m < k" by simp
  then have "?m \<le> k div l" using assms(4) by (simp add: less_eq_div_iff_mult_less_eq mult.commute)
  then show ?thesis by simp
qed

lemma log_base2_floor_pow:
  assumes "2 \<le> base" "base \<le> 16"
  shows "2 ^ (log_base2_floor ! (base - 1)) \<le> base" "0 < log_base2_floor ! (base - 1)"
proof -
  have "\<forall>b \<in> set [2..<17]. 2 ^ (log_base2_floor ! (b - 1)) \<le> b \<and> 0 < log_base2_floor ! (b - 1)"
    by code_simp
  moreover have "base \<in> set [2..<17]" using assms unfolding set_upt atLeastLessThan_iff by linarith
  ultimately show "2 ^ (log_base2_floor ! (base - 1)) \<le> base" "0 < log_base2_floor ! (base - 1)"
    by blast+
qed

section \<open>Bytes\<close>

fun bval :: "nat list \<Rightarrow> nat" where
  "bval [] = 0"
| "bval (b # bs) = b + 256 * bval bs"

definition bytes_ok :: "nat list \<Rightarrow> bool" where
  "bytes_ok bs \<longleftrightarrow> (\<forall>b \<in> set bs. b < 256)"

lemma bytes_ok_simps [simp]:
  "bytes_ok []"
  "bytes_ok (b # bs) \<longleftrightarrow> b < 256 \<and> bytes_ok bs"
  "bytes_ok (xs @ ys) \<longleftrightarrow> bytes_ok xs \<and> bytes_ok ys"
  "bytes_ok (rev xs) \<longleftrightarrow> bytes_ok xs"
  "bytes_ok (replicate n b) \<longleftrightarrow> n = 0 \<or> b < 256"
  by (auto simp: bytes_ok_def)

lemma bval_append: "bval (xs @ ys) = bval xs + 256 ^ length xs * bval ys"
  by (induction xs) (simp_all add: algebra_simps)

lemma bval_bound: "bytes_ok bs \<Longrightarrow> bval bs < 256 ^ length bs"
  by (induction bs) auto

lemma bval_replicate: "bval (replicate n 0) = 0" "int (bval (replicate n 255)) = 256 ^ n - 1"
  by (induction n) simp_all

text \<open>
  The bytes \<open>out\<close> written so far, the carry, and the value \<open>p\<close> of the bytes of the magnitude
  they came from.
\<close>

definition out_inv :: "bool \<Rightarrow> nat list \<Rightarrow> nat \<Rightarrow> nat \<Rightarrow> bool" where
  "out_inv ng out carry p \<longleftrightarrow> bytes_ok out \<and> p < 256 ^ length out \<and> carry \<le> 1 \<and>
     int (bval out) = (if ng then 256 ^ length out * (1 - int carry) - int p else int p)"

lemma out_inv_step:
  assumes "out_inv ng out carry p" "as_bytes_byte ng d carry = (b, carry')" "d < 2 ^ 16"
  shows "out_inv ng (out @ [b]) carry' (p + 256 ^ length out * (d mod 256))"
proof -
  let ?d = "d mod 256"
  have "p + 256 ^ length out * ?d < 256 ^ length out * (?d + 1)"
    using assms(1) by (simp add: out_inv_def)
  also have "\<dots> \<le> 256 ^ length out * 256" by (intro mult_le_mono2) simp
  finally have p: "p + 256 ^ length out * ?d < 256 ^ length (out @ [b])" by (simp add: mult.commute)
  show ?thesis
  proof (cases ng)
    case True
    let ?v = "255 - ?d + carry"
    have "u16 ?v = ?v" using assms(1) by (intro u16_id) (auto simp: out_inv_def)
    then have b: "b = ?v mod 256" "carry' = ?v div 256"
      using assms(2,3) True by (simp_all add: as_bytes_byte_def Let_def u16_id)
    have "carry' \<le> 1" using assms(1) unfolding b out_inv_def by auto
    moreover have "?d \<le> 255" "b + 256 * carry' = ?v" unfolding b by simp_all
    then have ib: "int b = 255 - int ?d + int carry - 256 * int carry'" by linarith
    have "b < 256" unfolding b by simp
    ultimately show ?thesis using assms(1) p True
      by (simp add: out_inv_def bval_append ib algebra_simps del: of_nat_mod)
  next
    case False
    then show ?thesis using assms p by (auto simp: out_inv_def bval_append as_bytes_byte_def u16_id)
  qed
qed

text \<open>A digit gives its two bytes, or the buffer fills up on the way.\<close>

lemma as_bytes_digit_correct:
  assumes "out_inv ng out carry p" "d < DIG_BASE" "length out < len"
  shows "(\<exists>out' carry'. as_bytes_digit ng len DIG_SIZE d carry out = Inr (Inr (0, 0, carry', out')) \<and>
      length out' = length out + 2 \<and> length out' < len \<and>
      out_inv ng out' carry' (p + 256 ^ length out * d)) \<or>
    (\<exists>out' carry' r. as_bytes_digit ng len DIG_SIZE d carry out = Inr (Inl out') \<and> length out' = len \<and>
      out_inv ng out' carry' r \<and> (\<exists>k. p + 256 ^ length out * d = r + 256 ^ len * k) \<and> len \<le> length out + 2)"
proof -
  obtain b1 c1 where 1: "as_bytes_byte ng d carry = (b1, c1)" by fastforce
  obtain b2 c2 where 2: "as_bytes_byte ng (d div 256) c1 = (b2, c2)" by fastforce
  let ?L = "length out"
  have d: "d < 65536" "d = d mod 256 + 256 * (d div 256)" "d div 256 < 256"
    using assms(2) by (simp_all add: DIG_BASE_num)
  have i1: "out_inv ng (out @ [b1]) c1 (p + 256 ^ ?L * (d mod 256))"
    using out_inv_step [OF assms(1) 1] d by simp
  have "p + 256 ^ ?L * (d mod 256) + 256 ^ Suc ?L * (d div 256) = p + 256 ^ ?L * (d mod 256 + 256 * (d div 256))"
    by (simp only: distrib_left power_Suc ac_simps)
  then have e: "p + 256 ^ ?L * d = p + 256 ^ ?L * (d mod 256) + 256 ^ Suc ?L * (d div 256)" using d(2) by simp
  have i2: "out_inv ng (out @ [b1, b2]) c2 (p + 256 ^ ?L * d)"
    using out_inv_step [OF i1 2] d(1,3) unfolding e by simp
  have s: "as_bytes_digit ng len DIG_SIZE d carry out =
      (if ?L + 1 = len then Inr (Inl (out @ [b1]))
       else if ?L + 2 = len then Inr (Inl (out @ [b1, b2])) else Inr (Inr (0, d div 256 div 256, c2, out @ [b1, b2])))"
    using assms(3) 1 2 by (simp add: as_bytes_digit.simps DIG_SIZE_def)
  consider "?L + 1 = len" | "?L + 2 = len" | "?L + 2 < len" using assms(3) by linarith
  then show ?thesis
  proof cases
    case 1
    then show ?thesis using i1 s e
      by (intro disjI2 exI [of _ "out @ [b1]"] exI [of _ c1] exI [of _ "p + 256 ^ ?L * (d mod 256)"]) auto
  next
    case 2
    then show ?thesis using i2 s
      by (intro disjI2 exI [of _ "out @ [b1, b2]"] exI [of _ c2] exI [of _ "p + 256 ^ ?L * d"]) auto
  next
    case 3
    then show ?thesis using i2 s d(3) by (intro disjI1) auto
  qed
qed

lemma as_bytes_loop_correct:
  assumes "out_inv ng out carry p" "digits_ok zs" "length out < len \<or> (zs = [] \<and> length out \<le> len)"
    "ng \<longrightarrow> p + 256 ^ length out * dval zs \<noteq> 0"
  shows "\<exists>bs. as_bytes_loop ng len 0 0 carry out zs = Inr bs \<and> length bs = len \<and> bytes_ok bs \<and>
    int (bval bs) = (if ng then - int (p + 256 ^ length out * dval zs) else int (p + 256 ^ length out * dval zs))
      mod 256 ^ len"
  using assms
proof (induction zs arbitrary: out carry p)
  case Nil
  let ?L = "length out"
  have L: "?L \<le> len" using Nil.prems by auto
  have pw: "(256 :: int) ^ ?L * 256 ^ (len - ?L) = 256 ^ len" using L by (simp add: power_add [symmetric])
  have p: "p < 256 ^ ?L" using Nil.prems by (simp add: out_inv_def)
  have pl: "int p < 256 ^ len"
  proof -
    have "int p < 256 ^ ?L" using p by (metis of_nat_less_iff of_nat_numeral of_nat_power)
    also have "(256::int) ^ ?L \<le> 256 ^ len" using L by (intro power_increasing) auto
    finally show ?thesis .
  qed
  show ?case
  proof (cases ng)
    case True
    then have p0: "0 < p" using Nil.prems by simp
    have "int (bval out) = 256 ^ ?L * (1 - int carry) - int p" "carry \<le> 1"
      using Nil.prems(1) True by (auto simp: out_inv_def)
    moreover from this have "carry = 0" using p0 by (cases "carry = 1") auto
    ultimately have "int (bval (out @ replicate (len - ?L) 255)) = 256 ^ len - int p"
      by (simp add: bval_append bval_replicate pw [symmetric] algebra_simps)
    moreover have "(- int p) mod 256 ^ len = 256 ^ len - int p"
      using p0 pl by (simp add: zmod_zminus1_eq_if)
    ultimately show ?thesis using True Nil.prems L by (simp add: out_inv_def)
  next
    case False
    then show ?thesis using Nil.prems L pl by (simp add: out_inv_def bval_append bval_replicate)
  qed
next
  case (Cons z zs)
  have L: "length out < len" using Cons.prems by auto
  have z: "z < DIG_BASE" using Cons.prems by simp
  have v: "p + 256 ^ length out * dval (z # zs) =
      p + 256 ^ length out * z + 256 ^ (length out + 2) * dval zs"
    by (simp add: algebra_simps DIG_BASE_num power_add)
  from as_bytes_digit_correct [OF Cons.prems(1) z L]
  show ?case
  proof (elim disjE exE conjE)
    fix out' carry'
    assume r: "as_bytes_digit ng len DIG_SIZE z carry out = Inr (Inr (0, 0, carry', out'))"
      "length out' = length out + 2" "length out' < len" "out_inv ng out' carry' (p + 256 ^ length out * z)"
    have step: "as_bytes_loop ng len 0 0 carry out (z # zs) = as_bytes_loop ng len 0 0 carry' out' zs"
      using r(1) by (simp add: u32_def)
    show ?case unfolding step v
      using Cons.IH [OF r(4), unfolded r(2)] Cons.prems(2,4) r(3) unfolding v r(2) by simp
  next
    fix out' carry' r k
    assume r: "as_bytes_digit ng len DIG_SIZE z carry out = Inr (Inl out')" "length out' = len"
      "out_inv ng out' carry' r" "p + 256 ^ length out * z = r + 256 ^ len * k" "len \<le> length out + 2"
    have "\<exists>j. p + 256 ^ length out * dval (z # zs) = r + 256 ^ len * j"
    proof -
      obtain n where "length out + 2 = len + n" using r(5) le_Suc_ex by blast
      then have "p + 256 ^ length out * dval (z # zs) = r + 256 ^ len * (k + 256 ^ n * dval zs)"
        unfolding v r(4) by (simp only: power_add distrib_left ac_simps)
      then show ?thesis by blast
    qed
    then obtain j where j: "p + 256 ^ length out * dval (z # zs) = r + 256 ^ len * j" by blast
    have o: "bytes_ok out'" "int (bval out') < 256 ^ len" using r(2,3) bval_bound [of out']
      by (auto simp: out_inv_def) (metis of_nat_less_iff of_nat_numeral of_nat_power)
    define c where "c = (if ng then 1 - int carry' + int j else - int j)"
    have "(if ng then - int (r + 256 ^ len * j) else int (r + 256 ^ len * j)) = int (bval out') - 256 ^ len * c"
      using r(2,3) by (simp add: out_inv_def c_def algebra_simps)
    moreover have "(int (bval out') - 256 ^ len * c) mod 256 ^ len = int (bval out')"
      using o(2) by (simp add: mod_diff_right_eq [symmetric])
    ultimately show ?case unfolding j using r(1,2) o by (simp add: u32_def)
  qed
qed

lemma mpz_as_bytes_correct:
  assumes "mpz_canon z" "0 < len \<or> mpz_len z = 0"
  shows "\<exists>bs. mpz_as_bytes z big len = Inr bs \<and> length bs = len \<and> bytes_ok bs \<and>
    int (bval (if big then rev bs else bs)) = mpz_val z mod 256 ^ len"
proof -
  have z: "normed (dig z)" "neg z \<longrightarrow> dval (dig z) \<noteq> 0"
    using assms(1) normed_dval_0_iff by (auto simp: mpz_canon_def mpz_wf_def)
  have "out_inv (neg z) [] 1 0" by (simp add: out_inv_def)
  from as_bytes_loop_correct [OF this, of "dig z" len] z assms(2)
  obtain bs where "as_bytes_loop (neg z) len 0 0 1 [] (dig z) = Inr bs" "length bs = len" "bytes_ok bs"
    "int (bval bs) = mpz_val z mod 256 ^ len"
    by (auto simp: mpz_len_def mpz_val_def sval_def split: if_splits)
  then show ?thesis by (auto simp: mpz_as_bytes_def)
qed

text \<open>Reading bytes: a digit takes two bytes, or the one that is left.\<close>

lemma or_byte: "b < 256 \<Longrightarrow> c < 256 \<Longrightarrow> b OR u16 (c * 256) = b + 256 * c"
  using or_shift [of b 8 c] by (simp add: u16_id or.commute)

lemma from_bytes_loop_correct:
  "bytes_ok bs \<Longrightarrow> length bs \<le> fuel \<Longrightarrow>
   \<exists>ds. from_bytes_loop fuel 0 bs = Inr ds \<and> digits_ok ds \<and> dval ds = bval bs \<and> length ds = (length bs + 1) div 2"
proof (induction bs arbitrary: fuel rule: induct_list012)
  case 1
  then show ?case by (subst from_bytes_loop.simps) simp
next
  case (2 b)
  then obtain f where "fuel = Suc f" by (cases fuel) auto
  moreover have "from_bytes_loop f (- 8) [] = Inr []" by (subst from_bytes_loop.simps) simp
  ultimately show ?case using 2 by (subst from_bytes_loop.simps) (simp add: u16_id DIG_BASE_num DIG_SIZE_def)
next
  case (3 b c bs)
  then obtain f where f: "fuel = Suc f" by (cases fuel) auto
  have o: "b OR u16 (c * 256) = b + 256 * c" "u16 b = b" "b + 256 * c < DIG_BASE"
    using 3 or_byte [of b c] by (simp_all add: DIG_BASE_num) (simp_all add: u16_id)
  have d: "from_bytes_digit 0 0 (b # c # bs) = (b + 256 * c, 16, bs)"
    using o by (cases bs) (simp_all add: DIG_SIZE_def)
  obtain ds where "from_bytes_loop f 0 bs = Inr ds" "digits_ok ds" "dval ds = bval bs" "length ds = (length bs + 1) div 2"
    using 3(1) [of f] 3(3,4) f by auto
  then show ?case unfolding f using o(3)
    by (subst from_bytes_loop.simps) (simp add: d DIG_SIZE_def del: from_bytes_digit.simps, simp add: DIG_BASE_num)
qed

lemma bval_digits_bound: "length ds = (length bs + 1) div 2 \<Longrightarrow> length bs < 2 ^ 28 \<Longrightarrow>
    length ds \<le> u32 (length bs * 8 + DIG_SIZE - 1) div DIG_SIZE"
  by (simp add: DIG_SIZE_def u32_id)

lemma mpz_set_from_bytes_yields:
  assumes "\<not> fixed_dig z" "bytes_ok bs" "length bs < 2 ^ 28"
  shows "mpz_yields (mpz_set_from_bytes z big bs) z (int (bval (if big then rev bs else bs)))"
proof -
  let ?bs = "if big then rev bs else bs"
  obtain ds where ds: "from_bytes_loop (length bs) 0 ?bs = Inr ds" "digits_ok ds" "dval ds = bval ?bs"
    "length ds = (length bs + 1) div 2"
    using from_bytes_loop_correct [of ?bs "length bs"] assms(2) by (cases big) auto
  define m where "m = max (alloc z) (max (u32 (length bs * 8 + DIG_SIZE - 1) div DIG_SIZE) MIN_ALLOC)"
  have m: "length ds \<le> m" "alloc z \<le> m"
    using bval_digits_bound [OF ds(4) assms(3)] by (simp_all add: le_max_iff_disj m_def)
  have e: "mpz_set_from_bytes z big bs =
      Inr (z\<lparr>alloc := m, neg := False, dig := take (mpn_remove_trailing_zeros ds (length ds)) ds\<rparr>)"
    unfolding mpz_set_from_bytes_def mpz_need_dig_ok [OF assms(1)] m_def [symmetric] res_bind_simps ds(1)
    using m(1) by (simp add: put_dig_ok)
  show ?thesis using m ds(3) strip_result [OF ds(2)]
    by (intro mpz_yieldsI [OF e]) (simp_all add: mpz_val_def min.coboundedI1)
qed

section \<open>Machine integers\<close>

lemma hash_step: "d < DIG_BASE \<Longrightarrow> u32 (val * DIG_BASE) OR d = u32 (val * DIG_BASE + d)"
proof -
  assume d: "d < DIG_BASE"
  have "u32 (val * DIG_BASE) = (val mod 2 ^ 16) * 2 ^ 16"
    by (simp add: u32_def DIG_BASE_num mod_mult_mult2 [of val 65536 65536, simplified])
  moreover have "u32 (val * DIG_BASE + d) = (val mod 2 ^ 16) * 2 ^ 16 + d"
    using d mod_mult2_eq [of "val * DIG_BASE + d" DIG_BASE DIG_BASE] by (simp add: u32_def DIG_BASE_num)
  ultimately show ?thesis using or_shift [of d 16 "val mod 2 ^ 16"] d by (simp add: DIG_BASE_num)
qed

lemma hash_loop_eq:
  "digits_ok ds \<Longrightarrow> val < 2 ^ 32 \<Longrightarrow> hash_loop val ds = u32 (val * DIG_BASE ^ length ds + dval (rev ds))"
proof (induction ds arbitrary: val)
  case (Cons d ds)
  have "hash_loop val (d # ds) = u32 (u32 (val * DIG_BASE + d) * DIG_BASE ^ length ds + dval (rev ds))"
    using Cons u32_less [of "val * DIG_BASE + d"] by (simp add: hash_step)
  also have "\<dots> = u32 ((val * DIG_BASE + d) * DIG_BASE ^ length ds + dval (rev ds))"
    unfolding u32_def by (metis mod_add_left_eq mod_mult_left_eq)
  finally show ?case by (simp add: dval_append algebra_simps)
qed (simp add: u32_id)

lemma checked_loop_eq:
  assumes "digits_ok ds" "limit * DIG_BASE + DIG_MASK < 2 ^ 32" "val \<le> limit * DIG_BASE + DIG_MASK"
  shows "checked_loop limit val ds =
    (let v = val * DIG_BASE ^ length ds + dval (rev ds)
     in if v \<le> limit * DIG_BASE + DIG_MASK then Some v else None)"
  using assms
proof (induction ds arbitrary: val)
  case (Cons d ds)
  have d: "d < DIG_BASE" using Cons.prems by simp
  have e: "val * DIG_BASE ^ length (d # ds) + dval (rev (d # ds)) =
      (val * DIG_BASE + d) * DIG_BASE ^ length ds + dval (rev ds)"
    by (simp add: dval_append algebra_simps)
  show ?case
  proof (cases "val > limit")
    case True
    then have "(limit + 1) * DIG_BASE \<le> val * DIG_BASE" by (intro mult_le_mono1) simp
    moreover have "(val * DIG_BASE + d) * 1 \<le> (val * DIG_BASE + d) * DIG_BASE ^ length ds"
      by (intro mult_le_mono2) (simp add: DIG_BASE_num)
    moreover have "0 < DIG_BASE" by (simp add: DIG_BASE_num)
    ultimately have "\<not> (val * DIG_BASE + d) * DIG_BASE ^ length ds + dval (rev ds) \<le> limit * DIG_BASE + DIG_MASK"
      unfolding DIG_MASK_def distrib_right by linarith
    then show ?thesis using True unfolding e by (simp add: Let_def)
  next
    case False
    then have "val * DIG_BASE \<le> limit * DIG_BASE" by simp
    then have b: "val * DIG_BASE + d \<le> limit * DIG_BASE + DIG_MASK" using d unfolding DIG_MASK_def by linarith
    then have "u32 (val * DIG_BASE) OR d = val * DIG_BASE + d"
      unfolding hash_step [OF d] using Cons.prems(2) by (simp add: u32_id)
    then show ?thesis unfolding e using False Cons.IH [OF _ Cons.prems(2) b] Cons.prems(1) by simp
  qed
qed simp

lemma mpz_hash_correct:
  assumes "mpz_wf z"
  shows "mpz_hash z = s32 (mpz_val z)"
proof -
  have "hash_loop 0 (rev (dig z)) = dval (dig z) mod 2 ^ 32"
    using assms hash_loop_eq [of "rev (dig z)" 0] by (simp add: mpz_wf_def u32_def)
  then have h: "int (hash_loop 0 (rev (dig z))) = int (dval (dig z)) mod 2 ^ 32" by (simp add: zmod_int)
  show ?thesis
    unfolding mpz_hash_def Let_def h s32_def
    by (cases "neg z") (simp_all add: mpz_val_def mod_simps)
qed

lemma mpz_as_int_checked_correct:
  assumes "mpz_wf z"
  shows "mpz_as_int_checked z = (if \<bar>mpz_val z\<bar> < 2 ^ 31 then Some (mpz_val z) else None)"
proof -
  let ?v = "dval (dig z)"
  have c: "checked_loop ((2 ^ 31 - 1) div 2 ^ DIG_SIZE) 0 (rev (dig z)) =
      (if ?v < 2 ^ 31 then Some ?v else None)"
    using assms checked_loop_eq [of "rev (dig z)" "(2 ^ 31 - 1) div 2 ^ DIG_SIZE" 0]
    by (auto simp: mpz_wf_def DIG_SIZE_def DIG_BASE_num DIG_MASK_def Let_def)
  have s: "s32 ((- int ?v) mod 2 ^ 32) = - int ?v" if "?v < 2 ^ 31"
    unfolding s32_mod using that by (simp add: s32_id)
  have a: "\<bar>mpz_val z\<bar> < 2 ^ 31 \<longleftrightarrow> ?v < 2 ^ 31" by (simp add: mpz_val_def)
  show ?thesis unfolding mpz_as_int_checked_def c a
    using s by (cases "neg z") (auto simp: mpz_val_def s32_id)
qed

lemma mpz_as_uint_checked_correct:
  assumes "mpz_wf z"
  shows "mpz_as_uint_checked z = (if neg z \<or> mpz_val z \<ge> 2 ^ 32 then None else Some (nat (mpz_val z)))"
proof -
  have "checked_loop ((2 ^ 31 - 1) div 2 ^ (DIG_SIZE - 1)) 0 (rev (dig z)) =
      (if dval (dig z) < 2 ^ 32 then Some (dval (dig z)) else None)"
    using assms checked_loop_eq [of "rev (dig z)" "(2 ^ 31 - 1) div 2 ^ (DIG_SIZE - 1)" 0]
    by (auto simp: mpz_wf_def DIG_SIZE_def DIG_BASE_num DIG_MASK_def Let_def)
  then show ?thesis by (auto simp: mpz_as_uint_checked_def mpz_val_def)
qed

end
