(* ===== verification/Mpz_Spec.thy ===== *)
theory Mpz_Spec
  imports Mpz_Pow Mpz_Conv
begin

text \<open>
  The contract of the arbitrary-precision integers of \<^verbatim>\<open>py/mpz.c\<close> against the integers of the
  logic: every operation returns, with a well-formed object whose value is that of the
  mathematical operation with Python's conventions (floor division, arithmetic shifts, two's
  complement bitwise operations), whatever the destination held before.
\<close>

text \<open>A heap-allocated object with the given sign and digits, for the examples.\<close>

definition mk_mpz :: "bool \<Rightarrow> nat list \<Rightarrow> mpz" where
  "mk_mpz ng ds = \<lparr>neg = ng, fixed_dig = False, alloc = length ds + MIN_ALLOC, dig = ds\<rparr>"

lemma mk_mpz_simps [simp]:
  "neg (mk_mpz ng ds) = ng" "fixed_dig (mk_mpz ng ds) = False" "dig (mk_mpz ng ds) = ds"
  "mpz_len (mk_mpz ng ds) = length ds" "mpz_val (mk_mpz ng ds) = sval ng ds"
  "mpz_wf (mk_mpz ng ds) \<longleftrightarrow> normed ds" "mpz_canon (mk_mpz ng ds) \<longleftrightarrow> normed ds \<and> (ng \<longrightarrow> ds \<noteq> [])"
  by (simp_all add: mk_mpz_def mpz_len_def mpz_val_def mpz_wf_def mpz_canon_def)

lemma mpz_yields_mk: "mpz_yields m (mk_mpz ng ds) v \<longleftrightarrow>
    (\<exists>z. m = Inr z \<and> mpz_wf z \<and> mpz_val z = v \<and> \<not> fixed_dig z \<and> length ds + MIN_ALLOC \<le> alloc z)"
  by (auto simp: mpz_yields_def mk_mpz_def)

lemmas mpz_eval = normed_def DIG_BASE_num MIN_ALLOC_def

section \<open>Arithmetic\<close>

text \<open>
  C1: \<^verbatim>\<open>mpz_divmod_inpl\<close> returns for every non-zero divisor, and quotient and remainder are
  those of Python: the quotient rounds to minus infinity and the remainder has the sign of
  the divisor, so for a negative divisor it is not in the range from zero up to the divisor that the comment of the
  function gives. The quotient object must start non-negative, as the objects of all callers do.
\<close>

theorem mpz_divmod_floor:
  assumes "\<not> fixed_dig dest_quo" "\<not> neg dest_quo" "\<not> fixed_dig dest_rem"
    and "mpz_wf lhs" "mpz_wf rhs" "mpz_val rhs \<noteq> 0"
  shows "\<exists>quo rem. mpz_divmod_inpl dest_quo dest_rem lhs rhs = Inr (quo, rem) \<and>
    mpz_wf quo \<and> mpz_wf rem \<and>
    mpz_val quo = mpz_val lhs div mpz_val rhs \<and> mpz_val rem = mpz_val lhs mod mpz_val rhs"
  using mpz_divmod_inpl_correct [OF assms(1,3-6)] assms(2) by blast

theorem mpz_divmod_floor_witness:
  "\<exists>quo rem. mpz_divmod_inpl mpz_init_zero mpz_init_zero (mk_mpz True [7, 3]) (mk_mpz False [2, 1]) = Inr (quo, rem) \<and>
    mpz_val quo = - 4 \<and> mpz_val rem = 65537"
  using mpz_divmod_floor [of mpz_init_zero mpz_init_zero "mk_mpz True [7, 3]" "mk_mpz False [2, 1]"]
  by (fastforce simp: mpz_init_zero_def mpz_eval)

text \<open>
  C6: addition, subtraction and multiplication are exact, never write outside the
  destination's buffer, and multiplication may have its destination as either operand, or
  both.
\<close>

theorem mpz_ring_ops:
  assumes "\<not> fixed_dig dest" "mpz_wf lhs" "mpz_wf rhs" "same_l \<Longrightarrow> dest = lhs" "same_r \<Longrightarrow> dest = rhs"
  shows "mpz_yields (mpz_add_inpl dest lhs rhs) dest (mpz_val lhs + mpz_val rhs) \<and>
    mpz_yields (mpz_sub_inpl dest lhs rhs) dest (mpz_val lhs - mpz_val rhs) \<and>
    mpz_yields (mpz_mul_inpl same_l same_r dest lhs rhs) dest (mpz_val lhs * mpz_val rhs)"
  using mpz_add_inpl_yields [OF assms(1-3)] mpz_sub_inpl_yields [OF assms(1-3)]
    mpz_mul_inpl_yields [OF assms(1-3)] assms(4,5) by blast

theorem mpz_ring_ops_witness:
  "mpz_yields (mpz_add_inpl (mk_mpz True [5]) (mk_mpz True [5]) (mk_mpz False [0, 1])) (mk_mpz True [5]) 65531 \<and>
   mpz_yields (mpz_sub_inpl (mk_mpz True [5]) (mk_mpz True [5]) (mk_mpz False [0, 1])) (mk_mpz True [5]) (- 65541) \<and>
   mpz_yields (mpz_mul_inpl True False (mk_mpz True [5]) (mk_mpz True [5]) (mk_mpz False [0, 1])) (mk_mpz True [5]) (- 327680)"
  using mpz_ring_ops [of "mk_mpz True [5]" "mk_mpz True [5]" "mk_mpz False [0, 1]" True False]
  by (simp add: mpz_eval)

text \<open>
  C13: the bitwise operations are those of two's complement integers of unbounded width, on
  canonical operands; in particular the assertion of \<^verbatim>\<open>mpn_or_neg\<close> does not fire.
\<close>

theorem mpz_bitwise_ops:
  assumes "\<not> fixed_dig dest" "mpz_canon lhs" "mpz_canon rhs" "mpz_len lhs < 2 ^ 32" "mpz_len rhs < 2 ^ 32"
  shows "mpz_yields (mpz_and_inpl dest lhs rhs) dest (mpz_val lhs AND mpz_val rhs) \<and>
    mpz_yields (mpz_or_inpl dest lhs rhs) dest (mpz_val lhs OR mpz_val rhs) \<and>
    mpz_yields (mpz_xor_inpl dest lhs rhs) dest (mpz_val lhs XOR mpz_val rhs)"
  using mpz_and_inpl_yields [OF assms] mpz_or_inpl_yields [OF assms] mpz_xor_inpl_yields [OF assms] by blast

theorem mpz_bitwise_ops_witness:
  "mpz_yields (mpz_and_inpl (mk_mpz False []) (mk_mpz True [12]) (mk_mpz False [10])) (mk_mpz False []) (- 12 AND 10) \<and>
   mpz_yields (mpz_or_inpl (mk_mpz False []) (mk_mpz True [12]) (mk_mpz False [10])) (mk_mpz False []) (- 12 OR 10) \<and>
   mpz_yields (mpz_xor_inpl (mk_mpz False []) (mk_mpz True [12]) (mk_mpz False [10])) (mk_mpz False []) (- 12 XOR 10)"
  using mpz_bitwise_ops [of "mk_mpz False []" "mk_mpz True [12]" "mk_mpz False [10]"]
  by (simp add: mpz_eval)

text \<open>
  Absolute value, negation and complement, in place or into another object.
\<close>

theorem mpz_unary_ops:
  assumes "\<not> fixed_dig dest" "mpz_wf z" "same \<Longrightarrow> dest = z"
  shows "mpz_yields (mpz_abs_inpl same dest z) dest \<bar>mpz_val z\<bar> \<and>
    mpz_yields (mpz_neg_inpl same dest z) dest (- mpz_val z) \<and>
    mpz_yields (mpz_not_inpl same dest z) dest (- mpz_val z - 1)"
  using mpz_abs_inpl_yields [OF assms] mpz_neg_inpl_yields [OF assms] mpz_not_inpl_yields [OF assms]
  by (simp add: not_int_def)

theorem mpz_unary_ops_witness:
  "mpz_yields (mpz_abs_inpl True (mk_mpz True [9]) (mk_mpz True [9])) (mk_mpz True [9]) 9 \<and>
   mpz_yields (mpz_neg_inpl True (mk_mpz True [9]) (mk_mpz True [9])) (mk_mpz True [9]) 9 \<and>
   mpz_yields (mpz_not_inpl True (mk_mpz True [9]) (mk_mpz True [9])) (mk_mpz True [9]) 8"
  using mpz_unary_ops [of "mk_mpz True [9]" "mk_mpz True [9]" True] by (simp add: mpz_eval)

text \<open>
  a left shift multiplies by a power of two, a right shift divides by it rounding to
  minus infinity; the destination of the right shift is another object than its operand.
\<close>

theorem mpz_shift_ops:
  assumes "\<not> fixed_dig dest" "mpz_wf lhs" "rhs < 2 ^ 31"
  shows "mpz_yields (mpz_shl_inpl dest lhs rhs) dest (mpz_val lhs * 2 ^ rhs) \<and>
    mpz_yields (mpz_shr_inpl False dest lhs rhs) dest (mpz_val lhs div 2 ^ rhs)"
  using mpz_shl_inpl_yields [OF assms] mpz_shr_inpl_yields [OF assms(1,2)] by blast

theorem mpz_shift_ops_witness:
  "mpz_yields (mpz_shl_inpl (mk_mpz False []) (mk_mpz True [3]) 17) (mk_mpz False []) (- 393216) \<and>
   mpz_yields (mpz_shr_inpl False (mk_mpz False []) (mk_mpz True [3]) 17) (mk_mpz False []) (- 1)"
  using mpz_shift_ops [of "mk_mpz False []" "mk_mpz True [3]" 17] by (simp add: mpz_eval)

text \<open>
  \<^verbatim>\<open>mpz_cmp\<close> is the order of the integers: its result is the sign of the difference, also
  between zeros of either sign.
\<close>

theorem mpz_cmp_order:
  assumes "mpz_wf x" "mpz_wf y" "mpz_canon x \<and> mpz_canon y \<or> mpz_val x = 0 \<and> mpz_val y = 0"
  shows "mpz_cmp x y = sgn (mpz_val x - mpz_val y)"
proof (cases "mpz_canon x \<and> mpz_canon y")
  case True then show ?thesis by (simp add: mpz_cmp_sgn)
next
  case False
  then have z: "mpz_val x = 0" "mpz_val y = 0" using assms(3) by auto
  then have "mpz_len x = 0" "mpz_len y = 0" using mpz_val_0_iff assms(1,2) by blast+
  then show ?thesis using z by (simp add: mpz_cmp_def)
qed

theorem mpz_cmp_order_witness:
  "mpz_cmp (mk_mpz True [1, 2]) (mk_mpz True [5]) = - 1"
  using mpz_cmp_order [of "mk_mpz True [1, 2]" "mk_mpz True [5]"] by (simp add: mpz_eval)

text \<open>
  \<^verbatim>\<open>mpz_pow_inpl\<close> ends and gives the power, for every base and non-negative exponent
  except zero to the zero.
\<close>

theorem mpz_pow_correct:
  assumes "\<not> fixed_dig dest" "mpz_wf lhs" "mpz_wf rhs" "\<not> neg rhs" "mpz_val lhs \<noteq> 0 \<or> mpz_val rhs \<noteq> 0"
  shows "\<exists>z. mpz_pow_inpl dest lhs rhs = Inr z \<and> mpz_wf z \<and> mpz_val z = mpz_val lhs ^ nat (mpz_val rhs)"
  using mpz_pow_inpl_correct [OF assms] by blast

theorem mpz_pow_correct_witness:
  "\<exists>z. mpz_pow_inpl (mk_mpz False []) (mk_mpz True [3]) (mk_mpz False [5]) = Inr z \<and> mpz_val z = - 243"
  using mpz_pow_correct [of "mk_mpz False []" "mk_mpz True [3]" "mk_mpz False [5]"]
  by (auto simp: mpz_eval)

text \<open>
  \<^verbatim>\<open>mpz_pow3_inpl\<close> ends and gives the power reduced modulo \<open>m\<close>, with the sign of \<open>m\<close>, for a
  positive exponent and operands distinct from the destination.
\<close>

theorem mpz_pow3_correct:
  assumes "\<not> fixed_dig dest" "mpz_wf lhs" "mpz_wf rhs" "mpz_wf m" "mpz_val m \<noteq> 0" "0 < mpz_val rhs"
  shows "\<exists>z. mpz_pow3_inpl False False dest lhs rhs m = Inr z \<and> mpz_wf z \<and>
    mpz_val z = mpz_val lhs ^ nat (mpz_val rhs) mod mpz_val m"
  using mpz_pow3_inpl_correct [OF assms] by blast

theorem mpz_pow3_correct_witness:
  "\<exists>z. mpz_pow3_inpl False False (mk_mpz False []) (mk_mpz False [3]) (mk_mpz False [5]) (mk_mpz True [100]) = Inr z \<and>
    mpz_val z = - 57"
  using mpz_pow3_correct [of "mk_mpz False []" "mk_mpz False [3]" "mk_mpz False [5]" "mk_mpz True [100]"]
  by (auto simp: mpz_eval)

section \<open>Conversions\<close>

text \<open>
  \<^verbatim>\<open>mpz_set_from_str\<close> reads the longest prefix of digits of the base, reports its length and
  gives its value with the requested sign; the buffer it asks for at the start is never
  overrun.
\<close>

theorem mpz_parse_correct:
  assumes "\<not> fixed_dig z" "base \<le> 36" "length str < 2 ^ 29"
  shows "\<exists>z' v n. mpz_set_from_str z str ng base = Inr (z', n) \<and> parse_nat base 0 0 str = (v, n) \<and>
    mpz_wf z' \<and> mpz_val z' = (if ng then - int v else int v)"
  using mpz_set_from_str_correct [OF assms] by (metis prod.collapse)

theorem mpz_parse_correct_witness:
  "\<exists>z'. mpz_set_from_str (mk_mpz False []) [49, 50, 95] True 10 = Inr (z', 2) \<and> mpz_val z' = - 12"
  using mpz_parse_correct [of "mk_mpz False []" 10 "[49, 50, 95]" True] by (auto simp: char_value_def)

text \<open>
  C10: printing then parsing gives the number back, in every base from 2 to 32, with either
  letter case and no prefix or commas: the string is a sign and digits, and
  \<^verbatim>\<open>mpz_set_from_str\<close> reads all the digits.
\<close>

theorem mpz_str_roundtrip:
  assumes "mpz_wf z" "2 \<le> base" "base \<le> 32" "bc = 65 \<or> bc = 97" "\<not> fixed_dig w" "mpz_len z < 2 ^ 24"
  shows "\<exists>ds w'. mpz_as_str_inpl z base None bc 0 = Inr ((if mpz_is_neg z then [45] else []) @ ds) \<and>
    mpz_set_from_str w ds (neg z) base = Inr (w', length ds) \<and> mpz_wf w' \<and> mpz_val w' = mpz_val z"
proof -
  have "\<exists>ds. mpz_as_str_inpl z base None bc 0 = Inr ((if mpz_is_neg z then [45] else []) @ ds) \<and>
      parse_nat base 0 0 ds = (dval (dig z), length ds) \<and> length ds < 2 ^ 29"
  proof (cases "mpz_len z = 0")
    case True
    then show ?thesis using assms(2,3)
      by (auto simp: mpz_as_str_inpl_def mpz_is_neg_def char_value_def mpz_len_def)
  next
    case False
    let ?vs = "nat_digits base (dval (dig z))"
    have "parse_nat base 0 0 (map (as_str_char bc) (rev ?vs)) = (foldl (\<lambda>a v. base * a + v) 0 (rev ?vs), length ?vs)"
      using parse_nat_chars [of "rev ?vs" base bc 0 0] nat_digits_less [OF assms(2), of "dval (dig z)"] assms(3,4)
      by simp
    also have "foldl (\<lambda>a v. base * a + v) 0 (rev ?vs) = dval (dig z)"
      using nat_digits_value [OF assms(2), of "dval (dig z)"] by (simp add: foldl_conv_foldr)
    finally have p: "parse_nat base 0 0 (map (as_str_char bc) (rev ?vs)) = (dval (dig z), length ?vs)" .
    have "dval (dig z) < 2 ^ (DIG_SIZE * mpz_len z)" using fuel_enough [OF assms(1)] .
    from nat_digits_length [OF assms(2) this, of 1] have "length ?vs < 2 ^ 29"
      using assms(2,6) by (simp add: DIG_SIZE_def)
    then show ?thesis using p False mpz_as_str_inpl_eq [OF assms(1-3) False, of None bc 0]
      by (intro exI [of _ "map (as_str_char bc) (rev ?vs)"]) (auto simp: fold_push_no_comma mpz_is_neg_def rev_map)
  qed
  then obtain ds where ds: "mpz_as_str_inpl z base None bc 0 = Inr ((if mpz_is_neg z then [45] else []) @ ds)"
    "parse_nat base 0 0 ds = (dval (dig z), length ds)" "length ds < 2 ^ 29" by blast
  then show ?thesis using ds mpz_set_from_str_correct [OF assms(5), of base ds "neg z"] assms(3)
    by (auto simp: mpz_val_def sval_def)
qed

theorem mpz_str_roundtrip_witness:
  "\<exists>ds w'. mpz_as_str_inpl (mk_mpz True [0, 1]) 16 None 97 0 = Inr (45 # ds) \<and>
    mpz_set_from_str (mk_mpz False []) ds True 16 = Inr (w', length ds) \<and> mpz_val w' = - 65536"
  using mpz_str_roundtrip [of "mk_mpz True [0, 1]" 16 97 "mk_mpz False []"]
  by (auto simp: mpz_eval mpz_is_neg_def)

text \<open>
  C20: the string \<^verbatim>\<open>mpz_as_str_inpl\<close> writes, with prefix, commas, sign and terminator, fits the
  size that \<^verbatim>\<open>mp_int_format_size\<close> computes from the number of bits, for the bases 2 to 16 that
  it accepts. The number has less than \<open>2 ^ 27\<close> digits and the prefix less than \<open>2 ^ 30\<close> characters, so that the
  size does not wrap; lemma \<open>format_size_wraps\<close> has a length for which it does.
\<close>

theorem mpz_str_fits:
  assumes "mpz_wf z" "2 \<le> base" "base \<le> 16" "mpz_len z < 2 ^ 27" "pred_option (\<lambda>p. length p < 2 ^ 30) prefix"
  shows "\<exists>s size. mpz_as_str_inpl z base prefix bc comma = Inr s \<and>
    mp_int_format_size (mpz_max_num_bits z) base prefix comma = Inr size \<and> length s + 1 \<le> size"
proof -
  let ?l = "log_base2_floor ! (base - 1)" and ?p = "case prefix of None \<Rightarrow> 0 | Some p \<Rightarrow> length p"
  have bits: "mpz_max_num_bits z = DIG_SIZE * mpz_len z"
    using assms(4) by (simp add: mpz_max_num_bits_def u32_id DIG_SIZE_def)
  let ?n = "DIG_SIZE * mpz_len z div ?l + 1"
  have size: "mp_int_format_size (mpz_max_num_bits z) base prefix comma =
      Inr (?n + (if comma \<noteq> 0 then ?n div 3 else 0) + ?p + 2)"
  proof -
    have "?n \<le> DIG_SIZE * mpz_len z + 1" by (simp add: div_le_dividend)
    also have "\<dots> \<le> 2 ^ 31" using assms(4) by (simp add: DIG_SIZE_def)
    finally have n: "?n \<le> 2 ^ 31" .
    moreover have "?p < 2 ^ 30" using assms(5) by (cases prefix) auto
    moreover have "n + (if comma \<noteq> 0 then n div 3 else 0) + p + 2 < 2 ^ 32" if "n \<le> 2 ^ 31" "p < 2 ^ 30" for n p :: nat
      using that less_mult_imp_div_less [of n "2 ^ 30 - 100" 3] by simp
    ultimately have "u32 (?n + (if comma \<noteq> 0 then ?n div 3 else 0) + ?p + 2) = ?n + (if comma \<noteq> 0 then ?n div 3 else 0) + ?p + 2"
      by (intro u32_id) blast
    moreover have "u32 ?n = ?n" using n by (intro u32_id) simp
    ultimately show ?thesis using assms(2,3) unfolding mp_int_format_size_def bits Let_def by presburger
  qed
  show ?thesis
  proof (cases "mpz_len z = 0")
    case True
    then show ?thesis using size assms(2,3) by (auto simp: mpz_as_str_inpl_def split: option.splits)
  next
    case False
    let ?vs = "nat_digits base (dval (dig z))"
    have "length ?vs \<le> ?n"
      using nat_digits_length [OF assms(2) fuel_enough [OF assms(1)]] log_base2_floor_pow [OF assms(2,3)] .
    then have "length ?vs div 3 \<le> ?n div 3" "length ?vs \<le> ?n" by (simp_all add: div_le_mono)
    then show ?thesis using size mpz_as_str_inpl_eq [OF assms(1,2) _ False, of prefix bc comma] assms(3)
      by (auto simp: fold_push_length split: option.splits)
  qed
qed

theorem mpz_str_fits_witness:
  "\<exists>s size. mpz_as_str_inpl (mk_mpz True [0, 1]) 10 (Some [48, 98]) 97 44 = Inr s \<and>
    mp_int_format_size (mpz_max_num_bits (mk_mpz True [0, 1])) 10 (Some [48, 98]) 44 = Inr size \<and> length s + 1 \<le> size"
  using mpz_str_fits [of "mk_mpz True [0, 1]" 10 "Some [48, 98]"] by (simp add: mpz_eval)

lemma format_size_wraps: "mp_int_format_size (DIG_SIZE * (3 * 2 ^ 26)) 2 None 44 = Inr 3"
  by (simp add: mp_int_format_size_def log_base2_floor_def DIG_SIZE_def u32_def Let_def)

text \<open>
  C21: \<^verbatim>\<open>mpz_as_bytes\<close> writes exactly \<open>len\<close> bytes, the two's complement of the number truncated to
  them, in either byte order, when there is a byte to write to; \<^verbatim>\<open>mpz_set_from_bytes\<close> reads them
  back as the number modulo \<open>256 ^ len\<close>.
\<close>

theorem mpz_bytes_roundtrip:
  assumes "mpz_canon z" "0 < len \<or> mpz_len z = 0" "len < 2 ^ 28" "\<not> fixed_dig w"
  shows "\<exists>bs. mpz_as_bytes z big len = Inr bs \<and> length bs = len \<and>
    mpz_yields (mpz_set_from_bytes w big bs) w (mpz_val z mod 256 ^ len)"
  using mpz_as_bytes_correct [OF assms(1,2), of big] mpz_set_from_bytes_yields [OF assms(4), of _ big] assms(3)
  by fastforce

theorem mpz_bytes_roundtrip_witness:
  "\<exists>bs. mpz_as_bytes (mk_mpz True [2]) True 3 = Inr bs \<and> length bs = 3 \<and>
    mpz_yields (mpz_set_from_bytes (mk_mpz False []) True bs) (mk_mpz False []) 16777214"
  using mpz_bytes_roundtrip [of "mk_mpz True [2]" 3 "mk_mpz False []" True] by (simp add: mpz_eval)

text \<open>
  the conversions to machine integers: \<^verbatim>\<open>mpz_as_int_checked\<close> succeeds exactly below \<open>2 ^ 31\<close>
  in magnitude (so not on \<open>- 2 ^ 31\<close>), \<^verbatim>\<open>mpz_as_uint_checked\<close> exactly on unsigned 32-bit values
  with the sign bit clear, and the hash of a number that fits is the number itself.
\<close>

theorem mpz_machine_ints:
  assumes "mpz_wf z"
  shows "mpz_as_int_checked z = (if \<bar>mpz_val z\<bar> < 2 ^ 31 then Some (mpz_val z) else None) \<and>
    mpz_as_uint_checked z = (if neg z \<or> mpz_val z \<ge> 2 ^ 32 then None else Some (nat (mpz_val z))) \<and>
    (- (2 ^ 31) \<le> mpz_val z \<and> mpz_val z < 2 ^ 31 \<longrightarrow> mpz_hash z = mpz_val z)"
  using mpz_as_int_checked_correct [OF assms] mpz_as_uint_checked_correct [OF assms] mpz_hash_correct [OF assms]
  by (simp add: s32_id)

theorem mpz_machine_ints_witness:
  "mpz_as_int_checked (mk_mpz True [0, 32768]) = None \<and> mpz_as_uint_checked (mk_mpz False [1, 32768]) = Some 2147483649 \<and>
   mpz_hash (mk_mpz True [0, 32768]) = - 2147483648"
  using mpz_machine_ints [of "mk_mpz True [0, 32768]"] mpz_machine_ints [of "mk_mpz False [1, 32768]"]
  by (simp add: mpz_eval)

text \<open>
  A machine integer stored by \<^verbatim>\<open>mpz_set_from_int\<close> is read back by \<^verbatim>\<open>mpz_as_int_checked\<close>,
  except for the least one, also through a two-digit buffer supplied by the caller.
\<close>

theorem mpz_int_roundtrip:
  assumes "- (2 ^ 31) < val" "val < 2 ^ 31"
  shows "\<exists>z. mpz_init_fixed_from_int MPZ_NUM_DIG_FOR_INT val = Inr z \<and> mpz_as_int_checked z = Some val"
proof -
  let ?z = "\<lparr>neg = False, fixed_dig = True, alloc = MPZ_NUM_DIG_FOR_INT, dig = []\<rparr>"
  from mpz_set_from_int_yields [of ?z val] assms
  obtain z where "mpz_init_fixed_from_int MPZ_NUM_DIG_FOR_INT val = Inr z" "mpz_wf z" "mpz_val z = val"
    by (auto simp: mpz_init_fixed_from_int_def elim!: mpz_yieldsE)
  then show ?thesis using mpz_as_int_checked_correct [of z] assms by simp
qed

theorem mpz_int_roundtrip_witness:
  "\<exists>z. mpz_init_fixed_from_int MPZ_NUM_DIG_FOR_INT (- 70000) = Inr z \<and> mpz_as_int_checked z = Some (- 70000)"
  using mpz_int_roundtrip [of "- 70000"] by simp

section \<open>Behaviours at odds with the documentation\<close>

text \<open>
  The comment of \<^verbatim>\<open>mpz_divmod_inpl\<close> promises a remainder from zero up to the divisor: with \<open>- 7\<close> and \<open>- 3\<close> it is \<open>- 1\<close>.
\<close>

lemma mpz_divmod_negative_remainder:
  "\<exists>quo rem. mpz_divmod_inpl mpz_init_zero mpz_init_zero (mk_mpz True [7]) (mk_mpz True [3]) = Inr (quo, rem) \<and>
    mpz_val quo = 2 \<and> mpz_val rem = - 1"
  using mpz_divmod_inpl_correct [of mpz_init_zero mpz_init_zero "mk_mpz True [7]" "mk_mpz True [3]"]
  by (fastforce simp: mpz_init_zero_def mpz_eval)

text \<open>
  \<^verbatim>\<open>mpz_shr_inpl\<close> is documented to allow its destination as operand, but then rounds by the
  shifted digits: in place, \<open>-2 >> 1\<close> is \<open>-2\<close>.
\<close>

lemma mpz_shr_in_place_wrong:
  "\<exists>z. mpz_shr_inpl True (mk_mpz True [2]) (mk_mpz True [2]) 1 = Inr z \<and> mpz_val z = - 2"
  by (simp add: mpz_shr_inpl_def mk_mpz_def mpz_len_def mpz_need_dig_def put_dig_def MIN_ALLOC_def Let_def
      mpn_shr_def mpn_add_def shr_round_up_def DIG_SIZE_def DIG_BASE_def mpz_val_def u32_def)

text \<open>
  \<^verbatim>\<open>mpz_pow3_inpl\<close> is documented to allow its destination as base, but overwrites it first: in
  place, \<open>3 ** 2 % 100\<close> is 1. Zero to the zero modulo 5 is 0, and \<open>2 ** 0 % -5\<close> is 1.
\<close>

lemma mpz_pow3_zero_exponent:
  "mpz_pow3_inpl False False dest (mk_mpz False []) (mk_mpz False []) m = Inr (dest\<lparr>dig := []\<rparr>)"
  "\<exists>z. mpz_pow3_inpl False False mpz_init_zero (mk_mpz False [2]) (mk_mpz False []) (mk_mpz True [5]) = Inr z \<and>
    mpz_val z = 1"
proof -
  show "mpz_pow3_inpl False False dest (mk_mpz False []) (mk_mpz False []) m = Inr (dest\<lparr>dig := []\<rparr>)"
    by (simp add: mpz_pow3_inpl_def mpz_set_from_int_def)
  obtain z where "mpz_set_from_int mpz_init_zero 1 = Inr z" "mpz_val z = 1"
    using mpz_set_from_int_yields [of mpz_init_zero 1] by (auto simp: mpz_init_zero_def elim!: mpz_yieldsE)
  then show "\<exists>z. mpz_pow3_inpl False False mpz_init_zero (mk_mpz False [2]) (mk_mpz False []) (mk_mpz True [5]) = Inr z \<and>
    mpz_val z = 1" by (simp add: mpz_pow3_inpl_def Let_def)
qed

text \<open>With a comma and a digit count divisible by three, the string starts with a comma: \<open>,123\<close>.\<close>

lemma mpz_as_str_leading_comma: "mpz_as_str_inpl (mk_mpz False [123]) 10 None 97 44 = Inr [44, 49, 50, 51]"
proof -
  have "nat_digits 10 123 = [3, 2, 1]" by (simp add: nat_digits.simps)
  then show ?thesis
    using mpz_as_str_inpl_eq [of "mk_mpz False [123]" 10 None 97 44]
    by (simp add: mpz_eval as_str_push_def as_str_char_def)
qed

text \<open>No byte to write to: the first byte of a non-zero number is written outside the buffer.\<close>

lemma mpz_as_bytes_empty_overrun: "mpz_as_bytes (mk_mpz False [1]) big 0 = Inl BufferOverrun"
  by (simp add: mpz_as_bytes_def as_bytes_digit.simps DIG_SIZE_def)

text \<open>
  A difference of equal numbers can be a negative zero, which \<^verbatim>\<open>mpz_and_inpl\<close> takes for a
  negative number: \<open>-5 & -0\<close> gives \<open>-65536\<close>.
\<close>

lemma mpz_negative_zero:
  "\<exists>z. mpz_sub_inpl mpz_init_zero (mk_mpz True [5]) (mk_mpz True [5]) = Inr z \<and> neg z \<and> mpz_val z = 0"
  "\<exists>z. mpz_and_inpl mpz_init_zero (mk_mpz True [5]) (mk_mpz True []) = Inr z \<and> mpz_val z = - 65536"
proof -
  show "\<exists>z. mpz_sub_inpl mpz_init_zero (mk_mpz True [5]) (mk_mpz True [5]) = Inr z \<and> neg z \<and> mpz_val z = 0"
    by (simp add: mpz_sub_inpl_def mpz_need_dig_def put_dig_def mpn_cmp_def mpn_sub_def mpz_init_zero_def
        MIN_ALLOC_def s32_def Let_def mpz_val_def DIG_BASE_num)
  show "\<exists>z. mpz_and_inpl mpz_init_zero (mk_mpz True [5]) (mk_mpz True []) = Inr z \<and> mpz_val z = - 65536"
    by (simp add: mpz_and_inpl_def mpz_need_dig_def put_dig_def mpn_and_neg_def mpz_init_zero_def
        MIN_ALLOC_def Let_def mpz_val_def DIG_MASK_def DIG_BASE_num u32_def u16_def dec32_def)
qed

end
