(* ===== verification/Signed_Div.thy ===== *)
theory Signed_Div
  imports Prelude "HOL-Library.Signed_Division"
begin

text \<open>
  Division of signed integers as in C, rounding towards zero, and the corrections the code applies to get
  the quotient and the remainder of Python, which round to minus infinity.
\<close>

lemma floor_correction:
  assumes "0 < (b :: int)"
  shows "(if a smod b < 0 then (a sdiv b - 1, a smod b + b) else (a sdiv b, a smod b)) = (a div b, a mod b)"
proof (cases "0 \<le> a")
  case True
  then have "a sdiv b = a div b" "a smod b = a mod b"
    using assms by (simp_all add: signed_divide_int_def signed_modulo_int_def sgn_if)
  then show ?thesis using pos_mod_sign [OF assms, of a] by simp
next
  case False
  define q r where "q = (- a) div b" and "r = (- a) mod b"
  have qr: "- a = q * b + r" "0 \<le> r" "r < b" using assms by (simp_all add: q_def r_def)
  have s: "a sdiv b = - q" using False assms by (simp add: signed_divide_int_def sgn_if q_def abs_if)
  have m: "a smod b = - r" using False assms by (simp add: signed_modulo_int_def sgn_if r_def abs_if)
  show ?thesis
  proof (cases "r = 0")
    case True
    then have "a = b * (- q) + 0" "0 \<le> (0 :: int)" "0 < b" using qr(1) assms by (simp_all add: algebra_simps)
    then have "a div b = - q" "a mod b = 0" by (rule int_div_pos_eq, rule int_mod_pos_eq)
    then show ?thesis using s m True by simp
  next
    case False
    have "a = b * (- q - 1) + (b - r)" "0 \<le> b - r" "b - r < b" using qr False by (simp_all add: algebra_simps)
    then have "a div b = - q - 1" "a mod b = b - r" by (rule int_div_pos_eq, rule int_mod_pos_eq)
    then show ?thesis using s m qr False by simp
  qed
qed

lemma sdiv_nonneg: "0 \<le> a \<Longrightarrow> 0 < b \<Longrightarrow> a sdiv b = a div b" "0 \<le> a \<Longrightarrow> 0 < b \<Longrightarrow> a smod b = a mod b"
  for a b :: int
  by (simp_all add: signed_divide_int_def signed_modulo_int_def sgn_if)

lemma floor_cases:
  fixes a b :: int
  assumes "0 < b"
  shows "a smod b < 0 \<Longrightarrow> a sdiv b = a div b + 1 \<and> a smod b + b = a mod b"
    "\<not> a smod b < 0 \<Longrightarrow> a sdiv b = a div b \<and> a smod b = a mod b"
  using floor_correction [OF assms, of a] by (auto split: if_splits)

lemma div_ceil: "0 < k \<Longrightarrow> (n + (k - 1)) div k = n div k + (if k dvd n then 0 else 1)"
  for n k :: int
proof -
  assume k: "0 < k"
  define q r where "q = n div k" and "r = n mod k"
  have n: "n = k * q + r" "0 \<le> r" "r < k" using k by (simp_all add: q_def r_def)
  show ?thesis
  proof (cases "r = 0")
    case True
    then have "k dvd n" using n by simp
    moreover have "(n + (k - 1)) div k = q" by (rule int_div_pos_eq [of _ _ _ "k - 1"]) (use n True k in simp_all)
    ultimately show ?thesis by (simp add: q_def)
  next
    case False
    then have "\<not> k dvd n" by (simp add: r_def dvd_eq_mod_eq_0)
    moreover have "(n + (k - 1)) div k = q + 1" by (rule int_div_pos_eq [of _ _ _ "r - 1"]) (use n False in \<open>simp_all add: algebra_simps\<close>)
    ultimately show ?thesis by (simp add: q_def)
  qed
qed

end
