(* ===== verification/Small_Int.thy ===== *)
theory Small_Int
  imports Signed_Div
begin

text \<open>
  Small integers, \<^verbatim>\<open>py/smallint.c\<close> and \<^verbatim>\<open>py/smallint.h\<close>: the 31-bit numbers that fit into an object word, the test for
  overflow of a product, and division with the conventions of Python.
\<close>

definition MP_SMALL_INT_MIN :: int where "MP_SMALL_INT_MIN = - (2 ^ 31) div 2"
definition MP_SMALL_INT_MAX :: int where "MP_SMALL_INT_MAX = NOT MP_SMALL_INT_MIN"

definition MP_SMALL_INT_FITS :: "int \<Rightarrow> bool" where
  "MP_SMALL_INT_FITS n \<longleftrightarrow> (n XOR push_bit 1 n) AND 2 ^ 31 = 0"

definition MP_SMALL_INT_POSITIVE_MASK :: int where
  "MP_SMALL_INT_POSITIVE_MASK = (NOT (2 ^ 31 OR 2 ^ 30)) mod 2 ^ 32"

definition mp_small_int_mul_overflow :: "int \<Rightarrow> int \<Rightarrow> bool" where
  "mp_small_int_mul_overflow x y =
     (if x > 0
      then if y > 0 then x > MP_SMALL_INT_MAX sdiv y else y < MP_SMALL_INT_MIN sdiv x
      else if y > 0 then x < MP_SMALL_INT_MIN sdiv y else x \<noteq> 0 \<and> y < MP_SMALL_INT_MAX sdiv x)"

definition mp_small_int_modulo :: "int \<Rightarrow> int \<Rightarrow> int" where
  "mp_small_int_modulo dividend divisor =
     (let dividend = dividend smod divisor
      in if (dividend < 0 \<and> divisor > 0) \<or> (dividend > 0 \<and> divisor < 0) then s32 (dividend + divisor) else dividend)"

definition mp_small_int_floor_divide :: "int \<Rightarrow> int \<Rightarrow> int" where
  "mp_small_int_floor_divide num denom =
     (let num = (if num \<ge> 0 then if denom < 0 then s32 (num + (- denom - 1)) else num
                 else if denom \<ge> 0 then s32 (num + (- denom + 1)) else num)
      in s32 (num sdiv denom))"

section \<open>Range\<close>

definition small :: "int \<Rightarrow> bool" where
  "small n \<longleftrightarrow> - (2 ^ 30) \<le> n \<and> n < 2 ^ 30"

lemma small_bounds: "MP_SMALL_INT_MIN = - (2 ^ 30)" "MP_SMALL_INT_MAX = 2 ^ 30 - 1" "MP_SMALL_INT_POSITIVE_MASK = 2 ^ 30 - 1"
  by (simp_all add: MP_SMALL_INT_MIN_def MP_SMALL_INT_MAX_def not_int_def MP_SMALL_INT_POSITIVE_MASK_def)

lemma small_fits:
  assumes "- (2 ^ 31) \<le> n" "n < 2 ^ 31"
  shows "MP_SMALL_INT_FITS n \<longleftrightarrow> small n"
proof -
  have "MP_SMALL_INT_FITS n \<longleftrightarrow> \<not> bit (n XOR push_bit 1 n) 31"
    unfolding MP_SMALL_INT_FITS_def by (rule and_exp_eq_0_iff_not_bit)
  also have "\<dots> \<longleftrightarrow> odd (n div 2 ^ 31) = odd (n div 2 ^ 30)"
    unfolding bit_xor_iff bit_push_bit_iff_int bit_iff_odd [of n] by simp
  also have "\<dots> \<longleftrightarrow> small n"
  proof -
    consider "n < - (2 ^ 30)" | "- (2 ^ 30) \<le> n" "n < 0" | "0 \<le> n" "n < 2 ^ 30" | "2 ^ 30 \<le> n" by linarith
    then show ?thesis
    proof cases
      case 1
      then have "n div 2 ^ 31 = - 1" "n div 2 ^ 30 = - 2" using assms by simp_all
      then show ?thesis using 1 by (simp add: small_def)
    next
      case 2
      then have "n div 2 ^ 31 = - 1" "n div 2 ^ 30 = - 1" using assms by simp_all
      then show ?thesis using 2 by (simp add: small_def)
    next
      case 3
      then have "n div 2 ^ 31 = 0" "n div 2 ^ 30 = 0" using assms by simp_all
      then show ?thesis using 3 by (simp add: small_def)
    next
      case 4
      then have "n div 2 ^ 31 = 0" "n div 2 ^ 30 = 1" using assms by simp_all
      then show ?thesis using 4 by (simp add: small_def)
    qed
  qed
  finally show ?thesis .
qed

section \<open>Products\<close>

lemma sdiv_signs:
  "0 < b \<Longrightarrow> 0 \<le> a \<Longrightarrow> (- a) sdiv b = - (a div b)" "0 < b \<Longrightarrow> 0 \<le> a \<Longrightarrow> a sdiv (- b) = - (a div b)"
  "0 < b \<Longrightarrow> 0 \<le> a \<Longrightarrow> (- a) sdiv (- b) = a div b" for a b :: int
  by (auto simp: signed_divide_int_def sgn_if)

lemma div_less_iff_int:
  fixes a b x :: int
  assumes b: "0 < b"
  shows "a div b < x \<longleftrightarrow> a < x * b"
proof
  show "a < x * b" if "a div b < x"
  proof -
    have "a < (a div b + 1) * b" 
      using b pos_mod_bound [of b a] div_mult_mod_eq [of a b] distrib_right [of "a div b" 1 b] by linarith
    also have "\<dots> \<le> x * b" using b that by (intro mult_right_mono) simp_all
    finally show ?thesis .
  qed
  show "a div b < x" if "a < x * b"
  proof (rule ccontr)
    assume "\<not> a div b < x"
    then have "x * b \<le> a div b * b" using b by (intro mult_right_mono) simp_all
    also have "\<dots> \<le> a" using b pos_mod_sign [of b a] div_mult_mod_eq [of a b] by linarith
    finally show False using that by simp
  qed
qed

lemma mul_overflow_exact: "mp_small_int_mul_overflow x y \<longleftrightarrow> \<not> small (x * y)"
proof -
  consider "0 < x" "0 < y" | "0 < x" "y \<le> 0" | "x \<le> 0" "0 < y" | "x = 0" | "x < 0" "y \<le> 0" by linarith
  then show ?thesis
  proof cases
    case 1
    moreover have "small (x * y) \<longleftrightarrow> x * y < 2 ^ 30" using mult_pos_pos [OF 1] unfolding small_def by linarith
    moreover have "MP_SMALL_INT_MAX sdiv y < x \<longleftrightarrow> 2 ^ 30 - 1 < x * y"
      using 1 div_less_iff_int [of y "2 ^ 30 - 1" x] by (simp add: small_bounds sdiv_nonneg)
    ultimately show ?thesis by (auto simp: mp_small_int_mul_overflow_def)
  next
    case 2
    have "x * y \<le> 0" using 2 by (simp add: mult_nonneg_nonpos)
    moreover have "y < MP_SMALL_INT_MIN sdiv x \<longleftrightarrow> 2 ^ 30 < - y * x"
      using 2 sdiv_signs(1) [of x "2 ^ 30"] div_less_iff_int [of x "2 ^ 30" "- y"] by (auto simp: small_bounds)
    ultimately show ?thesis using 2 by (auto simp: mp_small_int_mul_overflow_def small_def mult.commute)
  next
    case 3
    have "x * y \<le> 0" using 3 by (simp add: mult_nonpos_nonneg)
    moreover have "x < MP_SMALL_INT_MIN sdiv y \<longleftrightarrow> 2 ^ 30 < - x * y"
      using 3 sdiv_signs(1) [of y "2 ^ 30"] div_less_iff_int [of y "2 ^ 30" "- x"] by (auto simp: small_bounds)
    ultimately show ?thesis using 3 by (auto simp: mp_small_int_mul_overflow_def small_def)
  next
    case 4
    then show ?thesis by (simp add: mp_small_int_mul_overflow_def small_bounds small_def signed_divide_int_def sgn_if not_less pos_imp_zdiv_nonneg_iff)
  next
    case 5
    have "0 \<le> x * y" using 5 by (simp add: mult_nonpos_nonpos)
    moreover have "y < MP_SMALL_INT_MAX sdiv x \<longleftrightarrow> 2 ^ 30 - 1 < - y * - x"
      using 5 sdiv_signs(2) [of "- x" "2 ^ 30 - 1"] div_less_iff_int [of "- x" "2 ^ 30 - 1" "- y"] by (auto simp: small_bounds)
    ultimately show ?thesis using 5 by (auto simp: mp_small_int_mul_overflow_def small_def mult.commute)
  qed
qed

section \<open>Division\<close>

lemma small_div_bounds:
  assumes "small a" "small b" "b \<noteq> 0"
  shows "- (2 ^ 30) \<le> a div b" "a div b \<le> 2 ^ 30"
proof -
  have *: "- (2 ^ 30) \<le> c div d \<and> c div d \<le> 2 ^ 30" if "0 < d" "- (2 ^ 30) \<le> c" "c \<le> 2 ^ 30" for c d :: int
  proof -
    have "2 ^ 30 + 1 \<le> (2 ^ 30 + 1) * d" "- (2 ^ 30) * d \<le> - (2 ^ 30)" using that(1) by simp_all
    then show ?thesis using div_less_iff_int [OF that(1), of c "2 ^ 30 + 1"] div_less_iff_int [OF that(1), of c "- (2 ^ 30)"] that(2,3)
      by linarith
  qed
  have "- (2 ^ 30) \<le> a div b \<and> a div b \<le> 2 ^ 30"
  proof (cases "0 < b")
    case True
    then show ?thesis using * [of b a] assms(1) by (simp add: small_def)
  next
    case False
    then show ?thesis using * [of "- b" "- a"] assms by (simp add: small_def)
  qed
  then show "- (2 ^ 30) \<le> a div b" "a div b \<le> 2 ^ 30" by simp_all
qed

lemma small_modulo:
  assumes "small a" "small b" "b \<noteq> 0"
  shows "mp_small_int_modulo a b = a mod b"
proof -
  consider "0 < b" | "b < 0" using assms(3) by linarith
  then show ?thesis
  proof cases
    case 1
    have "a mod b < 2 ^ 30" using pos_mod_bound [OF 1, of a] assms by (simp add: small_def)
    then have "s32 (a mod b) = a mod b" using pos_mod_sign [OF 1, of a] by (intro s32_id) simp_all
    then show ?thesis using floor_cases [OF 1, of a] 1 by (auto simp: mp_small_int_modulo_def Let_def)
  next
    case 2
    define m where "m = (- a) smod (- b)"
    have n: "a smod b = - m" "(- a) mod (- b) = - (a mod b)" by (simp_all add: m_def signed_modulo_int_def sgn_if mod_minus_minus)
    have f: "m < 0 \<Longrightarrow> - m + b = a mod b" "\<not> m < 0 \<Longrightarrow> - m = a mod b"
      using floor_cases [of "- b" "- a", folded m_def] 2 unfolding n(2) by auto
    have "- (2 ^ 30) \<le> a mod b" "a mod b \<le> 0" 
      using 2 neg_mod_bound [of b a] neg_mod_sign [of b a] assms(2) unfolding small_def by linarith+
    then have "s32 (a mod b) = a mod b" by (simp add: s32_id)
    then show ?thesis using f 2 unfolding mp_small_int_modulo_def n(1) Let_def by (cases "m < 0") auto
  qed
qed

lemma small_floor_divide:
  assumes "small a" "small b" "b \<noteq> 0"
  shows "mp_small_int_floor_divide a b = a div b"
proof -
  have r: "s32 (a div b) = a div b" using small_div_bounds [OF assms] by (simp add: s32_id)
  have ceil: "- ((c + (d - 1)) div d) = (- c) div d" if "0 < d" for c d :: int
    using div_ceil [OF that, of c] that by (auto simp: zdiv_zminus1_eq_if dvd_eq_mod_eq_0)
  have w: "s32 (a + (- b - 1)) = a + (- b - 1)" "a < 0 \<Longrightarrow> s32 (a + (- b + 1)) = a + (- b + 1)"
    using assms by (auto simp: small_def intro!: s32_id)
  consider "0 \<le> a" "0 < b" | "0 \<le> a" "b < 0" | "a < 0" "0 < b" | "a < 0" "b < 0" using assms(3) by linarith
  then show ?thesis
  proof cases
    case 1
    then show ?thesis using r by (simp add: mp_small_int_floor_divide_def sdiv_nonneg)
  next
    case 2
    then have "(a + (- b - 1)) sdiv b = a div b"
      using sdiv_signs(2) [of "- b" "a + (- b - 1)"] ceil [of "- b" a] by simp
    then show ?thesis using 2 r w by (simp add: mp_small_int_floor_divide_def)
  next
    case 3
    have eq: "a + (- b + 1) = - (- a + (b - 1))" by simp
    have "(a + (- b + 1)) sdiv b = a div b"
      unfolding eq using 3 sdiv_signs(1) [of b "- a + (b - 1)"] ceil [of b "- a"] by simp
    then show ?thesis using 3 r w by (simp add: mp_small_int_floor_divide_def)
  next
    case 4
    then have "a sdiv b = a div b" using sdiv_signs(3) [of "- b" "- a"] by simp
    then show ?thesis using 4 r by (simp add: mp_small_int_floor_divide_def)
  qed
qed

end
