(* ===== verification/Mp_Int.thy ===== *)
theory Mp_Int
  imports Small_Int Mpz_Pow Mpz_Conv
begin

text \<open>
  The integers of the language: \<^verbatim>\<open>py/objint_mpz.c\<close> and the integer cases of \<^verbatim>\<open>mp_unary_op\<close> and \<^verbatim>\<open>mp_binary_op\<close> in
  \<^verbatim>\<open>py/runtime.c\<close>. A number is a small integer in the object word or an object with an \<^verbatim>\<open>mpz_t\<close>; the operations on small
  integers overflow into the second form.
\<close>

section \<open>Objects and errors\<close>

datatype mp_int_obj = IntSmall int | IntLong mpz

datatype int_error =
    ZeroDivisionError
  | NegativeShift
  | OverflowError
  | TypeError
  | AssertArith       \<comment> \<open>\<^verbatim>\<open>assert(op == MP_BINARY_OP_DIVMOD)\<close>\<close>
  | AssertUnary       \<comment> \<open>\<^verbatim>\<open>assert(op == MP_UNARY_OP_INVERT)\<close>\<close>
  | MpzError mpz_error

text \<open>The operators, in the groups of \<^verbatim>\<open>py/runtime0.h\<close>.\<close>

datatype mp_arith_op_t =
    OP_OR | OP_XOR | OP_AND | OP_LSHIFT | OP_RSHIFT | OP_ADD | OP_SUBTRACT | OP_MULTIPLY | OP_MAT_MULTIPLY
  | OP_FLOOR_DIVIDE | OP_TRUE_DIVIDE | OP_MODULO | OP_POWER

datatype mp_binary_op_t =
    MP_BINARY_OP_LESS | MP_BINARY_OP_MORE | MP_BINARY_OP_EQUAL | MP_BINARY_OP_LESS_EQUAL | MP_BINARY_OP_MORE_EQUAL
  | MP_BINARY_OP_NOT_EQUAL | MP_BINARY_OP_IN | MP_BINARY_OP_IS | MP_BINARY_OP_EXCEPTION_MATCH
  | MP_BINARY_OP_INPLACE mp_arith_op_t
  | MP_BINARY_OP_ARITH mp_arith_op_t
  | MP_BINARY_OP_DIVMOD
  | MP_BINARY_OP_CONTAINS

datatype mp_unary_op_t =
    MP_UNARY_OP_POSITIVE | MP_UNARY_OP_NEGATIVE | MP_UNARY_OP_INVERT | MP_UNARY_OP_NOT | MP_UNARY_OP_BOOL
  | MP_UNARY_OP_LEN | MP_UNARY_OP_HASH | MP_UNARY_OP_ABS | MP_UNARY_OP_INT | MP_UNARY_OP_SIZEOF

text \<open>What an operator returns; \<open>ResNull\<close> is \<^verbatim>\<open>MP_OBJ_NULL\<close>, an operation that is not supported.\<close>

datatype 'f op_result =
    ResInt mp_int_obj
  | ResBool bool
  | ResTuple mp_int_obj mp_int_obj
  | ResFloat 'f
  | ResNull

definition lift_mpz :: "mpz_error + 'a \<Rightarrow> int_error + 'a" where
  "lift_mpz r = (case r of Inl e \<Rightarrow> Inl (MpzError e) | Inr x \<Rightarrow> Inr x)"

definition long_result :: "mpz_error + mpz \<Rightarrow> int_error + 'f op_result" where
  "long_result r = res_bind (lift_mpz r) (\<lambda>z. Inr (ResInt (IntLong z)))"

section \<open>Construction and conversion\<close>

definition MP_OBJ_NEW_SMALL_INT :: "int \<Rightarrow> mp_int_obj" where
  "MP_OBJ_NEW_SMALL_INT v = IntSmall (s32 (2 * v + 1) div 2)"

definition mp_obj_new_int_from_ll :: "int \<Rightarrow> int_error + mp_int_obj" where
  "mp_obj_new_int_from_ll val = res_bind (lift_mpz (mpz_set_from_ll mpz_init_zero val True)) (\<lambda>z. Inr (IntLong z))"

definition mp_obj_new_int_from_ull :: "int \<Rightarrow> int_error + mp_int_obj" where
  "mp_obj_new_int_from_ull val = res_bind (lift_mpz (mpz_set_from_ll mpz_init_zero val False)) (\<lambda>z. Inr (IntLong z))"

definition mp_obj_new_int :: "int \<Rightarrow> int_error + mp_int_obj" where
  "mp_obj_new_int val = (if MP_SMALL_INT_FITS val then Inr (MP_OBJ_NEW_SMALL_INT val) else mp_obj_new_int_from_ll val)"

definition mp_obj_new_int_from_uint :: "int \<Rightarrow> int_error + mp_int_obj" where
  "mp_obj_new_int_from_uint val =
     (if val AND (NOT MP_SMALL_INT_POSITIVE_MASK) = 0 then Inr (MP_OBJ_NEW_SMALL_INT val) else mp_obj_new_int_from_ull val)"

fun mp_obj_int_sign :: "mp_int_obj \<Rightarrow> int" where
  "mp_obj_int_sign (IntSmall val) = (if val < 0 then - 1 else if val > 0 then 1 else 0)"
| "mp_obj_int_sign (IntLong z) = (if mpz_len z = 0 then 0 else if \<not> neg z then 1 else - 1)"

fun mp_obj_int_get_truncated :: "mp_int_obj \<Rightarrow> int" where
  "mp_obj_int_get_truncated (IntSmall val) = val"
| "mp_obj_int_get_truncated (IntLong z) = mpz_hash z"

fun mp_obj_int_get_checked :: "mp_int_obj \<Rightarrow> int_error + int" where
  "mp_obj_int_get_checked (IntSmall val) = Inr val"
| "mp_obj_int_get_checked (IntLong z) = (case mpz_as_int_checked z of Some v \<Rightarrow> Inr v | None \<Rightarrow> Inl OverflowError)"

fun mp_obj_int_get_uint_checked :: "mp_int_obj \<Rightarrow> int_error + int" where
  "mp_obj_int_get_uint_checked (IntSmall val) = (if val \<ge> 0 then Inr val else Inl OverflowError)"
| "mp_obj_int_get_uint_checked (IntLong z) =
     (case mpz_as_uint_checked z of Some v \<Rightarrow> Inr (int v) | None \<Rightarrow> Inl OverflowError)"

section \<open>Long integers\<close>

definition mp_obj_int_unary_op :: "mp_unary_op_t \<Rightarrow> mpz \<Rightarrow> int_error + 'f op_result" where
  "mp_obj_int_unary_op op z =
     (case op of
        MP_UNARY_OP_BOOL \<Rightarrow> Inr (ResBool (\<not> mpz_is_zero z))
      | MP_UNARY_OP_HASH \<Rightarrow> Inr (ResInt (MP_OBJ_NEW_SMALL_INT (mpz_hash z)))
      | MP_UNARY_OP_POSITIVE \<Rightarrow> Inr (ResInt (IntLong z))
      | MP_UNARY_OP_NEGATIVE \<Rightarrow> long_result (mpz_neg_inpl False mpz_init_zero z)
      | MP_UNARY_OP_INVERT \<Rightarrow> long_result (mpz_not_inpl False mpz_init_zero z)
      | MP_UNARY_OP_ABS \<Rightarrow>
          (if \<not> neg z then Inr (ResInt (IntLong z)) else long_result (mpz_abs_inpl False mpz_init_zero z))
      | _ \<Rightarrow> Inr ResNull)"

text \<open>
  The operands as \<^verbatim>\<open>mpz_t\<close>. There is one temporary for a small integer: with two small integers, which the
  caller handles itself, both operands would be the right one.
\<close>

fun binary_op_lhs :: "mp_int_obj \<Rightarrow> mp_int_obj \<Rightarrow> int_error + mpz" where
  "binary_op_lhs (IntSmall v) (IntSmall w) = lift_mpz (mpz_init_fixed_from_int MPZ_NUM_DIG_FOR_INT w)"
| "binary_op_lhs (IntSmall v) (IntLong z) = lift_mpz (mpz_init_fixed_from_int MPZ_NUM_DIG_FOR_INT v)"
| "binary_op_lhs (IntLong z) rhs = Inr z"

fun binary_op_rhs :: "mp_int_obj \<Rightarrow> int_error + mpz" where
  "binary_op_rhs (IntSmall v) = lift_mpz (mpz_init_fixed_from_int MPZ_NUM_DIG_FOR_INT v)"
| "binary_op_rhs (IntLong z) = Inr z"

text \<open>
  The switch over the arithmetic operators. Floating-point results (a true division, a power with a negative
  exponent) are computed by the parameter \<open>fl\<close>.
\<close>

definition long_arith ::
  "(mp_arith_op_t \<Rightarrow> mp_int_obj \<Rightarrow> mp_int_obj \<Rightarrow> int_error + 'f) \<Rightarrow> mp_arith_op_t \<Rightarrow> mp_int_obj \<Rightarrow> mp_int_obj \<Rightarrow>
     mpz \<Rightarrow> mpz \<Rightarrow> int_error + 'f op_result" where
  "long_arith fl op lhs rhs zlhs zrhs =
     (case op of
        OP_ADD \<Rightarrow> long_result (mpz_add_inpl mpz_init_zero zlhs zrhs)
      | OP_SUBTRACT \<Rightarrow> long_result (mpz_sub_inpl mpz_init_zero zlhs zrhs)
      | OP_MULTIPLY \<Rightarrow> long_result (mpz_mul_inpl False False mpz_init_zero zlhs zrhs)
      | OP_FLOOR_DIVIDE \<Rightarrow>
          (if mpz_is_zero zrhs then Inl ZeroDivisionError
           else res_bind (lift_mpz (mpz_divmod_inpl mpz_init_zero mpz_init_zero zlhs zrhs)) (\<lambda>(quo, rem). Inr (ResInt (IntLong quo))))
      | OP_MODULO \<Rightarrow>
          (if mpz_is_zero zrhs then Inl ZeroDivisionError
           else res_bind (lift_mpz (mpz_divmod_inpl mpz_init_zero mpz_init_zero zlhs zrhs)) (\<lambda>(quo, rem). Inr (ResInt (IntLong rem))))
      | OP_AND \<Rightarrow> long_result (mpz_and_inpl mpz_init_zero zlhs zrhs)
      | OP_OR \<Rightarrow> long_result (mpz_or_inpl mpz_init_zero zlhs zrhs)
      | OP_XOR \<Rightarrow> long_result (mpz_xor_inpl mpz_init_zero zlhs zrhs)
      | OP_LSHIFT \<Rightarrow>
          res_bind (mp_obj_int_get_checked rhs) (\<lambda>irhs.
            if irhs < 0 then Inl NegativeShift else long_result (mpz_shl_inpl mpz_init_zero zlhs (nat irhs)))
      | OP_RSHIFT \<Rightarrow>
          res_bind (mp_obj_int_get_checked rhs) (\<lambda>irhs.
            if irhs < 0 then Inl NegativeShift else long_result (mpz_shr_inpl False mpz_init_zero zlhs (nat irhs)))
      | OP_POWER \<Rightarrow>
          (if mpz_is_neg zrhs then res_bind (fl op lhs rhs) (\<lambda>f. Inr (ResFloat f))
           else long_result (mpz_pow_inpl mpz_init_zero zlhs zrhs))
      | _ \<Rightarrow> Inl AssertArith)"

definition long_compare :: "mp_binary_op_t \<Rightarrow> mpz \<Rightarrow> mpz \<Rightarrow> 'f op_result" where
  "long_compare op zlhs zrhs =
     (let cmp = mpz_cmp zlhs zrhs
      in case op of
           MP_BINARY_OP_LESS \<Rightarrow> ResBool (cmp < 0)
         | MP_BINARY_OP_MORE \<Rightarrow> ResBool (cmp > 0)
         | MP_BINARY_OP_LESS_EQUAL \<Rightarrow> ResBool (cmp \<le> 0)
         | MP_BINARY_OP_MORE_EQUAL \<Rightarrow> ResBool (cmp \<ge> 0)
         | MP_BINARY_OP_EQUAL \<Rightarrow> ResBool (cmp = 0)
         | _ \<Rightarrow> ResNull)"

text \<open>An in-place operator is its normal operator.\<close>

fun arith_op :: "mp_binary_op_t \<Rightarrow> mp_arith_op_t option" where
  "arith_op (MP_BINARY_OP_INPLACE op) = Some op"
| "arith_op (MP_BINARY_OP_ARITH op) = Some op"
| "arith_op _ = None"

definition mp_obj_int_binary_op ::
  "(mp_arith_op_t \<Rightarrow> mp_int_obj \<Rightarrow> mp_int_obj \<Rightarrow> int_error + 'f) \<Rightarrow> mp_binary_op_t \<Rightarrow> mp_int_obj \<Rightarrow> mp_int_obj \<Rightarrow>
     int_error + 'f op_result" where
  "mp_obj_int_binary_op fl op lhs rhs =
     res_bind (binary_op_lhs lhs rhs) (\<lambda>zlhs.
     res_bind (binary_op_rhs rhs) (\<lambda>zrhs.
       if arith_op op = Some OP_TRUE_DIVIDE
       then if mpz_is_zero zrhs then Inl ZeroDivisionError
            else res_bind (fl OP_TRUE_DIVIDE lhs rhs) (\<lambda>f. Inr (ResFloat f))
       else case arith_op op of
         Some aop \<Rightarrow> long_arith fl aop lhs rhs zlhs zrhs
       | None \<Rightarrow>
           (if op = MP_BINARY_OP_DIVMOD
            then if mpz_is_zero zrhs then Inl ZeroDivisionError
                 else res_bind (lift_mpz (mpz_divmod_inpl mpz_init_zero mpz_init_zero zlhs zrhs))
                        (\<lambda>(quo, rem). Inr (ResTuple (IntLong quo) (IntLong rem)))
            else Inr (long_compare op zlhs zrhs))))"

fun mp_mpz_for_int :: "mp_int_obj \<Rightarrow> int_error + mpz" where
  "mp_mpz_for_int (IntSmall v) = lift_mpz (mpz_init_from_int v)"
| "mp_mpz_for_int (IntLong z) = Inr z"

definition mp_obj_int_pow3 :: "mp_int_obj \<Rightarrow> mp_int_obj \<Rightarrow> mp_int_obj \<Rightarrow> int_error + mp_int_obj" where
  "mp_obj_int_pow3 base exponent modulus =
     res_bind (lift_mpz (mpz_set_from_ll mpz_init_zero 0 False)) (\<lambda>res.
     res_bind (mp_mpz_for_int base) (\<lambda>lhs.
     res_bind (mp_mpz_for_int exponent) (\<lambda>rhs.
     res_bind (mp_mpz_for_int modulus) (\<lambda>m.
     res_bind (lift_mpz (mpz_pow3_inpl False False res lhs rhs m)) (\<lambda>z. Inr (IntLong z))))))"

section \<open>The operators of the runtime\<close>

text \<open>The loop of a power of small integers; \<^const>\<open>None\<close> is the jump to \<^verbatim>\<open>power_overflow\<close>.\<close>

function small_pow_loop :: "int \<Rightarrow> int \<Rightarrow> int \<Rightarrow> int option" where
  "small_pow_loop ans lhs_val rhs_val =
     (if rhs_val > 0
      then if odd rhs_val \<and> mp_small_int_mul_overflow ans lhs_val then None
           else let ans = (if odd rhs_val then ans * lhs_val else ans)
                in if rhs_val = 1 then Some ans
                   else if mp_small_int_mul_overflow lhs_val lhs_val then None
                   else small_pow_loop ans (lhs_val * lhs_val) (rhs_val div 2)
      else Some ans)"
  by auto
termination by (relation "measure (\<lambda>(ans, lhs, rhs). nat rhs)") auto

declare small_pow_loop.simps [simp del]

text \<open>
  The type's own operator. On two integers \<^verbatim>\<open>MP_OBJ_NULL\<close> comes back only from operators that no integer supports,
  and all ways to go on from there end in the same exception.
\<close>

definition generic_binary_op ::
  "(mp_arith_op_t \<Rightarrow> mp_int_obj \<Rightarrow> mp_int_obj \<Rightarrow> int_error + 'f) \<Rightarrow> mp_binary_op_t \<Rightarrow> mp_int_obj \<Rightarrow> mp_int_obj \<Rightarrow>
     int_error + 'f op_result" where
  "generic_binary_op fl op lhs rhs =
     res_bind (mp_obj_int_binary_op fl op lhs rhs) (\<lambda>r. case r of ResNull \<Rightarrow> Inl TypeError | _ \<Rightarrow> Inr r)"

definition new_int_result :: "int \<Rightarrow> int_error + 'f op_result" where
  "new_int_result val =
     (if MP_SMALL_INT_FITS val then Inr (ResInt (MP_OBJ_NEW_SMALL_INT val))
      else res_bind (mp_obj_new_int_from_ll val) (\<lambda>r. Inr (ResInt r)))"

definition small_arith ::
  "(mp_arith_op_t \<Rightarrow> mp_int_obj \<Rightarrow> mp_int_obj \<Rightarrow> int_error + 'f) \<Rightarrow> mp_binary_op_t \<Rightarrow> mp_arith_op_t \<Rightarrow> int \<Rightarrow> int \<Rightarrow>
     int_error + 'f op_result" where
  "small_arith fl op aop lhs_val rhs_val =
     (let higher_precision = res_bind (mp_obj_new_int_from_ll lhs_val) (\<lambda>lhs. generic_binary_op fl op lhs (IntSmall rhs_val))
      in case aop of
        OP_OR \<Rightarrow> new_int_result (lhs_val OR rhs_val)
      | OP_XOR \<Rightarrow> new_int_result (lhs_val XOR rhs_val)
      | OP_AND \<Rightarrow> new_int_result (lhs_val AND rhs_val)
      | OP_LSHIFT \<Rightarrow>
          (if rhs_val < 0 then Inl NegativeShift
           else if rhs_val \<ge> 32 \<or> lhs_val > MP_SMALL_INT_MAX div 2 ^ nat rhs_val \<or> lhs_val < MP_SMALL_INT_MIN div 2 ^ nat rhs_val
           then higher_precision
           else new_int_result (s32 (push_bit (nat rhs_val) lhs_val)))
      | OP_RSHIFT \<Rightarrow>
          (if rhs_val < 0 then Inl NegativeShift
           else let rhs_val = (if rhs_val \<ge> 32 then 31 else rhs_val) in new_int_result (drop_bit (nat rhs_val) lhs_val))
      | OP_ADD \<Rightarrow> new_int_result (s32 (lhs_val + rhs_val))
      | OP_SUBTRACT \<Rightarrow> new_int_result (s32 (lhs_val - rhs_val))
      | OP_MULTIPLY \<Rightarrow>
          (if mp_small_int_mul_overflow lhs_val rhs_val then higher_precision
           else Inr (ResInt (MP_OBJ_NEW_SMALL_INT (lhs_val * rhs_val))))
      | OP_MAT_MULTIPLY \<Rightarrow> Inl TypeError
      | OP_FLOOR_DIVIDE \<Rightarrow>
          (if rhs_val = 0 then Inl ZeroDivisionError else new_int_result (mp_small_int_floor_divide lhs_val rhs_val))
      | OP_TRUE_DIVIDE \<Rightarrow>
          (if rhs_val = 0 then Inl ZeroDivisionError
           else res_bind (fl aop (IntSmall lhs_val) (IntSmall rhs_val)) (\<lambda>f. Inr (ResFloat f)))
      | OP_MODULO \<Rightarrow>
          (if rhs_val = 0 then Inl ZeroDivisionError else new_int_result (mp_small_int_modulo lhs_val rhs_val))
      | OP_POWER \<Rightarrow>
          (if rhs_val < 0 then res_bind (fl aop (IntSmall lhs_val) (IntSmall rhs_val)) (\<lambda>f. Inr (ResFloat f))
           else case small_pow_loop 1 lhs_val rhs_val of None \<Rightarrow> higher_precision | Some ans \<Rightarrow> new_int_result ans))"

definition small_binary_op ::
  "(mp_arith_op_t \<Rightarrow> mp_int_obj \<Rightarrow> mp_int_obj \<Rightarrow> int_error + 'f) \<Rightarrow> mp_binary_op_t \<Rightarrow> int \<Rightarrow> int \<Rightarrow> int_error + 'f op_result" where
  "small_binary_op fl op lhs_val rhs_val =
     (case arith_op op of
        Some aop \<Rightarrow> small_arith fl op aop lhs_val rhs_val
      | None \<Rightarrow>
          (case op of
             MP_BINARY_OP_DIVMOD \<Rightarrow>
               (if rhs_val = 0 then Inl ZeroDivisionError
                else Inr (ResTuple (MP_OBJ_NEW_SMALL_INT (mp_small_int_floor_divide lhs_val rhs_val))
                            (MP_OBJ_NEW_SMALL_INT (mp_small_int_modulo lhs_val rhs_val))))
           | MP_BINARY_OP_LESS \<Rightarrow> Inr (ResBool (lhs_val < rhs_val))
           | MP_BINARY_OP_MORE \<Rightarrow> Inr (ResBool (lhs_val > rhs_val))
           | MP_BINARY_OP_LESS_EQUAL \<Rightarrow> Inr (ResBool (lhs_val \<le> rhs_val))
           | MP_BINARY_OP_MORE_EQUAL \<Rightarrow> Inr (ResBool (lhs_val \<ge> rhs_val))
           | _ \<Rightarrow> Inl TypeError))"

text \<open>
  Identity of the object words: of small integers it is that of the values, of objects that of the pointers, which
  is the parameter \<open>same_ptr\<close>.
\<close>

fun same_obj :: "bool \<Rightarrow> mp_int_obj \<Rightarrow> mp_int_obj \<Rightarrow> bool" where
  "same_obj same_ptr (IntSmall v) (IntSmall w) = (v = w)"
| "same_obj same_ptr (IntLong y) (IntLong z) = same_ptr"
| "same_obj same_ptr _ _ = False"

fun is_small :: "mp_int_obj \<Rightarrow> bool" where
  "is_small (IntSmall v) = True"
| "is_small (IntLong z) = False"

definition mp_obj_equal_not_equal ::
  "(mp_arith_op_t \<Rightarrow> mp_int_obj \<Rightarrow> mp_int_obj \<Rightarrow> int_error + 'f) \<Rightarrow> bool \<Rightarrow> mp_binary_op_t \<Rightarrow> mp_int_obj \<Rightarrow> mp_int_obj \<Rightarrow>
     int_error + 'f op_result" where
  "mp_obj_equal_not_equal fl same_ptr op o1 o2 =
     (let local_true = ResBool (op \<noteq> MP_BINARY_OP_NOT_EQUAL); local_false = ResBool (op = MP_BINARY_OP_NOT_EQUAL)
      in if same_obj same_ptr o1 o2 then Inr local_true
         else if is_small o1 \<and> is_small o2 then Inr local_false
         else let (o1, o2) = (if is_small o1 then (o2, o1) else (o1, o2))
              in res_bind (mp_obj_int_binary_op fl MP_BINARY_OP_EQUAL o1 o2) (\<lambda>r.
                   if op = MP_BINARY_OP_EQUAL then Inr r else Inr (if r = ResBool True then local_true else local_false)))"

definition mp_binary_op ::
  "(mp_arith_op_t \<Rightarrow> mp_int_obj \<Rightarrow> mp_int_obj \<Rightarrow> int_error + 'f) \<Rightarrow> bool \<Rightarrow> mp_binary_op_t \<Rightarrow> mp_int_obj \<Rightarrow> mp_int_obj \<Rightarrow>
     int_error + 'f op_result" where
  "mp_binary_op fl same_ptr op lhs rhs =
     (if op = MP_BINARY_OP_IS then Inr (ResBool (same_obj same_ptr lhs rhs))
      else if op = MP_BINARY_OP_EQUAL \<or> op = MP_BINARY_OP_NOT_EQUAL then mp_obj_equal_not_equal fl same_ptr op lhs rhs
      else if op = MP_BINARY_OP_EXCEPTION_MATCH then Inl TypeError
      else case (lhs, rhs) of
        (IntSmall lhs_val, IntSmall rhs_val) \<Rightarrow> small_binary_op fl op lhs_val rhs_val
      | _ \<Rightarrow>
          (if op = MP_BINARY_OP_IN then generic_binary_op fl MP_BINARY_OP_CONTAINS rhs lhs
           else generic_binary_op fl op lhs rhs))"

fun mp_obj_is_true :: "mp_int_obj \<Rightarrow> bool" where
  "mp_obj_is_true (IntSmall v) = (IntSmall v \<noteq> MP_OBJ_NEW_SMALL_INT 0)"
| "mp_obj_is_true (IntLong z) = (mp_obj_int_unary_op MP_UNARY_OP_BOOL z = Inr (ResBool True :: unit op_result))"

fun mp_unary_op :: "mp_unary_op_t \<Rightarrow> mp_int_obj \<Rightarrow> int_error + 'f op_result" where
  "mp_unary_op op (IntSmall val) =
     (case op of
        MP_UNARY_OP_NOT \<Rightarrow> Inr (ResBool (\<not> mp_obj_is_true (IntSmall val)))
      | MP_UNARY_OP_BOOL \<Rightarrow> Inr (ResBool (val \<noteq> 0))
      | MP_UNARY_OP_HASH \<Rightarrow> Inr (ResInt (IntSmall val))
      | MP_UNARY_OP_POSITIVE \<Rightarrow> Inr (ResInt (IntSmall val))
      | MP_UNARY_OP_INT \<Rightarrow> Inr (ResInt (IntSmall val))
      | MP_UNARY_OP_NEGATIVE \<Rightarrow>
          (if val = MP_SMALL_INT_MIN then res_bind (mp_obj_new_int (- val)) (\<lambda>r. Inr (ResInt r))
           else Inr (ResInt (MP_OBJ_NEW_SMALL_INT (- val))))
      | MP_UNARY_OP_ABS \<Rightarrow>
          (if val \<ge> 0 then Inr (ResInt (IntSmall val))
           else if val = MP_SMALL_INT_MIN then res_bind (mp_obj_new_int (- val)) (\<lambda>r. Inr (ResInt r))
           else Inr (ResInt (MP_OBJ_NEW_SMALL_INT (- val))))
      | MP_UNARY_OP_INVERT \<Rightarrow> Inr (ResInt (MP_OBJ_NEW_SMALL_INT (NOT val)))
      | _ \<Rightarrow> Inl AssertUnary)"
| "mp_unary_op op (IntLong z) =
     (if op = MP_UNARY_OP_NOT then Inr (ResBool (\<not> mp_obj_is_true (IntLong z)))
      else res_bind (mp_obj_int_unary_op op z) (\<lambda>r. case r of ResNull \<Rightarrow> Inl TypeError | _ \<Rightarrow> Inr r))"

section \<open>Values\<close>

fun int_val :: "mp_int_obj \<Rightarrow> int" where
  "int_val (IntSmall v) = v"
| "int_val (IntLong z) = mpz_val z"

text \<open>A result is well formed; an operand is also not a negative zero, which only a zero result can be.\<close>

fun int_ok :: "mp_int_obj \<Rightarrow> bool" where
  "int_ok (IntSmall v) = small v"
| "int_ok (IntLong z) = mpz_wf z"

fun int_operand :: "mp_int_obj \<Rightarrow> bool" where
  "int_operand (IntSmall v) = small v"
| "int_operand (IntLong z) = (mpz_canon z \<and> mpz_len z < 2 ^ 32)"

lemma new_small_int: "small v \<Longrightarrow> MP_OBJ_NEW_SMALL_INT v = IntSmall v"
  by (simp add: MP_OBJ_NEW_SMALL_INT_def small_def s32_id)

lemma mpz_set_from_ll_yields:
  assumes "\<not> fixed_dig z" "if sg then - (2 ^ 63) \<le> val \<and> val < 2 ^ 63 else 0 \<le> val \<and> val < 2 ^ 64"
  shows "\<exists>z'. mpz_set_from_ll z val sg = Inr z' \<and> mpz_canon z' \<and> mpz_val z' = val \<and> \<not> fixed_dig z' \<and> mpz_len z' \<le> 4"
proof -
  define u where "u = nat \<bar>val\<bar>"
  have uv: "(if sg \<and> val < 0 then nat (- val) mod 2 ^ 64 else nat (val mod 2 ^ 64)) = u"
    using assms(2) by (auto simp: u_def split: if_splits)
  have lt: "u < DIG_BASE ^ 4" using assms(2) by (auto simp: u_def DIG_BASE_num split: if_splits)
  let ?a = "max (alloc z) (max MPZ_NUM_DIG_FOR_LL MIN_ALLOC)"
  have four: "4 \<le> ?a" by (simp add: MPZ_NUM_DIG_FOR_LL_def DIG_SIZE_def)
  have r: "mpz_set_from_ll z val sg = Inr (z\<lparr>alloc := ?a, neg := (sg \<and> val < 0), dig := uval_digits u\<rparr>)"
    using assms(1) four lt by (simp add: mpz_set_from_ll_def Let_def uv mpz_need_dig_ok put_uval_digits [of _ 4])
  have "length (uval_digits u) \<le> 4" using uval_digits_length [OF lt] .
  moreover have "uval_digits u = [] \<Longrightarrow> u = 0" using uval_digits_normed [of u] by auto
  moreover have "normed (uval_digits u)" "dval (uval_digits u) = u" using uval_digits_normed [of u] by auto
  ultimately show ?thesis using r four assms
    by (auto simp: mpz_canon_def mpz_wf_def mpz_val_def sval_def mpz_len_def u_def split: if_splits)
qed

text \<open>The conversion of a small integer to a temporary.\<close>

lemma mpz_init_fixed_operand:
  assumes "small v"
  shows "\<exists>z. mpz_init_fixed_from_int MPZ_NUM_DIG_FOR_INT v = Inr z \<and> mpz_canon z \<and> mpz_val z = v \<and> mpz_len z < 2 ^ 32"
proof -
  let ?z = "\<lparr>neg = False, fixed_dig = True, alloc = MPZ_NUM_DIG_FOR_INT, dig = []\<rparr>"
  have v: "- (2 ^ 31) \<le> v" "v < 2 ^ 31" using assms by (simp_all add: small_def)
  have y: "mpz_yields (mpz_set_from_int ?z v) ?z v" "v \<noteq> 0 \<Longrightarrow> \<forall>r. mpz_set_from_int ?z v = Inr r \<longrightarrow> mpz_canon r"
    using mpz_set_from_int_yields [of ?z v] v by simp_all
  then obtain z where z: "mpz_set_from_int ?z v = Inr z" "mpz_wf z" "mpz_val z = v" by (auto elim: mpz_yieldsE)
  have c: "mpz_canon z"
  proof (cases "v = 0")
    case True
    then show ?thesis using z by (auto simp: mpz_set_from_int_def mpz_canon_def)
  next
    case False
    then show ?thesis using y z by blast
  qed
  have "dval (dig z) < DIG_BASE ^ 2"
    using z(3) v by (auto simp: mpz_val_def sval_def DIG_BASE_num split: if_splits)
  then have "length (dig z) \<le> 2" using normed_length_bound z(2) by (auto simp: mpz_wf_def)
  then show ?thesis using z c by (auto simp: mpz_init_fixed_from_int_def mpz_len_def)
qed

lemma binary_op_operands:
  assumes "int_operand l" "int_operand r" "\<not> (is_small l \<and> is_small r)"
  shows "\<exists>zl zr. binary_op_lhs l r = Inr zl \<and> binary_op_rhs r = Inr zr \<and> mpz_canon zl \<and> mpz_canon zr \<and>
    mpz_len zl < 2 ^ 32 \<and> mpz_len zr < 2 ^ 32 \<and> mpz_val zl = int_val l \<and> mpz_val zr = int_val r"
  using assms mpz_init_fixed_operand by (cases l; cases r) (fastforce simp: lift_mpz_def)+

end
