(* ===== verification/Mp_Int_Spec.thy ===== *)
theory Mp_Int_Spec
  imports Mp_Int
begin

text \<open>
  The operators of the runtime on integers are those of Python on unbounded integers, whatever the
  representation of the operands.
\<close>

section \<open>Specification\<close>

text \<open>
  The result of an arithmetic operator in Python, or its exception; \<^const>\<open>None\<close> where the result is a
  floating-point number or the operator has no meaning.
\<close>

fun arith_spec :: "mp_arith_op_t \<Rightarrow> int \<Rightarrow> int \<Rightarrow> (int_error + int) option" where
  "arith_spec OP_OR a b = Some (Inr (a OR b))"
| "arith_spec OP_XOR a b = Some (Inr (a XOR b))"
| "arith_spec OP_AND a b = Some (Inr (a AND b))"
| "arith_spec OP_LSHIFT a b =
     Some (if b < 0 then Inl NegativeShift else Inr (a * 2 ^ nat b))"
| "arith_spec OP_RSHIFT a b =
     Some (if b < 0 then Inl NegativeShift else Inr (a div 2 ^ nat b))"
| "arith_spec OP_ADD a b = Some (Inr (a + b))"
| "arith_spec OP_SUBTRACT a b = Some (Inr (a - b))"
| "arith_spec OP_MULTIPLY a b = Some (Inr (a * b))"
| "arith_spec OP_FLOOR_DIVIDE a b = Some (if b = 0 then Inl ZeroDivisionError else Inr (a div b))"
| "arith_spec OP_MODULO a b = Some (if b = 0 then Inl ZeroDivisionError else Inr (a mod b))"
| "arith_spec OP_TRUE_DIVIDE a b = (if b = 0 then Some (Inl ZeroDivisionError) else None)"
| "arith_spec OP_POWER a b = (if b < 0 then None else Some (Inr (a ^ nat b)))"
| "arith_spec OP_MAT_MULTIPLY a b = None"

text \<open>
  Where the code departs from Python: a shift count that is no machine integer raises \<^verbatim>\<open>OverflowError\<close> instead of
  shifting or of raising \<^verbatim>\<open>ValueError\<close>, and zero to the power zero is zero when a zero is a long integer.
\<close>

definition wide_shift :: "mp_arith_op_t \<Rightarrow> int \<Rightarrow> bool" where
  "wide_shift op b \<longleftrightarrow> (op = OP_LSHIFT \<or> op = OP_RSHIFT) \<and> \<bar>b\<bar> \<ge> 2 ^ 31"

definition long_zero_power :: "mp_arith_op_t \<Rightarrow> mp_int_obj \<Rightarrow> mp_int_obj \<Rightarrow> bool" where
  "long_zero_power op l r \<longleftrightarrow> op = OP_POWER \<and> int_val l = 0 \<and> int_val r = 0 \<and> \<not> (is_small l \<and> is_small r)"

definition arith_code :: "mp_arith_op_t \<Rightarrow> int \<Rightarrow> int \<Rightarrow> (int_error + int) option" where
  "arith_code op a b = (if wide_shift op b then Some (Inl OverflowError) else arith_spec op a b)"

lemma arith_code_simps [simp]:
  "arith_code OP_OR a b = arith_spec OP_OR a b" "arith_code OP_XOR a b = arith_spec OP_XOR a b" "arith_code OP_AND a b = arith_spec OP_AND a b"
  "arith_code OP_ADD a b = arith_spec OP_ADD a b" "arith_code OP_SUBTRACT a b = arith_spec OP_SUBTRACT a b"
  "arith_code OP_MULTIPLY a b = arith_spec OP_MULTIPLY a b" "arith_code OP_FLOOR_DIVIDE a b = arith_spec OP_FLOOR_DIVIDE a b"
  "arith_code OP_MODULO a b = arith_spec OP_MODULO a b" "arith_code OP_TRUE_DIVIDE a b = arith_spec OP_TRUE_DIVIDE a b"
  "arith_code OP_POWER a b = arith_spec OP_POWER a b" "arith_code OP_MAT_MULTIPLY a b = arith_spec OP_MAT_MULTIPLY a b"
  "arith_code OP_LSHIFT a b =
     Some (if \<bar>b\<bar> \<ge> 2 ^ 31 then Inl OverflowError else if b < 0 then Inl NegativeShift else Inr (a * 2 ^ nat b))"
  "arith_code OP_RSHIFT a b =
     Some (if \<bar>b\<bar> \<ge> 2 ^ 31 then Inl OverflowError else if b < 0 then Inl NegativeShift else Inr (a div 2 ^ nat b))"
  by (simp_all add: arith_code_def wide_shift_def)

definition yields_int :: "int_error + 'f op_result \<Rightarrow> int \<Rightarrow> bool" where
  "yields_int r v \<longleftrightarrow> (\<exists>x. r = Inr (ResInt x) \<and> int_ok x \<and> int_val x = v)"

fun meets :: "int_error + 'f op_result \<Rightarrow> (int_error + int) option \<Rightarrow> bool" where
  "meets r None = True"
| "meets r (Some (Inl e)) = (r = Inl e)"
| "meets r (Some (Inr v)) = yields_int r v"

section \<open>Long integers\<close>

lemma init_zero [simp]: "\<not> fixed_dig mpz_init_zero" "\<not> neg mpz_init_zero"
  by (simp_all add: mpz_init_zero_def)

lemma long_result_yields: "mpz_yields r mpz_init_zero v \<Longrightarrow> yields_int (long_result r) v"
  by (auto simp: long_result_def lift_mpz_def yields_int_def elim!: mpz_yieldsE)

lemma mpz_is_zero_val: "mpz_wf z \<Longrightarrow> mpz_is_zero z \<longleftrightarrow> mpz_val z = 0"
  by (simp add: mpz_is_zero_def mpz_val_0_iff)

lemma mpz_is_neg_val: "mpz_canon z \<Longrightarrow> mpz_is_neg z \<longleftrightarrow> mpz_val z < 0"
  by (auto simp: mpz_is_neg_def mpz_val_sign [symmetric] mpz_len_def mpz_canon_def)

lemma long_divmod:
  assumes "mpz_wf zl" "mpz_wf zr" "mpz_val zr \<noteq> 0"
  shows "\<exists>quo rem. mpz_divmod_inpl mpz_init_zero mpz_init_zero zl zr = Inr (quo, rem) \<and> mpz_wf quo \<and> mpz_wf rem \<and>
    mpz_val quo = mpz_val zl div mpz_val zr \<and> mpz_val rem = mpz_val zl mod mpz_val zr"
  using mpz_divmod_inpl_correct [OF init_zero(1) init_zero(1) assms] by auto

lemma long_arith_meets:
  assumes c: "mpz_canon zl" "mpz_canon zr" and len: "mpz_len zl < 2 ^ 32" "mpz_len zr < 2 ^ 32"
    and chk: "mp_obj_int_get_checked rhs = (if \<bar>mpz_val zr\<bar> < 2 ^ 31 then Inr (mpz_val zr) else Inl OverflowError)"
    and pow: "op = OP_POWER \<Longrightarrow> mpz_val zl \<noteq> 0 \<or> mpz_val zr \<noteq> 0" and td: "op \<noteq> OP_TRUE_DIVIDE"
  shows "meets (long_arith fl op lhs rhs zl zr) (arith_code op (mpz_val zl) (mpz_val zr))"
proof -
  have w: "mpz_wf zl" "mpz_wf zr" using c by (simp_all add: mpz_canon_def)
  show ?thesis
  proof (cases op)
    case OP_OR then show ?thesis using mpz_or_inpl_yields [OF init_zero(1) c len] by (simp add: long_arith_def long_result_yields)
  next
    case OP_XOR then show ?thesis using mpz_xor_inpl_yields [OF init_zero(1) c len] by (simp add: long_arith_def long_result_yields)
  next
    case OP_AND then show ?thesis using mpz_and_inpl_yields [OF init_zero(1) c len] by (simp add: long_arith_def long_result_yields)
  next
    case OP_LSHIFT
    have "mpz_yields (mpz_shl_inpl mpz_init_zero zl n) mpz_init_zero (mpz_val zl * 2 ^ n)" if "n < 2 ^ 31" for n
      using mpz_shl_inpl_yields [OF init_zero(1) w(1) that] .
    then show ?thesis using OP_LSHIFT chk by (auto simp: long_arith_def long_result_yields)
  next
    case OP_RSHIFT
    have "mpz_yields (mpz_shr_inpl False mpz_init_zero zl n) mpz_init_zero (mpz_val zl div 2 ^ n)" for n
      using mpz_shr_inpl_yields [OF init_zero(1) w(1)] .
    then show ?thesis using OP_RSHIFT chk by (auto simp: long_arith_def long_result_yields)
  next
    case OP_ADD then show ?thesis using mpz_add_inpl_yields [OF init_zero(1) w] by (simp add: long_arith_def long_result_yields)
  next
    case OP_SUBTRACT then show ?thesis using mpz_sub_inpl_yields [OF init_zero(1) w] by (simp add: long_arith_def long_result_yields)
  next
    case OP_MULTIPLY then show ?thesis using mpz_mul_inpl_yields [OF init_zero(1) w, of False False] by (simp add: long_arith_def long_result_yields)
  next
    case OP_FLOOR_DIVIDE then show ?thesis using long_divmod [OF w] w
      by (auto simp: long_arith_def mpz_is_zero_val yields_int_def lift_mpz_def)
  next
    case OP_MODULO then show ?thesis using long_divmod [OF w] w
      by (auto simp: long_arith_def mpz_is_zero_val yields_int_def lift_mpz_def)
  next
    case OP_POWER
    show ?thesis
    proof (cases "mpz_val zr < 0")
      case True then show ?thesis using OP_POWER by simp
    next
      case False
      then have "\<not> neg zr" using mpz_val_sign c(2) by blast
      then obtain z where "mpz_pow_inpl mpz_init_zero zl zr = Inr z" "mpz_wf z" "mpz_val z = mpz_val zl ^ nat (mpz_val zr)"
        using mpz_pow_inpl_correct [OF init_zero(1) w] pow [OF OP_POWER] by blast
      then show ?thesis using False OP_POWER c
        by (simp add: long_arith_def mpz_is_neg_val long_result_def lift_mpz_def yields_int_def)
    qed
  qed (simp_all add: td)
qed

section \<open>The generic operator\<close>

lemma get_checked_val:
  assumes "int_operand r"
  shows "mp_obj_int_get_checked r = (if \<bar>int_val r\<bar> < 2 ^ 31 then Inr (int_val r) else Inl OverflowError)"
proof (cases r)
  case (IntSmall v)
  then have "\<bar>v\<bar> < 2 ^ 31" using assms by (auto simp: small_def)
  then show ?thesis using IntSmall by simp
next
  case (IntLong z)
  then show ?thesis using assms mpz_as_int_checked_correct [of z] by (simp add: mpz_canon_def)
qed

lemma meets_no_null:
  assumes "meets r spec" "spec \<noteq> None"
  shows "meets (res_bind r (\<lambda>r. case r of ResNull \<Rightarrow> Inl TypeError | _ \<Rightarrow> Inr r)) spec"
proof (cases "the spec")
  case (Inl e)
  then show ?thesis using assms by auto
next
  case (Inr v)
  then show ?thesis using assms by (auto simp: yields_int_def)
qed

lemma generic_arith_meets:
  assumes "int_operand l" "int_operand r" "\<not> (is_small l \<and> is_small r)" "arith_op op = Some aop"
    and "aop = OP_POWER \<Longrightarrow> int_val l \<noteq> 0 \<or> int_val r \<noteq> 0"
  shows "meets (generic_binary_op fl op l r) (arith_code aop (int_val l) (int_val r))"
proof (cases "arith_code aop (int_val l) (int_val r) = None")
  case False
  obtain zl zr where z: "binary_op_lhs l r = Inr zl" "binary_op_rhs r = Inr zr" "mpz_canon zl" "mpz_canon zr"
    "mpz_len zl < 2 ^ 32" "mpz_len zr < 2 ^ 32" "mpz_val zl = int_val l" "mpz_val zr = int_val r"
    using binary_op_operands [OF assms(1-3)] by blast
  have "meets (mp_obj_int_binary_op fl op l r) (arith_code aop (int_val l) (int_val r))"
  proof (cases "aop = OP_TRUE_DIVIDE")
    case True
    then show ?thesis using False z assms(4) by (auto simp: mp_obj_int_binary_op_def mpz_is_zero_val mpz_canon_def split: if_splits)
  next
    case td: False
    have "meets (long_arith fl aop l r zl zr) (arith_code aop (mpz_val zl) (mpz_val zr))"
      by (rule long_arith_meets) (use z td assms(2,5) get_checked_val [of r] in simp_all)
    then show ?thesis using z td assms(4) by (simp add: mp_obj_int_binary_op_def)
  qed
  then show ?thesis unfolding generic_binary_op_def by (rule meets_no_null) (rule False)
qed simp

section \<open>Small integers\<close>

lemma new_int_from_ll:
  assumes "- (2 ^ 31) \<le> v" "v < 2 ^ 31"
  shows "\<exists>z. mp_obj_new_int_from_ll v = Inr (IntLong z) \<and> int_operand (IntLong z) \<and> mpz_val z = v"
  using mpz_set_from_ll_yields [of mpz_init_zero True v] assms by (auto simp: mp_obj_new_int_from_ll_def lift_mpz_def)

lemma new_int_result_yields:
  assumes "- (2 ^ 31) \<le> v" "v < 2 ^ 31"
  shows "yields_int (new_int_result v) v"
proof (cases "small v")
  case True
  then show ?thesis using small_fits [OF assms] by (simp add: new_int_result_def new_small_int yields_int_def)
next
  case False
  then show ?thesis using small_fits [OF assms] new_int_from_ll [OF assms]
    by (auto simp: new_int_result_def yields_int_def mpz_canon_def)
qed

lemma small_s32: "small v \<Longrightarrow> - (2 ^ 31) \<le> v \<and> v < 2 ^ 31"
  by (auto simp: small_def)

lemma small_result: "small v \<Longrightarrow> yields_int (new_int_result v) v"
  using small_s32 new_int_result_yields by blast

lemma small_signed_take: "small v \<longleftrightarrow> signed_take_bit 30 v = v"
  by (simp add: small_def signed_take_bit_int_eq_self_iff)

lemma small_bitwise: "small a \<Longrightarrow> small b \<Longrightarrow> small (a AND b) \<and> small (a OR b) \<and> small (a XOR b)"
  unfolding small_signed_take bit_eq_iff bit_signed_take_bit_iff bit_and_iff bit_or_iff bit_xor_iff by auto

lemma small_mod_small: "small w \<Longrightarrow> w \<noteq> 0 \<Longrightarrow> small (v mod w)"
  using pos_mod_bound [of w v] pos_mod_sign [of w v] neg_mod_bound [of w v] neg_mod_sign [of w v]
  unfolding small_def by linarith

lemma small_div_small:
  assumes "small v" "small w" "w \<noteq> 0" "\<not> (v = - (2 ^ 30) \<and> w = - 1)"
  shows "small (v div w)"
proof -
  consider "0 < w" | "w = - 1" | "w \<le> - 2" using assms(3) by linarith
  then have "v div w < 2 ^ 30"
  proof cases
    case 1
    then show ?thesis using div_less_iff_int [OF 1, of v "2 ^ 30"] assms(1) by (simp add: small_def)
  next
    case 2
    then show ?thesis using assms(1,4) by (simp add: small_def)
  next
    case 3
    have "v div w = (- v) div (- w)" by simp
    then show ?thesis using div_less_iff_int [of "- w" "- v" "2 ^ 30"] 3 assms(1) by (simp add: small_def)
  qed
  then show ?thesis using small_div_bounds(1) [OF assms(1-3)] by (simp add: small_def)
qed

lemma small_pow_loop_correct:
  assumes "small ans" "small_pow_loop ans x n = Some v" "0 \<le> n"
  shows "small v \<and> v = ans * x ^ nat n"
  using assms
proof (induction ans x n rule: small_pow_loop.induct)
  case (1 ans x n)
  show ?case
  proof (cases "0 < n")
    case False
    then show ?thesis using 1 by (simp add: small_pow_loop.simps)
  next
    case True
    let ?ans = "if odd n then ans * x else ans"
    have no: "\<not> (odd n \<and> mp_small_int_mul_overflow ans x)" using 1(3) True by (auto simp: small_pow_loop.simps [of ans x n] split: if_splits)
    have s: "small ?ans" using no 1(2) by (auto simp: mul_overflow_exact)
    show ?thesis
    proof (cases "n = 1")
      case True
      then show ?thesis using 1(3) no s by (simp add: small_pow_loop.simps [of ans x 1])
    next
      case False
      then have nx: "\<not> mp_small_int_mul_overflow x x" and r: "small_pow_loop ?ans (x * x) (n div 2) = Some v"
        using 1(3) True no by (auto simp: small_pow_loop.simps [of ans x n] Let_def split: if_splits)
      have "small v \<and> v = ?ans * (x * x) ^ nat (n div 2)"
        by (rule 1(1)) (use True no False nx s r in auto)
      moreover have "nat (n div 2) = nat n div 2" "odd n \<longleftrightarrow> odd (nat n)" using True by (simp_all add: nat_div_distrib even_nat_iff)
      ultimately show ?thesis using halve_power [of "nat n" ans x] by auto
    qed
  qed
qed

lemma shift_bounds:
  assumes "0 \<le> k" "k < 32" "\<not> v > MP_SMALL_INT_MAX div 2 ^ nat k" "\<not> v < MP_SMALL_INT_MIN div 2 ^ nat k"
  shows "- (2 ^ 31) \<le> v * 2 ^ nat k \<and> v * 2 ^ nat k < 2 ^ 31"
proof -
  let ?p = "2 ^ nat k :: int"
  have p: "0 < ?p" by simp
  have "v * ?p \<le> MP_SMALL_INT_MAX div ?p * ?p" using assms(3) by (intro mult_right_mono) simp_all
  also have "\<dots> \<le> MP_SMALL_INT_MAX" 
    using div_mult_mod_eq [of MP_SMALL_INT_MAX ?p] pos_mod_sign [OF p, of MP_SMALL_INT_MAX] by linarith
  finally have up: "v * ?p < 2 ^ 31" by (simp add: small_bounds)
  have "- (2 ^ 31) \<le> MP_SMALL_INT_MIN div ?p * ?p"
  proof (cases "nat k \<le> 30")
    case True
    then have "MP_SMALL_INT_MIN = - (2 ^ (30 - nat k)) * ?p" by (simp add: small_bounds power_add [symmetric])
    then have "?p dvd MP_SMALL_INT_MIN" by (rule dvdI [of _ _ "- (2 ^ (30 - nat k))", OF trans]) (simp add: mult.commute)
    then have "MP_SMALL_INT_MIN div ?p * ?p = MP_SMALL_INT_MIN" by (rule dvd_div_mult_self)
    then show ?thesis by (simp add: small_bounds)
  next
    case False
    then have "nat k = 31" using assms by simp
    then show ?thesis by (simp add: small_bounds)
  qed
  also have "\<dots> \<le> v * ?p" using assms(4) by (intro mult_right_mono) simp_all
  finally show ?thesis using up by simp
qed

lemma small_shift_small:
  assumes "small v"
  shows "small (v div 2 ^ n)"
proof -
  have p: "(0 :: int) < 2 ^ n" by simp
  have "(2 :: int) ^ 30 \<le> 2 ^ 30 * 2 ^ n" "- (2 ^ 30) * 2 ^ n \<le> (- (2 ^ 30) :: int)" by simp_all
  then show ?thesis using assms div_less_iff_int [OF p, of v "2 ^ 30"] div_less_iff_int [OF p, of v "- (2 ^ 30)"]
    unfolding small_def by linarith
qed

lemma small_shift_right: "small v \<Longrightarrow> 30 \<le> n \<Longrightarrow> v div 2 ^ n = (if v < 0 then - 1 else 0)"
proof -
  assume v: "small v" "30 \<le> n"
  have "(2 :: int) ^ 30 \<le> 2 ^ n" using v(2) by (intro power_increasing) simp_all
  then show ?thesis using v(1) by (auto simp: small_def intro!: int_div_pos_eq [of v "2 ^ n" "- 1" "v + 2 ^ n"])
qed

text \<open>Small integers meet the same specification.\<close>

lemma small_arith_meets:
  assumes v: "small v" "small w" and op: "arith_op op = Some aop"
  shows "meets (small_arith fl op aop v w) (arith_code aop v w)"
proof -
  obtain z where z: "mp_obj_new_int_from_ll v = Inr (IntLong z)" "int_operand (IntLong z)" "mpz_val z = v"
    using new_int_from_ll [of v] v(1) by (auto simp: small_def)
  have hp: "meets (res_bind (mp_obj_new_int_from_ll v) (\<lambda>lhs. generic_binary_op fl op lhs (IntSmall w))) (arith_code aop v w)"
    if "aop = OP_POWER \<Longrightarrow> v \<noteq> 0 \<or> w \<noteq> 0"
    using generic_arith_meets [of "IntLong z" "IntSmall w" op aop fl] z v op that by simp
  have w31: "\<bar>w\<bar> < 2 ^ 31" using v(2) by (auto simp: small_def)
  note bits = small_bitwise [OF v]
  show ?thesis
  proof (cases aop)
    case OP_OR then show ?thesis using bits by (simp add: small_arith_def small_result)
  next
    case OP_XOR then show ?thesis using bits by (simp add: small_arith_def small_result)
  next
    case OP_AND then show ?thesis using bits by (simp add: small_arith_def small_result)
  next
    case OP_LSHIFT
    show ?thesis
    proof (cases "w < 0")
      case True then show ?thesis using OP_LSHIFT w31 by (simp add: small_arith_def)
    next
      case False
      show ?thesis
      proof (cases "w \<ge> 32 \<or> v > MP_SMALL_INT_MAX div 2 ^ nat w \<or> v < MP_SMALL_INT_MIN div 2 ^ nat w")
        case True
        then show ?thesis using hp False OP_LSHIFT by (simp add: small_arith_def)
      next
        case fits: False
        then have b: "- (2 ^ 31) \<le> v * 2 ^ nat w \<and> v * 2 ^ nat w < 2 ^ 31" using shift_bounds [of w v] False by simp
        then have "s32 (push_bit (nat w) v) = v * 2 ^ nat w" by (simp add: push_bit_eq_mult s32_id)
        then show ?thesis using OP_LSHIFT False fits w31 b by (simp add: small_arith_def new_int_result_yields)
      qed
    qed
  next
    case OP_RSHIFT
    have "v div 2 ^ nat (if w \<ge> 32 then 31 else w) = v div 2 ^ nat w" using small_shift_right [OF v(1), of 31] small_shift_right [OF v(1), of "nat w"] by simp
    then show ?thesis using OP_RSHIFT w31 by (auto simp: small_arith_def drop_bit_eq_div Let_def small_result small_shift_small [OF v(1)])
  next
    case OP_ADD then show ?thesis using v by (simp add: small_arith_def small_def s32_id new_int_result_yields)
  next
    case OP_SUBTRACT then show ?thesis using v by (simp add: small_arith_def small_def s32_id new_int_result_yields)
  next
    case OP_MULTIPLY then show ?thesis using hp by (auto simp: small_arith_def mul_overflow_exact new_small_int yields_int_def)
  next
    case OP_FLOOR_DIVIDE
    have "- (2 ^ 31) \<le> v div w \<and> v div w < 2 ^ 31" if "w \<noteq> 0" using small_div_bounds [OF v that] by simp
    then show ?thesis using OP_FLOOR_DIVIDE small_floor_divide [OF v] by (simp add: small_arith_def new_int_result_yields)
  next
    case OP_TRUE_DIVIDE then show ?thesis by (simp add: small_arith_def)
  next
    case OP_MODULO
    then show ?thesis using small_modulo [OF v] small_mod_small [OF v(2)] by (simp add: small_arith_def small_result)
  next
    case OP_POWER
    show ?thesis
    proof (cases "w < 0")
      case True then show ?thesis using OP_POWER by simp
    next
      case w0: False
      show ?thesis
      proof (cases "small_pow_loop 1 v w")
        case None
        moreover have "w \<noteq> 0" using None by (auto simp: small_pow_loop.simps)
        ultimately show ?thesis using hp w0 OP_POWER by (simp add: small_arith_def)
      next
        case (Some ans)
        then have "small ans" "ans = v ^ nat w" using small_pow_loop_correct [of 1 v w ans] w0 by (simp_all add: small_def)
        then show ?thesis using Some w0 OP_POWER by (simp add: small_arith_def small_result)
      qed
    qed
  qed simp
qed

section \<open>Results\<close>

text \<open>The one power of the code that is not Python's: with a long zero, zero to the zero is zero.\<close>

lemma generic_zero_power:
  assumes "int_operand l" "int_operand r" "long_zero_power aop l r" "arith_op op = Some aop"
  shows "yields_int (generic_binary_op fl op l r) 0"
proof -
  obtain zl zr where z: "binary_op_lhs l r = Inr zl" "binary_op_rhs r = Inr zr" "mpz_canon zl" "mpz_canon zr" "mpz_val zl = 0" "mpz_val zr = 0"
    using binary_op_operands [OF assms(1,2)] assms(3) by (auto simp: long_zero_power_def)
  have "mpz_len zl = 0" using z(3,5) by (simp add: mpz_len_def mpz_val_0_iff mpz_canon_def)
  moreover have "\<not> mpz_is_neg zr" using z(6) mpz_is_neg_val [OF z(4)] by simp
  ultimately have len: "mpz_len zl = 0" "\<not> mpz_is_neg zr" .
  have "mp_obj_int_binary_op fl op l r = long_result (mpz_set_from_int mpz_init_zero 0)"
    using z len assms(3,4) by (simp add: mp_obj_int_binary_op_def long_zero_power_def long_arith_def mpz_pow_inpl_def)
  moreover have "yields_int (long_result (mpz_set_from_int mpz_init_zero 0) :: int_error + 'a op_result) 0"
    using long_result_yields mpz_set_from_int_yields [of mpz_init_zero 0] by auto
  ultimately show ?thesis by (auto simp: generic_binary_op_def yields_int_def)
qed

text \<open>
  C4: The arithmetic operators on integers, normal and in place, are exact: whatever the operands are, small integers or
  long ones, the result is a well-formed integer object with the value of the operation on unbounded
  integers, or the exception of Python: division and remainder round to minus infinity, shifts are arithmetic, the bitwise
  operators are those of two's complement, and a zero divisor and a negative shift count raise their exceptions. There
  are two departures from Python, and the theorem says what the code does there: a shift count from \<open>2 ^ 31\<close> on, in either
  direction, raises \<^verbatim>\<open>OverflowError\<close>, and zero to the power zero is zero if one of the zeros is a long integer. A long
  operand is not a negative zero; nothing is said of floating-point results and of the operator \<^verbatim>\<open>@\<close>.
\<close>

theorem int_arith_correct:
  assumes "int_operand l" "int_operand r" "op = MP_BINARY_OP_ARITH aop \<or> op = MP_BINARY_OP_INPLACE aop"
  shows "if wide_shift aop (int_val r) then mp_binary_op fl same_ptr op l r = Inl OverflowError
    else if long_zero_power aop l r then yields_int (mp_binary_op fl same_ptr op l r) 0
    else meets (mp_binary_op fl same_ptr op l r) (arith_spec aop (int_val l) (int_val r))"
proof (cases "is_small l \<and> is_small r")
  case True
  then obtain v w where lr: "l = IntSmall v" "r = IntSmall w" by (cases l; cases r) auto
  have op: "arith_op op = Some aop" using assms(3) by auto
  have "mp_binary_op fl same_ptr op l r = small_arith fl op aop v w"
    using assms(3) lr by (auto simp: mp_binary_op_def small_binary_op_def)
  then have "meets (mp_binary_op fl same_ptr op l r) (arith_code aop (int_val l) (int_val r))"
    using small_arith_meets [OF _ _ op, of v w fl] assms lr by simp
  then show ?thesis using True by (simp add: arith_code_def long_zero_power_def split: if_splits)
next
  case False
  have op: "arith_op op = Some aop" using assms(3) by auto
  have g: "mp_binary_op fl same_ptr op l r = generic_binary_op fl op l r"
    using assms(3) False by (cases l; cases r) (auto simp: mp_binary_op_def)
  have "meets (mp_binary_op fl same_ptr op l r) (arith_code aop (int_val l) (int_val r))" if "\<not> long_zero_power aop l r"
    using generic_arith_meets [OF assms(1,2) False op] that False unfolding g long_zero_power_def by metis
  then show ?thesis using generic_zero_power [OF assms(1,2) _ op] g
    by (auto simp: arith_code_def wide_shift_def long_zero_power_def)
qed

definition two_pow_31 :: mpz where
  "two_pow_31 = mpz_init_zero\<lparr>alloc := 2, dig := [0, 32768]\<rparr>"

lemma sample_operands:
  "int_operand (IntLong two_pow_31)" "mpz_val two_pow_31 = 2 ^ 31" "int_operand (IntLong mpz_init_zero)" "mpz_val mpz_init_zero = 0"
  by (simp_all add: two_pow_31_def mpz_init_zero_def mpz_canon_def mpz_wf_def mpz_val_def mpz_len_def normed_def DIG_BASE_num)

theorem int_arith_correct_witness:
  "yields_int (mp_binary_op (\<lambda>_ _ _. Inr ()) False (MP_BINARY_OP_ARITH OP_ADD) (IntSmall 1073741823) (IntSmall 1)) 1073741824 \<and>
   yields_int (mp_binary_op (\<lambda>_ _ _. Inr ()) False (MP_BINARY_OP_INPLACE OP_POWER) (IntSmall (- 10)) (IntSmall 11)) (- 100000000000) \<and>
   mp_binary_op (\<lambda>_ _ _. Inr ()) False (MP_BINARY_OP_ARITH OP_RSHIFT) (IntSmall 1) (IntLong two_pow_31) = Inl OverflowError \<and>
   yields_int (mp_binary_op (\<lambda>_ _ _. Inr ()) False (MP_BINARY_OP_ARITH OP_POWER) (IntLong mpz_init_zero) (IntSmall 0)) 0"
  using int_arith_correct [of "IntSmall 1073741823" "IntSmall 1" "MP_BINARY_OP_ARITH OP_ADD" OP_ADD "\<lambda>_ _ _. Inr ()" False]
    int_arith_correct [of "IntSmall (- 10)" "IntSmall 11" "MP_BINARY_OP_INPLACE OP_POWER" OP_POWER "\<lambda>_ _ _. Inr ()" False]
    int_arith_correct [of "IntSmall 1" "IntLong two_pow_31" "MP_BINARY_OP_ARITH OP_RSHIFT" OP_RSHIFT "\<lambda>_ _ _. Inr ()" False]
    int_arith_correct [of "IntLong mpz_init_zero" "IntSmall 0" "MP_BINARY_OP_ARITH OP_POWER" OP_POWER "\<lambda>_ _ _. Inr ()" False]
  by (simp add: small_def wide_shift_def long_zero_power_def sample_operands [simplified])

lemma long_compare_order:
  assumes "mpz_canon zl" "mpz_canon zr"
  shows "long_compare MP_BINARY_OP_LESS zl zr = ResBool (mpz_val zl < mpz_val zr)"
    "long_compare MP_BINARY_OP_MORE zl zr = ResBool (mpz_val zl > mpz_val zr)"
    "long_compare MP_BINARY_OP_LESS_EQUAL zl zr = ResBool (mpz_val zl \<le> mpz_val zr)"
    "long_compare MP_BINARY_OP_MORE_EQUAL zl zr = ResBool (mpz_val zl \<ge> mpz_val zr)"
    "long_compare MP_BINARY_OP_EQUAL zl zr = ResBool (mpz_val zl = mpz_val zr)"
  by (auto simp: long_compare_def mpz_cmp_sgn [OF assms] sgn_if)

lemma generic_compare:
  assumes "int_operand l" "int_operand r" "\<not> (is_small l \<and> is_small r)"
  shows "mp_obj_int_binary_op fl MP_BINARY_OP_LESS l r = Inr (ResBool (int_val l < int_val r))"
    "mp_obj_int_binary_op fl MP_BINARY_OP_MORE l r = Inr (ResBool (int_val l > int_val r))"
    "mp_obj_int_binary_op fl MP_BINARY_OP_LESS_EQUAL l r = Inr (ResBool (int_val l \<le> int_val r))"
    "mp_obj_int_binary_op fl MP_BINARY_OP_MORE_EQUAL l r = Inr (ResBool (int_val l \<ge> int_val r))"
    "mp_obj_int_binary_op fl MP_BINARY_OP_EQUAL l r = Inr (ResBool (int_val l = int_val r))"
  using binary_op_operands [OF assms] by (auto simp: mp_obj_int_binary_op_def long_compare_order)

lemma int_order:
  assumes "int_operand l" "int_operand r"
  shows "mp_binary_op fl same_ptr MP_BINARY_OP_LESS l r = Inr (ResBool (int_val l < int_val r)) \<and>
    mp_binary_op fl same_ptr MP_BINARY_OP_MORE l r = Inr (ResBool (int_val l > int_val r)) \<and>
    mp_binary_op fl same_ptr MP_BINARY_OP_LESS_EQUAL l r = Inr (ResBool (int_val l \<le> int_val r)) \<and>
    mp_binary_op fl same_ptr MP_BINARY_OP_MORE_EQUAL l r = Inr (ResBool (int_val l \<ge> int_val r))"
proof (cases "is_small l \<and> is_small r")
  case True
  then obtain v w where "l = IntSmall v" "r = IntSmall w" by (cases l; cases r) auto
  then show ?thesis by (simp add: mp_binary_op_def small_binary_op_def)
next
  case False
  then have g: "mp_binary_op fl same_ptr op l r = generic_binary_op fl op l r"
    if "op \<in> {MP_BINARY_OP_LESS, MP_BINARY_OP_MORE, MP_BINARY_OP_LESS_EQUAL, MP_BINARY_OP_MORE_EQUAL}" for op
    using that by (cases l; cases r) (auto simp: mp_binary_op_def)
  show ?thesis using generic_compare [OF assms False, of fl] by (simp add: g generic_binary_op_def)
qed

lemma equal_not_equal:
  assumes "int_operand l" "int_operand r" "same_ptr \<Longrightarrow> l = r"
  shows "mp_obj_equal_not_equal fl same_ptr MP_BINARY_OP_EQUAL l r = Inr (ResBool (int_val l = int_val r))"
    "mp_obj_equal_not_equal fl same_ptr MP_BINARY_OP_NOT_EQUAL l r = Inr (ResBool (int_val l \<noteq> int_val r))"
proof -
  let ?p = "if is_small l then (r, l) else (l, r)"
  have same: "same_obj same_ptr l r \<Longrightarrow> int_val l = int_val r" using assms(3) by (cases l; cases r) auto
  have diff: "is_small l \<and> is_small r \<Longrightarrow> \<not> same_obj same_ptr l r \<Longrightarrow> int_val l \<noteq> int_val r" by (cases l; cases r) auto
  have "mp_obj_int_binary_op fl MP_BINARY_OP_EQUAL (fst ?p) (snd ?p) = Inr (ResBool (int_val l = int_val r))"
    if "\<not> (is_small l \<and> is_small r)"
    using generic_compare(5) [OF assms(1,2) that, of fl] generic_compare(5) [OF assms(2,1), of fl] that by auto
  then show "mp_obj_equal_not_equal fl same_ptr MP_BINARY_OP_EQUAL l r = Inr (ResBool (int_val l = int_val r))"
    "mp_obj_equal_not_equal fl same_ptr MP_BINARY_OP_NOT_EQUAL l r = Inr (ResBool (int_val l \<noteq> int_val r))"
    unfolding mp_obj_equal_not_equal_def Let_def case_prod_beta using same diff by simp_all
qed

lemma divmod_correct:
  assumes "int_operand l" "int_operand r" "\<not> (l = IntSmall (- (2 ^ 30)) \<and> r = IntSmall (- 1))" "int_val r \<noteq> 0"
  shows "\<exists>q m. mp_binary_op fl same_ptr MP_BINARY_OP_DIVMOD l r = Inr (ResTuple q m) \<and> int_ok q \<and> int_ok m \<and>
    int_val q = int_val l div int_val r \<and> int_val m = int_val l mod int_val r"
proof (cases "is_small l \<and> is_small r")
  case True
  then obtain v w where lr: "l = IntSmall v" "r = IntSmall w" "small v" "small w" "w \<noteq> 0" using assms by (cases l; cases r) auto
  have "small (v div w)" using small_div_small [of v w] lr assms(3) by auto
  moreover have "small (v mod w)" using small_mod_small lr by simp
  ultimately show ?thesis using lr small_floor_divide [of v w] small_modulo [of v w]
    by (simp add: mp_binary_op_def small_binary_op_def new_small_int)
next
  case False
  then have g: "mp_binary_op fl same_ptr MP_BINARY_OP_DIVMOD l r = generic_binary_op fl MP_BINARY_OP_DIVMOD l r"
    by (cases l; cases r) (auto simp: mp_binary_op_def)
  obtain zl zr where z: "binary_op_lhs l r = Inr zl" "binary_op_rhs r = Inr zr" "mpz_canon zl" "mpz_canon zr"
    "mpz_val zl = int_val l" "mpz_val zr = int_val r"
    using binary_op_operands [OF assms(1,2) False] by blast
  then show ?thesis using long_divmod [of zl zr] assms(4) unfolding g
    by (auto simp: generic_binary_op_def mp_obj_int_binary_op_def mpz_canon_def mpz_is_zero_val lift_mpz_def)
qed

text \<open>
  C22: The comparison operators on integers are those of the unbounded integers, also between a small and a long
  integer, and equality takes its short cut for identical objects only if they are equal. \<^verbatim>\<open>divmod\<close> gives the pair of
  quotient and remainder, or raises its exception for a zero divisor. The pair \<open>- 2 ^ 30\<close> and \<open>- 1\<close> of small integers
  is left out, where \<^verbatim>\<open>divmod\<close> overflows.
\<close>

theorem int_compare_divmod_correct:
  assumes "int_operand l" "int_operand r" "same_ptr \<Longrightarrow> l = r"
  shows "mp_binary_op fl same_ptr MP_BINARY_OP_LESS l r = Inr (ResBool (int_val l < int_val r)) \<and>
    mp_binary_op fl same_ptr MP_BINARY_OP_MORE l r = Inr (ResBool (int_val l > int_val r)) \<and>
    mp_binary_op fl same_ptr MP_BINARY_OP_LESS_EQUAL l r = Inr (ResBool (int_val l \<le> int_val r)) \<and>
    mp_binary_op fl same_ptr MP_BINARY_OP_MORE_EQUAL l r = Inr (ResBool (int_val l \<ge> int_val r)) \<and>
    mp_binary_op fl same_ptr MP_BINARY_OP_EQUAL l r = Inr (ResBool (int_val l = int_val r)) \<and>
    mp_binary_op fl same_ptr MP_BINARY_OP_NOT_EQUAL l r = Inr (ResBool (int_val l \<noteq> int_val r)) \<and>
    (int_val r = 0 \<longrightarrow> mp_binary_op fl same_ptr MP_BINARY_OP_DIVMOD l r = Inl ZeroDivisionError) \<and>
    (int_val r \<noteq> 0 \<and> \<not> (l = IntSmall (- (2 ^ 30)) \<and> r = IntSmall (- 1)) \<longrightarrow>
      (\<exists>q m. mp_binary_op fl same_ptr MP_BINARY_OP_DIVMOD l r = Inr (ResTuple q m) \<and> int_ok q \<and> int_ok m \<and>
        int_val q = int_val l div int_val r \<and> int_val m = int_val l mod int_val r))"
proof -
  have eq: "mp_binary_op fl same_ptr MP_BINARY_OP_EQUAL l r = Inr (ResBool (int_val l = int_val r))"
    "mp_binary_op fl same_ptr MP_BINARY_OP_NOT_EQUAL l r = Inr (ResBool (int_val l \<noteq> int_val r))"
    using equal_not_equal [OF assms, where fl = fl] by (simp_all add: mp_binary_op_def)
  have "mp_binary_op fl same_ptr MP_BINARY_OP_DIVMOD l r = Inl ZeroDivisionError" if "int_val r = 0"
  proof (cases "is_small l \<and> is_small r")
    case True
    then show ?thesis using that by (cases l; cases r) (auto simp: mp_binary_op_def small_binary_op_def)
  next
    case False
    have "mp_obj_int_binary_op fl MP_BINARY_OP_DIVMOD l r = Inl ZeroDivisionError"
      using binary_op_operands [OF assms(1,2) False] that
      by (auto simp: mp_obj_int_binary_op_def mpz_canon_def mpz_is_zero_val)
    then show ?thesis using False by (cases l; cases r) (auto simp: mp_binary_op_def generic_binary_op_def)
  qed
  then show ?thesis using eq int_order [OF assms(1,2), where fl = fl and same_ptr = same_ptr]
    divmod_correct [OF assms(1,2), where fl = fl and same_ptr = same_ptr] by blast
qed

theorem int_compare_divmod_correct_witness:
  "mp_binary_op (\<lambda>_ _ _. Inr ()) False MP_BINARY_OP_LESS (IntSmall (- 7)) (IntSmall 2) = Inr (ResBool True) \<and>
   (\<exists>q m. mp_binary_op (\<lambda>_ _ _. Inr ()) False MP_BINARY_OP_DIVMOD (IntSmall (- 7)) (IntSmall 2) = Inr (ResTuple q m) \<and>
     int_val q = - 4 \<and> int_val m = 1)"
  using int_compare_divmod_correct [of "IntSmall (- 7)" "IntSmall 2" False "\<lambda>_ _ _. Inr ()"] by (auto simp: small_def)

lemma new_int_correct:
  assumes "- (2 ^ 31) \<le> n" "n < 2 ^ 31"
  shows "\<exists>y. mp_obj_new_int n = Inr y \<and> int_ok y \<and> int_val y = n"
  using small_fits [OF assms] new_int_from_ll [OF assms]
  by (cases "small n") (auto simp: mp_obj_new_int_def new_small_int mpz_canon_def)

lemma s32_double: "s32 (2 * s32 v + 1) = s32 (2 * v + 1)"
proof -
  have "s32 v mod 2 ^ 32 = v mod 2 ^ 32" unfolding s32_def by (simp add: mod_diff_left_eq)
  then have "(2 * s32 v + 1) mod 2 ^ 32 = (2 * v + 1) mod 2 ^ 32" by (metis mod_add_left_eq mod_mult_right_eq)
  then show ?thesis by (metis s32_mod)
qed

lemma small_hash: "small v \<Longrightarrow> s32 (2 * v + 1) div 2 = v"
  by (simp add: s32_id small_def)

lemma small_unary:
  assumes "small v"
  shows "yields_int (mp_unary_op MP_UNARY_OP_NEGATIVE (IntSmall v) :: int_error + 'f op_result) (- v)"
    "yields_int (mp_unary_op MP_UNARY_OP_ABS (IntSmall v) :: int_error + 'f op_result) \<bar>v\<bar>"
    "yields_int (mp_unary_op MP_UNARY_OP_INVERT (IntSmall v) :: int_error + 'f op_result) (NOT v)"
proof -
  obtain y where y: "mp_obj_new_int (2 ^ 30) = Inr y" "int_ok y" "int_val y = 2 ^ 30" using new_int_correct [of "2 ^ 30"] by auto
  have m: "v = MP_SMALL_INT_MIN \<Longrightarrow> v = - (2 ^ 30)" "v \<noteq> MP_SMALL_INT_MIN \<Longrightarrow> small (- v)"
    using assms by (auto simp: small_bounds small_def)
  have n: "small (NOT v)" using assms by (simp add: small_def not_int_def)
  show "yields_int (mp_unary_op MP_UNARY_OP_NEGATIVE (IntSmall v) :: int_error + 'f op_result) (- v)"
    "yields_int (mp_unary_op MP_UNARY_OP_ABS (IntSmall v) :: int_error + 'f op_result) \<bar>v\<bar>"
    using m y assms by (cases "v = MP_SMALL_INT_MIN"; auto simp: yields_int_def new_small_int small_bounds(1))+
  show "yields_int (mp_unary_op MP_UNARY_OP_INVERT (IntSmall v) :: int_error + 'f op_result) (NOT v)"
    using n by (simp add: yields_int_def new_small_int)
qed

lemma long_unary:
  assumes "mpz_canon z"
  shows "yields_int (mp_unary_op MP_UNARY_OP_NEGATIVE (IntLong z) :: int_error + 'f op_result) (- mpz_val z)"
    "yields_int (mp_unary_op MP_UNARY_OP_INVERT (IntLong z) :: int_error + 'f op_result) (NOT (mpz_val z))"
    "yields_int (mp_unary_op MP_UNARY_OP_ABS (IntLong z) :: int_error + 'f op_result) \<bar>mpz_val z\<bar>"
proof -
  have w: "mpz_wf z" using assms by (simp add: mpz_canon_def)
  have bind: "yields_int (res_bind r (\<lambda>r. case r of ResNull \<Rightarrow> Inl TypeError | _ \<Rightarrow> Inr r) :: int_error + 'f op_result) v"
    if "yields_int r v" for r :: "int_error + 'f op_result" and v using that by (auto simp: yields_int_def)
  have y: "yields_int (long_result (mpz_neg_inpl False mpz_init_zero z) :: int_error + 'f op_result) (- mpz_val z)"
    "yields_int (long_result (mpz_not_inpl False mpz_init_zero z) :: int_error + 'f op_result) (NOT (mpz_val z))"
    "yields_int (long_result (mpz_abs_inpl False mpz_init_zero z) :: int_error + 'f op_result) \<bar>mpz_val z\<bar>"
    by (rule long_result_yields, rule mpz_neg_inpl_yields mpz_not_inpl_yields mpz_abs_inpl_yields; simp add: w)+
  show "yields_int (mp_unary_op MP_UNARY_OP_NEGATIVE (IntLong z) :: int_error + 'f op_result) (- mpz_val z)"
    "yields_int (mp_unary_op MP_UNARY_OP_INVERT (IntLong z) :: int_error + 'f op_result) (NOT (mpz_val z))"
    using bind y(1,2) by (simp_all add: mp_obj_int_unary_op_def)
  have "\<not> neg z \<Longrightarrow> \<bar>mpz_val z\<bar> = mpz_val z" using mpz_val_sign [OF assms] by simp
  then show "yields_int (mp_unary_op MP_UNARY_OP_ABS (IntLong z) :: int_error + 'f op_result) \<bar>mpz_val z\<bar>"
    using bind y(3) w by (auto simp: mp_obj_int_unary_op_def yields_int_def)
qed

text \<open>
  C23: The unary operators on an integer are exact, in either representation, including the negation of the
  least small integer, which becomes a long one; truth and sign are those of the value; equal integers have
  equal hashes. The conversions to machine integers give the value or raise an exception, and the truncating one
  reduces modulo \<open>2 ^ 32\<close>; a machine integer converted to an object has its value.
\<close>

theorem int_unary_conversions_correct:
  assumes "int_operand x" "- (2 ^ 31) \<le> n" "n < 2 ^ 31"
  shows "yields_int (mp_unary_op MP_UNARY_OP_POSITIVE x :: int_error + 'f op_result) (int_val x) \<and>
    yields_int (mp_unary_op MP_UNARY_OP_NEGATIVE x :: int_error + 'f op_result) (- int_val x) \<and>
    yields_int (mp_unary_op MP_UNARY_OP_INVERT x :: int_error + 'f op_result) (NOT (int_val x)) \<and>
    yields_int (mp_unary_op MP_UNARY_OP_ABS x :: int_error + 'f op_result) \<bar>int_val x\<bar> \<and>
    (mp_unary_op MP_UNARY_OP_BOOL x :: int_error + 'f op_result) = Inr (ResBool (int_val x \<noteq> 0)) \<and>
    (mp_unary_op MP_UNARY_OP_NOT x :: int_error + 'f op_result) = Inr (ResBool (int_val x = 0)) \<and>
    (mp_unary_op MP_UNARY_OP_HASH x :: int_error + 'f op_result) = Inr (ResInt (IntSmall (s32 (2 * int_val x + 1) div 2))) \<and>
    mp_obj_int_sign x = sgn (int_val x) \<and>
    mp_obj_int_get_truncated x = s32 (int_val x) \<and>
    mp_obj_int_get_checked x = (if \<bar>int_val x\<bar> < 2 ^ 31 then Inr (int_val x) else Inl OverflowError) \<and>
    mp_obj_int_get_uint_checked x = (if 0 \<le> int_val x \<and> int_val x < 2 ^ 32 then Inr (int_val x) else Inl OverflowError) \<and>
    (\<exists>y. mp_obj_new_int n = Inr y \<and> int_ok y \<and> int_val y = n)"
proof (cases x)
  case (IntSmall v)
  then have v: "small v" using assms(1) by simp
  have b: "s32 v = v" "0 \<le> v \<longrightarrow> v < 2 ^ 32" using v by (auto simp: small_def s32_id)
  have h: "yields_int (mp_unary_op MP_UNARY_OP_POSITIVE x :: int_error + 'f op_result) (int_val x)"
    "(mp_unary_op MP_UNARY_OP_BOOL x :: int_error + 'f op_result) = Inr (ResBool (int_val x \<noteq> 0))"
    "(mp_unary_op MP_UNARY_OP_NOT x :: int_error + 'f op_result) = Inr (ResBool (int_val x = 0))"
    "(mp_unary_op MP_UNARY_OP_HASH x :: int_error + 'f op_result) = Inr (ResInt (IntSmall (s32 (2 * int_val x + 1) div 2)))"
    using v by (simp_all add: IntSmall yields_int_def new_small_int small_hash small_def)
  have k: "mp_obj_int_sign x = sgn (int_val x)" "mp_obj_int_get_truncated x = s32 (int_val x)"
    "mp_obj_int_get_uint_checked x = (if 0 \<le> int_val x \<and> int_val x < 2 ^ 32 then Inr (int_val x) else Inl OverflowError)"
    using b by (auto simp: IntSmall sgn_if)
  show ?thesis
    by (intro conjI h k get_checked_val [OF assms(1)] new_int_correct [OF assms(2,3)];
      unfold IntSmall int_val.simps; rule small_unary [OF v])
next
  case (IntLong z)
  then have z: "mpz_canon z" "mpz_wf z" using assms(1) by (simp_all add: mpz_canon_def)
  have sg: "mp_obj_int_sign x = sgn (int_val x)"
    using mpz_val_sign [OF z(1)] mpz_val_0_iff [OF z(2)] IntLong by (auto simp: sgn_if)
  have un: "mp_obj_int_get_uint_checked x = (if 0 \<le> int_val x \<and> int_val x < 2 ^ 32 then Inr (int_val x) else Inl OverflowError)"
    using mpz_as_uint_checked_correct [OF z(2)] mpz_val_sign [OF z(1)] IntLong by (auto split: if_splits)
  show ?thesis
    using long_unary [OF z(1), where 'f = 'f] new_int_correct [OF assms(2,3)] get_checked_val [OF assms(1)] sg un z IntLong
    by (simp add: yields_int_def mp_obj_int_unary_op_def mpz_is_zero_val mpz_hash_correct MP_OBJ_NEW_SMALL_INT_def s32_double)
qed

theorem int_unary_conversions_correct_witness:
  "yields_int (mp_unary_op MP_UNARY_OP_NEGATIVE (IntSmall (- 1073741824)) :: int_error + unit op_result) 1073741824 \<and>
   (\<exists>y. mp_obj_new_int 2147483647 = Inr y \<and> int_val y = 2147483647)"
  using int_unary_conversions_correct [where 'f = unit, of "IntSmall (- 1073741824)" 2147483647] by (auto simp: small_def)

text \<open>
  C24: The built-in power with a modulus ends, with a well-formed long integer whose value is the power reduced modulo
  the modulus, with the sign of the modulus, for a positive exponent and a modulus other than zero, in any mix of
  representations.
\<close>

theorem int_pow3_correct:
  assumes "int_operand b" "int_operand e" "int_operand m" "0 < int_val e" "int_val m \<noteq> 0"
  shows "\<exists>x. mp_obj_int_pow3 b e m = Inr x \<and> int_ok x \<and> int_val x = int_val b ^ nat (int_val e) mod int_val m"
proof -
  have arg: "\<exists>z. mp_mpz_for_int x = Inr z \<and> mpz_wf z \<and> mpz_val z = int_val x" if "int_operand x" for x
  proof (cases x)
    case (IntSmall v)
    then show ?thesis using mpz_set_from_int_yields [of mpz_init_zero v] that small_s32 [of v]
      by (auto simp: mpz_init_from_int_def lift_mpz_def elim!: mpz_yieldsE)
  qed (use that in \<open>simp add: mpz_canon_def\<close>)
  obtain zb ze zm where z: "mp_mpz_for_int b = Inr zb" "mp_mpz_for_int e = Inr ze" "mp_mpz_for_int m = Inr zm"
    "mpz_wf zb" "mpz_wf ze" "mpz_wf zm" "mpz_val zb = int_val b" "mpz_val ze = int_val e" "mpz_val zm = int_val m"
    using arg [OF assms(1)] arg [OF assms(2)] arg [OF assms(3)] by blast
  obtain res where res: "mpz_set_from_ll mpz_init_zero 0 False = Inr res" "\<not> fixed_dig res"
    using mpz_set_from_ll_yields [of mpz_init_zero False 0] by auto
  obtain x where "mpz_pow3_inpl False False res zb ze zm = Inr x" "mpz_wf x"
    "mpz_val x = mpz_val zb ^ nat (mpz_val ze) mod mpz_val zm"
    using mpz_pow3_inpl_correct [OF res(2) z(4-6)] assms(4,5) z(8,9) by auto
  then show ?thesis using z res by (simp add: mp_obj_int_pow3_def lift_mpz_def)
qed

theorem int_pow3_correct_witness:
  "\<exists>x. mp_obj_int_pow3 (IntSmall 3) (IntSmall 5) (IntSmall (- 100)) = Inr x \<and> int_val x = - 57"
  using int_pow3_correct [of "IntSmall 3" "IntSmall 5" "IntSmall (- 100)"] by (auto simp: small_def)

section \<open>Where the operators fail\<close>

text \<open>
  \<^verbatim>\<open>divmod\<close> of small integers makes its quotient a small integer without a check: of the least small integer and
  \<open>- 1\<close> it is the least small integer again. Matrix multiplication with a long integer reaches an assertion; with a
  small left operand and a small right one it raises its exception.
\<close>

lemma divmod_overflows:
  "mp_binary_op fl same_ptr MP_BINARY_OP_DIVMOD (IntSmall (- (2 ^ 30))) (IntSmall (- 1)) =
     Inr (ResTuple (IntSmall (- (2 ^ 30))) (IntSmall 0))"
  by (simp add: mp_binary_op_def small_binary_op_def small_floor_divide small_modulo small_def MP_OBJ_NEW_SMALL_INT_def s32_def)

lemma mat_multiply_asserts:
  "int_operand r \<Longrightarrow> int_operand (IntLong z) \<Longrightarrow> mp_binary_op fl same_ptr (MP_BINARY_OP_ARITH OP_MAT_MULTIPLY) (IntLong z) r = Inl AssertArith"
  "mp_binary_op fl same_ptr (MP_BINARY_OP_ARITH OP_MAT_MULTIPLY) (IntSmall v) (IntSmall w) = Inl TypeError"
  using binary_op_operands [of "IntLong z" r]
  by (auto simp: mp_binary_op_def generic_binary_op_def mp_obj_int_binary_op_def long_arith_def small_binary_op_def small_arith_def)

end
