(* ===== verification/Hash_Table.thy ===== *)
theory Hash_Table
  imports Prelude
begin

text \<open>
  The open-addressing table that \<^verbatim>\<open>py/map.c\<close> uses for maps and for sets: slots that are empty,
  deleted or filled, the growth policy, and the linear probe of the loops of
  \<^verbatim>\<open>mp_map_lookup\<close> and \<^verbatim>\<open>mp_set_lookup\<close>, with its invariant. Table sizes are natural numbers: a
  table of \<open>2 ^ 29\<close> slots does not fit a 32-bit address space.
\<close>

section \<open>Slots and sizes\<close>

datatype 'k key =
    Null      \<comment> \<open>\<^verbatim>\<open>MP_OBJ_NULL\<close>: never used since the last rehash\<close>
  | Sentinel  \<comment> \<open>\<^verbatim>\<open>MP_OBJ_SENTINEL\<close>: deleted\<close>
  | Key 'k

datatype lookup_kind = LOOKUP | ADD_IF_NOT_FOUND | REMOVE_IF_FOUND | ADD_IF_NOT_FOUND_OR_REMOVE_IF_FOUND

definition adds :: "lookup_kind \<Rightarrow> bool" where
  "adds kind \<longleftrightarrow> kind = ADD_IF_NOT_FOUND \<or> kind = ADD_IF_NOT_FOUND_OR_REMOVE_IF_FOUND"

definition removes :: "lookup_kind \<Rightarrow> bool" where
  "removes kind \<longleftrightarrow> kind = REMOVE_IF_FOUND \<or> kind = ADD_IF_NOT_FOUND_OR_REMOVE_IF_FOUND"

definition hash_allocation_sizes :: "nat list" where
  "hash_allocation_sizes =
     [0, 2, 4, 6, 8, 10, 12,
      17, 23, 29, 37, 47, 59, 73,
      97, 127, 167, 223, 293, 389, 521, 691, 919, 1223, 1627, 2161,
      3229, 4831, 7243, 10861, 16273, 24407, 36607, 54907]"

definition get_hash_alloc_greater_or_equal_to :: "nat \<Rightarrow> nat" where
  "get_hash_alloc_greater_or_equal_to x =
     (case find (\<lambda>n. n \<ge> x) hash_allocation_sizes of
        Some n \<Rightarrow> n
      | None \<Rightarrow> (x + x div 2) OR 1)"

lemma get_hash_alloc_ge: "x \<le> get_hash_alloc_greater_or_equal_to x"
proof (cases "find (\<lambda>n. n \<ge> x) hash_allocation_sizes")
  case None
  have "x + x div 2 \<le> (x + x div 2) OR 1" by (simp add: or_one_eq flip: One_nat_def)
  then show ?thesis using None by (simp add: get_hash_alloc_greater_or_equal_to_def)
next
  case (Some n)
  moreover from this have "x \<le> n" by (auto simp: find_Some_iff)
  ultimately show ?thesis by (simp add: get_hash_alloc_greater_or_equal_to_def)
qed

section \<open>The probe\<close>

text \<open>
  How the search ends: at a matching slot, at an empty slot, or back at its start; the last
  two carry the first deleted slot that was seen. \<open>ProbeStuck\<close> stands for a search that would go on
  for more turns than the table has slots.
\<close>

datatype probe_result =
    ProbeFound nat
  | ProbeNull nat "nat option"
  | ProbeWrapped "nat option"
  | ProbeStuck

fun probe_loop :: "nat \<Rightarrow> ('k \<Rightarrow> bool) \<Rightarrow> 'k key list \<Rightarrow> nat \<Rightarrow> nat \<Rightarrow> nat option \<Rightarrow> probe_result" where
  "probe_loop 0 match keys start_pos pos avail_slot = ProbeStuck"
| "probe_loop (Suc fuel) match keys start_pos pos avail_slot =
     (case keys ! pos of
        Null \<Rightarrow> ProbeNull pos avail_slot
      | Sentinel \<Rightarrow>
          (let avail_slot = (if avail_slot = None then Some pos else avail_slot);
               pos = (pos + 1) mod length keys
           in if pos = start_pos then ProbeWrapped avail_slot
              else probe_loop fuel match keys start_pos pos avail_slot)
      | Key k \<Rightarrow>
          (if match k then ProbeFound pos
           else let pos = (pos + 1) mod length keys
                in if pos = start_pos then ProbeWrapped avail_slot
                   else probe_loop fuel match keys start_pos pos avail_slot))"

definition probe :: "('k \<Rightarrow> bool) \<Rightarrow> 'k key list \<Rightarrow> nat \<Rightarrow> probe_result" where
  "probe match keys hash =
     (let pos = hash mod length keys in probe_loop (length keys) match keys pos pos None)"

text \<open>The key a deleted slot gets: empty if the slot after it is empty.\<close>

definition deleted_key :: "'k key list \<Rightarrow> nat \<Rightarrow> 'k key" where
  "deleted_key keys pos = (if keys ! ((pos + 1) mod length keys) = Null then Null else Sentinel)"

section \<open>What the probe finds\<close>

text \<open>The slots before offset \<open>d\<close> from the hash are passed over: not empty and not matching.\<close>

definition passed :: "('k \<Rightarrow> bool) \<Rightarrow> 'k key list \<Rightarrow> nat \<Rightarrow> nat \<Rightarrow> bool" where
  "passed match keys h d \<longleftrightarrow>
     (\<forall>e < d. keys ! ((h + e) mod length keys) \<noteq> Null \<and>
        (\<forall>k. keys ! ((h + e) mod length keys) = Key k \<longrightarrow> \<not> match k))"

definition avail_ok :: "'k key list \<Rightarrow> nat \<Rightarrow> nat \<Rightarrow> nat option \<Rightarrow> bool" where
  "avail_ok keys h d avail \<longleftrightarrow>
     (case avail of
        None \<Rightarrow> \<forall>e < d. keys ! ((h + e) mod length keys) \<noteq> Sentinel
      | Some p \<Rightarrow> \<exists>e < d. p = (h + e) mod length keys \<and> keys ! p = Sentinel)"

definition probe_ok :: "('k \<Rightarrow> bool) \<Rightarrow> 'k key list \<Rightarrow> nat \<Rightarrow> probe_result \<Rightarrow> bool" where
  "probe_ok match keys h r \<longleftrightarrow>
     (case r of
        ProbeFound p \<Rightarrow> (\<exists>k. p < length keys \<and> keys ! p = Key k \<and> match k)
      | ProbeNull p avail \<Rightarrow>
          (\<exists>d < length keys. p = (h + d) mod length keys \<and> keys ! p = Null \<and> passed match keys h d \<and>
             avail_ok keys h d avail)
      | ProbeWrapped avail \<Rightarrow> passed match keys h (length keys) \<and> avail_ok keys h (length keys) avail
      | ProbeStuck \<Rightarrow> False)"

lemma passed_Suc:
  "passed match keys h (Suc d) \<longleftrightarrow> passed match keys h d \<and> keys ! ((h + d) mod length keys) \<noteq> Null \<and>
     (\<forall>k. keys ! ((h + d) mod length keys) = Key k \<longrightarrow> \<not> match k)"
  by (auto simp: passed_def less_Suc_eq)

lemma avail_ok_Suc:
  assumes "avail_ok keys h d avail"
  shows "keys ! ((h + d) mod length keys) = Sentinel \<Longrightarrow>
      avail_ok keys h (Suc d) (if avail = None then Some ((h + d) mod length keys) else avail)"
    and "keys ! ((h + d) mod length keys) \<noteq> Sentinel \<Longrightarrow> avail_ok keys h (Suc d) avail"
  using assms by (auto simp: avail_ok_def less_Suc_eq split: option.splits)

lemma next_offset: "((h + d) mod n + 1) mod n = (h + Suc d) mod (n :: nat)"
  by (simp add: mod_Suc_eq)

lemma back_at_start:
  assumes "d < (n :: nat)" "(h + Suc d) mod n = h mod n"
  shows "Suc d = n"
proof -
  have "n dvd Suc d" using assms(2) by (metis add_diff_cancel_left' le_add1 mod_eq_dvd_iff_nat)
  then show ?thesis using assms(1) by (auto dest: dvd_imp_le)
qed

lemma offset_inj:
  assumes "d < (n :: nat)" "e < n" "(h + d) mod n = (h + e) mod n"
  shows "d = e"
proof -
  have False if "i < j" "j < n" "(h + i) mod n = (h + j) mod n" for i j
  proof -
    have "Suc (j - i - 1) = n" using that by (intro back_at_start [of _ n "h + i"]) auto
    then show False using that by linarith
  qed
  then show ?thesis using assms by (metis linorder_neqE_nat)
qed

lemma probe_loop_ok:
  assumes "d < length keys" "fuel = length keys - d" "passed match keys h d" "avail_ok keys h d avail"
  shows "probe_ok match keys h (probe_loop fuel match keys (h mod length keys) ((h + d) mod length keys) avail)"
  using assms
proof (induction fuel arbitrary: d avail)
  case (Suc fuel)
  let ?n = "length keys" and ?pos = "(h + d) mod length keys"
  have pos: "?pos < ?n" using Suc.prems(1) by (intro mod_less_divisor) linarith
  have step: "probe_ok match keys h (if (?pos + 1) mod ?n = h mod ?n then ProbeWrapped a
      else probe_loop fuel match keys (h mod ?n) ((?pos + 1) mod ?n) a)"
    if "passed match keys h (Suc d)" "avail_ok keys h (Suc d) a" for a
  proof (cases "(?pos + 1) mod ?n = h mod ?n")
    case True
    then have "Suc d = ?n" using back_at_start Suc.prems(1) unfolding next_offset by blast
    then show ?thesis using True that by (simp add: probe_ok_def)
  next
    case False
    then have "Suc d \<noteq> ?n" unfolding next_offset by (metis mod_add_self2)
    moreover have "fuel = ?n - Suc d" using Suc.prems(2) by linarith
    ultimately show ?thesis using False that Suc.IH [of "Suc d" a] Suc.prems(1) unfolding next_offset by simp
  qed
  show ?case
  proof (cases "keys ! ?pos")
    case Null
    then show ?thesis using Suc.prems(1,3,4) by (auto simp: probe_ok_def)
  next
    case Sentinel
    have "passed match keys h (Suc d)" using Sentinel Suc.prems(3) by (simp add: passed_Suc)
    from step [OF this avail_ok_Suc(1) [OF Suc.prems(4) Sentinel]] show ?thesis
      unfolding probe_loop.simps Sentinel key.case Let_def .
  next
    case (Key k)
    show ?thesis
    proof (cases "match k")
      case True
      then show ?thesis using Key pos by (simp add: probe_ok_def)
    next
      case False
      have "passed match keys h (Suc d)" using Key False Suc.prems(3) by (simp add: passed_Suc)
      moreover have "avail_ok keys h (Suc d) avail" using avail_ok_Suc(2) [OF Suc.prems(4)] Key by simp
      ultimately show ?thesis
        using step False unfolding probe_loop.simps Key key.case Let_def if_not_P [OF False] by blast
    qed
  qed
qed simp

lemma probe_correct:
  assumes "keys \<noteq> []"
  shows "probe_ok match keys h (probe match keys h)"
  using probe_loop_ok [of 0 keys "length keys" match h None] assms
  by (simp add: probe_def Let_def passed_def avail_ok_def)

section \<open>The invariant of a table\<close>

text \<open>
  Every filled slot is reached from the hash of its key without crossing an empty slot, and
  no two filled slots have equal keys.
\<close>

definition table_ok :: "('k \<Rightarrow> nat) \<Rightarrow> ('k \<Rightarrow> 'k \<Rightarrow> bool) \<Rightarrow> 'k key list \<Rightarrow> bool" where
  "table_ok hash equal keys \<longleftrightarrow>
     (\<forall>k. \<forall>d < length keys. keys ! ((hash k + d) mod length keys) = Key k \<longrightarrow>
        (\<forall>e < d. keys ! ((hash k + e) mod length keys) \<noteq> Null)) \<and>
     (\<forall>i < length keys. \<forall>j < length keys. \<forall>a b. keys ! i = Key a \<and> keys ! j = Key b \<and> equal a b \<longrightarrow> i = j)"

definition filled :: "'k key list \<Rightarrow> nat" where
  "filled keys = length (filter (\<lambda>x. x \<noteq> Null \<and> x \<noteq> Sentinel) keys)"

lemma offset_of:
  assumes "i < (n :: nat)"
  obtains d where "d < n" "(h + d) mod n = i"
proof
  show "(i + (n - h mod n)) mod n < n" using assms by (intro mod_less_divisor) linarith
  have "h mod n < n" using assms by (intro mod_less_divisor) linarith
  then have "h mod n + (i + (n - h mod n)) = i + n" by linarith
  then have "(h mod n + (i + (n - h mod n))) mod n = i" using assms by (simp only: mod_add_self2 mod_less)
  then show "(h + (i + (n - h mod n)) mod n) mod n = i" by (simp add: mod_simps)
qed

lemma table_ok_empty: "table_ok hash equal (replicate n Null)"
proof -
  have "replicate n Null ! (m mod n) \<noteq> Key k" if "0 < n" for m k using that by simp
  then show ?thesis by (auto simp: table_ok_def)
qed

lemma filled_update:
  assumes "i < length keys"
  shows "filled (keys[i := x]) + of_bool (keys ! i \<noteq> Null \<and> keys ! i \<noteq> Sentinel) =
    filled keys + of_bool (x \<noteq> Null \<and> x \<noteq> Sentinel)"
  using assms
proof (induction keys arbitrary: i)
  case (Cons y keys)
  then show ?case by (cases i) (auto simp: filled_def)
qed simp

lemma filled_le: "filled keys \<le> length keys"
  by (simp add: filled_def)

lemma not_free_iff: "x \<noteq> Null \<and> x \<noteq> Sentinel \<longleftrightarrow> (\<exists>k. x = Key k)"
  by (cases x) simp_all

lemma filled_all_iff: "filled keys = length keys \<longleftrightarrow> (\<forall>i < length keys. \<exists>k. keys ! i = Key k)"
proof -
  let ?P = "\<lambda>x. x \<noteq> Null \<and> x \<noteq> Sentinel"
  have "filled keys = length keys \<longleftrightarrow> (\<forall>x \<in> set keys. ?P x)"
  proof
    assume l: "filled keys = length keys"
    show "\<forall>x \<in> set keys. ?P x"
    proof (rule ccontr)
      assume "\<not> (\<forall>x \<in> set keys. ?P x)"
      then obtain x where "x \<in> set keys" "\<not> ?P x" by blast
      then have "length (filter ?P keys) < length keys" by (rule length_filter_less)
      then show False using l by (simp add: filled_def)
    qed
  qed (simp add: filled_def)
  also have "\<dots> \<longleftrightarrow> (\<forall>x \<in> set keys. \<exists>k. x = Key k)" unfolding not_free_iff ..
  also have "\<dots> \<longleftrightarrow> (\<forall>i < length keys. \<exists>k. keys ! i = Key k)"
    by (rule all_set_conv_all_nth)
  finally show ?thesis .
qed

lemma table_ok_insert:
  assumes ok: "table_ok hash equal keys" and e: "e < length keys"
    and before: "\<forall>e' < e. keys ! ((hash index + e') mod length keys) \<noteq> Null"
    and free: "keys ! ((hash index + e) mod length keys) = Null \<or> keys ! ((hash index + e) mod length keys) = Sentinel"
    and new: "\<forall>i < length keys. \<forall>k. keys ! i = Key k \<longrightarrow> \<not> equal k index \<and> \<not> equal index k"
  shows "table_ok hash equal (keys[(hash index + e) mod length keys := Key index])"
proof -
  let ?n = "length keys" and ?p = "(hash index + e) mod length keys"
  have p: "?p < ?n" using e by (intro mod_less_divisor) linarith
  have upd: "keys[?p := Key index] ! i = (if i = ?p then Key index else keys ! i)" if "i < ?n" for i
    using that by (auto simp: nth_list_update)
  have lt: "m mod ?n < ?n" for m using e by (intro mod_less_divisor) linarith
  have chain: "keys[?p := Key index] ! ((hash k + e') mod ?n) \<noteq> Null"
    if h: "d < ?n" "keys[?p := Key index] ! ((hash k + d) mod ?n) = Key k" "e' < d" for k d e'
  proof (cases "(hash k + d) mod ?n = ?p")
    case True
    then have k: "k = index" using h(2) upd lt by simp
    have "d = e" using offset_inj [OF h(1) e, of "hash index"] True k by simp
    then show ?thesis using before h(3) k upd lt by (auto split: if_splits)
  next
    case False
    then have "keys ! ((hash k + d) mod ?n) = Key k" using h(2) upd lt by simp
    then show ?thesis using ok h(1,3) upd lt by (auto simp: table_ok_def)
  qed
  have "i = j" if "i < ?n" "j < ?n" "keys[?p := Key index] ! i = Key a" "keys[?p := Key index] ! j = Key b" "equal a b"
    for i j a b
    using that new ok upd unfolding table_ok_def by (metis key.inject)
  with chain show ?thesis unfolding table_ok_def length_list_update by blast
qed

lemma table_ok_delete:
  assumes ok: "table_ok hash equal keys" and p: "p < length keys"
  shows "table_ok hash equal (keys[p := deleted_key keys p])"
proof -
  let ?n = "length keys" and ?k = "keys[p := deleted_key keys p]"
  have lt: "m mod ?n < ?n" for m using p by (intro mod_less_divisor) linarith
  have upd: "?k ! i = (if i = p then deleted_key keys p else keys ! i)" if "i < ?n" for i
    using that by (auto simp: nth_list_update)
  have nk: "deleted_key keys p \<noteq> Key k" for k by (simp add: deleted_key_def)
  have chain: "?k ! ((hash k + e) mod ?n) \<noteq> Null"
    if h: "d < ?n" "?k ! ((hash k + d) mod ?n) = Key k" "e < d" for k d e
  proof -
    have kd: "keys ! ((hash k + d) mod ?n) = Key k" using h(2) upd lt nk by (auto split: if_splits)
    then have c: "\<forall>e < d. keys ! ((hash k + e) mod ?n) \<noteq> Null" using ok h(1) by (simp add: table_ok_def)
    have "keys ! ((p + 1) mod ?n) \<noteq> Null" if "(hash k + e) mod ?n = p"
    proof -
      have "(p + 1) mod ?n = (hash k + Suc e) mod ?n" using that next_offset by metis
      then show ?thesis using c [rule_format, of "Suc e"] kd h(3) by (cases "Suc e = d") simp_all
    qed
    then show ?thesis using c h(3) upd lt by (auto simp: deleted_key_def)
  qed
  have "i = j" if "i < ?n" "j < ?n" "?k ! i = Key a" "?k ! j = Key b" "equal a b" for i j a b
    using that nk ok upd unfolding table_ok_def by metis
  with chain show ?thesis unfolding table_ok_def length_list_update by blast
qed

end
