(* ===== verification/Mp_Map.thy ===== *)
theory Mp_Map
  imports Hash_Table
begin

text \<open>
  The maps of \<^verbatim>\<open>py/map.c\<close>: hash tables and ordered arrays behind one lookup function. What the code
  asks of key objects (\<^verbatim>\<open>mp_obj_is_qstr\<close>, \<^verbatim>\<open>mp_obj_is_type(_, &mp_type_str)\<close>, \<^verbatim>\<open>mp_obj_equal\<close> and the
  hash) is a parameter, and equality of the parameter type is equality of object pointers;
  the locale \<^verbatim>\<open>obj_keys\<close> states what the map relies on, and \<^verbatim>\<open>Mp_Obj\<close> interprets it. A slot index
  stands for the pointer to a slot that \<^verbatim>\<open>mp_map_lookup\<close> returns, \<^const>\<open>None\<close> for a null pointer.
\<close>

record 'k key_ops =
  is_qstr :: "'k \<Rightarrow> bool"
  is_str :: "'k \<Rightarrow> bool"
  kequal :: "'k \<Rightarrow> 'k \<Rightarrow> bool"
  khash :: "'k \<Rightarrow> nat"

text \<open>The slots \<^verbatim>\<open>table[0..alloc)\<close> are the list, so \<^verbatim>\<open>alloc\<close> is its length; a null value is \<^const>\<open>None\<close>.\<close>

record ('k, 'v) mp_map =
  all_keys_are_qstrs :: bool
  is_fixed :: bool
  is_ordered :: bool
  used :: nat
  table :: "('k key \<times> 'v option) list"

datatype map_error =
    AssertMapFixed     \<comment> \<open>\<^verbatim>\<open>assert(!map->is_fixed || lookup_kind == MP_MAP_LOOKUP)\<close>\<close>
  | MapDiverges        \<comment> \<open>a search or rehash that does not end\<close>

definition map_alloc :: "('k, 'v) mp_map \<Rightarrow> nat" where
  "map_alloc m = length (table m)"

definition mp_map_init :: "nat \<Rightarrow> ('k, 'v) mp_map" where
  "mp_map_init n =
     \<lparr>all_keys_are_qstrs = True, is_fixed = False, is_ordered = False, used = 0,
      table = replicate n (Null, None)\<rparr>"

definition mp_map_init_fixed_table :: "('k \<times> 'v) list \<Rightarrow> ('k, 'v) mp_map" where
  "mp_map_init_fixed_table kvs =
     \<lparr>all_keys_are_qstrs = True, is_fixed = True, is_ordered = True, used = length kvs,
      table = map (\<lambda>(k, v). (Key k, Some v)) kvs\<rparr>"

definition mp_map_clear :: "('k, 'v) mp_map \<Rightarrow> ('k, 'v) mp_map" where
  "mp_map_clear m = m\<lparr>used := 0, all_keys_are_qstrs := True, is_fixed := False, table := []\<rparr>"

section \<open>Lookup\<close>

definition map_set_value :: "('k, 'v) mp_map \<Rightarrow> nat \<Rightarrow> 'v option \<Rightarrow> ('k, 'v) mp_map" where
  "map_set_value m i v = m\<lparr>table := (table m)[i := (fst (table m ! i), v)]\<rparr>"

text \<open>The code that fills a slot with a new key, and the code that deletes the key of a slot.\<close>

definition map_add_at :: "'k key_ops \<Rightarrow> ('k, 'v) mp_map \<Rightarrow> nat \<Rightarrow> 'k \<Rightarrow> ('k, 'v) mp_map" where
  "map_add_at ops m pos index =
     m\<lparr>used := used m + 1, table := (table m)[pos := (Key index, None)],
       all_keys_are_qstrs := all_keys_are_qstrs m \<and> is_qstr ops index\<rparr>"

definition map_remove_at :: "('k, 'v) mp_map \<Rightarrow> nat \<Rightarrow> ('k, 'v) mp_map" where
  "map_remove_at m pos =
     m\<lparr>used := used m - 1,
       table := (table m)[pos := (deleted_key (map fst (table m)) pos, snd (table m ! pos))]\<rparr>"

text \<open>
  The loop \<^verbatim>\<open>for (;;)\<close> over the hash table. A search that came back to its start without a free
  slot rehashes and starts again; with one slot more than keys the second search ends, so the
  loop is allowed one restart.
\<close>

definition key_match :: "'k key_ops \<Rightarrow> bool \<Rightarrow> 'k \<Rightarrow> 'k \<Rightarrow> bool" where
  "key_match ops compare_only_ptrs index k \<longleftrightarrow>
     k = index \<or> (\<not> compare_only_ptrs \<and> kequal ops k index)"

fun map_hash_loop :: "nat \<Rightarrow> (('k, 'v) mp_map \<Rightarrow> map_error + ('k, 'v) mp_map) \<Rightarrow> 'k key_ops \<Rightarrow> bool \<Rightarrow>
  ('k, 'v) mp_map \<Rightarrow> 'k \<Rightarrow> lookup_kind \<Rightarrow> map_error + ('k, 'v) mp_map \<times> nat option" where
  "map_hash_loop restarts rehash ops compare_only_ptrs m index kind =
     (case probe (key_match ops compare_only_ptrs index) (map fst (table m)) (khash ops index) of
        ProbeFound pos \<Rightarrow>
          Inr (if kind = REMOVE_IF_FOUND then map_remove_at m pos else m, Some pos)
      | ProbeNull pos avail \<Rightarrow>
          (if kind = ADD_IF_NOT_FOUND
           then let pos = (case avail of None \<Rightarrow> pos | Some p \<Rightarrow> p) in Inr (map_add_at ops m pos index, Some pos)
           else Inr (m, None))
      | ProbeWrapped avail \<Rightarrow>
          (if kind = ADD_IF_NOT_FOUND
           then (case avail of
                   Some pos \<Rightarrow> Inr (map_add_at ops m pos index, Some pos)
                 | None \<Rightarrow>
                     (case restarts of
                        0 \<Rightarrow> Inl MapDiverges
                      | Suc restarts' \<Rightarrow>
                          res_bind (rehash m) (\<lambda>m.
                          map_hash_loop restarts' rehash ops compare_only_ptrs m index kind)))
           else Inr (m, None))
      | ProbeStuck \<Rightarrow> Inl MapDiverges)"

declare map_hash_loop.simps [simp del]

text \<open>The linear search of an ordered array, over the slots \<^verbatim>\<open>table[0..used)\<close>.\<close>

definition ordered_find :: "'k key_ops \<Rightarrow> bool \<Rightarrow> ('k, 'v) mp_map \<Rightarrow> 'k \<Rightarrow> nat option" where
  "ordered_find ops compare_only_ptrs m index =
     find (\<lambda>i. case fst (table m ! i) of
                 Key k \<Rightarrow> key_match ops compare_only_ptrs index k
               | _ \<Rightarrow> False) [0..<used m]"

definition ordered_remove :: "('k, 'v) mp_map \<Rightarrow> nat \<Rightarrow> ('k, 'v) mp_map \<times> nat option" where
  "ordered_remove m i =
     (let v = snd (table m ! i); u = used m - 1
      in (m\<lparr>used := u,
            table := (take i (table m) @ take (u - i) (drop (i + 1) (table m)) @ drop u (table m))
                       [u := (Null, v)]\<rparr>, Some u))"

definition ordered_add :: "'k key_ops \<Rightarrow> ('k, 'v) mp_map \<Rightarrow> 'k \<Rightarrow> ('k, 'v) mp_map \<times> nat option" where
  "ordered_add ops m index =
     (let tbl = (if used m = map_alloc m then table m @ replicate 4 (Null, None) else table m)
      in (m\<lparr>used := used m + 1, table := tbl[used m := (Key index, snd (tbl ! used m))],
            all_keys_are_qstrs := all_keys_are_qstrs m \<and> is_qstr ops index\<rparr>, Some (used m)))"

definition ordered_lookup :: "'k key_ops \<Rightarrow> bool \<Rightarrow> ('k, 'v) mp_map \<Rightarrow> 'k \<Rightarrow> lookup_kind \<Rightarrow>
  ('k, 'v) mp_map \<times> nat option" where
  "ordered_lookup ops compare_only_ptrs m index kind =
     (case ordered_find ops compare_only_ptrs m index of
        Some i \<Rightarrow> (if kind = REMOVE_IF_FOUND then ordered_remove m i else (m, Some i))
      | None \<Rightarrow> (if kind \<noteq> ADD_IF_NOT_FOUND then (m, None) else ordered_add ops m index))"

definition map_lookup_body :: "(('k, 'v) mp_map \<Rightarrow> map_error + ('k, 'v) mp_map) \<Rightarrow> 'k key_ops \<Rightarrow>
  ('k, 'v) mp_map \<Rightarrow> 'k \<Rightarrow> lookup_kind \<Rightarrow> map_error + ('k, 'v) mp_map \<times> nat option" where
  "map_lookup_body rehash ops m index kind =
     (if is_fixed m \<and> kind \<noteq> LOOKUP then Inl AssertMapFixed
      else if all_keys_are_qstrs m \<and> \<not> is_qstr ops index \<and> \<not> is_str ops index \<and> kind \<noteq> ADD_IF_NOT_FOUND
      then Inr (m, None)
      else
        let compare_only_ptrs = (all_keys_are_qstrs m \<and> (is_qstr ops index \<or> \<not> is_str ops index))
        in if is_ordered m then Inr (ordered_lookup ops compare_only_ptrs m index kind)
           else if map_alloc m = 0 \<and> kind \<noteq> ADD_IF_NOT_FOUND then Inr (m, None)
           else res_bind (if map_alloc m = 0 then rehash m else Inr m) (\<lambda>m.
                map_hash_loop 1 rehash ops compare_only_ptrs m index kind))"

text \<open>The entries of the old table, added to the new one through the lookup \<open>add\<close>.\<close>

fun rehash_entries :: "(('k, 'v) mp_map \<Rightarrow> 'k \<Rightarrow> map_error + ('k, 'v) mp_map \<times> nat option) \<Rightarrow>
  ('k, 'v) mp_map \<Rightarrow> ('k key \<times> 'v option) list \<Rightarrow> map_error + ('k, 'v) mp_map" where
  "rehash_entries add m [] = Inr m"
| "rehash_entries add m ((Key k, v) # es) =
     res_bind (add m k) (\<lambda>(m, slot).
     rehash_entries add (case slot of Some i \<Rightarrow> map_set_value m i v | None \<Rightarrow> m) es)"
| "rehash_entries add m (_ # es) = rehash_entries add m es"

definition map_rehash_body :: "(('k, 'v) mp_map \<Rightarrow> 'k \<Rightarrow> map_error + ('k, 'v) mp_map \<times> nat option) \<Rightarrow>
  ('k, 'v) mp_map \<Rightarrow> map_error + ('k, 'v) mp_map" where
  "map_rehash_body add m =
     (let new_alloc = get_hash_alloc_greater_or_equal_to (map_alloc m + 1)
      in rehash_entries add
           (m\<lparr>used := 0, all_keys_are_qstrs := True, table := replicate new_alloc (Null, None)\<rparr>)
           (table m))"

text \<open>
  \<^verbatim>\<open>mp_map_lookup\<close> and \<^verbatim>\<open>mp_map_rehash\<close> call each other. The depth of the nesting is bounded by a
  number; depth one is enough, because a rehash adds to a table that has room.
\<close>

primrec map_lookup_depth :: "nat \<Rightarrow> 'k key_ops \<Rightarrow> ('k, 'v) mp_map \<Rightarrow> 'k \<Rightarrow> lookup_kind \<Rightarrow>
  map_error + ('k, 'v) mp_map \<times> nat option" where
  "map_lookup_depth 0 ops m index kind = map_lookup_body (\<lambda>m. Inl MapDiverges) ops m index kind"
| "map_lookup_depth (Suc depth) ops m index kind =
     map_lookup_body
       (map_rehash_body (\<lambda>m k. map_lookup_depth depth ops m k ADD_IF_NOT_FOUND)) ops m index kind"

definition mp_map_rehash :: "'k key_ops \<Rightarrow> ('k, 'v) mp_map \<Rightarrow> map_error + ('k, 'v) mp_map" where
  "mp_map_rehash ops = map_rehash_body (\<lambda>m k. map_lookup_depth 0 ops m k ADD_IF_NOT_FOUND)"

definition mp_map_lookup :: "'k key_ops \<Rightarrow> ('k, 'v) mp_map \<Rightarrow> 'k \<Rightarrow> lookup_kind \<Rightarrow>
  map_error + ('k, 'v) mp_map \<times> nat option" where
  "mp_map_lookup = map_lookup_depth 1"

section \<open>Invariant and contents\<close>

definition map_keys :: "('k, 'v) mp_map \<Rightarrow> 'k key list" where
  "map_keys m = map fst (table m)"

definition map_inv :: "'k key_ops \<Rightarrow> ('k, 'v) mp_map \<Rightarrow> bool" where
  "map_inv ops m \<longleftrightarrow> \<not> is_fixed m \<and> \<not> is_ordered m \<and>
     table_ok (khash ops) (kequal ops) (map_keys m) \<and> used m = filled (map_keys m) \<and>
     (all_keys_are_qstrs m \<longrightarrow> (\<forall>k. Key k \<in> set (map_keys m) \<longrightarrow> is_qstr ops k))"

definition map_entries :: "('k, 'v) mp_map \<Rightarrow> ('k \<times> 'v option) set" where
  "map_entries m = {(k, v). (Key k, v) \<in> set (table m)}"

text \<open>The value stored under a key: the outer \<^const>\<open>None\<close> is a missing key.\<close>

definition map_get :: "'k key_ops \<Rightarrow> ('k, 'v) mp_map \<Rightarrow> 'k \<Rightarrow> 'v option option" where
  "map_get ops m k =
     map_option snd (find (\<lambda>e. case fst e of Key k' \<Rightarrow> kequal ops k' k | _ \<Rightarrow> False) (table m))"

definition present :: "'k key_ops \<Rightarrow> ('k, 'v) mp_map \<Rightarrow> 'k \<Rightarrow> bool" where
  "present ops m k \<longleftrightarrow> (\<exists>k' v. (k', v) \<in> map_entries m \<and> kequal ops k' k)"

definition distinct_keys :: "'k key_ops \<Rightarrow> ('k key \<times> 'v option) list \<Rightarrow> bool" where
  "distinct_keys ops es \<longleftrightarrow>
     sorted_wrt (\<lambda>x y. \<forall>a b. fst x = Key a \<and> fst y = Key b \<longrightarrow> \<not> kequal ops a b) es"

lemma map_keys_length [simp]: "length (map_keys m) = map_alloc m"
  by (simp add: map_keys_def map_alloc_def)

lemma map_keys_nth: "i < map_alloc m \<Longrightarrow> map_keys m ! i = fst (table m ! i)"
  by (simp add: map_keys_def map_alloc_def)

lemma entries_nth: "(k, v) \<in> map_entries m \<longleftrightarrow> (\<exists>i < map_alloc m. table m ! i = (Key k, v))"
  by (auto simp: map_entries_def map_alloc_def in_set_conv_nth)

lemma key_in_keys: "Key k \<in> set (map_keys m) \<longleftrightarrow> (\<exists>v. (k, v) \<in> map_entries m)"
  by (force simp: map_keys_def map_entries_def)

lemma map_add_at_keys:
  "map_keys (map_add_at ops m p k) = (map_keys m)[p := Key k]" "map_alloc (map_add_at ops m p k) = map_alloc m"
  by (simp_all add: map_add_at_def map_keys_def map_alloc_def map_update)

lemma entries_update:
  assumes "p < map_alloc m" "table m' = (table m)[p := (x, v)]" "\<And>k. fst (table m ! p) \<noteq> Key k"
  shows "map_entries m' = map_entries m \<union> {(k, w). x = Key k \<and> w = v}"
proof -
  have "map_alloc m' = map_alloc m" by (simp add: map_alloc_def assms(2))
  then have "(k, w) \<in> map_entries m' \<longleftrightarrow>
      (\<exists>i < map_alloc m. i \<noteq> p \<and> table m ! i = (Key k, w)) \<or> (x = Key k \<and> v = w)" for k w
    unfolding entries_nth assms(2) using assms(1)
    by (auto simp: nth_list_update map_alloc_def split: if_splits)
  moreover have "(k, w) \<in> map_entries m \<longleftrightarrow> (\<exists>i < map_alloc m. i \<noteq> p \<and> table m ! i = (Key k, w))" for k w
    unfolding entries_nth using assms(3) by (metis fst_conv)
  ultimately show ?thesis using assms(1) by auto
qed

lemma entries_overwrite:
  assumes "p < map_alloc m" "table m' = (table m)[p := (x, v)]" "table m ! p = (Key k0, w0)"
    and "\<And>i. i < map_alloc m \<Longrightarrow> fst (table m ! i) = Key k0 \<Longrightarrow> i = p"
  shows "map_entries m' = map_entries m - {(k0, w0)} \<union> {(k, w). x = Key k \<and> w = v}"
proof -
  have "map_alloc m' = map_alloc m" by (simp add: map_alloc_def assms(2))
  then have 1: "(k, w) \<in> map_entries m' \<longleftrightarrow>
      (\<exists>i < map_alloc m. i \<noteq> p \<and> table m ! i = (Key k, w)) \<or> (x = Key k \<and> v = w)" for k w
    unfolding entries_nth assms(2) using assms(1)
    by (auto simp: nth_list_update map_alloc_def split: if_splits)
  have 2: "(k, w) \<in> map_entries m - {(k0, w0)} \<longleftrightarrow> (\<exists>i < map_alloc m. i \<noteq> p \<and> table m ! i = (Key k, w))" for k w
  proof
    assume "(k, w) \<in> map_entries m - {(k0, w0)}"
    then show "\<exists>i < map_alloc m. i \<noteq> p \<and> table m ! i = (Key k, w)" using assms(3) by (auto simp: entries_nth)
  next
    assume "\<exists>i < map_alloc m. i \<noteq> p \<and> table m ! i = (Key k, w)"
    then show "(k, w) \<in> map_entries m - {(k0, w0)}" using assms(4) by (force simp: entries_nth)
  qed
  show ?thesis
  proof (rule set_eqI)
    fix z show "z \<in> map_entries m' \<longleftrightarrow> z \<in> map_entries m - {(k0, w0)} \<union> {(k, w). x = Key k \<and> w = v}"
      by (cases z) (simp only: 1 2 Un_iff mem_Collect_eq case_prod_conv, blast)
  qed
qed

section \<open>Correctness over any well-behaved keys\<close>

locale obj_keys =
  fixes ops :: "'k key_ops"
  assumes equal_refl: "kequal ops a a"
    and equal_sym: "kequal ops a b \<Longrightarrow> kequal ops b a"
    and equal_trans: "kequal ops a b \<Longrightarrow> kequal ops b c \<Longrightarrow> kequal ops a c"
    and equal_hash: "kequal ops a b \<Longrightarrow> khash ops a = khash ops b"
    and qstr_equal: "is_qstr ops a \<Longrightarrow> is_qstr ops b \<Longrightarrow> kequal ops a b \<Longrightarrow> a = b"
    and qstr_str: "is_qstr ops a \<Longrightarrow> kequal ops a b \<Longrightarrow> is_qstr ops b \<or> is_str ops b"
begin

lemma key_match_iff:
  assumes "map_inv ops m" "Key k \<in> set (map_keys m)"
  shows "key_match ops (all_keys_are_qstrs m \<and> (is_qstr ops index \<or> \<not> is_str ops index)) index k \<longleftrightarrow>
    kequal ops k index"
proof (cases "all_keys_are_qstrs m \<and> (is_qstr ops index \<or> \<not> is_str ops index)")
  case True
  then have "is_qstr ops k" using assms by (simp add: map_inv_def)
  then have "kequal ops k index \<longleftrightarrow> k = index" using True qstr_equal qstr_str equal_refl by blast
  then show ?thesis using True by (simp add: key_match_def)
next
  case False
  then show ?thesis using equal_refl by (auto simp: key_match_def)
qed

lemma slot_unique:
  assumes "map_inv ops m" "i < map_alloc m" "j < map_alloc m"
    "map_keys m ! i = Key a" "map_keys m ! j = Key b" "kequal ops a b"
  shows "i = j"
  using assms unfolding map_inv_def table_ok_def map_keys_length by blast

lemma probe_present:
  assumes inv: "map_inv ops m" and i: "i < map_alloc m" "map_keys m ! i = Key k" "kequal ops k index"
  shows "probe (key_match ops (all_keys_are_qstrs m \<and> (is_qstr ops index \<or> \<not> is_str ops index)) index)
    (map_keys m) (khash ops index) = ProbeFound i"
proof -
  let ?match = "key_match ops (all_keys_are_qstrs m \<and> (is_qstr ops index \<or> \<not> is_str ops index)) index"
  let ?n = "map_alloc m" and ?h = "khash ops index" and ?r = "probe ?match (map_keys m) (khash ops index)"
  have match: "?match k" using key_match_iff [OF inv] i by (metis map_keys_length nth_mem)
  obtain e where e: "e < ?n" "(?h + e) mod ?n = i" using offset_of [OF i(1)] by blast
  have ok: "probe_ok ?match (map_keys m) ?h ?r" using i(1) by (intro probe_correct) (auto simp: map_keys_def map_alloc_def)
  have chain: "\<forall>e' < e. map_keys m ! ((?h + e') mod ?n) \<noteq> Null"
    using inv e i(2) equal_hash [OF i(3)] unfolding map_inv_def table_ok_def map_keys_length by metis
  have np: "\<not> passed ?match (map_keys m) ?h d" if "e < d" for d
    using that e i(2) match unfolding passed_def map_keys_length by blast
  show ?thesis
  proof (cases ?r)
    case (ProbeFound p)
    then obtain k' where k': "p < ?n" "map_keys m ! p = Key k'" "?match k'"
      using ok by (auto simp: probe_ok_def)
    then have "kequal ops k' index" using key_match_iff [OF inv] by (metis map_keys_length nth_mem)
    then show ?thesis using slot_unique [OF inv k'(1) i(1) k'(2) i(2)] equal_trans equal_sym i(3) ProbeFound by blast
  next
    case (ProbeNull p a)
    then obtain d where d: "d < ?n" "map_keys m ! ((?h + d) mod ?n) = Null" "passed ?match (map_keys m) ?h d"
      using ok by (auto simp: probe_ok_def)
    then have "e \<noteq> d" "\<not> e < d" "\<not> d < e" using e(2) i(2) np chain by auto
    then show ?thesis by linarith
  next
    case (ProbeWrapped a)
    then show ?thesis using ok np [of ?n] e(1) by (simp add: probe_ok_def)
  next
    case ProbeStuck
    then show ?thesis using ok by (simp add: probe_ok_def)
  qed
qed

lemma probe_absent:
  fixes c :: bool
  assumes inv: "map_inv ops m" and abs: "\<not> present ops m index" and n: "0 < map_alloc m"
  defines "r \<equiv> probe (key_match ops c index)
    (map_keys m) (khash ops index)"
  obtains (null) d avail where "r = ProbeNull ((khash ops index + d) mod map_alloc m) avail" "d < map_alloc m"
      "map_keys m ! ((khash ops index + d) mod map_alloc m) = Null"
      "\<forall>e < d. map_keys m ! ((khash ops index + e) mod map_alloc m) \<noteq> Null"
      "avail_ok (map_keys m) (khash ops index) d avail"
  | (wrapped) avail where "r = ProbeWrapped avail"
      "\<forall>e < map_alloc m. map_keys m ! ((khash ops index + e) mod map_alloc m) \<noteq> Null"
      "avail_ok (map_keys m) (khash ops index) (map_alloc m) avail"
proof -
  let ?match = "key_match ops c index"
  have ok: "probe_ok ?match (map_keys m) (khash ops index) r"
    unfolding r_def using n by (intro probe_correct) (auto simp: map_keys_def map_alloc_def)
  show thesis
  proof (cases r)
    case (ProbeFound p)
    then obtain k where k: "p < map_alloc m" "map_keys m ! p = Key k" "?match k" using ok by (auto simp: probe_ok_def)
    then have "Key k \<in> set (map_keys m)" by (metis map_keys_length nth_mem)
    then have "present ops m index"
      using equal_refl k(3) unfolding present_def key_in_keys key_match_def by blast
    then show thesis using abs by blast
  next
    case (ProbeNull p a)
    then obtain d where "d < map_alloc m" "p = (khash ops index + d) mod map_alloc m" "map_keys m ! p = Null"
      "passed ?match (map_keys m) (khash ops index) d" "avail_ok (map_keys m) (khash ops index) d a"
      using ok by (auto simp: probe_ok_def)
    then show thesis using ProbeNull null [of d a] by (auto simp: passed_def)
  next
    case (ProbeWrapped a)
    then show thesis using ok by (intro wrapped) (auto simp: probe_ok_def passed_def)
  next
    case ProbeStuck
    then show thesis using ok by (simp add: probe_ok_def)
  qed
qed

text \<open>A free slot for a key that is not in the table: the invariant holds after the key is put there.\<close>

lemma map_inv_add:
  assumes inv: "map_inv ops m" and abs: "\<not> present ops m index" and e: "e < map_alloc m"
    and p: "p = (khash ops index + e) mod map_alloc m" "map_keys m ! p = Null \<or> map_keys m ! p = Sentinel"
    and before: "\<forall>e' < e. map_keys m ! ((khash ops index + e') mod map_alloc m) \<noteq> Null"
  shows "map_inv ops (map_add_at ops m p index) \<and> p < map_alloc m \<and>
    map_entries (map_add_at ops m p index) = insert (index, None) (map_entries m)"
proof -
  have lt: "p < map_alloc m" unfolding p(1) using e by (intro mod_less_divisor) linarith
  have new: "\<forall>i < map_alloc m. \<forall>k. map_keys m ! i = Key k \<longrightarrow> \<not> kequal ops k index \<and> \<not> kequal ops index k"
    using abs equal_sym unfolding present_def by (metis key_in_keys map_keys_length nth_mem)
  have ok: "table_ok (khash ops) (kequal ops) ((map_keys m)[p := Key index])"
    using table_ok_insert [of "khash ops" "kequal ops" "map_keys m" e index] inv e before p new
    by (simp add: map_inv_def)
  have "filled ((map_keys m)[p := Key index]) = filled (map_keys m) + 1"
    using filled_update [of p "map_keys m" "Key index"] lt p(2) by auto
  moreover have "set ((map_keys m)[p := Key index]) \<subseteq> insert (Key index) (set (map_keys m))"
    by (rule set_update_subset_insert)
  moreover have "map_entries (map_add_at ops m p index) = map_entries m \<union> {(k, w). Key index = Key k \<and> w = None}"
    using entries_update [OF lt, of "map_add_at ops m p index" "Key index" None] p(2) lt
    by (auto simp: map_add_at_def map_keys_nth)
  ultimately show ?thesis using inv ok lt
    by (auto simp: map_inv_def map_add_at_keys) (auto simp: map_add_at_def)
qed

lemma add_room_loop:
  assumes inv: "map_inv ops m" and abs: "\<not> present ops m index" and room: "used m < map_alloc m"
  shows "\<exists>p. map_hash_loop restarts rehash ops c m index ADD_IF_NOT_FOUND = Inr (map_add_at ops m p index, Some p) \<and>
    map_inv ops (map_add_at ops m p index) \<and> p < map_alloc m \<and>
    map_entries (map_add_at ops m p index) = insert (index, None) (map_entries m)"
proof -
  let ?h = "khash ops index" and ?n = "map_alloc m"
  have n: "0 < ?n" using room by linarith
  have avail: "\<exists>e < d. p = (?h + e) mod ?n \<and> map_keys m ! p = Sentinel" if "avail_ok (map_keys m) ?h d (Some p)" for p d
    using that by (simp add: avail_ok_def)
  show ?thesis
  proof (rule probe_absent [OF inv abs n, of c])
    fix d avail
    assume a: "probe (key_match ops c index)
      (map_keys m) ?h = ProbeNull ((?h + d) mod ?n) avail" "d < ?n" "map_keys m ! ((?h + d) mod ?n) = Null"
      "\<forall>e < d. map_keys m ! ((?h + e) mod ?n) \<noteq> Null" "avail_ok (map_keys m) ?h d avail"
    show ?thesis
    proof (cases avail)
      case None
      then show ?thesis using a(1,3) map_inv_add [OF inv abs a(2) refl _ a(4)]
        by (intro exI [of _ "(?h + d) mod ?n"]) (simp add: map_hash_loop.simps map_keys_def [symmetric] Let_def)
    next
      case (Some p)
      then obtain e where "e < d" "p = (?h + e) mod ?n" "map_keys m ! p = Sentinel" using avail a(5) by blast
      then show ?thesis using Some a map_inv_add [OF inv abs, of e p]
        by (auto simp: map_hash_loop.simps map_keys_def [symmetric] Let_def)
    qed
  next
    fix avail
    assume a: "probe (key_match ops c index)
      (map_keys m) ?h = ProbeWrapped avail" "\<forall>e < ?n. map_keys m ! ((?h + e) mod ?n) \<noteq> Null"
      "avail_ok (map_keys m) ?h ?n avail"
    show ?thesis
    proof (cases avail)
      case None
      have "\<exists>k. map_keys m ! i = Key k" if "i < ?n" for i
      proof -
        obtain e where "e < ?n" "(?h + e) mod ?n = i" using offset_of [OF \<open>i < ?n\<close>] by blast
        then have "map_keys m ! i \<noteq> Null \<and> map_keys m ! i \<noteq> Sentinel" using a None by (auto simp: avail_ok_def)
        then show ?thesis by (simp add: not_free_iff)
      qed
      then have "filled (map_keys m) = ?n" using filled_all_iff [of "map_keys m"] by simp
      then show ?thesis using room inv by (simp add: map_inv_def)
    next
      case (Some p)
      then obtain e where "e < ?n" "p = (?h + e) mod ?n" "map_keys m ! p = Sentinel" using avail a(3) by blast
      then show ?thesis using Some a map_inv_add [OF inv abs, of e p]
        by (auto simp: map_hash_loop.simps map_keys_def [symmetric])
    qed
  qed
qed

lemma add_room:
  assumes inv: "map_inv ops m" and abs: "\<not> present ops m index" and room: "used m < map_alloc m"
  shows "\<exists>p. map_lookup_body rehash ops m index ADD_IF_NOT_FOUND = Inr (map_add_at ops m p index, Some p) \<and>
    map_inv ops (map_add_at ops m p index) \<and> p < map_alloc m \<and>
    map_entries (map_add_at ops m p index) = insert (index, None) (map_entries m)"
proof -
  have "map_lookup_body rehash ops m index ADD_IF_NOT_FOUND =
      map_hash_loop 1 rehash ops (all_keys_are_qstrs m \<and> (is_qstr ops index \<or> \<not> is_str ops index)) m index ADD_IF_NOT_FOUND"
    using inv room by (simp add: map_lookup_body_def map_inv_def Let_def)
  then show ?thesis using add_room_loop [OF assms] by simp
qed

text \<open>Storing a value in a slot keeps the keys.\<close>

lemma set_value_facts:
  assumes "map_inv ops m" "i < map_alloc m" "fst (table m ! i) = Key k"
  shows "map_inv ops (map_set_value m i v)" "map_alloc (map_set_value m i v) = map_alloc m"
    "used (map_set_value m i v) = used m"
    "map_entries (map_set_value m i v) = map_entries m - {(k, snd (table m ! i))} \<union> {(k, v)}"
proof -
  have keys: "map_keys (map_set_value m i v) = map_keys m"
    using assms(2,3) by (simp add: map_set_value_def map_keys_def map_update map_alloc_def list_update_same_conv)
  show "map_alloc (map_set_value m i v) = map_alloc m" by (simp add: map_set_value_def map_alloc_def)
  show "used (map_set_value m i v) = used m" by (simp add: map_set_value_def)
  show "map_inv ops (map_set_value m i v)"
    using assms(1) by (simp add: map_inv_def keys) (simp add: map_set_value_def)
  have "j = i" if "j < map_alloc m" "fst (table m ! j) = Key k" for j
    using slot_unique [OF assms(1) that(1) assms(2), of k k] that assms(2,3) equal_refl by (simp add: map_keys_nth)
  then show "map_entries (map_set_value m i v) = map_entries m - {(k, snd (table m ! i))} \<union> {(k, v)}"
    using entries_overwrite [OF assms(2), of "map_set_value m i v" "Key k" v k "snd (table m ! i)"] assms(3)
    by (auto simp: map_set_value_def prod_eq_iff)
qed

lemma used_add: "used (map_add_at ops m p k) = used m + 1" "fst (table (map_add_at ops m p k) ! p) = Key k"
    "snd (table (map_add_at ops m p k) ! p) = None" if "p < map_alloc m" for p
  using that by (simp_all add: map_add_at_def map_alloc_def)

lemma add_and_set:
  assumes "map_inv ops m" "\<not> present ops m k" "used m < map_alloc m"
  shows "\<exists>m' p. map_lookup_body rehash ops m k ADD_IF_NOT_FOUND = Inr (m', Some p) \<and>
    map_inv ops (map_set_value m' p v) \<and> map_alloc (map_set_value m' p v) = map_alloc m \<and>
    used (map_set_value m' p v) = used m + 1 \<and>
    map_entries (map_set_value m' p v) = insert (k, v) (map_entries m)"
proof -
  obtain p where p: "map_lookup_body rehash ops m k ADD_IF_NOT_FOUND = Inr (map_add_at ops m p k, Some p)"
    "map_inv ops (map_add_at ops m p k)" "p < map_alloc m"
    "map_entries (map_add_at ops m p k) = insert (k, None) (map_entries m)"
    using add_room [OF assms] by blast
  have "(k, None) \<notin> map_entries m" using assms(2) equal_refl unfolding present_def by blast
  then show ?thesis
    using p set_value_facts [OF p(2), of p k v] used_add [OF p(3), of k] by (auto simp: map_add_at_keys)
qed

lemma rehash_entries_correct:
  assumes "map_inv ops m" "used m + filled (map fst es) \<le> map_alloc m" "distinct_keys ops es"
    and "\<forall>k v. (Key k, v) \<in> set es \<longrightarrow> \<not> present ops m k"
  shows "\<exists>m'. rehash_entries (\<lambda>m k. map_lookup_body rehash ops m k ADD_IF_NOT_FOUND) m es = Inr m' \<and>
    map_inv ops m' \<and> map_alloc m' = map_alloc m \<and> used m' = used m + filled (map fst es) \<and>
    map_entries m' = map_entries m \<union> {(k, v). (Key k, v) \<in> set es}"
  using assms
proof (induction es arbitrary: m)
  case (Cons e es)
  obtain x v where e: "e = (x, v)" by fastforce
  have d: "distinct_keys ops es" using Cons.prems(3) by (simp add: distinct_keys_def)
  show ?case
  proof (cases "\<exists>k. x = Key k")
    case True
    then obtain k where x: "x = Key k" by blast
    have room: "used m < map_alloc m" "used m + 1 + filled (map fst es) \<le> map_alloc m"
      using Cons.prems(2) by (simp_all add: e x filled_def)
    have "\<not> present ops m k" using Cons.prems(4) e x by auto
    from add_and_set [OF Cons.prems(1) this room(1), of rehash v] obtain m' p where
      m': "map_lookup_body rehash ops m k ADD_IF_NOT_FOUND = Inr (m', Some p)" "map_inv ops (map_set_value m' p v)"
        "map_alloc (map_set_value m' p v) = map_alloc m" "used (map_set_value m' p v) = used m + 1"
        "map_entries (map_set_value m' p v) = insert (k, v) (map_entries m)" by blast
    have "\<not> present ops (map_set_value m' p v) k'" if "(Key k', v') \<in> set es" for k' v'
    proof -
      have "\<not> kequal ops k k'" using Cons.prems(3) that e x by (force simp: distinct_keys_def)
      moreover have "\<not> present ops m k'" using Cons.prems(4) that by auto
      ultimately show ?thesis unfolding present_def m'(5) by blast
    qed
    then show ?thesis using Cons.IH [OF m'(2) _ d] m' room
      by (auto simp: e x filled_def)
  next
    case False
    then have "x = Null \<or> x = Sentinel" by (cases x) auto
    then show ?thesis using Cons.IH [OF Cons.prems(1) _ d] Cons.prems(2,4) e by (auto simp: filled_def)
  qed
qed (simp add: filled_def)

lemma map_inv_distinct: "map_inv ops m \<Longrightarrow> distinct_keys ops (table m)"
  unfolding distinct_keys_def sorted_wrt_iff_nth_less
proof (intro allI impI, elim conjE)
  fix i j a b
  assume "map_inv ops m" "i < j" "j < length (table m)" "fst (table m ! i) = Key a" "fst (table m ! j) = Key b"
  then show "\<not> kequal ops a b"
    using slot_unique [of m i j a b] by (auto simp: map_keys_nth map_alloc_def)
qed

lemma rehash_correct:
  assumes "map_inv ops m"
  shows "\<exists>m'. mp_map_rehash ops m = Inr m' \<and> map_inv ops m' \<and> map_entries m' = map_entries m \<and>
    used m' = used m \<and> map_alloc m < map_alloc m'"
proof -
  let ?n = "get_hash_alloc_greater_or_equal_to (map_alloc m + 1)"
  let ?m = "m\<lparr>used := 0, all_keys_are_qstrs := True, table := replicate ?n (Null, None)\<rparr>"
  have n: "map_alloc m + 1 \<le> ?n" by (rule get_hash_alloc_ge)
  have inv: "map_inv ops ?m"
    using assms table_ok_empty [of "khash ops" "kequal ops" ?n]
    by (simp add: map_inv_def map_keys_def filled_def)
  have e: "map_entries ?m = {}" by (auto simp: map_entries_def)
  have u: "used m = filled (map fst (table m))" using assms by (simp add: map_inv_def map_keys_def)
  have "filled (map fst (table m)) \<le> map_alloc m" using filled_le [of "map fst (table m)"] by (simp add: map_alloc_def)
  then have "used ?m + filled (map fst (table m)) \<le> map_alloc ?m" using n by (simp add: map_alloc_def)
  from rehash_entries_correct [OF inv this map_inv_distinct [OF assms], of "\<lambda>m. Inl MapDiverges"]
  show ?thesis using e u n
    by (auto simp: mp_map_rehash_def map_rehash_body_def Let_def present_def map_entries_def map_alloc_def)
qed

lemma hash_lookup_body:
  assumes "map_inv ops m" "map_alloc m \<noteq> 0" "kind = ADD_IF_NOT_FOUND \<or> present ops m index"
  shows "map_lookup_body rehash ops m index kind =
    map_hash_loop 1 rehash ops (all_keys_are_qstrs m \<and> (is_qstr ops index \<or> \<not> is_str ops index)) m index kind"
proof -
  have "is_qstr ops index \<or> is_str ops index" if q: "all_keys_are_qstrs m" "present ops m index"
  proof -
    obtain k v where k: "(k, v) \<in> map_entries m" "kequal ops k index" using q(2) by (auto simp: present_def)
    then have "is_qstr ops k" using assms(1) q(1) key_in_keys [of k m] by (auto simp: map_inv_def)
    then show ?thesis using qstr_str k(2) by blast
  qed
  then show ?thesis using assms by (auto simp: map_lookup_body_def map_inv_def Let_def)
qed

text \<open>A key that is present: its slot is found, whatever the kind of the lookup.\<close>

lemma lookup_present:
  assumes inv: "map_inv ops m" and i: "i < map_alloc m" "fst (table m ! i) = Key k" "kequal ops k index"
  shows "mp_map_lookup ops m index kind = Inr (if kind = REMOVE_IF_FOUND then map_remove_at m i else m, Some i)"
proof -
  have "present ops m index" unfolding present_def entries_nth using i by (metis prod.collapse)
  then show ?thesis
    using hash_lookup_body [OF inv, of kind index] probe_present [OF inv i(1) _ i(3)] i
    by (simp add: mp_map_lookup_def map_hash_loop.simps map_keys_nth map_keys_def [symmetric])
qed

text \<open>A key that is missing is not found, and the map is unchanged unless the lookup adds.\<close>

lemma lookup_absent:
  assumes inv: "map_inv ops m" and abs: "\<not> present ops m index" and kind: "kind \<noteq> ADD_IF_NOT_FOUND"
  shows "mp_map_lookup ops m index kind = Inr (m, None)"
proof (cases "map_alloc m = 0 \<or> (all_keys_are_qstrs m \<and> \<not> is_qstr ops index \<and> \<not> is_str ops index)")
  case True
  then show ?thesis using inv kind by (auto simp: mp_map_lookup_def map_lookup_body_def map_inv_def Let_def)
next
  case False
  then have n: "0 < map_alloc m" by simp
  let ?c = "all_keys_are_qstrs m \<and> (is_qstr ops index \<or> \<not> is_str ops index)"
  have "map_lookup_body r ops m index kind = map_hash_loop 1 r ops ?c m index kind" for r
    using inv False by (auto simp: map_lookup_body_def map_inv_def Let_def)
  then have "mp_map_lookup ops m index kind = map_hash_loop 1
      (map_rehash_body (\<lambda>m k. map_lookup_depth 0 ops m k ADD_IF_NOT_FOUND)) ops ?c m index kind"
    unfolding mp_map_lookup_def One_nat_def map_lookup_depth.simps(2) .
  moreover have "map_hash_loop 1 r ops ?c m index kind = Inr (m, None)" for r
    by (rule probe_absent [OF inv abs n, of ?c])
      (use kind in \<open>simp_all add: map_hash_loop.simps map_keys_def [symmetric]\<close>)
  ultimately show ?thesis by simp
qed

text \<open>
  Adding to a full table: the search comes back to its start with no free slot, or the table
  has no slots at all; after the rehash there is room.
\<close>

lemma full_wraps:
  assumes inv: "map_inv ops m" and abs: "\<not> present ops m index" and full: "used m = map_alloc m" "0 < map_alloc m"
  shows "probe (key_match ops c index) (map_keys m) (khash ops index) = ProbeWrapped None"
proof -
  have all: "\<exists>k. map_keys m ! i = Key k" if "i < map_alloc m" for i
    using that full(1) inv filled_all_iff [of "map_keys m"] by (simp add: map_inv_def)
  have lt: "(khash ops index + e) mod map_alloc m < map_alloc m" for e using full(2) by simp
  show ?thesis
  proof (rule probe_absent [OF inv abs full(2), of c])
    fix d avail
    assume "map_keys m ! ((khash ops index + d) mod map_alloc m) = Null"
    then show ?thesis using all [OF lt [of d]] by auto
  next
    fix avail
    assume a: "probe (key_match ops c index) (map_keys m) (khash ops index) = ProbeWrapped avail"
      "avail_ok (map_keys m) (khash ops index) (map_alloc m) avail"
    show ?thesis
    proof (cases avail)
      case None then show ?thesis using a by simp
    next
      case (Some p)
      then obtain e where "map_keys m ! ((khash ops index + e) mod map_alloc m) = Sentinel"
        using a(2) by (auto simp: avail_ok_def)
      then show ?thesis using all [OF lt [of e]] by auto
    qed
  qed
qed

lemma lookup_add:
  fixes m :: "('k, 'v) mp_map"
  assumes inv: "map_inv ops m" and abs: "\<not> present ops m index"
  shows "\<exists>m' p. mp_map_lookup ops m index ADD_IF_NOT_FOUND = Inr (m', Some p) \<and> map_inv ops m' \<and>
    p < map_alloc m' \<and> table m' ! p = (Key index, None) \<and> used m' = used m + 1 \<and>
    map_entries m' = insert (index, None) (map_entries m)"
proof -
  let ?c = "all_keys_are_qstrs m \<and> (is_qstr ops index \<or> \<not> is_str ops index)"
  define r :: "('k, 'v) mp_map \<Rightarrow> map_error + ('k, 'v) mp_map" where "r = mp_map_rehash ops"
  have r: "map_rehash_body (\<lambda>m k. map_lookup_depth 0 ops m k ADD_IF_NOT_FOUND) = r"
    by (simp add: r_def mp_map_rehash_def)
  have L: "mp_map_lookup ops m index ADD_IF_NOT_FOUND =
      res_bind (if map_alloc m = 0 then r m else Inr m) (\<lambda>m. map_hash_loop 1 r ops ?c m index ADD_IF_NOT_FOUND)"
    unfolding mp_map_lookup_def One_nat_def map_lookup_depth.simps(2) r using inv
    by (simp add: map_lookup_body_def map_inv_def Let_def)
  have fin: ?thesis if m0: "map_inv ops m0" "map_entries m0 = map_entries m" "used m0 = used m" "used m0 < map_alloc m0"
    "mp_map_lookup ops m index ADD_IF_NOT_FOUND = map_hash_loop n r ops ?c m0 index ADD_IF_NOT_FOUND" for m0 n
  proof -
    have "\<not> present ops m0 index" using abs m0(2) by (simp add: present_def)
    from add_room_loop [OF m0(1) this m0(4), of n r ?c] obtain p where p:
      "map_hash_loop n r ops ?c m0 index ADD_IF_NOT_FOUND = Inr (map_add_at ops m0 p index, Some p)"
      "map_inv ops (map_add_at ops m0 p index)" "p < map_alloc m0"
      "map_entries (map_add_at ops m0 p index) = insert (index, None) (map_entries m0)" by blast
    have "table (map_add_at ops m0 p index) ! p = (Key index, None)" "p < map_alloc (map_add_at ops m0 p index)"
      "used (map_add_at ops m0 p index) = used m0 + 1"
      using p(3) by (simp_all add: map_add_at_def map_alloc_def)
    then show ?thesis unfolding m0(5) p(1)
      using p(2,4) m0(2,3) by (intro exI [of _ "map_add_at ops m0 p index"] exI [of _ p]) simp
  qed
  show ?thesis
  proof (cases "used m < map_alloc m")
    case True
    then show ?thesis using fin [of m 1] inv L by simp
  next
    case False
    obtain m0 where m0: "r m = Inr m0" "map_inv ops m0" "map_entries m0 = map_entries m" "used m0 = used m"
      "map_alloc m < map_alloc m0"
      using rehash_correct [OF inv] r_def by blast
    have u: "used m = map_alloc m" using False inv filled_le [of "map_keys m"] by (simp add: map_inv_def)
    show ?thesis
    proof (cases "map_alloc m = 0")
      case True
      then show ?thesis using fin [of m0 1] L m0 u by simp
    next
      case False
      then have "mp_map_lookup ops m index ADD_IF_NOT_FOUND = map_hash_loop 0 r ops ?c m0 index ADD_IF_NOT_FOUND"
        using L m0(1) full_wraps [OF inv abs u, of ?c]
        by (simp add: map_hash_loop.simps [of _ _ _ _ m] map_keys_def [symmetric])
      then show ?thesis using fin [of m0 0] m0 u by simp
    qed
  qed
qed

text \<open>Deleting the key of a slot, with whatever mark keeps the search paths of the other keys.\<close>

lemma map_inv_unkey:
  assumes inv: "map_inv ops m" and i: "i < map_alloc m" "fst (table m ! i) = Key k"
    and x: "x = Sentinel \<or> x = deleted_key (map_keys m) i"
    and m': "m' = m\<lparr>used := used m - 1, table := (table m)[i := (x, v)]\<rparr>"
  shows "map_inv ops m' \<and> map_entries m' = map_entries m - {(k, snd (table m ! i))} \<and> map_alloc m' = map_alloc m \<and>
    used m' + 1 = used m"
proof -
  have nk: "x \<noteq> Key k'" for k' using x by (auto simp: deleted_key_def split: if_splits)
  have keys: "map_keys m' = (map_keys m)[i := x]" "map_alloc m' = map_alloc m"
    by (simp_all add: m' map_keys_def map_update map_alloc_def)
  have ok0: "table_ok (khash ops) (kequal ops) (map_keys m)" using inv by (simp add: map_inv_def)
  have "table_ok (khash ops) (kequal ops) ((map_keys m)[i := Sentinel])"
  proof -
    have "(map_keys m)[i := Sentinel] ! j = (if j = i then Sentinel else map_keys m ! j)" if "j < map_alloc m" for j
      using that by (simp add: nth_list_update)
    moreover have "h mod map_alloc m < map_alloc m" for h using i(1) by (intro mod_less_divisor) linarith
    ultimately show ?thesis using ok0 unfolding table_ok_def length_list_update map_keys_length
      by (auto split: if_splits)
  qed
  then have ok: "table_ok (khash ops) (kequal ops) ((map_keys m)[i := x])"
    using x table_ok_delete [OF ok0, of i] i(1) by auto
  have "filled ((map_keys m)[i := x]) + 1 = filled (map_keys m)"
    using filled_update [of i "map_keys m" x] i nk x by (auto simp: map_keys_nth deleted_key_def split: if_splits)
  moreover have "Key k' \<in> set (map_keys m)" if "Key k' \<in> set ((map_keys m)[i := x])" for k'
    using that set_update_subset_insert [of "map_keys m" i x] nk by blast
  ultimately have "map_inv ops m'" "used m' + 1 = used m"
    using inv ok by (auto simp: map_inv_def keys) (auto simp: m')
  moreover have "j = i" if "j < map_alloc m" "fst (table m ! j) = Key k" for j
    using slot_unique [OF inv that(1) i(1), of k k] that i equal_refl by (simp add: map_keys_nth)
  then have "map_entries m' = map_entries m - {(k, snd (table m ! i))}"
    using entries_overwrite [OF i(1), of m' x v k "snd (table m ! i)"] i(2) nk by (auto simp: m' prod_eq_iff)
  ultimately show ?thesis using keys by simp
qed

lemma remove_at_correct:
  assumes "map_inv ops m" "i < map_alloc m" "fst (table m ! i) = Key k"
  shows "map_inv ops (map_remove_at m i) \<and> map_entries (map_remove_at m i) = map_entries m - {(k, snd (table m ! i))} \<and>
    map_alloc (map_remove_at m i) = map_alloc m \<and> used (map_remove_at m i) + 1 = used m"
  by (rule map_inv_unkey [OF assms, of "deleted_key (map_keys m) i" _ "snd (table m ! i)"])
    (simp_all add: map_remove_at_def map_keys_def)

section \<open>Contents\<close>

lemma get_Some_iff:
  assumes "map_inv ops m"
  shows "map_get ops m k = Some v \<longleftrightarrow> (\<exists>k'. (k', v) \<in> map_entries m \<and> kequal ops k' k)"
proof
  let ?P = "\<lambda>e. case fst e of Key k' \<Rightarrow> kequal ops k' k | _ \<Rightarrow> False"
  assume "map_get ops m k = Some v"
  then obtain e where e: "find ?P (table m) = Some e" "snd e = v" unfolding map_get_def by auto
  then have "e \<in> set (table m)" "?P e" by (auto simp: find_Some_iff)
  with e(2) show "\<exists>k'. (k', v) \<in> map_entries m \<and> kequal ops k' k"
    by (cases e) (auto simp: map_entries_def split: key.splits)
next
  let ?P = "\<lambda>e. case fst e of Key k' \<Rightarrow> kequal ops k' k | _ \<Rightarrow> False"
  assume "\<exists>k'. (k', v) \<in> map_entries m \<and> kequal ops k' k"
  then obtain k' i where i: "i < map_alloc m" "table m ! i = (Key k', v)" "kequal ops k' k"
    by (auto simp: entries_nth)
  have "\<not> ?P (table m ! j)" if "j < i" for j
  proof
    assume "?P (table m ! j)"
    then obtain a where "fst (table m ! j) = Key a" "kequal ops a k" by (auto split: key.splits)
    moreover from this have "kequal ops a k'" using i(3) equal_sym equal_trans by blast
    ultimately have "j = i" using slot_unique [OF assms, of j i a k'] that i by (simp add: map_keys_nth)
    then show False using that by simp
  qed
  then have "find ?P (table m) = Some (Key k', v)"
    using i by (auto simp: find_Some_iff map_alloc_def intro!: exI [of _ i])
  then show "map_get ops m k = Some v" by (simp add: map_get_def)
qed

lemma get_None_iff: "map_inv ops m \<Longrightarrow> map_get ops m k = None \<longleftrightarrow> \<not> present ops m k"
  unfolding present_def using get_Some_iff [of m k] by (metis not_None_eq)

lemma entry_unique:
  assumes "map_inv ops m" "(a, w) \<in> map_entries m" "(b, u) \<in> map_entries m" "kequal ops a b"
  shows "a = b" "w = u"
proof -
  obtain i j where ij: "i < map_alloc m" "table m ! i = (Key a, w)" "j < map_alloc m" "table m ! j = (Key b, u)"
    using assms(2,3) by (auto simp: entries_nth)
  then have "i = j" using slot_unique [OF assms(1), of i j a b] assms(4) by (simp add: map_keys_nth)
  then show "a = b" "w = u" using ij by auto
qed

lemma present_slot:
  assumes "present ops m k"
  obtains i k' where "i < map_alloc m" "fst (table m ! i) = Key k'" "kequal ops k' k"
  using assms unfolding present_def entries_nth by (metis fst_conv)

text \<open>
  The three operations in terms of the contents. Storing replaces the value of an equal key
  that is present and keeps that key object.
\<close>

lemma lookup_get:
  assumes "map_inv ops m"
  shows "\<exists>s. mp_map_lookup ops m k LOOKUP = Inr (m, s) \<and> map_option (\<lambda>i. snd (table m ! i)) s = map_get ops m k"
proof (cases "present ops m k")
  case True
  then obtain i k' where i: "i < map_alloc m" "fst (table m ! i) = Key k'" "kequal ops k' k" using present_slot by blast
  have "map_get ops m k = Some (snd (table m ! i))"
    unfolding get_Some_iff [OF assms] entries_nth using i by (metis prod.collapse)
  then show ?thesis using lookup_present [OF assms i, of LOOKUP] by auto
next
  case False
  then have "map_get ops m k = None" using get_None_iff [OF assms] by simp
  then show ?thesis using lookup_absent [OF assms False, of LOOKUP] by simp
qed

lemma lookup_store:
  assumes inv: "map_inv ops m"
  shows "\<exists>m' i. mp_map_lookup ops m k ADD_IF_NOT_FOUND = Inr (m', Some i) \<and> i < map_alloc m' \<and>
    map_inv ops (map_set_value m' i v) \<and>
    used (map_set_value m' i v) = used m + of_bool (map_get ops m k = None) \<and>
    (\<forall>k'. map_get ops (map_set_value m' i v) k' = (if kequal ops k k' then Some v else map_get ops m k'))"
proof -
  have upd: "map_get ops m2 k' = (if kequal ops k k' then Some v else map_get ops m k')"
    if "map_inv ops m2" "map_entries m2 = {e \<in> map_entries m. \<not> kequal ops (fst e) k} \<union> {(k0, v)}" "kequal ops k0 k" for m2 k0 k'
  proof (cases "kequal ops k k'")
    case True
    then have "map_get ops m2 k' = Some v" unfolding get_Some_iff [OF that(1)] that(2)
      using that(3) equal_trans by blast
    then show ?thesis using True by simp
  next
    case False
    have "map_get ops m2 k' = Some w \<longleftrightarrow> map_get ops m k' = Some w" for w
    proof -
      have "\<not> kequal ops k0 k'" "\<And>a. kequal ops a k' \<Longrightarrow> \<not> kequal ops a k"
        using False that(3) equal_trans equal_sym by blast+
      then show ?thesis unfolding get_Some_iff [OF that(1)] get_Some_iff [OF inv] that(2) by auto
    qed
    then show ?thesis using False by (metis not_Some_eq)
  qed
  show ?thesis
  proof (cases "present ops m k")
    case True
    then obtain i k0 where i: "i < map_alloc m" "fst (table m ! i) = Key k0" "kequal ops k0 k" using present_slot by blast
    have ke: "(k0, snd (table m ! i)) \<in> map_entries m" unfolding entries_nth using i by (metis prod.collapse)
    have "map_entries m - {(k0, snd (table m ! i))} = {e \<in> map_entries m. \<not> kequal ops (fst e) k}"
    proof -
      have uniq: "(a, w) = (k0, snd (table m ! i))" if "(a, w) \<in> map_entries m" "kequal ops a k" for a w
      proof -
        have "kequal ops a k0" using that(2) i(3) equal_trans equal_sym by blast
        then show ?thesis using entry_unique [OF inv that(1) ke] by simp
      qed
      have "e \<noteq> (k0, snd (table m ! i)) \<longleftrightarrow> \<not> kequal ops (fst e) k" if "e \<in> map_entries m" for e
        using that uniq [of "fst e" "snd e"] i(3) by (metis prod.collapse fst_conv)
      then show ?thesis by blast
    qed
    then have "map_entries (map_set_value m i v) = {e \<in> map_entries m. \<not> kequal ops (fst e) k} \<union> {(k0, v)}"
      using set_value_facts(4) [OF inv i(1,2), of v] by simp
    then show ?thesis
      using set_value_facts(1-3) [OF inv i(1,2), of v] lookup_present [OF inv i, of ADD_IF_NOT_FOUND]
        upd [OF _ _ i(3)] i(1) get_None_iff [OF inv] True by auto
  next
    case False
    obtain m' p where p: "mp_map_lookup ops m k ADD_IF_NOT_FOUND = Inr (m', Some p)" "map_inv ops m'"
      "p < map_alloc m'" "table m' ! p = (Key k, None)" "used m' = used m + 1"
      "map_entries m' = insert (k, None) (map_entries m)" using lookup_add [OF inv False] by blast
    have n: "\<not> kequal ops a k" if "(a, w) \<in> map_entries m" for a w using False that unfolding present_def by blast
    then have "{e \<in> map_entries m. \<not> kequal ops (fst e) k} = map_entries m" "(k, None) \<notin> map_entries m"
      using equal_refl by auto
    then have "map_entries (map_set_value m' p v) = {e \<in> map_entries m. \<not> kequal ops (fst e) k} \<union> {(k, v)}"
      using set_value_facts(4) [OF p(2,3), of k v] p(4,6) by auto
    then show ?thesis
      using set_value_facts(1-3) [OF p(2,3), of k v] p upd [OF _ _ equal_refl] get_None_iff [OF inv] False by auto
  qed
qed

lemma lookup_remove:
  assumes inv: "map_inv ops m"
  shows "\<exists>m' s. mp_map_lookup ops m k REMOVE_IF_FOUND = Inr (m', s) \<and> map_inv ops m' \<and>
    map_option (\<lambda>i. snd (table m' ! i)) s = map_get ops m k \<and>
    used m' + of_bool (map_get ops m k \<noteq> None) = used m \<and>
    (\<forall>k'. map_get ops m' k' = (if kequal ops k k' then None else map_get ops m k'))"
proof (cases "present ops m k")
  case True
  then obtain i k0 where i: "i < map_alloc m" "fst (table m ! i) = Key k0" "kequal ops k0 k" using present_slot by blast
  note r = remove_at_correct [OF inv i(1,2)]
  have s: "snd (table (map_remove_at m i) ! i) = snd (table m ! i)"
    using i(1) by (simp add: map_remove_at_def map_alloc_def)
  have ke: "(k0, snd (table m ! i)) \<in> map_entries m" unfolding entries_nth using i by (metis prod.collapse)
  then have g: "map_get ops m k = Some (snd (table m ! i))" unfolding get_Some_iff [OF inv] using i(3) by blast
  have "map_get ops (map_remove_at m i) k' = (if kequal ops k k' then None else map_get ops m k')" for k'
  proof (cases "kequal ops k k'")
    case True
    have "(a, w) = (k0, snd (table m ! i))" if "(a, w) \<in> map_entries m" "kequal ops a k'" for a w
    proof -
      have "kequal ops a k0" using that(2) i(3) True equal_trans equal_sym by blast
      then show ?thesis using entry_unique [OF inv that(1) ke] by simp
    qed
    then have "\<not> present ops (map_remove_at m i) k'" unfolding present_def using r by auto
    then show ?thesis using True get_None_iff [of "map_remove_at m i" k'] r by simp
  next
    case False
    have "map_get ops (map_remove_at m i) k' = Some w \<longleftrightarrow> map_get ops m k' = Some w" for w
    proof -
      have "\<not> kequal ops k0 k'" using False i(3) equal_trans equal_sym by blast
      then show ?thesis using r by (auto simp: get_Some_iff inv)
    qed
    then show ?thesis using False by (metis not_Some_eq)
  qed
  then show ?thesis using lookup_present [OF inv i, of REMOVE_IF_FOUND] r s g by auto
next
  case False
  have "map_get ops m k' = (if kequal ops k k' then None else map_get ops m k')" for k'
  proof -
    have "\<not> present ops m k'" if "kequal ops k k'"
      using that False equal_trans equal_sym unfolding present_def by blast
    then show ?thesis using get_None_iff [OF inv, of k'] by simp
  qed
  moreover have "map_get ops m k = None" using get_None_iff [OF inv] False by simp
  ultimately show ?thesis using lookup_absent [OF inv False, of REMOVE_IF_FOUND] inv
    by (intro exI [of _ m] exI [of _ None]) simp
qed

end

end
