(* ===== verification/Mp_Map_Laws.thy ===== *)
theory Mp_Map_Laws
  imports Mp_Map
begin

text \<open>
  What \<^verbatim>\<open>mp_map_lookup\<close> promises its callers, as the locale \<open>map_interface\<close>: the effect of each lookup
  kind on the value stored under a key, on the number of keys and on the invariant. The hash
  tables and the ordered arrays of \<^verbatim>\<open>py/map.c\<close> both satisfy it. For ordered arrays there is more:
  they refine an association list, so insertion order is kept.
\<close>

section \<open>Association lists\<close>

fun al_put :: "'k key_ops \<Rightarrow> ('k \<times> 'v) list \<Rightarrow> 'k \<Rightarrow> 'v \<Rightarrow> ('k \<times> 'v) list" where
  "al_put ops [] k v = [(k, v)]"
| "al_put ops ((k', v') # xs) k v = (if kequal ops k' k then (k', v) # xs else (k', v') # al_put ops xs k v)"

definition al_get :: "'k key_ops \<Rightarrow> ('k \<times> 'v) list \<Rightarrow> 'k \<Rightarrow> 'v option" where
  "al_get ops xs k = map_option snd (find (\<lambda>e. kequal ops (fst e) k) xs)"

definition al_del :: "'k key_ops \<Rightarrow> ('k \<times> 'v) list \<Rightarrow> 'k \<Rightarrow> ('k \<times> 'v) list" where
  "al_del ops xs k = filter (\<lambda>e. \<not> kequal ops (fst e) k) xs"

definition al_distinct :: "'k key_ops \<Rightarrow> ('k \<times> 'v) list \<Rightarrow> bool" where
  "al_distinct ops = sorted_wrt (\<lambda>x y. \<not> kequal ops (fst x) (fst y))"

lemma al_get_None: "al_get ops xs k = None \<longleftrightarrow> (\<forall>e \<in> set xs. \<not> kequal ops (fst e) k)"
  by (auto simp: al_get_def find_None_iff)

lemma al_put_absent: "al_get ops xs k = None \<Longrightarrow> al_put ops xs k v = xs @ [(k, v)]"
  by (induction xs) (auto simp: al_get_None)

lemma al_put_at:
  "i < length xs \<Longrightarrow> kequal ops (fst (xs ! i)) k \<Longrightarrow> \<forall>j < i. \<not> kequal ops (fst (xs ! j)) k \<Longrightarrow>
     al_put ops xs k v = xs[i := (fst (xs ! i), v)]"
proof (induction xs arbitrary: i)
  case (Cons e xs)
  obtain k' v' where e: "e = (k', v')" by fastforce
  show ?case
  proof (cases i)
    case 0 then show ?thesis using Cons.prems e by simp
  next
    case (Suc j)
    then have "\<not> kequal ops k' k" "\<forall>i < j. \<not> kequal ops (fst (xs ! i)) k" using Cons.prems(3) e by auto
    then show ?thesis using Cons Suc e by simp
  qed
qed simp

lemma al_del_at:
  assumes "al_distinct ops xs" "i < length xs" "kequal ops (fst (xs ! i)) k"
    and "\<And>a b. kequal ops a k \<Longrightarrow> kequal ops b k \<Longrightarrow> kequal ops a b"
  shows "al_del ops xs k = take i xs @ drop (Suc i) xs"
proof -
  have split: "xs = take i xs @ xs ! i # drop (Suc i) xs" using assms(2) by (rule id_take_nth_drop)
  have ne: "\<not> kequal ops (fst e) k" if "e \<in> set (take i xs) \<union> set (drop (Suc i) xs)" for e
  proof
    assume k: "kequal ops (fst e) k"
    have "sorted_wrt (\<lambda>x y. \<not> kequal ops (fst x) (fst y)) (take i xs @ xs ! i # drop (Suc i) xs)"
      using assms(1) split unfolding al_distinct_def by metis
    then show False using that k assms(3,4) by (auto simp: sorted_wrt_append)
  qed
  then have "filter (\<lambda>e. \<not> kequal ops (fst e) k) (take i xs @ xs ! i # drop (Suc i) xs) = take i xs @ drop (Suc i) xs"
    using assms(3) by (simp add: filter_id_conv)
  then show ?thesis unfolding al_del_def using split by metis
qed

section \<open>Ordered arrays as association lists\<close>

text \<open>
  The first \<open>used\<close> slots hold the entries in insertion order; the others hold no key and no value,
  which the code needs, because adding a key keeps the value of the slot it takes.
\<close>

definition ord_rep :: "'k key_ops \<Rightarrow> ('k, 'v) mp_map \<Rightarrow> ('k \<times> 'v option) list \<Rightarrow> bool" where
  "ord_rep ops m xs \<longleftrightarrow> \<not> is_fixed m \<and> is_ordered m \<and> used m = length xs \<and>
     (\<exists>free. table m = map (\<lambda>(k, v). (Key k, v)) xs @ free \<and> set free \<subseteq> {(Null, None), (Sentinel, None)}) \<and>
     al_distinct ops xs \<and> (all_keys_are_qstrs m \<longrightarrow> (\<forall>e \<in> set xs. is_qstr ops (fst e)))"

definition find_idx :: "'k key_ops \<Rightarrow> ('k \<times> 'v) list \<Rightarrow> 'k \<Rightarrow> nat option" where
  "find_idx ops xs k = find (\<lambda>i. kequal ops (fst (xs ! i)) k) [0..<length xs]"

lemma find_idx_None: "find_idx ops xs k = None \<longleftrightarrow> al_get ops xs k = None"
  by (auto simp: find_idx_def al_get_None find_None_iff all_set_conv_all_nth)

lemma find_idx_Some:
  "find_idx ops xs k = Some i \<longleftrightarrow>
     i < length xs \<and> kequal ops (fst (xs ! i)) k \<and> (\<forall>j < i. \<not> kequal ops (fst (xs ! j)) k)"
  by (auto simp: find_idx_def find_Some_iff)

lemma al_get_idx: "find_idx ops xs k = Some i \<Longrightarrow> al_get ops xs k = Some (snd (xs ! i))"
  unfolding find_idx_Some al_get_def map_option_eq_Some
  by (rule exI [of _ "xs ! i"]) (auto simp: find_Some_iff)

lemma ord_rep_nth:
  assumes "ord_rep ops m xs" "i < length xs"
  shows "table m ! i = (Key (fst (xs ! i)), snd (xs ! i))" "i < map_alloc m"
  using assms by (auto simp: ord_rep_def nth_append map_alloc_def split: prod.splits)

lemma al_distinct_update:
  "al_distinct ops xs \<Longrightarrow> al_distinct ops (xs[i := (fst (xs ! i), v)])"
proof -
  have "fst (xs[i := (fst (xs ! i), v)] ! j) = fst (xs ! j)" for j
    by (cases "i < length xs"; cases "i = j") (simp_all add: list_update_beyond)
  then show "al_distinct ops xs \<Longrightarrow> ?thesis" by (simp add: al_distinct_def sorted_wrt_iff_nth_less)
qed

lemma ord_rep_set_value:
  assumes "ord_rep ops m xs" "i < length xs"
  shows "ord_rep ops (map_set_value m i v) (xs[i := (fst (xs ! i), v)])"
proof -
  obtain free where t: "table m = map (\<lambda>(k, v). (Key k, v)) xs @ free" "set free \<subseteq> {(Null, None), (Sentinel, None)}"
    using assms(1) by (auto simp: ord_rep_def)
  have "(map (\<lambda>(k, v). (Key k, v)) xs)[i := (Key (fst (xs ! i)), v)] =
      map (\<lambda>(k, v). (Key k, v)) (xs[i := (fst (xs ! i), v)])" by (simp add: map_update)
  then have "table (map_set_value m i v) = map (\<lambda>(k, v). (Key k, v)) (xs[i := (fst (xs ! i), v)]) @ free"
    using ord_rep_nth [OF assms] assms(2) t(1) by (simp add: map_set_value_def list_update_append)
  moreover have "e \<in> set (xs[i := (fst (xs ! i), v)]) \<Longrightarrow> \<exists>e' \<in> set xs. fst e = fst e'" for e
    using assms(2) by (metis fst_conv insertE nth_mem set_update_subset_insert subsetD)
  ultimately show ?thesis using assms t(2) al_distinct_update [of ops xs i v]
    by (fastforce simp: ord_rep_def map_set_value_def)
qed

context obj_keys
begin

lemma ord_key_match:
  assumes "ord_rep ops m xs" "e \<in> set xs"
  shows "key_match ops (all_keys_are_qstrs m \<and> (is_qstr ops index \<or> \<not> is_str ops index)) index (fst e) \<longleftrightarrow>
    kequal ops (fst e) index"
proof (cases "all_keys_are_qstrs m \<and> (is_qstr ops index \<or> \<not> is_str ops index)")
  case True
  then have q: "is_qstr ops (fst e)" using assms by (auto simp: ord_rep_def)
  then have "kequal ops (fst e) index \<Longrightarrow> is_qstr ops index" using qstr_str True by blast
  then show ?thesis using q qstr_equal equal_refl True by (auto simp: key_match_def)
next
  case False
  then show ?thesis using equal_refl by (auto simp: key_match_def)
qed

lemma ord_find:
  assumes "ord_rep ops m xs"
  shows "ordered_find ops (all_keys_are_qstrs m \<and> (is_qstr ops index \<or> \<not> is_str ops index)) m index =
    find_idx ops xs index"
proof -
  let ?c = "all_keys_are_qstrs m \<and> (is_qstr ops index \<or> \<not> is_str ops index)"
  have "(case fst (table m ! i) of Key k \<Rightarrow> key_match ops ?c index k | _ \<Rightarrow> False) \<longleftrightarrow> kequal ops (fst (xs ! i)) index"
    if "i < length xs" for i
    using ord_rep_nth(1) [OF assms that] ord_key_match [OF assms nth_mem [OF that], of index] by simp
  moreover have "used m = length xs" using assms by (simp add: ord_rep_def)
  ultimately show ?thesis unfolding ordered_find_def find_idx_def by (intro find_cong) auto
qed

lemma ord_lookup:
  assumes "ord_rep ops m xs"
  shows "mp_map_lookup ops m index kind =
    Inr (case find_idx ops xs index of
           Some i \<Rightarrow> (if kind = REMOVE_IF_FOUND then ordered_remove m i else (m, Some i))
         | None \<Rightarrow> (if kind \<noteq> ADD_IF_NOT_FOUND then (m, None) else ordered_add ops m index))"
proof (cases "all_keys_are_qstrs m \<and> \<not> is_qstr ops index \<and> \<not> is_str ops index \<and> kind \<noteq> ADD_IF_NOT_FOUND")
  case True
  then have "\<not> kequal ops (fst e) index" if "e \<in> set xs" for e
    using assms that qstr_str [of "fst e" index] by (auto simp: ord_rep_def)
  then have "find_idx ops xs index = None" by (simp add: find_idx_None al_get_None)
  then show ?thesis using assms True by (simp add: mp_map_lookup_def map_lookup_body_def ord_rep_def)
next
  case False
  then show ?thesis using assms ord_find [OF assms, of index]
    by (auto simp: mp_map_lookup_def map_lookup_body_def ord_rep_def Let_def ordered_lookup_def split: option.splits)
qed

lemma ord_get:
  assumes "ord_rep ops m xs"
  shows "map_get ops m k = al_get ops xs k"
proof -
  obtain free where t: "table m = map (\<lambda>(k, v). (Key k, v)) xs @ free" "set free \<subseteq> {(Null, None), (Sentinel, None)}"
    using assms by (auto simp: ord_rep_def)
  let ?P = "\<lambda>e. case fst e of Key k' \<Rightarrow> kequal ops k' k | _ \<Rightarrow> False"
  have f: "find ?P free = None" using t(2) by (auto simp: find_None_iff)
  have "map_option snd (find ?P (map (\<lambda>(k, v). (Key k, v)) xs @ free)) =
      map_option snd (find (\<lambda>e. kequal ops (fst e) k) xs)"
    using f by (induction xs) auto
  then show ?thesis by (simp add: map_get_def al_get_def t(1))
qed

lemma al_distinct_snoc: "al_distinct ops xs \<Longrightarrow> al_get ops xs k = None \<Longrightarrow> al_distinct ops (xs @ [(k, v)])"
  by (auto simp: al_distinct_def sorted_wrt_append al_get_None)

lemma ord_add:
  assumes rep: "ord_rep ops m xs" and abs: "al_get ops xs k = None"
  shows "\<exists>m'. ordered_add ops m k = (m', Some (length xs)) \<and> ord_rep ops m' (xs @ [(k, None)])"
proof -
  obtain free where t: "table m = map (\<lambda>(k, v). (Key k, v)) xs @ free" "set free \<subseteq> {(Null, None), (Sentinel, None)}"
    using rep by (auto simp: ord_rep_def)
  have u: "used m = length xs" using rep by (simp add: ord_rep_def)
  define tbl where "tbl = (if used m = map_alloc m then table m @ replicate 4 (Null, None) else table m)"
  obtain e free' where tbl: "tbl = map (\<lambda>(k, v). (Key k, v)) xs @ e # free'" "snd e = None"
    "set free' \<subseteq> {(Null, None), (Sentinel, None)}"
  proof (cases free)
    case Nil
    then have "tbl = map (\<lambda>(k, v). (Key k, v)) xs @ (Null, None) # replicate 3 (Null, None)"
      using t(1) u by (simp add: tbl_def map_alloc_def numeral_eq_Suc)
    then show ?thesis by (intro that) auto
  next
    case (Cons e free')
    then have "tbl = map (\<lambda>(k, v). (Key k, v)) xs @ e # free'"
      using t(1) u by (simp add: tbl_def map_alloc_def)
    then show ?thesis using t(2) Cons by (intro that) auto
  qed
  have "tbl[used m := (Key k, snd (tbl ! used m))] = map (\<lambda>(k, v). (Key k, v)) (xs @ [(k, None)]) @ free'"
    unfolding tbl(1) u by (simp add: list_update_append nth_append tbl(2))
  moreover have "al_distinct ops (xs @ [(k, None)])" using rep abs by (intro al_distinct_snoc) (simp_all add: ord_rep_def)
  moreover have "ordered_add ops m k =
      (m\<lparr>used := used m + 1, table := tbl[used m := (Key k, snd (tbl ! used m))],
         all_keys_are_qstrs := all_keys_are_qstrs m \<and> is_qstr ops k\<rparr>, Some (length xs))"
    unfolding ordered_add_def tbl_def [symmetric] Let_def using u by simp
  ultimately show ?thesis using rep tbl(3) u by (auto simp: ord_rep_def)
qed

lemma ord_remove:
  assumes rep: "ord_rep ops m xs" and i: "i < length xs"
  shows "\<exists>m'. ordered_remove m i = (m', Some (length xs - 1)) \<and>
    snd (table m' ! (length xs - 1)) = snd (xs ! i) \<and>
    ord_rep ops (map_set_value m' (length xs - 1) None) (take i xs @ drop (Suc i) xs)"
proof -
  obtain free where t: "table m = map (\<lambda>(k, v). (Key k, v)) xs @ free" "set free \<subseteq> {(Null, None), (Sentinel, None)}"
    using rep by (auto simp: ord_rep_def)
  define u where "u = length xs - 1"
  have u: "used m = Suc u" "length xs = Suc u" using rep i by (auto simp: ord_rep_def u_def)
  let ?f = "\<lambda>(k, v). (Key k, v)"
  have v: "snd (table m ! i) = snd (xs ! i)" using ord_rep_nth [OF rep i] by simp
  have d: "drop u (map ?f xs) = [?f (last xs)]"
    using u(2) by (cases xs rule: rev_cases) simp_all
  have "take i (table m) @ take (u - i) (drop (i + 1) (table m)) @ drop u (table m) =
      map ?f (take i xs @ drop (Suc i) xs) @ ?f (last xs) # free"
    unfolding t(1) using i u(2) d by (simp add: take_map drop_map)
  moreover have l: "length (take i xs @ drop (Suc i) xs) = u" using i u(2) by simp
  ultimately have tbl: "(take i (table m) @ take (u - i) (drop (i + 1) (table m)) @ drop u (table m))[u := (Null, w)] =
      map ?f (take i xs @ drop (Suc i) xs) @ (Null, w) # free" for w
    by (metis list_update_length length_map)
  have "al_distinct ops (take i xs @ drop (Suc i) xs)"
  proof -
    have "xs = take i xs @ xs ! i # drop (Suc i) xs" using i by (rule id_take_nth_drop)
    then have "al_distinct ops (take i xs @ xs ! i # drop (Suc i) xs)" using rep by (simp add: ord_rep_def)
    then show ?thesis by (simp add: al_distinct_def sorted_wrt_append)
  qed
  moreover have "set (take i xs @ drop (Suc i) xs) \<subseteq> set xs" by (simp add: set_take_subset set_drop_subset)
  moreover have n: "(map ?f (take i xs @ drop (Suc i) xs) @ (Null, w) # free) ! u = (Null, w)"
      "(map ?f (take i xs @ drop (Suc i) xs) @ (Null, w) # free)[u := e] = map ?f (take i xs @ drop (Suc i) xs) @ e # free"
    for w e using l by (metis nth_append_length length_map, metis list_update_length length_map)
  define m' where "m' = m\<lparr>used := u, table := map ?f (take i xs @ drop (Suc i) xs) @ (Null, snd (xs ! i)) # free\<rparr>"
  have "ordered_remove m i = (m', Some u)"
    using tbl u(1) v by (simp add: ordered_remove_def m'_def)
  moreover have "table (map_set_value m' u None) = map ?f (take i xs @ drop (Suc i) xs) @ (Null, None) # free"
    unfolding map_set_value_def m'_def using n by simp
  ultimately show ?thesis unfolding u_def [symmetric] using rep t(2) l n(1) [of "snd (xs ! i)"]
    by (intro exI [of _ m'] conjI) (auto simp: ord_rep_def m'_def map_set_value_def)
qed

end

section \<open>The interface of a map\<close>

text \<open>
  A value is never null after the operation that stored it, so the value under a key is an
  option: \<^const>\<open>None\<close> for a missing key.
\<close>

definition map_value :: "'k key_ops \<Rightarrow> ('k, 'v) mp_map \<Rightarrow> 'k \<Rightarrow> 'v option" where
  "map_value ops m k = Option.bind (map_get ops m k) id"

definition no_nulls :: "('k, 'v) mp_map \<Rightarrow> bool" where
  "no_nulls m \<longleftrightarrow> (\<forall>k. (k, None) \<notin> map_entries m)"

locale map_interface =
  fixes ops :: "'k key_ops" and inv :: "('k, 'v) mp_map \<Rightarrow> bool"
  assumes not_fixed: "inv m \<Longrightarrow> \<not> is_fixed m"
    and find_law: "inv m \<Longrightarrow> \<exists>s. mp_map_lookup ops m k LOOKUP = Inr (m, s) \<and>
      map_option (\<lambda>i. snd (table m ! i)) s = map_option Some (map_value ops m k)"
    and put_law: "inv m \<Longrightarrow> \<exists>m' i. mp_map_lookup ops m k ADD_IF_NOT_FOUND = Inr (m', Some i) \<and>
      snd (table m' ! i) = map_value ops m k \<and>
      (map_value ops m k \<noteq> None \<longrightarrow> m' = m) \<and>
      inv (map_set_value m' i (Some v)) \<and>
      used (map_set_value m' i (Some v)) = used m + of_bool (map_value ops m k = None) \<and>
      (\<forall>k'. map_value ops (map_set_value m' i (Some v)) k' = (if kequal ops k k' then Some v else map_value ops m k'))"
    and remove_law: "inv m \<Longrightarrow> \<exists>m' s. mp_map_lookup ops m k REMOVE_IF_FOUND = Inr (m', s) \<and>
      map_option (\<lambda>i. snd (table m' ! i)) s = map_option Some (map_value ops m k) \<and>
      (s = None \<longrightarrow> m' = m) \<and>
      (\<forall>i. s = Some i \<longrightarrow> inv (map_set_value m' i None) \<and> used (map_set_value m' i None) + 1 = used m \<and>
        (\<forall>k'. map_value ops (map_set_value m' i None) k' = (if kequal ops k k' then None else map_value ops m k')))"

definition hash_inv :: "'k key_ops \<Rightarrow> ('k, 'v) mp_map \<Rightarrow> bool" where
  "hash_inv ops m \<longleftrightarrow> map_inv ops m \<and> no_nulls m"

definition ord_inv :: "'k key_ops \<Rightarrow> ('k, 'v) mp_map \<Rightarrow> bool" where
  "ord_inv ops m \<longleftrightarrow> (\<exists>xs. ord_rep ops m xs) \<and> no_nulls m"

context obj_keys
begin

lemma hash_value: "hash_inv ops m \<Longrightarrow> map_get ops m k = map_option Some (map_value ops m k)"
proof (cases "map_get ops m k")
  case (Some w)
  moreover assume inv: "hash_inv ops m"
  moreover from inv have "map_inv ops m" by (simp add: hash_inv_def)
  ultimately obtain k' where "(k', w) \<in> map_entries m" using get_Some_iff [of m k w] by blast
  then have "w \<noteq> None" using inv by (metis hash_inv_def no_nulls_def)
  then show ?thesis using Some by (auto simp: map_value_def)
qed (simp add: map_value_def)

lemma value_absent: "hash_inv ops m \<Longrightarrow> map_value ops m k = None \<longleftrightarrow> \<not> present ops m k"
  using hash_value [of m k] get_None_iff [of m k] by (auto simp: hash_inv_def)

lemma hash_put:
  assumes inv: "hash_inv ops m"
  shows "\<exists>m' i. mp_map_lookup ops m k ADD_IF_NOT_FOUND = Inr (m', Some i) \<and>
      snd (table m' ! i) = map_value ops m k \<and> (map_value ops m k \<noteq> None \<longrightarrow> m' = m) \<and>
      hash_inv ops (map_set_value m' i (Some v)) \<and>
      used (map_set_value m' i (Some v)) = used m + of_bool (map_value ops m k = None) \<and>
      (\<forall>k'. map_value ops (map_set_value m' i (Some v)) k' = (if kequal ops k k' then Some v else map_value ops m k'))"
proof -
  have mi: "map_inv ops m" and nn: "no_nulls m" using inv by (simp_all add: hash_inv_def)
  obtain m' i where s: "mp_map_lookup ops m k ADD_IF_NOT_FOUND = Inr (m', Some i)" "i < map_alloc m'"
    "map_inv ops (map_set_value m' i (Some v))"
    "used (map_set_value m' i (Some v)) = used m + of_bool (map_get ops m k = None)"
    "\<forall>k'. map_get ops (map_set_value m' i (Some v)) k' = (if kequal ops k k' then Some (Some v) else map_get ops m k')"
    using lookup_store [OF mi, of k "Some v"] by blast
  have "no_nulls (map_set_value m' i (Some v))"
    unfolding no_nulls_def
  proof (intro allI notI)
    fix k' assume e: "(k', None) \<in> map_entries (map_set_value m' i (Some v))"
    then have "map_get ops (map_set_value m' i (Some v)) k' = Some None"
      unfolding get_Some_iff [OF s(3)] using equal_refl by blast
    then have "map_get ops m k' = Some None" using s(5) by (auto split: if_splits)
    then show False using hash_value [OF inv, of k'] by (cases "map_value ops m k'") auto
  qed
  moreover have "snd (table m' ! i) = map_value ops m k \<and> (map_value ops m k \<noteq> None \<longrightarrow> m' = m)"
  proof (cases "present ops m k")
    case True
    then obtain j k0 where j: "j < map_alloc m" "fst (table m ! j) = Key k0" "kequal ops k0 k" using present_slot by blast
    then have "m' = m" "i = j" using s(1) lookup_present [OF mi j, of ADD_IF_NOT_FOUND] by auto
    moreover have "map_get ops m k = Some (snd (table m ! j))"
      unfolding get_Some_iff [OF mi] entries_nth using j by (metis prod.collapse)
    ultimately show ?thesis by (simp add: map_value_def)
  next
    case False
    then have n: "map_value ops m k = None" using value_absent [OF inv] by blast
    obtain m1 p where p: "mp_map_lookup ops m k ADD_IF_NOT_FOUND = Inr (m1, Some p)"
      "table m1 ! p = (Key k, None)" using lookup_add [OF mi False] by blast
    then have "m1 = m'" "p = i" using s(1) by simp_all
    then show ?thesis using n p(2) by simp
  qed
  moreover have "map_get ops m k = None \<longleftrightarrow> map_value ops m k = None" using hash_value [OF inv, of k] by simp
  moreover have "map_value ops (map_set_value m' i (Some v)) k' = (if kequal ops k k' then Some v else map_value ops m k')" for k'
    using s(5) by (simp add: map_value_def)
  ultimately show ?thesis using s(1,3,4) by (intro exI [of _ m'] exI [of _ i]) (simp add: hash_inv_def)
qed

lemma hash_remove:
  assumes inv: "hash_inv ops m"
  shows "\<exists>m' s. mp_map_lookup ops m k REMOVE_IF_FOUND = Inr (m', s) \<and>
      map_option (\<lambda>i. snd (table m' ! i)) s = map_option Some (map_value ops m k) \<and>
      (s = None \<longrightarrow> m' = m) \<and>
      (\<forall>i. s = Some i \<longrightarrow> hash_inv ops (map_set_value m' i None) \<and> used (map_set_value m' i None) + 1 = used m \<and>
        (\<forall>k'. map_value ops (map_set_value m' i None) k' = (if kequal ops k k' then None else map_value ops m k')))"
proof (cases "present ops m k")
  case True
  have mi: "map_inv ops m" and nn: "no_nulls m" using inv by (simp_all add: hash_inv_def)
  obtain i k0 where i: "i < map_alloc m" "fst (table m ! i) = Key k0" "kequal ops k0 k" using True present_slot by blast
  define x where "x = deleted_key (map_keys m) i"
  define m2 where "m2 = m\<lparr>used := used m - 1, table := (table m)[i := (x, None)]\<rparr>"
  have l: "mp_map_lookup ops m k REMOVE_IF_FOUND = Inr (map_remove_at m i, Some i)"
    using lookup_present [OF mi i, of REMOVE_IF_FOUND] by simp
  have r: "table (map_remove_at m i) = (table m)[i := (x, snd (table m ! i))]"
    by (simp add: map_remove_at_def x_def map_keys_def)
  have m2: "map_set_value (map_remove_at m i) i None = m2"
    using i(1) by (simp add: map_set_value_def m2_def map_remove_at_def x_def map_keys_def map_alloc_def)
  have u: "map_inv ops m2 \<and> map_entries m2 = map_entries m - {(k0, snd (table m ! i))} \<and> used m2 + 1 = used m"
    using map_inv_unkey [OF mi i(1,2), of x m2 None] by (simp add: x_def m2_def)
  have inv2: "hash_inv ops m2" using u nn by (auto simp: hash_inv_def no_nulls_def)
  have g: "map_value ops m k = snd (table m ! i)"
  proof -
    have "map_get ops m k = Some (snd (table m ! i))"
      unfolding get_Some_iff [OF mi] entries_nth using i by (metis prod.collapse)
    then show ?thesis by (simp add: map_value_def)
  qed
  have "map_value ops m2 k' = (if kequal ops k k' then None else map_value ops m k')" for k'
  proof -
    have "map_get ops m2 k' = map_get ops (map_remove_at m i) k'"
      using u remove_at_correct [OF mi i(1,2)] get_Some_iff [of m2 k'] get_Some_iff [of "map_remove_at m i" k']
      by (metis not_Some_eq)
    moreover have "map_get ops (map_remove_at m i) k' = (if kequal ops k k' then None else map_get ops m k')"
      using lookup_remove [OF mi, of k] l by auto
    ultimately show ?thesis by (simp add: map_value_def)
  qed
  moreover have "map_value ops m k \<noteq> None" using value_absent [OF inv] True by blast
  ultimately show ?thesis using l r m2 u inv2 g i(1) by (auto simp: map_alloc_def)
next
  case False
  then show ?thesis using lookup_absent [of m k REMOVE_IF_FOUND] inv value_absent [OF inv, of k]
    by (auto simp: hash_inv_def)
qed

sublocale hash: map_interface ops "hash_inv ops"
proof
  fix m :: "('k, 'v) mp_map" and k v
  assume inv: "hash_inv ops m"
  show "\<not> is_fixed m" using inv by (simp add: hash_inv_def map_inv_def)
  show "\<exists>s. mp_map_lookup ops m k LOOKUP = Inr (m, s) \<and>
      map_option (\<lambda>i. snd (table m ! i)) s = map_option Some (map_value ops m k)"
    using lookup_get [of m k] hash_value [OF inv, of k] inv by (simp add: hash_inv_def)
  from hash_put [OF inv, of k v] hash_remove [OF inv, of k]
  show "\<exists>m' i. mp_map_lookup ops m k ADD_IF_NOT_FOUND = Inr (m', Some i) \<and>
      snd (table m' ! i) = map_value ops m k \<and> (map_value ops m k \<noteq> None \<longrightarrow> m' = m) \<and>
      hash_inv ops (map_set_value m' i (Some v)) \<and>
      used (map_set_value m' i (Some v)) = used m + of_bool (map_value ops m k = None) \<and>
      (\<forall>k'. map_value ops (map_set_value m' i (Some v)) k' = (if kequal ops k k' then Some v else map_value ops m k'))"
    and "\<exists>m' s. mp_map_lookup ops m k REMOVE_IF_FOUND = Inr (m', s) \<and>
      map_option (\<lambda>i. snd (table m' ! i)) s = map_option Some (map_value ops m k) \<and>
      (s = None \<longrightarrow> m' = m) \<and>
      (\<forall>i. s = Some i \<longrightarrow> hash_inv ops (map_set_value m' i None) \<and> used (map_set_value m' i None) + 1 = used m \<and>
        (\<forall>k'. map_value ops (map_set_value m' i None) k' = (if kequal ops k k' then None else map_value ops m k')))"
    by blast+
qed

lemma al_get_put:
  "al_get ops (al_put ops xs k v) k' = (if kequal ops k k' then Some v else al_get ops xs k')"
proof (induction xs)
  case (Cons e xs)
  obtain a w where e: "e = (a, w)" by fastforce
  have "kequal ops a k \<Longrightarrow> kequal ops a k' \<longleftrightarrow> kequal ops k k'" using equal_sym equal_trans by blast
  moreover have "\<not> kequal ops a k \<Longrightarrow> kequal ops a k' \<Longrightarrow> \<not> kequal ops k k'" using equal_sym equal_trans by blast
  ultimately show ?case using Cons.IH by (auto simp: al_get_def e)
qed (simp add: al_get_def)

lemma al_get_del: "al_get ops (al_del ops xs k) k' = (if kequal ops k k' then None else al_get ops xs k')"
proof (induction xs)
  case (Cons e xs)
  obtain a w where e: "e = (a, w)" by fastforce
  have "kequal ops (fst e) k \<Longrightarrow> kequal ops (fst e) k' \<longleftrightarrow> kequal ops k k'" using equal_sym equal_trans by blast
  moreover have "kequal ops k k' \<Longrightarrow> kequal ops (fst e) k' \<Longrightarrow> kequal ops (fst e) k" using equal_sym equal_trans by blast
  ultimately show ?case using Cons.IH by (auto simp: al_get_def al_del_def e)
qed (simp add: al_get_def al_del_def)

lemma ord_entries: "ord_rep ops m xs \<Longrightarrow> map_entries m = set xs"
  by (force simp: ord_rep_def map_entries_def)

lemma ord_value:
  assumes "ord_rep ops m xs" "no_nulls m"
  shows "al_get ops xs k = map_option Some (map_value ops m k)"
proof (cases "al_get ops xs k")
  case (Some w)
  then obtain a where "(a, w) \<in> set xs" by (auto simp: al_get_def find_Some_iff) (metis nth_mem)
  then have "w \<noteq> None" using assms by (metis ord_entries no_nulls_def)
  then show ?thesis using Some by (auto simp: map_value_def ord_get [OF assms(1)])
qed (simp add: map_value_def ord_get [OF assms(1)])

text \<open>A lookup that adds, followed by the store, is the update of the association list.\<close>

lemma ord_put:
  assumes rep: "ord_rep ops m xs"
  shows "\<exists>m' i. mp_map_lookup ops m k ADD_IF_NOT_FOUND = Inr (m', Some i) \<and>
    snd (table m' ! i) = Option.bind (al_get ops xs k) id \<and> (al_get ops xs k \<noteq> None \<longrightarrow> m' = m) \<and>
    ord_rep ops (map_set_value m' i v) (al_put ops xs k v)"
proof (cases "find_idx ops xs k")
  case None
  then have n: "al_get ops xs k = None" by (simp add: find_idx_None)
  from ord_add [OF rep n] obtain m' where m': "ordered_add ops m k = (m', Some (length xs))"
    "ord_rep ops m' (xs @ [(k, None)])" by blast
  have "ord_rep ops (map_set_value m' (length xs) v) (xs @ [(k, v)])"
    using ord_rep_set_value [OF m'(2), of "length xs" v] by simp
  moreover have "snd (table m' ! length xs) = None" using ord_rep_nth(1) [OF m'(2), of "length xs"] by simp
  ultimately show ?thesis using ord_lookup [OF rep, of k ADD_IF_NOT_FOUND] None n m'(1) al_put_absent [OF n, of v] by simp
next
  case (Some i)
  note i = Some [unfolded find_idx_Some]
  have "ord_rep ops (map_set_value m i v) (al_put ops xs k v)"
    using ord_rep_set_value [OF rep, of i v] al_put_at [of i xs ops k v] i by simp
  moreover have "snd (table m ! i) = snd (xs ! i)" using ord_rep_nth(1) [OF rep, of i] i by simp
  ultimately show ?thesis using ord_lookup [OF rep, of k ADD_IF_NOT_FOUND] Some al_get_idx [OF Some] by simp
qed

lemma ord_delete:
  assumes rep: "ord_rep ops m xs"
  shows "\<exists>m' s. mp_map_lookup ops m k REMOVE_IF_FOUND = Inr (m', s) \<and>
    map_option (\<lambda>i. snd (table m' ! i)) s = al_get ops xs k \<and> (s = None \<longrightarrow> m' = m) \<and>
    (\<forall>i. s = Some i \<longrightarrow> ord_rep ops (map_set_value m' i None) (al_del ops xs k) \<and>
       length (al_del ops xs k) + 1 = length xs)"
proof (cases "find_idx ops xs k")
  case None
  then have "al_get ops xs k = None" by (simp add: find_idx_None)
  then show ?thesis using ord_lookup [OF rep, of k REMOVE_IF_FOUND] None by simp
next
  case (Some i)
  note i = Some [unfolded find_idx_Some]
  have "al_del ops xs k = take i xs @ drop (Suc i) xs"
    using rep i by (intro al_del_at) (auto simp: ord_rep_def intro: equal_trans equal_sym)
  then show ?thesis
    using ord_remove [OF rep, of i] i ord_lookup [OF rep, of k REMOVE_IF_FOUND] Some al_get_idx [OF Some] by auto
qed

lemma no_nulls_set: "ord_rep ops m xs \<Longrightarrow> no_nulls m \<longleftrightarrow> None \<notin> snd ` set xs"
  by (force simp: no_nulls_def ord_entries)

lemma no_nulls_put: "None \<notin> snd ` set xs \<Longrightarrow> None \<notin> snd ` set (al_put ops xs k (Some v))"
  by (induction xs) (force split: if_splits)+

lemma al_put_length: "length (al_put ops xs k v) = length xs + of_bool (al_get ops xs k = None)"
  by (induction xs) (auto simp: al_get_def)

sublocale ord: map_interface ops "ord_inv ops"
proof
  fix m :: "('k, 'v) mp_map" and k v
  assume inv: "ord_inv ops m"
  then obtain xs where rep: "ord_rep ops m xs" and nn: "no_nulls m" by (auto simp: ord_inv_def)
  note val = ord_value [OF rep nn]
  have u: "used m = length xs" using rep by (simp add: ord_rep_def)
  show "\<not> is_fixed m" using rep by (simp add: ord_rep_def)
  show "\<exists>s. mp_map_lookup ops m k LOOKUP = Inr (m, s) \<and>
      map_option (\<lambda>i. snd (table m ! i)) s = map_option Some (map_value ops m k)"
  proof (cases "find_idx ops xs k")
    case None
    then show ?thesis using ord_lookup [OF rep, of k LOOKUP] val [of k] find_idx_None [of ops xs k] by simp
  next
    case (Some i)
    then have "i < length xs" by (simp add: find_idx_Some)
    then show ?thesis using ord_lookup [OF rep, of k LOOKUP] val [of k] Some al_get_idx [OF Some] ord_rep_nth(1) [OF rep]
      by simp
  qed
  obtain m' i where p: "mp_map_lookup ops m k ADD_IF_NOT_FOUND = Inr (m', Some i)"
    "snd (table m' ! i) = Option.bind (al_get ops xs k) id" "al_get ops xs k \<noteq> None \<longrightarrow> m' = m"
    "ord_rep ops (map_set_value m' i (Some v)) (al_put ops xs k (Some v))" using ord_put [OF rep, of k "Some v"] by blast
  have "Option.bind (al_get ops xs k) id = map_value ops m k" "al_get ops xs k = None \<longleftrightarrow> map_value ops m k = None"
    using val [of k] by (simp_all add: map_value_def [of ops m k] ord_get [OF rep]) (metis option.map_disc_iff)
  moreover have "ord_inv ops (map_set_value m' i (Some v))"
    using p(4) nn no_nulls_put [of xs k v] by (auto simp: ord_inv_def no_nulls_set [OF rep] no_nulls_set [OF p(4)])
  moreover have "used (map_set_value m' i (Some v)) = used m + of_bool (al_get ops xs k = None)"
    using p(4) u by (simp add: ord_rep_def al_put_length)
  moreover have "map_value ops (map_set_value m' i (Some v)) k' = (if kequal ops k k' then Some v else map_value ops m k')" for k'
    by (simp add: map_value_def ord_get [OF rep] ord_get [OF p(4)] al_get_put)
  ultimately show "\<exists>m' i. mp_map_lookup ops m k ADD_IF_NOT_FOUND = Inr (m', Some i) \<and>
      snd (table m' ! i) = map_value ops m k \<and> (map_value ops m k \<noteq> None \<longrightarrow> m' = m) \<and>
      ord_inv ops (map_set_value m' i (Some v)) \<and>
      used (map_set_value m' i (Some v)) = used m + of_bool (map_value ops m k = None) \<and>
      (\<forall>k'. map_value ops (map_set_value m' i (Some v)) k' = (if kequal ops k k' then Some v else map_value ops m k'))"
    using p by (intro exI [of _ m'] exI [of _ i]) simp
  obtain m2 s where r: "mp_map_lookup ops m k REMOVE_IF_FOUND = Inr (m2, s)"
    "map_option (\<lambda>i. snd (table m2 ! i)) s = al_get ops xs k" "s = None \<longrightarrow> m2 = m"
    "\<forall>i. s = Some i \<longrightarrow> ord_rep ops (map_set_value m2 i None) (al_del ops xs k) \<and> length (al_del ops xs k) + 1 = length xs"
    using ord_delete [OF rep, of k] by blast
  have "ord_inv ops (map_set_value m2 i None) \<and> used (map_set_value m2 i None) + 1 = used m \<and>
      (\<forall>k'. map_value ops (map_set_value m2 i None) k' = (if kequal ops k k' then None else map_value ops m k'))"
    if "s = Some i" for i
  proof -
    have rep2: "ord_rep ops (map_set_value m2 i None) (al_del ops xs k)" using r(4) that by blast
    moreover have "None \<notin> snd ` set (al_del ops xs k)" using nn by (auto simp: no_nulls_set [OF rep] al_del_def)
    ultimately have "ord_inv ops (map_set_value m2 i None)" by (auto simp: ord_inv_def no_nulls_set [OF rep2])
    then show ?thesis using rep2 r(4) that u
      by (simp add: map_value_def ord_get [OF rep] ord_get [OF rep2] al_get_del) (simp add: ord_rep_def)
  qed
  then show "\<exists>m' s. mp_map_lookup ops m k REMOVE_IF_FOUND = Inr (m', s) \<and>
      map_option (\<lambda>i. snd (table m' ! i)) s = map_option Some (map_value ops m k) \<and>
      (s = None \<longrightarrow> m' = m) \<and>
      (\<forall>i. s = Some i \<longrightarrow> ord_inv ops (map_set_value m' i None) \<and> used (map_set_value m' i None) + 1 = used m \<and>
        (\<forall>k'. map_value ops (map_set_value m' i None) k' = (if kequal ops k k' then None else map_value ops m k')))"
    using r val [of k] by (intro exI [of _ m2] exI [of _ s]) simp
qed

end

end
