(* ===== verification/Mp_Obj.thy ===== *)
theory Mp_Obj
  imports Mp_Map_Laws
begin

text \<open>
  Key objects: interned strings, string objects and small integers, with the equality of
  \<^verbatim>\<open>py/obj.c\<close> and \<^verbatim>\<open>py/objstr.c\<close> and the hash of \<^verbatim>\<open>py/qstr.c\<close> and \<^verbatim>\<open>py/runtime.c\<close> on them; they satisfy
  what maps and sets rely on. A qstr is named by the string it interns (the theory of the
  string pool shows that interning makes the two interchangeable). A string object has an
  address, and its hash field is computed or still zero.
\<close>

section \<open>Hashes\<close>

definition qstr_hash_step :: "nat \<Rightarrow> nat \<Rightarrow> nat" where
  "qstr_hash_step b hash = u32 (u32 (hash * 2 ^ 5) + hash) XOR b"

definition qstr_compute_hash :: "nat list \<Rightarrow> nat" where
  "qstr_compute_hash data =
     (let hash = fold qstr_hash_step data 5381 mod 2 ^ 8 in if hash = 0 then hash + 1 else hash)"

lemma qstr_compute_hash_range: "0 < qstr_compute_hash data \<and> qstr_compute_hash data < 2 ^ 8"
  by (simp add: qstr_compute_hash_def Let_def)

section \<open>Objects\<close>

datatype mp_obj =
    SmallInt int
  | Qstr "nat list"
  | Str (address: nat) (hashed: bool) (str_data: "nat list")

definition mp_obj_is_qstr :: "mp_obj \<Rightarrow> bool" where
  "mp_obj_is_qstr o1 \<longleftrightarrow> (case o1 of Qstr s \<Rightarrow> True | _ \<Rightarrow> False)"

definition mp_obj_is_str_obj :: "mp_obj \<Rightarrow> bool" where
  "mp_obj_is_str_obj o1 \<longleftrightarrow> (case o1 of Str a h s \<Rightarrow> True | _ \<Rightarrow> False)"

definition mp_obj_is_str :: "mp_obj \<Rightarrow> bool" where
  "mp_obj_is_str o1 \<longleftrightarrow> mp_obj_is_qstr o1 \<or> mp_obj_is_str_obj o1"

fun GET_STR_HASH :: "mp_obj \<Rightarrow> nat" where
  "GET_STR_HASH (Qstr s) = qstr_compute_hash s"
| "GET_STR_HASH (Str a h s) = (if h then qstr_compute_hash s else 0)"
| "GET_STR_HASH (SmallInt i) = 0"

fun GET_STR_DATA :: "mp_obj \<Rightarrow> nat list" where
  "GET_STR_DATA (Qstr s) = s"
| "GET_STR_DATA (Str a h s) = s"
| "GET_STR_DATA (SmallInt i) = []"

definition mp_obj_str_equal :: "mp_obj \<Rightarrow> mp_obj \<Rightarrow> bool" where
  "mp_obj_str_equal s1 s2 =
     (if mp_obj_is_qstr s1 \<and> mp_obj_is_qstr s2 then s1 = s2
      else let h1 = GET_STR_HASH s1; h2 = GET_STR_HASH s2
           in if h1 \<noteq> 0 \<and> h2 \<noteq> 0 \<and> h1 \<noteq> h2 then False
              else let d1 = GET_STR_DATA s1; d2 = GET_STR_DATA s2
                   in if length d1 \<noteq> length d2 then False else d1 = d2)"

text \<open>
  \<^verbatim>\<open>mp_obj_equal\<close> on these types: identical objects are equal, strings compare by contents, and
  neither integers nor strings implement equality with the other.
\<close>

definition mp_obj_equal :: "mp_obj \<Rightarrow> mp_obj \<Rightarrow> bool" where
  "mp_obj_equal o1 o2 =
     (if o1 = o2 then True
      else if mp_obj_is_str o1 \<and> mp_obj_is_str o2 then mp_obj_str_equal o1 o2
      else False)"

text \<open>\<^verbatim>\<open>mp_unary_op(MP_UNARY_OP_HASH, _)\<close>, as the unsigned word the tables use.\<close>

definition mp_obj_hash :: "mp_obj \<Rightarrow> nat" where
  "mp_obj_hash o1 =
     (case o1 of
        SmallInt i \<Rightarrow> nat (i mod 2 ^ 32)
      | _ \<Rightarrow> (let h = GET_STR_HASH o1 in if h = 0 then qstr_compute_hash (GET_STR_DATA o1) else h))"

definition obj_ops :: "mp_obj key_ops" where
  "obj_ops = \<lparr>is_qstr = mp_obj_is_qstr, is_str = mp_obj_is_str_obj, kequal = mp_obj_equal, khash = mp_obj_hash\<rparr>"

section \<open>Equality is equality of values\<close>

datatype obj_value = IntValue int | StrValue "nat list"

fun value_of :: "mp_obj \<Rightarrow> obj_value" where
  "value_of (SmallInt i) = IntValue i"
| "value_of (Qstr s) = StrValue s"
| "value_of (Str a h s) = StrValue s"

lemma mp_obj_equal_iff: "mp_obj_equal a b \<longleftrightarrow> value_of a = value_of b"
  by (cases a; cases b)
    (auto simp: mp_obj_equal_def mp_obj_is_str_def mp_obj_is_qstr_def mp_obj_is_str_obj_def mp_obj_str_equal_def Let_def)

lemma mp_obj_hash_value:
  "mp_obj_hash o1 = (case value_of o1 of IntValue i \<Rightarrow> nat (i mod 2 ^ 32) | StrValue s \<Rightarrow> qstr_compute_hash s)"
  using qstr_compute_hash_range by (cases o1) (simp_all add: mp_obj_hash_def Let_def)

interpretation obj: obj_keys obj_ops
proof
  show "is_qstr obj_ops a \<Longrightarrow> is_qstr obj_ops b \<Longrightarrow> kequal obj_ops a b \<Longrightarrow> a = b" for a b
    by (cases a; cases b) (simp_all add: obj_ops_def mp_obj_equal_iff mp_obj_is_qstr_def)
  show "is_qstr obj_ops a \<Longrightarrow> kequal obj_ops a b \<Longrightarrow> is_qstr obj_ops b \<or> is_str obj_ops b" for a b
    by (cases a; cases b) (simp_all add: obj_ops_def mp_obj_equal_iff mp_obj_is_qstr_def mp_obj_is_str_obj_def)
qed (simp_all add: obj_ops_def mp_obj_equal_iff mp_obj_hash_value)

end
