(* ===== verification/Mp_Dict.thy ===== *)
theory Mp_Dict
  imports Mp_Obj
begin

text \<open>
  The dictionary operations of \<^verbatim>\<open>py/objdict.c\<close> over the maps of \<^verbatim>\<open>py/map.c\<close>: subscripts, \<^verbatim>\<open>get\<close>, \<^verbatim>\<open>pop\<close>,
  \<^verbatim>\<open>setdefault\<close>, \<^verbatim>\<open>popitem\<close>, \<^verbatim>\<open>update\<close>, \<^verbatim>\<open>fromkeys\<close>, \<^verbatim>\<open>copy\<close>, \<^verbatim>\<open>clear\<close>, iteration and equality. Values are a type
  parameter; the Python exceptions are error values. An operation whose result is an
  error has left the dictionary as it was.
\<close>

datatype dict_error =
    KeyError
  | DictTypeError          \<comment> \<open>\<^verbatim>\<open>mp_ensure_not_fixed\<close>\<close>
  | AssertDictNext         \<comment> \<open>\<^verbatim>\<open>assert(next)\<close> of \<^verbatim>\<open>dict_popitem\<close>\<close>
  | NullDeref              \<comment> \<open>a write through the null pointer of a failed lookup\<close>
  | WrongLength            \<comment> \<open>\<^verbatim>\<open>dict update sequence has wrong length\<close>\<close>
  | MapError map_error

definition lift_map :: "map_error + 'a \<Rightarrow> dict_error + 'a" where
  "lift_map r = (case r of Inl e \<Rightarrow> Inl (MapError e) | Inr x \<Rightarrow> Inr x)"

lemma lift_map_simps [simp]: "lift_map (Inl e) = Inl (MapError e)" "lift_map (Inr x) = Inr x"
  by (simp_all add: lift_map_def)

section \<open>Operations\<close>

definition mp_ensure_not_fixed :: "('k, 'v) mp_map \<Rightarrow> dict_error + unit" where
  "mp_ensure_not_fixed m = (if is_fixed m then Inl DictTypeError else Inr ())"

definition mp_map_slot_is_filled :: "('k, 'v) mp_map \<Rightarrow> nat \<Rightarrow> bool" where
  "mp_map_slot_is_filled m pos \<longleftrightarrow> fst (table m ! pos) \<noteq> Null \<and> fst (table m ! pos) \<noteq> Sentinel"

text \<open>The index of the next filled slot from \<open>cur\<close>; the new \<open>cur\<close> is one more.\<close>

definition dict_iter_next :: "('k, 'v) mp_map \<Rightarrow> nat \<Rightarrow> nat option" where
  "dict_iter_next m cur = find (mp_map_slot_is_filled m) [cur..<map_alloc m]"

text \<open>A loop \<^verbatim>\<open>while ((next = dict_iter_next(dict, &cur)) != NULL)\<close>, as the list of slots it visits.\<close>

function dict_iterate :: "('k, 'v) mp_map \<Rightarrow> nat \<Rightarrow> nat list" where
  "dict_iterate m cur =
     (case dict_iter_next m cur of
        None \<Rightarrow> []
      | Some i \<Rightarrow> i # dict_iterate m (i + 1))"
  by pat_completeness auto
termination
  by (relation "measure (\<lambda>(m, cur). map_alloc m - cur)")
    (auto simp: dict_iter_next_def find_Some_iff simp del: upt_Suc)

declare dict_iterate.simps [simp del]

definition mp_obj_dict_get :: "'k key_ops \<Rightarrow> ('k, 'v) mp_map \<Rightarrow> 'k \<Rightarrow> dict_error + 'v option" where
  "mp_obj_dict_get ops m index =
     res_bind (lift_map (mp_map_lookup ops m index LOOKUP)) (\<lambda>(m, elem).
     case elem of None \<Rightarrow> Inl KeyError | Some i \<Rightarrow> Inr (snd (table m ! i)))"

text \<open>\<^verbatim>\<open>mp_map_lookup(map, key, MP_MAP_LOOKUP_ADD_IF_NOT_FOUND)->value = v\<close>\<close>

definition map_put :: "'k key_ops \<Rightarrow> ('k, 'v) mp_map \<Rightarrow> 'k \<Rightarrow> 'v option \<Rightarrow> dict_error + ('k, 'v) mp_map" where
  "map_put ops m key v =
     res_bind (lift_map (mp_map_lookup ops m key ADD_IF_NOT_FOUND)) (\<lambda>(m, elem).
     case elem of None \<Rightarrow> Inl NullDeref | Some i \<Rightarrow> Inr (map_set_value m i v))"

definition mp_obj_dict_store :: "'k key_ops \<Rightarrow> ('k, 'v) mp_map \<Rightarrow> 'k \<Rightarrow> 'v \<Rightarrow> dict_error + ('k, 'v) mp_map" where
  "mp_obj_dict_store ops m key v = res_bind (mp_ensure_not_fixed m) (\<lambda>_. map_put ops m key (Some v))"

text \<open>
  \<open>dflt\<close> is the third argument if there is one, \<open>none\<close> the object \<^verbatim>\<open>mp_const_none\<close>.
\<close>

definition dict_get_helper :: "'k key_ops \<Rightarrow> 'v \<Rightarrow> ('k, 'v) mp_map \<Rightarrow> 'k \<Rightarrow> 'v option \<Rightarrow> lookup_kind \<Rightarrow>
  dict_error + ('k, 'v) mp_map \<times> 'v" where
  "dict_get_helper ops none m key dflt kind =
     res_bind (if kind \<noteq> LOOKUP then mp_ensure_not_fixed m else Inr ()) (\<lambda>_.
     res_bind (lift_map (mp_map_lookup ops m key kind)) (\<lambda>(m, elem).
     case (case elem of None \<Rightarrow> None | Some i \<Rightarrow> snd (table m ! i)) of
       None \<Rightarrow>
         res_bind (case dflt of
                     None \<Rightarrow> (if kind = REMOVE_IF_FOUND then Inl KeyError else Inr none)
                   | Some d \<Rightarrow> Inr d) (\<lambda>v.
         if kind = ADD_IF_NOT_FOUND
         then (case elem of None \<Rightarrow> Inl NullDeref | Some i \<Rightarrow> Inr (map_set_value m i (Some v), v))
         else Inr (m, v))
     | Some v \<Rightarrow>
         Inr (if kind = REMOVE_IF_FOUND then (case elem of Some i \<Rightarrow> map_set_value m i None | None \<Rightarrow> m) else m, v)))"

definition dict_get :: "'k key_ops \<Rightarrow> 'v \<Rightarrow> ('k, 'v) mp_map \<Rightarrow> 'k \<Rightarrow> 'v option \<Rightarrow> dict_error + ('k, 'v) mp_map \<times> 'v" where
  "dict_get ops none m key dflt = dict_get_helper ops none m key dflt LOOKUP"

definition dict_pop :: "'k key_ops \<Rightarrow> 'v \<Rightarrow> ('k, 'v) mp_map \<Rightarrow> 'k \<Rightarrow> 'v option \<Rightarrow> dict_error + ('k, 'v) mp_map \<times> 'v" where
  "dict_pop ops none m key dflt = dict_get_helper ops none m key dflt REMOVE_IF_FOUND"

definition dict_setdefault :: "'k key_ops \<Rightarrow> 'v \<Rightarrow> ('k, 'v) mp_map \<Rightarrow> 'k \<Rightarrow> 'v option \<Rightarrow> dict_error + ('k, 'v) mp_map \<times> 'v" where
  "dict_setdefault ops none m key dflt = dict_get_helper ops none m key dflt ADD_IF_NOT_FOUND"

definition mp_obj_dict_delete :: "'k key_ops \<Rightarrow> 'v \<Rightarrow> ('k, 'v) mp_map \<Rightarrow> 'k \<Rightarrow> dict_error + ('k, 'v) mp_map" where
  "mp_obj_dict_delete ops none m key =
     res_bind (dict_get_helper ops none m key None REMOVE_IF_FOUND) (\<lambda>(m, v). Inr m)"

text \<open>\<^verbatim>\<open>dict_subscr\<close>: delete, load and store by the third argument.\<close>

datatype 'v subscr_value = SubscrNull | SubscrSentinel | SubscrValue 'v

definition dict_subscr :: "'k key_ops \<Rightarrow> 'v \<Rightarrow> ('k, 'v) mp_map \<Rightarrow> 'k \<Rightarrow> 'v subscr_value \<Rightarrow>
  dict_error + ('k, 'v) mp_map \<times> 'v option" where
  "dict_subscr ops none m index v =
     (case v of
        SubscrNull \<Rightarrow> res_bind (mp_obj_dict_delete ops none m index) (\<lambda>m. Inr (m, Some none))
      | SubscrSentinel \<Rightarrow>
          res_bind (lift_map (mp_map_lookup ops m index LOOKUP)) (\<lambda>(m, elem).
          case elem of None \<Rightarrow> Inl KeyError | Some i \<Rightarrow> Inr (m, snd (table m ! i)))
      | SubscrValue x \<Rightarrow> res_bind (mp_obj_dict_store ops m index x) (\<lambda>m. Inr (m, Some none)))"

definition dict_clear :: "('k, 'v) mp_map \<Rightarrow> dict_error + ('k, 'v) mp_map" where
  "dict_clear m = res_bind (mp_ensure_not_fixed m) (\<lambda>_. Inr (mp_map_clear m))"

definition mp_obj_new_dict :: "nat \<Rightarrow> ('k, 'v) mp_map" where
  "mp_obj_new_dict n_args = mp_map_init n_args"

definition mp_obj_dict_copy :: "('k, 'v) mp_map \<Rightarrow> ('k, 'v) mp_map" where
  "mp_obj_dict_copy m =
     (mp_obj_new_dict (map_alloc m))\<lparr>used := used m, all_keys_are_qstrs := all_keys_are_qstrs m,
        is_fixed := False, is_ordered := is_ordered m, table := table m\<rparr>"

definition dict_popitem :: "('k, 'v) mp_map \<Rightarrow> dict_error + ('k, 'v) mp_map \<times> ('k key \<times> 'v option)" where
  "dict_popitem m =
     res_bind (mp_ensure_not_fixed m) (\<lambda>_.
     if used m = 0 then Inl KeyError
     else let cur = (if is_ordered m then used m - 1 else 0)
          in case dict_iter_next m cur of
               None \<Rightarrow> Inl AssertDictNext
             | Some i \<Rightarrow>
                 Inr (m\<lparr>used := used m - 1, table := (table m)[i := (Sentinel, None)]\<rparr>, table m ! i))"

text \<open>The key and value of a filled slot, and those of all slots a loop visits.\<close>

definition slot_pair :: "('k key \<times> 'v option) \<Rightarrow> ('k \<times> 'v option) list" where
  "slot_pair e = (case e of (Key k, v) \<Rightarrow> [(k, v)] | _ \<Rightarrow> [])"

definition dict_items :: "('k, 'v) mp_map \<Rightarrow> ('k \<times> 'v option) list" where
  "dict_items m = concat (map (\<lambda>i. slot_pair (table m ! i)) (dict_iterate m 0))"

text \<open>The loops of \<^verbatim>\<open>dict_update\<close> and \<^verbatim>\<open>dict_fromkeys\<close>: pairs stored in order.\<close>

fun dict_add_all :: "'k key_ops \<Rightarrow> ('k, 'v) mp_map \<Rightarrow> ('k \<times> 'v option) list \<Rightarrow> dict_error + ('k, 'v) mp_map" where
  "dict_add_all ops m [] = Inr m"
| "dict_add_all ops m ((k, v) # kvs) = res_bind (map_put ops m k v) (\<lambda>m. dict_add_all ops m kvs)"

text \<open>
  The positional argument of \<^verbatim>\<open>dict_update\<close>. An element of a generic iterable is \<^const>\<open>None\<close> if its own
  iterator does not yield two objects; the exception then leaves the pairs before it stored,
  so the result is the map together with the exception, if any.
\<close>

datatype ('k, 'v) update_arg =
    NoArg
  | SameDict
  | OtherDict "('k, 'v) mp_map"
  | Pairs "('k \<times> 'v) option list"

fun dict_add_pairs :: "'k key_ops \<Rightarrow> ('k, 'v) mp_map \<Rightarrow> ('k \<times> 'v) option list \<Rightarrow>
  dict_error + ('k, 'v) mp_map \<times> dict_error option" where
  "dict_add_pairs ops m [] = Inr (m, None)"
| "dict_add_pairs ops m (None # ps) = Inr (m, Some WrongLength)"
| "dict_add_pairs ops m (Some (k, v) # ps) =
     res_bind (map_put ops m k (Some v)) (\<lambda>m. dict_add_pairs ops m ps)"

definition dict_update :: "'k key_ops \<Rightarrow> ('k, 'v) mp_map \<Rightarrow> ('k, 'v) update_arg \<Rightarrow> ('k, 'v) mp_map \<Rightarrow>
  dict_error + ('k, 'v) mp_map \<times> dict_error option" where
  "dict_update ops m arg kwargs =
     res_bind (mp_ensure_not_fixed m) (\<lambda>_.
     res_bind (case arg of
                 NoArg \<Rightarrow> Inr (m, None)
               | SameDict \<Rightarrow> Inr (m, None)
               | OtherDict other \<Rightarrow> res_bind (dict_add_all ops m (dict_items other)) (\<lambda>m. Inr (m, None))
               | Pairs ps \<Rightarrow> dict_add_pairs ops m ps) (\<lambda>(m, raised).
     if raised \<noteq> None then Inr (m, raised)
     else res_bind (dict_add_all ops m
            (concat (map (\<lambda>i. if mp_map_slot_is_filled kwargs i then slot_pair (table kwargs ! i) else [])
               [0..<map_alloc kwargs]))) (\<lambda>m.
          Inr (m, None))))"

definition mp_obj_dict_make_new :: "'k key_ops \<Rightarrow> bool \<Rightarrow> ('k, 'v) update_arg \<Rightarrow> ('k \<times> 'v) list \<Rightarrow>
  dict_error + ('k, 'v) mp_map \<times> dict_error option" where
  "mp_obj_dict_make_new ops ordereddict arg kw =
     (let m = (mp_obj_new_dict 0)\<lparr>is_ordered := ordereddict\<rparr>
      in if arg \<noteq> NoArg \<or> kw \<noteq> [] then dict_update ops m arg (mp_map_init_fixed_table kw)
         else Inr (m, None))"

definition dict_fromkeys :: "'k key_ops \<Rightarrow> 'k list \<Rightarrow> nat option \<Rightarrow> 'v \<Rightarrow> dict_error + ('k, 'v) mp_map" where
  "dict_fromkeys ops keys len v =
     dict_add_all ops (mp_obj_new_dict (case len of None \<Rightarrow> 0 | Some n \<Rightarrow> n)) (map (\<lambda>k. (k, Some v)) keys)"

text \<open>
  \<^verbatim>\<open>dict_binary_op\<close>: membership, and equality of dictionaries given with their types (\<^const>\<open>True\<close> for
  \<^verbatim>\<open>mp_type_ordereddict\<close>); \<open>veq\<close> compares values.
\<close>

definition dict_contains :: "'k key_ops \<Rightarrow> ('k, 'v) mp_map \<Rightarrow> 'k \<Rightarrow> dict_error + bool" where
  "dict_contains ops m k =
     res_bind (lift_map (mp_map_lookup ops m k LOOKUP)) (\<lambda>(m, elem). Inr (elem \<noteq> None))"

fun ordereddict_equal_loop :: "'k key_ops \<Rightarrow> ('v option \<Rightarrow> 'v option \<Rightarrow> bool) \<Rightarrow> ('k \<times> 'v option) list \<Rightarrow>
  ('k \<times> 'v option) list \<Rightarrow> bool" where
  "ordereddict_equal_loop ops veq ((k1, v1) # es1) ((k2, v2) # es2) =
     (if \<not> kequal ops k1 k2 \<or> \<not> veq v1 v2 then False else ordereddict_equal_loop ops veq es1 es2)"
| "ordereddict_equal_loop ops veq es1 es2 = (es1 = [] \<and> es2 = [])"

fun dict_equal_loop :: "'k key_ops \<Rightarrow> ('v option \<Rightarrow> 'v option \<Rightarrow> bool) \<Rightarrow> ('k, 'v) mp_map \<Rightarrow>
  ('k \<times> 'v option) list \<Rightarrow> dict_error + bool" where
  "dict_equal_loop ops veq rhs [] = Inr True"
| "dict_equal_loop ops veq rhs ((k, v) # kvs) =
     res_bind (lift_map (mp_map_lookup ops rhs k LOOKUP)) (\<lambda>(rhs, elem).
     case elem of
       None \<Rightarrow> Inr False
     | Some i \<Rightarrow> (if veq v (snd (table rhs ! i)) then dict_equal_loop ops veq rhs kvs else Inr False))"

definition dict_equal :: "'k key_ops \<Rightarrow> ('v option \<Rightarrow> 'v option \<Rightarrow> bool) \<Rightarrow> bool \<times> ('k, 'v) mp_map \<Rightarrow>
  bool \<times> ('k, 'v) mp_map \<Rightarrow> dict_error + bool" where
  "dict_equal ops veq lhs rhs =
     (if fst lhs \<and> fst rhs
      then Inr (ordereddict_equal_loop ops veq (dict_items (snd lhs)) (dict_items (snd rhs)))
      else if \<not> fst rhs
      then (if used (snd lhs) \<noteq> used (snd rhs) then Inr False
            else dict_equal_loop ops veq (snd rhs) (dict_items (snd lhs)))
      else Inr False)"

section \<open>Iteration\<close>

lemma dict_iterate_filter: "dict_iterate m cur = filter (mp_map_slot_is_filled m) [cur..<map_alloc m]"
proof (induction m cur rule: dict_iterate.induct)
  case (1 m cur)
  show ?case
  proof (cases "dict_iter_next m cur")
    case None
    then have "filter (mp_map_slot_is_filled m) [cur..<map_alloc m] = []"
      by (auto simp: dict_iter_next_def find_None_iff filter_empty_conv)
    then show ?thesis using None by (simp add: dict_iterate.simps)
  next
    case (Some i)
    then obtain j where j: "j < map_alloc m - cur" "mp_map_slot_is_filled m i" "i = cur + j"
      "\<forall>l < j. \<not> mp_map_slot_is_filled m (cur + l)" by (auto simp: dict_iter_next_def find_Some_iff)
    then have "[cur..<map_alloc m] = [cur..<i] @ i # [i + 1..<map_alloc m]"
      using upt_add_eq_append [of cur i "map_alloc m - i"] upt_conv_Cons [of i "map_alloc m"] by simp
    moreover have "filter (mp_map_slot_is_filled m) [cur..<i] = []"
    proof -
      have "\<not> mp_map_slot_is_filled m x" if "cur \<le> x" "x < i" for x
        using j(3,4) that le_Suc_ex [OF that(1)] by auto
      then show ?thesis by (simp add: filter_empty_conv)
    qed
    ultimately show ?thesis using 1 [OF Some] Some j(2) by (simp add: dict_iterate.simps [of m cur])
  qed
qed

lemma slot_pair_simps [simp]:
  "slot_pair (Key k, v) = [(k, v)]" "slot_pair (Null, v) = []" "slot_pair (Sentinel, v) = []"
  by (simp_all add: slot_pair_def)

lemma slot_pairs_filled:
  "concat (map (\<lambda>i. slot_pair (table m ! i)) (filter (mp_map_slot_is_filled m) is)) =
   concat (map (\<lambda>i. slot_pair (table m ! i)) is)"
  "concat (map (\<lambda>i. if mp_map_slot_is_filled m i then slot_pair (table m ! i) else []) is) =
   concat (map (\<lambda>i. slot_pair (table m ! i)) is)"
  by (induction "is") (auto simp: mp_map_slot_is_filled_def slot_pair_def split: prod.splits key.splits)

lemma slot_pairs_table: "concat (map (\<lambda>i. slot_pair (table m ! i)) [0..<map_alloc m]) = concat (map slot_pair (table m))"
  by (metis (no_types, lifting) map_alloc_def map_nth map_map comp_def map_cong)

lemma dict_items_table: "dict_items m = concat (map slot_pair (table m))"
  by (simp add: dict_items_def dict_iterate_filter slot_pairs_filled slot_pairs_table)

lemma dict_items_set: "set (dict_items m) = map_entries m"
  by (auto simp: dict_items_table map_entries_def slot_pair_def split: prod.splits key.splits)

lemma dict_items_get:
  fixes m :: "('k, 'v) mp_map"
  shows "map_get ops m k = al_get ops (dict_items m) k"
proof -
  have "map_option snd (find (\<lambda>e. case fst e of Key k' \<Rightarrow> kequal ops k' k | _ \<Rightarrow> False) es) =
      map_option snd (find (\<lambda>e. kequal ops (fst e) k) (concat (map slot_pair es)))" for es :: "('k key \<times> 'v option) list"
    by (induction es) (auto simp: slot_pair_def split: key.splits)
  then show ?thesis by (simp add: map_get_def al_get_def dict_items_table)
qed

lemma dict_items_ord: "ord_rep ops m xs \<Longrightarrow> dict_items m = xs"
proof -
  assume "ord_rep ops m xs"
  then obtain free where t: "table m = map (\<lambda>(k, v). (Key k, v)) xs @ free" "set free \<subseteq> {(Null, None), (Sentinel, None)}"
    by (auto simp: ord_rep_def)
  have "concat (map slot_pair free) = []" using t(2) by auto
  moreover have "concat (map slot_pair (map (\<lambda>(k, v). (Key k, v)) xs)) = xs" by (induction xs) auto
  ultimately show "dict_items m = xs" by (simp add: dict_items_table t(1))
qed

lemma slot_pairs_length: "length (concat (map slot_pair es)) = filled (map fst es)"
  by (induction es) (auto simp: slot_pair_def filled_def split: key.splits)

lemma slot_pairs_distinct: "distinct_keys ops es \<Longrightarrow> al_distinct ops (concat (map slot_pair es))"
proof (induction es)
  case (Cons e es)
  have "\<not> kequal ops (fst x) (fst y)" if "x \<in> set (slot_pair e)" "y \<in> set (concat (map slot_pair es))" for x y
    using that Cons.prems by (fastforce simp: distinct_keys_def slot_pair_def split: prod.splits key.splits)
  then show ?case using Cons by (auto simp: al_distinct_def sorted_wrt_append distinct_keys_def slot_pair_def split: prod.splits key.splits)
qed (simp add: al_distinct_def)

context obj_keys
begin

lemma items_ok:
  assumes "hash_inv ops m \<or> ord_inv ops m"
  shows "length (dict_items m) = used m" "al_distinct ops (dict_items m)" "None \<notin> snd ` set (dict_items m)"
proof -
  have "no_nulls m" using assms by (auto simp: hash_inv_def ord_inv_def)
  then show "None \<notin> snd ` set (dict_items m)" by (force simp: no_nulls_def dict_items_set)
  have "length (dict_items m) = used m \<and> al_distinct ops (dict_items m)" if "hash_inv ops m"
  proof -
    have inv: "map_inv ops m" using that by (simp add: hash_inv_def)
    then have "used m = filled (map_keys m)" by (simp add: map_inv_def)
    then show ?thesis using slot_pairs_distinct [OF map_inv_distinct [OF inv]]
      by (simp add: dict_items_table slot_pairs_length map_keys_def)
  qed
  moreover have "length (dict_items m) = used m \<and> al_distinct ops (dict_items m)" if "ord_rep ops m xs" for xs
    using dict_items_ord [OF that] that by (simp add: ord_rep_def)
  ultimately show "length (dict_items m) = used m" "al_distinct ops (dict_items m)"
    using assms by (auto simp: ord_inv_def)
qed

end

section \<open>What the operations do on any map\<close>

lemmas dict_defs = mp_ensure_not_fixed_def map_put_def mp_obj_dict_store_def mp_obj_dict_get_def
  dict_get_helper_def dict_get_def dict_pop_def dict_setdefault_def mp_obj_dict_delete_def

context map_interface
begin

lemma put_ok:
  assumes "inv m"
  shows "\<exists>m'. map_put ops m k (Some v) = Inr m' \<and> inv m' \<and> used m' = used m + of_bool (map_value ops m k = None) \<and>
    (\<forall>k'. map_value ops m' k' = (if kequal ops k k' then Some v else map_value ops m k'))"
proof -
  obtain m' i where p: "mp_map_lookup ops m k ADD_IF_NOT_FOUND = Inr (m', Some i)" "inv (map_set_value m' i (Some v))"
    "used (map_set_value m' i (Some v)) = used m + of_bool (map_value ops m k = None)"
    "\<forall>k'. map_value ops (map_set_value m' i (Some v)) k' = (if kequal ops k k' then Some v else map_value ops m k')"
    using put_law [OF assms, of k v] by blast
  then show ?thesis by (intro exI [of _ "map_set_value m' i (Some v)"]) (simp add: map_put_def)
qed

lemma store_put: "inv m \<Longrightarrow> mp_obj_dict_store ops m k v = map_put ops m k (Some v)"
  using not_fixed by (simp add: mp_obj_dict_store_def mp_ensure_not_fixed_def)

lemma get_ok:
  assumes "inv m"
  shows "mp_obj_dict_get ops m k = (case map_value ops m k of None \<Rightarrow> Inl KeyError | Some v \<Rightarrow> Inr (Some v))"
    and "dict_get ops none m k dflt = Inr (m, case map_value ops m k of Some v \<Rightarrow> v | None \<Rightarrow> case_option none id dflt)"
    and "dict_contains ops m k = Inr (map_value ops m k \<noteq> None)"
proof -
  obtain s where s: "mp_map_lookup ops m k LOOKUP = Inr (m, s)"
    "map_option (\<lambda>i. snd (table m ! i)) s = map_option Some (map_value ops m k)" using find_law [OF assms] by blast
  then show "mp_obj_dict_get ops m k = (case map_value ops m k of None \<Rightarrow> Inl KeyError | Some v \<Rightarrow> Inr (Some v))"
    by (cases s; cases "map_value ops m k") (simp_all add: mp_obj_dict_get_def)
  show "dict_get ops none m k dflt = Inr (m, case map_value ops m k of Some v \<Rightarrow> v | None \<Rightarrow> case_option none id dflt)"
    using s by (cases s; cases "map_value ops m k"; cases dflt) (simp_all add: dict_get_def dict_get_helper_def)
  show "dict_contains ops m k = Inr (map_value ops m k \<noteq> None)"
    using s by (cases s; cases "map_value ops m k") (simp_all add: dict_contains_def)
qed

lemma pop_ok:
  assumes "inv m"
  shows "map_value ops m k = None \<Longrightarrow>
      dict_pop ops none m k dflt = (case dflt of None \<Rightarrow> Inl KeyError | Some d \<Rightarrow> Inr (m, d))"
    and "map_value ops m k = Some v \<Longrightarrow> \<exists>m'. (\<forall>dflt. dict_pop ops none m k dflt = Inr (m', v)) \<and> inv m' \<and> used m' + 1 = used m \<and>
      (\<forall>k'. map_value ops m' k' = (if kequal ops k k' then None else map_value ops m k'))"
proof -
  obtain m' s where r: "mp_map_lookup ops m k REMOVE_IF_FOUND = Inr (m', s)"
    "map_option (\<lambda>i. snd (table m' ! i)) s = map_option Some (map_value ops m k)" "s = None \<longrightarrow> m' = m"
    "\<forall>i. s = Some i \<longrightarrow> inv (map_set_value m' i None) \<and> used (map_set_value m' i None) + 1 = used m \<and>
        (\<forall>k'. map_value ops (map_set_value m' i None) k' = (if kequal ops k k' then None else map_value ops m k'))"
    using remove_law [OF assms] by blast
  show "dict_pop ops none m k dflt = (case dflt of None \<Rightarrow> Inl KeyError | Some d \<Rightarrow> Inr (m, d))"
    if "map_value ops m k = None"
    using r(1-3) that not_fixed [OF assms]
    by (cases s; cases dflt) (simp_all add: dict_pop_def dict_get_helper_def mp_ensure_not_fixed_def)
  show "\<exists>m'. (\<forall>dflt. dict_pop ops none m k dflt = Inr (m', v)) \<and> inv m' \<and> used m' + 1 = used m \<and>
      (\<forall>k'. map_value ops m' k' = (if kequal ops k k' then None else map_value ops m k'))"
    if v: "map_value ops m k = Some v"
  proof -
    obtain i where i: "s = Some i" "snd (table m' ! i) = Some v" using r(2) v by (cases s) auto
    then have "dict_pop ops none m k dflt = Inr (map_set_value m' i None, v)" for dflt
      using r(1) not_fixed [OF assms] by (simp add: dict_pop_def dict_get_helper_def mp_ensure_not_fixed_def)
    then show ?thesis using r(4) i(1) by blast
  qed
qed

lemma setdefault_ok:
  assumes "inv m"
  shows "map_value ops m k = Some v \<Longrightarrow> dict_setdefault ops none m k dflt = Inr (m, v)"
    and "map_value ops m k = None \<Longrightarrow> v = case_option none id dflt \<Longrightarrow>
      \<exists>m'. map_put ops m k (Some v) = Inr m' \<and> dict_setdefault ops none m k dflt = Inr (m', v)"
proof -
  obtain m' i where p: "mp_map_lookup ops m k ADD_IF_NOT_FOUND = Inr (m', Some i)"
    "snd (table m' ! i) = map_value ops m k" "map_value ops m k \<noteq> None \<longrightarrow> m' = m"
    using put_law [OF assms, of k] by blast
  then show "map_value ops m k = Some v \<Longrightarrow> dict_setdefault ops none m k dflt = Inr (m, v)"
    using not_fixed [OF assms] by (simp add: dict_setdefault_def dict_get_helper_def mp_ensure_not_fixed_def)
  show "\<exists>m'. map_put ops m k (Some v) = Inr m' \<and> dict_setdefault ops none m k dflt = Inr (m', v)"
    if "map_value ops m k = None" "v = case_option none id dflt"
    using p that not_fixed [OF assms]
    by (cases dflt) (simp_all add: dict_setdefault_def dict_get_helper_def mp_ensure_not_fixed_def map_put_def)
qed

text \<open>Storing pairs one after the other: the last pair with an equal key wins.\<close>

lemma add_all_ok:
  assumes "inv m"
  shows "\<exists>m'. dict_add_all ops m (map (\<lambda>(k, v). (k, Some v)) kvs) = Inr m' \<and> inv m' \<and>
    (\<forall>k'. map_value ops m' k' =
       (case find (\<lambda>e. kequal ops (fst e) k') (rev kvs) of Some e \<Rightarrow> Some (snd e) | None \<Rightarrow> map_value ops m k'))"
  using assms
proof (induction kvs arbitrary: m)
  case (Cons e kvs)
  obtain k v where e: "e = (k, v)" by fastforce
  obtain m1 where m1: "map_put ops m k (Some v) = Inr m1" "inv m1"
    "\<forall>k'. map_value ops m1 k' = (if kequal ops k k' then Some v else map_value ops m k')"
    using put_ok [OF Cons.prems, of k v] by blast
  from Cons.IH [OF m1(2)] obtain m2 where m2: "dict_add_all ops m1 (map (\<lambda>(k, v). (k, Some v)) kvs) = Inr m2" "inv m2"
    "\<forall>k'. map_value ops m2 k' =
       (case find (\<lambda>e. kequal ops (fst e) k') (rev kvs) of Some e \<Rightarrow> Some (snd e) | None \<Rightarrow> map_value ops m1 k')"
    by blast
  have "find P (xs @ [x]) = (case find P xs of None \<Rightarrow> if P x then Some x else None | Some y \<Rightarrow> Some y)"
    for P and xs :: "('k \<times> 'v) list" and x by (induction xs) auto
  then show ?case using m1 m2 by (auto simp: e split: option.splits)
qed simp

end

end
