(* ===== verification/Mp_Dict_Spec.thy ===== *)
theory Mp_Dict_Spec
  imports Mp_Dict
begin

text \<open>
  Dictionaries against their abstract specification, a finite function from key values to
  objects; ordered dictionaries against association lists; iteration and equality. The laws of
  the maps come from the interpretation of the key interface on the objects of the runtime.
\<close>

section \<open>The abstraction\<close>

fun obj_of :: "obj_value \<Rightarrow> mp_obj" where
  "obj_of (IntValue i) = SmallInt i"
| "obj_of (StrValue s) = Qstr s"

definition dict_contents :: "(mp_obj, 'v) mp_map \<Rightarrow> obj_value \<rightharpoonup> 'v" where
  "dict_contents m w = map_value obj_ops m (obj_of w)"

text \<open>The invariant of a dictionary: a hash table or, for an ordered dictionary, an ordered array.\<close>

definition dict_inv :: "(mp_obj, 'v) mp_map \<Rightarrow> bool" where
  "dict_inv m \<longleftrightarrow> hash_inv obj_ops m \<or> ord_inv obj_ops m"

lemma value_of_obj [simp]: "value_of (obj_of w) = w"
  by (cases w) simp_all

lemma kequal_obj [simp]: "kequal obj_ops a b \<longleftrightarrow> value_of a = value_of b"
  by (simp add: obj_ops_def mp_obj_equal_iff)

lemma map_value_contents: "map_value obj_ops m k = dict_contents m (value_of k)"
  by (simp add: dict_contents_def map_value_def map_get_def cong: key.case_cong)

lemma contents_update:
  assumes "\<forall>k'. map_value obj_ops m' k' = (if kequal obj_ops k k' then r else map_value obj_ops m k')"
  shows "dict_contents m' = (dict_contents m)(value_of k := r)"
  using assms by (auto simp: fun_eq_iff dict_contents_def)

lemma hash_dict_inv: "hash_inv obj_ops m \<Longrightarrow> dict_inv m" and ord_dict_inv: "ord_inv obj_ops m \<Longrightarrow> dict_inv m"
  by (simp_all add: dict_inv_def)

interpretation dict: map_interface obj_ops dict_inv
proof
  fix m :: "(mp_obj, 'v) mp_map" and k v
  assume "dict_inv m"
  then consider (h) "hash_inv obj_ops m" | (o) "ord_inv obj_ops m" by (auto simp: dict_inv_def)
  note c = this
  show "\<not> is_fixed m" using c obj.hash.not_fixed obj.ord.not_fixed by cases
  show "\<exists>s. mp_map_lookup obj_ops m k LOOKUP = Inr (m, s) \<and>
      map_option (\<lambda>i. snd (table m ! i)) s = map_option Some (map_value obj_ops m k)"
    using c obj.hash.find_law obj.ord.find_law by cases
  show "\<exists>m' i. mp_map_lookup obj_ops m k ADD_IF_NOT_FOUND = Inr (m', Some i) \<and>
      snd (table m' ! i) = map_value obj_ops m k \<and> (map_value obj_ops m k \<noteq> None \<longrightarrow> m' = m) \<and>
      dict_inv (map_set_value m' i (Some v)) \<and>
      used (map_set_value m' i (Some v)) = used m + of_bool (map_value obj_ops m k = None) \<and>
      (\<forall>k'. map_value obj_ops (map_set_value m' i (Some v)) k' =
         (if kequal obj_ops k k' then Some v else map_value obj_ops m k'))"
    using c obj.hash.put_law [of m k v] obj.ord.put_law [of m k v] hash_dict_inv ord_dict_inv by cases blast+
  show "\<exists>m' s. mp_map_lookup obj_ops m k REMOVE_IF_FOUND = Inr (m', s) \<and>
      map_option (\<lambda>i. snd (table m' ! i)) s = map_option Some (map_value obj_ops m k) \<and> (s = None \<longrightarrow> m' = m) \<and>
      (\<forall>i. s = Some i \<longrightarrow> dict_inv (map_set_value m' i None) \<and> used (map_set_value m' i None) + 1 = used m \<and>
        (\<forall>k'. map_value obj_ops (map_set_value m' i None) k' =
           (if kequal obj_ops k k' then None else map_value obj_ops m k')))"
    using c obj.hash.remove_law [of m k] obj.ord.remove_law [of m k] hash_dict_inv ord_dict_inv by cases blast+
qed

section \<open>Storing and removing\<close>

text \<open>
  C3: Storing under a key never fails on a well-formed dictionary, whatever the table looks like
  (growth and rehash included): the result is well-formed, its contents are the old ones
  updated at the value of the key, and the length grows exactly when the key was missing.
\<close>

theorem dict_store_refines:
  assumes "dict_inv m"
  shows "\<exists>m'. mp_obj_dict_store obj_ops m k v = Inr m' \<and> dict_inv m' \<and>
    dict_contents m' = (dict_contents m)(value_of k \<mapsto> v) \<and>
    used m' = used m + of_bool (value_of k \<notin> dom (dict_contents m))"
  using dict.put_ok [OF assms, of k v] contents_update dict.store_put [OF assms, of k v]
  by (fastforce simp: map_value_contents domIff)

text \<open>
  C11: Removing a key with \<^verbatim>\<open>pop\<close> returns its value and takes it out of the contents; for a missing key
  the default is returned with the dictionary unchanged, or \<^verbatim>\<open>KeyError\<close> is raised. \<^verbatim>\<open>del\<close> is the same
  without a default.
\<close>

theorem dict_pop_refines:
  assumes "dict_inv m"
  shows "case dict_contents m (value_of k) of
      None \<Rightarrow> dict_pop obj_ops none m k dflt = (case dflt of None \<Rightarrow> Inl KeyError | Some d \<Rightarrow> Inr (m, d)) \<and>
        mp_obj_dict_delete obj_ops none m k = Inl KeyError
    | Some v \<Rightarrow> (\<exists>m'. dict_pop obj_ops none m k dflt = Inr (m', v) \<and> mp_obj_dict_delete obj_ops none m k = Inr m' \<and>
        dict_inv m' \<and> dict_contents m' = (dict_contents m)(value_of k := None) \<and> used m' + 1 = used m)"
proof (cases "dict_contents m (value_of k)")
  case None
  then show ?thesis using dict.pop_ok(1) [OF assms, of k none] by (simp add: map_value_contents dict_pop_def mp_obj_dict_delete_def)
next
  case (Some v)
  then have v: "map_value obj_ops m k = Some v" by (simp add: map_value_contents)
  obtain m' where m': "\<forall>dflt. dict_pop obj_ops none m k dflt = Inr (m', v)" "dict_inv m'" "used m' + 1 = used m"
    "\<forall>k'. map_value obj_ops m' k' = (if kequal obj_ops k k' then None else map_value obj_ops m k')"
    using dict.pop_ok(2) [OF assms v] by blast
  then show ?thesis using Some m' contents_update [OF m'(4)] by (simp add: mp_obj_dict_delete_def dict_pop_def)
qed

text \<open>
  C25: Reading never changes a dictionary: a subscript returns the value or raises \<^verbatim>\<open>KeyError\<close>, \<^verbatim>\<open>get\<close> falls
  back to its default or to \<^verbatim>\<open>None\<close>, \<^verbatim>\<open>in\<close> tells whether there is a value. \<^verbatim>\<open>setdefault\<close> returns an existing value
  and changes nothing, and stores the default under a missing key.
\<close>

theorem dict_reads_refine:
  assumes "dict_inv m"
  shows "mp_obj_dict_get obj_ops m k = (case dict_contents m (value_of k) of None \<Rightarrow> Inl KeyError | Some v \<Rightarrow> Inr (Some v)) \<and>
    dict_get obj_ops none m k dflt =
      Inr (m, case dict_contents m (value_of k) of Some v \<Rightarrow> v | None \<Rightarrow> case_option none id dflt) \<and>
    dict_contains obj_ops m k = Inr (value_of k \<in> dom (dict_contents m)) \<and>
    (case dict_contents m (value_of k) of
       Some v \<Rightarrow> dict_setdefault obj_ops none m k dflt = Inr (m, v)
     | None \<Rightarrow> (\<exists>m'. dict_setdefault obj_ops none m k dflt = Inr (m', case_option none id dflt) \<and> dict_inv m' \<and>
         dict_contents m' = (dict_contents m)(value_of k \<mapsto> case_option none id dflt) \<and> used m' = used m + 1))"
proof (intro conjI)
  show "case dict_contents m (value_of k) of
       Some v \<Rightarrow> dict_setdefault obj_ops none m k dflt = Inr (m, v)
     | None \<Rightarrow> (\<exists>m'. dict_setdefault obj_ops none m k dflt = Inr (m', case_option none id dflt) \<and> dict_inv m' \<and>
         dict_contents m' = (dict_contents m)(value_of k \<mapsto> case_option none id dflt) \<and> used m' = used m + 1)"
  proof (cases "dict_contents m (value_of k)")
    case None
    let ?d = "case_option none id dflt"
    obtain m' where m': "map_put obj_ops m k (Some ?d) = Inr m'" "dict_setdefault obj_ops none m k dflt = Inr (m', ?d)"
      using dict.setdefault_ok(2) [OF assms _ refl, of k none dflt] None unfolding map_value_contents by blast
    then have "dict_inv m'" "used m' = used m + 1"
      "\<forall>k'. map_value obj_ops m' k' = (if kequal obj_ops k k' then Some ?d else map_value obj_ops m k')"
      using dict.put_ok [OF assms, of k ?d] None by (auto simp: map_value_contents)
    then show ?thesis using None m' contents_update [of m' k "Some ?d" m] by simp
  qed (use dict.setdefault_ok(1) [OF assms] in \<open>simp add: map_value_contents\<close>)
qed (use dict.get_ok [OF assms] in \<open>simp_all add: map_value_contents domIff\<close>)

section \<open>Iteration\<close>

lemma al_get_map_of: "al_get obj_ops xs k = map_of (map (\<lambda>(k, v). (value_of k, v)) xs) (value_of k)"
  by (induction xs) (auto simp: al_get_def)

lemma contents_map_of:
  "dict_contents m w = Option.bind (map_of (map (\<lambda>(k, v). (value_of k, v)) (dict_items m)) w) id"
  by (simp add: dict_contents_def map_value_def dict_items_get al_get_map_of)

lemma map_of_some: "map_of (map (\<lambda>(k, v). (f k, Some v)) kvs) w = map_option Some (map_of (map (\<lambda>(k, v). (f k, v)) kvs) w)"
  by (induction kvs) auto

lemma al_distinct_iff: "al_distinct obj_ops xs \<longleftrightarrow> distinct (map (value_of \<circ> fst) xs)"
  by (induction xs) (auto simp: al_distinct_def)

lemma somes: "None \<notin> snd ` set xs \<Longrightarrow> \<exists>kvs. xs = map (\<lambda>(k, v). (k, Some v)) kvs"
proof (induction xs)
  case (Cons e xs)
  obtain k w where e: "e = (k, w)" by fastforce
  obtain v where v: "w = Some v" using Cons.prems e by (cases w) auto
  obtain kvs where "xs = map (\<lambda>(k, v). (k, Some v)) kvs" using Cons by auto
  then show ?case using e v by (intro exI [of _ "(k, v) # kvs"]) simp
qed simp

lemma dict_iteration:
  assumes "dict_inv m"
  shows "\<exists>kvs. dict_items m = map (\<lambda>(k, v). (k, Some v)) kvs \<and> length kvs = used m \<and>
    distinct (map (value_of \<circ> fst) kvs) \<and> dict_contents m = map_of (map (\<lambda>(k, v). (value_of k, v)) kvs)"
proof -
  note ok = obj.items_ok [OF assms [unfolded dict_inv_def]]
  obtain kvs where kvs: "dict_items m = map (\<lambda>(k, v). (k, Some v)) kvs" using somes [OF ok(3)] by blast
  have "map (value_of \<circ> fst) (dict_items m) = map (value_of \<circ> fst) kvs" by (simp add: kvs case_prod_beta')
  moreover have "dict_contents m w = map_of (map (\<lambda>(k, v). (value_of k, v)) kvs) w" for w
    using map_of_some [of value_of kvs w]
    by (cases "map_of (map (\<lambda>(k, v). (value_of k, v)) kvs) w")
      (simp_all add: contents_map_of kvs comp_def case_prod_beta')
  ultimately show ?thesis using ok(1,2) al_distinct_iff [of "dict_items m"] kvs
    by (intro exI [of _ kvs] conjI ext) (metis length_map)+
qed

text \<open>
  C26: Iterating over a dictionary with \<^verbatim>\<open>dict_iter_next\<close> visits as many entries as its length says, no
  two with equal keys, and together they are its contents.
\<close>

theorem dict_iteration_complete:
  assumes "dict_inv m"
  shows "\<exists>kvs. dict_items m = map (\<lambda>(k, v). (k, Some v)) kvs \<and> length kvs = used m \<and>
    distinct (map (value_of \<circ> fst) kvs) \<and> dict_contents m = map_of (map (\<lambda>(k, v). (value_of k, v)) kvs)"
  by (rule dict_iteration [OF assms])

section \<open>Updating, comparing, creating\<close>

lemma map_of_override:
  "(case find (\<lambda>e. kequal obj_ops (fst e) (obj_of w)) (rev kvs) of Some e \<Rightarrow> Some (snd e) | None \<Rightarrow> r) =
   (case map_of (map (\<lambda>(k, v). (value_of k, v)) (rev kvs)) w of Some v \<Rightarrow> Some v | None \<Rightarrow> r)"
proof -
  have "map_option snd (find (\<lambda>e. kequal obj_ops (fst e) (obj_of w)) xs) = map_of (map (\<lambda>(k, v). (value_of k, v)) xs) w"
    for xs :: "(mp_obj \<times> 'b) list" by (induction xs) auto
  from this [of "rev kvs"] show ?thesis by (auto split: option.splits)
qed

lemma add_all_contents:
  assumes "dict_inv m"
  shows "\<exists>m'. dict_add_all obj_ops m (map (\<lambda>(k, v). (k, Some v)) kvs) = Inr m' \<and> dict_inv m' \<and>
    dict_contents m' = dict_contents m ++ map_of (map (\<lambda>(k, v). (value_of k, v)) (rev kvs))"
proof -
  from dict.add_all_ok [OF assms, of kvs] obtain m' where
    m': "dict_add_all obj_ops m (map (\<lambda>(k, v). (k, Some v)) kvs) = Inr m'" "dict_inv m'"
      "\<forall>k'. map_value obj_ops m' k' =
        (case find (\<lambda>e. kequal obj_ops (fst e) k') (rev kvs) of Some e \<Rightarrow> Some (snd e) | None \<Rightarrow> map_value obj_ops m k')"
    by blast
  have "dict_contents m' w = (dict_contents m ++ map_of (map (\<lambda>(k, v). (value_of k, v)) (rev kvs))) w" for w
    using m'(3) unfolding dict_contents_def map_add_def by (simp only: map_of_override)
  then show ?thesis using m' by blast
qed

lemma map_of_rev_distinct:
  assumes "distinct (map fst xs)"
  shows "map_of (rev xs) = map_of xs"
proof
  fix w
  have "map_of (rev xs) w = Some v \<longleftrightarrow> map_of xs w = Some v" for v
    using assms by (simp add: map_of_eq_Some_iff rev_map [symmetric])
  then show "map_of (rev xs) w = map_of xs w" by (metis not_Some_eq)
qed

lemma items_update:
  assumes "dict_inv m" "dict_inv other"
  shows "\<exists>m'. dict_add_all obj_ops m (dict_items other) = Inr m' \<and> dict_inv m' \<and>
    dict_contents m' = dict_contents m ++ dict_contents other"
proof -
  obtain kvs where kvs: "dict_items other = map (\<lambda>(k, v). (k, Some v)) kvs" "distinct (map (value_of \<circ> fst) kvs)"
    "dict_contents other = map_of (map (\<lambda>(k, v). (value_of k, v)) kvs)"
    using dict_iteration [OF assms(2)] by blast
  have "map fst (map (\<lambda>(k, v). (value_of k, v)) kvs) = map (value_of \<circ> fst) kvs" by (simp add: case_prod_beta')
  then have "map_of (map (\<lambda>(k, v). (value_of k, v)) (rev kvs)) = dict_contents other"
    using map_of_rev_distinct [of "map (\<lambda>(k, v). (value_of k, v)) kvs"] kvs(2,3) by (metis rev_map)
  then show ?thesis using add_all_contents [OF assms(1), of kvs] kvs(1) by simp
qed

lemma kwargs_pairs:
  "concat (map (\<lambda>i. if mp_map_slot_is_filled (mp_map_init_fixed_table kw) i
                    then slot_pair (table (mp_map_init_fixed_table kw) ! i) else [])
      [0..<map_alloc (mp_map_init_fixed_table kw)]) = map (\<lambda>(k, v). (k, Some v)) kw"
proof -
  have "concat (map slot_pair (map (\<lambda>(k, v). (Key k, Some v)) kw)) = map (\<lambda>(k, v). (k, Some v)) kw"
    by (induction kw) auto
  then show ?thesis unfolding slot_pairs_filled slot_pairs_table by (simp add: mp_map_init_fixed_table_def)
qed

text \<open>
  \<^verbatim>\<open>update\<close> with another dictionary and keyword arguments: the contents of the argument override those
  of the dictionary, and the keywords override both, a later keyword an earlier one.
\<close>

theorem dict_update_overrides:
  assumes "dict_inv m" "dict_inv other"
  shows "\<exists>m'. dict_update obj_ops m (OtherDict other) (mp_map_init_fixed_table kw) = Inr (m', None) \<and> dict_inv m' \<and>
    dict_contents m' = dict_contents m ++ dict_contents other ++ map_of (map (\<lambda>(k, v). (value_of k, v)) (rev kw))"
proof -
  obtain m1 where m1: "dict_add_all obj_ops m (dict_items other) = Inr m1" "dict_inv m1"
    "dict_contents m1 = dict_contents m ++ dict_contents other" using items_update [OF assms] by blast
  then show ?thesis using add_all_contents [OF m1(2), of kw] dict.not_fixed [OF assms(1)]
    by (auto simp: dict_update_def mp_ensure_not_fixed_def kwargs_pairs)
qed

section \<open>Equality\<close>

lemma equal_loop_correct:
  assumes "dict_inv rhs"
  shows "dict_equal_loop obj_ops (rel_option veq) rhs (map (\<lambda>(k, v). (k, Some v)) kvs) =
    Inr (\<forall>(k, v) \<in> set kvs. rel_option veq (Some v) (dict_contents rhs (value_of k)))"
proof (induction kvs)
  case (Cons e kvs)
  obtain k v where e: "e = (k, v)" by fastforce
  obtain s where "mp_map_lookup obj_ops rhs k LOOKUP = Inr (rhs, s)"
    "map_option (\<lambda>i. snd (table rhs ! i)) s = map_option Some (dict_contents rhs (value_of k))"
    using dict.find_law [OF assms, of k] by (auto simp: map_value_contents)
  then show ?case using Cons e by (cases s; cases "dict_contents rhs (value_of k)") auto
qed simp

lemma contents_dom: "dict_inv m \<Longrightarrow> finite (dom (dict_contents m)) \<and> card (dom (dict_contents m)) = used m"
proof -
  assume "dict_inv m"
  then obtain kvs where kvs: "length kvs = used m" "distinct (map (value_of \<circ> fst) kvs)"
    "dict_contents m = map_of (map (\<lambda>(k, v). (value_of k, v)) kvs)" using dict_iteration by blast
  have "dom (dict_contents m) = set (map (value_of \<circ> fst) kvs)"
    unfolding kvs(3) dom_map_of_conv_image_fst by (force simp: image_iff)
  then show ?thesis using distinct_card [OF kvs(2)] kvs(1) by simp
qed

lemma dict_equal_iff:
  assumes "dict_inv lhs" "dict_inv rhs"
  shows "dict_equal obj_ops (rel_option veq) (ordered, lhs) (False, rhs) =
    Inr (\<forall>w. rel_option veq (dict_contents lhs w) (dict_contents rhs w))"
proof -
  let ?R = "\<forall>w. rel_option veq (dict_contents lhs w) (dict_contents rhs w)"
  obtain kvs where kvs: "dict_items lhs = map (\<lambda>(k, v). (k, Some v)) kvs" "distinct (map (value_of \<circ> fst) kvs)"
    "dict_contents lhs = map_of (map (\<lambda>(k, v). (value_of k, v)) kvs)" using dict_iteration [OF assms(1)] by blast
  have mem: "dict_contents lhs w = Some v \<longleftrightarrow> (\<exists>k. (k, v) \<in> set kvs \<and> value_of k = w)" for w v
    using kvs(2) unfolding kvs(3) by (subst map_of_eq_Some_iff) (force simp: comp_def case_prod_beta')+
  have dom: "dom (dict_contents lhs) = dom (dict_contents rhs)" if ?R
    using that by (auto simp: dom_def) (metis option.rel_distinct(1,2) not_Some_eq)+
  show ?thesis
  proof (cases "used lhs = used rhs")
    case False
    then have "\<not> ?R" using dom contents_dom assms by metis
    then show ?thesis using False by (simp add: dict_equal_def)
  next
    case True
    let ?L = "\<forall>(k, v) \<in> set kvs. rel_option veq (Some v) (dict_contents rhs (value_of k))"
    have "?L \<longleftrightarrow> ?R"
    proof
      assume L: ?L
      have sub: "rel_option veq (dict_contents lhs w) (dict_contents rhs w)" if w: "w \<in> dom (dict_contents lhs)" for w
      proof -
        obtain v where v: "dict_contents lhs w = Some v" using w by blast
        then obtain k where "(k, v) \<in> set kvs" "value_of k = w" using mem by blast
        then show ?thesis using L v by auto
      qed
      then have "dom (dict_contents lhs) \<subseteq> dom (dict_contents rhs)" by (force simp: dom_def option_rel_Some1)
      then have "dom (dict_contents lhs) = dom (dict_contents rhs)"
        using contents_dom assms True by (metis card_subset_eq)
      then show ?R using sub by (metis domIff option.rel_intros(1))
    next
      assume R: ?R
      show ?L
      proof clarify
        fix k v assume "(k, v) \<in> set kvs"
        then have "dict_contents lhs (value_of k) = Some v" using mem by blast
        then show "rel_option veq (Some v) (dict_contents rhs (value_of k))" using R by metis
      qed
    qed
    then show ?thesis using True equal_loop_correct [OF assms(2), of veq kvs] by (simp add: dict_equal_def kvs(1))
  qed
qed

text \<open>
  Comparing a dictionary with a plain dictionary: the result is true exactly if both have values
  under the same keys and the values compare equal, whatever order the tables have.
\<close>

theorem dict_equal_correct:
  assumes "dict_inv lhs" "dict_inv rhs"
  shows "dict_equal obj_ops (rel_option veq) (ordered, lhs) (False, rhs) =
    Inr (\<forall>w. rel_option veq (dict_contents lhs w) (dict_contents rhs w))"
  by (rule dict_equal_iff [OF assms])

section \<open>Ordered dictionaries\<close>

text \<open>
  C14: An ordered dictionary is an association list in insertion order: storing under a present key
  replaces the value in place, storing under a new key appends, and removing keeps the order of
  the rest. The array grows by itself and the slots behind the last entry never resurface.
\<close>

theorem ordereddict_refines_list:
  assumes "ord_inv obj_ops m"
  shows "(\<exists>m'. mp_obj_dict_store obj_ops m k v = Inr m' \<and> ord_inv obj_ops m' \<and>
      dict_items m' = al_put obj_ops (dict_items m) k (Some v)) \<and>
    (value_of k \<in> dom (dict_contents m) \<longrightarrow> (\<exists>m'. mp_obj_dict_delete obj_ops none m k = Inr m' \<and> ord_inv obj_ops m' \<and>
      dict_items m' = al_del obj_ops (dict_items m) k))"
proof -
  obtain xs where rep: "ord_rep obj_ops m xs" and nn: "no_nulls m" using assms by (auto simp: ord_inv_def)
  note xs = dict_items_ord [OF rep]
  have d: "dict_inv m" using assms by (rule ord_dict_inv)
  obtain m' i where p: "mp_map_lookup obj_ops m k ADD_IF_NOT_FOUND = Inr (m', Some i)"
    "ord_rep obj_ops (map_set_value m' i (Some v)) (al_put obj_ops xs k (Some v))"
    using obj.ord_put [OF rep, of k "Some v"] by blast
  have "mp_obj_dict_store obj_ops m k v = Inr (map_set_value m' i (Some v))"
    using dict.store_put [OF d] p(1) by (simp add: map_put_def)
  moreover have "ord_inv obj_ops (map_set_value m' i (Some v))"
    using obj.ord.put_ok [OF assms, of k v] p(1) by (simp add: map_put_def)
  moreover have "\<exists>m'. mp_obj_dict_delete obj_ops none m k = Inr m' \<and> ord_inv obj_ops m' \<and>
      dict_items m' = al_del obj_ops xs k" if dom: "value_of k \<in> dom (dict_contents m)"
  proof -
    obtain m' s where r: "mp_map_lookup obj_ops m k REMOVE_IF_FOUND = Inr (m', s)"
      "map_option (\<lambda>i. snd (table m' ! i)) s = al_get obj_ops xs k"
      "\<forall>i. s = Some i \<longrightarrow> ord_rep obj_ops (map_set_value m' i None) (al_del obj_ops xs k)"
      using obj.ord_delete [OF rep, of k] by blast
    obtain w where w: "map_value obj_ops m k = Some w" using dom by (auto simp: map_value_contents)
    then obtain i where i: "s = Some i" "snd (table m' ! i) = Some w"
      using r(2) obj.ord_value [OF rep nn, of k] by (cases s) auto
    then have del: "mp_obj_dict_delete obj_ops none m k = Inr (map_set_value m' i None)"
      using r(1) obj.ord.not_fixed [OF assms]
      by (simp add: mp_obj_dict_delete_def dict_get_helper_def mp_ensure_not_fixed_def)
    have "ord_inv obj_ops (map_set_value m' i None)"
      using obj.ord.remove_law [OF assms, of k] r(1) i(1) by auto
    then show ?thesis using del r(3) i(1) dict_items_ord by blast
  qed
  ultimately show ?thesis using dict_items_ord [OF p(2)] xs by blast
qed

section \<open>Removing an arbitrary item\<close>

lemma iter_next_Some:
  assumes "dict_iter_next m cur = Some i"
  shows "cur \<le> i" "i < map_alloc m" "\<exists>k. fst (table m ! i) = Key k"
  using assms by (auto simp: dict_iter_next_def find_Some_iff mp_map_slot_is_filled_def) (metis key.exhaust)

lemma iter_next_exists:
  "i < map_alloc m \<Longrightarrow> cur \<le> i \<Longrightarrow> fst (table m ! i) = Key k \<Longrightarrow> \<exists>j. dict_iter_next m cur = Some j"
  unfolding dict_iter_next_def
  by (cases "find (mp_map_slot_is_filled m) [cur..<map_alloc m]") (auto simp: find_None_iff mp_map_slot_is_filled_def)

lemma popitem_hash:
  assumes "hash_inv obj_ops m" "used m \<noteq> 0"
  shows "\<exists>m' k v. dict_popitem m = Inr (m', (Key k, Some v)) \<and> hash_inv obj_ops m' \<and>
    map_entries m' = map_entries m - {(k, Some v)} \<and> (k, Some v) \<in> map_entries m \<and> used m' + 1 = used m"
proof -
  have inv: "map_inv obj_ops m" and nn: "no_nulls m" and nf: "\<not> is_fixed m" "\<not> is_ordered m"
    using assms(1) by (simp_all add: hash_inv_def map_inv_def)
  have "dict_items m \<noteq> []" using obj.items_ok(1) [of m] assms by auto
  then obtain k0 v0 where "(k0, v0) \<in> map_entries m" using dict_items_set [of m] by (cases "dict_items m") auto
  then obtain j where "j < map_alloc m" "fst (table m ! j) = Key k0" by (auto simp: entries_nth)
  then obtain i where i: "dict_iter_next m 0 = Some i" using iter_next_exists [of j m 0] by auto
  then obtain k where k: "i < map_alloc m" "fst (table m ! i) = Key k" using iter_next_Some by blast
  let ?m = "m\<lparr>used := used m - 1, table := (table m)[i := (Sentinel, None)]\<rparr>"
  have u: "map_inv obj_ops ?m" "map_entries ?m = map_entries m - {(k, snd (table m ! i))}" "used ?m + 1 = used m"
    using obj.map_inv_unkey [OF inv k, of Sentinel ?m None] by auto
  have e: "(k, snd (table m ! i)) \<in> map_entries m" using k unfolding entries_nth by (metis prod.collapse)
  then obtain v where v: "snd (table m ! i) = Some v" using nn by (metis no_nulls_def not_Some_eq)
  have "no_nulls ?m" using nn u(2) by (simp add: no_nulls_def)
  moreover have "table m ! i = (Key k, Some v)" using k(2) v by (metis prod.collapse)
  ultimately show ?thesis using assms(2) nf i u e v
    by (intro exI [of _ ?m] exI [of _ k] exI [of _ v]) (simp add: dict_popitem_def mp_ensure_not_fixed_def hash_inv_def)
qed

lemma popitem_ord:
  assumes "ord_inv obj_ops m" "used m \<noteq> 0"
  shows "\<exists>m' k v. dict_popitem m = Inr (m', (Key k, Some v)) \<and> ord_inv obj_ops m' \<and>
    dict_items m = dict_items m' @ [(k, Some v)] \<and> used m' + 1 = used m"
proof -
  obtain xs where rep: "ord_rep obj_ops m xs" and nn: "no_nulls m" using assms by (auto simp: ord_inv_def)
  note xs = dict_items_ord [OF rep]
  obtain free where t: "table m = map (\<lambda>(k, v). (Key k, v)) xs @ free" "set free \<subseteq> {(Null, None), (Sentinel, None)}"
    using rep by (auto simp: ord_rep_def)
  obtain ys k w where ys: "xs = ys @ [(k, w)]" using assms(2) rep by (cases xs rule: rev_cases) (auto simp: ord_rep_def)
  have "w \<noteq> None" using nn xs ys dict_items_set [of m] by (auto simp: no_nulls_def)
  then obtain v where v: "w = Some v" by blast
  have u: "used m - 1 = length ys" "used m = Suc (length ys)" using rep ys by (simp_all add: ord_rep_def)
  have n: "table m ! length ys = (Key k, Some v)" "length ys < map_alloc m"
    by (simp_all add: t(1) ys v nth_append map_alloc_def)
  then have i: "dict_iter_next m (length ys) = Some (length ys)"
    by (simp add: dict_iter_next_def upt_conv_Cons mp_map_slot_is_filled_def)
  let ?m = "m\<lparr>used := used m - 1, table := (table m)[length ys := (Sentinel, None)]\<rparr>"
  have "table ?m = map (\<lambda>(k, v). (Key k, v)) ys @ (Sentinel, None) # free"
    by (simp add: t(1) ys list_update_append)
  then have rep2: "ord_rep obj_ops ?m ys" using rep t(2) u by (auto simp: ord_rep_def ys al_distinct_def sorted_wrt_append)
  moreover have "no_nulls ?m"
    using nn xs ys dict_items_ord [OF rep2] dict_items_set [of m] dict_items_set [of ?m] by (auto simp: no_nulls_def)
  moreover have "\<not> is_fixed m" "is_ordered m" using rep by (simp_all add: ord_rep_def)
  ultimately show ?thesis using assms(2) i n(1) u xs ys v dict_items_ord [OF rep2]
    by (intro exI [of _ ?m] exI [of _ k] exI [of _ v]) (auto simp: dict_popitem_def mp_ensure_not_fixed_def ord_inv_def)
qed

lemma contents_entries:
  assumes "dict_inv m"
  shows "dict_contents m w = Some v \<longleftrightarrow> (\<exists>k. (k, Some v) \<in> map_entries m \<and> value_of k = w)"
proof -
  obtain kvs where kvs: "dict_items m = map (\<lambda>(k, v). (k, Some v)) kvs" "distinct (map (value_of \<circ> fst) kvs)"
    "dict_contents m = map_of (map (\<lambda>(k, v). (value_of k, v)) kvs)" using dict_iteration [OF assms] by blast
  have "dict_contents m w = Some v \<longleftrightarrow> (\<exists>k. (k, v) \<in> set kvs \<and> value_of k = w)"
    using kvs(2) unfolding kvs(3) by (subst map_of_eq_Some_iff) (force simp: comp_def case_prod_beta')+
  also have "\<dots> \<longleftrightarrow> (\<exists>k. (k, Some v) \<in> map_entries m \<and> value_of k = w)"
    unfolding dict_items_set [symmetric] kvs(1) by force
  finally show ?thesis .
qed

lemma entry_by_value:
  assumes "dict_inv m" "(k, v) \<in> map_entries m" "(k', v') \<in> map_entries m" "value_of k = value_of k'"
  shows "(k, v) = (k', v')"
proof -
  have "distinct (map (value_of \<circ> fst) (dict_items m))"
    using obj.items_ok(2) [OF assms(1) [unfolded dict_inv_def]] by (simp add: al_distinct_iff)
  then have "inj_on (value_of \<circ> fst) (map_entries m)" by (simp add: distinct_map dict_items_set)
  from inj_onD [OF this, of "(k, v)" "(k', v')"] show ?thesis using assms(2-4) by simp
qed

text \<open>
  \<^verbatim>\<open>popitem\<close> on an empty dictionary raises \<^verbatim>\<open>KeyError\<close>; otherwise it returns an entry and removes exactly
  that one, and for an ordered dictionary it is the entry added last. Its assertion never fails.
\<close>

theorem dict_popitem_correct:
  assumes "dict_inv m"
  shows "if used m = 0 then dict_popitem m = Inl KeyError
    else \<exists>m' k v. dict_popitem m = Inr (m', (Key k, Some v)) \<and> dict_inv m' \<and> used m' + 1 = used m \<and>
      dict_contents m (value_of k) = Some v \<and> dict_contents m' = (dict_contents m)(value_of k := None) \<and>
      (is_ordered m \<longrightarrow> dict_items m = dict_items m' @ [(k, Some v)])"
proof (cases "used m = 0")
  case True
  then show ?thesis using dict.not_fixed [OF assms] by (simp add: dict_popitem_def mp_ensure_not_fixed_def)
next
  case False
  have "\<exists>m' k v. dict_popitem m = Inr (m', (Key k, Some v)) \<and> dict_inv m' \<and> used m' + 1 = used m \<and>
      (k, Some v) \<in> map_entries m \<and> map_entries m' = map_entries m - {(k, Some v)} \<and>
      (is_ordered m \<longrightarrow> dict_items m = dict_items m' @ [(k, Some v)])"
  proof (cases "hash_inv obj_ops m")
    case True
    then have "\<not> is_ordered m" by (simp add: hash_inv_def map_inv_def)
    then show ?thesis using popitem_hash [OF True False] hash_dict_inv by blast
  next
    case ord: False
    then obtain m' k v where m': "dict_popitem m = Inr (m', (Key k, Some v))" "ord_inv obj_ops m'"
      "dict_items m = dict_items m' @ [(k, Some v)]" "used m' + 1 = used m"
      using popitem_ord [of m] assms False by (auto simp: dict_inv_def)
    have "(k, Some v) \<notin> set (dict_items m')"
      using obj.items_ok(2) [of m] assms m'(3) by (auto simp: dict_inv_def al_distinct_def sorted_wrt_append)
    then have "map_entries m' = map_entries m - {(k, Some v)}" "(k, Some v) \<in> map_entries m"
      using m'(3) dict_items_set [of m] dict_items_set [of m'] by auto
    then show ?thesis using m' ord_dict_inv by blast
  qed
  then obtain m' k v where m': "dict_popitem m = Inr (m', (Key k, Some v))" "dict_inv m'" "used m' + 1 = used m"
    "(k, Some v) \<in> map_entries m" "map_entries m' = map_entries m - {(k, Some v)}"
    "is_ordered m \<longrightarrow> dict_items m = dict_items m' @ [(k, Some v)]" by blast
  have v: "dict_contents m (value_of k) = Some v" using contents_entries [OF assms] m'(4) by blast
  have "dict_contents m' w = ((dict_contents m)(value_of k := None)) w" for w
  proof -
    have "\<not> (k', Some u) \<in> map_entries m'" if "value_of k' = value_of k" for k' u
      using entry_by_value [OF assms _ m'(4), of k' "Some u"] m'(5) that by auto
    then have "dict_contents m' w = Some u \<longleftrightarrow> ((dict_contents m)(value_of k := None)) w = Some u" for u
      unfolding contents_entries [OF m'(2)] using contents_entries [OF assms, of w u] m'(5) by (cases "w = value_of k") auto
    then show ?thesis by (metis not_Some_eq)
  qed
  then have "dict_contents m' = (dict_contents m)(value_of k := None)" by blast
  then have "\<exists>m' k v. dict_popitem m = Inr (m', (Key k, Some v)) \<and> dict_inv m' \<and> used m' + 1 = used m \<and>
      dict_contents m (value_of k) = Some v \<and> dict_contents m' = (dict_contents m)(value_of k := None) \<and>
      (is_ordered m \<longrightarrow> dict_items m = dict_items m' @ [(k, Some v)])"
    using m'(1-3,6) v by (intro exI [of _ m'] exI [of _ k] exI [of _ v]) simp
  then show ?thesis using False by (simp only: if_False)
qed

section \<open>Creating, copying, growing\<close>

lemma empty_ok: "dict_inv m \<Longrightarrow> map_entries m = {} \<Longrightarrow> dict_contents m = Map.empty"
  using contents_entries [of m] by (metis empty_iff not_Some_eq)

lemma new_dict_ok:
  fixes m :: "(mp_obj, 'v) mp_map"
  assumes "m = mp_obj_new_dict n"
  shows "dict_inv m" "dict_contents m = Map.empty"
proof -
  have e: "map_entries m = {}" by (auto simp: assms map_entries_def mp_obj_new_dict_def mp_map_init_def)
  have "map_inv obj_ops m" using table_ok_empty [of "khash obj_ops" "kequal obj_ops" n]
    by (simp add: assms map_inv_def map_keys_def mp_obj_new_dict_def mp_map_init_def filled_def)
  then have "hash_inv obj_ops m" using e by (simp add: hash_inv_def no_nulls_def)
  then show "dict_inv m" by (rule hash_dict_inv)
  then show "dict_contents m = Map.empty" using e by (rule empty_ok)
qed

lemma new_ordereddict_ok:
  fixes m :: "(mp_obj, 'v) mp_map"
  assumes "m = (mp_obj_new_dict 0)\<lparr>is_ordered := True\<rparr>"
  shows "dict_inv m" "dict_contents m = Map.empty"
proof -
  have e: "map_entries m = {}" by (simp add: assms map_entries_def mp_obj_new_dict_def mp_map_init_def)
  have "ord_rep obj_ops m []" by (simp add: assms ord_rep_def mp_obj_new_dict_def mp_map_init_def al_distinct_def)
  then have "ord_inv obj_ops m" using e by (auto simp: ord_inv_def no_nulls_def)
  then show "dict_inv m" by (rule ord_dict_inv)
  then show "dict_contents m = Map.empty" using e by (rule empty_ok)
qed

text \<open>
  The constructors: \<^verbatim>\<open>dict()\<close> and \<^verbatim>\<open>OrderedDict()\<close> from a dictionary and keywords, and \<^verbatim>\<open>fromkeys\<close> with any
  initial size, give well-formed dictionaries with the contents that the arguments say.
\<close>

theorem dict_constructors_correct:
  fixes other :: "(mp_obj, 'v) mp_map"
  assumes "dict_inv other"
  shows "(\<exists>m. mp_obj_dict_make_new obj_ops ordered (OtherDict other) kw = Inr (m, None) \<and> dict_inv m \<and>
      dict_contents m = dict_contents other ++ map_of (map (\<lambda>(k, v). (value_of k, v)) (rev kw))) \<and>
    (\<exists>m. dict_fromkeys obj_ops keys len (v :: 'v) = Inr m \<and> dict_inv m \<and>
      dict_contents m = (\<lambda>w. if w \<in> value_of ` set keys then Some v else None))"
proof
  define m where "m = ((mp_obj_new_dict 0)\<lparr>is_ordered := ordered\<rparr> :: (mp_obj, 'v) mp_map)"
  have m: "dict_inv m" "dict_contents m = Map.empty"
    using new_dict_ok [of m 0] new_ordereddict_ok [of m]
    by (cases ordered; simp add: m_def mp_obj_new_dict_def mp_map_init_def)+
  obtain m1 where m1: "dict_add_all obj_ops m (dict_items other) = Inr m1" "dict_inv m1"
    "dict_contents m1 = dict_contents m ++ dict_contents other" using items_update [OF m(1) assms] by blast
  then show "\<exists>m. mp_obj_dict_make_new obj_ops ordered (OtherDict other) kw = Inr (m, None) \<and> dict_inv m \<and>
      dict_contents m = dict_contents other ++ map_of (map (\<lambda>(k, v). (value_of k, v)) (rev kw))"
    using add_all_contents [OF m1(2), of kw] dict.not_fixed [OF m(1)] m(2)
    by (auto simp: mp_obj_dict_make_new_def dict_update_def mp_ensure_not_fixed_def kwargs_pairs m_def [symmetric])
  define m0 where "m0 = (mp_obj_new_dict (case len of None \<Rightarrow> 0 | Some n \<Rightarrow> n) :: (mp_obj, 'v) mp_map)"
  let ?kvs = "map (\<lambda>k. (k, v)) keys"
  have "map_of (map (\<lambda>(k, v). (value_of k, v)) (rev ?kvs)) w = (if w \<in> value_of ` set keys then Some v else None)" for w
    by (auto simp: rev_map [symmetric] comp_def map_of_eq_None_iff) (induction keys rule: rev_induct; force)
  then show "\<exists>m. dict_fromkeys obj_ops keys len v = Inr m \<and> dict_inv m \<and>
      dict_contents m = (\<lambda>w. if w \<in> value_of ` set keys then Some v else None)"
    using add_all_contents [OF new_dict_ok(1) [OF m0_def], of ?kvs]
    by (auto simp: dict_fromkeys_def comp_def m0_def [symmetric] new_dict_ok(2) [OF m0_def] fun_eq_iff)
qed

section \<open>Witnesses\<close>

text \<open>A dictionary and an ordered dictionary with the keys \<^verbatim>\<open>"a"\<close>, \<^verbatim>\<open>7\<close> and \<^verbatim>\<open>"b"\<close>, the last a string object.\<close>

definition sample_items :: "(mp_obj \<times> int) list" where
  "sample_items = [(Qstr [97], 1), (SmallInt 7, 2), (Str 536870912 True [98], 3)]"

definition sample_dict :: "(mp_obj, int) mp_map" where
  "sample_dict = projr (dict_add_all obj_ops (mp_obj_new_dict 0) (map (\<lambda>(k, v). (k, Some v)) sample_items))"

definition sample_ordereddict :: "(mp_obj, int) mp_map" where
  "sample_ordereddict =
     \<lparr>all_keys_are_qstrs = False, is_fixed = False, is_ordered = True, used = 3,
      table = map (\<lambda>(k, v). (Key k, Some v)) sample_items @ [(Null, None)]\<rparr>"

lemma sample_dict_facts:
  "dict_inv sample_dict" "dict_contents sample_dict = map_of (map (\<lambda>(k, v). (value_of k, v)) (rev sample_items))"
  using add_all_contents [OF new_dict_ok(1) [OF refl], where 'a = int, of 0 sample_items]
  by (auto simp: sample_dict_def new_dict_ok(2) [OF refl])

lemma sample_dict_used: "used sample_dict = 3"
proof -
  have "dom (dict_contents sample_dict) = {StrValue [97], IntValue 7, StrValue [98]}"
    unfolding sample_dict_facts(2) by (auto simp: sample_items_def dom_def)
  then show ?thesis using contents_dom [OF sample_dict_facts(1)] by simp
qed

lemma sample_ordereddict_facts:
  "ord_inv obj_ops sample_ordereddict" "dict_items sample_ordereddict = map (\<lambda>(k, v). (k, Some v)) sample_items"
  "dict_contents sample_ordereddict = dict_contents sample_dict"
proof -
  have rep: "ord_rep obj_ops sample_ordereddict (map (\<lambda>(k, v). (k, Some v)) sample_items)"
    by (simp add: ord_rep_def sample_ordereddict_def sample_items_def al_distinct_def)
  then show items: "dict_items sample_ordereddict = map (\<lambda>(k, v). (k, Some v)) sample_items" by (rule dict_items_ord)
  show "ord_inv obj_ops sample_ordereddict"
    using rep obj.no_nulls_set [OF rep] by (auto simp: ord_inv_def)
  show "dict_contents sample_ordereddict = dict_contents sample_dict"
    by (auto simp: fun_eq_iff contents_map_of [of sample_ordereddict] items sample_dict_facts(2) sample_items_def)
qed

theorem dict_store_refines_witness:
  "\<exists>m'. mp_obj_dict_store obj_ops sample_dict (SmallInt 9) 4 = Inr m' \<and> dict_inv m' \<and>
    dict_contents m' = (dict_contents sample_dict)(IntValue 9 \<mapsto> 4) \<and>
    used m' = used sample_dict + of_bool (IntValue 9 \<notin> dom (dict_contents sample_dict))"
  using dict_store_refines [OF sample_dict_facts(1), of "SmallInt 9" 4] by simp

theorem dict_pop_refines_witness:
  "\<exists>m'. dict_pop obj_ops 0 sample_dict (Qstr [98]) None = Inr (m', 3) \<and> dict_inv m' \<and> used m' + 1 = used sample_dict"
proof -
  have "dict_contents sample_dict (StrValue [98]) = Some 3" by (simp add: sample_dict_facts(2) sample_items_def)
  then show ?thesis using dict_pop_refines [OF sample_dict_facts(1), where k = "Qstr [98]" and none = 0 and dflt = None] by auto
qed

theorem dict_reads_refine_witness:
  "mp_obj_dict_get obj_ops sample_dict (SmallInt 7) = Inr (Some 2) \<and>
   dict_get obj_ops 0 sample_dict (SmallInt 8) (Some 5) = Inr (sample_dict, 5)"
proof -
  have "dict_contents sample_dict (IntValue 7) = Some 2" "dict_contents sample_dict (IntValue 8) = None"
    by (simp_all add: sample_dict_facts(2) sample_items_def)
  then show ?thesis
    using dict_reads_refine [OF sample_dict_facts(1), where k = "SmallInt 7"]
      dict_reads_refine [OF sample_dict_facts(1), where k = "SmallInt 8" and none = 0 and dflt = "Some 5"] by simp
qed

theorem dict_iteration_complete_witness:
  "\<exists>kvs. dict_items sample_dict = map (\<lambda>(k, v). (k, Some v)) kvs \<and> length kvs = 3"
  using dict_iteration_complete [OF sample_dict_facts(1)] by (auto simp: sample_dict_used)

theorem dict_update_overrides_witness:
  "\<exists>m'. dict_update obj_ops sample_dict (OtherDict sample_ordereddict) (mp_map_init_fixed_table [(Qstr [97], 5)]) = Inr (m', None) \<and>
    dict_contents m' (StrValue [97]) = Some 5"
  using dict_update_overrides [OF sample_dict_facts(1) ord_dict_inv [OF sample_ordereddict_facts(1)], of "[(Qstr [97], 5)]"]
  by auto

theorem dict_equal_correct_witness:
  "dict_equal obj_ops (rel_option (=)) (True, sample_ordereddict) (False, sample_dict) =
     Inr (\<forall>w. rel_option (=) (dict_contents sample_ordereddict w) (dict_contents sample_dict w))"
  by (rule dict_equal_correct [OF ord_dict_inv [OF sample_ordereddict_facts(1)] sample_dict_facts(1)])

theorem ordereddict_refines_list_witness:
  "\<exists>m'. mp_obj_dict_delete obj_ops 0 sample_ordereddict (SmallInt 7) = Inr m' \<and>
    dict_items m' = [(Qstr [97], Some 1), (Str 536870912 True [98], Some 3)]"
proof -
  have "IntValue 7 \<in> dom (dict_contents sample_ordereddict)"
    by (simp add: sample_ordereddict_facts(3) sample_dict_facts(2) sample_items_def)
  moreover have "al_del obj_ops (dict_items sample_ordereddict) (SmallInt 7) =
    [(Qstr [97], Some 1), (Str 536870912 True [98], Some 3)]"
    by (simp add: sample_ordereddict_facts(2) sample_items_def al_del_def)
  ultimately show ?thesis using ordereddict_refines_list [OF sample_ordereddict_facts(1), of "SmallInt 7"] by auto
qed

theorem dict_popitem_correct_witness:
  "\<exists>m' k v. dict_popitem sample_dict = Inr (m', (Key k, Some v)) \<and> dict_inv m' \<and> used m' = 2"
  using dict_popitem_correct [OF sample_dict_facts(1)] by (auto simp: sample_dict_used)

theorem dict_constructors_correct_witness:
  "(\<exists>m. mp_obj_dict_make_new obj_ops True (OtherDict sample_dict) [] = Inr (m, None) \<and> dict_contents m = dict_contents sample_dict) \<and>
   (\<exists>m. dict_fromkeys obj_ops [SmallInt 1, SmallInt 2] (Some 2) (0 :: int) = Inr m \<and> dict_contents m (IntValue 2) = Some 0)"
  using dict_constructors_correct [OF sample_dict_facts(1), of True "[]" "[SmallInt 1, SmallInt 2]" "Some 2" 0] by auto

text \<open>
  A lookup that adds to an ordered array returns a slot that may keep an old value: after a
  removal that did not clear the value behind the end, the slot of the new key still has it.
\<close>

lemma ordered_add_keeps_value:
  "\<exists>m1 m2. mp_map_lookup obj_ops sample_ordereddict (SmallInt 7) REMOVE_IF_FOUND = Inr (m1, Some 2) \<and>
     mp_map_lookup obj_ops m1 (SmallInt 8) ADD_IF_NOT_FOUND = Inr (m2, Some 2) \<and>
     table m2 ! 2 = (Key (SmallInt 8), Some 2)"
  by (simp add: mp_map_lookup_def map_lookup_body_def sample_ordereddict_def sample_items_def ordered_lookup_def
      ordered_find_def ordered_remove_def ordered_add_def key_match_def map_alloc_def upt_rec numeral_2_eq_2 numeral_3_eq_3)

end
