(* ===== verification/Mp_Set.thy ===== *)
theory Mp_Set
  imports Mp_Obj
begin

text \<open>
  The hash sets of \<^verbatim>\<open>py/map.c\<close> and what their lookup promises, as the locale \<open>set_interface\<close>. A set is a table
  of keys without values; its invariant is that of the map with the same keys, so the facts
  about probing and free slots carry over.
\<close>

record 'k mp_set =
  set_used :: nat
  set_table :: "'k key list"

datatype set_error =
    SetDiverges
  | SetKeyError

definition set_alloc :: "'k mp_set \<Rightarrow> nat" where
  "set_alloc s = length (set_table s)"

definition mp_set_init :: "nat \<Rightarrow> 'k mp_set" where
  "mp_set_init n = \<lparr>set_used = 0, set_table = replicate n Null\<rparr>"

definition mp_set_clear :: "'k mp_set \<Rightarrow> 'k mp_set" where
  "mp_set_clear s = \<lparr>set_used = 0, set_table = []\<rparr>"

definition set_add_at :: "'k mp_set \<Rightarrow> nat \<Rightarrow> 'k \<Rightarrow> 'k mp_set" where
  "set_add_at s pos index = s\<lparr>set_used := set_used s + 1, set_table := (set_table s)[pos := Key index]\<rparr>"

definition set_remove_at :: "'k mp_set \<Rightarrow> nat \<Rightarrow> 'k mp_set" where
  "set_remove_at s pos =
     s\<lparr>set_used := set_used s - 1, set_table := (set_table s)[pos := deleted_key (set_table s) pos]\<rparr>"

definition key_obj :: "'k key \<Rightarrow> 'k option" where
  "key_obj x = (case x of Key k \<Rightarrow> Some k | _ \<Rightarrow> None)"

text \<open>
  The loop \<^verbatim>\<open>for (;;)\<close> of \<^verbatim>\<open>mp_set_lookup\<close>, with one restart after a rehash as for maps. The lookup kinds are
  bit masks here, so one kind can both add and remove.
\<close>

fun set_hash_loop :: "nat \<Rightarrow> ('k mp_set \<Rightarrow> set_error + 'k mp_set) \<Rightarrow> 'k key_ops \<Rightarrow> 'k mp_set \<Rightarrow> 'k \<Rightarrow>
  lookup_kind \<Rightarrow> set_error + 'k mp_set \<times> 'k option" where
  "set_hash_loop restarts rehash ops s index kind =
     (case probe (\<lambda>elem. kequal ops elem index) (set_table s) (khash ops index) of
        ProbeFound pos \<Rightarrow>
          Inr (if removes kind then set_remove_at s pos else s, key_obj (set_table s ! pos))
      | ProbeNull pos avail \<Rightarrow>
          (if adds kind
           then Inr (set_add_at s (case avail of None \<Rightarrow> pos | Some p \<Rightarrow> p) index, Some index)
           else Inr (s, None))
      | ProbeWrapped avail \<Rightarrow>
          (if adds kind
           then (case avail of
                   Some pos \<Rightarrow> Inr (set_add_at s pos index, Some index)
                 | None \<Rightarrow>
                     (case restarts of
                        0 \<Rightarrow> Inl SetDiverges
                      | Suc restarts' \<Rightarrow>
                          res_bind (rehash s) (\<lambda>s. set_hash_loop restarts' rehash ops s index kind)))
           else Inr (s, None))
      | ProbeStuck \<Rightarrow> Inl SetDiverges)"

declare set_hash_loop.simps [simp del]

definition set_lookup_body :: "('k mp_set \<Rightarrow> set_error + 'k mp_set) \<Rightarrow> 'k key_ops \<Rightarrow> 'k mp_set \<Rightarrow> 'k \<Rightarrow>
  lookup_kind \<Rightarrow> set_error + 'k mp_set \<times> 'k option" where
  "set_lookup_body rehash ops s index kind =
     (if set_alloc s = 0 \<and> \<not> adds kind then Inr (s, None)
      else res_bind (if set_alloc s = 0 then rehash s else Inr s) (\<lambda>s.
           set_hash_loop 1 rehash ops s index kind))"

fun set_rehash_elems :: "('k mp_set \<Rightarrow> 'k \<Rightarrow> set_error + 'k mp_set \<times> 'k option) \<Rightarrow> 'k mp_set \<Rightarrow> 'k key list \<Rightarrow>
  set_error + 'k mp_set" where
  "set_rehash_elems add s [] = Inr s"
| "set_rehash_elems add s (Key k # es) = res_bind (add s k) (\<lambda>(s, _). set_rehash_elems add s es)"
| "set_rehash_elems add s (_ # es) = set_rehash_elems add s es"

definition set_rehash_body :: "('k mp_set \<Rightarrow> 'k \<Rightarrow> set_error + 'k mp_set \<times> 'k option) \<Rightarrow> 'k mp_set \<Rightarrow>
  set_error + 'k mp_set" where
  "set_rehash_body add s =
     (let new_alloc = get_hash_alloc_greater_or_equal_to (set_alloc s + 1)
      in set_rehash_elems add (s\<lparr>set_used := 0, set_table := replicate new_alloc Null\<rparr>) (set_table s))"

primrec set_lookup_depth :: "nat \<Rightarrow> 'k key_ops \<Rightarrow> 'k mp_set \<Rightarrow> 'k \<Rightarrow> lookup_kind \<Rightarrow> set_error + 'k mp_set \<times> 'k option" where
  "set_lookup_depth 0 ops s index kind = set_lookup_body (\<lambda>s. Inl SetDiverges) ops s index kind"
| "set_lookup_depth (Suc depth) ops s index kind =
     set_lookup_body (set_rehash_body (\<lambda>s k. set_lookup_depth depth ops s k ADD_IF_NOT_FOUND)) ops s index kind"

definition mp_set_rehash :: "'k key_ops \<Rightarrow> 'k mp_set \<Rightarrow> set_error + 'k mp_set" where
  "mp_set_rehash ops = set_rehash_body (\<lambda>s k. set_lookup_depth 0 ops s k ADD_IF_NOT_FOUND)"

definition mp_set_lookup :: "'k key_ops \<Rightarrow> 'k mp_set \<Rightarrow> 'k \<Rightarrow> lookup_kind \<Rightarrow> set_error + 'k mp_set \<times> 'k option" where
  "mp_set_lookup = set_lookup_depth 1"

definition mp_set_slot_is_filled :: "'k mp_set \<Rightarrow> nat \<Rightarrow> bool" where
  "mp_set_slot_is_filled s pos \<longleftrightarrow> set_table s ! pos \<noteq> Null \<and> set_table s ! pos \<noteq> Sentinel"

definition mp_set_remove_first :: "'k mp_set \<Rightarrow> 'k mp_set \<times> 'k option" where
  "mp_set_remove_first s =
     (case find (mp_set_slot_is_filled s) [0..<set_alloc s] of
        None \<Rightarrow> (s, None)
      | Some pos \<Rightarrow> (set_remove_at s pos, key_obj (set_table s ! pos)))"

section \<open>Invariant and membership\<close>

definition as_map :: "'k mp_set \<Rightarrow> ('k, unit) mp_map" where
  "as_map s = \<lparr>all_keys_are_qstrs = False, is_fixed = False, is_ordered = False, used = set_used s,
     table = map (\<lambda>x. (x, None)) (set_table s)\<rparr>"

definition set_inv :: "'k key_ops \<Rightarrow> 'k mp_set \<Rightarrow> bool" where
  "set_inv ops s \<longleftrightarrow> map_inv ops (as_map s)"

definition memb :: "'k key_ops \<Rightarrow> 'k mp_set \<Rightarrow> 'k \<Rightarrow> bool" where
  "memb ops s k \<longleftrightarrow> (\<exists>k'. Key k' \<in> set (set_table s) \<and> kequal ops k' k)"

lemma as_map_simps [simp]:
  "map_keys (as_map s) = set_table s" "map_alloc (as_map s) = set_alloc s" "used (as_map s) = set_used s"
  "all_keys_are_qstrs (as_map s) = False"
  by (simp_all add: as_map_def map_keys_def map_alloc_def set_alloc_def comp_def)

lemma as_map_entries: "(k, v) \<in> map_entries (as_map s) \<longleftrightarrow> Key k \<in> set (set_table s) \<and> v = None"
  by (auto simp: as_map_def map_entries_def)

lemma present_as_map: "present ops (as_map s) k \<longleftrightarrow> memb ops s k"
  by (auto simp: present_def memb_def as_map_entries)

lemma as_map_add: "as_map (set_add_at s p k) = map_add_at ops (as_map s) p k"
  by (simp add: as_map_def set_add_at_def map_add_at_def map_update)

lemma as_map_remove: "as_map (set_remove_at s p) = map_remove_at (as_map s) p" if "p < set_alloc s"
  using that by (simp add: as_map_def set_remove_at_def map_remove_at_def map_update comp_def set_alloc_def)

lemma set_inv_facts: "set_inv ops s \<Longrightarrow> set_used s = filled (set_table s)"
    "set_inv ops s \<longleftrightarrow> table_ok (khash ops) (kequal ops) (set_table s) \<and> set_used s = filled (set_table s)"
  by (simp_all add: set_inv_def map_inv_def) (simp_all add: as_map_def)

locale set_interface =
  fixes ops :: "'k key_ops" and inv :: "'k mp_set \<Rightarrow> bool"
  assumes find_law: "inv s \<Longrightarrow> \<exists>r. mp_set_lookup ops s k LOOKUP = Inr (s, r) \<and> (r \<noteq> None \<longleftrightarrow> memb ops s k)"
    and add_law: "inv s \<Longrightarrow> \<exists>s' r. mp_set_lookup ops s k ADD_IF_NOT_FOUND = Inr (s', r) \<and> inv s' \<and>
      set_used s' = set_used s + of_bool (\<not> memb ops s k) \<and> (\<forall>k'. memb ops s' k' \<longleftrightarrow> memb ops s k' \<or> kequal ops k k')"
    and remove_law: "inv s \<Longrightarrow> \<exists>s' r. mp_set_lookup ops s k REMOVE_IF_FOUND = Inr (s', r) \<and> inv s' \<and>
      (r \<noteq> None \<longleftrightarrow> memb ops s k) \<and> (r = None \<longrightarrow> s' = s) \<and> set_used s' + of_bool (memb ops s k) = set_used s \<and>
      (\<forall>k'. memb ops s' k' \<longleftrightarrow> memb ops s k' \<and> \<not> kequal ops k k')"
    and toggle_law: "inv s \<Longrightarrow> \<exists>s' r. mp_set_lookup ops s k ADD_IF_NOT_FOUND_OR_REMOVE_IF_FOUND = Inr (s', r) \<and> inv s' \<and>
      (\<forall>k'. memb ops s' k' \<longleftrightarrow> (memb ops s k' \<noteq> kequal ops k k'))"
    and init_law: "inv (mp_set_init n)"
    and pop_law: "inv s \<Longrightarrow> (if set_used s = 0 then mp_set_remove_first s = (s, None)
      else \<exists>s' k. mp_set_remove_first s = (s', Some k) \<and> inv s' \<and> memb ops s k \<and> set_used s' + 1 = set_used s \<and>
        (\<forall>k'. memb ops s' k' \<longleftrightarrow> memb ops s k' \<and> \<not> kequal ops k k'))"

context obj_keys
begin

lemma set_match: "key_match ops False index = (\<lambda>elem. kequal ops elem index)"
  using equal_refl by (auto simp: key_match_def fun_eq_iff)

lemma set_probe_present:
  assumes "set_inv ops s" "i < set_alloc s" "set_table s ! i = Key k" "kequal ops k index"
  shows "probe (\<lambda>elem. kequal ops elem index) (set_table s) (khash ops index) = ProbeFound i"
  using probe_present [of "as_map s" i k index] assms by (simp add: set_inv_def set_match)

lemma set_add_room:
  assumes inv: "set_inv ops s" and abs: "\<not> memb ops s index" and room: "set_used s < set_alloc s" and kind: "adds kind"
  shows "\<exists>p. set_hash_loop n rehash ops s index kind = Inr (set_add_at s p index, Some index) \<and>
    set_inv ops (set_add_at s p index) \<and> p < set_alloc s"
proof -
  obtain p where p: "map_hash_loop n (\<lambda>m. Inl MapDiverges) ops False (as_map s) index ADD_IF_NOT_FOUND =
      Inr (map_add_at ops (as_map s) p index, Some p)" "map_inv ops (map_add_at ops (as_map s) p index)" "p < set_alloc s"
    using add_room_loop [of "as_map s" index n "\<lambda>m. Inl MapDiverges" False] assms
    by (auto simp: set_inv_def present_as_map)
  have "used (map_add_at ops (as_map s) p index) \<noteq> used (as_map s)" by (simp add: map_add_at_def)
  then have "as_map s \<noteq> map_add_at ops (as_map s) p index" by metis
  then have "set_hash_loop n rehash ops s index kind = Inr (set_add_at s p index, Some index)"
    using p(1) kind
    by (auto simp: set_hash_loop.simps map_hash_loop.simps [of n] set_match map_keys_def [symmetric] Let_def
        split: probe_result.splits option.splits nat.splits)
  then show ?thesis using p by (auto simp: set_inv_def as_map_add [of _ _ _ ops])
qed

lemma memb_add:
  assumes "set_inv ops s" "set_inv ops (set_add_at s p k)" "p < set_alloc s"
  shows "set_table s ! p = Null \<or> set_table s ! p = Sentinel"
    "memb ops (set_add_at s p k) k' \<longleftrightarrow> memb ops s k' \<or> kequal ops k k'"
proof -
  show free: "set_table s ! p = Null \<or> set_table s ! p = Sentinel"
  proof (rule ccontr)
    assume "\<not> ?thesis"
    then obtain a where "set_table s ! p = Key a" by (cases "set_table s ! p") auto
    then have "filled ((set_table s)[p := Key k]) = filled (set_table s)"
      using filled_update [of p "set_table s" "Key k"] assms(3) by (auto simp: set_alloc_def)
    then show False using assms(1,2) by (simp add: set_inv_facts(2) set_add_at_def)
  qed
  have "Key a \<in> set ((set_table s)[p := Key k]) \<longleftrightarrow> Key a \<in> set (set_table s) \<or> a = k" for a
    using assms(3) free unfolding in_set_conv_nth
    by (auto simp: set_alloc_def nth_list_update split: if_splits) (metis key.distinct(3,5))+
  then show "memb ops (set_add_at s p k) k' \<longleftrightarrow> memb ops s k' \<or> kequal ops k k'"
    by (auto simp: memb_def set_add_at_def)
qed

lemma set_rehash_elems_correct:
  assumes "set_inv ops s" "set_used s + filled es \<le> set_alloc s"
    and "sorted_wrt (\<lambda>x y. \<forall>a b. x = Key a \<and> y = Key b \<longrightarrow> \<not> kequal ops a b) es"
    and "\<forall>k. Key k \<in> set es \<longrightarrow> \<not> memb ops s k"
  shows "\<exists>s'. set_rehash_elems (\<lambda>s k. set_lookup_body rehash ops s k ADD_IF_NOT_FOUND) s es = Inr s' \<and>
    set_inv ops s' \<and> set_alloc s' = set_alloc s \<and> set_used s' = set_used s + filled es \<and>
    (\<forall>k. memb ops s' k \<longleftrightarrow> memb ops s k \<or> (\<exists>a. Key a \<in> set es \<and> kequal ops a k))"
  using assms
proof (induction es arbitrary: s)
  case (Cons x es)
  show ?case
  proof (cases x)
    case (Key k)
    have room: "set_used s < set_alloc s" using Cons.prems(2) by (simp add: Key filled_def)
    have abs: "\<not> memb ops s k" using Cons.prems(4) Key by auto
    from set_add_room [OF Cons.prems(1) abs room, of ADD_IF_NOT_FOUND] obtain p where
      p: "set_lookup_body rehash ops s k ADD_IF_NOT_FOUND = Inr (set_add_at s p k, Some k)"
        "set_inv ops (set_add_at s p k)" "p < set_alloc s"
      using room by (auto simp: set_lookup_body_def adds_def)
    note m = memb_add(2) [OF Cons.prems(1) p(2,3)]
    have "\<not> memb ops (set_add_at s p k) a" if "Key a \<in> set es" for a
      using that Cons.prems(3,4) Key by (auto simp: m)
    moreover have "set_alloc (set_add_at s p k) = set_alloc s" "set_used (set_add_at s p k) = set_used s + 1"
      by (simp_all add: set_add_at_def set_alloc_def)
    ultimately show ?thesis
      using Cons.IH [OF p(2)] Cons.prems(2,3) p(1) Key by (auto simp: m filled_def)
  qed (use Cons in \<open>auto simp: filled_def\<close>)
qed (simp add: filled_def)

lemma set_rehash_correct:
  assumes "set_inv ops s"
  shows "\<exists>s'. mp_set_rehash ops s = Inr s' \<and> set_inv ops s' \<and> set_used s' = set_used s \<and> set_alloc s < set_alloc s' \<and>
    (\<forall>k. memb ops s' k \<longleftrightarrow> memb ops s k)"
proof -
  define n where "n = get_hash_alloc_greater_or_equal_to (set_alloc s + 1)"
  define s0 where "s0 = s\<lparr>set_used := 0, set_table := replicate n Null\<rparr>"
  have n: "set_alloc s + 1 \<le> n" unfolding n_def by (rule get_hash_alloc_ge)
  have inv: "set_inv ops s0"
    using table_ok_empty [of "khash ops" "kequal ops" n] by (simp add: s0_def set_inv_facts(2) filled_def)
  have "set_used s0 + filled (set_table s) \<le> set_alloc s0"
    using n filled_le [of "set_table s"] by (simp add: s0_def set_alloc_def)
  moreover have "sorted_wrt (\<lambda>x y. \<forall>a b. x = Key a \<and> y = Key b \<longrightarrow> \<not> kequal ops a b) (set_table s)"
    using map_inv_distinct [of "as_map s"] assms
    by (simp add: set_inv_def distinct_keys_def as_map_def sorted_wrt_map)
  moreover have "\<not> memb ops s0 k" for k by (auto simp: memb_def s0_def)
  ultimately obtain s' where s': "mp_set_rehash ops s = Inr s'" "set_inv ops s'" "set_alloc s' = n"
    "set_used s' = filled (set_table s)" "\<forall>k. memb ops s' k \<longleftrightarrow> memb ops s k"
    using set_rehash_elems_correct [OF inv, of "set_table s" "\<lambda>s. Inl SetDiverges"]
    unfolding memb_def [of _ s] by (auto simp: mp_set_rehash_def set_rehash_body_def Let_def n_def s0_def set_alloc_def)
  then show ?thesis using n set_inv_facts(1) [OF assms] by auto
qed

text \<open>The three outcomes of a lookup.\<close>

lemma set_lookup_present:
  assumes inv: "set_inv ops s" and i: "i < set_alloc s" "set_table s ! i = Key k" "kequal ops k index"
  shows "mp_set_lookup ops s index kind = Inr (if removes kind then set_remove_at s i else s, Some k)"
  using set_probe_present [OF assms] i
  by (simp add: mp_set_lookup_def set_lookup_body_def set_hash_loop.simps key_obj_def)

lemma set_lookup_absent:
  assumes inv: "set_inv ops s" and abs: "\<not> memb ops s index" and kind: "\<not> adds kind"
  shows "mp_set_lookup ops s index kind = Inr (s, None)"
proof (cases "set_alloc s = 0")
  case True
  then show ?thesis using kind by (simp add: mp_set_lookup_def set_lookup_body_def)
next
  case False
  have "set_hash_loop 1 r ops s index kind = Inr (s, None)" for r
  proof (rule probe_absent [of "as_map s" index False])
    show "map_inv ops (as_map s)" "\<not> present ops (as_map s) index" "0 < map_alloc (as_map s)"
      using inv abs False by (simp_all add: set_inv_def present_as_map)
  qed (use kind in \<open>simp_all add: set_hash_loop.simps set_match\<close>)
  then show ?thesis using False by (simp add: mp_set_lookup_def set_lookup_body_def)
qed

lemma set_lookup_add:
  assumes inv: "set_inv ops s" and abs: "\<not> memb ops s index" and kind: "adds kind"
  shows "\<exists>s'. mp_set_lookup ops s index kind = Inr (s', Some index) \<and> set_inv ops s' \<and> set_used s' = set_used s + 1 \<and>
    (\<forall>k'. memb ops s' k' \<longleftrightarrow> memb ops s k' \<or> kequal ops index k')"
proof -
  let ?r = "set_rehash_body (\<lambda>s k. set_lookup_depth 0 ops s k ADD_IF_NOT_FOUND)"
  have look: "mp_set_lookup ops s index kind = set_lookup_body ?r ops s index kind" by (simp add: mp_set_lookup_def)
  have room: "\<exists>s'. set_hash_loop n ?r ops t index kind = Inr (s', Some index) \<and> set_inv ops s' \<and> set_used s' = set_used s + 1 \<and>
    (\<forall>k'. memb ops s' k' \<longleftrightarrow> memb ops s k' \<or> kequal ops index k')"
    if t: "set_inv ops t" "set_used t < set_alloc t" "set_used t = set_used s" "\<forall>k. memb ops t k \<longleftrightarrow> memb ops s k" for n t
  proof -
    obtain p where p: "set_hash_loop n ?r ops t index kind = Inr (set_add_at t p index, Some index)"
      "set_inv ops (set_add_at t p index)" "p < set_alloc t"
      using set_add_room [OF t(1) _ t(2) kind] abs t(4) by blast
    then show ?thesis using memb_add(2) [OF t(1) p(2,3)] t(3,4) by (auto simp: set_add_at_def)
  qed
  have le: "set_used s \<le> set_alloc s" using set_inv_facts(1) [OF inv] filled_le [of "set_table s"] by (simp add: set_alloc_def)
  obtain t where t: "?r s = Inr t" "set_inv ops t" "set_used t = set_used s" "set_alloc s < set_alloc t"
    "\<forall>k. memb ops t k \<longleftrightarrow> memb ops s k" using set_rehash_correct [OF inv] by (auto simp: mp_set_rehash_def)
  have grown: "\<exists>s'. set_hash_loop n ?r ops t index kind = Inr (s', Some index) \<and> set_inv ops s' \<and> set_used s' = set_used s + 1 \<and>
    (\<forall>k'. memb ops s' k' \<longleftrightarrow> memb ops s k' \<or> kequal ops index k')" for n
    using room [OF t(2)] t le by simp
  consider (none) "set_alloc s = 0" | (full) "0 < set_alloc s" "set_used s = set_alloc s" | (free) "set_used s < set_alloc s"
    using le by linarith
  then show ?thesis
  proof cases
    case none
    then show ?thesis using grown [of 1] t(1) kind look by (simp add: set_lookup_body_def)
  next
    case full
    have "probe (\<lambda>elem. kequal ops elem index) (set_table s) (khash ops index) = ProbeWrapped None"
      using full_wraps [of "as_map s" index False] inv abs full by (simp add: set_inv_def present_as_map set_match)
    then have "set_hash_loop 1 ?r ops s index kind = set_hash_loop 0 ?r ops t index kind"
      using kind t(1) by (subst set_hash_loop.simps) simp
    then show ?thesis using grown [of 0] full look by (simp add: set_lookup_body_def)
  next
    case free
    then show ?thesis using room [OF inv free refl, of 1] look by (simp add: set_lookup_body_def)
  qed
qed

lemma memb_remove:
  assumes inv: "set_inv ops s" and i: "i < set_alloc s" "set_table s ! i = Key k"
  shows "set_inv ops (set_remove_at s i)" "set_used (set_remove_at s i) + 1 = set_used s"
    "memb ops (set_remove_at s i) k' \<longleftrightarrow> memb ops s k' \<and> \<not> kequal ops k k'"
proof -
  have m: "map_inv ops (as_map s)" using inv by (simp add: set_inv_def)
  have f: "i < map_alloc (as_map s)" "fst (table (as_map s) ! i) = Key k"
    using i by (simp_all add: as_map_def map_alloc_def set_alloc_def)
  note r = remove_at_correct [OF m f]
  show "set_inv ops (set_remove_at s i)" using r as_map_remove [OF i(1)] by (simp add: set_inv_def)
  show "set_used (set_remove_at s i) + 1 = set_used s"
    using r as_map_remove [OF i(1)] by (metis as_map_simps(3))
  have e: "map_entries (as_map (set_remove_at s i)) = map_entries (as_map s) - {(k, None)}"
    using r as_map_remove [OF i(1)] i(1) by (simp add: as_map_def set_alloc_def)
  have km: "(k, None) \<in> map_entries (as_map s)" using i by (auto simp: as_map_entries set_alloc_def) (metis nth_mem)
  show "memb ops (set_remove_at s i) k' \<longleftrightarrow> memb ops s k' \<and> \<not> kequal ops k k'"
  proof (cases "kequal ops k k'")
    case True
    have "a = k" if "(a, None) \<in> map_entries (as_map s)" "kequal ops a k'" for a
    proof -
      have "kequal ops a k" using that(2) True equal_sym equal_trans by blast
      then show ?thesis using entry_unique(1) [OF m that(1) km] by simp
    qed
    then show ?thesis using True unfolding present_as_map [symmetric] present_def e by (auto simp: as_map_entries)
  next
    case False
    then show ?thesis unfolding present_as_map [symmetric] present_def e by auto
  qed
qed

lemma memb_slot:
  assumes "memb ops s k"
  obtains i a where "i < set_alloc s" "set_table s ! i = Key a" "kequal ops a k"
  using assms unfolding memb_def in_set_conv_nth set_alloc_def by blast

lemma memb_cong: "kequal ops k k' \<Longrightarrow> memb ops s k \<longleftrightarrow> memb ops s k'"
  unfolding memb_def using equal_sym equal_trans by blast

lemma set_lookup_removes:
  assumes inv: "set_inv ops s" and m: "memb ops s k" and kind: "removes kind"
  shows "\<exists>s' r. mp_set_lookup ops s k kind = Inr (s', Some r) \<and> set_inv ops s' \<and> set_used s' + 1 = set_used s \<and>
    (\<forall>k'. memb ops s' k' \<longleftrightarrow> memb ops s k' \<and> \<not> kequal ops k k')"
proof -
  obtain i a where i: "i < set_alloc s" "set_table s ! i = Key a" "kequal ops a k" using memb_slot [OF m] .
  have "kequal ops a k' \<longleftrightarrow> kequal ops k k'" for k' using i(3) equal_sym equal_trans by blast
  then show ?thesis using set_lookup_present [OF inv i, of kind] memb_remove [OF inv i(1,2)] kind by simp
qed

sublocale sets: set_interface ops "set_inv ops"
proof
  fix s :: "'k mp_set" and k n
  assume inv: "set_inv ops s"
  show "\<exists>r. mp_set_lookup ops s k LOOKUP = Inr (s, r) \<and> (r \<noteq> None \<longleftrightarrow> memb ops s k)"
  proof (cases "memb ops s k")
    case True
    then obtain i a where "i < set_alloc s" "set_table s ! i = Key a" "kequal ops a k" by (rule memb_slot)
    then show ?thesis using set_lookup_present [OF inv, of i a k LOOKUP] True by (simp add: removes_def)
  next
    case False
    then show ?thesis using set_lookup_absent [OF inv False, of LOOKUP] by (simp add: adds_def)
  qed
  show "\<exists>s' r. mp_set_lookup ops s k ADD_IF_NOT_FOUND = Inr (s', r) \<and> set_inv ops s' \<and>
      set_used s' = set_used s + of_bool (\<not> memb ops s k) \<and> (\<forall>k'. memb ops s' k' \<longleftrightarrow> memb ops s k' \<or> kequal ops k k')"
  proof (cases "memb ops s k")
    case True
    then obtain i a where "i < set_alloc s" "set_table s ! i = Key a" "kequal ops a k" by (rule memb_slot)
    then show ?thesis using set_lookup_present [OF inv, of i a k ADD_IF_NOT_FOUND] True inv memb_cong
      by (auto simp: removes_def)
  next
    case False
    then show ?thesis using set_lookup_add [OF inv False, of ADD_IF_NOT_FOUND] by (auto simp: adds_def)
  qed
  show "\<exists>s' r. mp_set_lookup ops s k REMOVE_IF_FOUND = Inr (s', r) \<and> set_inv ops s' \<and>
      (r \<noteq> None \<longleftrightarrow> memb ops s k) \<and> (r = None \<longrightarrow> s' = s) \<and> set_used s' + of_bool (memb ops s k) = set_used s \<and>
      (\<forall>k'. memb ops s' k' \<longleftrightarrow> memb ops s k' \<and> \<not> kequal ops k k')"
  proof (cases "memb ops s k")
    case True
    then show ?thesis using set_lookup_removes [OF inv True, of REMOVE_IF_FOUND] by (auto simp: removes_def)
  next
    case False
    then show ?thesis using set_lookup_absent [OF inv False, of REMOVE_IF_FOUND] inv memb_cong by (auto simp: adds_def)
  qed
  show "\<exists>s' r. mp_set_lookup ops s k ADD_IF_NOT_FOUND_OR_REMOVE_IF_FOUND = Inr (s', r) \<and> set_inv ops s' \<and>
      (\<forall>k'. memb ops s' k' \<longleftrightarrow> (memb ops s k' \<noteq> kequal ops k k'))"
  proof (cases "memb ops s k")
    case True
    moreover have "memb ops s k' \<and> \<not> kequal ops k k' \<longleftrightarrow> (memb ops s k' \<noteq> kequal ops k k')" for k' using memb_cong True by blast
    ultimately show ?thesis using set_lookup_removes [OF inv True, of ADD_IF_NOT_FOUND_OR_REMOVE_IF_FOUND]
      by (auto simp: removes_def)
  next
    case False
    moreover have "memb ops s k' \<or> kequal ops k k' \<longleftrightarrow> (memb ops s k' \<noteq> kequal ops k k')" for k' using memb_cong False by blast
    ultimately show ?thesis using set_lookup_add [OF inv False, of ADD_IF_NOT_FOUND_OR_REMOVE_IF_FOUND]
      by (auto simp: adds_def)
  qed
  show "if set_used s = 0 then mp_set_remove_first s = (s, None)
      else \<exists>s' k. mp_set_remove_first s = (s', Some k) \<and> set_inv ops s' \<and> memb ops s k \<and> set_used s' + 1 = set_used s \<and>
        (\<forall>k'. memb ops s' k' \<longleftrightarrow> memb ops s k' \<and> \<not> kequal ops k k')"
  proof (cases "find (mp_set_slot_is_filled s) [0..<set_alloc s]")
    case None
    then have "filled (set_table s) = 0"
      by (auto simp: find_None_iff mp_set_slot_is_filled_def filled_def filter_empty_conv in_set_conv_nth set_alloc_def
          split: key.splits)
    then show ?thesis using None set_inv_facts(1) [OF inv] by (simp add: mp_set_remove_first_def)
  next
    case (Some i)
    then have i: "i < set_alloc s" "mp_set_slot_is_filled s i" by (auto simp: find_Some_iff)
    then obtain a where a: "set_table s ! i = Key a" by (cases "set_table s ! i") (auto simp: mp_set_slot_is_filled_def)
    have "memb ops s a" unfolding memb_def using a i(1) equal_refl by (metis nth_mem set_alloc_def)
    then show ?thesis using Some a memb_remove [OF inv i(1) a]
      by (auto simp: mp_set_remove_first_def key_obj_def)
  qed
next
  show "set_inv ops (mp_set_init n)" for n
    using table_ok_empty [of "khash ops" "kequal ops" n] by (simp add: set_inv_facts(2) mp_set_init_def filled_def)
qed

end

end
