(* ===== verification/Mp_ObjSet.thy ===== *)
theory Mp_ObjSet
  imports Mp_Set
begin

text \<open>
  Python sets and frozen sets, \<^verbatim>\<open>py/objset.c\<close>: the methods and operators over the hash sets, proved to be
  the operations of finite sets of key values. An iterable argument is the list of the objects
  it yields; where the code tests for the set itself as argument, that is a case of its own.
\<close>

section \<open>Operations\<close>

datatype 'k set_arg = SameSet | Iterable "'k list"

text \<open>A set operand of a comparison: a set object, or an iterable that is made into one.\<close>

datatype 'k set_operand = SetObj "'k mp_set" | AnyIterable "'k list"

definition set_it_iternext :: "'k mp_set \<Rightarrow> nat \<Rightarrow> nat option" where
  "set_it_iternext s cur = find (mp_set_slot_is_filled s) [cur..<set_alloc s]"

text \<open>The objects that iteration over a set yields.\<close>

definition set_elems :: "'k mp_set \<Rightarrow> 'k list" where
  "set_elems s = List.map_filter key_obj (set_table s)"

text \<open>A loop that looks up each object of an iterable with the same kind.\<close>

fun set_lookup_all :: "'k key_ops \<Rightarrow> lookup_kind \<Rightarrow> 'k mp_set \<Rightarrow> 'k list \<Rightarrow> set_error + 'k mp_set" where
  "set_lookup_all ops kind s [] = Inr s"
| "set_lookup_all ops kind s (k # ks) =
     res_bind (mp_set_lookup ops s k kind) (\<lambda>(s, _). set_lookup_all ops kind s ks)"

definition mp_obj_new_set :: "'k key_ops \<Rightarrow> 'k list \<Rightarrow> set_error + 'k mp_set" where
  "mp_obj_new_set ops items = set_lookup_all ops ADD_IF_NOT_FOUND (mp_set_init (length items)) items"

definition set_make_new :: "'k key_ops \<Rightarrow> 'k list option \<Rightarrow> set_error + 'k mp_set" where
  "set_make_new ops arg =
     res_bind (mp_obj_new_set ops []) (\<lambda>s.
     case arg of None \<Rightarrow> Inr s | Some items \<Rightarrow> set_lookup_all ops ADD_IF_NOT_FOUND s items)"

definition set_add :: "'k key_ops \<Rightarrow> 'k mp_set \<Rightarrow> 'k \<Rightarrow> set_error + 'k mp_set" where
  "set_add ops s item = res_bind (mp_set_lookup ops s item ADD_IF_NOT_FOUND) (\<lambda>(s, _). Inr s)"

definition set_clear :: "'k mp_set \<Rightarrow> 'k mp_set" where
  "set_clear s = mp_set_clear s"

definition set_copy :: "'k mp_set \<Rightarrow> 'k mp_set" where
  "set_copy s = (mp_set_init (set_alloc s))\<lparr>set_used := set_used s, set_table := set_table s\<rparr>"

definition set_discard :: "'k key_ops \<Rightarrow> 'k mp_set \<Rightarrow> 'k \<Rightarrow> set_error + 'k mp_set" where
  "set_discard ops s item = res_bind (mp_set_lookup ops s item REMOVE_IF_FOUND) (\<lambda>(s, _). Inr s)"

fun set_diff_args :: "'k key_ops \<Rightarrow> 'k mp_set \<Rightarrow> 'k set_arg list \<Rightarrow> set_error + 'k mp_set" where
  "set_diff_args ops s [] = Inr s"
| "set_diff_args ops s (SameSet # args) = set_diff_args ops (set_clear s) args"
| "set_diff_args ops s (Iterable items # args) =
     res_bind (set_lookup_all ops REMOVE_IF_FOUND s items) (\<lambda>s. set_diff_args ops s args)"

text \<open>
  Without \<open>update\<close> the code works on a copy, so no argument is the copy itself: a caller that passes
  the set again passes its elements.
\<close>

definition set_diff_int :: "'k key_ops \<Rightarrow> 'k mp_set \<Rightarrow> 'k set_arg list \<Rightarrow> bool \<Rightarrow> set_error + 'k mp_set" where
  "set_diff_int ops s args update =
     (if update then set_diff_args ops s args
      else set_diff_args ops (set_copy s)
             (map (\<lambda>arg. case arg of SameSet \<Rightarrow> Iterable (set_elems s) | Iterable items \<Rightarrow> Iterable items) args))"

fun set_intersect_loop :: "'k key_ops \<Rightarrow> 'k mp_set \<Rightarrow> 'k mp_set \<Rightarrow> 'k list \<Rightarrow> set_error + 'k mp_set" where
  "set_intersect_loop ops s out [] = Inr out"
| "set_intersect_loop ops s out (k # ks) =
     res_bind (mp_set_lookup ops s k LOOKUP) (\<lambda>(s, r).
     if r \<noteq> None then res_bind (set_add ops out k) (\<lambda>out. set_intersect_loop ops s out ks)
     else set_intersect_loop ops s out ks)"

text \<open>
  The result is the new contents: those of the set itself with \<open>update\<close>, those of the returned set
  without.
\<close>

definition set_intersect_int :: "'k key_ops \<Rightarrow> 'k mp_set \<Rightarrow> 'k set_arg \<Rightarrow> bool \<Rightarrow> set_error + 'k mp_set" where
  "set_intersect_int ops s other update =
     (case other of
        SameSet \<Rightarrow> Inr (if update then s else set_copy s)
      | Iterable items \<Rightarrow>
          res_bind (mp_obj_new_set ops []) (\<lambda>out.
          res_bind (set_intersect_loop ops s out items) (\<lambda>out.
          Inr (if update then s\<lparr>set_used := set_used out, set_table := set_table out\<rparr> else out))))"

text \<open>A loop over an iterable that stops at the first object whose presence is \<open>stop\<close>.\<close>

fun set_none_found :: "'k key_ops \<Rightarrow> bool \<Rightarrow> 'k mp_set \<Rightarrow> 'k list \<Rightarrow> set_error + bool" where
  "set_none_found ops stop s [] = Inr True"
| "set_none_found ops stop s (k # ks) =
     res_bind (mp_set_lookup ops s k LOOKUP) (\<lambda>(s, r).
     if (r \<noteq> None) = stop then Inr False else set_none_found ops stop s ks)"

definition set_isdisjoint :: "'k key_ops \<Rightarrow> 'k mp_set \<Rightarrow> 'k list \<Rightarrow> set_error + bool" where
  "set_isdisjoint ops s other = set_none_found ops True s other"

definition operand_set :: "'k key_ops \<Rightarrow> 'k set_operand \<Rightarrow> set_error + 'k mp_set" where
  "operand_set ops x = (case x of SetObj s \<Rightarrow> Inr s | AnyIterable items \<Rightarrow> set_make_new ops (Some items))"

definition set_issubset_internal :: "'k key_ops \<Rightarrow> 'k set_operand \<Rightarrow> 'k set_operand \<Rightarrow> bool \<Rightarrow> set_error + bool" where
  "set_issubset_internal ops self_in other_in proper =
     res_bind (operand_set ops self_in) (\<lambda>self.
     res_bind (operand_set ops other_in) (\<lambda>other.
     if proper \<and> set_used self = set_used other then Inr False
     else set_none_found ops False other (set_elems self)))"

definition set_equal :: "'k key_ops \<Rightarrow> 'k mp_set \<Rightarrow> 'k mp_set \<Rightarrow> set_error + bool" where
  "set_equal ops self other =
     (if set_used self \<noteq> set_used other then Inr False
      else set_issubset_internal ops (SetObj self) (SetObj other) False)"

definition set_pop :: "'k mp_set \<Rightarrow> set_error + 'k mp_set \<times> 'k" where
  "set_pop s =
     (case mp_set_remove_first s of
        (s, None) \<Rightarrow> Inl SetKeyError
      | (s, Some obj) \<Rightarrow> Inr (s, obj))"

definition set_remove :: "'k key_ops \<Rightarrow> 'k mp_set \<Rightarrow> 'k \<Rightarrow> set_error + 'k mp_set" where
  "set_remove ops s item =
     res_bind (mp_set_lookup ops s item REMOVE_IF_FOUND) (\<lambda>(s, r).
     if r = None then Inl SetKeyError else Inr s)"

definition set_symmetric_difference_update :: "'k key_ops \<Rightarrow> 'k mp_set \<Rightarrow> 'k list \<Rightarrow> set_error + 'k mp_set" where
  "set_symmetric_difference_update ops s other = set_lookup_all ops ADD_IF_NOT_FOUND_OR_REMOVE_IF_FOUND s other"

definition set_symmetric_difference :: "'k key_ops \<Rightarrow> 'k mp_set \<Rightarrow> 'k list \<Rightarrow> set_error + 'k mp_set" where
  "set_symmetric_difference ops s other = set_symmetric_difference_update ops (set_copy s) other"

definition set_update_int :: "'k key_ops \<Rightarrow> 'k mp_set \<Rightarrow> 'k list \<Rightarrow> set_error + 'k mp_set" where
  "set_update_int ops s other = set_lookup_all ops ADD_IF_NOT_FOUND s other"

fun set_update :: "'k key_ops \<Rightarrow> 'k mp_set \<Rightarrow> 'k list list \<Rightarrow> set_error + 'k mp_set" where
  "set_update ops s [] = Inr s"
| "set_update ops s (other # args) = res_bind (set_update_int ops s other) (\<lambda>s. set_update ops s args)"

definition set_union :: "'k key_ops \<Rightarrow> 'k mp_set \<Rightarrow> 'k list \<Rightarrow> set_error + 'k mp_set" where
  "set_union ops s other = set_update_int ops (set_copy s) other"

text \<open>
  \<^verbatim>\<open>set_unary_op(MP_UNARY_OP_HASH, _)\<close> of a frozen set: a sum in \<^verbatim>\<open>mp_int_t\<close> from the address of the type
  (\<open>type_addr\<close>); the result is what a small integer keeps, 31 bits.
\<close>

definition small_int_value :: "int \<Rightarrow> int" where
  "small_int_value x = (x + 2 ^ 30) mod 2 ^ 31 - 2 ^ 30"

definition frozenset_hash :: "'k key_ops \<Rightarrow> int \<Rightarrow> 'k mp_set \<Rightarrow> int" where
  "frozenset_hash ops type_addr s =
     small_int_value
       (fold (\<lambda>k hash. s32 (hash + small_int_value (int (khash ops k)))) (set_elems s) (s32 type_addr))"

section \<open>On any set\<close>

lemma set_elems_iff: "k \<in> set (set_elems s) \<longleftrightarrow> Key k \<in> set (set_table s)"
proof -
  have "k \<in> set (List.map_filter key_obj xs) \<longleftrightarrow> Key k \<in> set xs" for xs
    by (induction xs) (auto simp: List.map_filter_simps key_obj_def split: key.splits)
  then show ?thesis by (simp add: set_elems_def)
qed

lemma set_elems_length: "length (set_elems s) = filled (set_table s)"
proof -
  have "key_obj x \<noteq> None \<longleftrightarrow> x \<noteq> Null \<and> x \<noteq> Sentinel" for x :: "'a key" by (cases x) (auto simp: key_obj_def)
  then show ?thesis by (simp add: set_elems_def List.map_filter_def filled_def)
qed

lemma set_copy_id [simp]: "set_copy s = s"
  by (simp add: set_copy_def mp_set_init_def)

lemma memb_elems: "memb ops s k \<longleftrightarrow> (\<exists>a \<in> set (set_elems s). kequal ops a k)"
  by (auto simp: memb_def set_elems_iff)

lemma memb_empty [simp]: "\<not> memb ops (mp_set_init n) k" "\<not> memb ops (mp_set_clear s) k"
  by (auto simp: memb_def mp_set_init_def mp_set_clear_def)

context set_interface
begin

lemma add_all:
  assumes "inv s"
  shows "\<exists>s'. set_lookup_all ops ADD_IF_NOT_FOUND s ks = Inr s' \<and> inv s' \<and>
    (\<forall>k'. memb ops s' k' \<longleftrightarrow> memb ops s k' \<or> (\<exists>k \<in> set ks. kequal ops k k'))"
  using assms
proof (induction ks arbitrary: s)
  case (Cons k ks)
  obtain s1 r where s1: "mp_set_lookup ops s k ADD_IF_NOT_FOUND = Inr (s1, r)" "inv s1"
    "\<forall>k'. memb ops s1 k' \<longleftrightarrow> memb ops s k' \<or> kequal ops k k'" using add_law [OF Cons.prems, of k] by blast
  then show ?case using Cons.IH [OF s1(2)] by auto
qed simp

lemma remove_all:
  assumes "inv s"
  shows "\<exists>s'. set_lookup_all ops REMOVE_IF_FOUND s ks = Inr s' \<and> inv s' \<and>
    (\<forall>k'. memb ops s' k' \<longleftrightarrow> memb ops s k' \<and> \<not> (\<exists>k \<in> set ks. kequal ops k k'))"
  using assms
proof (induction ks arbitrary: s)
  case (Cons k ks)
  obtain s1 r where s1: "mp_set_lookup ops s k REMOVE_IF_FOUND = Inr (s1, r)" "inv s1"
    "\<forall>k'. memb ops s1 k' \<longleftrightarrow> memb ops s k' \<and> \<not> kequal ops k k'" using remove_law [OF Cons.prems, of k] by blast
  then show ?case using Cons.IH [OF s1(2)] by auto
qed simp

lemma toggle_all:
  assumes "inv s"
  shows "\<exists>s'. set_lookup_all ops ADD_IF_NOT_FOUND_OR_REMOVE_IF_FOUND s ks = Inr s' \<and> inv s' \<and>
    (\<forall>k'. memb ops s' k' \<longleftrightarrow> (memb ops s k' \<noteq> odd (length (filter (\<lambda>k. kequal ops k k') ks))))"
  using assms
proof (induction ks arbitrary: s)
  case (Cons k ks)
  obtain s1 r where s1: "mp_set_lookup ops s k ADD_IF_NOT_FOUND_OR_REMOVE_IF_FOUND = Inr (s1, r)" "inv s1"
    "\<forall>k'. memb ops s1 k' \<longleftrightarrow> (memb ops s k' \<noteq> kequal ops k k')" using toggle_law [OF Cons.prems, of k] by blast
  then show ?case using Cons.IH [OF s1(2)] by auto
qed simp

lemma new_set:
  "\<exists>s'. mp_obj_new_set ops items = Inr s' \<and> inv s' \<and> (\<forall>k'. memb ops s' k' \<longleftrightarrow> (\<exists>k \<in> set items. kequal ops k k'))"
  using add_all [OF init_law, of "length items" items] by (simp add: mp_obj_new_set_def)

lemma make_new:
  "\<exists>s'. set_make_new ops (Some items) = Inr s' \<and> inv s' \<and> (\<forall>k'. memb ops s' k' \<longleftrightarrow> (\<exists>k \<in> set items. kequal ops k k'))"
  using add_all [OF init_law, of 0 items] by (simp add: set_make_new_def mp_obj_new_set_def)

lemma intersect_loop:
  assumes "inv s" "inv out"
  shows "\<exists>s'. set_intersect_loop ops s out ks = Inr s' \<and> inv s' \<and>
    (\<forall>k'. memb ops s' k' \<longleftrightarrow> memb ops out k' \<or> (\<exists>k \<in> set ks. memb ops s k \<and> kequal ops k k'))"
  using assms(2)
proof (induction ks arbitrary: out)
  case (Cons k ks)
  obtain r where r: "mp_set_lookup ops s k LOOKUP = Inr (s, r)" "r \<noteq> None \<longleftrightarrow> memb ops s k"
    using find_law [OF assms(1)] by blast
  obtain o1 r1 where o1: "mp_set_lookup ops out k ADD_IF_NOT_FOUND = Inr (o1, r1)" "inv o1"
    "\<forall>k'. memb ops o1 k' \<longleftrightarrow> memb ops out k' \<or> kequal ops k k'" using add_law [OF Cons.prems, of k] by blast
  show ?case
  proof (cases "memb ops s k")
    case True
    then show ?thesis using r o1 Cons.IH [OF o1(2)] by (auto simp: set_add_def)
  next
    case False
    then show ?thesis using r Cons.IH [OF Cons.prems] by auto
  qed
qed simp

lemma none_found:
  assumes "inv s"
  shows "set_none_found ops stop s ks = Inr (\<forall>k \<in> set ks. memb ops s k \<noteq> stop)"
proof (induction ks)
  case (Cons k ks)
  obtain r where r: "mp_set_lookup ops s k LOOKUP = Inr (s, r)" "r \<noteq> None \<longleftrightarrow> memb ops s k"
    using find_law [OF assms] by blast
  then show ?case using Cons by (cases "(r \<noteq> None) = stop") auto
qed simp

end

section \<open>Sets of objects\<close>

definition set_contents :: "mp_obj mp_set \<Rightarrow> obj_value set" where
  "set_contents s = value_of ` set (set_elems s)"

abbreviation good_set :: "mp_obj mp_set \<Rightarrow> bool" where
  "good_set \<equiv> set_inv obj_ops"

lemma kequal_value: "kequal obj_ops a b \<longleftrightarrow> value_of a = value_of b"
  by (simp add: obj_ops_def mp_obj_equal_iff)

lemma kequal_image: "(\<exists>k \<in> A. kequal obj_ops k k') \<longleftrightarrow> value_of k' \<in> value_of ` A"
  by (auto simp: kequal_value image_iff) metis+

lemma memb_contents: "memb obj_ops s k \<longleftrightarrow> value_of k \<in> set_contents s"
  by (simp add: memb_elems set_contents_def kequal_image)

lemma value_of_surj: "\<exists>k. value_of k = w"
  by (cases w) (metis value_of.simps(1), metis value_of.simps(2))

lemma contents_eqI: "(\<And>k. memb obj_ops s k \<longleftrightarrow> value_of k \<in> A) \<Longrightarrow> set_contents s = A"
  unfolding memb_contents using value_of_surj by (metis set_eqI)

lemma elems_distinct:
  assumes "good_set s"
  shows "distinct (map value_of (set_elems s))"
proof -
  have "sorted_wrt (\<lambda>x y. \<forall>a b. x = Key a \<and> y = Key b \<longrightarrow> \<not> kequal obj_ops a b) (set_table s)"
    using obj.map_inv_distinct [of "as_map s"] assms
    by (simp add: set_inv_def distinct_keys_def as_map_def sorted_wrt_map)
  then have "distinct (map value_of (List.map_filter key_obj (set_table s)))"
  proof (induction "set_table s" arbitrary: s)
    case Nil then show ?case by (simp add: List.map_filter_simps)
  next
    case (Cons x xs)
    have IH: "distinct (map value_of (List.map_filter key_obj xs))"
      using Cons.hyps(1) [of "\<lparr>set_used = 0, set_table = xs\<rparr>"] Cons.prems Cons.hyps(2) [symmetric] by simp
    have "value_of a \<noteq> value_of b" if "x = Key a" "b \<in> set (List.map_filter key_obj xs)" for a b
      using that Cons.prems Cons.hyps(2) set_elems_iff [of b "\<lparr>set_used = 0, set_table = xs\<rparr>"]
      by (auto simp: set_elems_def kequal_value simp flip: Cons.hyps(2))
    then show ?case using IH unfolding Cons.hyps(2) [symmetric]
      by (cases x) (auto simp: List.map_filter_simps key_obj_def)
  qed
  then show ?thesis by (simp add: set_elems_def)
qed

lemma contents_card: "good_set s \<Longrightarrow> finite (set_contents s) \<and> card (set_contents s) = set_used s"
  using distinct_card [OF elems_distinct] set_inv_facts(1) [of obj_ops s] by (simp add: set_contents_def set_elems_length)

text \<open>
  C27: The element operations of a set: \<^verbatim>\<open>add\<close> inserts, \<^verbatim>\<open>discard\<close> deletes, \<^verbatim>\<open>remove\<close> deletes or raises \<^verbatim>\<open>KeyError\<close>, \<^verbatim>\<open>pop\<close> takes an
  element out or raises \<^verbatim>\<open>KeyError\<close> on an empty set; all keep the set well-formed, and \<^verbatim>\<open>len\<close> is the number
  of different elements.
\<close>

theorem set_element_ops_refine:
  assumes "good_set s"
  shows "set_used s = card (set_contents s) \<and>
    (\<exists>s'. set_add obj_ops s k = Inr s' \<and> good_set s' \<and> set_contents s' = insert (value_of k) (set_contents s)) \<and>
    (\<exists>s'. set_discard obj_ops s k = Inr s' \<and> good_set s' \<and> set_contents s' = set_contents s - {value_of k}) \<and>
    (if value_of k \<in> set_contents s
     then \<exists>s'. set_remove obj_ops s k = Inr s' \<and> good_set s' \<and> set_contents s' = set_contents s - {value_of k}
     else set_remove obj_ops s k = Inl SetKeyError) \<and>
    (if set_contents s = {} then set_pop s = Inl SetKeyError
     else \<exists>s' x. set_pop s = Inr (s', x) \<and> good_set s' \<and> value_of x \<in> set_contents s \<and>
       set_contents s' = set_contents s - {value_of x})"
proof (intro conjI)
  show "set_used s = card (set_contents s)" using contents_card [OF assms] by simp
  obtain s1 r1 where s1: "mp_set_lookup obj_ops s k ADD_IF_NOT_FOUND = Inr (s1, r1)" "good_set s1"
    "\<forall>k'. memb obj_ops s1 k' \<longleftrightarrow> memb obj_ops s k' \<or> kequal obj_ops k k'" using obj.sets.add_law [OF assms, of k] by blast
  have "set_contents s1 = insert (value_of k) (set_contents s)"
    using s1(3) unfolding memb_contents kequal_value by (intro contents_eqI) (metis insert_iff Diff_iff memb_contents singletonI singletonD empty_iff)
  then show "\<exists>s'. set_add obj_ops s k = Inr s' \<and> good_set s' \<and> set_contents s' = insert (value_of k) (set_contents s)"
    using s1 by (simp add: set_add_def)
  obtain s2 r2 where s2: "mp_set_lookup obj_ops s k REMOVE_IF_FOUND = Inr (s2, r2)" "good_set s2"
    "r2 \<noteq> None \<longleftrightarrow> memb obj_ops s k"
    "\<forall>k'. memb obj_ops s2 k' \<longleftrightarrow> memb obj_ops s k' \<and> \<not> kequal obj_ops k k'" using obj.sets.remove_law [OF assms, of k] by blast
  have c2: "set_contents s2 = set_contents s - {value_of k}"
    using s2(4) unfolding memb_contents kequal_value by (intro contents_eqI) (metis insert_iff Diff_iff memb_contents singletonI singletonD empty_iff)
  then show "\<exists>s'. set_discard obj_ops s k = Inr s' \<and> good_set s' \<and> set_contents s' = set_contents s - {value_of k}"
    using s2 by (simp add: set_discard_def)
  show "if value_of k \<in> set_contents s
     then \<exists>s'. set_remove obj_ops s k = Inr s' \<and> good_set s' \<and> set_contents s' = set_contents s - {value_of k}
     else set_remove obj_ops s k = Inl SetKeyError"
    using s2 c2 by (auto simp: set_remove_def memb_contents)
  show "if set_contents s = {} then set_pop s = Inl SetKeyError
     else \<exists>s' x. set_pop s = Inr (s', x) \<and> good_set s' \<and> value_of x \<in> set_contents s \<and>
       set_contents s' = set_contents s - {value_of x}"
  proof (cases "set_contents s = {}")
    case True
    then show ?thesis using obj.sets.pop_law [OF assms] contents_card [OF assms] by (simp add: set_pop_def)
  next
    case False
    then have "set_used s \<noteq> 0" using contents_card [OF assms] by auto
    then obtain s' x where p: "mp_set_remove_first s = (s', Some x)" "good_set s'" "memb obj_ops s x"
      "\<forall>k'. memb obj_ops s' k' \<longleftrightarrow> memb obj_ops s k' \<and> \<not> kequal obj_ops x k'"
      using obj.sets.pop_law [OF assms] by (simp only: if_False) blast
    have "set_contents s' = set_contents s - {value_of x}"
      using p(4) unfolding memb_contents kequal_value by (intro contents_eqI) (metis insert_iff Diff_iff memb_contents singletonI singletonD empty_iff)
    then show ?thesis using False p by (simp add: set_pop_def memb_contents)
  qed
qed

text \<open>
  C28: The set algebra: the constructor, \<^verbatim>\<open>union\<close> (\<^verbatim>\<open>|\<close>), \<^verbatim>\<open>update\<close> with any number of arguments, \<^verbatim>\<open>intersection\<close> (\<^verbatim>\<open>&\<close>) and
  \<^verbatim>\<open>difference\<close> (\<^verbatim>\<open>-\<close>), in place or not, compute the operations on the sets of values. The difference
  of a set with itself is empty.
\<close>

theorem set_algebra_refines:
  assumes "good_set s"
  shows "(\<exists>s'. set_make_new obj_ops (Some items) = Inr s' \<and> good_set s' \<and> set_contents s' = value_of ` set items) \<and>
    (\<exists>s'. set_union obj_ops s items = Inr s' \<and> good_set s' \<and> set_contents s' = set_contents s \<union> value_of ` set items) \<and>
    (\<exists>s'. set_intersect_int obj_ops s (Iterable items) update = Inr s' \<and> good_set s' \<and>
       set_contents s' = set_contents s \<inter> value_of ` set items) \<and>
    (\<exists>s'. set_diff_int obj_ops s [Iterable items] update = Inr s' \<and> good_set s' \<and>
       set_contents s' = set_contents s - value_of ` set items) \<and>
    (\<exists>s'. set_diff_int obj_ops s [SameSet] update = Inr s' \<and> set_contents s' = {})"
proof (intro conjI)
  obtain s1 where s1: "set_make_new obj_ops (Some items) = Inr s1" "good_set s1"
    "\<forall>k'. memb obj_ops s1 k' \<longleftrightarrow> (\<exists>k \<in> set items. kequal obj_ops k k')" using obj.sets.make_new [of items] by blast
  moreover have "set_contents s1 = value_of ` set items"
    by (rule contents_eqI) (simp add: s1(3) kequal_image)
  ultimately show "\<exists>s'. set_make_new obj_ops (Some items) = Inr s' \<and> good_set s' \<and> set_contents s' = value_of ` set items" by blast
  obtain s2 where s2: "set_lookup_all obj_ops ADD_IF_NOT_FOUND s items = Inr s2" "good_set s2"
    "\<forall>k'. memb obj_ops s2 k' \<longleftrightarrow> memb obj_ops s k' \<or> (\<exists>k \<in> set items. kequal obj_ops k k')"
    using obj.sets.add_all [OF assms, of items] by blast
  moreover have "set_contents s2 = set_contents s \<union> value_of ` set items"
    by (rule contents_eqI) (use s2(3) in \<open>simp add: kequal_image memb_contents\<close>)
  ultimately show "\<exists>s'. set_union obj_ops s items = Inr s' \<and> good_set s' \<and> set_contents s' = set_contents s \<union> value_of ` set items"
    by (simp add: set_union_def set_update_int_def)
  obtain o0 where o0: "mp_obj_new_set obj_ops [] = Inr o0" "good_set o0" "\<forall>k'. \<not> memb obj_ops o0 k'"
    using obj.sets.new_set [of "[]"] by auto
  obtain s3 where s3: "set_intersect_loop obj_ops s o0 items = Inr s3" "good_set s3"
    "\<forall>k'. memb obj_ops s3 k' \<longleftrightarrow> memb obj_ops o0 k' \<or> (\<exists>k \<in> set items. memb obj_ops s k \<and> kequal obj_ops k k')"
    using obj.sets.intersect_loop [OF assms o0(2), of items] by blast
  have c3: "set_contents s3 = set_contents s \<inter> value_of ` set items"
  proof (rule contents_eqI)
    fix k
    have "memb obj_ops s3 k \<longleftrightarrow> (\<exists>x \<in> set items. value_of x \<in> set_contents s \<and> value_of x = value_of k)"
      using s3(3) o0(3) by (simp add: memb_contents [of s] kequal_value)
    then show "memb obj_ops s3 k \<longleftrightarrow> value_of k \<in> set_contents s \<inter> value_of ` set items"
      by (metis IntD1 IntD2 IntI imageE imageI)
  qed
  moreover have "set_intersect_int obj_ops s (Iterable items) update = Inr s3"
    using o0(1) s3(1) by (simp add: set_intersect_int_def)
  ultimately show "\<exists>s'. set_intersect_int obj_ops s (Iterable items) update = Inr s' \<and> good_set s' \<and>
      set_contents s' = set_contents s \<inter> value_of ` set items"
    using s3(2) by simp
  have diff: "\<exists>s'. set_lookup_all obj_ops REMOVE_IF_FOUND s ks = Inr s' \<and> good_set s' \<and>
      set_contents s' = set_contents s - value_of ` set ks" for ks
  proof -
    obtain s4 where s4: "set_lookup_all obj_ops REMOVE_IF_FOUND s ks = Inr s4" "good_set s4"
      "\<forall>k'. memb obj_ops s4 k' \<longleftrightarrow> memb obj_ops s k' \<and> \<not> (\<exists>k \<in> set ks. kequal obj_ops k k')"
      using obj.sets.remove_all [OF assms, of ks] by blast
    moreover have "set_contents s4 = set_contents s - value_of ` set ks"
      by (rule contents_eqI) (use s4(3) in \<open>simp add: kequal_image memb_contents\<close>)
    ultimately show ?thesis by blast
  qed
  show "\<exists>s'. set_diff_int obj_ops s [Iterable items] update = Inr s' \<and> good_set s' \<and>
       set_contents s' = set_contents s - value_of ` set items"
    using diff [of items] by (auto simp: set_diff_int_def)
  show "\<exists>s'. set_diff_int obj_ops s [SameSet] update = Inr s' \<and> set_contents s' = {}"
    using diff [of "set_elems s"]
    by (auto simp: set_diff_int_def set_clear_def) (auto simp: set_contents_def mp_set_clear_def set_elems_def List.map_filter_simps)
qed

text \<open>
  Symmetric difference toggles each object of its argument, so for an argument without
  repetitions, such as another set, it is the symmetric difference of the sets.
\<close>

theorem set_symmetric_difference_refines:
  assumes "good_set s" "distinct (map value_of other)"
  shows "\<exists>s'. set_symmetric_difference obj_ops s other = Inr s' \<and> good_set s' \<and>
    set_contents s' = (set_contents s - value_of ` set other) \<union> (value_of ` set other - set_contents s)"
proof -
  obtain s1 where s1: "set_lookup_all obj_ops ADD_IF_NOT_FOUND_OR_REMOVE_IF_FOUND s other = Inr s1" "good_set s1"
    "\<forall>k'. memb obj_ops s1 k' \<longleftrightarrow> (memb obj_ops s k' \<noteq> odd (length (filter (\<lambda>k. kequal obj_ops k k') other)))"
    using obj.sets.toggle_all [OF assms(1), of other] by blast
  have count: "length (filter (\<lambda>k. value_of k = w) other) = of_bool (w \<in> value_of ` set other)" for w
    using assms(2) by (induction other) auto
  have "set_contents s1 = (set_contents s - value_of ` set other) \<union> (value_of ` set other - set_contents s)"
  proof (rule contents_eqI)
    fix k
    show "memb obj_ops s1 k \<longleftrightarrow>
        value_of k \<in> (set_contents s - value_of ` set other) \<union> (value_of ` set other - set_contents s)"
      using s1(3) by (simp add: memb_contents [of s] kequal_value count) blast
  qed
  then show ?thesis using s1 by (simp add: set_symmetric_difference_def set_symmetric_difference_update_def)
qed

text \<open>
  With a repeated object in an iterable argument the result is not the symmetric difference: an
  even number of occurrences cancels out.
\<close>

lemma symmetric_difference_repetition:
  assumes "good_set s" "value_of k \<notin> set_contents s"
  shows "\<exists>s'. set_symmetric_difference obj_ops s [k, k] = Inr s' \<and> value_of k \<notin> set_contents s'"
proof -
  obtain s1 where s1: "set_lookup_all obj_ops ADD_IF_NOT_FOUND_OR_REMOVE_IF_FOUND s [k, k] = Inr s1"
    "\<forall>k'. memb obj_ops s1 k' \<longleftrightarrow> (memb obj_ops s k' \<noteq> odd (length (filter (\<lambda>k. kequal obj_ops k k') [k, k])))"
    using obj.sets.toggle_all [OF assms(1), of "[k, k]"] by blast
  have "\<not> memb obj_ops s1 k" using s1(2) assms(2) by (simp add: memb_contents kequal_value)
  then show ?thesis using s1(1)
    by (simp add: set_symmetric_difference_def set_symmetric_difference_update_def memb_contents)
qed

section \<open>Comparisons and hash\<close>

lemma operand_ok:
  assumes "\<And>s. x = SetObj s \<Longrightarrow> good_set s"
  shows "\<exists>s. operand_set obj_ops x = Inr s \<and> good_set s \<and>
    set_contents s = (case x of SetObj s \<Rightarrow> set_contents s | AnyIterable items \<Rightarrow> value_of ` set items)"
proof (cases x)
  case (SetObj s) then show ?thesis using assms by (simp add: operand_set_def)
next
  case (AnyIterable items)
  obtain s1 where s1: "set_make_new obj_ops (Some items) = Inr s1" "good_set s1"
    "\<forall>k'. memb obj_ops s1 k' \<longleftrightarrow> (\<exists>k \<in> set items. kequal obj_ops k k')" using obj.sets.make_new [of items] by blast
  have "set_contents s1 = value_of ` set items" by (rule contents_eqI) (simp add: s1(3) kequal_image)
  then show ?thesis using s1 AnyIterable by (simp add: operand_set_def)
qed

lemma subset_loop:
  "good_set t \<Longrightarrow> set_none_found obj_ops False t (set_elems s) = Inr (set_contents s \<subseteq> set_contents t)"
  using obj.sets.none_found [of t False "set_elems s"] by (auto simp: memb_contents set_contents_def [of s])

text \<open>
  The comparisons: \<^verbatim>\<open><=\<close> and \<^verbatim>\<open><\<close> (and \<^verbatim>\<open>issubset\<close> with an iterable on either side) decide inclusion and proper
  inclusion, \<^verbatim>\<open>==\<close> decides equality, \<^verbatim>\<open>isdisjoint\<close> disjointness.
\<close>

theorem set_comparisons_correct:
  assumes "good_set s" "good_set t"
  shows "set_issubset_internal obj_ops (SetObj s) (SetObj t) proper =
      Inr (if proper then set_contents s \<subset> set_contents t else set_contents s \<subseteq> set_contents t) \<and>
    set_issubset_internal obj_ops (SetObj s) (AnyIterable items) False = Inr (set_contents s \<subseteq> value_of ` set items) \<and>
    set_equal obj_ops s t = Inr (set_contents s = set_contents t) \<and>
    set_isdisjoint obj_ops s items = Inr (set_contents s \<inter> value_of ` set items = {})"
proof (intro conjI)
  have c: "set_used s = card (set_contents s)" "set_used t = card (set_contents t)"
    "finite (set_contents s)" "finite (set_contents t)" using contents_card assms by metis+
  have psub: "set_contents s \<subset> set_contents t \<longleftrightarrow> set_used s \<noteq> set_used t \<and> set_contents s \<subseteq> set_contents t"
    using c card_subset_eq [of "set_contents t" "set_contents s"] psubset_card_mono [of "set_contents t" "set_contents s"] by auto
  then show "set_issubset_internal obj_ops (SetObj s) (SetObj t) proper =
      Inr (if proper then set_contents s \<subset> set_contents t else set_contents s \<subseteq> set_contents t)"
    using subset_loop [OF assms(2), of s] by (simp add: set_issubset_internal_def operand_set_def)
  show "set_equal obj_ops s t = Inr (set_contents s = set_contents t)"
    using subset_loop [OF assms(2), of s] c psub
    by (auto simp: set_equal_def set_issubset_internal_def operand_set_def)
  obtain u where u: "operand_set obj_ops (AnyIterable items) = Inr u" "good_set u" "set_contents u = value_of ` set items"
    using operand_ok [of "AnyIterable items"] by auto
  then show "set_issubset_internal obj_ops (SetObj s) (AnyIterable items) False = Inr (set_contents s \<subseteq> value_of ` set items)"
    using subset_loop [OF u(2), of s] by (simp add: set_issubset_internal_def) (simp add: operand_set_def)
  show "set_isdisjoint obj_ops s items = Inr (set_contents s \<inter> value_of ` set items = {})"
    using obj.sets.none_found [OF assms(1), of True items] by (auto simp: set_isdisjoint_def memb_contents)
qed

lemma fold_s32:
  "s32 (fold (\<lambda>k hash. s32 (hash + f k)) ks (s32 a)) = s32 (a + sum_list (map f ks))"
proof (induction ks arbitrary: a)
  case Nil
  have "s32 (s32 a) = s32 a" using s32_range [of a] by (simp add: wrap_simps)
  then show ?case by simp
next
  case (Cons k ks)
  have "s32 (s32 a + f k) = s32 (a + f k)" by (simp add: s32_def mod_simps ac_simps)
  then show ?case using Cons.IH [of "a + f k"] by (simp add: add.assoc)
qed

text \<open>
  C29: Equal frozen sets have equal hashes, whatever the insertion order, the size of the tables and the
  deleted slots in them.
\<close>

theorem frozenset_hash_respects_equality:
  assumes "good_set s" "good_set t" "set_contents s = set_contents t"
  shows "frozenset_hash obj_ops addr s = frozenset_hash obj_ops addr t"
proof -
  define h where "h w = small_int_value (int (case w of IntValue i \<Rightarrow> nat (i mod 2 ^ 32) | StrValue x \<Rightarrow> qstr_compute_hash x))" for w
  have kh: "small_int_value (int (khash obj_ops k)) = h (value_of k)" for k
    by (simp add: obj_ops_def mp_obj_hash_value h_def)
  have sum: "sum_list (map (\<lambda>k. h (value_of k)) (set_elems u)) = sum h (set_contents u)" if "good_set u" for u
    using sum.distinct_set_conv_list [OF elems_distinct [OF that], of h] by (simp add: set_contents_def comp_def)
  have "s32 (fold (\<lambda>k hash. s32 (hash + h (value_of k))) (set_elems s) (s32 addr)) =
        s32 (fold (\<lambda>k hash. s32 (hash + h (value_of k))) (set_elems t) (s32 addr))"
    using sum assms by (simp add: fold_s32)
  moreover have "s32 (fold (\<lambda>k hash. s32 (hash + h (value_of k))) ks (s32 addr)) =
      fold (\<lambda>k hash. s32 (hash + h (value_of k))) ks (s32 addr)" for ks
  proof -
    have "- (2 ^ 31) \<le> fold (\<lambda>k hash. s32 (hash + h (value_of k))) ks (s32 a) \<and>
        fold (\<lambda>k hash. s32 (hash + h (value_of k))) ks (s32 a) < 2 ^ 31" for a
      by (induction ks arbitrary: a) (use s32_range in auto)
    then show ?thesis by (simp add: wrap_simps)
  qed
  ultimately show ?thesis by (simp add: frozenset_hash_def kh)
qed

section \<open>Witnesses\<close>

definition sample_set :: "mp_obj mp_set" where
  "sample_set = projr (set_make_new obj_ops (Some [SmallInt 1, Qstr [97], SmallInt 7]))"

lemma sample_set_facts: "good_set sample_set" "set_contents sample_set = {IntValue 1, StrValue [97], IntValue 7}"
proof -
  obtain s1 where s1: "set_make_new obj_ops (Some [SmallInt 1, Qstr [97], SmallInt 7]) = Inr s1" "good_set s1"
    "\<forall>k'. memb obj_ops s1 k' \<longleftrightarrow> (\<exists>k \<in> set [SmallInt 1, Qstr [97], SmallInt 7]. kequal obj_ops k k')"
    using obj.sets.make_new by blast
  have "set_contents s1 = value_of ` set [SmallInt 1, Qstr [97], SmallInt 7]"
    by (rule contents_eqI) (simp only: s1(3) kequal_image)
  then show "good_set sample_set" "set_contents sample_set = {IntValue 1, StrValue [97], IntValue 7}"
    using s1(1,2) by (simp_all add: sample_set_def)
qed

theorem set_element_ops_refine_witness:
  "set_used sample_set = 3 \<and> set_remove obj_ops sample_set (SmallInt 2) = Inl SetKeyError \<and>
   (\<exists>s'. set_add obj_ops sample_set (Str 64 False [98]) = Inr s' \<and> set_contents s' = insert (StrValue [98]) (set_contents sample_set))"
proof (intro conjI)
  note a = set_element_ops_refine [OF sample_set_facts(1), of "SmallInt 2"]
    and b = set_element_ops_refine [OF sample_set_facts(1), of "Str 64 False [98]"]
  show "set_used sample_set = 3" using a [THEN conjunct1] by (simp add: sample_set_facts(2))
  show "set_remove obj_ops sample_set (SmallInt 2) = Inl SetKeyError"
    using a [THEN conjunct2, THEN conjunct2, THEN conjunct2, THEN conjunct1] by (simp add: sample_set_facts(2))
  show "\<exists>s'. set_add obj_ops sample_set (Str 64 False [98]) = Inr s' \<and> set_contents s' = insert (StrValue [98]) (set_contents sample_set)"
    using b [THEN conjunct2, THEN conjunct1] by auto
qed

theorem set_algebra_refines_witness:
  "\<exists>s'. set_intersect_int obj_ops sample_set (Iterable [SmallInt 7, SmallInt 8]) True = Inr s' \<and> set_contents s' = {IntValue 7}"
  using set_algebra_refines [OF sample_set_facts(1), of "[SmallInt 7, SmallInt 8]" True] by (auto simp: sample_set_facts(2))

theorem set_symmetric_difference_refines_witness:
  "\<exists>s'. set_symmetric_difference obj_ops sample_set [SmallInt 7, SmallInt 8] = Inr s' \<and>
     set_contents s' = {IntValue 1, StrValue [97], IntValue 8}"
  using set_symmetric_difference_refines [OF sample_set_facts(1), of "[SmallInt 7, SmallInt 8]"]
  by (auto simp: sample_set_facts(2))

theorem set_comparisons_correct_witness:
  "set_issubset_internal obj_ops (SetObj sample_set) (SetObj sample_set) True = Inr False \<and>
   set_equal obj_ops sample_set sample_set = Inr True \<and> set_isdisjoint obj_ops sample_set [SmallInt 5] = Inr True"
  using set_comparisons_correct [OF sample_set_facts(1) sample_set_facts(1), of True "[SmallInt 5]"]
  by (simp add: sample_set_facts(2))

theorem frozenset_hash_respects_equality_witness:
  "frozenset_hash obj_ops 0 sample_set = frozenset_hash obj_ops 0 (projr (set_make_new obj_ops (Some (set_elems sample_set))))"
proof -
  obtain s1 where s1: "set_make_new obj_ops (Some (set_elems sample_set)) = Inr s1" "good_set s1"
    "\<forall>k'. memb obj_ops s1 k' \<longleftrightarrow> (\<exists>k \<in> set (set_elems sample_set). kequal obj_ops k k')"
    using obj.sets.make_new by blast
  have "set_contents s1 = set_contents sample_set"
    by (rule contents_eqI) (simp only: s1(3) kequal_image set_contents_def)
  then show ?thesis using frozenset_hash_respects_equality [OF sample_set_facts(1) s1(2)] s1(1) by simp
qed

end
