(* ===== verification/Simulation.thy ===== *)
theory Simulation
  imports Prelude
begin

text \<open>
  Refinement of an abstract object by a concrete one over sequences of commands, the contract that lists and string
  buffers share.
\<close>

text \<open>Commands in sequence, each with an output.\<close>

fun run_cmds :: "('s \<Rightarrow> 'c \<Rightarrow> 'o \<times> 's) \<Rightarrow> 's \<Rightarrow> 'c list \<Rightarrow> 'o list \<times> 's" where
  "run_cmds exec s [] = ([], s)"
| "run_cmds exec s (c # cs) = (let (out, s) = exec s c; (outs, s) = run_cmds exec s cs in (out # outs, s))"

text \<open>
  A concrete object that simulates an abstract one as long as the abstract one stays below a limit, and how far each
  command may make it grow.
\<close>

locale bounded_simulation =
  fixes rep :: "'s \<Rightarrow> 'a \<Rightarrow> bool" and concrete :: "'s \<Rightarrow> 'c \<Rightarrow> 'o \<times> 's" and abstract :: "'a \<Rightarrow> 'c \<Rightarrow> 'o \<times> 'a"
    and cmd_ok :: "'c \<Rightarrow> bool" and weight :: "'a \<Rightarrow> nat" and grow :: "'c \<Rightarrow> nat" and limit :: nat
  assumes step_rep: "rep s a \<Longrightarrow> cmd_ok c \<Longrightarrow> weight a + grow c < limit \<Longrightarrow>
      fst (concrete s c) = fst (abstract a c) \<and> rep (snd (concrete s c)) (snd (abstract a c))"
    and step_weight: "cmd_ok c \<Longrightarrow> weight (snd (abstract a c)) \<le> weight a + grow c"
begin

lemma run_rep:
  assumes "rep s a" "\<forall>c \<in> set cs. cmd_ok c" "weight a + sum_list (map grow cs) < limit"
  shows "fst (run_cmds concrete s cs) = fst (run_cmds abstract a cs) \<and> rep (snd (run_cmds concrete s cs)) (snd (run_cmds abstract a cs))"
  using assms
proof (induction cs arbitrary: s a)
  case (Cons c cs)
  have "fst (concrete s c) = fst (abstract a c)" and r: "rep (snd (concrete s c)) (snd (abstract a c))"
    using step_rep [OF Cons.prems(1), of c] Cons.prems(2,3) by auto
  moreover have "weight (snd (abstract a c)) \<le> weight a + grow c" using step_weight Cons.prems(2) by simp
  then have "weight (snd (abstract a c)) + sum_list (map grow cs) < limit" using Cons.prems(3) by simp
  ultimately show ?case using Cons.IH [OF r] Cons.prems(2) by (simp add: case_prod_beta)
qed simp

end

end
