(* ===== verification/Quicksort.thy ===== *)
theory Quicksort
  imports Prelude "HOL-Library.Multiset"
begin

text \<open>
  The sort of lists, \<^verbatim>\<open>mp_quicksort\<close> of \<^verbatim>\<open>py/objlist.c\<close>. Pointers into the array are indices, which may
  be one below the array. The parameter \<open>before a b\<close> is the test of the code, that the comparison of the keys of \<open>a\<close> and
  \<open>b\<close> by \<^verbatim>\<open>MP_BINARY_OP_LESS\<close> gives \<^verbatim>\<open>binop_less_result\<close>.
\<close>

section \<open>Definitions\<close>

definition swap :: "'a list \<Rightarrow> int \<Rightarrow> int \<Rightarrow> 'a list" where
  "swap xs i j = xs[nat i := xs ! nat j, nat j := xs ! nat i]"

function scan_up :: "('a \<Rightarrow> 'a \<Rightarrow> bool) \<Rightarrow> 'a \<Rightarrow> 'a list \<Rightarrow> int \<Rightarrow> int \<Rightarrow> int" where
  "scan_up before v xs h t = (let h = h + 1 in if h < t \<and> before (xs ! nat h) v then scan_up before v xs h t else h)"
  by auto
termination by (relation "measure (\<lambda>(before, v, xs, h, t). nat (t - h))") auto

function scan_down :: "('a \<Rightarrow> 'a \<Rightarrow> bool) \<Rightarrow> 'a \<Rightarrow> 'a list \<Rightarrow> int \<Rightarrow> int \<Rightarrow> int" where
  "scan_down before v xs h t = (let t = t - 1 in if h < t \<and> before v (xs ! nat t) then scan_down before v xs h t else t)"
  by auto
termination by (relation "measure (\<lambda>(before, v, xs, h, t). nat (t - h))") auto

declare scan_up.simps [simp del] scan_down.simps [simp del]

lemma scan_up_spec:
  assumes "h < t"
  shows "h < scan_up before v xs h t \<and> scan_up before v xs h t \<le> t \<and>
    (\<forall>i. h < i \<and> i < scan_up before v xs h t \<longrightarrow> before (xs ! nat i) v) \<and>
    (scan_up before v xs h t < t \<longrightarrow> \<not> before (xs ! nat (scan_up before v xs h t)) v)"
  using assms
proof (induction before v xs h t rule: scan_up.induct)
  case (1 before v xs h t)
  show ?case
  proof (cases "h + 1 < t \<and> before (xs ! nat (h + 1)) v")
    case True
    then have e: "scan_up before v xs h t = scan_up before v xs (h + 1) t" by (subst scan_up.simps) (simp add: Let_def)
    have s: "i = h + 1 \<or> h + 1 < i" if "h < i" for i using that by linarith
    show ?thesis unfolding e using 1(1) [OF refl True] True s by force
  next
    case False
    then have "scan_up before v xs h t = h + 1" by (subst scan_up.simps) (auto simp: Let_def)
    then show ?thesis using False 1(2) by auto
  qed
qed

lemma scan_down_spec:
  assumes "h \<le> t"
  shows "scan_down before v xs h t < t \<and> h - 1 \<le> scan_down before v xs h t \<and> (h < t \<longrightarrow> h \<le> scan_down before v xs h t) \<and>
    (\<forall>i. scan_down before v xs h t < i \<and> i < t \<longrightarrow> before v (xs ! nat i)) \<and>
    (h < scan_down before v xs h t \<longrightarrow> \<not> before v (xs ! nat (scan_down before v xs h t)))"
  using assms
proof (induction before v xs h t rule: scan_down.induct)
  case (1 before v xs h t)
  show ?case
  proof (cases "h < t - 1 \<and> before v (xs ! nat (t - 1))")
    case True
    then have e: "scan_down before v xs h t = scan_down before v xs h (t - 1)" by (subst scan_down.simps) (simp add: Let_def)
    have s: "i = t - 1 \<or> i < t - 1" if "i < t" for i using that by linarith
    show ?thesis unfolding e using 1(1) [OF refl True] True s by force
  next
    case False
    then have "scan_down before v xs h t = t - 1" by (subst scan_down.simps) (auto simp: Let_def)
    then show ?thesis using False 1(2) by auto
  qed
qed

lemma scan_progress: "h < scan_up before v xs h t" "scan_down before v xs h t < t"
proof -
  show "h < scan_up before v xs h t"
    by (induction before v xs h t rule: scan_up.induct) (subst scan_up.simps, auto simp: Let_def)
  show "scan_down before v xs h t < t"
    by (induction before v xs h t rule: scan_down.induct) (subst scan_down.simps, auto simp: Let_def)
qed

text \<open>The inner loop: the array and the two pointers where it ends.\<close>

function part :: "('a \<Rightarrow> 'a \<Rightarrow> bool) \<Rightarrow> 'a \<Rightarrow> 'a list \<Rightarrow> int \<Rightarrow> int \<Rightarrow> 'a list \<times> int \<times> int" where
  "part before v xs h t =
     (let h' = scan_up before v xs h t; t' = scan_down before v xs h' t
      in if h' \<ge> t' then (xs, h', t') else part before v (swap xs h' t') h' t')"
  by auto
termination
proof (relation "measure (\<lambda>(before, v, xs, h, t). nat (t - h))", goal_cases)
  case (2 before v xs h t h' t')
  then show ?case using scan_progress(1) [of h before v xs t] scan_progress(2) [of before v xs h' t] by auto
qed auto

declare part.simps [simp del]

section \<open>The partition\<close>

lemma swap_simps [simp]: "length (swap xs i j) = length xs"
  by (simp add: swap_def)

lemma swap_nth:
  assumes "0 \<le> i" "0 \<le> j" "i < int (length xs)" "j < int (length xs)" "0 \<le> k"
  shows "swap xs i j ! nat k = (if k = i then xs ! nat j else if k = j then xs ! nat i else xs ! nat k)"
  using assms by (auto simp: swap_def nth_list_update eq_nat_nat_iff)

lemma swap_mset: "0 \<le> i \<Longrightarrow> 0 \<le> j \<Longrightarrow> i < int (length xs) \<Longrightarrow> j < int (length xs) \<Longrightarrow> mset (swap xs i j) = mset xs"
  unfolding swap_def by (rule mset_swap) simp_all

definition before_eq :: "('a \<Rightarrow> 'a \<Rightarrow> bool) \<Rightarrow> 'a \<Rightarrow> 'a \<Rightarrow> bool" where
  "before_eq before x y \<longleftrightarrow> before x y \<or> \<not> before y x"

lemma part_correct:
  assumes "- 1 \<le> h" "h < t" "t < int (length xs)" "part before v xs h t = (ys, h', t')"
  shows "length ys = length xs \<and> mset ys = mset xs \<and> (\<forall>i. 0 \<le> i \<and> (i \<le> h \<or> t \<le> i) \<longrightarrow> ys ! nat i = xs ! nat i) \<and>
    h < h' \<and> h' \<le> t \<and> t' \<le> h' \<and> h' - 1 \<le> t' \<and> t' < t \<and>
    (\<forall>i. h < i \<and> i < h' \<longrightarrow> before_eq before (ys ! nat i) v) \<and> (\<forall>i. h' \<le> i \<and> i < t \<longrightarrow> before_eq before v (ys ! nat i))"
  using assms
proof (induction before v xs h t arbitrary: ys h' t' rule: part.induct)
  case (1 before v xs h t)
  define a where "a = scan_up before v xs h t"
  define b where "b = scan_down before v xs a t"
  note up = scan_up_spec [OF 1(3), of before v xs, folded a_def]
  have "a \<le> t" using up by simp
  note down = scan_down_spec [OF this, of before v xs, folded b_def]
  show ?case
  proof (cases "b \<le> a")
    case True
    then have r: "ys = xs" "h' = a" "t' = b" using 1(5) by (auto simp: part.simps [of before v xs h t] a_def b_def Let_def)
    have "before_eq before v (xs ! nat i)" if "a \<le> i" "i < t" for i
    proof (cases "i = a")
      case True
      then show ?thesis using up that by (simp add: before_eq_def)
    next
      case False
      then have "b < i" using that \<open>b \<le> a\<close> by simp
      then show ?thesis using down that by (simp add: before_eq_def)
    qed
    then show ?thesis using up down True unfolding r by (auto simp: before_eq_def)
  next
    case False
    let ?ys = "swap xs a b"
    have r: "part before v ?ys a b = (ys, h', t')"
      using 1(5) False by (simp add: part.simps [of before v xs h t] a_def b_def Let_def)
    have rng: "0 \<le> a" "0 \<le> b" "a < int (length xs)" "b < int (length xs)" using up down 1(2,4) False by auto
    have ih: "length ys = length ?ys \<and> mset ys = mset ?ys \<and> (\<forall>i. 0 \<le> i \<and> (i \<le> a \<or> b \<le> i) \<longrightarrow> ys ! nat i = ?ys ! nat i) \<and>
      a < h' \<and> h' \<le> b \<and> t' \<le> h' \<and> h' - 1 \<le> t' \<and> t' < b \<and>
      (\<forall>i. a < i \<and> i < h' \<longrightarrow> before_eq before (ys ! nat i) v) \<and> (\<forall>i. h' \<le> i \<and> i < b \<longrightarrow> before_eq before v (ys ! nat i))"
      by (rule 1(1) [OF a_def b_def]) (use False rng r in auto)
    have out: "ys ! nat i = (if i = a then xs ! nat b else if i = b then xs ! nat a else xs ! nat i)" if "0 \<le> i" "i \<le> a \<or> b \<le> i" for i
      using ih swap_nth [OF rng that(1)] that by simp
    have l: "before_eq before (ys ! nat i) v" if "h < i" "i < h'" for i
    proof -
      consider "i < a" | "i = a" | "a < i" by linarith
      then show ?thesis
      proof cases
        case 1 then show ?thesis using out [of i] up that \<open>- 1 \<le> h\<close> False by (simp add: before_eq_def)
      next
        case 2 then show ?thesis using out [of i] down rng False by (simp add: before_eq_def)
      qed (use ih that in blast)
    qed
    have g: "before_eq before v (ys ! nat i)" if "h' \<le> i" "i < t" for i
    proof -
      consider "i < b" | "i = b" | "b < i" by linarith
      then show ?thesis
      proof cases
        case 2 then show ?thesis using out [of i] up down rng False by (simp add: before_eq_def)
      next
        case 3 then show ?thesis using out [of i] down that rng False by (simp add: before_eq_def)
      qed (use ih that in blast)
    qed
    have "mset ys = mset xs" using ih swap_mset [OF rng] by simp
    moreover have "\<forall>i. 0 \<le> i \<and> (i \<le> h \<or> t \<le> i) \<longrightarrow> ys ! nat i = xs ! nat i" using out up down False by auto
    ultimately show ?thesis using ih l g up down by auto
  qed
qed

text \<open>
  The outer loop and the recursive call. Each call makes the recursive call on the smaller part and goes on
  with the larger one.
\<close>

definition quicksort_partition :: "('a \<Rightarrow> 'a \<Rightarrow> bool) \<Rightarrow> 'a list \<Rightarrow> int \<Rightarrow> int \<Rightarrow> 'a list \<times> int \<times> int" where
  "quicksort_partition before xs head tail =
     (case part before (xs ! nat tail) xs (head - 1) tail of (xs, h, t) \<Rightarrow> (swap xs h tail, h, t))"

lemma part_bounds:
  assumes "h < t" "part before v xs h t = (ys, h', t')"
  shows "h < h' \<and> h' \<le> t \<and> t' < t \<and> t' \<le> h' \<and> h' - 1 \<le> t'"
  using assms
proof (induction before v xs h t arbitrary: ys h' t' rule: part.induct)
  case (1 before v xs h t)
  define a where "a = scan_up before v xs h t"
  define b where "b = scan_down before v xs a t"
  have ab: "h < a" "a \<le> t" "b < t" "a - 1 \<le> b" 
    using scan_up_spec [OF 1(2), of before v xs, folded a_def] scan_down_spec [of a t before v xs, folded b_def] by auto
  show ?case
  proof (cases "b \<le> a")
    case True
    then show ?thesis using 1(3) ab by (auto simp: part.simps [of before v xs h t] a_def b_def Let_def)
  next
    case False
    then have "part before v (swap xs a b) a b = (ys, h', t')" using 1(3) by (simp add: part.simps [of before v xs h t] a_def b_def Let_def)
    then show ?thesis using 1(1) [OF a_def b_def] False ab by fastforce
  qed
qed

lemma partition_bounds:
  assumes "head < tail" "quicksort_partition before xs head tail = (ys, h, t)"
  shows "head \<le> h" "h \<le> tail" "t < tail" "t \<le> h" "h - 1 \<le> t"
  using part_bounds [of "head - 1" tail before "xs ! nat tail" xs] assms by (auto simp: quicksort_partition_def split: prod.splits)

function mp_quicksort :: "('a \<Rightarrow> 'a \<Rightarrow> bool) \<Rightarrow> 'a list \<Rightarrow> int \<Rightarrow> int \<Rightarrow> 'a list" where
  "mp_quicksort before xs head tail =
     (if head < tail
      then let (xs, h, t) = quicksort_partition before xs head tail
           in if t - head < tail - h - 1
              then mp_quicksort before (mp_quicksort before xs head t) (h + 1) tail
              else mp_quicksort before (mp_quicksort before xs (h + 1) tail) head t
      else xs)"
  by auto
termination
  by (relation "measure (\<lambda>(before, xs, head, tail). nat (tail - head))") (auto dest: partition_bounds [OF _ sym])

text \<open>The number of nested calls below a call.\<close>

function quicksort_depth :: "('a \<Rightarrow> 'a \<Rightarrow> bool) \<Rightarrow> 'a list \<Rightarrow> int \<Rightarrow> int \<Rightarrow> nat" where
  "quicksort_depth before xs head tail =
     (if head < tail
      then let (xs, h, t) = quicksort_partition before xs head tail
           in if t - head < tail - h - 1
              then max (1 + quicksort_depth before xs head t) (quicksort_depth before (mp_quicksort before xs head t) (h + 1) tail)
              else max (1 + quicksort_depth before xs (h + 1) tail) (quicksort_depth before (mp_quicksort before xs (h + 1) tail) head t)
      else 0)"
  by auto
termination
  by (relation "measure (\<lambda>(before, xs, head, tail). nat (tail - head))") (auto dest: partition_bounds [OF _ sym])

declare mp_quicksort.simps [simp del] quicksort_depth.simps [simp del]

section \<open>Correctness\<close>

lemma partition_correct:
  assumes "0 \<le> head" "head < tail" "tail < int (length xs)" "quicksort_partition before xs head tail = (ys, h, t)"
  shows "length ys = length xs \<and> mset ys = mset xs \<and> (\<forall>i. 0 \<le> i \<and> (i < head \<or> tail < i) \<longrightarrow> ys ! nat i = xs ! nat i) \<and>
    (\<forall>i. head \<le> i \<and> i < h \<longrightarrow> before_eq before (ys ! nat i) (ys ! nat h)) \<and>
    (\<forall>i. h < i \<and> i \<le> tail \<longrightarrow> before_eq before (ys ! nat h) (ys ! nat i))"
proof -
  define v where "v = xs ! nat tail"
  obtain zs where p: "part before v xs (head - 1) tail = (zs, h, t)" and ys: "ys = swap zs h tail"
    using assms(4) by (auto simp: quicksort_partition_def v_def split: prod.splits)
  have pc: "length zs = length xs \<and> mset zs = mset xs \<and> (\<forall>i. 0 \<le> i \<and> (i \<le> head - 1 \<or> tail \<le> i) \<longrightarrow> zs ! nat i = xs ! nat i) \<and>
    head - 1 < h \<and> h \<le> tail \<and> t \<le> h \<and> h - 1 \<le> t \<and> t < tail \<and>
    (\<forall>i. head - 1 < i \<and> i < h \<longrightarrow> before_eq before (zs ! nat i) v) \<and> (\<forall>i. h \<le> i \<and> i < tail \<longrightarrow> before_eq before v (zs ! nat i))"
    by (rule part_correct [OF _ _ _ p]) (use assms in auto)
  then have rng: "0 \<le> h" "0 \<le> tail" "h < int (length zs)" "tail < int (length zs)" using assms by auto
  have nth: "ys ! nat i = (if i = h then v else if i = tail then zs ! nat h else zs ! nat i)" if "0 \<le> i" for i
    using swap_nth [OF rng that] pc assms rng by (simp add: ys v_def)
  have "mset ys = mset xs" using swap_mset [OF rng] pc by (simp add: ys)
  moreover have "\<forall>i. 0 \<le> i \<and> (i < head \<or> tail < i) \<longrightarrow> ys ! nat i = xs ! nat i" using nth pc by auto
  moreover have "before_eq before (ys ! nat i) (ys ! nat h)" if "head \<le> i" "i < h" for i
    using nth [of i] nth [of h] pc that assms(1) rng by auto
  moreover have "before_eq before (ys ! nat h) (ys ! nat i)" if "h < i" "i \<le> tail" for i
    using nth [of i] nth [of h] pc that rng by auto
  ultimately show ?thesis using pc by (simp add: ys)
qed

text \<open>What a permutation of a segment keeps.\<close>

definition permutes :: "'a list \<Rightarrow> 'a list \<Rightarrow> int \<Rightarrow> int \<Rightarrow> bool" where
  "permutes xs ys head tail \<longleftrightarrow> length ys = length xs \<and> mset ys = mset xs \<and>
     (\<forall>i. 0 \<le> i \<and> (i < head \<or> tail < i) \<longrightarrow> ys ! nat i = xs ! nat i)"

lemma permutes_trans: "permutes xs ys a b \<Longrightarrow> permutes ys zs a b \<Longrightarrow> permutes xs zs a b"
  by (simp add: permutes_def)

lemma permutes_widen: "permutes xs ys a b \<Longrightarrow> a' \<le> a \<Longrightarrow> b \<le> b' \<Longrightarrow> permutes xs ys a' b'"
  by (auto simp: permutes_def)

lemma permutes_segment:
  assumes p: "permutes xs ys a b" and r: "0 \<le> a" "a \<le> b" "b < int (length xs)"
    and P: "\<forall>i. a \<le> i \<and> i \<le> b \<longrightarrow> P (xs ! nat i)"
  shows "\<forall>i. a \<le> i \<and> i \<le> b \<longrightarrow> P (ys ! nat i)"
proof -
  let ?seg = "\<lambda>zs. take (nat b + 1 - nat a) (drop (nat a) zs)"
  have split: "mset zs = mset (take (nat a) zs) + mset (?seg zs) + mset (drop (nat b + 1) zs)" if "length zs = length xs" for zs :: "'a list"
  proof -
    have "zs = take (nat a) zs @ ?seg zs @ drop (nat b + 1) zs"
      using r that by (metis append_take_drop_id drop_drop le_add_diff_inverse2 nat_mono trans_le_add1)
    then show ?thesis by (metis mset_append union_assoc)
  qed
  have len: "length ys = length xs" "mset ys = mset xs" using p by (auto simp: permutes_def)
  have out: "ys ! i = xs ! i" if "i < nat a \<or> nat b < i" for i
    using p that r by (auto simp: permutes_def dest: spec [of _ "int i"])
  have "take (nat a) ys = take (nat a) xs" "drop (nat b + 1) ys = drop (nat b + 1) xs"
    using out len by (auto intro!: nth_equalityI)
  then have "mset (?seg ys) = mset (?seg xs)" using split [of xs] split [of ys] len by simp
  then have seg: "set (?seg ys) = set (?seg xs)" by (rule mset_eq_setD)
  have mem: "zs ! nat i \<in> set (?seg zs)" if "a \<le> i" "i \<le> b" "length zs = length xs" for i and zs :: "'a list"
    using that r by (auto simp: in_set_conv_nth intro!: exI [of _ "nat i - nat a"])
  have orig: "\<exists>i. a \<le> i \<and> i \<le> b \<and> x = xs ! nat i" if "x \<in> set (?seg xs)" for x
  proof -
    have "\<exists>k < length (?seg xs). ?seg xs ! k = x" using that unfolding in_set_conv_nth .
    then obtain k where "k < length (?seg xs)" "?seg xs ! k = x" by blast
    then show ?thesis using r by (intro exI [of _ "a + int k"]) (auto simp: nat_add_distrib)
  qed
  show ?thesis using mem [of _ ys] len seg orig P by metis
qed

lemma permutes_two:
  assumes p: "permutes xs ys a b" "permutes ys zs c d" and r: "0 \<le> a" "0 \<le> c" "b < int (length xs)" "d < int (length xs)" "b < c \<or> d < a"
  shows "(\<forall>i. a \<le> i \<and> i \<le> b \<longrightarrow> P (xs ! nat i)) \<Longrightarrow> (\<forall>i. a \<le> i \<and> i \<le> b \<longrightarrow> P (zs ! nat i))"
    "(\<forall>i. c \<le> i \<and> i \<le> d \<longrightarrow> Q (xs ! nat i)) \<Longrightarrow> (\<forall>i. c \<le> i \<and> i \<le> d \<longrightarrow> Q (zs ! nat i))"
    "0 \<le> i \<Longrightarrow> i < a \<or> b < i \<Longrightarrow> i < c \<or> d < i \<Longrightarrow> zs ! nat i = xs ! nat i"
proof -
  have seg: "\<forall>i. a \<le> i \<and> i \<le> b \<longrightarrow> P (ys ! nat i)" if "permutes xs ys a b" "0 \<le> a" "b < int (length xs)"
    "\<forall>i. a \<le> i \<and> i \<le> b \<longrightarrow> P (xs ! nat i)" for xs ys :: "'a list" and a b P
    using permutes_segment [OF that(1,2) _ that(3,4)] by (cases "a \<le> b") auto
  have o1: "ys ! nat i = xs ! nat i" if "0 \<le> i" "i < a \<or> b < i" for i using p(1) that by (simp add: permutes_def)
  have o2: "zs ! nat i = ys ! nat i" if "0 \<le> i" "i < c \<or> d < i" for i using p(2) that by (simp add: permutes_def)
  have len: "length ys = length xs" using p(1) by (simp add: permutes_def)
  show "\<forall>i. a \<le> i \<and> i \<le> b \<longrightarrow> P (zs ! nat i)" if "\<forall>i. a \<le> i \<and> i \<le> b \<longrightarrow> P (xs ! nat i)"
    using seg [OF p(1) r(1,3) that] o2 r(1,5) by auto
  have "\<forall>i. c \<le> i \<and> i \<le> d \<longrightarrow> Q (ys ! nat i)" if "\<forall>i. c \<le> i \<and> i \<le> d \<longrightarrow> Q (xs ! nat i)"
    using that o1 r(2,5) by auto
  then show "\<forall>i. c \<le> i \<and> i \<le> d \<longrightarrow> Q (zs ! nat i)" if "\<forall>i. c \<le> i \<and> i \<le> d \<longrightarrow> Q (xs ! nat i)"
    using seg [OF p(2) r(2)] r(4) len that by auto
  show "zs ! nat i = xs ! nat i" if "0 \<le> i" "i < a \<or> b < i" "i < c \<or> d < i" using o1 o2 that by simp
qed

lemma permutes_set: "permutes xs ys a b \<Longrightarrow> set ys = set xs"
  by (auto simp: permutes_def dest: mset_eq_setD)

lemma quicksort_permutes:
  assumes "0 \<le> head" "tail < int (length xs)"
  shows "permutes xs (mp_quicksort before xs head tail) head tail"
  using assms
proof (induction before xs head tail rule: mp_quicksort.induct)
  case (1 before xs head tail)
  show ?case
  proof (cases "head < tail")
    case False
    then show ?thesis by (simp add: mp_quicksort.simps permutes_def)
  next
    case True
    obtain ys h t where p: "quicksort_partition before xs head tail = (ys, h, t)" by (metis prod_cases3)
    note b = partition_bounds [OF True p]
    have py: "permutes xs ys head tail" using partition_correct [OF 1(5) True 1(6) p] by (simp add: permutes_def)
    then have len: "length ys = length xs" by (simp add: permutes_def)
    show ?thesis
    proof (cases "t - head < tail - h - 1")
      case small: True
      have q1: "permutes ys (mp_quicksort before ys head t) head t"
        by (rule 1(1) [OF True p [symmetric] refl refl small]) (use 1 b len in auto)
      then have q2: "permutes (mp_quicksort before ys head t) (mp_quicksort before (mp_quicksort before ys head t) (h + 1) tail) (h + 1) tail"
        by (intro 1(2) [OF True p [symmetric] refl refl small]) (use 1 b len in \<open>auto simp: permutes_def\<close>)
      have "mp_quicksort before xs head tail = mp_quicksort before (mp_quicksort before ys head t) (h + 1) tail"
        using True p small by (simp add: mp_quicksort.simps [of before xs head tail])
      then show ?thesis using py permutes_widen [OF q1, of head tail] permutes_widen [OF q2, of head tail] b permutes_trans by simp blast
    next
      case large: False
      have q1: "permutes ys (mp_quicksort before ys (h + 1) tail) (h + 1) tail"
        by (rule 1(3) [OF True p [symmetric] refl refl large]) (use 1 b len in auto)
      then have q2: "permutes (mp_quicksort before ys (h + 1) tail) (mp_quicksort before (mp_quicksort before ys (h + 1) tail) head t) head t"
        by (intro 1(4) [OF True p [symmetric] refl refl large]) (use 1 b len in \<open>auto simp: permutes_def\<close>)
      have "mp_quicksort before xs head tail = mp_quicksort before (mp_quicksort before ys (h + 1) tail) head t"
        using True p large by (simp add: mp_quicksort.simps [of before xs head tail])
      then show ?thesis using py permutes_widen [OF q1, of head tail] permutes_widen [OF q2, of head tail] b permutes_trans by simp blast
    qed
  qed
qed

section \<open>Stack depth\<close>

text \<open>The comment of the code, that the stack stays within the logarithm of the length, with the constant.\<close>

lemma pow_max:
  assumes "2 * l \<le> n" "2 ^ a \<le> (l :: nat)" "r \<le> n" "2 ^ b \<le> r"
  shows "2 ^ max (1 + a) b \<le> n"
proof -
  have "2 ^ (1 + a) \<le> n" using assms(1,2) by simp
  moreover have "2 ^ b \<le> n" using assms(3,4) by simp
  ultimately show ?thesis by (simp add: max_def)
qed

lemma quicksort_depth_bound:
  assumes "head \<le> tail"
  shows "2 ^ quicksort_depth before xs head tail \<le> nat (tail - head + 1)"
  using assms
proof (induction "nat (tail - head)" arbitrary: xs head tail rule: less_induct)
  case less
  show ?case
  proof (cases "head < tail")
    case False
    then show ?thesis using less.prems by (simp add: quicksort_depth.simps)
  next
    case True
    obtain ys h t where p: "quicksort_partition before xs head tail = (ys, h, t)" by (metis prod_cases3)
    note b = partition_bounds [OF True p]
    have d: "2 ^ quicksort_depth before zs i j \<le> max 1 (nat (j - i + 1))" if "nat (j - i) < nat (tail - head)" for zs i j
    proof (cases "i \<le> j")
      case True
      then show ?thesis using less.hyps [OF that, of zs] by simp
    next
      case False
      then show ?thesis by (simp add: quicksort_depth.simps)
    qed
    show ?thesis
    proof (cases "t - head < tail - h - 1")
      case small: True
      have l: "2 * max 1 (nat (t - head + 1)) \<le> nat (tail - head + 1)" "max 1 (nat (tail - (h + 1) + 1)) \<le> nat (tail - head + 1)" using b True small by auto
      have "2 ^ quicksort_depth before ys head t \<le> max 1 (nat (t - head + 1))" by (rule d) (use b True in auto)
      moreover have "2 ^ quicksort_depth before (mp_quicksort before ys head t) (h + 1) tail \<le> max 1 (nat (tail - (h + 1) + 1))" by (rule d) (use b True in auto)
      ultimately show ?thesis using pow_max [OF l(1) _ l(2)] True p small by (simp add: quicksort_depth.simps [of before xs])
    next
      case large: False
      have l: "2 * max 1 (nat (tail - (h + 1) + 1)) \<le> nat (tail - head + 1)" "max 1 (nat (t - head + 1)) \<le> nat (tail - head + 1)" using b True large by auto
      have "2 ^ quicksort_depth before ys (h + 1) tail \<le> max 1 (nat (tail - (h + 1) + 1))" by (rule d) (use b True in auto)
      moreover have "2 ^ quicksort_depth before (mp_quicksort before ys (h + 1) tail) head t \<le> max 1 (nat (t - head + 1))" by (rule d) (use b True in auto)
      ultimately show ?thesis using pow_max [OF l(1) _ l(2)] True p large by (simp add: quicksort_depth.simps [of before xs])
    qed
  qed
qed

section \<open>Sortedness\<close>

text \<open>
  The contract of the comparison: on the elements that are sorted, what may stand before what is transitive. It
  says nothing about ties, as the sort is not stable.
\<close>

locale sort_order =
  fixes before :: "'a \<Rightarrow> 'a \<Rightarrow> bool" and ok :: "'a \<Rightarrow> bool"
  assumes before_trans: "ok x \<Longrightarrow> ok y \<Longrightarrow> ok z \<Longrightarrow> before_eq before x y \<Longrightarrow> before_eq before y z \<Longrightarrow> before_eq before x z"
begin

definition ascending :: "'a list \<Rightarrow> int \<Rightarrow> int \<Rightarrow> bool" where
  "ascending xs head tail \<longleftrightarrow> (\<forall>i j. head \<le> i \<and> i < j \<and> j \<le> tail \<longrightarrow> before_eq before (xs ! nat i) (xs ! nat j))"

lemma ascending_eq: "\<forall>i. a \<le> i \<and> i \<le> b \<longrightarrow> ys ! nat i = xs ! nat i \<Longrightarrow> ascending xs a b \<Longrightarrow> ascending ys a b"
  by (auto simp: ascending_def)

lemma ascending_join:
  assumes "ascending xs a t" "ascending xs (h + 1) b" "0 \<le> a" "a \<le> h" "h \<le> b" "t \<le> h" "h - 1 \<le> t" "b < int (length xs)" "\<forall>x \<in> set xs. ok x"
    and l: "\<forall>i. a \<le> i \<and> i < h \<longrightarrow> before_eq before (xs ! nat i) v" and m: "xs ! nat h = v \<or> t = h"
    and l': "t = h \<longrightarrow> before_eq before (xs ! nat h) v" and g: "\<forall>i. h < i \<and> i \<le> b \<longrightarrow> before_eq before v (xs ! nat i)"
    and v: "ok v"
  shows "ascending xs a b"
  unfolding ascending_def
proof (intro allI impI)
  fix i j assume ij: "a \<le> i \<and> i < j \<and> j \<le> b"
  have ok: "ok (xs ! nat k)" if "a \<le> k" "k \<le> b" for k using assms(3,8,9) that by (simp add: nth_mem)
  consider "j \<le> t" | "h + 1 \<le> i" | "t < j" "i \<le> h" "j \<le> h" | "i \<le> h" "h < j" by linarith
  then show "before_eq before (xs ! nat i) (xs ! nat j)"
  proof cases
    case 1 then show ?thesis using assms(1) ij by (simp add: ascending_def)
  next
    case 2 then show ?thesis using assms(2) ij by (simp add: ascending_def)
  next
    case 3
    then have "j = h" "t \<noteq> h" using assms(7) by auto
    then show ?thesis using l m ij by auto
  next
    case 4
    have gj: "before_eq before v (xs ! nat j)" using g 4 ij by simp
    consider "i < h" | "i = h" "t = h" | "i = h" "xs ! nat h = v" using m 4 by fastforce
    then show ?thesis
    proof cases
      case 1 then show ?thesis using before_trans [of "xs ! nat i" v "xs ! nat j"] l gj ij ok v by auto
    next
      case 2 then show ?thesis using before_trans [of "xs ! nat i" v "xs ! nat j"] l' gj ij ok v by auto
    next
      case 3 then show ?thesis using gj by simp
    qed
  qed
qed

lemma partition_join:
  assumes "0 \<le> head" "head < tail" "tail < int (length xs)" "quicksort_partition before xs head tail = (ys, h, t)" "\<forall>x \<in> set xs. ok x"
    and p: "permutes ys ws a b" "permutes ws zs c d" and seg: "a = head \<and> b = t \<and> c = h + 1 \<and> d = tail \<or> a = h + 1 \<and> b = tail \<and> c = head \<and> d = t"
    and s: "ascending zs head t" "ascending zs (h + 1) tail"
  shows "ascending zs head tail"
proof -
  note b = partition_bounds [OF assms(2,4)]
  define v where "v = ys ! nat h"
  have pc: "length ys = length xs" "mset ys = mset xs" "\<forall>i. head \<le> i \<and> i < h \<longrightarrow> before_eq before (ys ! nat i) v"
    "\<forall>i. h < i \<and> i \<le> tail \<longrightarrow> before_eq before v (ys ! nat i)"
    using partition_correct [OF assms(1-4)] by (simp_all add: v_def)
  have ok: "\<forall>x \<in> set zs. ok x" using assms(5) pc(2) permutes_set p by (metis mset_eq_setD)
  have len: "length zs = length xs" using p pc by (simp add: permutes_def)
  have r: "0 \<le> a" "0 \<le> c" "b < int (length ys)" "d < int (length ys)" "b < c \<or> d < a" using seg b assms pc(1) by auto
  have refl: "before_eq before x x" for x by (simp add: before_eq_def)
  have lt: "\<forall>i. head \<le> i \<and> i \<le> t \<longrightarrow> before_eq before (ys ! nat i) v" using pc(3) b refl by (metis order.order_iff_strict order_trans v_def)
  have L: "\<forall>i. head \<le> i \<and> i \<le> t \<longrightarrow> before_eq before (zs ! nat i) v"
    using seg lt permutes_two(1) [OF p r, of "\<lambda>x. before_eq before x v"] permutes_two(2) [OF p r, of "\<lambda>x. before_eq before x v"] by auto
  have G: "\<forall>i. h < i \<and> i \<le> tail \<longrightarrow> before_eq before v (zs ! nat i)"
    using seg pc(4) permutes_two(1) [OF p r, of "\<lambda>x. before_eq before v x"] permutes_two(2) [OF p r, of "\<lambda>x. before_eq before v x"] by auto
  have M: "zs ! nat h = v" if "t \<noteq> h" using permutes_two(3) [OF p r, of h] seg b that assms(1) by (auto simp: v_def)
  have "ok v" using assms(5) pc(1,2) b assms(1,3) unfolding v_def by (metis mset_eq_setD nth_mem nat_less_iff order_trans order.strict_trans1)
  then show ?thesis using b assms(1,3) len ok L G M by (intro ascending_join [OF s, of v]) auto
qed

lemma quicksort_sorts:
  assumes "0 \<le> head" "tail < int (length xs)" "\<forall>x \<in> set xs. ok x"
  shows "ascending (mp_quicksort before xs head tail) head tail"
  using assms
proof (induction "nat (tail - head)" arbitrary: xs head tail rule: less_induct)
  case less
  show ?case
  proof (cases "head < tail")
    case False
    then show ?thesis by (auto simp: ascending_def)
  next
    case True
    obtain ys h t where p: "quicksort_partition before xs head tail = (ys, h, t)" by (metis prod_cases3)
    note b = partition_bounds [OF True p]
    have py: "length ys = length xs" "set ys = set xs" using partition_correct [OF less.prems(1) True less.prems(2) p] mset_eq_setD by auto
    define left where "left zs = mp_quicksort before zs head t" for zs
    define right where "right zs = mp_quicksort before zs (h + 1) tail" for zs
    have lp: "permutes zs (left zs) head t" "permutes zs (right zs) (h + 1) tail" if "length zs = length xs" for zs
      unfolding left_def right_def using that less.prems b by (auto intro!: quicksort_permutes)
    have la: "ascending (left zs) head t" "ascending (right zs) (h + 1) tail" if "length zs = length xs" "set zs = set xs" for zs
      unfolding left_def right_def using less.hyps [of t head zs] less.hyps [of tail "h + 1" zs] that less.prems b True by auto
    have keep: "length (left zs) = length xs \<and> set (left zs) = set xs \<and> length (right zs) = length xs \<and> set (right zs) = set xs"
      if "length zs = length xs" "set zs = set xs" for zs
      using lp [OF that(1)] permutes_set [OF lp(1) [OF that(1)]] permutes_set [OF lp(2) [OF that(1)]] that by (simp add: permutes_def)
    have e: "mp_quicksort before xs head tail = (if t - head < tail - h - 1 then right (left ys) else left (right ys))"
      using True p by (simp add: mp_quicksort.simps [of before xs head tail] left_def right_def)
    show ?thesis
    proof (cases "t - head < tail - h - 1")
      case small: True
      have "ascending (right (left ys)) head t"
        by (rule ascending_eq [OF _ la(1) [OF py]]) (use lp(2) [of "left ys"] keep [OF py] b less.prems(1) in \<open>auto simp: permutes_def\<close>)
      then show ?thesis unfolding e using small keep [OF py]
        by (auto intro!: partition_join [OF less.prems(1) True less.prems(2) p less.prems(3) lp(1) [OF py(1)] lp(2) [of "left ys"]] la)
    next
      case large: False
      have "ascending (left (right ys)) (h + 1) tail"
        by (rule ascending_eq [OF _ la(2) [OF py]]) (use lp(1) [of "right ys"] keep [OF py] b less.prems(1) in \<open>auto simp: permutes_def\<close>)
      then show ?thesis unfolding e using large keep [OF py]
        by (auto intro!: partition_join [OF less.prems(1) True less.prems(2) p less.prems(3) lp(2) [OF py(1)] lp(1) [of "right ys"]] la)
    qed
  qed
qed

end

end
