(* ===== verification/Mp_List.thy ===== *)
theory Mp_List
  imports Quicksort Mp_Int
begin

text \<open>
  Lists, \<^verbatim>\<open>py/objlist.c\<close>, with the helpers for sequences in \<^verbatim>\<open>py/sequence.c\<close>, the slices of \<^verbatim>\<open>py/objslice.c\<close> and
  \<^verbatim>\<open>mp_get_index\<close> of \<^verbatim>\<open>py/obj.c\<close>. A list is a buffer of \<^verbatim>\<open>alloc\<close> object words of which the first \<^verbatim>\<open>len\<close> are
  in use. Every access checks that it is inside the buffer and reads an object, so that a result is also a
  proof of memory safety. Objects are of any type; their equality and order are parameters.
\<close>

section \<open>Memory\<close>

text \<open>A word of the buffer: an object, \<^verbatim>\<open>MP_OBJ_NULL\<close>, or what the allocator left there.\<close>

datatype 'a slot = Item 'a | MpNull | Uninit

record 'a mp_obj_list_t =
  list_alloc :: nat
  list_len :: nat
  items :: "'a slot list"

datatype list_error = IndexError | ValueError | ZeroStep | NotImplementedError | OverflowErr | AssertErr | OutOfBounds | BadObject

definition LIST_MIN_ALLOC :: nat where "LIST_MIN_ALLOC = 4"

text \<open>The allocator is asked for bytes, four for a word, and the product wraps.\<close>

definition m_new :: "nat \<Rightarrow> 'a slot list" where
  "m_new num = replicate (u32 (4 * num) div 4) Uninit"

definition m_renew :: "'a slot list \<Rightarrow> nat \<Rightarrow> 'a slot list" where
  "m_renew ptr new_num = (let n = u32 (4 * new_num) div 4 in take n ptr @ replicate (n - length ptr) Uninit)"

text \<open>Reading and writing words; \<^verbatim>\<open>memcpy\<close> and \<^verbatim>\<open>memmove\<close> of the words \<open>src\<close>, which do nothing when there are none.\<close>

definition write_slots :: "nat \<Rightarrow> 'a slot list \<Rightarrow> 'a slot list \<Rightarrow> list_error + 'a slot list" where
  "write_slots off src mem =
     (if src = [] \<or> off + length src \<le> length mem then Inr (take off mem @ src @ drop (off + length src) mem) else Inl OutOfBounds)"

definition read_slots :: "nat \<Rightarrow> nat \<Rightarrow> 'a slot list \<Rightarrow> list_error + 'a slot list" where
  "read_slots off n mem = (if off + n \<le> length mem then Inr (take n (drop off mem)) else Inl OutOfBounds)"

definition read_item :: "nat \<Rightarrow> 'a slot list \<Rightarrow> list_error + 'a" where
  "read_item i mem = (if i < length mem then case mem ! i of Item x \<Rightarrow> Inr x | _ \<Rightarrow> Inl BadObject else Inl OutOfBounds)"

definition mp_seq_clear :: "nat \<Rightarrow> nat \<Rightarrow> 'a slot list \<Rightarrow> list_error + 'a slot list" where
  "mp_seq_clear len alloc_len mem = write_slots len (replicate (alloc_len - len) MpNull) mem"

section \<open>Construction\<close>

definition mp_obj_list_init :: "nat \<Rightarrow> list_error + 'a mp_obj_list_t" where
  "mp_obj_list_init n =
     (let al = (if n < LIST_MIN_ALLOC then LIST_MIN_ALLOC else n)
      in res_bind (mp_seq_clear n al (m_new al)) (\<lambda>mem. Inr \<lparr>list_alloc = al, list_len = n, items = mem\<rparr>))"

definition mp_obj_new_list :: "'a list \<Rightarrow> list_error + 'a mp_obj_list_t" where
  "mp_obj_new_list xs =
     res_bind (mp_obj_list_init (length xs)) (\<lambda>o'.
     res_bind (write_slots 0 (map Item xs) (items o')) (\<lambda>mem. Inr (o'\<lparr>items := mem\<rparr>)))"

section \<open>Methods\<close>

definition mp_obj_list_append :: "'a mp_obj_list_t \<Rightarrow> 'a \<Rightarrow> list_error + 'a mp_obj_list_t" where
  "mp_obj_list_append self arg =
     res_bind
       (if list_len self \<ge> list_alloc self
        then let mem = m_renew (items self) (list_alloc self * 2); al = list_alloc self * 2
             in res_bind (mp_seq_clear (list_len self + 1) al mem) (\<lambda>mem. Inr (self\<lparr>list_alloc := al, items := mem\<rparr>))
        else Inr self) (\<lambda>self.
     res_bind (write_slots (list_len self) [Item arg] (items self)) (\<lambda>mem.
     Inr (self\<lparr>items := mem, list_len := list_len self + 1\<rparr>)))"

fun list_extend_from_iter :: "'a mp_obj_list_t \<Rightarrow> 'a list \<Rightarrow> list_error + 'a mp_obj_list_t" where
  "list_extend_from_iter self [] = Inr self"
| "list_extend_from_iter self (x # xs) = res_bind (mp_obj_list_append self x) (\<lambda>self. list_extend_from_iter self xs)"

definition list_extend :: "'a mp_obj_list_t \<Rightarrow> 'a mp_obj_list_t \<Rightarrow> list_error + 'a mp_obj_list_t" where
  "list_extend self arg =
     res_bind
       (if list_len self + list_len arg > list_alloc self
        then let al = list_len self + list_len arg + 4
             in res_bind (mp_seq_clear (list_len self + list_len arg) al (m_renew (items self) al))
                  (\<lambda>mem. Inr (self\<lparr>list_alloc := al, items := mem\<rparr>))
        else Inr self) (\<lambda>self.
     res_bind (read_slots 0 (list_len arg) (items arg)) (\<lambda>src.
     res_bind (write_slots (list_len self) src (items self)) (\<lambda>mem.
     Inr (self\<lparr>items := mem, list_len := list_len self + list_len arg\<rparr>))))"

text \<open>
  An argument that is an integer object, by its value: a small integer is taken as it is, and the checked conversion of a
  long one raises \<^verbatim>\<open>OverflowError\<close> from \<open>2 ^ 31\<close> on, in either direction.
\<close>

definition mp_obj_get_int :: "int \<Rightarrow> list_error + int" where
  "mp_obj_get_int i = (if \<bar>i\<bar> < 2 ^ 31 then Inr i else Inl OverflowErr)"

definition mp_obj_get_int_maybe :: "int \<Rightarrow> list_error + int" where
  "mp_obj_get_int_maybe i = (if \<bar>i\<bar> < 2 ^ 31 then Inr i else Inl OverflowErr)"

definition mp_get_index :: "nat \<Rightarrow> int \<Rightarrow> bool \<Rightarrow> list_error + nat" where
  "mp_get_index len i is_slice =
     res_bind (mp_obj_get_int_maybe i) (\<lambda>i.
     let i = (if i < 0 then s32 (i + int len) else i)
     in if is_slice then Inr (if i < 0 then 0 else if i > int len then len else nat i)
        else if i < 0 \<or> i \<ge> int len then Inl IndexError else Inr (nat i))"

definition list_pop :: "'a mp_obj_list_t \<Rightarrow> int option \<Rightarrow> list_error + 'a \<times> 'a mp_obj_list_t" where
  "list_pop self arg =
     (if list_len self = 0 then Inl IndexError
      else res_bind (mp_get_index (list_len self) (case arg of None \<Rightarrow> - 1 | Some i \<Rightarrow> i) False) (\<lambda>index.
           res_bind (read_item index (items self)) (\<lambda>ret.
           let len = list_len self - 1
           in res_bind (read_slots (index + 1) (len - index) (items self)) (\<lambda>src.
              res_bind (write_slots index src (items self)) (\<lambda>mem.
              res_bind (write_slots len [MpNull] mem) (\<lambda>mem.
              Inr (ret,
                if list_alloc self > LIST_MIN_ALLOC \<and> list_alloc self > 2 * len
                then self\<lparr>list_alloc := list_alloc self div 2, list_len := len, items := m_renew mem (list_alloc self div 2)\<rparr>
                else self\<lparr>list_len := len, items := mem\<rparr>)))))))"

definition list_clear :: "'a mp_obj_list_t \<Rightarrow> list_error + 'a mp_obj_list_t" where
  "list_clear self =
     res_bind (mp_seq_clear 0 LIST_MIN_ALLOC (m_renew (items self) LIST_MIN_ALLOC)) (\<lambda>mem.
     Inr (self\<lparr>list_len := 0, list_alloc := LIST_MIN_ALLOC, items := mem\<rparr>))"

text \<open>The objects of a list, each of which is read.\<close>

fun read_items :: "'a slot list \<Rightarrow> list_error + 'a list" where
  "read_items [] = Inr []"
| "read_items (Item x # ss) = res_bind (read_items ss) (\<lambda>xs. Inr (x # xs))"
| "read_items (_ # ss) = Inl BadObject"

definition list_objs :: "'a mp_obj_list_t \<Rightarrow> list_error + 'a list" where
  "list_objs self = res_bind (read_slots 0 (list_len self) (items self)) read_items"

definition list_copy :: "'a mp_obj_list_t \<Rightarrow> list_error + 'a mp_obj_list_t" where
  "list_copy self = res_bind (list_objs self) mp_obj_new_list"

definition mp_seq_count_obj :: "('a \<Rightarrow> 'a \<Rightarrow> bool) \<Rightarrow> 'a list \<Rightarrow> 'a \<Rightarrow> nat" where
  "mp_seq_count_obj eq xs v = fold (\<lambda>x count. if eq x v then count + 1 else count) xs 0"

definition list_count :: "('a \<Rightarrow> 'a \<Rightarrow> bool) \<Rightarrow> 'a mp_obj_list_t \<Rightarrow> 'a \<Rightarrow> list_error + nat" where
  "list_count eq self v = res_bind (list_objs self) (\<lambda>xs. Inr (mp_seq_count_obj eq xs v))"

fun index_loop :: "('a \<Rightarrow> 'a \<Rightarrow> bool) \<Rightarrow> 'a list \<Rightarrow> nat \<Rightarrow> nat \<Rightarrow> 'a \<Rightarrow> list_error + nat" where
  "index_loop eq [] i stop v = Inl ValueError"
| "index_loop eq (x # xs) i stop v = (if i < stop then if eq x v then Inr i else index_loop eq xs (i + 1) stop v else Inl ValueError)"

definition mp_seq_index_obj :: "('a \<Rightarrow> 'a \<Rightarrow> bool) \<Rightarrow> 'a list \<Rightarrow> 'a \<Rightarrow> int option \<Rightarrow> int option \<Rightarrow> list_error + nat" where
  "mp_seq_index_obj eq xs v arg2 arg3 =
     res_bind (case arg2 of None \<Rightarrow> Inr 0 | Some i \<Rightarrow> mp_get_index (length xs) i True) (\<lambda>start.
     res_bind (case (arg2, arg3) of (Some _, Some i) \<Rightarrow> mp_get_index (length xs) i True | _ \<Rightarrow> Inr (length xs)) (\<lambda>stop.
     index_loop eq (drop start xs) start stop v))"

definition list_index :: "('a \<Rightarrow> 'a \<Rightarrow> bool) \<Rightarrow> 'a mp_obj_list_t \<Rightarrow> 'a \<Rightarrow> int option \<Rightarrow> int option \<Rightarrow> list_error + nat" where
  "list_index eq self v arg2 arg3 = res_bind (list_objs self) (\<lambda>xs. mp_seq_index_obj eq xs v arg2 arg3)"

definition mp_obj_list_remove :: "('a \<Rightarrow> 'a \<Rightarrow> bool) \<Rightarrow> 'a mp_obj_list_t \<Rightarrow> 'a \<Rightarrow> list_error + 'a mp_obj_list_t" where
  "mp_obj_list_remove eq self v =
     res_bind (list_index eq self v None None) (\<lambda>i.
     res_bind (list_pop self (Some (int i))) (\<lambda>r. Inr (snd r)))"

text \<open>Insertion appends a word and moves the words behind the index up, from the end.\<close>

fun shift_loop :: "nat \<Rightarrow> nat \<Rightarrow> 'a slot list \<Rightarrow> list_error + 'a slot list" where
  "shift_loop index i mem =
     (if i > index
      then res_bind (read_slots (i - 1) 1 mem) (\<lambda>src. res_bind (write_slots i src mem) (\<lambda>mem. shift_loop index (i - 1) mem))
      else Inr mem)"

declare shift_loop.simps [simp del]

text \<open>
  The index of an insertion is the object word \<open>idx\<close> itself, a signed word shifted right by one; a small integer \<open>v\<close> is
  the word \<open>2 v + 1\<close>. There is no check that the object is a small integer.
\<close>

definition MP_OBJ_SMALL_INT_VALUE :: "int \<Rightarrow> int" where
  "MP_OBJ_SMALL_INT_VALUE obj = drop_bit 1 obj"

definition small_int_word :: "int \<Rightarrow> int" where
  "small_int_word v = s32 (2 * v + 1)"

definition list_insert :: "'a \<Rightarrow> 'a mp_obj_list_t \<Rightarrow> int \<Rightarrow> 'a \<Rightarrow> list_error + 'a mp_obj_list_t" where
  "list_insert mp_const_none self idx x =
     (let index = MP_OBJ_SMALL_INT_VALUE idx;
          index = (if index < 0 then s32 (index + int (list_len self)) else index);
          index = (if index < 0 then 0 else index);
          index = (if index > int (list_len self) then list_len self else nat index)
      in res_bind (mp_obj_list_append self mp_const_none) (\<lambda>self.
         res_bind (shift_loop index (list_len self - 1) (items self)) (\<lambda>mem.
         res_bind (write_slots index [Item x] mem) (\<lambda>mem. Inr (self\<lparr>items := mem\<rparr>)))))"

fun reverse_loop :: "nat \<Rightarrow> nat \<Rightarrow> nat \<Rightarrow> 'a slot list \<Rightarrow> list_error + 'a slot list" where
  "reverse_loop 0 i len mem = Inr mem"
| "reverse_loop (Suc n) i len mem =
     res_bind (read_item i mem) (\<lambda>a.
     res_bind (read_slots (len - i - 1) 1 mem) (\<lambda>src.
     res_bind (write_slots i src mem) (\<lambda>mem.
     res_bind (write_slots (len - i - 1) [Item a] mem) (\<lambda>mem.
     reverse_loop n (i + 1) len mem))))"

definition list_reverse :: "'a mp_obj_list_t \<Rightarrow> list_error + 'a mp_obj_list_t" where
  "list_reverse self =
     res_bind (reverse_loop (list_len self div 2) 0 (list_len self) (items self)) (\<lambda>mem. Inr (self\<lparr>items := mem\<rparr>))"

definition mp_obj_list_store :: "'a mp_obj_list_t \<Rightarrow> int \<Rightarrow> 'a \<Rightarrow> list_error + 'a mp_obj_list_t" where
  "mp_obj_list_store self index v =
     res_bind (mp_get_index (list_len self) index False) (\<lambda>i.
     res_bind (write_slots i [Item v] (items self)) (\<lambda>mem. Inr (self\<lparr>items := mem\<rparr>)))"

definition mp_obj_list_set_len :: "'a mp_obj_list_t \<Rightarrow> nat \<Rightarrow> 'a mp_obj_list_t" where
  "mp_obj_list_set_len self len = self\<lparr>list_len := len\<rparr>"

text \<open>
  The sort of the buffer; the comparison by the parameter \<open>lt\<close> after the function \<open>key\<close>, against true or, in
  reverse, against false.
\<close>

definition mp_obj_list_sort :: "('k \<Rightarrow> 'k \<Rightarrow> bool) \<Rightarrow> ('a \<Rightarrow> 'k) \<Rightarrow> bool \<Rightarrow> 'a mp_obj_list_t \<Rightarrow> list_error + 'a mp_obj_list_t" where
  "mp_obj_list_sort lt key reverse self =
     (if list_len self > 1
      then res_bind (list_objs self) (\<lambda>xs.
           res_bind (write_slots 0 (map Item (mp_quicksort (\<lambda>a b. lt (key a) (key b) = (\<not> reverse)) xs 0 (int (list_len self) - 1))) (items self))
             (\<lambda>mem. Inr (self\<lparr>items := mem\<rparr>)))
      else Inr self)"

text \<open>An iterator holds the list and a position; it looks at the list as it is at each call.\<close>

definition list_it_iternext :: "'a mp_obj_list_t \<Rightarrow> nat \<Rightarrow> list_error + ('a \<times> nat) option" where
  "list_it_iternext list cur =
     (if cur < list_len list then res_bind (read_item cur (items list)) (\<lambda>o_out. Inr (Some (o_out, cur + 1))) else Inr None)"

definition list_make_new :: "'a list \<Rightarrow> list_error + 'a mp_obj_list_t" where
  "list_make_new iterable = res_bind (mp_obj_new_list []) (\<lambda>list. list_extend_from_iter list iterable)"

section \<open>Slices\<close>

text \<open>
  The components of a slice object, integer objects by their values; \<^const>\<open>None\<close> is \<^verbatim>\<open>mp_const_none\<close>. The bounds of the
  slice are machine integers.
\<close>

record mp_obj_slice_t =
  slice_start :: "int option"
  slice_stop :: "int option"
  slice_step :: "int option"

record mp_bound_slice_t =
  start :: int
  stop :: int
  step :: int

definition bound_index :: "int \<Rightarrow> int \<Rightarrow> int \<Rightarrow> int \<Rightarrow> list_error + int" where
  "bound_index len lo hi i =
     res_bind (mp_obj_get_int i) (\<lambda>i. let i = (if i < 0 then s32 (i + len) else i) in Inr (min hi (max i lo)))"

definition mp_obj_slice_indices :: "mp_obj_slice_t \<Rightarrow> int \<Rightarrow> list_error + mp_bound_slice_t" where
  "mp_obj_slice_indices self len =
     res_bind (case slice_step self of None \<Rightarrow> Inr 1 | Some n \<Rightarrow> mp_obj_get_int n) (\<lambda>step.
     if step = 0 then Inl ZeroStep
     else if step > 0
     then res_bind (case slice_start self of None \<Rightarrow> Inr 0 | Some i \<Rightarrow> bound_index len 0 len i) (\<lambda>start.
          res_bind (case slice_stop self of None \<Rightarrow> Inr len | Some i \<Rightarrow> bound_index len 0 len i) (\<lambda>stop.
          Inr \<lparr>start = start, stop = stop, step = step\<rparr>))
     else res_bind (case slice_start self of None \<Rightarrow> Inr (len - 1) | Some i \<Rightarrow> bound_index len (- 1) (len - 1) i) (\<lambda>start.
          res_bind (case slice_stop self of None \<Rightarrow> Inr (- 1) | Some i \<Rightarrow> bound_index len (- 1) (len - 1) i) (\<lambda>stop.
          Inr \<lparr>start = start, stop = stop, step = step\<rparr>)))"

definition mp_seq_get_fast_slice_indexes :: "nat \<Rightarrow> mp_obj_slice_t \<Rightarrow> list_error + bool \<times> mp_bound_slice_t" where
  "mp_seq_get_fast_slice_indexes len sl =
     res_bind (mp_obj_slice_indices sl (int len)) (\<lambda>ix.
     let ix = (if step ix < 0 then ix\<lparr>stop := stop ix + 1\<rparr> else ix);
         ix = (if step ix > 0 \<and> start ix > stop ix then ix\<lparr>stop := start ix\<rparr>
               else if step ix < 0 \<and> start ix < stop ix then ix\<lparr>stop := start ix + 1\<rparr> else ix)
     in Inr (step ix = 1, ix))"

text \<open>
  The loops of \<^verbatim>\<open>mp_seq_extract_slice\<close>, whose index is a machine integer; \<^const>\<open>None\<close> would be a loop without end.
\<close>

partial_function (option) extract_loop ::
  "'a slot list \<Rightarrow> int \<Rightarrow> int \<Rightarrow> int \<Rightarrow> 'a mp_obj_list_t \<Rightarrow> (list_error + 'a mp_obj_list_t) option" where
  "extract_loop sq i e s res =
     (if (if s < 0 then i \<ge> e else i < e)
      then case res_bind (if i < 0 then Inl OutOfBounds else read_item (nat i) sq) (mp_obj_list_append res) of
             Inl err \<Rightarrow> Some (Inl err)
           | Inr res \<Rightarrow> extract_loop sq (s32 (i + s)) e s res
      else Some (Inr res))"

definition mp_seq_extract_slice :: "'a slot list \<Rightarrow> mp_bound_slice_t \<Rightarrow> (list_error + 'a mp_obj_list_t) option" where
  "mp_seq_extract_slice sq ix =
     (case mp_obj_new_list [] of Inl err \<Rightarrow> Some (Inl err) | Inr res \<Rightarrow> extract_loop sq (start ix) (stop ix) (step ix) res)"

definition list_slice_load :: "'a mp_obj_list_t \<Rightarrow> mp_obj_slice_t \<Rightarrow> (list_error + 'a mp_obj_list_t) option" where
  "list_slice_load self index =
     (case mp_seq_get_fast_slice_indexes (list_len self) index of
        Inl err \<Rightarrow> Some (Inl err)
      | Inr (fast, ix) \<Rightarrow>
          if \<not> fast then mp_seq_extract_slice (items self) ix
          else Some (res_bind (mp_obj_list_init (nat (stop ix - start ix))) (\<lambda>res.
                     res_bind (read_slots (nat (start ix)) (list_len res) (items self)) (\<lambda>src.
                     res_bind (write_slots 0 src (items res)) (\<lambda>mem. Inr (res\<lparr>items := mem\<rparr>))))))"

definition list_load :: "'a mp_obj_list_t \<Rightarrow> int \<Rightarrow> list_error + 'a" where
  "list_load self index = res_bind (mp_get_index (list_len self) index False) (\<lambda>i. read_item i (items self))"

definition mp_seq_replace_slice_no_grow :: "nat \<Rightarrow> nat \<Rightarrow> nat \<Rightarrow> 'a slot list \<Rightarrow> 'a slot list \<Rightarrow> list_error + 'a slot list" where
  "mp_seq_replace_slice_no_grow dest_len beg en src_slice mem =
     res_bind (write_slots beg src_slice mem) (\<lambda>mem.
     res_bind (read_slots en (dest_len - en) mem) (\<lambda>src. write_slots (beg + length src_slice) src mem))"

definition mp_seq_replace_slice_grow_inplace :: "nat \<Rightarrow> nat \<Rightarrow> nat \<Rightarrow> 'a slot list \<Rightarrow> nat \<Rightarrow> 'a slot list \<Rightarrow> list_error + 'a slot list" where
  "mp_seq_replace_slice_grow_inplace dest_len beg en src_slice len_adj mem =
     res_bind (read_slots en (dest_len + len_adj - (beg + length src_slice)) mem) (\<lambda>src.
     res_bind (write_slots (beg + length src_slice) src mem) (\<lambda>mem. write_slots beg src_slice mem))"

definition list_slice_delete :: "'a mp_obj_list_t \<Rightarrow> mp_obj_slice_t \<Rightarrow> list_error + 'a mp_obj_list_t" where
  "list_slice_delete self index =
     res_bind (mp_seq_get_fast_slice_indexes (list_len self) index) (\<lambda>(fast, ix).
     if \<not> fast then Inl NotImplementedError
     else let len_adj = start ix - stop ix; len = nat (int (list_len self) + len_adj)
          in if \<not> len_adj \<le> 0 then Inl AssertErr
             else res_bind (mp_seq_replace_slice_no_grow (list_len self) (nat (start ix)) (nat (stop ix)) [] (items self)) (\<lambda>mem.
             res_bind (mp_seq_clear len (list_len self) mem) (\<lambda>mem. Inr (self\<lparr>items := mem, list_len := len\<rparr>))))"

definition list_slice_store :: "'a mp_obj_list_t \<Rightarrow> mp_obj_slice_t \<Rightarrow> 'a list \<Rightarrow> list_error + 'a mp_obj_list_t" where
  "list_slice_store self index vals =
     res_bind (mp_seq_get_fast_slice_indexes (list_len self) index) (\<lambda>(fast, ix).
     if \<not> fast then Inl NotImplementedError
     else let beg = nat (start ix); en = nat (stop ix); len_adj = int (length vals) - (stop ix - start ix);
              len = nat (int (list_len self) + len_adj)
          in if len_adj > 0
             then let self = (if len > list_alloc self then self\<lparr>items := m_renew (items self) len, list_alloc := len\<rparr> else self)
                  in res_bind (mp_seq_replace_slice_grow_inplace (list_len self) beg en (map Item vals) (nat len_adj) (items self)) (\<lambda>mem.
                     Inr (self\<lparr>items := mem, list_len := len\<rparr>))
             else res_bind (mp_seq_replace_slice_no_grow (list_len self) beg en (map Item vals) (items self)) (\<lambda>mem.
                  res_bind (mp_seq_clear len (list_len self) mem) (\<lambda>mem. Inr (self\<lparr>items := mem, list_len := len\<rparr>))))"

definition list_delete :: "'a mp_obj_list_t \<Rightarrow> int \<Rightarrow> list_error + 'a mp_obj_list_t" where
  "list_delete self index = res_bind (list_pop self (Some index)) (\<lambda>r. Inr (snd r))"

section \<open>Operators\<close>

definition list_add :: "'a mp_obj_list_t \<Rightarrow> 'a mp_obj_list_t \<Rightarrow> list_error + 'a mp_obj_list_t" where
  "list_add o' p =
     res_bind (mp_obj_list_init (list_len o' + list_len p)) (\<lambda>s.
     res_bind (read_slots 0 (list_len o') (items o')) (\<lambda>src1.
     res_bind (write_slots 0 src1 (items s)) (\<lambda>mem.
     res_bind (read_slots 0 (list_len p) (items p)) (\<lambda>src2.
     res_bind (write_slots (list_len o') src2 mem) (\<lambda>mem. Inr (s\<lparr>items := mem\<rparr>))))))"

fun mp_seq_multiply :: "nat \<Rightarrow> 'a slot list \<Rightarrow> nat \<Rightarrow> 'a slot list \<Rightarrow> list_error + 'a slot list" where
  "mp_seq_multiply 0 src dest mem = Inr mem"
| "mp_seq_multiply (Suc n) src dest mem =
     res_bind (write_slots dest src mem) (\<lambda>mem. mp_seq_multiply n src (dest + length src) mem)"

definition list_multiply :: "'a mp_obj_list_t \<Rightarrow> int \<Rightarrow> list_error + 'a mp_obj_list_t" where
  "list_multiply o' n =
     res_bind (mp_obj_get_int_maybe n) (\<lambda>n.
     let n = (if n < 0 then 0 else n)
     in res_bind (mp_obj_list_init (u32 (list_len o' * nat n))) (\<lambda>s.
        res_bind (read_slots 0 (list_len o') (items o')) (\<lambda>src.
        res_bind (mp_seq_multiply (nat n) src 0 (items s)) (\<lambda>mem. Inr (s\<lparr>items := mem\<rparr>)))))"

text \<open>
  The comparison of sequences; the code swaps the operands to deal with \<^verbatim>\<open>>\<close> and \<^verbatim>\<open>>=\<close> only. The first unequal pair
  decides by the operator \<open>rel\<close> of the elements.
\<close>

fun seq_cmp_loop :: "('a \<Rightarrow> 'a \<Rightarrow> bool) \<Rightarrow> (mp_binary_op_t \<Rightarrow> 'a \<Rightarrow> 'a \<Rightarrow> bool) \<Rightarrow> mp_binary_op_t \<Rightarrow> 'a list \<Rightarrow> 'a list \<Rightarrow> bool option" where
  "seq_cmp_loop eq rel op (x # xs) (y # ys) =
     (if eq x y then seq_cmp_loop eq rel op xs ys
      else Some (if op = MP_BINARY_OP_EQUAL then False else rel op x y))"
| "seq_cmp_loop eq rel op _ _ = None"

definition mp_seq_cmp_objs ::
  "('a \<Rightarrow> 'a \<Rightarrow> bool) \<Rightarrow> (mp_binary_op_t \<Rightarrow> 'a \<Rightarrow> 'a \<Rightarrow> bool) \<Rightarrow> mp_binary_op_t \<Rightarrow> 'a list \<Rightarrow> 'a list \<Rightarrow> bool" where
  "mp_seq_cmp_objs eq rel op items1 items2 =
     (if op = MP_BINARY_OP_EQUAL \<and> length items1 \<noteq> length items2 then False
      else let (op, items1, items2) =
             (if op = MP_BINARY_OP_LESS then (MP_BINARY_OP_MORE, items2, items1)
              else if op = MP_BINARY_OP_LESS_EQUAL then (MP_BINARY_OP_MORE_EQUAL, items2, items1) else (op, items1, items2))
           in case seq_cmp_loop eq rel op items1 items2 of
                Some b \<Rightarrow> b
              | None \<Rightarrow> (if length items1 \<noteq> length items2 then \<not> length items1 < length items2
                          else op \<noteq> MP_BINARY_OP_MORE))"

text \<open>The comparison of byte strings is the same after \<^verbatim>\<open>memcmp\<close> of the common prefix.\<close>

fun memcmp :: "nat list \<Rightarrow> nat list \<Rightarrow> int" where
  "memcmp (x # xs) (y # ys) = (if x < y then - 1 else if x > y then 1 else memcmp xs ys)"
| "memcmp _ _ = 0"

definition mp_seq_cmp_bytes :: "mp_binary_op_t \<Rightarrow> nat list \<Rightarrow> nat list \<Rightarrow> bool" where
  "mp_seq_cmp_bytes op data1 data2 =
     (if op = MP_BINARY_OP_EQUAL \<and> length data1 \<noteq> length data2 then False
      else let (op, data1, data2) =
             (if op = MP_BINARY_OP_LESS then (MP_BINARY_OP_MORE, data2, data1)
              else if op = MP_BINARY_OP_LESS_EQUAL then (MP_BINARY_OP_MORE_EQUAL, data2, data1) else (op, data1, data2));
             min_len = min (length data1) (length data2);
             res = memcmp (take min_len data1) (take min_len data2)
           in if op = MP_BINARY_OP_EQUAL then res = 0
              else if res < 0 then False
              else if res > 0 then True
              else if length data1 \<noteq> length data2 then \<not> length data1 < length data2
              else op \<noteq> MP_BINARY_OP_MORE)"

definition list_cmp ::
  "('a \<Rightarrow> 'a \<Rightarrow> bool) \<Rightarrow> (mp_binary_op_t \<Rightarrow> 'a \<Rightarrow> 'a \<Rightarrow> bool) \<Rightarrow> mp_binary_op_t \<Rightarrow> 'a mp_obj_list_t \<Rightarrow> 'a mp_obj_list_t \<Rightarrow> list_error + bool" where
  "list_cmp eq rel op o' another =
     res_bind (list_objs o') (\<lambda>xs. res_bind (list_objs another) (\<lambda>ys. Inr (mp_seq_cmp_objs eq rel op xs ys)))"

end
