(* ===== verification/Mp_List_Laws.thy ===== *)
theory Mp_List_Laws
  imports Mp_List
begin

text \<open>
  Lists against Python's lists: the buffer of a list represents a list of objects, every method keeps that
  representation and gives what Python gives, and no method reads or writes outside the buffer.
\<close>

section \<open>Representation\<close>

text \<open>
  The words behind the last element are null, as the collector scans them. A buffer is never empty, as it grows by
  doubling. Its size in bytes fits a word with room to grow.
\<close>

definition list_rep :: "'a mp_obj_list_t \<Rightarrow> 'a list \<Rightarrow> bool" where
  "list_rep l xs \<longleftrightarrow> 0 < list_alloc l \<and> list_alloc l < 2 ^ 28 \<and> length xs \<le> list_alloc l \<and> list_len l = length xs \<and>
     items l = map Item xs @ replicate (list_alloc l - length xs) MpNull"

definition gives :: "list_error + 'a mp_obj_list_t \<Rightarrow> 'a list \<Rightarrow> bool" where
  "gives r xs \<longleftrightarrow> (case r of Inr l \<Rightarrow> list_rep l xs | Inl e \<Rightarrow> False)"

lemma gives_iff: "gives r xs \<longleftrightarrow> (\<exists>l. r = Inr l \<and> list_rep l xs)"
  by (auto simp: gives_def split: sum.splits)

lemma gives_Inr [simp]: "gives (Inr l) xs = list_rep l xs"
  by (simp add: gives_def)

lemma list_rep_len: "list_rep l xs \<Longrightarrow> list_len l = length xs"
  by (simp add: list_rep_def)

lemma list_rep_unique: "list_rep l xs \<Longrightarrow> list_rep l ys \<Longrightarrow> xs = ys"
proof -
  assume "list_rep l xs" "list_rep l ys"
  then have "map Item xs = (map Item ys :: 'a slot list)" by (auto simp: list_rep_def append_eq_append_conv)
  then show ?thesis by (rule map_injective) (auto intro: injI)
qed

section \<open>Memory\<close>

lemma write_slots_mid:
  "length a = off \<Longrightarrow> length b = length src \<Longrightarrow> write_slots off src (a @ b @ c) = Inr (a @ src @ c)"
  by (simp add: write_slots_def)

lemma read_slots_mid: "length a = off \<Longrightarrow> length b = n \<Longrightarrow> read_slots off n (a @ b @ c) = Inr b"
  by (simp add: read_slots_def)

lemma m_new_exact: "n < 2 ^ 30 \<Longrightarrow> m_new n = replicate n Uninit"
  by (simp add: m_new_def u32_id)

lemma m_renew_exact: "n < 2 ^ 30 \<Longrightarrow> m_renew mem n = take n mem @ replicate (n - length mem) Uninit"
  by (simp add: m_renew_def u32_id Let_def)

lemma clear_tail: "n = length a \<Longrightarrow> al = length a + length b \<Longrightarrow> mp_seq_clear n al (a @ b) = Inr (a @ replicate (length b) MpNull)"
  using write_slots_mid [of a n b "replicate (length b) MpNull" "[]"] by (simp add: mp_seq_clear_def)

lemma read_items_map [simp]: "read_items (map Item xs) = Inr xs"
  by (induction xs) simp_all

lemma list_objs_rep: "list_rep l xs \<Longrightarrow> list_objs l = Inr xs"
  using read_slots_mid [of "[]" 0 "map Item xs"] by (simp add: list_objs_def list_rep_def)

lemma read_item_rep: "list_rep l xs \<Longrightarrow> i < length xs \<Longrightarrow> read_item i (items l) = Inr (xs ! i)"
  by (simp add: read_item_def list_rep_def nth_append)

lemma read_all_rep: "list_rep l xs \<Longrightarrow> read_slots 0 (length xs) (items l) = Inr (map Item xs)"
  using read_slots_mid [of "[]" 0 "map Item xs"] by (simp add: list_rep_def)

lemma write_tail:
  assumes "list_rep l xs" "length xs + length ys \<le> list_alloc l"
  shows "write_slots (length xs) (map Item ys) (items l) =
    Inr (map Item (xs @ ys) @ replicate (list_alloc l - (length xs + length ys)) MpNull)"
proof -
  have "items l = map Item xs @ replicate (length ys) MpNull @ replicate (list_alloc l - (length xs + length ys)) MpNull"
    using assms by (simp add: list_rep_def flip: replicate_add)
  then show ?thesis using write_slots_mid [of "map Item xs" "length xs" "replicate (length ys) MpNull" "map Item ys"] by simp
qed

section \<open>Construction and growth\<close>

lemma list_init_rep:
  assumes "n < 2 ^ 27"
  shows "\<exists>l. mp_obj_list_init n = Inr l \<and> 0 < list_alloc l \<and> list_alloc l < 2 ^ 28 \<and> n \<le> list_alloc l \<and> list_len l = n \<and>
    items l = replicate n Uninit @ replicate (list_alloc l - n) MpNull"
proof -
  define al where "al = (if n < LIST_MIN_ALLOC then LIST_MIN_ALLOC else n)"
  have al: "0 < al" "al < 2 ^ 28" "n \<le> al" using assms by (auto simp: al_def LIST_MIN_ALLOC_def)
  have "(m_new al :: 'a slot list) = replicate n Uninit @ replicate (al - n) Uninit"
    using al by (simp add: m_new_exact flip: replicate_add)
  then show ?thesis using al clear_tail [of n "replicate n Uninit" al "replicate (al - n) (Uninit :: 'a slot)"]
    by (simp add: mp_obj_list_init_def al_def [symmetric])
qed

lemma new_list_gives: "length xs < 2 ^ 27 \<Longrightarrow> gives (mp_obj_new_list xs) xs"
proof -
  assume "length xs < 2 ^ 27"
  then obtain l :: "'a mp_obj_list_t" where l: "mp_obj_list_init (length xs) = Inr l" "0 < list_alloc l" "list_alloc l < 2 ^ 28"
    "length xs \<le> list_alloc l" "list_len l = length xs"
    "items l = replicate (length xs) Uninit @ replicate (list_alloc l - length xs) MpNull" using list_init_rep by blast
  then show ?thesis using write_slots_mid [of "[]" 0 "replicate (length xs) Uninit" "map Item xs"]
    by (simp add: mp_obj_new_list_def list_rep_def)
qed

lemma append_gives:
  assumes "list_rep l xs" "length xs < 2 ^ 27"
  shows "gives (mp_obj_list_append l x) (xs @ [x])"
proof (cases "length xs < list_alloc l")
  case True
  then show ?thesis using assms(1) write_tail [OF assms(1), of "[x]"] by (simp add: mp_obj_list_append_def list_rep_def)
next
  case False
  then have e: "list_alloc l = length xs" "items l = map Item xs" "0 < length xs" using assms(1) by (auto simp: list_rep_def)
  have m: "m_renew (items l) (length xs * 2) = (map Item xs @ [Uninit]) @ replicate (length xs - 1) Uninit"
    using assms(2) e by (simp add: m_renew_exact flip: replicate_Suc)
  have c: "mp_seq_clear (length xs + 1) (length xs * 2) (m_renew (items l) (length xs * 2)) =
    Inr (map Item xs @ [Uninit] @ replicate (length xs - 1) MpNull)"
    unfolding m using e(3) by (subst clear_tail) simp_all
  have w: "write_slots (length xs) [Item x] (map Item xs @ [Uninit] @ replicate (length xs - 1) MpNull) =
    Inr (map Item xs @ [Item x] @ replicate (length xs - 1) MpNull)" by (rule write_slots_mid) simp_all
  show ?thesis using assms e c w by (simp add: mp_obj_list_append_def list_rep_def Let_def Suc_le_eq)
qed

lemma extend_iter_gives:
  assumes "list_rep l xs" "length xs + length ys < 2 ^ 27"
  shows "gives (list_extend_from_iter l ys) (xs @ ys)"
  using assms
proof (induction ys arbitrary: l xs)
  case (Cons y ys)
  then obtain l' where "mp_obj_list_append l y = Inr l'" "list_rep l' (xs @ [y])" using append_gives [of l xs y] by (auto simp: gives_iff)
  then show ?case using Cons.IH [of l' "xs @ [y]"] Cons.prems(2) by simp
qed simp

lemma extend_gives:
  assumes "list_rep l xs" "list_rep r ys" "length xs + length ys < 2 ^ 27"
  shows "gives (list_extend l r) (xs @ ys)"
proof (cases "length xs + length ys \<le> list_alloc l")
  case True
  then show ?thesis using assms(1) write_tail [OF assms(1) True] read_all_rep [OF assms(2)] list_rep_len [OF assms(2)]
    by (simp add: list_extend_def list_rep_def)
next
  case False
  let ?al = "length xs + length ys + 4"
  have m: "m_renew (items l) ?al = (map Item xs @ replicate (list_alloc l - length xs) MpNull @
      replicate (length xs + length ys - list_alloc l) Uninit) @ replicate 4 Uninit"
    using assms(1,3) False by (auto simp: m_renew_exact list_rep_def simp flip: replicate_add intro: arg_cong [where f = "\<lambda>n. replicate n Uninit"])
  have c: "mp_seq_clear (length xs + length ys) ?al (m_renew (items l) ?al) = Inr (map Item xs @ (replicate (list_alloc l - length xs) MpNull @
      replicate (length xs + length ys - list_alloc l) Uninit) @ replicate 4 MpNull)"
    unfolding m using assms(1) False by (subst clear_tail) (auto simp: list_rep_def)
  have w: "write_slots (length xs) (map Item ys) (map Item xs @ (replicate (list_alloc l - length xs) MpNull @
      replicate (length xs + length ys - list_alloc l) Uninit) @ replicate 4 MpNull) = Inr (map Item xs @ map Item ys @ replicate 4 MpNull)"
    by (rule write_slots_mid) (use False assms(1) in \<open>auto simp: list_rep_def\<close>)
  show ?thesis using assms(1,3) False c w read_all_rep [OF assms(2)] list_rep_len [OF assms(2)]
    by (simp add: list_extend_def list_rep_def Let_def)
qed

lemma clear_gives: "list_rep l xs \<Longrightarrow> gives (list_clear l) []"
proof -
  have "mp_seq_clear 0 4 (m_renew (items l) 4) = Inr (replicate 4 MpNull)"
    using clear_tail [of 0 "[]" 4 "m_renew (items l) 4"] by (simp add: m_renew_exact)
  then show ?thesis by (simp add: list_clear_def LIST_MIN_ALLOC_def list_rep_def)
qed

lemma copy_gives: "list_rep l xs \<Longrightarrow> length xs < 2 ^ 27 \<Longrightarrow> gives (list_copy l) xs"
  by (simp add: list_copy_def list_objs_rep new_list_gives)

lemma make_new_gives: "length xs < 2 ^ 27 \<Longrightarrow> gives (list_make_new xs) xs"
proof -
  assume "length xs < 2 ^ 27"
  obtain l where "mp_obj_new_list [] = Inr l" "list_rep l ([] :: 'a list)" using new_list_gives [of "[]"] by (auto simp: gives_iff)
  then show ?thesis using extend_iter_gives [of l "[]" xs] \<open>length xs < 2 ^ 27\<close> by (simp add: list_make_new_def)
qed

section \<open>Indices\<close>

text \<open>
  An integer that the conversion to a machine integer takes, an index of Python counted from the end when negative, and the
  index of a slice or insertion.
\<close>

definition is_mp_int :: "int \<Rightarrow> bool" where
  "is_mp_int i \<longleftrightarrow> - (2 ^ 31) < i \<and> i < 2 ^ 31"

lemma get_int_exact: "is_mp_int i \<Longrightarrow> mp_obj_get_int i = Inr i" "is_mp_int i \<Longrightarrow> mp_obj_get_int_maybe i = Inr i"
  by (auto simp: is_mp_int_def mp_obj_get_int_def mp_obj_get_int_maybe_def)

lemma get_int_overflow: "\<not> is_mp_int i \<Longrightarrow> mp_obj_get_int i = Inl OverflowErr" "\<not> is_mp_int i \<Longrightarrow> mp_obj_get_int_maybe i = Inl OverflowErr"
  by (auto simp: is_mp_int_def mp_obj_get_int_def mp_obj_get_int_maybe_def)

definition py_index :: "nat \<Rightarrow> int \<Rightarrow> nat option" where
  "py_index n i = (let i = (if i < 0 then i + int n else i) in if 0 \<le> i \<and> i < int n then Some (nat i) else None)"

definition py_clamp :: "nat \<Rightarrow> int \<Rightarrow> nat" where
  "py_clamp n i = nat (max 0 (min (int n) (if i < 0 then i + int n else i)))"

lemma py_index_less: "py_index n i = Some k \<Longrightarrow> k < n"
  by (auto simp: py_index_def Let_def split: if_splits)

lemma py_clamp_le: "py_clamp n i \<le> n"
  by (simp add: py_clamp_def)

lemma get_index_item:
  assumes "is_mp_int i" "n < 2 ^ 31"
  shows "mp_get_index n i False = (case py_index n i of None \<Rightarrow> Inl IndexError | Some k \<Rightarrow> Inr k)"
  using assms s32_id [of "i + int n"] by (auto simp: mp_get_index_def get_int_exact [OF assms(1)] py_index_def is_mp_int_def Let_def)

lemma get_index_slice:
  assumes "is_mp_int i" "n < 2 ^ 31"
  shows "mp_get_index n i True = Inr (py_clamp n i)"
  using assms s32_id [of "i + int n"] by (auto simp: mp_get_index_def get_int_exact [OF assms(1)] py_clamp_def is_mp_int_def Let_def)

lemma rep_short: "list_rep l xs \<Longrightarrow> length xs < 2 ^ 31"
  by (simp add: list_rep_def)

section \<open>Methods\<close>

lemma rep_split:
  assumes "list_rep l xs" "k < length xs"
  shows "items l = map Item (take k xs) @ [Item (xs ! k)] @ map Item (drop (Suc k) xs) @ replicate (list_alloc l - length xs) MpNull"
proof -
  have "map Item xs = map Item (take k xs @ xs ! k # drop (Suc k) xs)" using assms(2) by (simp add: id_take_nth_drop [symmetric])
  then show ?thesis using assms(1) by (simp add: list_rep_def)
qed

definition delete_at :: "nat \<Rightarrow> 'a list \<Rightarrow> 'a list" where
  "delete_at k xs = take k xs @ drop (Suc k) xs"

lemma delete_at_length: "k < length xs \<Longrightarrow> length (delete_at k xs) = length xs - 1"
  by (simp add: delete_at_def)

lemma pop_memory:
  assumes "list_rep l xs" "k < length xs"
  shows "\<exists>mem. read_slots (k + 1) (length xs - 1 - k) (items l) = Inr (map Item (drop (Suc k) xs)) \<and>
    write_slots k (map Item (drop (Suc k) xs)) (items l) = Inr mem \<and>
    write_slots (length xs - 1) [MpNull] mem = Inr (map Item (delete_at k xs) @ replicate (list_alloc l - (length xs - 1)) MpNull)"
proof -
  let ?a = "map Item (take k xs)" and ?d = "map Item (drop (Suc k) xs)" and ?r = "replicate (list_alloc l - length xs) MpNull"
  note it = rep_split [OF assms]
  have rd: "read_slots (k + 1) (length xs - 1 - k) (items l) = Inr ?d"
    using read_slots_mid [of "?a @ [Item (xs ! k)]" "k + 1" ?d "length xs - 1 - k" ?r] assms(2) by (simp add: it)
  obtain b c where bc: "Item (xs ! k) # ?d = b @ [c]" by (metis rev_exhaust list.distinct(1))
  then have "length b = length ?d" by (metis length_append_singleton length_Cons nat.inject)
  moreover have "items l = ?a @ b @ [c] @ ?r" using bc it by simp
  ultimately have wr: "write_slots k ?d (items l) = Inr (?a @ ?d @ [c] @ ?r)" using assms(2) by (simp add: write_slots_mid)
  have "write_slots (length xs - 1) [MpNull] ((?a @ ?d) @ [c] @ ?r) = Inr ((?a @ ?d) @ [MpNull] @ ?r)"
    by (rule write_slots_mid) (use assms(2) in auto)
  moreover have "[MpNull] @ ?r = replicate (list_alloc l - (length xs - 1)) MpNull"
    using assms by (simp add: list_rep_def Suc_diff_le flip: replicate_Suc)
  ultimately show ?thesis using rd wr by (simp add: delete_at_def)
qed

lemma pop_some:
  assumes "list_rep l xs" "is_mp_int (case arg of None \<Rightarrow> - 1 | Some i \<Rightarrow> i)" "py_index (length xs) (case arg of None \<Rightarrow> - 1 | Some i \<Rightarrow> i) = Some k"
  shows "\<exists>l'. list_pop l arg = Inr (xs ! k, l') \<and> list_rep l' (delete_at k xs)"
proof -
  have k: "k < length xs" using py_index_less [OF assms(3)] .
  have gi: "mp_get_index (length xs) (case arg of None \<Rightarrow> - 1 | Some i \<Rightarrow> i) False = Inr k"
    using get_index_item [OF assms(2) rep_short [OF assms(1)]] assms(3) by simp
  define ys where "ys = delete_at k xs"
  have ys: "length ys = length xs - 1" using delete_at_length [OF k] by (simp add: ys_def)
  obtain mem where m: "read_slots (k + 1) (length xs - 1 - k) (items l) = Inr (map Item (drop (Suc k) xs))"
    "write_slots k (map Item (drop (Suc k) xs)) (items l) = Inr mem"
    "write_slots (length xs - 1) [MpNull] mem = Inr (map Item ys @ replicate (list_alloc l - length ys) MpNull)"
    using pop_memory [OF assms(1) k] by (auto simp: ys ys_def [symmetric])
  have sh: "m_renew (map Item ys @ replicate (list_alloc l - length ys) MpNull) (list_alloc l div 2) =
      map Item ys @ replicate (list_alloc l div 2 - length ys) MpNull" if "list_alloc l > 2 * length ys"
    using assms(1) that by (auto simp: m_renew_exact list_rep_def)
  note ri = read_item_rep [OF assms(1) k]
  have r: "0 < list_alloc l" "list_alloc l < 2 ^ 28" "length xs \<le> list_alloc l" "list_len l = length xs" using assms(1) by (auto simp: list_rep_def)
  show ?thesis
  proof (cases "list_alloc l > LIST_MIN_ALLOC \<and> list_alloc l > 2 * length ys")
    case True
    then have "list_alloc l div 2 < 268435456" "length xs - Suc 0 \<le> list_alloc l div 2" "xs \<noteq> []" using r ys k by auto
    then show ?thesis using True gi m ri r k sh ys unfolding list_pop_def ys_def [symmetric]
      by (simp add: list_rep_def LIST_MIN_ALLOC_def)
  next
    case False
    then show ?thesis using gi m ri r k ys unfolding list_pop_def ys_def [symmetric] by (auto simp: list_rep_def)
  qed
qed

lemma pop_none:
  assumes "list_rep l xs" "is_mp_int (case arg of None \<Rightarrow> - 1 | Some i \<Rightarrow> i)" "py_index (length xs) (case arg of None \<Rightarrow> - 1 | Some i \<Rightarrow> i) = None"
  shows "list_pop l arg = Inl IndexError"
  using get_index_item [OF assms(2) rep_short [OF assms(1)]] assms(3) list_rep_len [OF assms(1)] by (simp add: list_pop_def)

lemma write_item:
  assumes "list_rep l xs" "k < length xs"
  shows "write_slots k [Item x] (items l) = Inr (map Item (xs[k := x]) @ replicate (list_alloc l - length xs) MpNull)"
proof -
  have "map Item (xs[k := x]) = map Item (take k xs) @ [Item x] @ map Item (drop (Suc k) xs)"
    using assms(2) by (simp add: upd_conv_take_nth_drop)
  then show ?thesis using assms(2) unfolding rep_split [OF assms] by (subst write_slots_mid) simp_all
qed

lemma store_gives:
  assumes "list_rep l xs" "is_mp_int i"
  shows "case py_index (length xs) i of None \<Rightarrow> mp_obj_list_store l i x = Inl IndexError
    | Some k \<Rightarrow> gives (mp_obj_list_store l i x) (xs[k := x])"
proof (cases "py_index (length xs) i")
  case None
  then show ?thesis using get_index_item [OF assms(2) rep_short [OF assms(1)]] list_rep_len [OF assms(1)] by (simp add: mp_obj_list_store_def)
next
  case (Some k)
  then show ?thesis using get_index_item [OF assms(2) rep_short [OF assms(1)]] write_item [OF assms(1) py_index_less [OF Some], of x] assms(1)
    by (simp add: mp_obj_list_store_def list_rep_def)
qed

lemma load_gives:
  assumes "list_rep l xs" "is_mp_int i"
  shows "list_load l i = (case py_index (length xs) i of None \<Rightarrow> Inl IndexError | Some k \<Rightarrow> Inr (xs ! k))"
  using get_index_item [OF assms(2) rep_short [OF assms(1)]] list_rep_len [OF assms(1)] read_item_rep [OF assms(1)] py_index_less
  by (auto simp: list_load_def split: option.splits)

lemma shift_loop_mid: "\<exists>y. shift_loop (length a) (length a + length b) (a @ b @ [c] @ r) = Inr (a @ [y] @ b @ r)"
proof (induction b arbitrary: c r rule: rev_induct)
  case Nil
  then show ?case by (simp add: shift_loop.simps)
next
  case (snoc z b)
  have rd: "read_slots (length a + length b) 1 (a @ (b @ [z]) @ [c] @ r) = Inr [z]"
    using read_slots_mid [of "a @ b" "length a + length b" "[z]" 1 "[c] @ r"] by simp
  have wr: "write_slots (Suc (length a + length b)) [z] (a @ (b @ [z]) @ [c] @ r) = Inr (a @ b @ [z] @ z # r)"
    using write_slots_mid [of "a @ b @ [z]" "Suc (length a + length b)" "[c]" "[z]" r] by simp
  show ?case using snoc.IH [of z "z # r"] rd wr by (simp add: shift_loop.simps [of "length a" "Suc (length a + length b)"])
qed

text \<open>An insertion at any object word goes to the place of half the word, so a small integer to its own.\<close>

lemma insert_word_gives:
  assumes "list_rep l xs" "- (2 ^ 31) \<le> w" "w < 2 ^ 31" "length xs < 2 ^ 27" and i: "i = w div 2"
  shows "gives (list_insert none l w x) (take (py_clamp (length xs) i) xs @ x # drop (py_clamp (length xs) i) xs)"
proof -
  define k where "k = py_clamp (length xs) i"
  have k: "k \<le> length xs" by (simp add: k_def py_clamp_le)
  have ki: "(let index = (if i < 0 then s32 (i + int (length xs)) else i); index = (if index < 0 then 0 else index)
     in if index > int (length xs) then length xs else nat index) = k"
    using assms(2-4) i s32_id [of "i + int (length xs)"] by (auto simp: k_def py_clamp_def Let_def)
  have v: "MP_OBJ_SMALL_INT_VALUE w = i" by (simp add: i MP_OBJ_SMALL_INT_VALUE_def drop_bit_eq_div)
  obtain l' where l': "mp_obj_list_append l none = Inr l'" "list_rep l' (xs @ [none])" using append_gives [OF assms(1,4)] by (auto simp: gives_iff)
  let ?r = "replicate (list_alloc l' - Suc (length xs)) MpNull"
  have it: "items l' = map Item (take k xs) @ map Item (drop k xs) @ [Item none] @ ?r"
  proof -
    have "map Item xs = map Item (take k xs) @ map Item (drop k xs)" by (simp flip: map_append)
    moreover have "items l' = map Item xs @ [Item none] @ ?r" using l'(2) by (simp add: list_rep_def)
    ultimately show ?thesis by simp
  qed
  obtain y where y: "shift_loop k (length xs) (items l') = Inr (map Item (take k xs) @ [y] @ map Item (drop k xs) @ ?r)"
    using shift_loop_mid [of "map Item (take k xs)" "map Item (drop k xs)" "Item none" ?r] k by (auto simp: it)
  have w: "write_slots k [Item x] (map Item (take k xs) @ [y] @ map Item (drop k xs) @ ?r) = Inr (map Item (take k xs) @ [Item x] @ map Item (drop k xs) @ ?r)"
    by (rule write_slots_mid) (use k in auto)
  have "list_insert none l w x = Inr (l'\<lparr>items := map Item (take k xs) @ [Item x] @ map Item (drop k xs) @ ?r\<rparr>)"
    unfolding list_insert_def v Let_def list_rep_len [OF assms(1)] ki [unfolded Let_def] l'(1) res_bind_simps
    using list_rep_len [OF l'(2)] y w by simp
  then show ?thesis using l'(2) k by (simp add: list_rep_def k_def [symmetric])
qed

lemma insert_gives:
  assumes "list_rep l xs" "small i" "length xs < 2 ^ 27"
  shows "gives (list_insert none l (small_int_word i) x) (take (py_clamp (length xs) i) xs @ x # drop (py_clamp (length xs) i) xs)"
proof -
  have "small_int_word i = 2 * i + 1" using assms(2) by (simp add: small_int_word_def small_def s32_id)
  then show ?thesis using assms(2,3) by (intro insert_word_gives [OF assms(1)]) (simp_all add: small_def)
qed

lemma two_ends:
  assumes "2 \<le> length m"
  obtains x m' y where "m = x # m' @ [y]"
proof -
  obtain x r where r: "m = x # r" "r \<noteq> []" using assms by (cases m) (auto simp: Suc_le_eq)
  then show ?thesis using that by (metis rev_exhaust)
qed

lemma reverse_loop_mid:
  assumes "len = 2 * length a + length m"
  shows "reverse_loop (length m div 2) (length a) len (a @ map Item m @ b) = Inr (a @ map Item (rev m) @ b)"
  using assms
proof (induction "length m" arbitrary: m a b rule: less_induct)
  case less
  show ?case
  proof (cases "length m < 2")
    case True
    then have "m = [] \<or> (\<exists>x. m = [x])" by (cases m) auto
    then show ?thesis by auto
  next
    case False
    then obtain x m' y where m: "m = x # m' @ [y]" by (meson two_ends not_less)
    let ?mem = "a @ Item x # map Item m' @ [Item y] @ b"
    have pos: "len - length a - 1 = length a + Suc (length m')" using less.prems by (simp add: m)
    have r1: "read_item (length a) ?mem = Inr x" by (simp add: read_item_def)
    have r2: "read_slots (len - length a - 1) 1 ?mem = Inr [Item y]"
      using read_slots_mid [of "a @ Item x # map Item m'" "len - length a - 1" "[Item y]" 1 b] pos by simp
    have w1: "write_slots (length a) [Item y] ?mem = Inr (a @ [Item y] @ map Item m' @ [Item y] @ b)"
      using write_slots_mid [of a "length a" "[Item x]" "[Item y]" "map Item m' @ [Item y] @ b"] by simp
    have w2: "write_slots (len - length a - 1) [Item x] (a @ [Item y] @ map Item m' @ [Item y] @ b) = Inr ((a @ [Item y]) @ map Item m' @ [Item x] @ b)"
      using write_slots_mid [of "a @ [Item y] @ map Item m'" "len - length a - 1" "[Item y]" "[Item x]" b] pos by simp
    have "reverse_loop (length m' div 2) (length (a @ [Item y])) len ((a @ [Item y]) @ map Item m' @ [Item x] @ b) =
        Inr ((a @ [Item y]) @ map Item (rev m') @ [Item x] @ b)"
      by (rule less.hyps) (use less.prems m in auto)
    then show ?thesis using r1 r2 w1 w2 by (simp add: m)
  qed
qed

lemma reverse_gives: "list_rep l xs \<Longrightarrow> gives (list_reverse l) (rev xs)"
  using reverse_loop_mid [of "length xs" "[]" xs] by (simp add: list_reverse_def list_rep_def)

lemma count_obj: "mp_seq_count_obj eq xs v = length (filter (\<lambda>x. eq x v) xs)"
proof -
  have "fold (\<lambda>x count. if eq x v then count + 1 else count) xs n = n + length (filter (\<lambda>x. eq x v) xs)" for n
    by (induction xs arbitrary: n) simp_all
  then show ?thesis by (simp add: mp_seq_count_obj_def)
qed

lemma count_gives: "list_rep l xs \<Longrightarrow> list_count eq l v = Inr (length (filter (\<lambda>x. eq x v) xs))"
  by (simp add: list_count_def list_objs_rep count_obj)

text \<open>The first position in a range that satisfies a predicate.\<close>

definition first_in :: "('a \<Rightarrow> bool) \<Rightarrow> nat \<Rightarrow> nat \<Rightarrow> 'a list \<Rightarrow> nat option" where
  "first_in P lo hi xs = find (\<lambda>i. P (xs ! i)) [lo..<min hi (length xs)]"

lemma index_loop_first:
  "lo \<le> length xs \<Longrightarrow> index_loop eq (drop lo xs) lo hi v =
    (case first_in (\<lambda>x. eq x v) lo hi xs of None \<Rightarrow> Inl ValueError | Some i \<Rightarrow> Inr i)"
proof (induction "length xs - lo" arbitrary: lo)
  case 0
  then show ?case by (simp add: first_in_def)
next
  case (Suc n)
  then have "lo < length xs" by simp
  then show ?case using Suc.hyps(1) [of "Suc lo"] Suc.hyps(2)
    by (cases "lo < hi") (simp_all add: first_in_def upt_conv_Cons flip: Cons_nth_drop_Suc)
qed

lemma first_in_less: "first_in P lo hi xs = Some i \<Longrightarrow> i < length xs"
proof -
  assume "first_in P lo hi xs = Some i"
  then have "i \<in> set [lo..<min hi (length xs)]" unfolding first_in_def find_Some_iff by (metis nth_mem)
  then show ?thesis by simp
qed

lemma index_gives:
  assumes "list_rep l xs" "pred_option is_mp_int arg2" "pred_option is_mp_int arg3"
  shows "list_index eq l v arg2 arg3 =
    (case first_in (\<lambda>x. eq x v) (case arg2 of None \<Rightarrow> 0 | Some i \<Rightarrow> py_clamp (length xs) i)
       (case (arg2, arg3) of (Some _, Some i) \<Rightarrow> py_clamp (length xs) i | _ \<Rightarrow> length xs) xs of
       None \<Rightarrow> Inl ValueError | Some i \<Rightarrow> Inr i)"
  using assms(2,3) index_loop_first [of 0 xs eq "length xs" v] index_loop_first [OF py_clamp_le, where xs = xs and eq = eq and v = v]
    get_index_slice [OF _ rep_short [OF assms(1)]]
  by (cases arg2; cases arg3) (simp_all add: list_index_def list_objs_rep [OF assms(1)] mp_seq_index_obj_def)

lemma remove_gives:
  assumes "list_rep l xs"
  shows "case first_in (\<lambda>x. eq x v) 0 (length xs) xs of None \<Rightarrow> mp_obj_list_remove eq l v = Inl ValueError
    | Some k \<Rightarrow> gives (mp_obj_list_remove eq l v) (delete_at k xs)"
proof (cases "first_in (\<lambda>x. eq x v) 0 (length xs) xs")
  case None
  then show ?thesis using index_gives [OF assms, of None None eq v] by (simp add: mp_obj_list_remove_def)
next
  case (Some k)
  have "k < length xs" using first_in_less [OF Some] .
  then have "py_index (length xs) (int k) = Some k" "is_mp_int (int k)" using rep_short [OF assms] by (auto simp: py_index_def is_mp_int_def)
  then obtain l' where "list_pop l (Some (int k)) = Inr (xs ! k, l')" "list_rep l' (delete_at k xs)"
    using pop_some [OF assms, of "Some (int k)" k] by auto
  then show ?thesis using Some index_gives [OF assms, of None None eq v] by (simp add: mp_obj_list_remove_def)
qed

lemma iternext_gives:
  "list_rep l xs \<Longrightarrow> list_it_iternext l cur = Inr (if cur < length xs then Some (xs ! cur, cur + 1) else None)"
  by (simp add: list_it_iternext_def list_rep_len read_item_rep)

section \<open>Operators\<close>

lemma add_gives:
  assumes "list_rep l xs" "list_rep r ys" "length xs + length ys < 2 ^ 27"
  shows "gives (list_add l r) (xs @ ys)"
proof -
  obtain s :: "'a mp_obj_list_t" where s: "mp_obj_list_init (length xs + length ys) = Inr s" "0 < list_alloc s" "list_alloc s < 2 ^ 28"
    "length xs + length ys \<le> list_alloc s" "list_len s = length xs + length ys"
    "items s = replicate (length xs) Uninit @ replicate (length ys) Uninit @ replicate (list_alloc s - (length xs + length ys)) MpNull"
    using list_init_rep [OF assms(3)] by (auto simp: replicate_add)
  define r' where "r' = replicate (list_alloc s - (length xs + length ys)) (MpNull :: 'a slot)"
  have w1: "write_slots 0 (map Item xs) (items s) = Inr (map Item xs @ replicate (length ys) Uninit @ r')"
    using write_slots_mid [of "[]" 0 "replicate (length xs) Uninit" "map Item xs"] by (simp add: s r'_def)
  have w2: "write_slots (length xs) (map Item ys) (map Item xs @ replicate (length ys) Uninit @ r') = Inr (map Item xs @ map Item ys @ r')"
    by (rule write_slots_mid) simp_all
  show ?thesis using w1 w2 s(1-5) read_all_rep [OF assms(1)] read_all_rep [OF assms(2)] list_rep_len [OF assms(1)] list_rep_len [OF assms(2)]
    by (simp add: list_add_def list_rep_def r'_def)
qed

lemma seq_multiply_mid:
  "length b = n * length src \<Longrightarrow> mp_seq_multiply n src (length a) (a @ b @ c) = Inr (a @ concat (replicate n src) @ c)"
proof (induction n arbitrary: a b)
  case (Suc n)
  then obtain b1 b2 where b: "b = b1 @ b2" "length b1 = length src" using that [of "take (length src) b" "drop (length src) b"] by simp
  then show ?case using write_slots_mid [of a "length a" b1 src "b2 @ c"] Suc.IH [of b2 "a @ src"] Suc.prems by simp
qed simp

lemma multiply_gives:
  assumes "list_rep l xs" "length xs * nat n < 2 ^ 27" "is_mp_int n"
  shows "gives (list_multiply l n) (concat (replicate (nat n) xs))"
proof -
  have n: "nat (if n < 0 then 0 else n) = nat n" by simp
  obtain s :: "'a mp_obj_list_t" where s: "mp_obj_list_init (length xs * nat n) = Inr s" "0 < list_alloc s" "list_alloc s < 2 ^ 28"
    "length xs * nat n \<le> list_alloc s" "list_len s = length xs * nat n"
    "items s = replicate (length xs * nat n) Uninit @ replicate (list_alloc s - length xs * nat n) MpNull"
    using list_init_rep [OF assms(2)] by blast
  define r' where "r' = replicate (list_alloc s - length xs * nat n) (MpNull :: 'a slot)"
  have "mp_seq_multiply (nat n) (map Item xs) 0 (items s) = Inr (concat (replicate (nat n) (map Item xs)) @ r')"
    using seq_multiply_mid [of "replicate (length xs * nat n) Uninit" "nat n" "map Item xs" "[]" r'] by (simp add: s(6) r'_def)
  moreover have "concat (replicate (nat n) (map Item xs)) = map Item (concat (replicate (nat n) xs))" by (simp add: map_concat)
  moreover have "length (concat (replicate (nat n) xs)) = length xs * nat n" by (simp add: length_concat sum_list_replicate)
  ultimately show ?thesis using s(1-5) n assms(2) list_rep_len [OF assms(1)] read_all_rep [OF assms(1)]
    unfolding list_multiply_def get_int_exact [OF assms(3)] res_bind_simps Let_def n by (simp add: list_rep_def r'_def u32_id)
qed

lemma multiply_overflow_error: "\<not> is_mp_int n \<Longrightarrow> list_multiply l n = Inl OverflowErr"
  by (simp add: list_multiply_def get_int_overflow)

end
