(* ===== verification/Mp_Slice_Laws.thy ===== *)
theory Mp_Slice_Laws
  imports Mp_List_Laws
begin

text \<open>
  Slices of lists against Python's definition of a slice: the bounds are clamped to the sequence and the elements are
  those at the start and every step from there, as many as fit before the stop.
\<close>

section \<open>Python's slices\<close>

definition py_step :: "mp_obj_slice_t \<Rightarrow> int" where
  "py_step sl = (case slice_step sl of None \<Rightarrow> 1 | Some s \<Rightarrow> s)"

definition py_bound :: "int \<Rightarrow> int \<Rightarrow> int \<Rightarrow> int \<Rightarrow> int" where
  "py_bound lo hi n i = max lo (min hi (if i < 0 then i + n else i))"

definition py_start :: "int \<Rightarrow> mp_obj_slice_t \<Rightarrow> int" where
  "py_start n sl =
     (if py_step sl > 0 then case slice_start sl of None \<Rightarrow> 0 | Some i \<Rightarrow> py_bound 0 n n i
      else case slice_start sl of None \<Rightarrow> n - 1 | Some i \<Rightarrow> py_bound (- 1) (n - 1) n i)"

definition py_stop :: "int \<Rightarrow> mp_obj_slice_t \<Rightarrow> int" where
  "py_stop n sl =
     (if py_step sl > 0 then case slice_stop sl of None \<Rightarrow> n | Some i \<Rightarrow> py_bound 0 n n i
      else case slice_stop sl of None \<Rightarrow> - 1 | Some i \<Rightarrow> py_bound (- 1) (n - 1) n i)"

text \<open>The number of steps \<open>s\<close> from \<open>a\<close> that stay before \<open>b\<close>.\<close>

definition py_span :: "int \<Rightarrow> int \<Rightarrow> int \<Rightarrow> nat" where
  "py_span a b s = nat (if s > 0 then (b - a + s - 1) div s else (a - b - s - 1) div (- s))"

definition py_count :: "int \<Rightarrow> mp_obj_slice_t \<Rightarrow> nat" where
  "py_count n sl = py_span (py_start n sl) (py_stop n sl) (py_step sl)"

definition py_slice :: "'a list \<Rightarrow> mp_obj_slice_t \<Rightarrow> 'a list" where
  "py_slice xs sl =
     map (\<lambda>k. xs ! nat (py_start (int (length xs)) sl + int k * py_step sl)) [0..<py_count (int (length xs)) sl]"

text \<open>Deletion and assignment of a slice of step one.\<close>

definition py_replace :: "'a list \<Rightarrow> mp_obj_slice_t \<Rightarrow> 'a list \<Rightarrow> 'a list" where
  "py_replace xs sl ys =
     (let lo = nat (py_start (int (length xs)) sl); hi = max lo (nat (py_stop (int (length xs)) sl))
      in take lo xs @ ys @ drop hi xs)"

definition is_mp_slice :: "mp_obj_slice_t \<Rightarrow> bool" where
  "is_mp_slice sl \<longleftrightarrow> pred_option is_mp_int (slice_start sl) \<and> pred_option is_mp_int (slice_stop sl) \<and> pred_option is_mp_int (slice_step sl)"

section \<open>Bounds\<close>

lemma py_start_range:
  assumes "0 \<le> n"
  shows "py_step sl > 0 \<Longrightarrow> 0 \<le> py_start n sl \<and> py_start n sl \<le> n" "\<not> py_step sl > 0 \<Longrightarrow> - 1 \<le> py_start n sl \<and> py_start n sl < n"
  using assms by (auto simp: py_start_def py_bound_def split: option.splits)

lemma py_stop_range:
  assumes "0 \<le> n"
  shows "py_step sl > 0 \<Longrightarrow> 0 \<le> py_stop n sl \<and> py_stop n sl \<le> n" "\<not> py_step sl > 0 \<Longrightarrow> - 1 \<le> py_stop n sl \<and> py_stop n sl < n"
  using assms by (auto simp: py_stop_def py_bound_def split: option.splits)

lemma bound_index_exact:
  assumes "is_mp_int i" "0 \<le> n" "n < 2 ^ 31" "lo \<le> hi"
  shows "bound_index n lo hi i = Inr (py_bound lo hi n i)"
  using assms s32_id [of "i + n"] by (auto simp: bound_index_def get_int_exact [OF assms(1)] py_bound_def is_mp_int_def Let_def max_def min_def)

lemma slice_indices_exact:
  assumes "is_mp_slice sl" "py_step sl \<noteq> 0" "0 \<le> n" "n < 2 ^ 31"
  shows "mp_obj_slice_indices sl n = Inr \<lparr>start = py_start n sl, stop = py_stop n sl, step = py_step sl\<rparr>"
proof -
  have "(case slice_step sl of None \<Rightarrow> Inr 1 | Some n \<Rightarrow> mp_obj_get_int n) = Inr (py_step sl)"
    using assms(1) by (cases "slice_step sl") (simp_all add: py_step_def is_mp_slice_def get_int_exact)
  then show ?thesis using assms bound_index_exact [of _ n 0 n] bound_index_exact [of _ n "- 1" "n - 1"]
    by (auto simp: mp_obj_slice_indices_def py_start_def py_stop_def is_mp_slice_def split: option.split)
qed

lemma slice_indices_zero: "py_step sl = 0 \<Longrightarrow> mp_obj_slice_indices sl n = Inl ZeroStep"
  by (cases "slice_step sl") (simp_all add: mp_obj_slice_indices_def py_step_def mp_obj_get_int_def)

text \<open>The end of the loop of the code: one more than the stop for a negative step, and the start for an empty slice.\<close>

definition loop_end :: "int \<Rightarrow> mp_obj_slice_t \<Rightarrow> int" where
  "loop_end n sl =
     (if py_step sl > 0 then max (py_start n sl) (py_stop n sl)
      else if py_start n sl < py_stop n sl + 1 then py_start n sl + 1 else py_stop n sl + 1)"

lemma fast_indexes_exact:
  assumes "is_mp_slice sl" "py_step sl \<noteq> 0" "n < 2 ^ 31"
  shows "mp_seq_get_fast_slice_indexes n sl =
    Inr (py_step sl = 1, \<lparr>start = py_start (int n) sl, stop = loop_end (int n) sl, step = py_step sl\<rparr>)"
  using assms(2) slice_indices_exact [OF assms(1,2), of "int n"] assms(3)
  by (simp add: mp_seq_get_fast_slice_indexes_def loop_end_def Let_def max_def)

lemma fast_indexes_zero: "py_step sl = 0 \<Longrightarrow> mp_seq_get_fast_slice_indexes n sl = Inl ZeroStep"
  by (simp add: mp_seq_get_fast_slice_indexes_def slice_indices_zero)

section \<open>Loading\<close>

lemma int_less_div:
  assumes "0 < (s :: int)"
  shows "k < d div s \<longleftrightarrow> (k + 1) * s \<le> d"
proof
  assume "k < d div s"
  then have "(k + 1) * s \<le> d div s * s" using assms by (intro mult_right_mono) auto
  also have "\<dots> \<le> d" using assms by (metis add.commute div_mult_mod_eq le_add_same_cancel2 pos_mod_sign)
  finally show "(k + 1) * s \<le> d" .
next
  assume "(k + 1) * s \<le> d"
  then have "(k + 1) * s div s \<le> d div s" using assms by (intro zdiv_mono1)
  then show "k < d div s" using assms by simp
qed

lemma span_less:
  assumes "s \<noteq> 0"
  shows "k < py_span a b s \<longleftrightarrow> (if s > 0 then a + int k * s < b else b < a + int k * s)"
proof (cases "s > 0")
  case True
  then show ?thesis using int_less_div [OF True, of "int k" "b - a + s - 1"]
    by (simp add: py_span_def zless_nat_eq_int_zless algebra_simps) linarith
next
  case False
  then have "0 < - s" using assms by simp
  from int_less_div [OF this, of "int k" "a - b - s - 1"] show ?thesis using False
    by (simp add: py_span_def zless_nat_eq_int_zless algebra_simps) linarith
qed

lemma count_less:
  assumes "py_step sl \<noteq> 0"
  shows "k < py_count n sl \<longleftrightarrow>
    (if py_step sl > 0 then py_start n sl + int k * py_step sl < py_stop n sl else py_stop n sl < py_start n sl + int k * py_step sl)"
  unfolding py_count_def by (rule span_less [OF assms])

lemma extract_loop_steps:
  assumes "list_rep l xs" "list_rep res ys" "length ys + m < 2 ^ 27"
    "\<forall>k < m. (if s < 0 then i + int k * s \<ge> e else i + int k * s < e) \<and> 0 \<le> i + int k * s \<and> i + int k * s < int (length xs)"
    "\<not> (if s < 0 then i + int m * s \<ge> e else i + int m * s < e)" "\<forall>k \<le> m. is_mp_int (i + int k * s)"
  shows "\<exists>r. extract_loop (items l) i e s res = Some r \<and> gives r (ys @ map (\<lambda>k. xs ! nat (i + int k * s)) [0..<m])"
  using assms(2-6)
proof (induction m arbitrary: i res ys)
  case 0
  then have "\<not> (if s < 0 then i \<ge> e else i < e)" by (simp split: if_splits)
  then have "extract_loop (items l) i e s res = Some (Inr res)" by (subst extract_loop.simps) (rule if_not_P)
  then show ?case using 0 by simp
next
  case (Suc m)
  have i: "if s < 0 then i \<ge> e else i < e" "0 \<le> i" "i < int (length xs)" using Suc.prems(3) by force+
  then have rd: "read_item (nat i) (items l) = Inr (xs ! nat i)" using read_item_rep [OF assms(1), of "nat i"] by simp
  obtain res' where res': "mp_obj_list_append res (xs ! nat i) = Inr res'" "list_rep res' (ys @ [xs ! nat i])"
    using append_gives [OF Suc.prems(1), of "xs ! nat i"] Suc.prems(2) by (auto simp: gives_iff)
  have w: "s32 (i + s) = i + s" using Suc.prems(5) [rule_format, of 1] by (simp add: is_mp_int_def s32_id)
  have sh: "i + s + int k * s = i + int (Suc k) * s" for k by (simp add: algebra_simps)
  have "\<exists>r. extract_loop (items l) (i + s) e s res' = Some r \<and>
      gives r ((ys @ [xs ! nat i]) @ map (\<lambda>k. xs ! nat (i + s + int k * s)) [0..<m])"
    using res'(2) Suc.prems(2,3,4,5) by (intro Suc.IH) (simp_all only: sh, auto)
  moreover have "extract_loop (items l) i e s res = extract_loop (items l) (i + s) e s res'"
    using i rd res'(1) w by (subst extract_loop.simps) simp
  moreover have "map (\<lambda>k. xs ! nat (i + int k * s)) [0..<Suc m] = (xs ! nat i) # map (\<lambda>k. xs ! nat (i + s + int k * s)) [0..<m]"
    unfolding sh by (simp add: upt_conv_Cons map_Suc_upt [symmetric] del: upt_Suc)
  ultimately show ?case by simp
qed

lemma count_le_length:
  assumes "py_step sl \<noteq> 0"
  shows "py_count (int (length xs)) sl \<le> length xs"
proof (rule ccontr)
  let ?n = "int (length xs)" and ?k = "length xs"
  assume "\<not> ?thesis"
  then have less: "?k < py_count ?n sl" by simp
  show False
  proof (cases "py_step sl > 0")
    case True
    then have "?n * 1 \<le> ?n * py_step sl" by (intro mult_left_mono) auto
    then show False using less count_less [OF assms, of ?k ?n] py_start_range(1) [of ?n sl] py_stop_range(1) [of ?n sl] True by simp
  next
    case False
    then have "?n * py_step sl \<le> ?n * (- 1)" using assms by (intro mult_left_mono) auto
    then show False using less count_less [OF assms, of ?k ?n] py_start_range(2) [of ?n sl] py_stop_range(2) [of ?n sl] False by simp
  qed
qed

lemma slice_positions:
  assumes "py_step sl \<noteq> 0" "k < py_count (int (length xs)) sl"
  shows "0 \<le> py_start (int (length xs)) sl + int k * py_step sl \<and> py_start (int (length xs)) sl + int k * py_step sl < int (length xs)"
proof (cases "py_step sl > 0")
  case True
  then show ?thesis using count_less [OF assms(1)] assms(2) py_start_range(1) [of "int (length xs)" sl] py_stop_range(1) [of "int (length xs)" sl] by auto
next
  case False
  then have "int k * py_step sl \<le> 0" by (simp add: mult_nonneg_nonpos)
  then show ?thesis using False count_less [OF assms(1)] assms(2) py_start_range(2) [of "int (length xs)" sl] py_stop_range(2) [of "int (length xs)" sl] by auto
qed

lemma slice_no_overflow:
  assumes "is_mp_slice sl" "py_step sl \<noteq> 0" "int (length xs) + py_step sl \<le> 2 ^ 31" "length xs < 2 ^ 27" "k \<le> py_count (int (length xs)) sl"
  shows "is_mp_int (py_start (int (length xs)) sl + int k * py_step sl)"
proof (cases k)
  case 0
  then show ?thesis using py_start_range [of "int (length xs)" sl] assms(4) by (cases "py_step sl > 0") (auto simp: is_mp_int_def)
next
  case (Suc j)
  have "- (2 ^ 31) < py_step sl" using assms(1) by (auto simp: is_mp_slice_def is_mp_int_def py_step_def split: option.splits)
  moreover have "py_start (int (length xs)) sl + int k * py_step sl = py_start (int (length xs)) sl + int j * py_step sl + py_step sl"
    by (simp add: Suc algebra_simps)
  ultimately show ?thesis using slice_positions [OF assms(2), of j xs] assms(3,5) Suc by (auto simp: is_mp_int_def)
qed

lemma loop_condition:
  assumes "py_step sl \<noteq> 0" "k \<le> py_count (int n) sl"
  shows "(if py_step sl < 0 then py_start (int n) sl + int k * py_step sl \<ge> loop_end (int n) sl
      else py_start (int n) sl + int k * py_step sl < loop_end (int n) sl) \<longleftrightarrow> k < py_count (int n) sl"
proof -
  have z: "k = 0" if "py_count (int n) sl = 0" using assms(2) that by simp
  have "0 < py_count (int n) sl \<longleftrightarrow> (if py_step sl > 0 then py_start (int n) sl < py_stop (int n) sl else py_stop (int n) sl < py_start (int n) sl)"
    using count_less [OF assms(1), of 0 "int n"] by simp
  then show ?thesis using count_less [OF assms(1), of k "int n"] z assms(1)
    by (cases "py_count (int n) sl = 0") (auto simp: loop_end_def split: if_splits)
qed

lemma extract_slice_gives:
  assumes "list_rep l xs" "is_mp_slice sl" "py_step sl \<noteq> 0" "int (length xs) + py_step sl \<le> 2 ^ 31" "length xs < 2 ^ 27"
  shows "\<exists>r. mp_seq_extract_slice (items l)
      \<lparr>start = py_start (int (length xs)) sl, stop = loop_end (int (length xs)) sl, step = py_step sl\<rparr> = Some r \<and> gives r (py_slice xs sl)"
proof -
  obtain res where res: "mp_obj_new_list [] = Inr res" "list_rep res ([] :: 'a list)" using new_list_gives [of "[]"] by (auto simp: gives_iff)
  note lc = loop_condition [OF assms(3), of _ "length xs"]
  have "\<exists>r. extract_loop (items l) (py_start (int (length xs)) sl) (loop_end (int (length xs)) sl) (py_step sl) res = Some r \<and>
      gives r ([] @ map (\<lambda>k. xs ! nat (py_start (int (length xs)) sl + int k * py_step sl)) [0..<py_count (int (length xs)) sl])"
    using lc slice_positions [OF assms(3), where xs = xs] slice_no_overflow [OF assms(2-5)] count_le_length [OF assms(3), of xs] assms(5)
    by (intro extract_loop_steps [OF assms(1) res(2)]) simp_all
  then show ?thesis by (simp add: mp_seq_extract_slice_def res(1) py_slice_def)
qed

lemma py_slice_fast:
  assumes "py_step sl = 1"
  shows "py_slice xs sl = take (nat (loop_end (int (length xs)) sl - py_start (int (length xs)) sl)) (drop (nat (py_start (int (length xs)) sl)) xs)"
proof (rule nth_equalityI)
  let ?n = "int (length xs)"
  have r: "0 \<le> py_start ?n sl" "py_start ?n sl \<le> ?n" "py_stop ?n sl \<le> ?n" using py_start_range [of ?n sl] py_stop_range [of ?n sl] assms by auto
  have c: "py_count ?n sl = nat (py_stop ?n sl - py_start ?n sl)" by (simp add: py_count_def py_span_def assms)
  have e: "nat (loop_end ?n sl - py_start ?n sl) = nat (py_stop ?n sl - py_start ?n sl)" by (simp add: loop_end_def assms)
  show "length (py_slice xs sl) = length (take (nat (loop_end ?n sl - py_start ?n sl)) (drop (nat (py_start ?n sl)) xs))"
    using r by (simp add: py_slice_def c e)
  show "py_slice xs sl ! i = take (nat (loop_end ?n sl - py_start ?n sl)) (drop (nat (py_start ?n sl)) xs) ! i" if "i < length (py_slice xs sl)" for i
    using r that by (simp add: py_slice_def c e assms nat_add_distrib)
qed

lemma read_range:
  assumes "list_rep l xs" "lo + n \<le> length xs"
  shows "read_slots lo n (items l) = Inr (map Item (take n (drop lo xs)))"
  using assms by (simp add: read_slots_def list_rep_def take_map drop_map)

lemma slice_load_gives:
  assumes "list_rep l xs" "is_mp_slice sl" "int (length xs) + py_step sl \<le> 2 ^ 31" "length xs < 2 ^ 27"
  shows "if py_step sl = 0 then list_slice_load l sl = Some (Inl ZeroStep)
    else \<exists>r. list_slice_load l sl = Some r \<and> gives r (py_slice xs sl)"
proof (cases "py_step sl = 0")
  case True
  then show ?thesis by (simp add: list_slice_load_def fast_indexes_zero)
next
  case nz: False
  note fi = fast_indexes_exact [OF assms(2) nz rep_short [OF assms(1)]]
  show ?thesis
  proof (cases "py_step sl = 1")
    case False
    then show ?thesis using nz fi extract_slice_gives [OF assms(1,2) nz assms(3,4)] list_rep_len [OF assms(1)] by (simp add: list_slice_load_def)
  next
    case True
    let ?n = "int (length xs)"
    define a where "a = nat (py_start ?n sl)"
    define m where "m = nat (loop_end ?n sl - py_start ?n sl)"
    define ys where "ys = take m (drop a xs)"
    have "0 \<le> py_start ?n sl" "py_start ?n sl \<le> ?n" "py_stop ?n sl \<le> ?n" using py_start_range [of ?n sl] py_stop_range [of ?n sl] True by auto
    then have am: "a + m \<le> length xs" by (simp add: a_def m_def loop_end_def True)
    then have lys: "length ys = m" by (simp add: ys_def)
    have py: "py_slice xs sl = ys" unfolding ys_def a_def m_def by (rule py_slice_fast [OF True])
    have "m < 2 ^ 27" using am assms(4) by simp
    then obtain s :: "'a mp_obj_list_t" where s: "mp_obj_list_init m = Inr s" "0 < list_alloc s" "list_alloc s < 2 ^ 28"
      "m \<le> list_alloc s" "list_len s = m" "items s = replicate m Uninit @ replicate (list_alloc s - m) MpNull" using list_init_rep by blast
    have w: "write_slots 0 (map Item ys) (items s) = Inr (map Item ys @ replicate (list_alloc s - m) MpNull)"
      using write_slots_mid [of "[]" 0 "replicate m Uninit" "map Item ys"] lys by (simp add: s(6))
    have "list_slice_load l sl = Some (Inr (s\<lparr>items := map Item ys @ replicate (list_alloc s - m) MpNull\<rparr>))"
      using fi s(1,5) w read_range [OF assms(1) am] list_rep_len [OF assms(1)]
      by (simp add: list_slice_load_def True a_def [symmetric] m_def [symmetric] ys_def [symmetric])
    then show ?thesis using nz s(2-5) lys by (simp add: py list_rep_def)
  qed
qed

section \<open>Deletion and assignment\<close>

lemma split_length:
  assumes "length xs = m + n"
  obtains p q where "xs = p @ q" "length p = m" "length q = n"
  using assms that [of "take m xs" "drop m xs"] by simp

lemma replace_no_grow:
  assumes "lo = length a" "hi = length a + length b" "n = length a + length b + length c" "length v \<le> length b"
  shows "\<exists>q. length q = length b - length v \<and> mp_seq_replace_slice_no_grow n lo hi v (a @ b @ c @ r) = Inr (a @ v @ c @ q @ r)"
proof -
  obtain b1 b2 where b: "b = b1 @ b2" "length b1 = length v"
    using assms(4) that [of "take (length v) b" "drop (length v) b"] by simp
  have w1: "write_slots lo v (a @ b @ c @ r) = Inr (a @ v @ b2 @ c @ r)" using write_slots_mid [of a lo b1 v "b2 @ c @ r"] b assms(1) by simp
  have rd: "read_slots hi (n - hi) (a @ v @ b2 @ c @ r) = Inr c" using read_slots_mid [of "a @ v @ b2" hi c "n - hi" r] b assms by simp
  obtain p q where pq: "b2 @ c = p @ q" "length p = length c" "length q = length b2" by (rule split_length [of "b2 @ c" "length c" "length b2"]) auto
  have e: "b2 @ c @ r = p @ q @ r" using pq(1) by (metis append.assoc)
  have w2: "write_slots (lo + length v) c (a @ v @ b2 @ c @ r) = Inr (a @ v @ c @ q @ r)"
    using write_slots_mid [of "a @ v" "lo + length v" p c "q @ r"] pq(2) assms(1) by (simp add: e)
  have "length q = length b - length v" using pq(3) b by simp
  then show ?thesis using w1 rd w2 by (auto simp: mp_seq_replace_slice_no_grow_def)
qed

lemma replace_grow:
  assumes "lo = length a" "hi = length a + length b" "n = length a + length b + length c" "length v = length b + adj" "length t = adj + length t'" "drop adj t = t'"
  shows "mp_seq_replace_slice_grow_inplace n lo hi v adj (a @ b @ c @ t) = Inr (a @ v @ c @ t')"
proof -
  have rd: "read_slots hi (n + adj - (lo + length v)) (a @ b @ c @ t) = Inr c" using read_slots_mid [of "a @ b" hi c "n + adj - (lo + length v)" t] assms by simp
  have t: "t = take adj t @ t'" using assms(6) by (metis append_take_drop_id)
  obtain p q where pq: "b @ c @ take adj t = p @ q" "length p = length v" "length q = length c"
    by (rule split_length [of "b @ c @ take adj t" "length v" "length c"]) (use assms(4,5) in auto)
  have e: "a @ b @ c @ t = (a @ p) @ q @ t'" using arg_cong [OF pq(1), of "\<lambda>x. a @ x @ t'"] t by simp
  have w1: "write_slots (lo + length v) c (a @ b @ c @ t) = Inr (a @ p @ c @ t')"
    using write_slots_mid [of "a @ p" "lo + length v" q c t'] pq(2,3) assms(1) by (simp add: e)
  have w2: "write_slots lo v (a @ p @ c @ t') = Inr (a @ v @ c @ t')" using write_slots_mid [of a lo p v "c @ t'"] pq(2) assms(1) by simp
  show ?thesis using rd w1 w2 by (simp add: mp_seq_replace_slice_grow_inplace_def)
qed

text \<open>The three parts of a list at the bounds of a slice.\<close>

lemma slice_parts:
  assumes "py_step sl = 1"
  obtains a b c where "xs = a @ b @ c" "py_start (int (length xs)) sl = int (length a)" "loop_end (int (length xs)) sl = int (length a + length b)"
    "\<forall>ys. py_replace xs sl ys = a @ ys @ c"
proof -
  let ?n = "int (length xs)"
  define lo where "lo = nat (py_start ?n sl)"
  define hi where "hi = nat (loop_end ?n sl)"
  have r: "0 \<le> py_start ?n sl" "py_start ?n sl \<le> ?n" "0 \<le> py_stop ?n sl" "py_stop ?n sl \<le> ?n"
    using py_start_range [of ?n sl] py_stop_range [of ?n sl] assms by auto
  have le: "lo \<le> hi" "hi \<le> length xs" using r by (auto simp: lo_def hi_def loop_end_def assms)
  have h: "max lo (nat (py_stop ?n sl)) = hi" using r by (auto simp: lo_def hi_def loop_end_def assms max_def)
  have "xs = take lo xs @ take (hi - lo) (drop lo xs) @ drop hi xs"
    using le by (metis append_take_drop_id drop_drop le_add_diff_inverse2)
  moreover have "py_replace xs sl ys = take lo xs @ ys @ drop hi xs" for ys using h by (simp add: py_replace_def Let_def lo_def [symmetric])
  moreover have "py_start ?n sl = int lo" "loop_end ?n sl = int hi" using r by (simp_all add: lo_def hi_def loop_end_def assms max_def)
  ultimately show ?thesis using le that [of "take lo xs" "take (hi - lo) (drop lo xs)" "drop hi xs"] by simp
qed

lemma rep_replaced:
  assumes "list_rep l (a @ b @ c)" "length v \<le> length b"
  shows "\<exists>mem. mp_seq_replace_slice_no_grow (list_len l) (length a) (length a + length b) (map Item v) (items l) = Inr mem \<and>
    (\<exists>mem'. mp_seq_clear (length (a @ v @ c)) (list_len l) mem = Inr mem' \<and>
      list_rep (l\<lparr>items := mem', list_len := length (a @ v @ c)\<rparr>) (a @ v @ c))"
proof -
  let ?r = "replicate (list_alloc l - length (a @ b @ c)) (MpNull :: 'a slot)"
  have it: "items l = map Item a @ map Item b @ map Item c @ ?r" and ll: "list_len l = length a + length b + length c"
    using assms(1) by (auto simp: list_rep_def)
  obtain q where q: "length q = length b - length v"
    "mp_seq_replace_slice_no_grow (list_len l) (length a) (length a + length b) (map Item v) (items l) = Inr (map Item a @ map Item v @ map Item c @ q @ ?r)"
    using replace_no_grow [of "length a" "map Item a" "length a + length b" "map Item b" "list_len l" "map Item c" "map Item v" ?r] assms(2) by (auto simp: it ll)
  have "mp_seq_clear (length (a @ v @ c)) (list_len l) ((map Item a @ map Item v @ map Item c) @ q @ ?r) =
      Inr ((map Item a @ map Item v @ map Item c) @ replicate (length q) MpNull @ ?r)"
    unfolding mp_seq_clear_def by (subst write_slots_mid) (use q(1) assms(2) in \<open>auto simp: ll\<close>)
  moreover have "list_rep (l\<lparr>items := (map Item a @ map Item v @ map Item c) @ replicate (length q) MpNull @ ?r, list_len := length (a @ v @ c)\<rparr>) (a @ v @ c)"
    using assms q(1) by (auto simp: list_rep_def simp flip: replicate_add)
  ultimately show ?thesis using q(2) by simp
qed

lemma slice_delete_gives:
  assumes "list_rep l xs" "is_mp_slice sl"
  shows "if py_step sl = 1 then gives (list_slice_delete l sl) (py_replace xs sl [])
    else list_slice_delete l sl = Inl (if py_step sl = 0 then ZeroStep else NotImplementedError)"
proof (cases "py_step sl = 1")
  case False
  then show ?thesis using fast_indexes_exact [OF assms(2) _ rep_short [OF assms(1)]] fast_indexes_zero list_rep_len [OF assms(1)]
    by (simp add: list_slice_delete_def)
next
  case True
  then have fi: "mp_seq_get_fast_slice_indexes (list_len l) sl = Inr (True, \<lparr>start = py_start (int (length xs)) sl, stop = loop_end (int (length xs)) sl, step = 1\<rparr>)"
    using fast_indexes_exact [OF assms(2) _ rep_short [OF assms(1)]] list_rep_len [OF assms(1)] by simp
  obtain a b c where p: "xs = a @ b @ c" "py_start (int (length xs)) sl = int (length a)" "loop_end (int (length xs)) sl = int (length a + length b)"
    "\<forall>ys. py_replace xs sl ys = a @ ys @ c" by (rule slice_parts [OF True])
  have "nat (int (list_len l) + (int (length a) - int (length a + length b))) = length (a @ [] @ c)"
    using list_rep_len [OF assms(1)] p(1) by simp
  then show ?thesis using True fi rep_replaced [of l a b c "[]"] assms(1) p unfolding p(1) [symmetric]
    by (auto simp: list_slice_delete_def nat_int_add gives_iff)
qed

lemma slice_store_grow:
  assumes "list_rep l (a @ b @ c)" "length b < length v" "length (a @ v @ c) < 2 ^ 27"
    and l': "l' = (if length (a @ v @ c) > list_alloc l then l\<lparr>items := m_renew (items l) (length (a @ v @ c)), list_alloc := length (a @ v @ c)\<rparr> else l)"
  shows "\<exists>mem. mp_seq_replace_slice_grow_inplace (list_len l') (length a) (length a + length b) (map Item v) (length v - length b) (items l') = Inr mem \<and>
    list_rep (l'\<lparr>items := mem, list_len := length (a @ v @ c)\<rparr>) (a @ v @ c)"
proof -
  have r: "0 < list_alloc l" "list_alloc l < 2 ^ 28" "length a + length b + length c \<le> list_alloc l" "list_len l = length a + length b + length c"
    "items l = map Item a @ map Item b @ map Item c @ replicate (list_alloc l - (length a + length b + length c)) MpNull"
    using assms(1) by (auto simp: list_rep_def add.assoc)
  let ?adj = "length v - length b"
  obtain t where t: "items l' = map Item a @ map Item b @ map Item c @ t" "length t = list_alloc l' - (length a + length b + length c)"
    "drop ?adj t = replicate (list_alloc l' - length (a @ v @ c)) MpNull" "length (a @ v @ c) \<le> list_alloc l'" "list_alloc l' < 2 ^ 28" "list_len l' = list_len l"
  proof (cases "length (a @ v @ c) > list_alloc l")
    case True
    have "m_renew (items l) (length (a @ v @ c)) = map Item a @ map Item b @ map Item c @
        replicate (list_alloc l - (length a + length b + length c)) MpNull @ replicate (length (a @ v @ c) - list_alloc l) Uninit"
      using assms(3) True r(3,5) by (simp add: m_renew_exact)
    then show ?thesis using that True r assms(2,3) by (simp add: l')
  next
    case False
    then show ?thesis using that r assms(2,3) by (simp add: l')
  qed
  have "mp_seq_replace_slice_grow_inplace (list_len l') (length a) (length a + length b) (map Item v) ?adj (items l') =
      Inr (map Item a @ map Item v @ map Item c @ replicate (list_alloc l' - length (a @ v @ c)) MpNull)"
    unfolding t(1) by (rule replace_grow) (use t r assms(2) in auto)
  then show ?thesis using t(4,5,6) assms(2) by (auto simp: list_rep_def)
qed

lemma slice_store_gives:
  assumes "list_rep l xs" "is_mp_slice sl" "length xs + length v < 2 ^ 27"
  shows "if py_step sl = 1 then gives (list_slice_store l sl v) (py_replace xs sl v)
    else list_slice_store l sl v = Inl (if py_step sl = 0 then ZeroStep else NotImplementedError)"
proof (cases "py_step sl = 1")
  case False
  then show ?thesis using fast_indexes_exact [OF assms(2) _ rep_short [OF assms(1)]] fast_indexes_zero list_rep_len [OF assms(1)]
    by (simp add: list_slice_store_def)
next
  case True
  then have fi: "mp_seq_get_fast_slice_indexes (list_len l) sl = Inr (True, \<lparr>start = py_start (int (length xs)) sl, stop = loop_end (int (length xs)) sl, step = 1\<rparr>)"
    using fast_indexes_exact [OF assms(2) _ rep_short [OF assms(1)]] list_rep_len [OF assms(1)] by simp
  obtain a b c where p: "xs = a @ b @ c" "py_start (int (length xs)) sl = int (length a)" "loop_end (int (length xs)) sl = int (length a + length b)"
    "\<forall>ys. py_replace xs sl ys = a @ ys @ c" by (rule slice_parts [OF True])
  have ll: "list_len l = length a + length b + length c" using list_rep_len [OF assms(1)] p(1) by simp
  have n: "nat (int (list_len l) + (int (length v) - (int (length a + length b) - int (length a)))) = length (a @ v @ c)"
    "nat (int (length a)) = length a" "nat (int (length a + length b)) = length a + length b"
    "nat (int (length v) - (int (length a + length b) - int (length a))) = length v - length b" by (simp_all add: ll)
  show ?thesis
  proof (cases "length b < length v")
    case grow: True
    define l' where "l' = (if length (a @ v @ c) > list_alloc l then l\<lparr>items := m_renew (items l) (length (a @ v @ c)), list_alloc := length (a @ v @ c)\<rparr> else l)"
    have "\<exists>mem. mp_seq_replace_slice_grow_inplace (list_len l') (length a) (length a + length b) (map Item v) (length v - length b) (items l') = Inr mem \<and>
        list_rep (l'\<lparr>items := mem, list_len := length (a @ v @ c)\<rparr>) (a @ v @ c)"
      by (rule slice_store_grow [OF _ grow _ l'_def]) (use assms(1,3) p(1) in auto)
    then show ?thesis using True grow unfolding list_slice_store_def fi p(2,3) p(4) [rule_format] res_bind_simps Let_def prod.case mp_bound_slice_t.simps n l'_def [symmetric]
      by auto
  next
    case False
    then have "\<not> int (length v) - (int (length a + length b) - int (length a)) > 0" by simp
    moreover have "list_rep l (a @ b @ c)" using assms(1) p(1) by simp
    ultimately show ?thesis using True rep_replaced [of l a b c v] False
      unfolding list_slice_store_def fi p(2,3) p(4) [rule_format] res_bind_simps Let_def prod.case mp_bound_slice_t.simps n by auto
  qed
qed

end
