(* ===== verification/Mp_List_Spec.thy ===== *)
theory Mp_List_Spec
  imports Simulation Mp_Slice_Laws Mp_Int_Spec "HOL-Library.List_Lexorder"
begin

text \<open>
  What lists promise: any sequence of calls of the methods acts as on Python's lists, queries and slices give
  the elements they should, the sort sorts, and comparison is the lexicographic order.
\<close>

section \<open>Sequences of method calls\<close>

datatype 'a list_cmd =
    Append 'a
  | Extend "'a list"
  | Insert int 'a
  | Pop "int option"
  | Remove 'a
  | Reverse
  | Clear
  | Store int 'a
  | Delete int
  | DeleteSlice mp_obj_slice_t
  | StoreSlice mp_obj_slice_t "'a list"

datatype 'a list_out = Quiet | Value 'a | Raised list_error

definition quiet :: "'s \<Rightarrow> list_error + 's \<Rightarrow> 'a list_out \<times> 's" where
  "quiet s r = (case r of Inl e \<Rightarrow> (Raised e, s) | Inr s' \<Rightarrow> (Quiet, s'))"

text \<open>The methods of the code; a command that raises leaves the list as it was.\<close>

fun list_exec :: "('a \<Rightarrow> 'a \<Rightarrow> bool) \<Rightarrow> 'a \<Rightarrow> 'a mp_obj_list_t \<Rightarrow> 'a list_cmd \<Rightarrow> 'a list_out \<times> 'a mp_obj_list_t" where
  "list_exec eq none l (Append x) = quiet l (mp_obj_list_append l x)"
| "list_exec eq none l (Extend ys) = quiet l (res_bind (mp_obj_new_list ys) (list_extend l))"
| "list_exec eq none l (Insert i x) = quiet l (list_insert none l (small_int_word i) x)"
| "list_exec eq none l (Pop arg) = (case list_pop l arg of Inl e \<Rightarrow> (Raised e, l) | Inr (x, l') \<Rightarrow> (Value x, l'))"
| "list_exec eq none l (Remove x) = quiet l (mp_obj_list_remove eq l x)"
| "list_exec eq none l Reverse = quiet l (list_reverse l)"
| "list_exec eq none l Clear = quiet l (list_clear l)"
| "list_exec eq none l (Store i x) = quiet l (mp_obj_list_store l i x)"
| "list_exec eq none l (Delete i) = quiet l (list_delete l i)"
| "list_exec eq none l (DeleteSlice sl) = quiet l (list_slice_delete l sl)"
| "list_exec eq none l (StoreSlice sl ys) = quiet l (list_slice_store l sl ys)"

text \<open>
  Python's lists. A slice with a step can be deleted, and assigned as many elements as it has; a slice of step one can be
  assigned any number of them.
\<close>

definition py_positions :: "'a list \<Rightarrow> mp_obj_slice_t \<Rightarrow> nat list" where
  "py_positions xs sl = map (\<lambda>k. nat (py_start (int (length xs)) sl + int k * py_step sl)) [0..<py_count (int (length xs)) sl]"

definition py_delete_slice :: "'a list \<Rightarrow> mp_obj_slice_t \<Rightarrow> list_error + 'a list" where
  "py_delete_slice xs sl =
     (if py_step sl = 0 then Inl ZeroStep
      else if py_step sl = 1 then Inr (py_replace xs sl [])
      else Inr (map fst (filter (\<lambda>(x, i). i \<notin> set (py_positions xs sl)) (zip xs [0..<length xs]))))"

definition py_store_slice :: "'a list \<Rightarrow> mp_obj_slice_t \<Rightarrow> 'a list \<Rightarrow> list_error + 'a list" where
  "py_store_slice xs sl ys =
     (if py_step sl = 0 then Inl ZeroStep
      else if py_step sl = 1 then Inr (py_replace xs sl ys)
      else if length ys \<noteq> py_count (int (length xs)) sl then Inl ValueError
      else Inr (fold (\<lambda>(i, y) xs. xs[i := y]) (zip (py_positions xs sl) ys) xs))"

fun py_exec :: "('a \<Rightarrow> 'a \<Rightarrow> bool) \<Rightarrow> 'a list \<Rightarrow> 'a list_cmd \<Rightarrow> 'a list_out \<times> 'a list" where
  "py_exec eq xs (Append x) = (Quiet, xs @ [x])"
| "py_exec eq xs (Extend ys) = (Quiet, xs @ ys)"
| "py_exec eq xs (Insert i x) = (Quiet, take (py_clamp (length xs) i) xs @ x # drop (py_clamp (length xs) i) xs)"
| "py_exec eq xs (Pop arg) =
     (case py_index (length xs) (case arg of None \<Rightarrow> - 1 | Some i \<Rightarrow> i) of
        None \<Rightarrow> (Raised IndexError, xs) | Some k \<Rightarrow> (Value (xs ! k), delete_at k xs))"
| "py_exec eq xs (Remove x) =
     quiet xs (case first_in (\<lambda>y. eq y x) 0 (length xs) xs of None \<Rightarrow> Inl ValueError | Some k \<Rightarrow> Inr (delete_at k xs))"
| "py_exec eq xs Reverse = (Quiet, rev xs)"
| "py_exec eq xs Clear = (Quiet, [])"
| "py_exec eq xs (Store i x) =
     quiet xs (case py_index (length xs) i of None \<Rightarrow> Inl IndexError | Some k \<Rightarrow> Inr (xs[k := x]))"
| "py_exec eq xs (Delete i) =
     quiet xs (case py_index (length xs) i of None \<Rightarrow> Inl IndexError | Some k \<Rightarrow> Inr (delete_at k xs))"
| "py_exec eq xs (DeleteSlice sl) = quiet xs (py_delete_slice xs sl)"
| "py_exec eq xs (StoreSlice sl ys) = quiet xs (py_store_slice xs sl ys)"

text \<open>
  What the code promises: Python's lists, but deletion and assignment of a slice with a step are not implemented, as
  \<^verbatim>\<open>tests/cpydiff/types_list_delete_subscrstep.py\<close> and \<^verbatim>\<open>types_list_store_subscrstep.py\<close> record.
\<close>

fun has_step :: "'a list_cmd \<Rightarrow> bool" where
  "has_step (DeleteSlice sl) = (py_step sl \<noteq> 0 \<and> py_step sl \<noteq> 1)"
| "has_step (StoreSlice sl ys) = (py_step sl \<noteq> 0 \<and> py_step sl \<noteq> 1)"
| "has_step _ = False"

definition list_spec :: "('a \<Rightarrow> 'a \<Rightarrow> bool) \<Rightarrow> 'a list \<Rightarrow> 'a list_cmd \<Rightarrow> 'a list_out \<times> 'a list" where
  "list_spec eq xs c = (if has_step c then (Raised NotImplementedError, xs) else py_exec eq xs c)"

text \<open>
  The index of an insertion is a small integer, since the code does not convert it; other indices and the components
  of a slice are below \<open>2 ^ 31\<close> in absolute value, since their conversion raises \<^verbatim>\<open>OverflowError\<close> otherwise.
\<close>

fun list_cmd_ok :: "'a list_cmd \<Rightarrow> bool" where
  "list_cmd_ok (Insert i x) = small i"
| "list_cmd_ok (Pop arg) = pred_option is_mp_int arg"
| "list_cmd_ok (Store i x) = is_mp_int i"
| "list_cmd_ok (Delete i) = is_mp_int i"
| "list_cmd_ok (DeleteSlice sl) = is_mp_slice sl"
| "list_cmd_ok (StoreSlice sl ys) = is_mp_slice sl"
| "list_cmd_ok _ = True"

fun list_cmd_grow :: "'a list_cmd \<Rightarrow> nat" where
  "list_cmd_grow (Append x) = 1"
| "list_cmd_grow (Extend ys) = length ys"
| "list_cmd_grow (Insert i x) = 1"
| "list_cmd_grow (StoreSlice sl ys) = length ys"
| "list_cmd_grow _ = 0"

lemma list_spec_plain [simp]: "\<not> has_step c \<Longrightarrow> list_spec eq xs c = py_exec eq xs c"
  by (simp add: list_spec_def)

lemma quiet_gives: "gives r ys \<Longrightarrow> fst (quiet l r) = Quiet \<and> list_rep (snd (quiet l r)) ys"
  by (auto simp: gives_iff quiet_def)

lemma quiet_simps [simp]: "quiet s (Inl e) = (Raised e, s)" "quiet s (Inr s') = (Quiet, s')"
  by (simp_all add: quiet_def)

lemma delete_length: "length (delete_at k xs) \<le> length xs"
  by (simp add: delete_at_def)

lemma replace_length:
  assumes "py_step sl = 1"
  shows "length (py_replace xs sl ys) \<le> length xs + length ys"
proof -
  obtain a b c where "xs = a @ b @ c" "py_start (int (length xs)) sl = int (length a)" "loop_end (int (length xs)) sl = int (length a + length b)"
    "\<forall>ys. py_replace xs sl ys = a @ ys @ c" by (rule slice_parts [OF assms])
  then show ?thesis by simp
qed

lemma set_slice_length:
  "py_delete_slice xs sl = Inr zs \<Longrightarrow> length zs \<le> length xs"
  "py_store_slice xs sl ys = Inr zs \<Longrightarrow> length zs \<le> length xs + length ys"
proof -
  have f: "length (filter P (zip xs [0..<length xs])) \<le> length xs" for P :: "'a \<times> nat \<Rightarrow> bool"
    using length_filter_le [of P "zip xs [0..<length xs]"] by simp
  have u: "length (fold (\<lambda>(i, y) xs. xs[i := y]) ps xs) = length xs" for ps :: "(nat \<times> 'a) list"
    by (induction ps arbitrary: xs) (auto simp: case_prod_beta)
  show "py_delete_slice xs sl = Inr zs \<Longrightarrow> length zs \<le> length xs"
    using replace_length [of sl xs "[]"] f by (auto simp: py_delete_slice_def split: if_splits)
  show "py_store_slice xs sl ys = Inr zs \<Longrightarrow> length zs \<le> length xs + length ys"
    using replace_length [of sl xs ys] u by (auto simp: py_store_slice_def split: if_splits)
qed

lemma list_spec_length: "length (snd (list_spec eq xs c)) \<le> length xs + list_cmd_grow c"
proof -
  have "length (snd (py_exec eq xs c)) \<le> length xs + list_cmd_grow c"
    by (cases c) (auto simp: quiet_def delete_length le_SucI split: option.splits sum.splits
        intro: order_trans [OF delete_length] set_slice_length)
  then show ?thesis by (simp add: list_spec_def)
qed

lemma exec_pop:
  assumes "list_rep l xs" "pred_option is_mp_int arg"
  shows "fst (list_exec eq none l (Pop arg)) = fst (py_exec eq xs (Pop arg)) \<and>
    list_rep (snd (list_exec eq none l (Pop arg))) (snd (py_exec eq xs (Pop arg)))"
proof -
  have m: "is_mp_int (case arg of None \<Rightarrow> - 1 | Some i \<Rightarrow> i)" using assms(2) by (cases arg) (auto simp: is_mp_int_def)
  show ?thesis using pop_none [OF assms(1) m] pop_some [OF assms(1) m] assms(1)
    by (cases "py_index (length xs) (case arg of None \<Rightarrow> - 1 | Some i \<Rightarrow> i)") auto
qed

lemma delete_gives:
  assumes "list_rep l xs" "is_mp_int i"
  shows "case py_index (length xs) i of None \<Rightarrow> list_delete l i = Inl IndexError | Some k \<Rightarrow> gives (list_delete l i) (delete_at k xs)"
  using pop_none [OF assms(1), of "Some i"] pop_some [OF assms(1), of "Some i"] assms(2)
  by (cases "py_index (length xs) i") (auto simp: list_delete_def)

lemma exec_option:
  assumes "list_rep l xs" "case x of None \<Rightarrow> r = Inl e | Some k \<Rightarrow> gives r (f k)"
  shows "fst (quiet l r) = (fst (quiet xs (case x of None \<Rightarrow> Inl e | Some k \<Rightarrow> Inr (f k))) :: 'b list_out) \<and>
    list_rep (snd (quiet l r :: 'b list_out \<times> 'a mp_obj_list_t)) (snd (quiet xs (case x of None \<Rightarrow> Inl e | Some k \<Rightarrow> Inr (f k)) :: 'b list_out \<times> 'a list))"
  using assms by (cases x) (auto simp: gives_iff)

lemma exec_slice:
  assumes "list_rep l xs" "if py_step sl = 1 then gives r (py_replace xs sl ys) else r = Inl (if py_step sl = 0 then ZeroStep else NotImplementedError)"
    and "py_step sl = 1 \<Longrightarrow> s = Inr (py_replace xs sl ys)" "py_step sl = 0 \<Longrightarrow> s = Inl ZeroStep"
  shows "let q = (if py_step sl \<noteq> 0 \<and> py_step sl \<noteq> 1 then (Raised NotImplementedError, xs) else quiet xs s :: 'a list_out \<times> 'a list)
    in fst (quiet l r) = fst q \<and> list_rep (snd (quiet l r :: 'a list_out \<times> 'a mp_obj_list_t)) (snd q)"
  using assms by (cases "py_step sl = 1"; cases "py_step sl = 0") (auto simp: gives_iff)

lemma exec_rep:
  assumes "list_rep l xs" "list_cmd_ok c" "length xs + list_cmd_grow c < 2 ^ 27"
  shows "fst (list_exec eq none l c) = fst (list_spec eq xs c) \<and> list_rep (snd (list_exec eq none l c)) (snd (list_spec eq xs c))"
proof (cases c)
  case (Append x)
  then show ?thesis using quiet_gives [OF append_gives [OF assms(1), of x]] assms(3) by simp
next
  case (Extend ys)
  then obtain r where "mp_obj_new_list ys = Inr r" "list_rep r ys" using new_list_gives [of ys] assms(3) by (auto simp: gives_iff)
  then show ?thesis using quiet_gives [OF extend_gives [OF assms(1), of r ys]] assms(3) Extend by simp
next
  case (Insert i x)
  then show ?thesis using quiet_gives [OF insert_gives [OF assms(1), of i none x]] assms(2,3) by simp
next
  case (Pop arg)
  then show ?thesis using exec_pop [OF assms(1)] assms(2) by simp
next
  case (Remove x)
  then show ?thesis using exec_option [OF assms(1) remove_gives [OF assms(1)]] by simp
next
  case Reverse
  then show ?thesis using quiet_gives [OF reverse_gives [OF assms(1)]] by simp
next
  case Clear
  then show ?thesis using quiet_gives [OF clear_gives [OF assms(1)]] by simp
next
  case (Store i x)
  then show ?thesis using exec_option [OF assms(1) store_gives [OF assms(1)]] assms(2) by simp
next
  case (Delete i)
  then show ?thesis using exec_option [OF assms(1) delete_gives [OF assms(1)]] assms(2) by simp
next
  case (DeleteSlice sl)
  then show ?thesis using exec_slice [OF assms(1) slice_delete_gives [OF assms(1)], of sl "py_delete_slice xs sl"] assms(2)
    by (cases "py_step sl = 0"; cases "py_step sl = 1") (simp_all add: list_spec_def py_delete_slice_def Let_def)
next
  case (StoreSlice sl ys)
  then show ?thesis using exec_slice [OF assms(1) slice_store_gives [OF assms(1)], of sl ys "py_store_slice xs sl ys"] assms(2,3)
    by (cases "py_step sl = 0"; cases "py_step sl = 1") (simp_all add: list_spec_def py_store_slice_def Let_def)
qed

interpretation lists: bounded_simulation list_rep "list_exec eq none" "list_spec eq" list_cmd_ok length list_cmd_grow "2 ^ 27" for eq none
  by unfold_locales (rule exec_rep, assumption, assumption, assumption, rule list_spec_length)

text \<open>
  C5: Any sequence of calls of the methods that change a list (append, extend, insert, pop, remove, reverse, clear,
  item and slice assignment and deletion) gives the results and exceptions of Python's lists and ends in a buffer that
  represents Python's list, with one exception that the code documents: the assignment or deletion of a slice with a step
  other than one and zero raises \<^verbatim>\<open>NotImplementedError\<close> and leaves the list as it is. No call reads or writes outside the buffer or
  meets a word without an object, the buffer is never empty, and the words behind the last element are null. The list
  stays below \<open>2 ^ 27\<close> elements, which is more than the memory of the chip; the index of an insertion is a small
  integer, and all other indices and slice components are below \<open>2 ^ 31\<close> in absolute value.
\<close>

theorem list_methods_refine:
  assumes "list_rep l xs" "\<forall>c \<in> set cs. list_cmd_ok c" "length xs + sum_list (map list_cmd_grow cs) < 2 ^ 27"
  shows "fst (run_cmds (list_exec eq none) l cs) = fst (run_cmds (list_spec eq) xs cs) \<and>
    list_rep (snd (run_cmds (list_exec eq none) l cs)) (snd (run_cmds (list_spec eq) xs cs))"
  by (rule lists.run_rep [OF assms])

definition sample_list :: "int mp_obj_list_t" where
  "sample_list = \<lparr>list_alloc = 4, list_len = 3, items = [Item 3, Item 1, Item 2, MpNull]\<rparr>"

lemma sample_rep: "list_rep sample_list [3, 1, 2]"
  by (simp add: list_rep_def sample_list_def)

definition sample_cmds :: "int list_cmd list" where
  "sample_cmds = [Append 7, Append 8, Insert (- 1) 9, Pop (Some 9), Pop None, Remove 1, DeleteSlice \<lparr>slice_start = Some 1, slice_stop = None, slice_step = None\<rparr>]"

theorem list_methods_refine_witness:
  "fst (run_cmds (list_exec (=) 0) sample_list sample_cmds) = [Quiet, Quiet, Quiet, Raised IndexError, Value 8, Quiet, Quiet] \<and>
   list_rep (snd (run_cmds (list_exec (=) 0) sample_list sample_cmds)) [3]"
proof -
  have "run_cmds (list_spec (=)) [3, 1, 2] sample_cmds = ([Quiet, Quiet, Quiet, Raised IndexError, Value 8, Quiet, Quiet], [3])" by code_simp
  moreover have "\<forall>c \<in> set sample_cmds. list_cmd_ok c" by (simp add: sample_cmds_def small_def is_mp_int_def is_mp_slice_def)
  moreover have "length [3, 1, 2 :: int] + sum_list (map list_cmd_grow sample_cmds) < 2 ^ 27" by (simp add: sample_cmds_def)
  ultimately show ?thesis using list_methods_refine [OF sample_rep, of sample_cmds "(=)" 0] by simp
qed

text \<open>
  The conversion of an argument is that of the integer objects. An object that is no small integer is inserted at a place
  that depends on its word, here the address of a long integer on the heap, before all elements or behind them.
\<close>

lemma get_int_of_object:
  assumes "int_operand x"
  shows "mp_obj_get_int (int_val x) = (case mp_obj_int_get_checked x of Inl e \<Rightarrow> Inl OverflowErr | Inr v \<Rightarrow> Inr v)"
  using get_checked_val [OF assms] by (simp add: mp_obj_get_int_def)

lemma insert_at_address:
  assumes "list_rep l xs" "length xs < 2 ^ 27" "2 ^ 29 \<le> w" "w < 2 ^ 31"
  shows "gives (list_insert none l w x) (xs @ [x])"
proof -
  have "py_clamp (length xs) (w div 2) = length xs" using assms(2,3) by (simp add: py_clamp_def)
  then show ?thesis using insert_word_gives [OF assms(1) _ assms(4,2) refl, of none x] assms(3) by simp
qed

section \<open>Queries, copies and slices\<close>

text \<open>
  C31: The operations that make a new list or answer a question: construction, copying, concatenation and repetition
  represent the list Python makes, indexing gives the element or \<^verbatim>\<open>IndexError\<close>, \<^verbatim>\<open>index\<close> the first position in the
  given range or \<^verbatim>\<open>ValueError\<close>, \<^verbatim>\<open>count\<close> the number of equal elements, and an iterator the elements in order. A repetition
  count from \<open>2 ^ 31\<close> on, in either direction, raises \<^verbatim>\<open>OverflowError\<close>, whatever the list; the indices are below that.
\<close>

theorem list_queries_correct:
  assumes "list_rep l xs" "list_rep r ys" "length xs + length ys < 2 ^ 27" "is_mp_int n \<Longrightarrow> length xs * nat n < 2 ^ 27"
    "is_mp_int i" "pred_option is_mp_int arg2" "pred_option is_mp_int arg3"
  shows "gives (mp_obj_new_list xs) xs \<and> gives (list_make_new xs) xs \<and> gives (list_copy l) xs \<and> gives (list_add l r) (xs @ ys) \<and>
    (if is_mp_int n then gives (list_multiply l n) (concat (replicate (nat n) xs)) else list_multiply l n = Inl OverflowErr) \<and>
    list_load l i = (case py_index (length xs) i of None \<Rightarrow> Inl IndexError | Some k \<Rightarrow> Inr (xs ! k)) \<and>
    list_count eq l v = Inr (length (filter (\<lambda>x. eq x v) xs)) \<and>
    list_index eq l v arg2 arg3 =
      (case first_in (\<lambda>x. eq x v) (case arg2 of None \<Rightarrow> 0 | Some i \<Rightarrow> py_clamp (length xs) i)
         (case (arg2, arg3) of (Some _, Some i) \<Rightarrow> py_clamp (length xs) i | _ \<Rightarrow> length xs) xs of
         None \<Rightarrow> Inl ValueError | Some i \<Rightarrow> Inr i) \<and>
    list_it_iternext l cur = Inr (if cur < length xs then Some (xs ! cur, cur + 1) else None)"
proof -
  have "length xs < 2 ^ 27" using assms(3) by simp
  moreover have "if is_mp_int n then gives (list_multiply l n) (concat (replicate (nat n) xs)) else list_multiply l n = Inl OverflowErr"
    using multiply_gives [OF assms(1) assms(4)] multiply_overflow_error [of n l] by simp
  ultimately show ?thesis using new_list_gives make_new_gives copy_gives [OF assms(1)] add_gives [OF assms(1-3)]
    load_gives [OF assms(1,5)] count_gives [OF assms(1)] index_gives [OF assms(1,6,7)] iternext_gives [OF assms(1)] by blast
qed

theorem list_queries_correct_witness:
  "gives (list_add sample_list sample_list) [3, 1, 2, 3, 1, 2] \<and> list_multiply sample_list (2 ^ 31) = Inl OverflowErr \<and>
   list_load sample_list (- 1) = Inr 2 \<and>
   list_index (=) sample_list 2 (Some 1) None = Inr 2"
proof -
  have m: "is_mp_int (- 1)" "pred_option is_mp_int (Some 1)" "pred_option is_mp_int None" by (simp_all add: is_mp_int_def)
  have v: "py_index 3 (- 1) = Some 2" "py_clamp 3 1 = 1" "first_in (\<lambda>x. x = (2 :: int)) 1 3 [3, 1, 2] = Some 2" by code_simp+
  have n: "\<not> is_mp_int (2 ^ 31)" by (simp add: is_mp_int_def)
  show ?thesis using list_queries_correct [OF sample_rep sample_rep _ _ m, of "2 ^ 31" "(=)" 2 0] n v by (simp add: numeral_3_eq_3)
qed

text \<open>
  C30: Loading a slice ends and gives Python's slice, the elements at the clamped start and every step from there up to the
  clamped stop, provided that its components are below \<open>2 ^ 31\<close> in absolute value and that the length of the list and the
  step add up to \<open>2 ^ 31\<close> at most; a step of zero raises \<^verbatim>\<open>ValueError\<close>. The second bound is needed, since the loop of
  \<^verbatim>\<open>mp_seq_extract_slice\<close> adds the step once more than it uses the index.
\<close>

theorem list_slice_correct:
  assumes "list_rep l xs" "is_mp_slice sl" "length xs < 2 ^ 27" "int (length xs) + py_step sl \<le> 2 ^ 31"
  shows "if py_step sl = 0 then list_slice_load l sl = Some (Inl ZeroStep)
    else \<exists>r. list_slice_load l sl = Some (Inr r) \<and> list_rep r (py_slice xs sl)"
  using slice_load_gives [OF assms(1,2,4,3)] by (auto simp: gives_iff)

theorem list_slice_correct_witness:
  "\<exists>r. list_slice_load sample_list \<lparr>slice_start = None, slice_stop = None, slice_step = Some (- 2)\<rparr> = Some (Inr r) \<and> list_rep r [2, 3]"
proof -
  let ?sl = "\<lparr>slice_start = None, slice_stop = None, slice_step = Some (- 2)\<rparr>"
  have s: "py_step ?sl = - 2" by (simp add: py_step_def)
  have "is_mp_slice ?sl" by (simp add: is_mp_slice_def is_mp_int_def)
  moreover have "py_slice [3, 1, 2 :: int] ?sl = [2, 3]" by code_simp
  ultimately show ?thesis using list_slice_correct [OF sample_rep, of ?sl] by (simp add: s)
qed

text \<open>
  The slice of three elements from the second with the largest machine integer as its step: after the first element the
  sum overflows, the comparison holds, and the loop reads far before the buffer.
\<close>

lemma slice_step_overflow:
  "list_slice_load sample_list \<lparr>slice_start = Some 1, slice_stop = None, slice_step = Some (2 ^ 31 - 1)\<rparr> = Some (Inl OutOfBounds)"
proof -
  have "mp_seq_get_fast_slice_indexes 3 \<lparr>slice_start = Some 1, slice_stop = None, slice_step = Some (2 ^ 31 - 1)\<rparr> =
      Inr (False, \<lparr>start = 1, stop = 3, step = 2 ^ 31 - 1\<rparr>)" by code_simp
  moreover obtain res where res: "mp_obj_new_list [] = Inr res" "list_rep res ([] :: int list)" using new_list_gives [of "[]"] by (auto simp: gives_iff)
  moreover obtain res' where res': "mp_obj_list_append res (1 :: int) = Inr res'" using append_gives [OF res(2), of 1] by (auto simp: gives_iff)
  moreover have "read_item (nat 1) (items sample_list) = Inr 1" by code_simp
  moreover have "s32 (1 + (2 ^ 31 - 1)) = - (2 ^ 31)" by code_simp
  ultimately show ?thesis
    by (simp add: list_slice_load_def mp_seq_extract_slice_def sample_list_def extract_loop.simps)
qed

text \<open>The byte count of a repetition wraps, and the copies go past the block that was allocated.\<close>

lemma multiply_overflow:
  "list_multiply \<lparr>list_alloc = 4, list_len = 1, items = [Item x, MpNull, MpNull, MpNull]\<rparr> (2 ^ 30) = Inl OutOfBounds"
proof -
  have "(m_new (2 ^ 30) :: 'a slot list) = []" by (simp add: m_new_def u32_def)
  then have i: "mp_obj_list_init (u32 (2 ^ 30)) = Inr \<lparr>list_alloc = 2 ^ 30, list_len = 2 ^ 30, items = [] :: 'a slot list\<rparr>"
    by (simp add: mp_obj_list_init_def LIST_MIN_ALLOC_def u32_id mp_seq_clear_def write_slots_def)
  have "mp_seq_multiply (Suc k) [Item x] 0 [] = Inl OutOfBounds" for k by (simp add: write_slots_def)
  from this [of "2 ^ 30 - 1"] show ?thesis using i by (simp add: list_multiply_def mp_obj_get_int_maybe_def read_slots_def)
qed

section \<open>The sort\<close>

text \<open>The comparison the sort makes on integers, and its test against the result it looks for.\<close>

definition int_less :: "(mp_arith_op_t \<Rightarrow> mp_int_obj \<Rightarrow> mp_int_obj \<Rightarrow> int_error + 'f) \<Rightarrow> mp_int_obj \<Rightarrow> mp_int_obj \<Rightarrow> bool" where
  "int_less fl x y \<longleftrightarrow> (case mp_binary_op fl False MP_BINARY_OP_LESS x y of Inr (ResBool b) \<Rightarrow> b | _ \<Rightarrow> False)"

definition int_before ::
  "(mp_arith_op_t \<Rightarrow> mp_int_obj \<Rightarrow> mp_int_obj \<Rightarrow> int_error + 'f) \<Rightarrow> ('a \<Rightarrow> mp_int_obj) \<Rightarrow> bool \<Rightarrow> 'a \<Rightarrow> 'a \<Rightarrow> bool" where
  "int_before fl key reverse x y \<longleftrightarrow> int_less fl (key x) (key y) = (\<not> reverse)"

definition key_le :: "('a \<Rightarrow> mp_int_obj) \<Rightarrow> bool \<Rightarrow> 'a \<Rightarrow> 'a \<Rightarrow> bool" where
  "key_le key reverse x y \<longleftrightarrow> (if reverse then int_val (key y) \<le> int_val (key x) else int_val (key x) \<le> int_val (key y))"

lemma int_before_eq:
  assumes "int_operand (key x)" "int_operand (key y)"
  shows "before_eq (int_before fl key reverse) x y \<longleftrightarrow> key_le key reverse x y"
  using int_order [OF assms, of fl False] int_order [OF assms(2,1), of fl False]
  by (auto simp: before_eq_def int_before_def int_less_def key_le_def)

interpretation int_sort: sort_order "int_before fl key reverse" "\<lambda>x. int_operand (key x)" for fl key reverse
  by unfold_locales (auto simp: int_before_eq key_le_def split: if_splits)

text \<open>
  C8: Sorting a list by integer keys, small or long, keeps its elements with their multiplicities and puts the keys in
  ascending order, or descending order with \<^verbatim>\<open>reverse\<close>. The nested calls of the sort stay within the
  logarithm of the length.
\<close>

theorem list_sort_correct:
  assumes "list_rep l xs" "\<forall>x \<in> set xs. int_operand (key x)"
  shows "\<exists>ys. gives (mp_obj_list_sort (int_less fl) key reverse l) ys \<and> mset ys = mset xs \<and> sorted_wrt (key_le key reverse) ys \<and>
    2 ^ quicksort_depth (int_before fl key reverse) xs 0 (int (length xs) - 1) \<le> max 1 (length xs)"
proof (cases "1 < length xs")
  case False
  then have "sorted_wrt (key_le key reverse) xs" by (cases xs) auto
  moreover have "quicksort_depth (int_before fl key reverse) xs 0 (int (length xs) - 1) = 0" using False by (simp add: quicksort_depth.simps)
  moreover have "mp_obj_list_sort (int_less fl) key reverse l = Inr l" using False list_rep_len [OF assms(1)] by (simp add: mp_obj_list_sort_def)
  ultimately show ?thesis using assms(1) by (intro exI [of _ xs]) simp
next
  case True
  define ys where "ys = mp_quicksort (int_before fl key reverse) xs 0 (int (length xs) - 1)"
  have p: "permutes xs ys 0 (int (length xs) - 1)" unfolding ys_def by (rule quicksort_permutes) simp_all
  then have ys: "length ys = length xs" "mset ys = mset xs" "set ys = set xs" using permutes_set [OF p] by (simp_all add: permutes_def)
  note srt = int_sort.quicksort_sorts [where head = 0 and tail = "int (length xs) - 1" and xs = xs and key = key and fl = fl and reverse = reverse,
      unfolded int_sort.ascending_def, folded ys_def]
  have asc: "before_eq (int_before fl key reverse) (ys ! i) (ys ! j)" if "i < j" "j < length ys" for i j
    using srt [rule_format, of "int i" "int j"] assms(2) that ys(1) by simp
  have "sorted_wrt (key_le key reverse) ys" unfolding sorted_wrt_iff_nth_less
  proof (intro allI impI)
    fix i j assume ij: "i < j" "j < length ys"
    then have "ys ! i \<in> set xs" "ys ! j \<in> set xs" unfolding ys(3) [symmetric] by auto
    then show "key_le key reverse (ys ! i) (ys ! j)" using asc [OF ij] assms(2) by (simp add: int_before_eq)
  qed
  moreover have "gives (mp_obj_list_sort (int_less fl) key reverse l) ys"
  proof -
    have "write_slots 0 (map Item ys) (items l) = Inr (map Item ys @ replicate (list_alloc l - length xs) MpNull)"
      using write_slots_mid [of "[]" 0 "map Item xs" "map Item ys"] ys(1) assms(1) by (simp add: list_rep_def)
    moreover have "(\<lambda>a b. int_less fl (key a) (key b) = (\<not> reverse)) = int_before fl key reverse" by (simp add: int_before_def fun_eq_iff)
    ultimately show ?thesis using True assms(1) list_objs_rep [OF assms(1)] ys(1)
      by (simp add: mp_obj_list_sort_def list_rep_def ys_def [symmetric])
  qed
  moreover have "2 ^ quicksort_depth (int_before fl key reverse) xs 0 (int (length xs) - 1) \<le> max 1 (length xs)"
    using quicksort_depth_bound [of 0 "int (length xs) - 1" "int_before fl key reverse" xs] True by force
  ultimately show ?thesis using ys(2) by blast
qed

theorem list_sort_correct_witness:
  "\<exists>ys. gives (mp_obj_list_sort (int_less (\<lambda>_ _ _. Inr ())) IntSmall True sample_list) ys \<and> mset ys = {#1, 2, 3#} \<and>
    sorted_wrt (\<lambda>x y. y \<le> x) ys"
proof -
  have "\<forall>x \<in> set [3, 1, 2]. int_operand (IntSmall x)" by (simp add: small_def)
  then obtain ys where "gives (mp_obj_list_sort (int_less (\<lambda>_ _ _. Inr ())) IntSmall True sample_list) ys" "mset ys = mset [3, 1, 2]"
    "sorted_wrt (key_le IntSmall True) ys" using list_sort_correct [OF sample_rep, of IntSmall "\<lambda>_ _ _. Inr ()" True] by blast
  moreover have "key_le IntSmall True = (\<lambda>x y. y \<le> x)" by (auto simp: key_le_def fun_eq_iff)
  ultimately show ?thesis by (intro exI [of _ ys]) (simp add: add_mset_commute)
qed

section \<open>Comparison\<close>

text \<open>Elements compared by a value: the contract of the equality and the order that a comparison of sequences uses.\<close>

locale ordered_elements =
  fixes eq :: "'a \<Rightarrow> 'a \<Rightarrow> bool" and rel :: "mp_binary_op_t \<Rightarrow> 'a \<Rightarrow> 'a \<Rightarrow> bool" and ok :: "'a \<Rightarrow> bool" and val :: "'a \<Rightarrow> 'v :: linorder"
  assumes eq_val: "ok x \<Longrightarrow> ok y \<Longrightarrow> eq x y \<longleftrightarrow> val x = val y"
    and more_val: "ok x \<Longrightarrow> ok y \<Longrightarrow> rel MP_BINARY_OP_MORE x y \<longleftrightarrow> val y < val x"
    and more_equal_val: "ok x \<Longrightarrow> ok y \<Longrightarrow> rel MP_BINARY_OP_MORE_EQUAL x y \<longleftrightarrow> val y \<le> val x"
begin

definition decide :: "mp_binary_op_t \<Rightarrow> 'a list \<Rightarrow> 'a list \<Rightarrow> bool" where
  "decide op xs ys = (case seq_cmp_loop eq rel op xs ys of
     Some b \<Rightarrow> b | None \<Rightarrow> (if length xs \<noteq> length ys then \<not> length xs < length ys else op \<noteq> MP_BINARY_OP_MORE))"

lemma decide_lex:
  assumes "\<forall>x \<in> set xs. ok x" "\<forall>y \<in> set ys. ok y"
  shows "(decide MP_BINARY_OP_MORE xs ys \<longleftrightarrow> map val ys < map val xs) \<and> (decide MP_BINARY_OP_MORE_EQUAL xs ys \<longleftrightarrow> map val ys \<le> map val xs) \<and>
    (length xs = length ys \<longrightarrow> (decide MP_BINARY_OP_EQUAL xs ys \<longleftrightarrow> map val xs = map val ys))"
  using assms
proof (induction xs ys rule: list_induct2')
  case (4 x xs y ys)
  then have v: "eq x y \<longleftrightarrow> val x = val y" "rel MP_BINARY_OP_MORE x y \<longleftrightarrow> val y < val x" "rel MP_BINARY_OP_MORE_EQUAL x y \<longleftrightarrow> val y \<le> val x"
    by (simp_all add: eq_val more_val more_equal_val)
  show ?case
  proof (cases "val x = val y")
    case True
    then have "decide op (x # xs) (y # ys) = decide op xs ys" for op using v(1) by (simp add: decide_def split: option.split)
    then show ?thesis using 4 True by simp
  next
    case False
    then have "seq_cmp_loop eq rel op (x # xs) (y # ys) = Some (if op = MP_BINARY_OP_EQUAL then False else rel op x y)" for op using v(1) by simp
    then show ?thesis using v False by (auto simp: decide_def)
  qed
qed (simp_all add: decide_def)

lemma seq_cmp_lex:
  assumes "\<forall>x \<in> set xs. ok x" "\<forall>y \<in> set ys. ok y"
  shows "mp_seq_cmp_objs eq rel MP_BINARY_OP_EQUAL xs ys \<longleftrightarrow> map val xs = map val ys"
    "mp_seq_cmp_objs eq rel MP_BINARY_OP_LESS xs ys \<longleftrightarrow> map val xs < map val ys"
    "mp_seq_cmp_objs eq rel MP_BINARY_OP_LESS_EQUAL xs ys \<longleftrightarrow> map val xs \<le> map val ys"
    "mp_seq_cmp_objs eq rel MP_BINARY_OP_MORE xs ys \<longleftrightarrow> map val xs > map val ys"
    "mp_seq_cmp_objs eq rel MP_BINARY_OP_MORE_EQUAL xs ys \<longleftrightarrow> map val xs \<ge> map val ys"
  using decide_lex [OF assms] decide_lex [OF assms(2,1)] map_eq_imp_length_eq [of val xs val ys]
  by (auto simp: mp_seq_cmp_objs_def decide_def)

end

definition int_rel ::
  "(mp_arith_op_t \<Rightarrow> mp_int_obj \<Rightarrow> mp_int_obj \<Rightarrow> int_error + 'f) \<Rightarrow> mp_binary_op_t \<Rightarrow> mp_int_obj \<Rightarrow> mp_int_obj \<Rightarrow> bool" where
  "int_rel fl op x y \<longleftrightarrow> (case mp_binary_op fl False op x y of Inr (ResBool b) \<Rightarrow> b | _ \<Rightarrow> False)"

interpretation int_elements: ordered_elements "int_rel fl MP_BINARY_OP_EQUAL" "int_rel fl" int_operand int_val for fl
proof unfold_locales
  fix x y assume xy: "int_operand x" "int_operand y"
  show "int_rel fl MP_BINARY_OP_EQUAL x y \<longleftrightarrow> int_val x = int_val y"
    using equal_not_equal(1) [OF xy, of False fl] by (simp add: int_rel_def mp_binary_op_def)
  show "int_rel fl MP_BINARY_OP_MORE x y \<longleftrightarrow> int_val y < int_val x" "int_rel fl MP_BINARY_OP_MORE_EQUAL x y \<longleftrightarrow> int_val y \<le> int_val x"
    using int_order [OF xy, of fl False] by (simp_all add: int_rel_def)
qed

text \<open>Bytes as elements: the comparison of byte strings is that of sequences of numbers.\<close>

definition byte_rel :: "mp_binary_op_t \<Rightarrow> nat \<Rightarrow> nat \<Rightarrow> bool" where
  "byte_rel op x y \<longleftrightarrow> (if op = MP_BINARY_OP_MORE then x > y else x \<ge> y)"

interpretation byte_elements: ordered_elements "(=)" byte_rel "\<lambda>_. True" "\<lambda>x. x"
  by unfold_locales (auto simp: byte_rel_def)

lemma memcmp_loop:
  assumes "op = MP_BINARY_OP_MORE \<or> op = MP_BINARY_OP_MORE_EQUAL \<or> op = MP_BINARY_OP_EQUAL"
  shows "seq_cmp_loop (=) byte_rel op xs ys =
    (let res = memcmp (take (min (length xs) (length ys)) xs) (take (min (length xs) (length ys)) ys)
     in if res = 0 then None else Some (op \<noteq> MP_BINARY_OP_EQUAL \<and> res > 0))"
  using assms
  by (induction xs ys rule: list_induct2') (auto simp: Let_def byte_rel_def)

lemma cmp_bytes_objs:
  assumes "op \<in> {MP_BINARY_OP_EQUAL, MP_BINARY_OP_LESS, MP_BINARY_OP_LESS_EQUAL, MP_BINARY_OP_MORE, MP_BINARY_OP_MORE_EQUAL}"
  shows "mp_seq_cmp_bytes op xs ys = mp_seq_cmp_objs (=) byte_rel op xs ys"
  using assms by (auto simp: mp_seq_cmp_bytes_def mp_seq_cmp_objs_def memcmp_loop Let_def)

text \<open>
  C32: The comparison of two lists of integers, small or long, is the lexicographic order of their values, for all five
  operators, and so is the comparison of byte strings that strings and byte arrays use.
\<close>

theorem seq_compare_lexicographic:
  assumes "list_rep l xs" "list_rep r ys" "\<forall>x \<in> set xs \<union> set ys. int_operand x"
  shows "list_cmp (int_rel fl MP_BINARY_OP_EQUAL) (int_rel fl) MP_BINARY_OP_EQUAL l r = Inr (map int_val xs = map int_val ys) \<and>
    list_cmp (int_rel fl MP_BINARY_OP_EQUAL) (int_rel fl) MP_BINARY_OP_LESS l r = Inr (map int_val xs < map int_val ys) \<and>
    list_cmp (int_rel fl MP_BINARY_OP_EQUAL) (int_rel fl) MP_BINARY_OP_LESS_EQUAL l r = Inr (map int_val xs \<le> map int_val ys) \<and>
    list_cmp (int_rel fl MP_BINARY_OP_EQUAL) (int_rel fl) MP_BINARY_OP_MORE l r = Inr (map int_val xs > map int_val ys) \<and>
    list_cmp (int_rel fl MP_BINARY_OP_EQUAL) (int_rel fl) MP_BINARY_OP_MORE_EQUAL l r = Inr (map int_val xs \<ge> map int_val ys) \<and>
    (mp_seq_cmp_bytes MP_BINARY_OP_EQUAL bs cs \<longleftrightarrow> bs = cs) \<and> (mp_seq_cmp_bytes MP_BINARY_OP_LESS bs cs \<longleftrightarrow> bs < cs) \<and>
    (mp_seq_cmp_bytes MP_BINARY_OP_LESS_EQUAL bs cs \<longleftrightarrow> bs \<le> cs) \<and> (mp_seq_cmp_bytes MP_BINARY_OP_MORE bs cs \<longleftrightarrow> bs > cs) \<and>
    (mp_seq_cmp_bytes MP_BINARY_OP_MORE_EQUAL bs cs \<longleftrightarrow> bs \<ge> cs)"
proof -
  have "\<forall>x \<in> set xs. int_operand x" "\<forall>y \<in> set ys. int_operand y" using assms(3) by auto
  note ints = int_elements.seq_cmp_lex [OF this, of fl]
  show ?thesis using byte_elements.seq_cmp_lex [of bs cs]
    by (simp add: list_cmp_def list_objs_rep [OF assms(1)] list_objs_rep [OF assms(2)] ints cmp_bytes_objs)
qed

theorem seq_compare_lexicographic_witness:
  "list_cmp (int_rel (\<lambda>_ _ _. Inr ()) MP_BINARY_OP_EQUAL) (int_rel (\<lambda>_ _ _. Inr ())) MP_BINARY_OP_LESS
     \<lparr>list_alloc = 2, list_len = 2, items = [Item (IntSmall 1), Item (IntSmall 5)]\<rparr>
     \<lparr>list_alloc = 2, list_len = 1, items = [Item (IntSmall 2), MpNull]\<rparr> = Inr True \<and>
   mp_seq_cmp_bytes MP_BINARY_OP_MORE [1, 2] [1]"
proof -
  have r: "list_rep \<lparr>list_alloc = 2, list_len = 2, items = [Item (IntSmall 1), Item (IntSmall 5)]\<rparr> [IntSmall 1, IntSmall 5]"
    "list_rep \<lparr>list_alloc = 2, list_len = 1, items = [Item (IntSmall 2), MpNull]\<rparr> [IntSmall 2]" by (simp_all add: list_rep_def)
  show ?thesis using seq_compare_lexicographic [OF r, of "\<lambda>_ _ _. Inr ()" "[1, 2]" "[1]"] by (simp add: small_def)
qed

end
