(* ===== verification/Mp_Range.thy ===== *)
theory Mp_Range
  imports Mp_Slice_Laws
begin

text \<open>
  Ranges, \<^verbatim>\<open>py/objrange.c\<close>: three machine integers that stand for an arithmetic progression, with length, indexing, slicing and
  iteration, all in machine arithmetic.
\<close>

section \<open>Operations\<close>

record mp_obj_range_t =
  range_start :: int
  range_stop :: int
  range_step :: int

record mp_obj_range_it_t =
  it_cur :: int
  it_stop :: int
  it_step :: int

definition range_make_new :: "int \<Rightarrow> int option \<Rightarrow> int option \<Rightarrow> list_error + mp_obj_range_t" where
  "range_make_new arg0 arg1 arg2 =
     (case arg1 of
        None \<Rightarrow> res_bind (mp_obj_get_int arg0) (\<lambda>b. Inr \<lparr>range_start = 0, range_stop = b, range_step = 1\<rparr>)
      | Some arg1 \<Rightarrow>
          res_bind (mp_obj_get_int arg0) (\<lambda>a.
          res_bind (mp_obj_get_int arg1) (\<lambda>b.
          case arg2 of
            None \<Rightarrow> Inr \<lparr>range_start = a, range_stop = b, range_step = 1\<rparr>
          | Some arg2 \<Rightarrow>
              res_bind (mp_obj_get_int arg2) (\<lambda>s.
              if s = 0 then Inl ZeroStep else Inr \<lparr>range_start = a, range_stop = b, range_step = s\<rparr>))))"

definition range_len :: "mp_obj_range_t \<Rightarrow> int" where
  "range_len self =
     (let len = s32 (s32 (range_stop self - range_start self) + range_step self);
          len = (if range_step self > 0 then s32 (len - 1) else s32 (len + 1));
          len = s32 (len sdiv range_step self)
      in if len < 0 then 0 else len)"

definition range_unary_op :: "mp_unary_op_t \<Rightarrow> mp_obj_range_t \<Rightarrow> 'f op_result" where
  "range_unary_op op self =
     (let len = range_len self
      in case op of
           MP_UNARY_OP_BOOL \<Rightarrow> ResBool (len > 0)
         | MP_UNARY_OP_LEN \<Rightarrow> ResInt (MP_OBJ_NEW_SMALL_INT len)
         | _ \<Rightarrow> ResNull)"

definition range_index :: "mp_obj_range_t \<Rightarrow> int \<Rightarrow> list_error + mp_int_obj" where
  "range_index self index =
     res_bind (mp_get_index (nat (range_len self)) index False) (\<lambda>index_val.
     Inr (MP_OBJ_NEW_SMALL_INT (s32 (range_start self + int index_val * range_step self))))"

definition range_slice :: "mp_obj_range_t \<Rightarrow> mp_obj_slice_t \<Rightarrow> list_error + mp_obj_range_t" where
  "range_slice self index =
     res_bind (mp_seq_get_fast_slice_indexes (nat (range_len self)) index) (\<lambda>(fast, ix).
     let o_start = s32 (range_start self + s32 (start ix * range_step self));
         o_stop = s32 (range_start self + s32 (stop ix * range_step self));
         o_step = s32 (step ix * range_step self);
         o_stop = (if step ix < 0 then s32 (o_stop - range_step self) else o_stop)
     in Inr \<lparr>range_start = o_start, range_stop = o_stop, range_step = o_step\<rparr>)"

definition range_getiter :: "mp_obj_range_t \<Rightarrow> mp_obj_range_it_t" where
  "range_getiter o' = \<lparr>it_cur = range_start o', it_stop = range_stop o', it_step = range_step o'\<rparr>"

definition range_it_iternext :: "mp_obj_range_it_t \<Rightarrow> (mp_int_obj \<times> mp_obj_range_it_t) option" where
  "range_it_iternext o' =
     (if (it_step o' > 0 \<and> it_cur o' < it_stop o') \<or> (it_step o' < 0 \<and> it_cur o' > it_stop o')
      then Some (MP_OBJ_NEW_SMALL_INT (it_cur o'), o'\<lparr>it_cur := s32 (it_cur o' + it_step o')\<rparr>)
      else None)"

section \<open>The numbers of a range\<close>

definition range_elems :: "mp_obj_range_t \<Rightarrow> int list" where
  "range_elems r = map (\<lambda>k. range_start r + int k * range_step r) [0..<py_span (range_start r) (range_stop r) (range_step r)]"

text \<open>The components are small integers and the length does not overflow on the way.\<close>

definition range_ok :: "mp_obj_range_t \<Rightarrow> bool" where
  "range_ok r \<longleftrightarrow> range_step r \<noteq> 0 \<and> small (range_start r) \<and> small (range_stop r) \<and> small (range_step r) \<and>
     \<bar>range_stop r - range_start r\<bar> + \<bar>range_step r\<bar> < 2 ^ 31"

text \<open>The first so many values an iterator returns, fewer if it stops.\<close>

fun iter_take :: "nat \<Rightarrow> mp_obj_range_it_t \<Rightarrow> mp_int_obj list" where
  "iter_take 0 it = []"
| "iter_take (Suc n) it = (case range_it_iternext it of None \<Rightarrow> [] | Some (v, it) \<Rightarrow> v # iter_take n it)"

lemma sdiv_clamp:
  assumes "0 < (s :: int)"
  shows "max 0 (n sdiv s) = int (nat (n div s))"
proof (cases "0 \<le> n")
  case True
  then show ?thesis using assms by (simp add: sdiv_nonneg pos_imp_zdiv_nonneg_iff)
next
  case False
  have "n sdiv s \<le> 0" using False assms by (simp add: signed_divide_int_def sgn_if pos_imp_zdiv_nonneg_iff)
  moreover have "n div s < 0" using False assms by (simp add: pos_imp_zdiv_neg_iff)
  ultimately show ?thesis by simp
qed

lemma sdiv_minus: "(- n) sdiv (- s) = n sdiv (s :: int)"
  by (simp add: signed_divide_int_def sgn_minus)

lemma sdiv_le_abs: "\<bar>n sdiv s\<bar> \<le> \<bar>n :: int\<bar>"
proof -
  have "\<bar>n\<bar> div \<bar>s\<bar> \<le> \<bar>n\<bar>" by (cases "s = 0") (auto intro: order_trans [OF zdiv_mono2 [of "\<bar>n\<bar>" 1 "\<bar>s\<bar>"]])
  moreover have "0 \<le> \<bar>n\<bar> div \<bar>s\<bar>" by (cases "s = 0") (simp_all add: pos_imp_zdiv_nonneg_iff)
  ultimately show ?thesis by (auto simp: signed_divide_int_def abs_mult sgn_if)
qed

lemma range_len_exact:
  assumes "range_ok r"
  shows "range_len r = int (length (range_elems r))"
proof -
  let ?a = "range_start r" and ?b = "range_stop r" and ?s = "range_step r"
  define n where "n = (if ?s > 0 then ?b - ?a + ?s - 1 else ?b - ?a + ?s + 1)"
  have r: "?s \<noteq> 0" "\<bar>?b - ?a\<bar> + \<bar>?s\<bar> < 2 ^ 31" using assms by (auto simp: range_ok_def)
  then have nb: "\<bar>n\<bar> < 2 ^ 31" by (auto simp: n_def abs_if split: if_splits)
  then have q: "s32 (n sdiv ?s) = n sdiv ?s" using sdiv_le_abs [of n ?s] by (intro s32_id) linarith+
  have i: "s32 (s32 (?b - ?a) + ?s) = ?b - ?a + ?s" using r by (auto simp: s32_id abs_if split: if_splits)
  have len: "(if ?s > 0 then s32 (?b - ?a + ?s - 1) else s32 (?b - ?a + ?s + 1)) = n"
    using nb by (auto simp: n_def intro!: s32_id)
  have "range_len r = max 0 (n sdiv ?s)"
    unfolding range_len_def Let_def i len q by (simp add: max_def)
  also have "\<dots> = int (py_span ?a ?b ?s)"
  proof (cases "?s > 0")
    case True
    then show ?thesis using sdiv_clamp [OF True, of n] by (simp add: py_span_def n_def)
  next
    case False
    then have "0 < - ?s" using r by simp
    moreover have "- n = ?a - ?b - ?s - 1" using False by (simp add: n_def)
    ultimately show ?thesis using sdiv_clamp [of "- ?s" "- n"] False unfolding sdiv_minus by (simp add: py_span_def)
  qed
  finally show ?thesis by (simp add: range_elems_def)
qed

lemma span_elem:
  assumes "s \<noteq> 0" "k < py_span a b s"
  shows "if s > 0 then a \<le> a + int k * s \<and> a + int k * s < b else b < a + int k * s \<and> a + int k * s \<le> a"
  using span_less [OF assms(1), of k a b] assms by (auto simp: mult_nonneg_nonpos split: if_splits)

lemma range_elem_small:
  assumes "range_ok r" "k < length (range_elems r)"
  shows "range_elems r ! k = range_start r + int k * range_step r \<and> small (range_elems r ! k)"
proof -
  have k: "k < py_span (range_start r) (range_stop r) (range_step r)" using assms(2) by (simp add: range_elems_def)
  define v where "v = range_start r + int k * range_step r"
  have "range_elems r ! k = v" using k by (simp add: range_elems_def v_def)
  moreover have "small v" using span_elem [OF _ k, folded v_def] assms(1) by (auto simp: range_ok_def small_def split: if_splits)
  ultimately show ?thesis by (simp add: v_def)
qed

lemma range_short: "range_ok r \<Longrightarrow> length (range_elems r) < 2 ^ 31"
proof -
  assume ok: "range_ok r"
  let ?n = "py_span (range_start r) (range_stop r) (range_step r)"
  show ?thesis
  proof (cases ?n)
    case (Suc k)
    have s: "range_step r \<noteq> 0" "\<bar>range_stop r - range_start r\<bar> + \<bar>range_step r\<bar> < 2 ^ 31" using ok by (auto simp: range_ok_def)
    have "int k * 1 \<le> int k * \<bar>range_step r\<bar>" using s(1) by (intro mult_left_mono) auto
    moreover have "int k * \<bar>range_step r\<bar> < \<bar>range_stop r - range_start r\<bar>"
      using span_less [OF s(1), of k "range_start r" "range_stop r"] Suc by (auto simp: abs_if split: if_splits)
    ultimately show ?thesis using Suc s by (simp add: range_elems_def)
  qed (simp add: range_elems_def)
qed

lemma range_index_exact:
  assumes "range_ok r" "is_mp_int i"
  shows "range_index r i = (case py_index (length (range_elems r)) i of None \<Rightarrow> Inl IndexError | Some k \<Rightarrow> Inr (IntSmall (range_elems r ! k)))"
proof (cases "py_index (length (range_elems r)) i")
  case None
  then show ?thesis using get_index_item [OF assms(2) range_short [OF assms(1)]] by (simp add: range_index_def range_len_exact [OF assms(1)])
next
  case (Some k)
  then have e: "range_elems r ! k = range_start r + int k * range_step r" "small (range_elems r ! k)"
    using range_elem_small [OF assms(1) py_index_less [OF Some]] by auto
  then have "s32 (range_start r + int k * range_step r) = range_elems r ! k" by (simp add: s32_id small_def)
  then show ?thesis using get_index_item [OF assms(2) range_short [OF assms(1)]] Some e(2)
    by (simp add: range_index_def range_len_exact [OF assms(1)] new_small_int)
qed

section \<open>Iteration\<close>

lemma span_step:
  assumes "s \<noteq> 0"
  shows "py_span (a + s) b s = py_span a b s - 1"
proof (rule ccontr)
  have st: "k < py_span (a + s) b s \<longleftrightarrow> Suc k < py_span a b s" for k
    using span_less [OF assms, of k "a + s" b] span_less [OF assms, of "Suc k" a b] by (simp add: algebra_simps)
  assume "py_span (a + s) b s \<noteq> py_span a b s - 1"
  then consider "py_span (a + s) b s < py_span a b s - 1" | "py_span a b s - 1 < py_span (a + s) b s" by linarith
  then show False using st [of "py_span (a + s) b s"] st [of "py_span a b s - 1"] by cases auto
qed

lemma iter_take_span:
  assumes "small b" "small s" "s \<noteq> 0" "s > 0 \<longrightarrow> - (2 ^ 30) \<le> a" "s < 0 \<longrightarrow> a < 2 ^ 30" "py_span a b s \<le> n"
  shows "iter_take n \<lparr>it_cur = a, it_stop = b, it_step = s\<rparr> = map (\<lambda>k. IntSmall (a + int k * s)) [0..<py_span a b s]"
  using assms(4-6)
proof (induction n arbitrary: a)
  case (Suc n)
  have c: "0 < py_span a b s \<longleftrightarrow> (s > 0 \<and> a < b) \<or> (s < 0 \<and> a > b)" using span_less [OF assms(3), of 0 a b] assms(3) by auto
  show ?case
  proof (cases "0 < py_span a b s")
    case False
    then have "py_span a b s = 0" "\<not> (0 < s \<and> a < b \<or> s < 0 \<and> b < a)" using c by auto
    then show ?thesis by (auto simp: range_it_iternext_def)
  next
    case True
    then have sm: "small a" using c Suc.prems assms(1) by (auto simp: small_def)
    then have w: "s32 (a + s) = a + s" using assms(2) by (simp add: s32_id small_def)
    have m: "py_span (a + s) b s = py_span a b s - 1" by (rule span_step [OF assms(3)])
    have "iter_take n \<lparr>it_cur = a + s, it_stop = b, it_step = s\<rparr> = map (\<lambda>k. IntSmall (a + s + int k * s)) [0..<py_span (a + s) b s]"
      using Suc.prems m by (intro Suc.IH) auto
    moreover obtain k where k: "py_span a b s = Suc k" using True gr0_implies_Suc by blast
    moreover have "map (\<lambda>k. IntSmall (a + int k * s)) [0..<Suc k] = IntSmall a # map (\<lambda>k. IntSmall (a + s + int k * s)) [0..<k]"
      by (simp add: upt_conv_Cons map_Suc_upt [symmetric] algebra_simps del: upt_Suc)
    moreover have "range_it_iternext \<lparr>it_cur = a, it_stop = b, it_step = s\<rparr> = Some (IntSmall a, \<lparr>it_cur = a + s, it_stop = b, it_step = s\<rparr>)"
      using c True sm w by (simp add: range_it_iternext_def new_small_int)
    ultimately show ?thesis by (simp add: m del: upt_Suc)
  qed
qed simp

lemma range_iterates:
  assumes "range_ok r" "length (range_elems r) \<le> n"
  shows "iter_take n (range_getiter r) = map IntSmall (range_elems r)"
  using iter_take_span [of "range_stop r" "range_step r" "range_start r" n] assms
  by (auto simp: range_getiter_def range_elems_def range_ok_def small_def comp_def)

section \<open>Slices of ranges\<close>

text \<open>A slice of a progression is the progression of the positions.\<close>

lemma span_scale:
  assumes "d \<noteq> 0" "s \<noteq> 0" "e = (if s > 0 then max a b else min a b)"
  shows "py_span (c + a * d) (c + e * d) (s * d) = py_span a b s"
proof -
  have "k < py_span (c + a * d) (c + e * d) (s * d) \<longleftrightarrow> k < py_span a b s" for k
  proof -
    let ?p = "a + int k * s"
    have p: "c + a * d + int k * (s * d) = c + ?p * d" by (simp add: algebra_simps)
    have "k < py_span (c + a * d) (c + e * d) (s * d) \<longleftrightarrow> (if s * d > 0 then ?p * d < e * d else e * d < ?p * d)"
      using span_less [of "s * d" k "c + a * d" "c + e * d"] assms(1,2) unfolding p by simp
    also have "\<dots> \<longleftrightarrow> (if s > 0 then ?p < e else e < ?p)"
      using assms(1,2) by (cases "d > 0"; cases "s > 0") (auto simp: zero_less_mult_iff mult_less_cancel_right)
    also have "\<dots> \<longleftrightarrow> (if s > 0 then ?p < b else b < ?p)"
    proof -
      define q where "q = int k * s"
      have "if s > 0 then 0 \<le> q else q \<le> 0" by (simp add: q_def mult_nonneg_nonpos)
      then show ?thesis unfolding q_def [symmetric] using assms(3) by (auto simp: max_def min_def split: if_splits)
    qed
    finally show ?thesis using span_less [OF assms(2)] by simp
  qed
  then show ?thesis by (metis linorder_neqE_nat less_irrefl)
qed

lemma range_position_bounds:
  assumes "range_ok r" "- 1 \<le> i" "i \<le> int (length (range_elems r))"
  shows "is_mp_int (i * range_step r)" "is_mp_int (range_start r + i * range_step r)"
proof -
  let ?a = "range_start r" and ?b = "range_stop r" and ?d = "range_step r" and ?n = "length (range_elems r)"
  have r: "?d \<noteq> 0" "small ?a" "small ?b" "small ?d" "\<bar>?b - ?a\<bar> + \<bar>?d\<bar> < 2 ^ 31" using assms(1) by (auto simp: range_ok_def)
  have "is_mp_int (i * ?d) \<and> is_mp_int (?a + i * ?d)"
  proof (cases "i \<le> 0")
    case True
    then have "i = 0 \<or> i = - 1" using assms(2) by auto
    then show ?thesis using r by (auto simp: is_mp_int_def small_def)
  next
    case False
    define k where "k = nat (i - 1)"
    have i: "i = int k + 1" using False by (simp add: k_def)
    have "k < py_span ?a ?b ?d" using assms(3) by (simp add: i range_elems_def)
    define v where "v = ?a + int k * ?d"
    have "i * ?d = v - ?a + ?d" "?a + i * ?d = v + ?d" by (simp_all add: i v_def algebra_simps)
    moreover have "if ?d > 0 then ?a \<le> v \<and> v < ?b else ?b < v \<and> v \<le> ?a" using span_elem [OF r(1) \<open>k < _\<close>] unfolding v_def .
    ultimately show ?thesis using r by (auto simp: is_mp_int_def small_def abs_if split: if_splits)
  qed
  then show "is_mp_int (i * ?d)" "is_mp_int (?a + i * ?d)" by auto
qed

lemma range_slice_exact:
  assumes "range_ok r" "is_mp_slice sl" "is_mp_int (py_step sl * range_step r)"
  shows "if py_step sl = 0 then range_slice r sl = Inl ZeroStep
    else \<exists>r'. range_slice r sl = Inr r' \<and> range_elems r' = py_slice (range_elems r) sl"
proof (cases "py_step sl = 0")
  case True
  then show ?thesis by (simp add: range_slice_def fast_indexes_zero)
next
  case nz: False
  define xs where "xs = range_elems r"
  let ?n = "int (length xs)" and ?c = "range_start r" and ?d = "range_step r" and ?s = "py_step sl"
  define a where "a = py_start ?n sl"
  define b where "b = py_stop ?n sl"
  define e where "e = (if ?s > 0 then max a b else min a b)"
  have ab: "- 1 \<le> a" "a \<le> ?n" "- 1 \<le> b" "b \<le> ?n"
    using py_start_range [of ?n sl] py_stop_range [of ?n sl] by (cases "?s > 0"; simp add: a_def b_def)+
  have le: "loop_end ?n sl = (if ?s > 0 then e else e + 1)" by (auto simp: loop_end_def e_def a_def b_def min_def)
  have leb: "- 1 \<le> loop_end ?n sl" "loop_end ?n sl \<le> ?n" "- 1 \<le> e" "e \<le> ?n"
    using ab py_start_range(2) [of ?n sl] py_stop_range(2) [of ?n sl] by (auto simp: le e_def a_def b_def min_def split: if_splits)
  have fi: "mp_seq_get_fast_slice_indexes (nat (range_len r)) sl = Inr (?s = 1, \<lparr>start = a, stop = loop_end ?n sl, step = ?s\<rparr>)"
    using fast_indexes_exact [OF assms(2) nz range_short [OF assms(1)]] range_len_exact [OF assms(1)] by (simp add: xs_def a_def)
  have w: "s32 (i * ?d) = i * ?d" "s32 (?c + i * ?d) = ?c + i * ?d" if "- 1 \<le> i" "i \<le> ?n" for i
    using range_position_bounds [OF assms(1), of i] that by (auto simp: is_mp_int_def s32_id xs_def)
  have st: "(if ?s < 0 then s32 (?c + loop_end ?n sl * ?d - ?d) else ?c + loop_end ?n sl * ?d) = ?c + e * ?d"
    using w(2) [OF leb(3,4)] nz by (auto simp: le algebra_simps)
  have sw: "s32 (?s * ?d) = ?s * ?d" using assms(3) by (simp add: is_mp_int_def s32_id)
  have rs: "range_slice r sl = Inr \<lparr>range_start = ?c + a * ?d, range_stop = ?c + e * ?d, range_step = ?s * ?d\<rparr>"
    unfolding range_slice_def fi res_bind_simps prod.case Let_def mp_bound_slice_t.simps w [OF ab(1,2)] w [OF leb(1,2)] sw st ..
  have "range_elems \<lparr>range_start = ?c + a * ?d, range_stop = ?c + e * ?d, range_step = ?s * ?d\<rparr> = py_slice xs sl"
  proof -
    have d: "?d \<noteq> 0" using assms(1) by (simp add: range_ok_def)
    have "xs ! nat (a + int k * ?s) = ?c + a * ?d + int k * (?s * ?d)" if "k < py_count ?n sl" for k
    proof -
      have p: "0 \<le> a + int k * ?s" "a + int k * ?s < ?n" using slice_positions [OF nz that] by (simp_all add: a_def)
      then have "xs ! nat (a + int k * ?s) = ?c + (a + int k * ?s) * ?d"
        using range_elem_small [OF assms(1), of "nat (a + int k * ?s)"] by (simp add: xs_def)
      then show ?thesis by (simp add: algebra_simps)
    qed
    then show ?thesis using span_scale [OF d nz e_def, of ?c] by (simp add: range_elems_def py_slice_def py_count_def a_def [symmetric] b_def [symmetric])
  qed
  then show ?thesis using nz rs by (simp add: xs_def)
qed

section \<open>Results\<close>

text \<open>
  C18: On small integers a range is the progression Python means: its length and truth are those of the progression, an index gives the
  number there or \<^verbatim>\<open>IndexError\<close>, its iterator gives the numbers in order and then stops, and a slice of it is a range whose
  numbers are Python's slice of the progression. A step of zero raises \<^verbatim>\<open>ValueError\<close>. The bounds are part of the claim: the start, the
  stop and the step are small integers, the distance from start to stop and the step add up to less than \<open>2 ^ 31\<close>, an index, the
  components of a slice and the product of the two steps are below \<open>2 ^ 31\<close> in absolute value, and the result of \<^verbatim>\<open>len()\<close>,
  which is encoded as a small integer without a check, is that of the progression if that is shorter than \<open>2 ^ 30\<close>.
\<close>

theorem range_correct:
  assumes "range_ok r" "is_mp_int i" "is_mp_slice sl" "is_mp_int (py_step sl * range_step r)" "length (range_elems r) \<le> n"
  shows "range_len r = int (length (range_elems r)) \<and>
    range_unary_op MP_UNARY_OP_BOOL r = (ResBool (range_elems r \<noteq> []) :: 'f op_result) \<and>
    (length (range_elems r) < 2 ^ 30 \<longrightarrow> range_unary_op MP_UNARY_OP_LEN r = (ResInt (IntSmall (int (length (range_elems r)))) :: 'f op_result)) \<and>
    range_index r i = (case py_index (length (range_elems r)) i of None \<Rightarrow> Inl IndexError | Some k \<Rightarrow> Inr (IntSmall (range_elems r ! k))) \<and>
    iter_take n (range_getiter r) = map IntSmall (range_elems r) \<and>
    (if py_step sl = 0 then range_slice r sl = Inl ZeroStep
     else \<exists>r'. range_slice r sl = Inr r' \<and> range_elems r' = py_slice (range_elems r) sl) \<and>
    (is_mp_int a \<and> is_mp_int b \<and> is_mp_int c \<longrightarrow>
      range_make_new a (Some b) (Some c) = (if c = 0 then Inl ZeroStep else Inr \<lparr>range_start = a, range_stop = b, range_step = c\<rparr>))"
  using range_len_exact [OF assms(1)] range_index_exact [OF assms(1,2)] range_iterates [OF assms(1,5)] range_slice_exact [OF assms(1,3,4)]
  by (simp add: range_unary_op_def range_make_new_def get_int_exact new_small_int small_def)

theorem range_correct_witness:
  "range_unary_op MP_UNARY_OP_LEN \<lparr>range_start = 10, range_stop = 0, range_step = - 3\<rparr> = (ResInt (IntSmall 4) :: unit op_result) \<and>
   iter_take 9 (range_getiter \<lparr>range_start = 10, range_stop = 0, range_step = - 3\<rparr>) = map IntSmall [10, 7, 4, 1] \<and>
   (\<exists>r'. range_slice \<lparr>range_start = 10, range_stop = 0, range_step = - 3\<rparr> \<lparr>slice_start = None, slice_stop = None, slice_step = Some (- 2)\<rparr> = Inr r' \<and>
     range_elems r' = [1, 7])"
proof -
  let ?r = "\<lparr>range_start = 10, range_stop = 0, range_step = - 3\<rparr>" and ?sl = "\<lparr>slice_start = None, slice_stop = None, slice_step = Some (- 2)\<rparr>"
  have v: "range_elems ?r = [10, 7, 4, 1]" "py_step ?sl = - 2" "py_slice [10, 7, 4, 1 :: int] ?sl = [1, 7]" by code_simp+
  have "range_ok ?r" "is_mp_int 0" "is_mp_slice ?sl" "is_mp_int (py_step ?sl * range_step ?r)" "length (range_elems ?r) \<le> 9"
    by (simp_all add: range_ok_def small_def is_mp_int_def is_mp_slice_def v)
  from range_correct [where 'f = unit, OF this] show ?thesis by (simp add: v)
qed

text \<open>
  What happens beyond small integers. The iterator makes a small integer of any machine integer, so the number after the largest
  small integer comes out as the smallest; a step over the largest machine integer starts again from below, and this range
  comes back to its start without end; and the length of the largest range overflows to zero. A length from \<open>2 ^ 30\<close> on is no
  small integer: \<^verbatim>\<open>len()\<close> of a range of small integers can come out negative.
\<close>

lemma range_iter_truncates:
  "map_option fst (range_it_iternext (range_getiter \<lparr>range_start = 2 ^ 30, range_stop = 2 ^ 30 + 1, range_step = 1\<rparr>)) = Some (IntSmall (- (2 ^ 30)))"
  by code_simp

definition endless :: mp_obj_range_it_t where
  "endless = range_getiter \<lparr>range_start = 0, range_stop = 2 ^ 31 - 1, range_step = 2 ^ 30\<rparr>"

lemma range_iter_endless: "length (iter_take n endless) = n"
proof -
  have c: "range_it_iternext \<lparr>it_cur = x, it_stop = 2147483647, it_step = 1073741824\<rparr> =
      Some (MP_OBJ_NEW_SMALL_INT x, \<lparr>it_cur = s32 (x + 1073741824), it_stop = 2147483647, it_step = 1073741824\<rparr>)" if "x < 2147483647" for x
    using that by (simp add: range_it_iternext_def)
  have step: "s32 (x + 1073741824) \<in> {0, 1073741824, - 2147483648, - 1073741824}" if "x \<in> {0, 1073741824, - 2147483648, - 1073741824}" for x
    using that by (auto simp: s32_def)
  have "length (iter_take n \<lparr>it_cur = x, it_stop = 2147483647, it_step = 1073741824\<rparr>) = n"
    if "x \<in> {0, 1073741824, - 2147483648, - 1073741824}" for x
    using that
  proof (induction n arbitrary: x)
    case (Suc n)
    have "x < 2147483647" using Suc.prems by auto
    then show ?case using Suc.IH [OF step [OF Suc.prems]] c [of x] by simp
  qed simp
  from this [of 0] show ?thesis by (simp add: endless_def range_getiter_def)
qed

lemma range_len_overflows: "range_len \<lparr>range_start = 1 - 2 ^ 31, range_stop = 2 ^ 31 - 1, range_step = 1\<rparr> = 0"
  by (simp add: range_len_def s32_def signed_divide_int_def Let_def)

lemma range_len_truncates:
  "range_ok \<lparr>range_start = - (2 ^ 30), range_stop = 2 ^ 30 - 2, range_step = 1\<rparr>"
  "range_unary_op MP_UNARY_OP_LEN \<lparr>range_start = - (2 ^ 30), range_stop = 2 ^ 30 - 2, range_step = 1\<rparr> = (ResInt (IntSmall (- 2)) :: 'f op_result)"
  by (simp_all add: range_ok_def small_def range_unary_op_def range_len_def MP_OBJ_NEW_SMALL_INT_def s32_def signed_divide_int_def Let_def)

end
