(* ===== verification/Queue.thy ===== *)
theory Queue
  imports Prelude
begin

text \<open>
  The contract of a bounded first-in first-out queue, which the circular buffers of the program
  implement, and the window of a circular buffer that holds its contents.
\<close>

type_synonym byte = "8 word"

section \<open>The contract\<close>

datatype 'a queue_op = Put 'a | Get

text \<open>
  A sequence of operations: the values that were accepted, the values that were returned, and the queue
  at the end.
\<close>

fun queue_run :: "('a \<Rightarrow> 'q \<Rightarrow> 'q option) \<Rightarrow> ('q \<Rightarrow> ('a \<times> 'q) option) \<Rightarrow> 'a queue_op list \<Rightarrow> 'q \<Rightarrow> 'a list \<times> 'a list \<times> 'q" where
  "queue_run put get [] q = ([], [], q)"
| "queue_run put get (Put v # ops) q =
     (case put v q of
        None \<Rightarrow> queue_run put get ops q
      | Some q \<Rightarrow> (case queue_run put get ops q of (ins, outs, q) \<Rightarrow> (v # ins, outs, q)))"
| "queue_run put get (Get # ops) q =
     (case get q of
        None \<Rightarrow> queue_run put get ops q
      | Some (v, q) \<Rightarrow> (case queue_run put get ops q of (ins, outs, q) \<Rightarrow> (ins, v # outs, q)))"

locale bounded_queue =
  fixes inv :: "'q \<Rightarrow> bool" and items :: "'q \<Rightarrow> 'a list" and cap :: "'q \<Rightarrow> nat"
    and put :: "'a \<Rightarrow> 'q \<Rightarrow> 'q option" and get :: "'q \<Rightarrow> ('a \<times> 'q) option"
  assumes put_full: "inv q \<Longrightarrow> put v q = None \<longleftrightarrow> length (items q) = cap q"
    and put_items: "inv q \<Longrightarrow> put v q = Some q' \<Longrightarrow> inv q' \<and> items q' = items q @ [v] \<and> cap q' = cap q"
    and get_empty: "inv q \<Longrightarrow> get q = None \<longleftrightarrow> items q = []"
    and get_items: "inv q \<Longrightarrow> get q = Some (v, q') \<Longrightarrow> inv q' \<and> items q = v # items q' \<and> cap q' = cap q"
    and bounded: "inv q \<Longrightarrow> length (items q) \<le> cap q"
begin

text \<open>Nothing is lost, duplicated or reordered.\<close>

lemma fifo:
  assumes "inv q" "queue_run put get ops q = (ins, outs, q')"
  shows "items q @ ins = outs @ items q' \<and> inv q' \<and> cap q' = cap q \<and> length (items q') \<le> cap q"
  using assms
proof (induction ops arbitrary: q ins outs)
  case Nil
  then show ?case using bounded by simp
next
  case (Cons p ops)
  show ?case
  proof (cases p)
    case (Put v)
    show ?thesis
    proof (cases "put v q")
      case None
      then show ?thesis using Cons Put by simp
    next
      case (Some q1)
      obtain i o1 where r: "queue_run put get ops q1 = (i, o1, q')" "ins = v # i" "outs = o1"
        using Cons.prems(2) Put Some by (auto split: prod.splits)
      show ?thesis using Cons.IH [OF _ r(1)] put_items [OF Cons.prems(1) Some] r(2,3) by simp
    qed
  next
    case Get
    show ?thesis
    proof (cases "get q")
      case None
      then show ?thesis using Cons Get by simp
    next
      case (Some vq)
      obtain v q1 where vq: "vq = (v, q1)" by fastforce
      obtain i o1 where r: "queue_run put get ops q1 = (i, o1, q')" "ins = i" "outs = v # o1"
        using Cons.prems(2) Get Some vq by (auto split: prod.splits)
      show ?thesis using Cons.IH [OF _ r(1)] get_items [OF Cons.prems(1) Some [unfolded vq]] r(2,3) by simp
    qed
  qed
qed

text \<open>As many values as there is room for are accepted, and as many as there are can be read.\<close>

lemma fill:
  assumes "inv q" "length vs \<le> cap q - length (items q)"
  shows "\<exists>q'. queue_run put get (map Put vs) q = (vs, [], q')"
  using assms
proof (induction vs arbitrary: q)
  case (Cons v vs)
  have "put v q \<noteq> None" using put_full [OF Cons.prems(1)] Cons.prems(2) by auto
  then obtain q1 where q1: "put v q = Some q1" by blast
  have "\<exists>q'. queue_run put get (map Put vs) q1 = (vs, [], q')"
    using put_items [OF Cons.prems(1) q1] Cons.prems(2) by (intro Cons.IH) auto
  then show ?case using q1 by auto
qed simp

lemma drain:
  assumes "inv q"
  shows "\<exists>q'. queue_run put get (replicate (length (items q)) Get) q = ([], items q, q')"
  using assms
proof (induction "items q" arbitrary: q)
  case (Cons v vs)
  have "get q \<noteq> None" using get_empty [OF Cons.prems] Cons.hyps(2) by (metis list.distinct(1))
  then obtain w q1 where g: "get q = Some (w, q1)" by auto
  have q1: "inv q1" "items q = w # items q1" using get_items [OF Cons.prems g] by simp_all
  then have "vs = items q1" using Cons.hyps(2) by simp
  then show ?case using Cons.hyps(1) [OF _ q1(1)] g q1(2) by auto
qed simp

end

section \<open>Circular buffers\<close>

text \<open>The \<open>n\<close> cells from \<open>start\<close> on, around the end.\<close>

definition window :: "'a list \<Rightarrow> nat \<Rightarrow> nat \<Rightarrow> 'a list" where
  "window xs start n = map (\<lambda>i. xs ! ((start + i) mod length xs)) [0..<n]"

lemma window_length [simp]: "length (window xs start n) = n"
  by (simp add: window_def)

lemma window_0 [simp]: "window xs start 0 = []"
  by (simp add: window_def)

lemma window_Suc: "window xs start (Suc n) = xs ! (start mod length xs) # window xs (Suc start) n"
  by (simp add: window_def upt_conv_Cons map_Suc_upt [symmetric] comp_def del: upt_Suc map_Suc_upt)

lemma window_mod [simp]: "window xs (start mod length xs) n = window xs start n"
  by (simp add: window_def mod_add_left_eq)

lemma mod_window_neq:
  assumes "i < n" "n < (m :: nat)"
  shows "(start + i) mod m \<noteq> (start + n) mod m"
proof
  assume "(start + i) mod m = (start + n) mod m"
  then have "m dvd n - i" using assms by (metis add_diff_cancel_left diff_is_0_eq less_imp_le_nat mod_eq_dvd_iff_nat nat_add_left_cancel_le)
  then show False using assms by (simp add: nat_dvd_not_less)
qed

lemma window_put:
  assumes "n < length xs"
  shows "window (xs[(start + n) mod length xs := v]) start (Suc n) = window xs start n @ [v]"
proof -
  have "(start + n) mod length xs < length xs" using assms by (intro mod_less_divisor) linarith
  then show ?thesis using mod_window_neq [of _ n "length xs" start, THEN not_sym] assms by (simp add: window_def)
qed

text \<open>The distance from one position to another around the end.\<close>

definition ring_dist :: "nat \<Rightarrow> nat \<Rightarrow> nat \<Rightarrow> nat" where
  "ring_dist m from to = (m + to - from) mod m"

lemma ring_dist_less: "0 < m \<Longrightarrow> ring_dist m i j < m"
  by (simp add: ring_dist_def)

lemma ring_dist_0: "i < m \<Longrightarrow> j < m \<Longrightarrow> ring_dist m i j = 0 \<longleftrightarrow> i = j"
proof (cases "i \<le> j")
  case True
  assume "i < m" "j < m"
  then have "ring_dist m i j = j - i" using True by (simp add: ring_dist_def mod_if)
  then show ?thesis using True by auto
qed (auto simp: ring_dist_def)

lemma ring_dist_eq: "i < m \<Longrightarrow> j < m \<Longrightarrow> ring_dist m i j = (if i \<le> j then j - i else m + j - i)"
  by (simp add: ring_dist_def mod_if)

lemma ring_dist_add: "i < m \<Longrightarrow> j < m \<Longrightarrow> (i + ring_dist m i j) mod m = j"
  by (simp add: ring_dist_eq)

lemma ring_dist_advance: "i < m \<Longrightarrow> n < m \<Longrightarrow> ring_dist m i ((i + n) mod m) = n"
  by (auto simp: ring_dist_def mod_if)

end
