(* ===== verification/Ringbuf.thy ===== *)
theory Ringbuf
  imports Queue
begin

text \<open>
  The byte ring buffer of \<^verbatim>\<open>py/ringbuf.h\<close> and \<^verbatim>\<open>py/ringbuf.c\<close>, which the UART driver and the
  standard input use between an interrupt handler and the program.
\<close>

section \<open>Operations\<close>

text \<open>The three fields are 16 bits wide. A result of -1 is \<^const>\<open>None\<close>.\<close>

record ringbuf =
  buf :: "byte list"
  rsize :: nat
  iget :: nat
  iput :: nat

definition ringbuf_alloc :: "byte list \<Rightarrow> nat \<Rightarrow> ringbuf" where
  "ringbuf_alloc mem sz = \<lparr>buf = take sz mem, rsize = u16 sz, iget = 0, iput = 0\<rparr>"

definition ringbuf_get :: "ringbuf \<Rightarrow> (byte \<times> ringbuf) option" where
  "ringbuf_get r =
     (if iget r = iput r then None
      else let v = buf r ! iget r; i = u16 (iget r + 1)
           in Some (v, r\<lparr>iget := if i \<ge> rsize r then 0 else i\<rparr>))"

definition ringbuf_peek :: "ringbuf \<Rightarrow> byte option" where
  "ringbuf_peek r = (if iget r = iput r then None else Some (buf r ! iget r))"

definition ringbuf_put :: "byte \<Rightarrow> ringbuf \<Rightarrow> ringbuf option" where
  "ringbuf_put v r =
     (let iput_new = iput r + 1; iput_new = (if iput_new \<ge> rsize r then 0 else iput_new)
      in if iput_new = iget r then None else Some (r\<lparr>buf := (buf r)[iput r := v], iput := u16 iput_new\<rparr>))"

definition ringbuf_free :: "ringbuf \<Rightarrow> nat" where
  "ringbuf_free r = (rsize r + iget r - iput r - 1) mod rsize r"

definition ringbuf_avail :: "ringbuf \<Rightarrow> nat" where
  "ringbuf_avail r = (rsize r + iput r - iget r) mod rsize r"

definition ringbuf_peek16 :: "ringbuf \<Rightarrow> 16 word option" where
  "ringbuf_peek16 r =
     (if iget r = iput r then None
      else let iget_a = iget r + 1; iget_a = (if iget_a = rsize r then 0 else iget_a)
           in if iget_a = iput r then None
              else Some (push_bit 8 (ucast (buf r ! iget r)) OR ucast (buf r ! iget_a)))"

definition ringbuf_get16 :: "ringbuf \<Rightarrow> (16 word \<times> ringbuf) option" where
  "ringbuf_get16 r =
     (case ringbuf_peek16 r of
        None \<Rightarrow> None
      | Some v \<Rightarrow>
          (let i = u16 (iget r + 2)
           in Some (v, r\<lparr>iget := if i \<ge> rsize r then i - rsize r else i\<rparr>)))"

definition ringbuf_put16 :: "16 word \<Rightarrow> ringbuf \<Rightarrow> ringbuf option" where
  "ringbuf_put16 v r =
     (let iput_a = iput r + 1; iput_a = (if iput_a = rsize r then 0 else iput_a)
      in if iput_a = iget r then None
         else let iput_b = iput_a + 1; iput_b = (if iput_b = rsize r then 0 else iput_b)
              in if iput_b = iget r then None
                 else Some (r\<lparr>buf := (buf r)[iput r := ucast (drop_bit 8 v AND 255), iput_a := ucast (v AND 255)],
                              iput := u16 iput_b\<rparr>))"

section \<open>Contents\<close>

definition ringbuf_ok :: "ringbuf \<Rightarrow> bool" where
  "ringbuf_ok r \<longleftrightarrow> 0 < rsize r \<and> rsize r < 2 ^ 16 \<and> length (buf r) = rsize r \<and> iget r < rsize r \<and> iput r < rsize r"

definition ringbuf_items :: "ringbuf \<Rightarrow> byte list" where
  "ringbuf_items r = window (buf r) (iget r) (ring_dist (rsize r) (iget r) (iput r))"

definition ringbuf_cap :: "ringbuf \<Rightarrow> nat" where
  "ringbuf_cap r = rsize r - 1"

lemma next_index: "i < m \<Longrightarrow> (if i + 1 \<ge> m then 0 else i + 1) = (i + 1) mod m"
  for i m :: nat
  by (simp add: mod_if)

lemma next_index_eq: "i < m \<Longrightarrow> (if i + 1 = m then 0 else i + 1) = (i + 1) mod m"
  for i m :: nat
  by (simp add: mod_if)

lemma ring_dist_Suc:
  assumes "i < m" "j < m"
  shows "(j + 1) mod m = i \<longleftrightarrow> ring_dist m i j = m - 1"
    "(j + 1) mod m \<noteq> i \<Longrightarrow> ring_dist m i ((j + 1) mod m) = Suc (ring_dist m i j)"
    "j \<noteq> i \<Longrightarrow> ring_dist m ((i + 1) mod m) j = ring_dist m i j - 1"
  using assms by (auto simp: ring_dist_eq mod_if split: if_splits)

lemma put_window:
  assumes ok: "length xs = m" "i < m" "j < m" and room: "(j + 1) mod m \<noteq> i"
  shows "window (xs[j := v]) i (ring_dist m i ((j + 1) mod m)) = window xs i (ring_dist m i j) @ [v]"
proof -
  have "ring_dist m i j < length xs" using ok ring_dist_less [of m i j] by linarith
  then show ?thesis
    using window_put [of "ring_dist m i j" xs i v] ring_dist_Suc(2) [OF ok(2,3) room] ring_dist_add [OF ok(2,3)] ok(1) by simp
qed

lemma get_window:
  assumes ok: "length xs = m" "i < m" "j < m" and some: "i \<noteq> j"
  shows "window xs i (ring_dist m i j) = xs ! i # window xs ((i + 1) mod m) (ring_dist m ((i + 1) mod m) j)"
proof -
  have "ring_dist m i j = Suc (ring_dist m ((i + 1) mod m) j)"
    using ring_dist_Suc(3) [OF ok(2,3)] ring_dist_0 [OF ok(2,3)] some by auto
  then show ?thesis using window_mod [of xs "Suc i"] ok by (simp add: window_Suc)
qed

lemma ringbuf_put_eq:
  assumes "ringbuf_ok r"
  shows "ringbuf_put v r = (if (iput r + 1) mod rsize r = iget r then None
    else Some (r\<lparr>buf := (buf r)[iput r := v], iput := (iput r + 1) mod rsize r\<rparr>))"
proof -
  have ok: "iput r < rsize r" "rsize r < 2 ^ 16" "0 < rsize r" using assms by (simp_all add: ringbuf_ok_def)
  have "(iput r + 1) mod rsize r < 2 ^ 16" using ok mod_less_divisor [of "rsize r" "iput r + 1"] by linarith
  then show ?thesis unfolding ringbuf_put_def Let_def next_index [OF ok(1)] by (simp add: u16_id)
qed

lemma ringbuf_get_eq:
  assumes "ringbuf_ok r"
  shows "ringbuf_get r = (if iget r = iput r then None
    else Some (buf r ! iget r, r\<lparr>iget := (iget r + 1) mod rsize r\<rparr>))"
proof -
  have ok: "iget r < rsize r" "iget r + 1 < 2 ^ 16" using assms by (auto simp: ringbuf_ok_def)
  show ?thesis unfolding ringbuf_get_def Let_def u16_id [OF ok(2)] next_index [OF ok(1)] by simp
qed

interpretation rbq: bounded_queue ringbuf_ok ringbuf_items ringbuf_cap ringbuf_put ringbuf_get
proof
  fix q q' :: ringbuf and v :: byte
  assume ok: "ringbuf_ok q"
  note f = ok [unfolded ringbuf_ok_def]
  show "ringbuf_put v q = None \<longleftrightarrow> length (ringbuf_items q) = ringbuf_cap q"
    using f ring_dist_Suc(1) [of "iget q" "rsize q" "iput q"] by (simp add: ringbuf_put_eq [OF ok] ringbuf_items_def ringbuf_cap_def)
  show "ringbuf_put v q = Some q' \<Longrightarrow> ringbuf_ok q' \<and> ringbuf_items q' = ringbuf_items q @ [v] \<and> ringbuf_cap q' = ringbuf_cap q"
    using f put_window [of "buf q" "rsize q" "iget q" "iput q" v]
    by (auto simp: ringbuf_put_eq [OF ok] ringbuf_items_def ringbuf_cap_def ringbuf_ok_def split: if_splits)
  show "ringbuf_get q = None \<longleftrightarrow> ringbuf_items q = []"
    using f ring_dist_0 [of "iget q" "rsize q" "iput q"]
    by (auto simp: ringbuf_get_eq [OF ok] ringbuf_items_def length_0_conv [symmetric] simp del: length_0_conv)
  show "ringbuf_get q = Some (v, q') \<Longrightarrow> ringbuf_ok q' \<and> ringbuf_items q = v # ringbuf_items q' \<and> ringbuf_cap q' = ringbuf_cap q"
    using f get_window [of "buf q" "rsize q" "iget q" "iput q"]
    by (auto simp: ringbuf_get_eq [OF ok] ringbuf_items_def ringbuf_cap_def ringbuf_ok_def split: if_splits)
  show "length (ringbuf_items q) \<le> ringbuf_cap q"
    using f ring_dist_less [of "rsize q" "iget q" "iput q"] by (simp add: ringbuf_items_def ringbuf_cap_def)
qed

section \<open>Two bytes at a time\<close>

definition hi_byte :: "16 word \<Rightarrow> byte" where
  "hi_byte v = ucast (drop_bit 8 v AND 255)"

definition lo_byte :: "16 word \<Rightarrow> byte" where
  "lo_byte v = ucast (v AND 255)"

definition join_bytes :: "byte \<Rightarrow> byte \<Rightarrow> 16 word" where
  "join_bytes h l = push_bit 8 (ucast h) OR ucast l"

lemma mask_255: "(255 :: 16 word) = mask 8"
  by (simp add: mask_eq_exp_minus_1)

lemma join_split [simp]: "join_bytes (hi_byte v) (lo_byte v) = v"
  by (rule bit_word_eqI) (auto simp: join_bytes_def hi_byte_def lo_byte_def mask_255 bit_simps)

lemma ringbuf_put16_eq:
  assumes "ringbuf_ok r" "1 < rsize r"
  shows "ringbuf_put16 v r =
    (case ringbuf_put (hi_byte v) r of None \<Rightarrow> None | Some r1 \<Rightarrow> ringbuf_put (lo_byte v) r1)"
proof -
  have ok: "iput r < rsize r" "rsize r < 2 ^ 16" "0 < rsize r" using assms(1) by (simp_all add: ringbuf_ok_def)
  define a where "a = (iput r + 1) mod rsize r"
  define b where "b = (a + 1) mod rsize r"
  have "a < rsize r" "b < rsize r" using ok by (simp_all add: a_def b_def)
  then have ab: "a < rsize r" "b < 2 ^ 16" using ok(2) by linarith+
  have "ringbuf_put16 v r = (if a = iget r then None else if b = iget r then None
      else Some (r\<lparr>buf := (buf r)[iput r := hi_byte v, a := lo_byte v], iput := b\<rparr>))"
    using ab(2) unfolding ringbuf_put16_def Let_def next_index_eq [OF ok(1)] a_def [symmetric] next_index_eq [OF ab(1)] b_def [symmetric]
    by (simp add: u16_id hi_byte_def lo_byte_def)
  moreover have "ringbuf_ok (r\<lparr>buf := (buf r)[iput r := hi_byte v], iput := a\<rparr>)" if "a \<noteq> iget r"
    using assms(1) ab by (simp add: ringbuf_ok_def)
  then have "ringbuf_put (lo_byte v) (r\<lparr>buf := (buf r)[iput r := hi_byte v], iput := a\<rparr>) = (if b = iget r then None
      else Some (r\<lparr>buf := (buf r)[iput r := hi_byte v, a := lo_byte v], iput := b\<rparr>))" if "a \<noteq> iget r"
    using that by (simp add: ringbuf_put_eq b_def)
  moreover have "ringbuf_put (hi_byte v) r = (if a = iget r then None
      else Some (r\<lparr>buf := (buf r)[iput r := hi_byte v], iput := a\<rparr>))"
    using ringbuf_put_eq [OF assms(1)] by (simp add: a_def)
  ultimately show ?thesis by simp
qed

lemma ringbuf_get16_eq:
  assumes "ringbuf_ok r" "rsize r < 2 ^ 16 - 1"
  shows "ringbuf_get16 r =
    (case ringbuf_get r of None \<Rightarrow> None
     | Some (h, r1) \<Rightarrow> (case ringbuf_get r1 of None \<Rightarrow> None | Some (l, r2) \<Rightarrow> Some (join_bytes h l, r2)))"
proof -
  have ok: "iget r < rsize r" "0 < rsize r" "iget r + 2 < 2 ^ 16" using assms by (simp_all add: ringbuf_ok_def)
  define a where "a = (iget r + 1) mod rsize r"
  have a: "a < rsize r" using ok by (simp add: a_def)
  have b: "(if iget r + 2 \<ge> rsize r then iget r + 2 - rsize r else iget r + 2) = (a + 1) mod rsize r \<or> rsize r = 1"
    using ok by (auto simp: a_def mod_if)
  have "ringbuf_get16 r = (if iget r = iput r \<or> a = iput r then None
      else Some (join_bytes (buf r ! iget r) (buf r ! a),
        r\<lparr>iget := if iget r + 2 \<ge> rsize r then iget r + 2 - rsize r else iget r + 2\<rparr>))"
    unfolding ringbuf_get16_def ringbuf_peek16_def Let_def next_index_eq [OF ok(1)] a_def [symmetric] u16_id [OF ok(3)]
    by (simp add: join_bytes_def)
  moreover have "ringbuf_ok (r\<lparr>iget := a\<rparr>)" using assms(1) a by (simp add: ringbuf_ok_def)
  then have "ringbuf_get (r\<lparr>iget := a\<rparr>) = (if a = iput r then None else Some (buf r ! a, r\<lparr>iget := (a + 1) mod rsize r\<rparr>))"
    by (simp add: ringbuf_get_eq)
  moreover have "ringbuf_get r = (if iget r = iput r then None else Some (buf r ! iget r, r\<lparr>iget := a\<rparr>))"
    using ringbuf_get_eq [OF assms(1)] by (simp add: a_def)
  moreover have "iget r = iput r" if "rsize r = 1" using assms(1) that by (simp add: ringbuf_ok_def)
  ultimately show ?thesis using b by (cases "iget r = iput r \<or> a = iput r") auto
qed

section \<open>Properties\<close>

lemma ringbuf_counts:
  assumes "ringbuf_ok r"
  shows "ringbuf_avail r = length (ringbuf_items r)" "ringbuf_avail r + ringbuf_free r = rsize r - 1"
    "ringbuf_peek r = (case ringbuf_items r of [] \<Rightarrow> None | v # vs \<Rightarrow> Some v)"
proof -
  note f = assms [unfolded ringbuf_ok_def]
  show "ringbuf_avail r = length (ringbuf_items r)"
    by (simp add: ringbuf_avail_def ringbuf_items_def ring_dist_def)
  show "ringbuf_avail r + ringbuf_free r = rsize r - 1"
    using f by (auto simp: ringbuf_avail_def ringbuf_free_def mod_if)
  show "ringbuf_peek r = (case ringbuf_items r of [] \<Rightarrow> None | v # vs \<Rightarrow> Some v)"
    using f get_window [of "buf r" "rsize r" "iget r" "iput r"] ring_dist_0 [of "iget r" "rsize r" "iget r"]
    by (auto simp: ringbuf_peek_def ringbuf_items_def)
qed

definition sample_ringbuf :: ringbuf where
  "sample_ringbuf = ringbuf_alloc [0, 0, 0, 0] 4"

lemma sample_ringbuf_ok: "ringbuf_ok sample_ringbuf" "ringbuf_items sample_ringbuf = []" "rsize sample_ringbuf = 4"
  by (simp_all add: sample_ringbuf_def ringbuf_alloc_def ringbuf_ok_def u16_def ringbuf_items_def ring_dist_def)

text \<open>
  C37: The ring buffer is a first-in first-out queue: over any interleaving of puts and gets, the bytes
  returned followed by the bytes still in the buffer are the bytes in the buffer at the start followed by the
  bytes accepted; in every state that is reached a put is refused exactly if the buffer holds one byte less than its size, and
  a get exactly if it holds none; the counters of available and free bytes are exact and add up to the size less one, and a
  peek shows the next byte.
\<close>

theorem ringbuf_fifo:
  assumes "ringbuf_ok r" "queue_run ringbuf_put ringbuf_get ops r = (ins, outs, r')"
  shows "ringbuf_items r @ ins = outs @ ringbuf_items r' \<and> ringbuf_ok r' \<and> rsize r' = rsize r \<and>
    (ringbuf_put v r' = None \<longleftrightarrow> length (ringbuf_items r') = rsize r - 1) \<and> (ringbuf_get r' = None \<longleftrightarrow> ringbuf_items r' = []) \<and>
    ringbuf_avail r' = length (ringbuf_items r') \<and> ringbuf_avail r' + ringbuf_free r' = rsize r - 1 \<and>
    ringbuf_peek r' = (case ringbuf_items r' of [] \<Rightarrow> None | v # vs \<Rightarrow> Some v)"
proof -
  have q: "ringbuf_items r @ ins = outs @ ringbuf_items r'" "ringbuf_ok r'" "ringbuf_cap r' = ringbuf_cap r"
    using rbq.fifo [OF assms] by simp_all
  moreover have "0 < rsize r'" "0 < rsize r" using q(2) assms(1) by (simp_all add: ringbuf_ok_def)
  then have "rsize r' = rsize r" using q(3) unfolding ringbuf_cap_def by linarith
  ultimately show ?thesis using ringbuf_counts [OF q(2)] rbq.put_full [OF q(2), of v] rbq.get_empty [OF q(2)] by (simp add: ringbuf_cap_def)
qed

theorem ringbuf_fifo_witness:
  "\<exists>r'. queue_run ringbuf_put ringbuf_get [Put 1, Put 2, Get, Put 3, Put 4, Put 5] sample_ringbuf = ([1, 2, 3, 4], [1], r') \<and>
    ringbuf_items r' = [2, 3, 4] \<and> ringbuf_put 5 r' = None \<and> ringbuf_get r' \<noteq> None"
proof -
  obtain ins outs r' where q: "queue_run ringbuf_put ringbuf_get [Put 1, Put 2, Get, Put 3, Put 4, Put 5] sample_ringbuf = (ins, outs, r')"
    by (metis prod_cases3)
  then have "ins = [1, 2, 3, 4] \<and> outs = [1]"
    by (simp add: ringbuf_put_def ringbuf_get_def sample_ringbuf_def ringbuf_alloc_def u16_def)
  note f = ringbuf_fifo [OF sample_ringbuf_ok(1) q, of 5]
  have "ringbuf_items r' = [2, 3, 4]" using f \<open>ins = _ \<and> _\<close> sample_ringbuf_ok(2) by simp
  then have "ringbuf_put 5 r' = None" "ringbuf_get r' \<noteq> None" using f sample_ringbuf_ok(3) by simp_all
  then show ?thesis using q \<open>ins = _ \<and> _\<close> \<open>ringbuf_items r' = _\<close> by blast
qed

text \<open>
  Two bytes at a time: a 16-bit put succeeds exactly if there is room for two bytes and then appends them
  high byte first; a 16-bit get succeeds exactly if there are two bytes and returns the value that was
  put. This holds for buffers of up to 65534 bytes.
\<close>

theorem ringbuf16_roundtrip:
  assumes "ringbuf_ok r" "rsize r < 2 ^ 16 - 1" "1 < rsize r"
  shows "(ringbuf_put16 v r = None \<longleftrightarrow> ringbuf_free r < 2) \<and> (ringbuf_get16 r = None \<longleftrightarrow> ringbuf_avail r < 2) \<and>
    (\<forall>r'. ringbuf_put16 v r = Some r' \<longrightarrow> ringbuf_ok r' \<and> rsize r' = rsize r \<and>
       (\<exists>h l. ringbuf_items r' = ringbuf_items r @ [h, l] \<and> join_bytes h l = v)) \<and>
    (\<forall>w r'. ringbuf_get16 r = Some (w, r') \<longrightarrow> ringbuf_ok r' \<and>
       (\<exists>h l. ringbuf_items r = h # l # ringbuf_items r' \<and> w = join_bytes h l))"
proof -
  have cnt: "ringbuf_avail x = length (ringbuf_items x)" "ringbuf_avail x + ringbuf_free x = rsize x - 1" if "ringbuf_ok x" for x
    using ringbuf_counts [OF that] by simp_all
  have put: "ringbuf_ok r1 \<and> rsize r1 = rsize x \<and> ringbuf_items r1 = ringbuf_items x @ [b]"
    if "ringbuf_put b x = Some r1" "ringbuf_ok x" for b x r1
    using rbq.put_items [OF that(2,1)] that by (auto simp: ringbuf_put_eq split: if_splits)
  have full: "ringbuf_put b x = None \<longleftrightarrow> ringbuf_free x = 0" if "ringbuf_ok x" for b x
    using rbq.put_full [OF that, of b] cnt [OF that] by (auto simp: ringbuf_cap_def)
  have put1: "ringbuf_put16 v r = None \<longleftrightarrow> ringbuf_free r < 2"
  proof (cases "ringbuf_put (hi_byte v) r")
    case None
    then show ?thesis using ringbuf_put16_eq [OF assms(1,3), of v] full [OF assms(1)] by auto
  next
    case (Some r1)
    note p = put [OF Some assms(1)]
    have "ringbuf_free r = Suc (ringbuf_free r1)" using p cnt [OF assms(1)] cnt [of r1] full [OF assms(1), of "hi_byte v"] Some by auto
    then show ?thesis using ringbuf_put16_eq [OF assms(1,3), of v] Some full [of r1 "lo_byte v"] p by simp
  qed
  have put2: "ringbuf_ok r' \<and> rsize r' = rsize r \<and> (\<exists>h l. ringbuf_items r' = ringbuf_items r @ [h, l] \<and> join_bytes h l = v)"
    if r': "ringbuf_put16 v r = Some r'" for r'
  proof -
    obtain r1 where r1: "ringbuf_put (hi_byte v) r = Some r1" "ringbuf_put (lo_byte v) r1 = Some r'"
      using r' ringbuf_put16_eq [OF assms(1,3), of v] by (auto split: option.splits)
    note p = put [OF r1(1) assms(1)]
    show ?thesis using p put [OF r1(2)] by (auto intro!: exI [of _ "hi_byte v"] exI [of _ "lo_byte v"])
  qed
  have get: "case ringbuf_get16 r of None \<Rightarrow> length (ringbuf_items r) < 2
    | Some (w, r') \<Rightarrow> ringbuf_ok r' \<and> (\<exists>h l. ringbuf_items r = h # l # ringbuf_items r' \<and> w = join_bytes h l)"
  proof (cases "ringbuf_get r")
    case None
    then show ?thesis using ringbuf_get16_eq [OF assms(1,2)] rbq.get_empty [OF assms(1)] by simp
  next
    case (Some hr)
    obtain h r1 where h: "ringbuf_get r = Some (h, r1)" using Some by (cases hr) simp
    note p = rbq.get_items [OF assms(1) h]
    show ?thesis
    proof (cases "ringbuf_get r1")
      case None
      then show ?thesis using ringbuf_get16_eq [OF assms(1,2)] h rbq.get_empty [of r1] p by simp
    next
      case (Some lr)
      obtain l r2 where l: "ringbuf_get r1 = Some (l, r2)" using Some by (cases lr) simp
      show ?thesis using ringbuf_get16_eq [OF assms(1,2)] h l rbq.get_items [OF _ l] p by auto
    qed
  qed
  have "ringbuf_get16 r = None \<longleftrightarrow> ringbuf_avail r < 2"
    using get cnt(1) [OF assms(1)] by (auto split: option.splits)
  then show ?thesis using put1 put2 get by (auto split: option.splits)
qed

theorem ringbuf16_roundtrip_witness:
  "\<exists>r'. ringbuf_put16 4660 sample_ringbuf = Some r' \<and> (\<exists>h l. ringbuf_items r' = [h, l] \<and> join_bytes h l = 4660)"
proof -
  have "\<not> ringbuf_free sample_ringbuf < 2" by (simp add: ringbuf_free_def sample_ringbuf_def ringbuf_alloc_def u16_def)
  then show ?thesis
    using ringbuf16_roundtrip [of sample_ringbuf 4660] sample_ringbuf_ok by auto
qed

text \<open>
  With 65535 bytes the 16-bit index wraps: after a 16-bit get at the last cell the index is 0 where 1 is
  next, so a byte is read twice.
\<close>

lemma ringbuf_get16_wrap:
  assumes "rsize r = 65535" "iget r = 65534" "ringbuf_get16 r = Some (w, r')"
  shows "iget r' = 0" "(iget r + 2) mod rsize r = 1"
  using assms by (auto simp: ringbuf_get16_def Let_def u16_def split: option.splits)

end
