(* ===== verification/Deque.thy ===== *)
theory Deque
  imports Mp_List Ringbuf
begin

text \<open>
  Double-ended queues, \<^verbatim>\<open>py/objdeque.c\<close>: a circular buffer of objects with one free word, that refuses or drops the oldest
  element when it is full. With the check for overflow it is a bounded queue in the sense of the contract of \<^verbatim>\<open>Queue\<close>.
\<close>

section \<open>Operations\<close>

record 'a mp_obj_deque_t =
  deque_alloc :: nat
  i_get :: nat
  i_put :: nat
  deque_items :: "'a slot list"
  check_overflow :: bool

definition m_new0 :: "nat \<Rightarrow> 'a slot list" where
  "m_new0 num = replicate (u32 (4 * num) div 4) MpNull"

text \<open>
  The object is allocated zeroed, so the flags of a call with two arguments are clear. The first bit of the third
  argument asks for the check.
\<close>

definition deque_make_new :: "bool \<Rightarrow> int \<Rightarrow> int option \<Rightarrow> list_error + 'a mp_obj_deque_t" where
  "deque_make_new empty_tuple maxlen flags =
     (if \<not> empty_tuple then Inl ValueError
      else if maxlen < 0 then Inl ValueError
      else let al = u32 (nat (maxlen + 1))
           in Inr \<lparr>deque_alloc = al, i_get = 0, i_put = 0, deque_items = m_new0 al,
                   check_overflow = (case flags of None \<Rightarrow> False | Some f \<Rightarrow> odd f)\<rparr>)"

definition deque_bool :: "'a mp_obj_deque_t \<Rightarrow> bool" where
  "deque_bool self \<longleftrightarrow> i_get self \<noteq> i_put self"

definition deque_len :: "'a mp_obj_deque_t \<Rightarrow> int" where
  "deque_len self = (let len = int (i_put self) - int (i_get self) in if len < 0 then len + int (deque_alloc self) else len)"

definition mp_obj_deque_append :: "'a mp_obj_deque_t \<Rightarrow> 'a \<Rightarrow> list_error + 'a mp_obj_deque_t" where
  "mp_obj_deque_append self arg =
     (let new_i_put = i_put self + 1; new_i_put = (if new_i_put = deque_alloc self then 0 else new_i_put)
      in if check_overflow self \<and> new_i_put = i_get self then Inl IndexError
         else res_bind (write_slots (i_put self) [Item arg] (deque_items self)) (\<lambda>mem.
              Inr (self\<lparr>deque_items := mem, i_put := new_i_put,
                        i_get := (if i_get self = new_i_put
                                  then if i_get self + 1 = deque_alloc self then 0 else i_get self + 1 else i_get self)\<rparr>)))"

definition deque_popleft :: "'a mp_obj_deque_t \<Rightarrow> list_error + 'a \<times> 'a mp_obj_deque_t" where
  "deque_popleft self =
     (if i_get self = i_put self then Inl IndexError
      else res_bind (read_item (i_get self) (deque_items self)) (\<lambda>ret.
           res_bind (write_slots (i_get self) [MpNull] (deque_items self)) (\<lambda>mem.
           Inr (ret, self\<lparr>deque_items := mem, i_get := (if i_get self + 1 = deque_alloc self then 0 else i_get self + 1)\<rparr>))))"

section \<open>Contents\<close>

fun slot_obj :: "'a slot \<Rightarrow> 'a option" where
  "slot_obj (Item x) = Some x"
| "slot_obj _ = None"

definition deque_window :: "'a mp_obj_deque_t \<Rightarrow> 'a slot list" where
  "deque_window d = window (deque_items d) (i_get d) (ring_dist (deque_alloc d) (i_get d) (i_put d))"

definition deque_ok :: "'a mp_obj_deque_t \<Rightarrow> bool" where
  "deque_ok d \<longleftrightarrow> 0 < deque_alloc d \<and> length (deque_items d) = deque_alloc d \<and> i_get d < deque_alloc d \<and> i_put d < deque_alloc d \<and>
     (\<forall>s \<in> set (deque_window d). slot_obj s \<noteq> None)"

definition deque_contents :: "'a mp_obj_deque_t \<Rightarrow> 'a list" where
  "deque_contents d = map (the \<circ> slot_obj) (deque_window d)"

definition deque_cap :: "'a mp_obj_deque_t \<Rightarrow> nat" where
  "deque_cap d = deque_alloc d - 1"

lemma write_one: "i < length mem \<Longrightarrow> write_slots i [s] mem = Inr (mem[i := s])"
  by (simp add: write_slots_def upd_conv_take_nth_drop)

lemma deque_append_eq:
  assumes "deque_ok d"
  shows "mp_obj_deque_append d x =
    (if check_overflow d \<and> (i_put d + 1) mod deque_alloc d = i_get d then Inl IndexError
     else Inr (d\<lparr>deque_items := (deque_items d)[i_put d := Item x], i_put := (i_put d + 1) mod deque_alloc d,
            i_get := (if (i_put d + 1) mod deque_alloc d = i_get d then (i_get d + 1) mod deque_alloc d else i_get d)\<rparr>))"
proof -
  have ok: "i_put d < deque_alloc d" "i_get d < deque_alloc d" "i_put d < length (deque_items d)" using assms by (auto simp: deque_ok_def)
  show ?thesis unfolding mp_obj_deque_append_def Let_def next_index_eq [OF ok(1)] next_index_eq [OF ok(2)] write_one [OF ok(3)] by auto
qed

lemma window_get:
  assumes "deque_ok d" "i_get d \<noteq> i_put d"
  shows "deque_window d = deque_items d ! i_get d # window (deque_items d) ((i_get d + 1) mod deque_alloc d)
      (ring_dist (deque_alloc d) ((i_get d + 1) mod deque_alloc d) (i_put d))"
  using assms get_window [of "deque_items d" "deque_alloc d" "i_get d" "i_put d"] by (simp add: deque_ok_def deque_window_def)

text \<open>A write to the word before the window does not change it.\<close>

lemma window_other:
  assumes "n < length xs" "i < length xs"
  shows "window (xs[i := v]) ((i + 1) mod length xs) n = window xs ((i + 1) mod length xs) n"
proof -
  have "i \<noteq> ((i + 1) mod length xs + k) mod length xs" if "k < n" for k
    using mod_window_neq [of 0 "Suc k" "length xs" i] that assms by (simp add: mod_add_left_eq)
  then show ?thesis by (simp add: window_def)
qed

lemma window_empty: "deque_ok d \<Longrightarrow> deque_window d = [] \<longleftrightarrow> i_get d = i_put d"
  using ring_dist_0 [of "i_get d" "deque_alloc d" "i_put d"]
  by (auto simp: deque_window_def deque_ok_def length_0_conv [symmetric] simp del: length_0_conv)

lemma append_room:
  assumes "deque_ok d" "(i_put d + 1) mod deque_alloc d \<noteq> i_get d"
  shows "\<exists>d'. mp_obj_deque_append d x = Inr d' \<and> deque_ok d' \<and> deque_contents d' = deque_contents d @ [x] \<and>
    deque_alloc d' = deque_alloc d \<and> check_overflow d' = check_overflow d"
proof -
  let ?d = "d\<lparr>deque_items := (deque_items d)[i_put d := Item x], i_put := (i_put d + 1) mod deque_alloc d\<rparr>"
  have "deque_window ?d = deque_window d @ [Item x]"
    using put_window [of "deque_items d" "deque_alloc d" "i_get d" "i_put d" "Item x"] assms by (simp add: deque_window_def deque_ok_def)
  moreover have "mp_obj_deque_append d x = Inr ?d" using assms by (simp add: deque_append_eq)
  ultimately show ?thesis using assms(1) by (simp add: deque_ok_def deque_contents_def)
qed

text \<open>A full deque without the check drops its oldest element, or the new one if there is no room for any.\<close>

lemma append_full:
  assumes "deque_ok d" "(i_put d + 1) mod deque_alloc d = i_get d" "\<not> check_overflow d"
  shows "\<exists>d'. mp_obj_deque_append d x = Inr d' \<and> deque_ok d' \<and> deque_contents d' = tl (deque_contents d @ [x]) \<and>
    deque_alloc d' = deque_alloc d \<and> check_overflow d' = check_overflow d"
proof -
  let ?m = "deque_alloc d" and ?g = "i_get d" and ?p = "i_put d"
  let ?d = "d\<lparr>deque_items := (deque_items d)[?p := Item x], i_put := ?g, i_get := (?g + 1) mod ?m\<rparr>"
  have ok: "length (deque_items d) = ?m" "?g < ?m" "?p < ?m" "0 < ?m" using assms(1) by (auto simp: deque_ok_def)
  have ap: "mp_obj_deque_append d x = Inr ?d" using assms by (simp add: deque_append_eq)
  show ?thesis
  proof (cases "?m = 1")
    case True
    then have "?g = 0" "?p = 0" using ok by auto
    then have "deque_window ?d = []" "deque_window d = []" by (simp_all add: deque_window_def True ring_dist_def)
    then show ?thesis using ap ok by (auto simp: deque_ok_def deque_contents_def)
  next
    case False
    define g' where "g' = (?g + 1) mod ?m"
    have g': "g' < ?m" "Suc ?g mod ?m = g'" using ok by (simp_all add: g'_def)
    have "?g \<noteq> ?p" using assms(2) ok False by (auto simp: mod_if split: if_splits)
    then have w: "deque_window d = deque_items d ! ?g # window (deque_items d) g' (ring_dist ?m g' ?p)"
      using window_get [OF assms(1)] by (simp add: g'_def)
    have "(?p + 1) mod ?m \<noteq> g'" unfolding assms(2) using ok False by (auto simp: g'_def mod_if split: if_splits)
    then have "deque_window ?d = tl (deque_window d) @ [Item x]"
      using put_window [of "deque_items d" ?m g' ?p "Item x"] ok g' assms(2) by (simp add: deque_window_def w [unfolded deque_window_def])
    then show ?thesis using ap ok g' assms(1) w by (simp add: deque_ok_def deque_contents_def)
  qed
qed

lemma contents_length: "deque_ok d \<Longrightarrow> length (deque_contents d) = ring_dist (deque_alloc d) (i_get d) (i_put d)"
  by (simp add: deque_contents_def deque_window_def)

lemma full_iff: "deque_ok d \<Longrightarrow> (i_put d + 1) mod deque_alloc d = i_get d \<longleftrightarrow> length (deque_contents d) = deque_cap d"
  using ring_dist_Suc(1) [of "i_get d" "deque_alloc d" "i_put d"] by (simp add: contents_length deque_cap_def deque_ok_def)

lemma popleft_some:
  assumes "deque_ok d" "i_get d \<noteq> i_put d"
  shows "\<exists>d'. deque_popleft d = Inr (hd (deque_contents d), d') \<and> deque_ok d' \<and> deque_contents d = hd (deque_contents d) # deque_contents d' \<and>
    deque_alloc d' = deque_alloc d \<and> check_overflow d' = check_overflow d \<and> deque_items d' ! i_get d = MpNull"
proof -
  let ?m = "deque_alloc d" and ?g = "i_get d" and ?p = "i_put d"
  let ?d = "d\<lparr>deque_items := (deque_items d)[?g := MpNull], i_get := (?g + 1) mod ?m\<rparr>"
  have ok: "length (deque_items d) = ?m" "?g < ?m" "?p < ?m" "0 < ?m" "\<forall>s \<in> set (deque_window d). slot_obj s \<noteq> None" using assms(1) by (auto simp: deque_ok_def)
  note w = window_get [OF assms]
  then obtain x where x: "deque_items d ! ?g = Item x" using ok(5) by (cases "deque_items d ! ?g") auto
  have "ring_dist ?m ((?g + 1) mod ?m) ?p < ?m" using ok by (simp add: ring_dist_less)
  then have w': "deque_window d = Item x # deque_window ?d"
    using window_other [of "ring_dist ?m ((?g + 1) mod ?m) ?p" "deque_items d" ?g MpNull] ok w x by (simp add: deque_window_def)
  have "deque_popleft d = Inr (x, ?d)"
    unfolding deque_popleft_def next_index_eq [OF ok(2)] using assms(2) ok x by (simp add: read_item_def write_one)
  then show ?thesis using w' ok by (simp add: deque_ok_def deque_contents_def)
qed

text \<open>The queue of the contract: the deque with the check.\<close>

definition deque_put :: "'a \<Rightarrow> 'a mp_obj_deque_t \<Rightarrow> 'a mp_obj_deque_t option" where
  "deque_put x d = (case mp_obj_deque_append d x of Inl _ \<Rightarrow> None | Inr d \<Rightarrow> Some d)"

definition deque_get :: "'a mp_obj_deque_t \<Rightarrow> ('a \<times> 'a mp_obj_deque_t) option" where
  "deque_get d = (case deque_popleft d of Inl _ \<Rightarrow> None | Inr r \<Rightarrow> Some r)"

lemma popleft_empty: "i_get d = i_put d \<Longrightarrow> deque_popleft d = Inl IndexError"
  by (simp add: deque_popleft_def)

lemma contents_empty: "deque_ok d \<Longrightarrow> deque_contents d = [] \<longleftrightarrow> i_get d = i_put d"
  using window_empty by (simp add: deque_contents_def)

interpretation dq: bounded_queue "\<lambda>d. deque_ok d \<and> check_overflow d" deque_contents deque_cap deque_put deque_get
proof
  fix d d' :: "'a mp_obj_deque_t" and x :: 'a
  assume ok: "deque_ok d \<and> check_overflow d"
  have full: "mp_obj_deque_append d x = Inl IndexError" if "(i_put d + 1) mod deque_alloc d = i_get d"
    using ok that by (simp add: deque_append_eq)
  show "deque_put x d = None \<longleftrightarrow> length (deque_contents d) = deque_cap d"
    using full append_room [of d x] ok full_iff [of d] by (cases "(i_put d + 1) mod deque_alloc d = i_get d") (auto simp: deque_put_def)
  show "deque_put x d = Some d' \<Longrightarrow> (deque_ok d' \<and> check_overflow d') \<and> deque_contents d' = deque_contents d @ [x] \<and> deque_cap d' = deque_cap d"
    using full append_room [of d x] ok by (cases "(i_put d + 1) mod deque_alloc d = i_get d") (auto simp: deque_put_def deque_cap_def)
  show "deque_get d = None \<longleftrightarrow> deque_contents d = []"
    using popleft_some [of d] popleft_empty [of d] contents_empty [of d] ok by (cases "i_get d = i_put d") (auto simp: deque_get_def)
  show "deque_get d = Some (x, d') \<Longrightarrow> (deque_ok d' \<and> check_overflow d') \<and> deque_contents d = x # deque_contents d' \<and> deque_cap d' = deque_cap d"
    using popleft_some [of d] popleft_empty [of d] ok by (cases "i_get d = i_put d") (auto simp: deque_get_def deque_cap_def)
  show "length (deque_contents d) \<le> deque_cap d"
    using ok ring_dist_less [of "deque_alloc d" "i_get d" "i_put d"] by (simp add: contents_length deque_cap_def deque_ok_def)
qed

section \<open>Results\<close>

fun deque_appends :: "'a mp_obj_deque_t \<Rightarrow> 'a list \<Rightarrow> list_error + 'a mp_obj_deque_t" where
  "deque_appends d [] = Inr d"
| "deque_appends d (x # xs) = res_bind (mp_obj_deque_append d x) (\<lambda>d. deque_appends d xs)"

definition last_n :: "nat \<Rightarrow> 'a list \<Rightarrow> 'a list" where
  "last_n n xs = drop (length xs - n) xs"

lemma last_n_step:
  assumes "length c \<le> n"
  shows "last_n n (last_n n (c @ [x]) @ xs) = last_n n (c @ x # xs)"
proof (cases "length c < n")
  case False
  then have "length c = n" using assms by simp
  then show ?thesis by (cases c) (simp_all add: last_n_def Suc_diff_le)
qed (simp add: last_n_def)

lemma last_n_full: "length c = n \<Longrightarrow> last_n n (c @ [x]) = tl (c @ [x])"
  by (cases c) (auto simp: last_n_def)

lemma append_drop:
  assumes "deque_ok d" "\<not> check_overflow d"
  shows "\<exists>d'. mp_obj_deque_append d x = Inr d' \<and> deque_ok d' \<and> deque_contents d' = last_n (deque_cap d) (deque_contents d @ [x]) \<and>
    deque_alloc d' = deque_alloc d \<and> check_overflow d' = check_overflow d"
proof (cases "(i_put d + 1) mod deque_alloc d = i_get d")
  case True
  then show ?thesis using append_full [OF assms(1) True assms(2), of x] full_iff [OF assms(1)] by (simp add: last_n_full)
next
  case False
  then have "length (deque_contents d) < deque_cap d"
    using full_iff [OF assms(1)] ring_dist_less [of "deque_alloc d" "i_get d" "i_put d"] assms(1)
    by (simp add: contents_length deque_cap_def deque_ok_def)
  then show ?thesis using append_room [OF assms(1) False, of x] by (simp add: last_n_def)
qed

lemma appends_last:
  assumes "deque_ok d" "\<not> check_overflow d"
  shows "\<exists>d'. deque_appends d xs = Inr d' \<and> deque_ok d' \<and> deque_contents d' = last_n (deque_cap d) (deque_contents d @ xs)"
  using assms
proof (induction xs arbitrary: d)
  case Nil
  have "length (deque_contents d) \<le> deque_cap d"
    using Nil ring_dist_less [of "deque_alloc d" "i_get d" "i_put d"] by (simp add: contents_length deque_cap_def deque_ok_def)
  then show ?case using Nil by (simp add: last_n_def)
next
  case (Cons x xs)
  obtain d1 where d1: "mp_obj_deque_append d x = Inr d1" "deque_ok d1" "deque_contents d1 = last_n (deque_cap d) (deque_contents d @ [x])"
    "deque_alloc d1 = deque_alloc d" "check_overflow d1 = check_overflow d" using append_drop [OF Cons.prems] by blast
  have "length (deque_contents d) \<le> deque_cap d"
    using Cons.prems(1) ring_dist_less [of "deque_alloc d" "i_get d" "i_put d"] by (simp add: contents_length deque_cap_def deque_ok_def)
  then show ?case using Cons.IH [OF d1(2)] d1 Cons.prems(2) by (simp add: deque_cap_def last_n_step)
qed

lemma make_new_ok:
  assumes "0 \<le> maxlen" "maxlen < 2 ^ 30 - 1"
  shows "\<exists>d. deque_make_new True maxlen flags = Inr d \<and> deque_ok d \<and> deque_contents d = [] \<and> deque_cap d = nat maxlen \<and>
    check_overflow d = (case flags of None \<Rightarrow> False | Some f \<Rightarrow> odd f)"
proof -
  have "4 * (nat maxlen + 1) < 2 ^ 32" using assms by simp
  then have "u32 (4 * (nat maxlen + 1)) = 4 * (nat maxlen + 1)" by (rule u32_id)
  then have a2: "u32 (4 * (nat maxlen + 1)) div 4 = nat maxlen + 1" by (simp only:) simp
  have a1: "u32 (nat (maxlen + 1)) = nat maxlen + 1" using assms by (simp add: u32_id nat_add_distrib)
  show ?thesis using assms unfolding deque_make_new_def Let_def a1 m_new0_def a2
    by (simp add: deque_ok_def deque_contents_def deque_window_def deque_cap_def ring_dist_def)
qed

text \<open>
  C19: A new deque is empty and takes as many elements as it was asked for. With the check for overflow it is a bounded
  first-in first-out queue over any sequence of appends and pops, which raise exactly when it is full or empty; without the
  check the appends never fail and it holds the last elements appended, as many as fit. Its length and truth
  are those of its contents, and a popped element leaves a null word behind.
\<close>

theorem deque_refines_queue:
  assumes "deque_ok d"
  shows "(0 \<le> maxlen \<and> maxlen < 2 ^ 30 - 1 \<longrightarrow>
      (\<exists>e. deque_make_new True maxlen flags = Inr (e :: 'a mp_obj_deque_t) \<and> deque_ok e \<and> deque_contents e = [] \<and> deque_cap e = nat maxlen)) \<and>
    (check_overflow d \<longrightarrow> queue_run deque_put deque_get ops d = (ins, outs, d') \<longrightarrow>
      deque_contents d @ ins = outs @ deque_contents d' \<and> deque_ok d' \<and> length (deque_contents d') \<le> deque_cap d) \<and>
    (check_overflow d \<longrightarrow> (mp_obj_deque_append d x = Inl IndexError \<longleftrightarrow> length (deque_contents d) = deque_cap d)) \<and>
    (\<not> check_overflow d \<longrightarrow>
      (\<exists>e. deque_appends d xs = Inr e \<and> deque_ok e \<and> deque_contents e = last_n (deque_cap d) (deque_contents d @ xs))) \<and>
    (case deque_contents d of
       [] \<Rightarrow> deque_popleft d = Inl IndexError
     | y # ys \<Rightarrow> (\<exists>e. deque_popleft d = Inr (y, e) \<and> deque_ok e \<and> deque_contents e = ys \<and> deque_items e ! i_get d = MpNull)) \<and>
    deque_len d = int (length (deque_contents d)) \<and> deque_bool d = (deque_contents d \<noteq> [])"
proof -
  have "mp_obj_deque_append d x = Inl IndexError \<longleftrightarrow> length (deque_contents d) = deque_cap d" if "check_overflow d"
    using that full_iff [OF assms] by (auto simp: deque_append_eq [OF assms])
  moreover have "case deque_contents d of
       [] \<Rightarrow> deque_popleft d = Inl IndexError
     | y # ys \<Rightarrow> (\<exists>e. deque_popleft d = Inr (y, e) \<and> deque_ok e \<and> deque_contents e = ys \<and> deque_items e ! i_get d = MpNull)"
    using popleft_some [OF assms] popleft_empty [of d] contents_empty [OF assms] by (cases "deque_contents d") auto
  moreover have "deque_len d = int (length (deque_contents d))"
    using assms by (auto simp: deque_len_def contents_length ring_dist_eq deque_ok_def Let_def)
  moreover have "deque_bool d = (deque_contents d \<noteq> [])" using contents_empty [OF assms] by (simp add: deque_bool_def)
  ultimately show ?thesis using make_new_ok [of maxlen flags] appends_last [OF assms] dq.fifo [of d ops ins outs d'] assms by auto
qed

definition sample_deque :: "int mp_obj_deque_t" where
  "sample_deque = \<lparr>deque_alloc = 3, i_get = 2, i_put = 1, deque_items = [Item 5, MpNull, Item 4], check_overflow = False\<rparr>"

theorem deque_refines_queue_witness:
  "(\<exists>e. deque_appends sample_deque [6] = Inr e \<and> deque_contents e = [5, 6]) \<and> deque_len sample_deque = 2"
proof -
  have ok: "deque_ok sample_deque" by code_simp
  have v: "deque_contents sample_deque = [4, 5]" "deque_cap sample_deque = 2" "\<not> check_overflow sample_deque" by code_simp+
  show ?thesis using deque_refines_queue [OF ok, where xs = "[6]"] v by (auto simp: last_n_def)
qed

text \<open>
  The size of the buffer in bytes wraps: of the largest small integers, one asks for no memory at all, and the first append writes
  there. And an element that is dropped stays in its word, so that the collector keeps it alive until the word is written again.
\<close>

lemma deque_size_overflow:
  "\<exists>d. deque_make_new True (2 ^ 30 - 1) None = Inr d \<and> mp_obj_deque_append d x = Inl OutOfBounds"
proof -
  let ?d = "\<lparr>deque_alloc = 2 ^ 30, i_get = 0, i_put = 0, deque_items = [] :: 'a slot list, check_overflow = False\<rparr>"
  have "deque_make_new True (2 ^ 30 - 1) None = Inr ?d" by (simp add: deque_make_new_def u32_def m_new0_def)
  moreover have "mp_obj_deque_append ?d x = Inl OutOfBounds" by (simp add: mp_obj_deque_append_def write_slots_def Let_def)
  ultimately show ?thesis by blast
qed

lemma deque_drop_keeps_pointer:
  "\<exists>d. deque_appends sample_deque [6] = Inr d \<and> 4 \<notin> set (deque_contents d) \<and> Item 4 \<in> set (deque_items d)"
  by (rule exI [of _ "\<lparr>deque_alloc = 3, i_get = 0, i_put = 2, deque_items = [Item 5, Item 6, Item 4], check_overflow = False\<rparr>"]) code_simp

end
