(* ===== verification/Unicode.thy ===== *)
theory Unicode
  imports Prelude
begin

text \<open>
  Characters and UTF-8, \<^verbatim>\<open>py/unicode.c\<close>: the table of ASCII attributes, and decoding, counting and checking of UTF-8. Bytes and
  characters are numbers; a string is followed by a null byte in memory, which ends the loops over continuation bytes
  where the list ends.
\<close>

section \<open>ASCII attributes\<close>

definition FL_PRINT :: int where "FL_PRINT = 0x01"
definition FL_SPACE :: int where "FL_SPACE = 0x02"
definition FL_DIGIT :: int where "FL_DIGIT = 0x04"
definition FL_ALPHA :: int where "FL_ALPHA = 0x08"
definition FL_UPPER :: int where "FL_UPPER = 0x10"
definition FL_LOWER :: int where "FL_LOWER = 0x20"
definition FL_XDIGIT :: int where "FL_XDIGIT = 0x40"

definition AT_PR :: int where "AT_PR = FL_PRINT"
definition AT_SP :: int where "AT_SP = (FL_SPACE OR FL_PRINT)"
definition AT_DI :: int where "AT_DI = (FL_DIGIT OR FL_PRINT OR FL_XDIGIT)"
definition AT_UP :: int where "AT_UP = (FL_UPPER OR FL_ALPHA OR FL_PRINT)"
definition AT_LO :: int where "AT_LO = (FL_LOWER OR FL_ALPHA OR FL_PRINT)"
definition AT_UX :: int where "AT_UX = (FL_UPPER OR FL_ALPHA OR FL_PRINT OR FL_XDIGIT)"
definition AT_LX :: int where "AT_LX = (FL_LOWER OR FL_ALPHA OR FL_PRINT OR FL_XDIGIT)"

definition attr :: "int list" where
  "attr = [
    0, 0, 0, 0, 0, 0, 0, 0,
    0, AT_SP, AT_SP, AT_SP, AT_SP, AT_SP, 0, 0,
    0, 0, 0, 0, 0, 0, 0, 0,
    0, 0, 0, 0, 0, 0, 0, 0,
    AT_SP, AT_PR, AT_PR, AT_PR, AT_PR, AT_PR, AT_PR, AT_PR,
    AT_PR, AT_PR, AT_PR, AT_PR, AT_PR, AT_PR, AT_PR, AT_PR,
    AT_DI, AT_DI, AT_DI, AT_DI, AT_DI, AT_DI, AT_DI, AT_DI,
    AT_DI, AT_DI, AT_PR, AT_PR, AT_PR, AT_PR, AT_PR, AT_PR,
    AT_PR, AT_UX, AT_UX, AT_UX, AT_UX, AT_UX, AT_UX, AT_UP,
    AT_UP, AT_UP, AT_UP, AT_UP, AT_UP, AT_UP, AT_UP, AT_UP,
    AT_UP, AT_UP, AT_UP, AT_UP, AT_UP, AT_UP, AT_UP, AT_UP,
    AT_UP, AT_UP, AT_UP, AT_PR, AT_PR, AT_PR, AT_PR, AT_PR,
    AT_PR, AT_LX, AT_LX, AT_LX, AT_LX, AT_LX, AT_LX, AT_LO,
    AT_LO, AT_LO, AT_LO, AT_LO, AT_LO, AT_LO, AT_LO, AT_LO,
    AT_LO, AT_LO, AT_LO, AT_LO, AT_LO, AT_LO, AT_LO, AT_LO,
    AT_LO, AT_LO, AT_LO, AT_PR, AT_PR, AT_PR, AT_PR, 0]"

definition unichar_isspace :: "nat \<Rightarrow> bool" where
  "unichar_isspace c \<longleftrightarrow> c < 128 \<and> attr ! c AND FL_SPACE \<noteq> 0"

definition unichar_isalpha :: "nat \<Rightarrow> bool" where
  "unichar_isalpha c \<longleftrightarrow> c < 128 \<and> attr ! c AND FL_ALPHA \<noteq> 0"

definition unichar_isdigit :: "nat \<Rightarrow> bool" where
  "unichar_isdigit c \<longleftrightarrow> c < 128 \<and> attr ! c AND FL_DIGIT \<noteq> 0"

definition unichar_isxdigit :: "nat \<Rightarrow> bool" where
  "unichar_isxdigit c \<longleftrightarrow> c < 128 \<and> attr ! c AND FL_XDIGIT \<noteq> 0"

definition unichar_isident :: "nat \<Rightarrow> bool" where
  "unichar_isident c \<longleftrightarrow> c < 128 \<and> (attr ! c AND (FL_ALPHA OR FL_DIGIT) \<noteq> 0 \<or> c = 95)"

definition unichar_isalnum :: "nat \<Rightarrow> bool" where
  "unichar_isalnum c \<longleftrightarrow> c < 128 \<and> attr ! c AND (FL_ALPHA OR FL_DIGIT) \<noteq> 0"

definition unichar_isupper :: "nat \<Rightarrow> bool" where
  "unichar_isupper c \<longleftrightarrow> c < 128 \<and> attr ! c AND FL_UPPER \<noteq> 0"

definition unichar_islower :: "nat \<Rightarrow> bool" where
  "unichar_islower c \<longleftrightarrow> c < 128 \<and> attr ! c AND FL_LOWER \<noteq> 0"

definition unichar_tolower :: "nat \<Rightarrow> nat" where
  "unichar_tolower c = (if unichar_isupper c then c + 0x20 else c)"

definition unichar_toupper :: "nat \<Rightarrow> nat" where
  "unichar_toupper c = (if unichar_islower c then c - 0x20 else c)"

text \<open>Unsigned arithmetic: the subtractions wrap for characters that are not digits.\<close>

definition unichar_xdigit_value :: "nat \<Rightarrow> nat" where
  "unichar_xdigit_value c =
     (let n = u32 (c + (2 ^ 32 - 48))
      in if n > 9 then u32 ((n AND (2 ^ 32 - 1 - 32)) + (2 ^ 32 - 7)) else n)"

section \<open>UTF-8\<close>

definition UTF8_IS_NONASCII :: "nat \<Rightarrow> bool" where
  "UTF8_IS_NONASCII ch \<longleftrightarrow> ch AND 0x80 \<noteq> 0"

definition UTF8_IS_CONT :: "nat \<Rightarrow> bool" where
  "UTF8_IS_CONT ch \<longleftrightarrow> ch AND 0xC0 = 0x80"

text \<open>The loop over the leading bits of the first byte, whose complement is taken in 32 bits.\<close>

function lead_loop :: "nat \<Rightarrow> nat \<Rightarrow> nat" where
  "lead_loop ord msk = (if ord AND msk \<noteq> 0 then lead_loop (ord AND (2 ^ 32 - 1 - msk)) (drop_bit 1 msk) else ord)"
  by auto
termination
proof (relation "measure snd", goal_cases)
  case (2 ord msk)
  then have "msk \<noteq> 0" by (cases "msk = 0") auto
  then show ?case by (simp add: drop_bit_eq_div)
qed simp

declare lead_loop.simps [simp del]

fun cont_loop :: "nat \<Rightarrow> nat list \<Rightarrow> nat" where
  "cont_loop ord [] = ord"
| "cont_loop ord (b # s) = (if UTF8_IS_CONT b then cont_loop (u32 (push_bit 6 ord) OR (b AND 0x3F)) s else ord)"

fun utf8_get_char :: "nat list \<Rightarrow> nat" where
  "utf8_get_char [] = 0"
| "utf8_get_char (ord # s) = (if \<not> UTF8_IS_NONASCII ord then ord else cont_loop (lead_loop (ord AND 0x7F) 0x40) s)"

definition utf8_next_char :: "nat list \<Rightarrow> nat list" where
  "utf8_next_char s = dropWhile UTF8_IS_CONT (tl s)"

text \<open>The loop goes down from the pointer, here the offset of the pointer in the string.\<close>

fun ptr_to_index_loop :: "nat list \<Rightarrow> nat \<Rightarrow> nat \<Rightarrow> nat" where
  "ptr_to_index_loop s 0 i = i"
| "ptr_to_index_loop s (Suc ptr) i = ptr_to_index_loop s ptr (if \<not> UTF8_IS_CONT (s ! ptr) then i + 1 else i)"

definition utf8_ptr_to_index :: "nat list \<Rightarrow> nat \<Rightarrow> nat" where
  "utf8_ptr_to_index s ptr = ptr_to_index_loop s ptr 0"

definition utf8_charlen :: "nat list \<Rightarrow> nat" where
  "utf8_charlen str = fold (\<lambda>b charlen. if \<not> UTF8_IS_CONT b then charlen + 1 else charlen) str 0"

fun check_loop :: "nat \<Rightarrow> nat list \<Rightarrow> bool" where
  "check_loop need [] = (need = 0)"
| "check_loop need (c # p) =
     (if need \<noteq> 0 then if UTF8_IS_CONT c then check_loop (need - 1) p else False
      else if c \<ge> 0xc0 then if c \<ge> 0xf8 then False else check_loop (drop_bit (drop_bit 3 c AND 0x6) 0xe5 AND 3) p
      else if c \<ge> 0x80 then False
      else check_loop 0 p)"

definition utf8_check :: "nat list \<Rightarrow> bool" where
  "utf8_check p = check_loop 0 p"

section \<open>Attributes by ranges\<close>

lemma ascii_table:
  "map (\<lambda>a. a AND FL_SPACE \<noteq> 0) attr = map (\<lambda>c. 9 \<le> c \<and> c \<le> 13 \<or> c = 32) [0..127 :: int]"
  "map (\<lambda>a. a AND FL_UPPER \<noteq> 0) attr = map (\<lambda>c. 65 \<le> c \<and> c \<le> 90) [0..127 :: int]"
  "map (\<lambda>a. a AND FL_LOWER \<noteq> 0) attr = map (\<lambda>c. 97 \<le> c \<and> c \<le> 122) [0..127 :: int]"
  "map (\<lambda>a. a AND FL_DIGIT \<noteq> 0) attr = map (\<lambda>c. 48 \<le> c \<and> c \<le> 57) [0..127 :: int]"
  "map (\<lambda>a. a AND FL_ALPHA \<noteq> 0) attr = map (\<lambda>c. 65 \<le> c \<and> c \<le> 90 \<or> 97 \<le> c \<and> c \<le> 122) [0..127 :: int]"
  "map (\<lambda>a. a AND FL_XDIGIT \<noteq> 0) attr = map (\<lambda>c. 48 \<le> c \<and> c \<le> 57 \<or> 65 \<le> c \<and> c \<le> 70 \<or> 97 \<le> c \<and> c \<le> 102) [0..127 :: int]"
  "map (\<lambda>a. a AND (FL_ALPHA OR FL_DIGIT) \<noteq> 0) attr =
     map (\<lambda>c. 48 \<le> c \<and> c \<le> 57 \<or> 65 \<le> c \<and> c \<le> 90 \<or> 97 \<le> c \<and> c \<le> 122) [0..127 :: int]"
  by code_simp+

lemma table_nth:
  assumes "map P attr = map Q [0..127 :: int]" "c < 128"
  shows "P (attr ! c) = Q (int c)"
proof -
  have "length attr = 128" using arg_cong [OF assms(1), of length] by simp
  then show ?thesis using arg_cong [OF assms(1), of "\<lambda>l. l ! c"] assms(2) by simp
qed

lemma ascii_ranges:
  "unichar_isspace c \<longleftrightarrow> 9 \<le> c \<and> c \<le> 13 \<or> c = 32"
  "unichar_isupper c \<longleftrightarrow> 65 \<le> c \<and> c \<le> 90"
  "unichar_islower c \<longleftrightarrow> 97 \<le> c \<and> c \<le> 122"
  "unichar_isdigit c \<longleftrightarrow> 48 \<le> c \<and> c \<le> 57"
  "unichar_isalpha c \<longleftrightarrow> 65 \<le> c \<and> c \<le> 90 \<or> 97 \<le> c \<and> c \<le> 122"
  "unichar_isxdigit c \<longleftrightarrow> 48 \<le> c \<and> c \<le> 57 \<or> 65 \<le> c \<and> c \<le> 70 \<or> 97 \<le> c \<and> c \<le> 102"
  "unichar_isalnum c \<longleftrightarrow> 48 \<le> c \<and> c \<le> 57 \<or> 65 \<le> c \<and> c \<le> 90 \<or> 97 \<le> c \<and> c \<le> 122"
  using ascii_table [THEN table_nth, of c]
  by (auto simp: unichar_isspace_def unichar_isupper_def unichar_islower_def unichar_isdigit_def unichar_isalpha_def
      unichar_isxdigit_def unichar_isalnum_def)

lemma xdigit_values:
  "48 \<le> c \<Longrightarrow> c \<le> 57 \<Longrightarrow> unichar_xdigit_value c = c - 48"
  "65 \<le> c \<Longrightarrow> c \<le> 70 \<Longrightarrow> unichar_xdigit_value c = c - 55"
  "97 \<le> c \<Longrightarrow> c \<le> 102 \<Longrightarrow> unichar_xdigit_value c = c - 87"
proof -
  have n: "u32 (c + (2 ^ 32 - 48)) = c - 48" if "48 \<le> c" "c \<le> 102"
  proof -
    have "c + (2 ^ 32 - 48) = c - 48 + 2 ^ 32" using that by simp
    then show ?thesis using that by (simp only: u32_def mod_add_self2) simp
  qed
  have "\<not> 9 < c - 48" if "c \<le> 57" using that by linarith
  then show "48 \<le> c \<Longrightarrow> c \<le> 57 \<Longrightarrow> unichar_xdigit_value c = c - 48" using n by (simp add: unichar_xdigit_value_def Let_def)
  have "c \<in> {65, 66, 67, 68, 69, 70}" if "65 \<le> c" "c \<le> 70" using that by auto
  then show "65 \<le> c \<Longrightarrow> c \<le> 70 \<Longrightarrow> unichar_xdigit_value c = c - 55" using n by (auto simp: unichar_xdigit_value_def u32_def)
  have "c \<in> {97, 98, 99, 100, 101, 102}" if "97 \<le> c" "c \<le> 102" using that by auto
  then show "97 \<le> c \<Longrightarrow> c \<le> 102 \<Longrightarrow> unichar_xdigit_value c = c - 87" using n by (auto simp: unichar_xdigit_value_def u32_def)
qed

section \<open>Encoded characters\<close>

text \<open>The encoding of a character, as arithmetic.\<close>

definition utf8_bytes :: "nat \<Rightarrow> nat list" where
  "utf8_bytes c =
     (if c < 0x80 then [c]
      else if c < 0x800 then [0xC0 + c div 64, 0x80 + c mod 64]
      else if c < 0x10000 then [0xE0 + c div 4096, 0x80 + c div 64 mod 64, 0x80 + c mod 64]
      else [0xF0 + c div 262144, 0x80 + c div 4096 mod 64, 0x80 + c div 64 mod 64, 0x80 + c mod 64])"

lemma and_low: "x < 2 ^ n \<Longrightarrow> x AND (2 ^ n - 1) = (x :: nat)"
  by (metis mask_eq_exp_minus_1 take_bit_eq_mask take_bit_nat_eq_self)

lemma byte_class: "b < 256 \<Longrightarrow> UTF8_IS_CONT b \<longleftrightarrow> 128 \<le> b \<and> b < 192" "b < 256 \<Longrightarrow> UTF8_IS_NONASCII b \<longleftrightarrow> 128 \<le> b"
proof -
  assume b: "b < 256"
  define q r where "q = b div 64" and "r = b mod 64"
  have qr: "b = r + 2 ^ 6 * q" "r < 64" "q < 4" using b by (auto simp: q_def r_def)
  have "b AND 0xC0 = 64 * q" using and_concat [of r 6 0 q 3] and_low [of q 2] qr by simp
  then show "UTF8_IS_CONT b \<longleftrightarrow> 128 \<le> b \<and> b < 192" using qr by (auto simp: UTF8_IS_CONT_def)
  have "b AND 0x80 = 64 * (q AND 2)" using and_concat [of r 6 0 q 2] qr by simp
  moreover have "q AND 2 \<noteq> 0 \<longleftrightarrow> 2 \<le> q"
  proof -
    have "q = 0 \<or> q = 1 \<or> q = 2 \<or> q = 3" using qr by auto
    then show ?thesis by auto
  qed
  ultimately show "UTF8_IS_NONASCII b \<longleftrightarrow> 128 \<le> b" using qr by (auto simp: UTF8_IS_NONASCII_def)
qed

lemma lead_skip: "k < 32 \<Longrightarrow> b < 2 ^ k \<Longrightarrow> lead_loop (2 ^ k + b) (2 ^ k) = lead_loop b (2 ^ k div 2)"
proof -
  assume k: "k < 32" "b < 2 ^ k"
  have m: "(2 :: nat) ^ 32 - 1 - 2 ^ k = (2 ^ k - 1) + 2 ^ k * (2 * (2 ^ (31 - k) - 1))"
  proof -
    have p: "(2 :: nat) ^ k * 2 ^ (31 - k) = 2 ^ 31" using k by (simp flip: power_add)
    have "2 ^ k * (2 * (2 ^ (31 - k) - 1)) = 2 * (2 ^ k * 2 ^ (31 - k)) - 2 * (2 :: nat) ^ k" by (simp add: algebra_simps diff_mult_distrib2)
    moreover have "(2 :: nat) ^ k \<le> 2 ^ 31" using k by (intro power_increasing) simp_all
    moreover have "(1 :: nat) \<le> 2 ^ k" by simp
    moreover have "(2 :: nat) ^ 32 - 1 - x = (x - 1) + (2 * 2 ^ 31 - 2 * x)" if "x \<le> 2 ^ 31" "1 \<le> x" for x using that by simp
    ultimately show ?thesis unfolding p by simp
  qed
  have "(b + 2 ^ k * 1) AND ((2 ^ k - 1) + 2 ^ k * (2 * (2 ^ (31 - k) - 1))) = (b AND (2 ^ k - 1)) + 2 ^ k * (1 AND (2 * (2 ^ (31 - k) - 1)))"
    using k by (intro and_concat) simp_all
  moreover have "1 AND (2 * x) = (0 :: nat)" for x by (simp add: one_and_eq)
  ultimately have "(2 ^ k + b) AND (2 ^ 32 - 1 - 2 ^ k) = b" unfolding m using and_low [OF k(2)] by (simp add: add.commute)
  moreover have "(2 ^ k + b) AND 2 ^ k = 2 ^ k" using and_concat [of b k 0 1 1] k by (simp add: add.commute)
  ultimately show ?thesis by (subst lead_loop.simps) (simp add: drop_bit_eq_div)
qed

lemma lead_stop: "b < 2 ^ k \<Longrightarrow> lead_loop b (2 ^ k) = b"
  using and_concat [of b k 0 0 1] by (subst lead_loop.simps) simp

lemma lead_byte:
  "b < 32 \<Longrightarrow> lead_loop ((192 + b) AND 127) 64 = b" "b < 16 \<Longrightarrow> lead_loop ((224 + b) AND 127) 64 = b" "b < 8 \<Longrightarrow> lead_loop ((240 + b) AND 127) 64 = b"
proof -
  have a: "(128 + x) AND 127 = x" if "x < 128" for x :: nat using and_concat [of x 7 127 1 0] and_low [of x 7] that by (simp add: add.commute)
  show "lead_loop ((192 + b) AND 127) 64 = b" if "b < 32" using a [of "64 + b"] lead_skip [of 6 b] lead_stop [of b 5] that by simp
  show "lead_loop ((224 + b) AND 127) 64 = b" if "b < 16"
    using a [of "96 + b"] lead_skip [of 6 "32 + b"] lead_skip [of 5 b] lead_stop [of b 4] that by simp
  show "lead_loop ((240 + b) AND 127) 64 = b" if "b < 8"
    using a [of "112 + b"] lead_skip [of 6 "48 + b"] lead_skip [of 5 "16 + b"] lead_skip [of 4 b] lead_stop [of b 3] that by simp
qed

lemma lead_need:
  "b < 32 \<Longrightarrow> drop_bit (drop_bit 3 (192 + b) AND 6) 229 AND 3 = (1 :: nat)"
  "b < 16 \<Longrightarrow> drop_bit (drop_bit 3 (224 + b) AND 6) 229 AND 3 = (2 :: nat)"
  "b < 8 \<Longrightarrow> drop_bit (drop_bit 3 (240 + b) AND 6) 229 AND 3 = (3 :: nat)"
proof -
  have d: "drop_bit 3 (192 + b) = 24 + b div 8" "drop_bit 3 (224 + b) = 28 + b div 8" "drop_bit 3 (240 + b) = 30 + b div 8"
    by (simp_all add: drop_bit_eq_div)
  have c: "b < 32 \<Longrightarrow> b div 8 = 0 \<or> b div 8 = 1 \<or> b div 8 = 2 \<or> b div 8 = 3" by auto
  show "b < 32 \<Longrightarrow> drop_bit (drop_bit 3 (192 + b) AND 6) 229 AND 3 = (1 :: nat)" using c unfolding d by (auto simp: drop_bit_eq_div)
  show "b < 16 \<Longrightarrow> drop_bit (drop_bit 3 (224 + b) AND 6) 229 AND 3 = (2 :: nat)" using c unfolding d by (auto simp: drop_bit_eq_div)
  show "b < 8 \<Longrightarrow> drop_bit (drop_bit 3 (240 + b) AND 6) 229 AND 3 = (3 :: nat)" using c unfolding d by (auto simp: drop_bit_eq_div)
qed

lemma cont_step:
  assumes "ord < 2 ^ 26" "x < 64"
  shows "cont_loop ord ((128 + x) # s) = cont_loop (ord * 64 + x) s"
proof -
  have "(128 + x) AND 63 = x" using assms(2) and_concat [of x 6 63 2 0] and_low [of x 6] by (simp add: add.commute)
  moreover have "u32 (push_bit 6 ord) = ord * 64" using assms(1) by (simp add: u32_id push_bit_eq_mult)
  moreover have "(ord * 64) OR x = ord * 64 + x" using or_shift [of x 6 ord] assms(2) by simp
  ultimately show ?thesis using byte_class(1) [of "128 + x"] assms(2) by simp
qed

lemma div_mod_bytes:
  fixes c :: nat
  shows "c div 64 * 64 + c mod 64 = c" "(c div 4096 * 64 + c div 64 mod 64) * 64 + c mod 64 = c"
    "((c div 262144 * 64 + c div 4096 mod 64) * 64 + c div 64 mod 64) * 64 + c mod 64 = c"
proof -
  have "c div 4096 = c div 64 div 64" "c div 262144 = c div 64 div 64 div 64" by (simp_all flip: div_mult2_eq)
  then show "c div 64 * 64 + c mod 64 = c" "(c div 4096 * 64 + c div 64 mod 64) * 64 + c mod 64 = c"
    "((c div 262144 * 64 + c div 4096 mod 64) * 64 + c div 64 mod 64) * 64 + c mod 64 = c" by simp_all
qed

lemma cont_end: "s = [] \<or> \<not> UTF8_IS_CONT (hd s) \<Longrightarrow> cont_loop ord s = ord"
  by (cases s) auto

lemma get_char_bytes:
  assumes "c < 0x110000" "s = [] \<or> \<not> UTF8_IS_CONT (hd s)"
  shows "utf8_get_char (utf8_bytes c @ s) = c"
proof -
  note st = cont_end [OF assms(2)] cont_step div_mod_bytes
  consider "c < 0x80" | "0x80 \<le> c" "c < 0x800" | "0x800 \<le> c" "c < 0x10000" | "0x10000 \<le> c" "c < 0x110000" using assms(1) by linarith
  then show ?thesis
  proof cases
    case 1
    then show ?thesis using byte_class(2) [of c] by (simp add: utf8_bytes_def)
  next
    case 2
    then have d: "c div 64 < 32" by (simp add: less_mult_imp_div_less)
    then show ?thesis using 2 byte_class(2) [of "192 + c div 64"] lead_byte(1) [OF d] by (simp add: utf8_bytes_def st del: cont_loop.simps(2))
  next
    case 3
    then have d: "c div 4096 < 16" by (simp add: less_mult_imp_div_less)
    then have "utf8_get_char (utf8_bytes c @ s) = (c div 4096 * 64 + c div 64 mod 64) * 64 + c mod 64"
      using 3 byte_class(2) [of "224 + c div 4096"] lead_byte(2) [OF d] by (simp add: utf8_bytes_def st(1,2) del: cont_loop.simps(2))
    then show ?thesis by (simp only: div_mod_bytes)
  next
    case 4
    then have d: "c div 262144 < 8" by (simp add: less_mult_imp_div_less)
    then have "utf8_get_char (utf8_bytes c @ s) = ((c div 262144 * 64 + c div 4096 mod 64) * 64 + c div 64 mod 64) * 64 + c mod 64"
      using 4 byte_class(2) [of "240 + c div 262144"] lead_byte(3) [OF d] by (simp add: utf8_bytes_def st(1,2) del: cont_loop.simps(2))
    then show ?thesis by (simp only: div_mod_bytes)
  qed
qed

text \<open>The shape of an encoded character: a first byte, and continuation bytes.\<close>

lemma bytes_shape:
  assumes "c < 0x110000"
  obtains b bs where "utf8_bytes c = b # bs" "\<not> UTF8_IS_CONT b" "\<forall>x \<in> set bs. UTF8_IS_CONT x"
    "\<And>p. check_loop 0 (b # bs @ p) = check_loop 0 p"
proof -
  have k: "UTF8_IS_CONT (128 + x)" if "x < 64" for x using byte_class(1) [of "128 + x"] that by simp
  consider "c < 0x80" | "0x80 \<le> c" "c < 0x800" | "0x800 \<le> c" "c < 0x10000" | "0x10000 \<le> c" "c < 0x110000" using assms by linarith
  then show ?thesis
  proof cases
    case 1
    then show ?thesis using byte_class(1) [of c] that [of c "[]"] by (simp add: utf8_bytes_def)
  next
    case 2
    then have d: "c div 64 < 32" by (simp add: less_mult_imp_div_less)
    then show ?thesis using 2 byte_class(1) [of "192 + c div 64"] lead_need(1) [OF d] that [of "192 + c div 64" "[128 + c mod 64]"]
      by (simp add: utf8_bytes_def k)
  next
    case 3
    then have d: "c div 4096 < 16" by (simp add: less_mult_imp_div_less)
    then show ?thesis using 3 byte_class(1) [of "224 + c div 4096"] lead_need(2) [OF d]
        that [of "224 + c div 4096" "[128 + c div 64 mod 64, 128 + c mod 64]"] by (simp add: utf8_bytes_def k)
  next
    case 4
    then have d: "c div 262144 < 8" by (simp add: less_mult_imp_div_less)
    then show ?thesis using 4 byte_class(1) [of "240 + c div 262144"] lead_need(3) [OF d]
        that [of "240 + c div 262144" "[128 + c div 4096 mod 64, 128 + c div 64 mod 64, 128 + c mod 64]"] by (simp add: utf8_bytes_def k)
  qed
qed

section \<open>Encoded strings\<close>

text \<open>The characters of a string, as an iteration visits them.\<close>

function utf8_chars :: "nat list \<Rightarrow> nat list" where
  "utf8_chars s = (if s = [] then [] else utf8_get_char s # utf8_chars (utf8_next_char s))"
  by auto
termination
proof (relation "measure length", goal_cases)
  case (2 s)
  then show ?case using length_dropWhile_le [of UTF8_IS_CONT "tl s"] by (cases s) (auto simp: utf8_next_char_def)
qed simp

declare utf8_chars.simps [simp del]

definition utf8_encode :: "nat list \<Rightarrow> nat list" where
  "utf8_encode cs = concat (map utf8_bytes cs)"

lemma encode_simps [simp]: "utf8_encode [] = []" "utf8_encode (c # cs) = utf8_bytes c @ utf8_encode cs"
  by (simp_all add: utf8_encode_def)

lemma encode_append: "utf8_encode (cs @ ds) = utf8_encode cs @ utf8_encode ds"
  by (simp add: utf8_encode_def)

lemma encode_start:
  assumes "\<forall>c \<in> set cs. c < 0x110000"
  shows "utf8_encode cs = [] \<or> \<not> UTF8_IS_CONT (hd (utf8_encode cs))"
proof (cases cs)
  case (Cons c ds)
  then have "c < 0x110000" using assms by simp
  then show ?thesis using Cons by (metis bytes_shape append_Cons encode_simps(2) list.sel(1))
qed simp

lemma count_bytes:
  assumes "c < 0x110000"
  shows "length (filter (\<lambda>b. \<not> UTF8_IS_CONT b) (utf8_bytes c)) = 1"
proof -
  obtain b bs where b: "utf8_bytes c = b # bs" "\<not> UTF8_IS_CONT b" "\<forall>x \<in> set bs. UTF8_IS_CONT x" using bytes_shape [OF assms] .
  then have "filter (\<lambda>b. \<not> UTF8_IS_CONT b) bs = []" by (simp add: filter_empty_conv)
  then show ?thesis using b by simp
qed

lemma count_encode: "\<forall>c \<in> set cs. c < 0x110000 \<Longrightarrow> length (filter (\<lambda>b. \<not> UTF8_IS_CONT b) (utf8_encode cs)) = length cs"
  using count_bytes by (induction cs) simp_all

lemma charlen_filter: "utf8_charlen s = length (filter (\<lambda>b. \<not> UTF8_IS_CONT b) s)"
proof -
  have "fold (\<lambda>b n. if \<not> UTF8_IS_CONT b then n + 1 else n) s n = n + length (filter (\<lambda>b. \<not> UTF8_IS_CONT b) s)" for n
    by (induction s arbitrary: n) simp_all
  then show ?thesis by (simp add: utf8_charlen_def)
qed

lemma ptr_to_index_filter: "p \<le> length s \<Longrightarrow> utf8_ptr_to_index s p = length (filter (\<lambda>b. \<not> UTF8_IS_CONT b) (take p s))"
proof -
  assume p: "p \<le> length s"
  have "ptr_to_index_loop s p i = i + length (filter (\<lambda>b. \<not> UTF8_IS_CONT b) (take p s))" for i
    using p by (induction p arbitrary: i) (simp_all add: take_Suc_conv_app_nth)
  then show ?thesis by (simp add: utf8_ptr_to_index_def)
qed

lemma chars_encode:
  assumes "\<forall>c \<in> set cs. c < 0x110000"
  shows "utf8_chars (utf8_encode cs) = cs"
  using assms
proof (induction cs)
  case (Cons c cs)
  then have c: "c < 0x110000" and end': "utf8_encode cs = [] \<or> \<not> UTF8_IS_CONT (hd (utf8_encode cs))" using encode_start [of cs] by simp_all
  obtain b bs where b: "utf8_bytes c = b # bs" "\<not> UTF8_IS_CONT b" "\<forall>x \<in> set bs. UTF8_IS_CONT x" using bytes_shape [OF c] .
  have "dropWhile UTF8_IS_CONT (bs @ utf8_encode cs) = utf8_encode cs"
    using b(3) end' by (cases "utf8_encode cs") (simp_all add: dropWhile_append2)
  then have "utf8_next_char (utf8_bytes c @ utf8_encode cs) = utf8_encode cs" by (simp add: utf8_next_char_def b(1))
  then show ?case using get_char_bytes [OF c end'] Cons b(1) by (subst utf8_chars.simps) simp
qed (simp add: utf8_chars.simps)

lemma check_encode: "\<forall>c \<in> set cs. c < 0x110000 \<Longrightarrow> check_loop 0 (utf8_encode cs @ p) = check_loop 0 p"
proof (induction cs)
  case (Cons c cs)
  then have "c < 0x110000" by simp
  then obtain b bs where "utf8_bytes c = b # bs" "\<And>p. check_loop 0 (b # bs @ p) = check_loop 0 p" using bytes_shape by metis
  then show ?case using Cons by (simp del: check_loop.simps)
qed simp

text \<open>
  C17: The encoding of any sequence of characters passes the check, decodes to the characters, has their number as its
  length in characters, and the offset of a character in it is turned back into the index of the character. The
  ASCII predicates (space, digit, letter, upper and lower case, alphanumeric, identifier and hexadecimal digit) hold of exactly
  the ranges they are named for, upper and lower case are inverse on letters, and the hexadecimal digits
  have their values.
\<close>

theorem utf8_roundtrip:
  assumes "\<forall>c \<in> set cs. c < 0x110000"
  shows "utf8_check (utf8_encode cs) \<and> utf8_chars (utf8_encode cs) = cs \<and> utf8_charlen (utf8_encode cs) = length cs \<and>
    (k \<le> length cs \<longrightarrow> utf8_ptr_to_index (utf8_encode cs) (length (utf8_encode (take k cs))) = k) \<and>
    (unichar_isalpha c \<longleftrightarrow> 65 \<le> c \<and> c \<le> 90 \<or> 97 \<le> c \<and> c \<le> 122) \<and> (unichar_isdigit c \<longleftrightarrow> 48 \<le> c \<and> c \<le> 57) \<and>
    (unichar_isspace c \<longleftrightarrow> 9 \<le> c \<and> c \<le> 13 \<or> c = 32) \<and> (unichar_isalnum c \<longleftrightarrow> unichar_isalpha c \<or> unichar_isdigit c) \<and>
    (unichar_isident c \<longleftrightarrow> unichar_isalnum c \<or> c = 95) \<and>
    (unichar_isupper c \<longleftrightarrow> 65 \<le> c \<and> c \<le> 90) \<and> (unichar_islower c \<longleftrightarrow> 97 \<le> c \<and> c \<le> 122) \<and>
    (unichar_isxdigit c \<longleftrightarrow> 48 \<le> c \<and> c \<le> 57 \<or> 65 \<le> c \<and> c \<le> 70 \<or> 97 \<le> c \<and> c \<le> 102) \<and>
    (unichar_isupper c \<longrightarrow> unichar_toupper (unichar_tolower c) = c) \<and> (unichar_islower c \<longrightarrow> unichar_tolower (unichar_toupper c) = c) \<and>
    (unichar_isxdigit c \<longrightarrow> unichar_xdigit_value c = (if c \<le> 57 then c - 48 else if c \<le> 70 then c - 55 else c - 87))"
proof -
  have "utf8_ptr_to_index (utf8_encode cs) (length (utf8_encode (take k cs))) = k" if "k \<le> length cs"
  proof -
    have e: "utf8_encode cs = utf8_encode (take k cs) @ utf8_encode (drop k cs)" by (simp flip: encode_append)
    have "\<forall>c \<in> set (take k cs). c < 0x110000" using assms by (meson in_set_takeD)
    then have "length (filter (\<lambda>b. \<not> UTF8_IS_CONT b) (utf8_encode (take k cs))) = k" using count_encode that by fastforce
    then show ?thesis by (subst ptr_to_index_filter) (simp_all add: e)
  qed
  moreover have "unichar_isident c \<longleftrightarrow> unichar_isalnum c \<or> c = 95" by (auto simp: unichar_isident_def unichar_isalnum_def)
  moreover have "unichar_isxdigit c \<longrightarrow> unichar_xdigit_value c = (if c \<le> 57 then c - 48 else if c \<le> 70 then c - 55 else c - 87)"
    using xdigit_values [of c] by (auto simp: ascii_ranges)
  ultimately show ?thesis using chars_encode [OF assms] count_encode [OF assms] check_encode [OF assms, of "[]"]
    by (auto simp: utf8_check_def charlen_filter ascii_ranges unichar_tolower_def unichar_toupper_def)
qed

theorem utf8_roundtrip_witness:
  "utf8_encode [0x41, 0xE9, 0x20AC, 0x1F600] = [0x41, 0xC3, 0xA9, 0xE2, 0x82, 0xAC, 0xF0, 0x9F, 0x98, 0x80] \<and>
   utf8_chars (utf8_encode [0x41, 0xE9, 0x20AC, 0x1F600]) = [0x41, 0xE9, 0x20AC, 0x1F600] \<and> utf8_check (utf8_encode [0x41, 0xE9, 0x20AC, 0x1F600])"
  using utf8_roundtrip [of "[0x41, 0xE9, 0x20AC, 0x1F600]"] by (simp add: utf8_bytes_def)

text \<open>
  The check looks at the number of continuation bytes only: the two bytes that encode a slash in too many bytes pass it, and decode to the
  slash.
\<close>

lemma utf8_check_overlong: "utf8_check [0xC0, 0xAF] \<and> utf8_chars [0xC0, 0xAF] = [47] \<and> [0xC0, 0xAF] \<noteq> utf8_encode [47]"
proof -
  have c: "UTF8_IS_CONT 175" "\<not> UTF8_IS_CONT 192" "UTF8_IS_NONASCII 192" using byte_class [of 175] byte_class [of 192] by simp_all
  have "utf8_get_char [192, 175] = 47" using lead_byte(1) [of 0] cont_step [of 0 47 "[]"] c by (simp del: cont_loop.simps(2))
  moreover have "utf8_next_char [192, 175] = []" using c by (simp add: utf8_next_char_def)
  ultimately have "utf8_chars [192, 175] = [47]" by (simp add: utf8_chars.simps)
  moreover have "utf8_check [192, 175]" using lead_need(1) [of 0] c by (simp add: utf8_check_def)
  ultimately show ?thesis by (simp add: utf8_bytes_def)
qed

end
