(* ===== verification/Vstr.thy ===== *)
theory Vstr
  imports Simulation Unicode
begin

text \<open>
  String buffers, \<^verbatim>\<open>py/vstr.c\<close>: bytes with room to grow, or a fixed array that raises when it is full. Bytes that were not
  written are \<^const>\<open>None\<close>, and every access checks that it is inside the buffer.
\<close>

section \<open>Operations\<close>

record vstr_t =
  vstr_alloc :: nat
  vstr_len :: nat
  vstr_buf :: "nat option list"
  fixed_buf :: bool

datatype vstr_error = RuntimeError | VstrOutOfBounds | AssertChar

definition put_bytes :: "nat \<Rightarrow> nat option list \<Rightarrow> nat option list \<Rightarrow> vstr_error + nat option list" where
  "put_bytes off src mem =
     (if off + length src \<le> length mem then Inr (take off mem @ src @ drop (off + length src) mem) else Inl VstrOutOfBounds)"

definition get_bytes :: "nat \<Rightarrow> nat \<Rightarrow> nat option list \<Rightarrow> vstr_error + nat option list" where
  "get_bytes off n mem = (if off + n \<le> length mem then Inr (take n (drop off mem)) else Inl VstrOutOfBounds)"

definition renew_bytes :: "nat option list \<Rightarrow> nat \<Rightarrow> nat option list" where
  "renew_bytes mem n = take n mem @ replicate (n - length mem) None"

definition ROUND_ALLOC :: "nat \<Rightarrow> nat" where
  "ROUND_ALLOC a = u32 ((a AND (2 ^ 32 - 1 - 7)) + 8)"

definition vstr_init :: "nat \<Rightarrow> vstr_t" where
  "vstr_init al =
     (let al = (if al < 1 then 1 else al)
      in \<lparr>vstr_alloc = al, vstr_len = 0, vstr_buf = replicate al None, fixed_buf = False\<rparr>)"

definition vstr_init_len :: "nat \<Rightarrow> vstr_t" where
  "vstr_init_len len = (vstr_init (u32 (len + 1)))\<lparr>vstr_len := len\<rparr>"

definition vstr_init_fixed_buf :: "nat \<Rightarrow> nat option list \<Rightarrow> vstr_t" where
  "vstr_init_fixed_buf al buf = \<lparr>vstr_alloc = al, vstr_len = 0, vstr_buf = buf, fixed_buf = True\<rparr>"

definition vstr_clear :: "vstr_t \<Rightarrow> vstr_t" where
  "vstr_clear v = v\<lparr>vstr_buf := []\<rparr>"

text \<open>The functions that return a pointer into the buffer return its offset.\<close>

definition vstr_extend :: "vstr_t \<Rightarrow> nat \<Rightarrow> vstr_error + nat \<times> vstr_t" where
  "vstr_extend v sz =
     (if fixed_buf v then Inl RuntimeError
      else let al = u32 (vstr_alloc v + sz)
           in Inr (vstr_alloc v, v\<lparr>vstr_alloc := al, vstr_buf := renew_bytes (vstr_buf v) al\<rparr>))"

definition vstr_ensure_extra :: "vstr_t \<Rightarrow> nat \<Rightarrow> vstr_error + vstr_t" where
  "vstr_ensure_extra v sz =
     (if u32 (vstr_len v + sz) > vstr_alloc v
      then if fixed_buf v then Inl RuntimeError
           else let new_alloc = ROUND_ALLOC (u32 (vstr_len v + sz + 16))
                in Inr (v\<lparr>vstr_alloc := new_alloc, vstr_buf := renew_bytes (vstr_buf v) new_alloc\<rparr>)
      else Inr v)"

definition vstr_hint_size :: "vstr_t \<Rightarrow> nat \<Rightarrow> vstr_error + vstr_t" where
  "vstr_hint_size = vstr_ensure_extra"

definition vstr_add_len :: "vstr_t \<Rightarrow> nat \<Rightarrow> vstr_error + nat \<times> vstr_t" where
  "vstr_add_len v len =
     res_bind (vstr_ensure_extra v len) (\<lambda>v. Inr (vstr_len v, v\<lparr>vstr_len := u32 (vstr_len v + len)\<rparr>))"

definition vstr_null_terminated_str :: "vstr_t \<Rightarrow> vstr_error + vstr_t" where
  "vstr_null_terminated_str v =
     res_bind (if vstr_alloc v = vstr_len v then res_bind (vstr_extend v 1) (\<lambda>r. Inr (snd r)) else Inr v) (\<lambda>v.
     res_bind (put_bytes (vstr_len v) [Some 0] (vstr_buf v)) (\<lambda>mem. Inr (v\<lparr>vstr_buf := mem\<rparr>)))"

definition vstr_add_byte :: "vstr_t \<Rightarrow> nat \<Rightarrow> vstr_error + vstr_t" where
  "vstr_add_byte v b =
     res_bind (vstr_add_len v 1) (\<lambda>(buf, v).
     res_bind (put_bytes buf [Some b] (vstr_buf v)) (\<lambda>mem. Inr (v\<lparr>vstr_buf := mem\<rparr>)))"

definition to_byte :: "nat \<Rightarrow> nat" where
  "to_byte x = x mod 256"

definition char_bytes :: "nat \<Rightarrow> nat list" where
  "char_bytes c =
     (if c < 0x80 then [to_byte c]
      else if c < 0x800 then [to_byte (drop_bit 6 c OR 0xC0), to_byte ((c AND 0x3F) OR 0x80)]
      else if c < 0x10000 then
        [to_byte (drop_bit 12 c OR 0xE0), to_byte ((drop_bit 6 c AND 0x3F) OR 0x80), to_byte ((c AND 0x3F) OR 0x80)]
      else
        [to_byte (drop_bit 18 c OR 0xF0), to_byte ((drop_bit 12 c AND 0x3F) OR 0x80), to_byte ((drop_bit 6 c AND 0x3F) OR 0x80),
         to_byte ((c AND 0x3F) OR 0x80)])"

definition vstr_add_char :: "vstr_t \<Rightarrow> nat \<Rightarrow> vstr_error + vstr_t" where
  "vstr_add_char v c =
     (if c \<ge> 0x110000 then Inl AssertChar
      else res_bind (vstr_add_len v (length (char_bytes c))) (\<lambda>(buf, v).
           res_bind (put_bytes buf (map Some (char_bytes c)) (vstr_buf v)) (\<lambda>mem. Inr (v\<lparr>vstr_buf := mem\<rparr>))))"

definition vstr_add_strn :: "vstr_t \<Rightarrow> nat list \<Rightarrow> vstr_error + vstr_t" where
  "vstr_add_strn v str =
     res_bind (vstr_ensure_extra v (length str)) (\<lambda>v.
     res_bind (put_bytes (vstr_len v) (map Some str) (vstr_buf v)) (\<lambda>mem.
     Inr (v\<lparr>vstr_buf := mem, vstr_len := u32 (vstr_len v + length str)\<rparr>)))"

definition vstr_add_str :: "vstr_t \<Rightarrow> nat list \<Rightarrow> vstr_error + vstr_t" where
  "vstr_add_str v str = vstr_add_strn v (takeWhile (\<lambda>b. b \<noteq> 0) str)"

definition vstr_ins_blank_bytes :: "vstr_t \<Rightarrow> nat \<Rightarrow> nat \<Rightarrow> vstr_error + nat \<times> vstr_t" where
  "vstr_ins_blank_bytes v byte_pos byte_len =
     (let l = vstr_len v; byte_pos = (if byte_pos > l then l else byte_pos)
      in if byte_len > 0
         then res_bind (vstr_ensure_extra v byte_len) (\<lambda>v.
              res_bind (get_bytes byte_pos (l - byte_pos) (vstr_buf v)) (\<lambda>src.
              res_bind (put_bytes (byte_pos + byte_len) src (vstr_buf v)) (\<lambda>mem.
              Inr (byte_pos, v\<lparr>vstr_buf := mem, vstr_len := u32 (vstr_len v + byte_len)\<rparr>))))
         else Inr (byte_pos, v))"

definition vstr_ins_byte :: "vstr_t \<Rightarrow> nat \<Rightarrow> nat \<Rightarrow> vstr_error + vstr_t" where
  "vstr_ins_byte v byte_pos b =
     res_bind (vstr_ins_blank_bytes v byte_pos 1) (\<lambda>(s, v).
     res_bind (put_bytes s [Some b] (vstr_buf v)) (\<lambda>mem. Inr (v\<lparr>vstr_buf := mem\<rparr>)))"

definition vstr_ins_char :: "vstr_t \<Rightarrow> nat \<Rightarrow> nat \<Rightarrow> vstr_error + vstr_t" where
  "vstr_ins_char v char_pos chr =
     res_bind (vstr_ins_blank_bytes v char_pos 1) (\<lambda>(s, v).
     res_bind (put_bytes s [Some (to_byte chr)] (vstr_buf v)) (\<lambda>mem. Inr (v\<lparr>vstr_buf := mem\<rparr>)))"

definition vstr_cut_tail_bytes :: "vstr_t \<Rightarrow> nat \<Rightarrow> vstr_t" where
  "vstr_cut_tail_bytes v len = (if len > vstr_len v then v\<lparr>vstr_len := 0\<rparr> else v\<lparr>vstr_len := vstr_len v - len\<rparr>)"

definition vstr_cut_out_bytes :: "vstr_t \<Rightarrow> nat \<Rightarrow> nat \<Rightarrow> vstr_error + vstr_t" where
  "vstr_cut_out_bytes v byte_pos bytes_to_cut =
     (if byte_pos \<ge> vstr_len v then Inr v
      else if u32 (byte_pos + bytes_to_cut) \<ge> vstr_len v then Inr (v\<lparr>vstr_len := byte_pos\<rparr>)
      else let n = u32 (vstr_len v - byte_pos + (2 ^ 32 - bytes_to_cut))
           in res_bind (get_bytes (u32 (byte_pos + bytes_to_cut)) n (vstr_buf v)) (\<lambda>src.
              res_bind (put_bytes byte_pos src (vstr_buf v)) (\<lambda>mem.
              Inr (v\<lparr>vstr_buf := mem, vstr_len := u32 (vstr_len v + (2 ^ 32 - bytes_to_cut))\<rparr>))))"

definition vstr_cut_head_bytes :: "vstr_t \<Rightarrow> nat \<Rightarrow> vstr_error + vstr_t" where
  "vstr_cut_head_bytes v bytes_to_cut = vstr_cut_out_bytes v 0 bytes_to_cut"

section \<open>Contents\<close>

text \<open>The abstract state: the capacity of a fixed buffer, and the bytes.\<close>

definition vstr_rep :: "vstr_t \<Rightarrow> nat option \<times> nat list \<Rightarrow> bool" where
  "vstr_rep v a \<longleftrightarrow> length (vstr_buf v) = vstr_alloc v \<and> vstr_alloc v < 2 ^ 31 \<and> vstr_len v = length (snd a) \<and> length (snd a) \<le> vstr_alloc v \<and>
     take (length (snd a)) (vstr_buf v) = map Some (snd a) \<and> (fixed_buf v \<longleftrightarrow> fst a \<noteq> None) \<and> (\<forall>n. fst a = Some n \<longrightarrow> vstr_alloc v = n)"

definition room :: "nat option \<times> nat list \<Rightarrow> nat \<Rightarrow> bool" where
  "room a n \<longleftrightarrow> (case fst a of None \<Rightarrow> True | Some m \<Rightarrow> length (snd a) + n \<le> m)"

lemma put_mid: "length a = off \<Longrightarrow> length b = length src \<Longrightarrow> put_bytes off src (a @ b @ c) = Inr (a @ src @ c)"
  by (simp add: put_bytes_def)

lemma round_alloc:
  assumes "a < 2 ^ 31"
  shows "a < ROUND_ALLOC a" "ROUND_ALLOC a \<le> a + 8"
proof -
  define q r where "q = a div 8" and "r = a mod 8"
  have a: "a = r + 2 ^ 3 * q" "r < 8" by (auto simp: q_def r_def)
  have q: "q < 2 ^ 29" "8 * q + 8 < 2 ^ 32" using assms a(1) by simp_all
  have "(r + 2 ^ 3 * q) AND (0 + 2 ^ 3 * (2 ^ 29 - 1)) = (r AND 0) + 2 ^ 3 * (q AND (2 ^ 29 - 1))"
    using a(2) by (intro and_concat) simp_all
  then have "a AND (2 ^ 32 - 1 - 7) = 8 * q" using and_low [OF q(1)] a(1) by simp
  then have "ROUND_ALLOC a = 8 * q + 8" using u32_id [OF q(2)] by (simp add: ROUND_ALLOC_def)
  then show "a < ROUND_ALLOC a" "ROUND_ALLOC a \<le> a + 8" using a by auto
qed

lemma ensure_rep:
  assumes "vstr_rep v a" "length (snd a) + n < 2 ^ 30"
  shows "if room a n then \<exists>v'. vstr_ensure_extra v n = Inr v' \<and> vstr_rep v' a \<and> length (snd a) + n \<le> vstr_alloc v'
    else vstr_ensure_extra v n = Inl RuntimeError"
proof -
  let ?l = "length (snd a)"
  have l: "vstr_len v = ?l" "u32 (?l + n) = ?l + n" using assms by (simp_all add: vstr_rep_def u32_id)
  show ?thesis
  proof (cases "?l + n \<le> vstr_alloc v")
    case True
    then have "room a n" using assms(1) by (auto simp: room_def vstr_rep_def split: option.splits)
    then show ?thesis using True assms(1) l by (simp add: vstr_ensure_extra_def)
  next
    case False
    show ?thesis
    proof (cases "fst a")
      case (Some m)
      then show ?thesis using False assms(1) l by (auto simp: vstr_ensure_extra_def room_def vstr_rep_def)
    next
      case None
      define al where "al = ROUND_ALLOC (?l + n + 16)"
      have al: "?l + n + 16 < al" "al \<le> ?l + n + 24" using round_alloc [of "?l + n + 16"] assms(2) by (simp_all add: al_def)
      have e: "vstr_ensure_extra v n = Inr (v\<lparr>vstr_alloc := al, vstr_buf := renew_bytes (vstr_buf v) al\<rparr>)"
        using False None assms l by (simp add: vstr_ensure_extra_def vstr_rep_def al_def u32_id Let_def)
      have "take ?l (renew_bytes (vstr_buf v) al) = take ?l (vstr_buf v)"
        using assms(1) al by (simp add: renew_bytes_def vstr_rep_def min_absorb1)
      moreover have "length (renew_bytes (vstr_buf v) al) = al" by (simp add: renew_bytes_def)
      ultimately show ?thesis using e None assms al by (simp add: room_def vstr_rep_def)
    qed
  qed
qed

text \<open>Bytes written behind the contents.\<close>

lemma put_tail:
  assumes "vstr_rep v a" "length (snd a) + length xs \<le> vstr_alloc v"
  shows "\<exists>mem. put_bytes (length (snd a)) (map Some xs) (vstr_buf v) = Inr mem \<and> length mem = vstr_alloc v \<and>
    take (length (snd a) + length xs) mem = map Some (snd a @ xs)"
proof -
  let ?l = "length (snd a)" and ?buf = "vstr_buf v"
  have b: "length ?buf = vstr_alloc v" "take ?l ?buf = map Some (snd a)" using assms(1) by (auto simp: vstr_rep_def)
  have "put_bytes ?l (map Some xs) ?buf = Inr (take ?l ?buf @ map Some xs @ drop (?l + length xs) ?buf)" using assms(2) b(1) by (simp add: put_bytes_def)
  then show ?thesis using assms(2) b by simp
qed

lemma add_bytes_rep:
  assumes "vstr_rep v a" "length (snd a) + length xs < 2 ^ 30"
  shows "if room a (length xs) then \<exists>v'. vstr_add_strn v xs = Inr v' \<and> vstr_rep v' (fst a, snd a @ xs)
    else vstr_add_strn v xs = Inl RuntimeError"
    and "res_bind (vstr_add_len v (length xs)) (\<lambda>(buf, v).
      res_bind (put_bytes buf (map Some xs) (vstr_buf v)) (\<lambda>mem. Inr (v\<lparr>vstr_buf := mem\<rparr>))) = vstr_add_strn v xs"
proof -
  note en = ensure_rep [OF assms]
  have "(if room a (length xs) then \<exists>v'. vstr_add_strn v xs = Inr v' \<and> vstr_rep v' (fst a, snd a @ xs)
    else vstr_add_strn v xs = Inl RuntimeError) \<and> res_bind (vstr_add_len v (length xs)) (\<lambda>(buf, v).
      res_bind (put_bytes buf (map Some xs) (vstr_buf v)) (\<lambda>mem. Inr (v\<lparr>vstr_buf := mem\<rparr>))) = vstr_add_strn v xs"
  proof (cases "room a (length xs)")
    case False
    then show ?thesis using en by (simp add: vstr_add_strn_def vstr_add_len_def)
  next
    case True
    then obtain v1 where v1: "vstr_ensure_extra v (length xs) = Inr v1" "vstr_rep v1 a" "length (snd a) + length xs \<le> vstr_alloc v1" using en by auto
    obtain mem where m: "put_bytes (length (snd a)) (map Some xs) (vstr_buf v1) = Inr mem" "length mem = vstr_alloc v1"
      "take (length (snd a) + length xs) mem = map Some (snd a @ xs)" using put_tail [OF v1(2,3)] by blast
    have l: "vstr_len v1 = length (snd a)" "u32 (length (snd a) + length xs) = length (snd a) + length xs"
      using v1(2) assms(2) by (simp_all add: vstr_rep_def u32_id)
    show ?thesis using True v1 m l by (auto simp: vstr_add_strn_def vstr_add_len_def vstr_rep_def)
  qed
  then show "if room a (length xs) then \<exists>v'. vstr_add_strn v xs = Inr v' \<and> vstr_rep v' (fst a, snd a @ xs)
    else vstr_add_strn v xs = Inl RuntimeError"
    and "res_bind (vstr_add_len v (length xs)) (\<lambda>(buf, v).
      res_bind (put_bytes buf (map Some xs) (vstr_buf v)) (\<lambda>mem. Inr (v\<lparr>vstr_buf := mem\<rparr>))) = vstr_add_strn v xs" by auto
qed

text \<open>The bytes of a character.\<close>

lemma char_bytes_utf8:
  assumes "c < 0x110000"
  shows "char_bytes c = utf8_bytes c"
proof -
  have k: "to_byte ((x AND 63) OR 128) = 128 + x mod 64" for x
  proof -
    have "x AND 63 = x mod 64" using take_bit_eq_mask [of 6 x] by (simp add: take_bit_eq_mod mask_eq_exp_minus_1)
    moreover have "(x mod 64) OR 128 = 128 + x mod 64" using or_shift [of "x mod 64" 6 2] by (simp add: or.commute)
    ultimately show ?thesis by (simp add: to_byte_def)
  qed
  have l: "to_byte (x OR 192) = 192 + x" if "x < 64" for x using or_shift [of x 6 3] that by (simp add: or.commute to_byte_def)
  have m: "to_byte (x OR 224) = 224 + x" if "x < 32" for x using or_shift [of x 5 7] that by (simp add: or.commute to_byte_def)
  have n: "to_byte (x OR 240) = 240 + x" if "x < 16" for x using or_shift [of x 4 15] that by (simp add: or.commute to_byte_def)
  have d: "c < 0x800 \<Longrightarrow> c div 64 < 64" "c < 0x10000 \<Longrightarrow> c div 4096 < 32" "c div 262144 < 16"
    using assms by (simp_all add: less_mult_imp_div_less)
  have "c < 128 \<Longrightarrow> to_byte c = c" by (simp add: to_byte_def)
  then show ?thesis using d by (simp add: char_bytes_def utf8_bytes_def k l m n drop_bit_eq_div)
qed

section \<open>Insertion and removal\<close>

lemma rep_buffer:
  assumes "vstr_rep v a" "k \<le> length (snd a)"
  shows "vstr_buf v = map Some (take k (snd a)) @ map Some (drop k (snd a)) @ drop (length (snd a)) (vstr_buf v)"
proof -
  have "vstr_buf v = map Some (snd a) @ drop (length (snd a)) (vstr_buf v)" using assms(1) by (metis append_take_drop_id vstr_rep_def)
  moreover have "map Some (snd a) = map Some (take k (snd a)) @ map Some (drop k (snd a))" by (simp flip: map_append)
  ultimately show ?thesis by simp
qed

lemma ins_byte_rep:
  assumes "vstr_rep v a" "length (snd a) + 1 < 2 ^ 30" "k = min pos (length (snd a))"
  shows "if room a 1 then \<exists>v'. vstr_ins_byte v pos b = Inr v' \<and> vstr_rep v' (fst a, take k (snd a) @ b # drop k (snd a))
    else vstr_ins_byte v pos b = Inl RuntimeError"
proof -
  let ?l = "length (snd a)"
  have p: "(if pos > vstr_len v then vstr_len v else pos) = k" "vstr_len v = ?l" "k \<le> ?l" using assms by (auto simp: vstr_rep_def)
  note en = ensure_rep [OF assms(1,2)]
  show ?thesis
  proof (cases "room a 1")
    case False
    then show ?thesis using en by (simp add: vstr_ins_byte_def vstr_ins_blank_bytes_def Let_def)
  next
    case True
    then obtain v1 where v1: "vstr_ensure_extra v 1 = Inr v1" "vstr_rep v1 a" "?l + 1 \<le> vstr_alloc v1" using en by auto
    define x where "x = map Some (take k (snd a))"
    define y where "y = map Some (drop k (snd a))"
    define z where "z = drop ?l (vstr_buf v1)"
    have buf: "vstr_buf v1 = x @ y @ z" using rep_buffer [OF v1(2) p(3)] by (simp add: x_def y_def z_def)
    have xy: "length x = k" "length y = ?l - k" "z \<noteq> []" using p(3) v1(2,3) by (auto simp: x_def y_def z_def vstr_rep_def)
    have g: "get_bytes k (?l - k) (vstr_buf v1) = Inr y" using xy by (simp add: get_bytes_def buf)
    obtain z1 zs where z: "z = z1 # zs" using xy(3) by (cases z) auto
    obtain w ws where w: "y @ [z1] = w # ws" by (cases y) auto
    have b2: "x @ y @ z = x @ [w] @ ws @ zs" using w z by (metis append.assoc append_Cons append_Nil)
    have lw: "length ws = length y" using arg_cong [OF w, of length] by simp
    have m1: "put_bytes (k + 1) y (vstr_buf v1) = Inr (x @ [w] @ y @ zs)"
      unfolding buf b2 using put_mid [of "x @ [w]" "k + 1" ws y zs] xy(1) lw by simp
    have m2: "put_bytes k [Some b] (x @ [w] @ y @ zs) = Inr (x @ [Some b] @ y @ zs)" using xy(1) by (intro put_mid) simp_all
    have u: "u32 (?l + 1) = ?l + 1" using assms(2) by (simp add: u32_id)
    let ?v = "v1\<lparr>vstr_len := ?l + 1, vstr_buf := x @ [Some b] @ y @ zs\<rparr>"
    have l1: "vstr_len v1 = ?l" using v1(2) by (simp add: vstr_rep_def)
    have blank: "vstr_ins_blank_bytes v pos 1 = Inr (k, v1\<lparr>vstr_buf := x @ [w] @ y @ zs, vstr_len := ?l + 1\<rparr>)"
      unfolding vstr_ins_blank_bytes_def Let_def p(1) using v1(1) g m1 u l1 p(2) by simp
    have r: "vstr_ins_byte v pos b = Inr ?v" unfolding vstr_ins_byte_def blank using m2 by simp
    have "length (vstr_buf v1) = length (x @ [Some b] @ y @ zs)" by (simp add: buf z)
    moreover have "take (?l + 1) (x @ [Some b] @ y @ zs) = map Some (take k (snd a) @ b # drop k (snd a))"
      using xy p(3) by (simp add: x_def y_def Suc_diff_le)
    ultimately have "vstr_rep ?v (fst a, take k (snd a) @ b # drop k (snd a))" using v1(2,3) p(3) by (simp add: vstr_rep_def)
    then show ?thesis using True r by simp
  qed
qed

lemma cut_tail_rep: "vstr_rep v a \<Longrightarrow> vstr_rep (vstr_cut_tail_bytes v n) (fst a, take (length (snd a) - n) (snd a))"
proof -
  assume r: "vstr_rep v a"
  have "take k (vstr_buf v) = map Some (take k (snd a))" if "k \<le> length (snd a)" for k
    using r that by (metis min_absorb1 take_map take_take vstr_rep_def)
  then show ?thesis using r by (auto simp: vstr_cut_tail_bytes_def vstr_rep_def)
qed

lemma cut_out_rep:
  assumes "vstr_rep v a" "p < 2 ^ 31" "n < 2 ^ 31"
  shows "\<exists>v'. vstr_cut_out_bytes v p n = Inr v' \<and> vstr_rep v' (fst a, take p (snd a) @ drop (p + n) (snd a))"
proof -
  let ?l = "length (snd a)"
  have l: "vstr_len v = ?l" "?l < 2 ^ 31" using assms(1) by (auto simp: vstr_rep_def)
  have u: "u32 (p + n) = p + n" using assms(2,3) by (simp add: u32_id)
  consider "?l \<le> p" | "p < ?l" "?l \<le> p + n" | "p + n < ?l" by linarith
  then show ?thesis
  proof cases
    case 1
    then show ?thesis using assms(1) l by (simp add: vstr_cut_out_bytes_def)
  next
    case 2
    then have "vstr_cut_out_bytes v p n = Inr (v\<lparr>vstr_len := p\<rparr>)" using l u by (simp add: vstr_cut_out_bytes_def)
    moreover have "v\<lparr>vstr_len := p\<rparr> = vstr_cut_tail_bytes v (?l - p)" using l 2 by (simp add: vstr_cut_tail_bytes_def)
    ultimately show ?thesis using cut_tail_rep [OF assms(1), of "?l - p"] 2 by simp
  next
    case 3
    define x where "x = map Some (take p (snd a))"
    define y where "y = map Some (take n (drop p (snd a)))"
    define z where "z = map Some (drop (p + n) (snd a))"
    define t where "t = drop ?l (vstr_buf v)"
    have "snd a = take p (snd a) @ take n (drop p (snd a)) @ drop (p + n) (snd a)" by (metis add.commute append_take_drop_id drop_drop)
    then have "map Some (snd a) = x @ y @ z" unfolding x_def y_def z_def by (metis map_append)
    then have buf: "vstr_buf v = x @ y @ z @ t" using rep_buffer [OF assms(1), of ?l] by (simp add: t_def)
    have len: "length x = p" "length y = n" "length z = ?l - (p + n)" using 3 by (auto simp: x_def y_def z_def)
    have uu: "u32 (?l - p + (2 ^ 32 - n)) = ?l - (p + n)" "u32 (?l + (2 ^ 32 - n)) = ?l - n"
    proof -
      have "?l - p + (2 ^ 32 - n) = ?l - (p + n) + 2 ^ 32" "?l + (2 ^ 32 - n) = ?l - n + 2 ^ 32" using 3 assms(3) by simp_all
      then show "u32 (?l - p + (2 ^ 32 - n)) = ?l - (p + n)" "u32 (?l + (2 ^ 32 - n)) = ?l - n"
        using l(2) by (simp_all only: u32_def mod_add_self2) simp_all
    qed
    have g: "get_bytes (p + n) (?l - (p + n)) (vstr_buf v) = Inr z" using len by (simp add: get_bytes_def buf)
    obtain q r where qr: "y @ z = q @ r" "length q = length z" "length r = length y"
      using that [OF append_take_drop_id [of "length z" "y @ z", symmetric]] by simp
    have e: "y @ z @ t = q @ r @ t" using qr(1) by (metis append.assoc)
    have m: "put_bytes p z (vstr_buf v) = Inr (x @ z @ r @ t)" unfolding buf e using put_mid [of x p q z "r @ t"] len(1) qr(2) by simp
    have "vstr_cut_out_bytes v p n = Inr (v\<lparr>vstr_buf := x @ z @ r @ t, vstr_len := ?l - n\<rparr>)"
      unfolding vstr_cut_out_bytes_def Let_def using 3 l u uu g m by simp
    moreover have "length (vstr_buf v) = length (x @ z @ r @ t)" using arg_cong [OF e, of length] qr by (simp add: buf)
    moreover have "take (?l - n) (x @ z @ r @ t) = map Some (take p (snd a) @ drop (p + n) (snd a))"
      using len 3 by (simp add: x_def z_def)
    moreover have "?l - n \<le> vstr_alloc v" using assms(1) unfolding vstr_rep_def by linarith
    ultimately show ?thesis using assms(1) 3 by (simp add: vstr_rep_def)
  qed
qed

lemma null_rep:
  assumes "vstr_rep v a" "length (snd a) < 2 ^ 30"
  shows "if room a 1 then \<exists>v'. vstr_null_terminated_str v = Inr v' \<and> vstr_rep v' a \<and> vstr_len v' < vstr_alloc v' \<and> vstr_buf v' ! vstr_len v' = Some 0
    else vstr_null_terminated_str v = Inl RuntimeError"
proof -
  let ?l = "length (snd a)"
  have l: "vstr_len v = ?l" "length (vstr_buf v) = vstr_alloc v" "?l \<le> vstr_alloc v" "take ?l (vstr_buf v) = map Some (snd a)"
    using assms(1) by (auto simp: vstr_rep_def)
  have done': "\<exists>v'. res_bind (put_bytes (vstr_len w) [Some 0] (vstr_buf w)) (\<lambda>mem. Inr (w\<lparr>vstr_buf := mem\<rparr>)) = Inr v' \<and> vstr_rep v' a \<and>
      vstr_len v' < vstr_alloc v' \<and> vstr_buf v' ! vstr_len v' = Some 0" if w: "vstr_rep w a" "?l < vstr_alloc w" for w
  proof -
    have lw: "vstr_len w = ?l" "length (vstr_buf w) = vstr_alloc w" "take ?l (vstr_buf w) = map Some (snd a)" using w(1) by (auto simp: vstr_rep_def)
    have "put_bytes ?l [Some 0] (vstr_buf w) = Inr (map Some (snd a) @ [Some 0] @ drop (?l + 1) (vstr_buf w))" using lw w(2) by (simp add: put_bytes_def)
    then show ?thesis using w lw by (simp add: vstr_rep_def nth_append)
  qed
  show ?thesis
  proof (cases "vstr_alloc v = ?l")
    case False
    then have "room a 1" using assms(1) by (auto simp: room_def vstr_rep_def split: option.splits)
    then show ?thesis using done' [OF assms(1)] False l by (simp add: vstr_null_terminated_str_def)
  next
    case True
    show ?thesis
    proof (cases "fst a")
      case (Some m)
      then show ?thesis using True assms(1) l by (auto simp: vstr_null_terminated_str_def vstr_extend_def room_def vstr_rep_def)
    next
      case None
      let ?w = "v\<lparr>vstr_alloc := ?l + 1, vstr_buf := renew_bytes (vstr_buf v) (?l + 1)\<rparr>"
      have "vstr_rep ?w a" using assms True None l by (simp add: vstr_rep_def renew_bytes_def)
      moreover have "vstr_extend v 1 = Inr (?l, ?w)" using True None assms by (simp add: vstr_extend_def vstr_rep_def u32_id)
      ultimately show ?thesis using done' [of ?w] True None l by (simp add: vstr_null_terminated_str_def room_def)
    qed
  qed
qed

section \<open>Results\<close>

datatype vstr_cmd =
    AddByte nat
  | AddChar nat
  | AddStrn "nat list"
  | InsByte nat nat
  | CutHead nat
  | CutTail nat
  | CutOut nat nat
  | Hint nat
  | NullTerminate

definition settle :: "'s \<Rightarrow> vstr_error + 's \<Rightarrow> vstr_error option \<times> 's" where
  "settle s r = (case r of Inl e \<Rightarrow> (Some e, s) | Inr s' \<Rightarrow> (None, s'))"

fun vstr_exec :: "vstr_t \<Rightarrow> vstr_cmd \<Rightarrow> vstr_error option \<times> vstr_t" where
  "vstr_exec v (AddByte b) = settle v (vstr_add_byte v b)"
| "vstr_exec v (AddChar c) = settle v (vstr_add_char v c)"
| "vstr_exec v (AddStrn s) = settle v (vstr_add_strn v s)"
| "vstr_exec v (InsByte pos b) = settle v (vstr_ins_byte v pos b)"
| "vstr_exec v (CutHead n) = settle v (vstr_cut_head_bytes v n)"
| "vstr_exec v (CutTail n) = (None, vstr_cut_tail_bytes v n)"
| "vstr_exec v (CutOut p n) = settle v (vstr_cut_out_bytes v p n)"
| "vstr_exec v (Hint n) = settle v (vstr_hint_size v n)"
| "vstr_exec v NullTerminate = settle v (vstr_null_terminated_str v)"

text \<open>A sequence of bytes; a fixed buffer raises when the bytes to add do not fit.\<close>

definition add_room :: "nat option \<times> nat list \<Rightarrow> nat \<Rightarrow> nat list \<Rightarrow> vstr_error option \<times> nat option \<times> nat list" where
  "add_room a n xs = (if room a n then (None, fst a, xs) else (Some RuntimeError, a))"

fun bytes_exec :: "nat option \<times> nat list \<Rightarrow> vstr_cmd \<Rightarrow> vstr_error option \<times> nat option \<times> nat list" where
  "bytes_exec a (AddByte b) = add_room a 1 (snd a @ [b])"
| "bytes_exec a (AddChar c) = add_room a (length (utf8_bytes c)) (snd a @ utf8_bytes c)"
| "bytes_exec a (AddStrn s) = add_room a (length s) (snd a @ s)"
| "bytes_exec a (InsByte pos b) = add_room a 1 (take pos (snd a) @ b # drop pos (snd a))"
| "bytes_exec a (CutHead n) = (None, fst a, drop n (snd a))"
| "bytes_exec a (CutTail n) = (None, fst a, take (length (snd a) - n) (snd a))"
| "bytes_exec a (CutOut p n) = (None, fst a, take p (snd a) @ drop (p + n) (snd a))"
| "bytes_exec a (Hint n) = add_room a n (snd a)"
| "bytes_exec a NullTerminate = add_room a 1 (snd a)"

fun vstr_cmd_ok :: "vstr_cmd \<Rightarrow> bool" where
  "vstr_cmd_ok (AddChar c) = (c < 0x110000)"
| "vstr_cmd_ok (CutHead n) = (n < 2 ^ 31)"
| "vstr_cmd_ok (CutOut p n) = (p < 2 ^ 31 \<and> n < 2 ^ 31)"
| "vstr_cmd_ok _ = True"

fun vstr_cmd_grow :: "vstr_cmd \<Rightarrow> nat" where
  "vstr_cmd_grow (AddByte b) = 1"
| "vstr_cmd_grow (AddChar c) = length (utf8_bytes c)"
| "vstr_cmd_grow (AddStrn s) = length s"
| "vstr_cmd_grow (InsByte pos b) = 1"
| "vstr_cmd_grow (Hint n) = n"
| "vstr_cmd_grow _ = 0"

lemma settle_add:
  assumes "vstr_rep v a" "if room a n then \<exists>v'. r = Inr v' \<and> vstr_rep v' (fst a, xs) else r = Inl RuntimeError"
  shows "fst (settle v r) = fst (add_room a n xs) \<and> vstr_rep (snd (settle v r)) (snd (add_room a n xs))"
  using assms by (auto simp: settle_def add_room_def)

lemma vstr_exec_rep:
  assumes "vstr_rep v a" "vstr_cmd_ok c" "length (snd a) + vstr_cmd_grow c < 2 ^ 30 - 1"
  shows "fst (vstr_exec v c) = fst (bytes_exec a c) \<and> vstr_rep (snd (vstr_exec v c)) (snd (bytes_exec a c))"
proof (cases c)
  case (AddByte b)
  then have "vstr_add_byte v b = vstr_add_strn v [b]" using add_bytes_rep(2) [OF assms(1), of "[b]"] assms(3) by (simp add: vstr_add_byte_def)
  then show ?thesis using AddByte settle_add [OF assms(1)] add_bytes_rep(1) [OF assms(1), of "[b]"] assms(3) by simp
next
  case (AddChar c')
  then have "vstr_add_char v c' = vstr_add_strn v (utf8_bytes c')"
    using add_bytes_rep(2) [OF assms(1), of "utf8_bytes c'"] assms(2,3) by (simp add: vstr_add_char_def char_bytes_utf8)
  then show ?thesis using AddChar settle_add [OF assms(1)] add_bytes_rep(1) [OF assms(1), of "utf8_bytes c'"] assms(3) by simp
next
  case (AddStrn s)
  then show ?thesis using settle_add [OF assms(1)] add_bytes_rep(1) [OF assms(1), of s] assms(3) by simp
next
  case (InsByte pos b)
  have k: "take (min pos (length (snd a))) (snd a) @ b # drop (min pos (length (snd a))) (snd a) = take pos (snd a) @ b # drop pos (snd a)"
    by (auto simp: min_def)
  show ?thesis using InsByte settle_add [OF assms(1) ins_byte_rep [OF assms(1) _ refl, of pos b, unfolded k]] assms(3) by simp
next
  case (CutHead n)
  then obtain v' where "vstr_cut_out_bytes v 0 n = Inr v'" "vstr_rep v' (fst a, drop n (snd a))" using cut_out_rep [OF assms(1), of 0 n] assms(2) by auto
  then show ?thesis using CutHead by (simp add: vstr_cut_head_bytes_def settle_def)
next
  case (CutTail n)
  then show ?thesis using cut_tail_rep [OF assms(1), of n] by simp
next
  case (CutOut p n)
  then obtain v' where "vstr_cut_out_bytes v p n = Inr v'" "vstr_rep v' (fst a, take p (snd a) @ drop (p + n) (snd a))"
    using cut_out_rep [OF assms(1), of p n] assms(2) by auto
  then show ?thesis using CutOut by (simp add: settle_def)
next
  case (Hint n)
  then have "if room a n then \<exists>v'. vstr_ensure_extra v n = Inr v' \<and> vstr_rep v' (fst a, snd a) else vstr_ensure_extra v n = Inl RuntimeError"
    using ensure_rep [OF assms(1), of n] assms(3) by (auto split: if_splits)
  then show ?thesis using settle_add [OF assms(1)] Hint by (simp add: vstr_hint_size_def)
next
  case NullTerminate
  have "if room a 1 then \<exists>v'. vstr_null_terminated_str v = Inr v' \<and> vstr_rep v' (fst a, snd a) else vstr_null_terminated_str v = Inl RuntimeError"
    using null_rep [OF assms(1)] assms(3) by (auto split: if_splits)
  then show ?thesis using settle_add [OF assms(1)] NullTerminate by simp
qed

interpretation vstrs: bounded_simulation vstr_rep vstr_exec bytes_exec vstr_cmd_ok "\<lambda>a. length (snd a)" vstr_cmd_grow "2 ^ 30 - 1"
proof unfold_locales
  fix a c
  show "length (snd (snd (bytes_exec a c))) \<le> length (snd a) + vstr_cmd_grow c" by (cases c) (auto simp: add_room_def)
qed (rule vstr_exec_rep, assumption, assumption, assumption)

text \<open>
  C16: Any sequence of operations on a string buffer acts as on a sequence of bytes, inside the buffer: adding bytes, strings and
  characters, which are stored in UTF-8, inserting, cutting at the front, in the middle and at the end, reserving
  memory and terminating. A buffer that owns its memory never fails; one with a fixed array raises \<^verbatim>\<open>RuntimeError\<close> exactly
  when the bytes do not fit, and is unchanged then. After terminating, the byte behind the contents is null.
\<close>

theorem vstr_refines_bytes:
  assumes "vstr_rep v a" "\<forall>c \<in> set cs. vstr_cmd_ok c" "length (snd a) + sum_list (map vstr_cmd_grow cs) < 2 ^ 30 - 1"
  shows "fst (run_cmds vstr_exec v cs) = fst (run_cmds bytes_exec a cs) \<and> vstr_rep (snd (run_cmds vstr_exec v cs)) (snd (run_cmds bytes_exec a cs)) \<and>
    (room a 1 \<longrightarrow> (\<exists>v'. vstr_null_terminated_str v = Inr v' \<and> vstr_rep v' a \<and> vstr_buf v' ! length (snd a) = Some 0)) \<and>
    (0 < n \<and> n < 2 ^ 31 \<longrightarrow> vstr_rep (vstr_init n) (None, []) \<and> (length buf = n \<longrightarrow> vstr_rep (vstr_init_fixed_buf n buf) (Some n, [])))"
proof -
  have l: "length (snd a) < 2 ^ 30" using assms(3) by simp
  have "\<exists>v'. vstr_null_terminated_str v = Inr v' \<and> vstr_rep v' a \<and> vstr_buf v' ! length (snd a) = Some 0" if r: "room a 1"
  proof -
    obtain v' where "vstr_null_terminated_str v = Inr v'" "vstr_rep v' a" "vstr_buf v' ! vstr_len v' = Some 0" using null_rep [OF assms(1) l] r by auto
    then show ?thesis by (auto simp: vstr_rep_def)
  qed
  moreover have "0 < n \<and> n < 2 ^ 31 \<longrightarrow> vstr_rep (vstr_init n) (None, []) \<and> (length buf = n \<longrightarrow> vstr_rep (vstr_init_fixed_buf n buf) (Some n, []))"
    by (simp add: vstr_init_def vstr_init_fixed_buf_def vstr_rep_def)
  ultimately show ?thesis using vstrs.run_rep [OF assms] by blast
qed

theorem vstr_refines_bytes_witness:
  "run_cmds bytes_exec (Some 4, []) [AddChar 0x20AC, AddByte 65, AddByte 66, CutHead 3] = ([None, None, Some RuntimeError, None], Some 4, [65]) \<and>
   fst (run_cmds vstr_exec (vstr_init_fixed_buf 4 (replicate 4 None)) [AddChar 0x20AC, AddByte 65, AddByte 66, CutHead 3]) =
     [None, None, Some RuntimeError, None]"
proof -
  let ?cs = "[AddChar 0x20AC, AddByte 65, AddByte 66, CutHead 3]"
  have e: "run_cmds bytes_exec (Some 4, []) ?cs = ([None, None, Some RuntimeError, None], Some 4, [65])"
    by (simp add: add_room_def room_def utf8_bytes_def)
  have "vstr_rep (vstr_init_fixed_buf 4 (replicate 4 None)) (Some 4, [])" by (simp add: vstr_init_fixed_buf_def vstr_rep_def)
  moreover have "\<forall>c \<in> set ?cs. vstr_cmd_ok c" by simp
  moreover have "length (snd (Some 4 :: nat option, [] :: nat list)) + sum_list (map vstr_cmd_grow ?cs) < 2 ^ 30 - 1" by (simp add: utf8_bytes_def)
  ultimately show ?thesis using vstr_refines_bytes [of "vstr_init_fixed_buf 4 (replicate 4 None)" "(Some 4, [])" ?cs] e by simp
qed

text \<open>A character beyond a byte is cut to its low byte on insertion, and the contents are no longer valid UTF-8.\<close>

lemma vstr_ins_char_truncates: "map_sum id (\<lambda>v. take 1 (vstr_buf v)) (vstr_ins_char (vstr_init 4) 0 0x3A9) = Inr [Some 0xA9]"
  by (simp add: vstr_ins_char_def vstr_ins_blank_bytes_def vstr_ensure_extra_def vstr_init_def put_bytes_def get_bytes_def to_byte_def u32_def Let_def)

end
