(* ===== verification/Gc.thy ===== *)
theory Gc
  imports Prelude
begin

text \<open>
  The garbage-collected heap of \<^verbatim>\<open>py/gc.c\<close>: layout, marking with a bounded stack, sweeping,
  allocation, release and reallocation. The allocation table (two bits per block) and the
  finaliser table (one bit per block) lie one after the other in memory, so they are one list of
  two-bit fields: a read of the kind of a block past the end of the heap reads finaliser bits,
  as in the code; what lies behind the two tables is read as free. The pool is a list of 32-bit words, four per block.

  The heap is that of the 32-bit port: 16-byte blocks, finalisers, conservative clearing, the
  allocation threshold, and a mark stack of 64 entries; its 16-bit entries hold every block
  number, as a heap in the 264 KB of the chip has fewer than 16900 blocks. One thread holds the GC
  mutex throughout. A finaliser runs with the heap locked; the model records for which blocks one
  is looked up.
\<close>

section \<open>State\<close>

abbreviation (input) AT_FREE :: nat where "AT_FREE \<equiv> 0"
abbreviation (input) AT_HEAD :: nat where "AT_HEAD \<equiv> 1"
abbreviation (input) AT_TAIL :: nat where "AT_TAIL \<equiv> 2"
abbreviation (input) AT_MARK :: nat where "AT_MARK \<equiv> 3"

record gc_state =
  tbl :: "nat list"                    \<comment> \<open>\<^verbatim>\<open>gc_alloc_table\<close> and \<^verbatim>\<open>gc_finaliser_table\<close>\<close>
  gc_alloc_table_byte_len :: nat
  gc_pool_start :: nat
  pool :: "nat list"
  gc_last_free_atb_index :: nat
  gc_lock_depth :: nat
  gc_auto_collect_enabled :: bool
  gc_stack_overflow :: bool
  gc_alloc_threshold :: nat
  gc_alloc_amount :: nat

definition BYTES_PER_BLOCK :: nat where "BYTES_PER_BLOCK = 16"
definition WORDS_PER_BLOCK :: nat where "WORDS_PER_BLOCK = 4"
definition BLOCKS_PER_ATB :: nat where "BLOCKS_PER_ATB = 4"
definition BLOCKS_PER_FTB :: nat where "BLOCKS_PER_FTB = 8"
definition MICROPY_ALLOC_GC_STACK_SIZE :: nat where "MICROPY_ALLOC_GC_STACK_SIZE = 64"

lemmas gc_consts = BYTES_PER_BLOCK_def WORDS_PER_BLOCK_def BLOCKS_PER_ATB_def BLOCKS_PER_FTB_def

text \<open>\<^verbatim>\<open>gc_alloc_table_byte_len * BLOCKS_PER_ATB\<close>\<close>

definition n_blk :: "gc_state \<Rightarrow> nat" where
  "n_blk s = gc_alloc_table_byte_len s * BLOCKS_PER_ATB"

definition gc_pool_end :: "gc_state \<Rightarrow> nat" where
  "gc_pool_end s = gc_pool_start s + n_blk s * BYTES_PER_BLOCK"

definition ATB_GET_KIND :: "gc_state \<Rightarrow> nat \<Rightarrow> nat" where
  "ATB_GET_KIND s block = (if block < length (tbl s) then tbl s ! block else AT_FREE)"

definition ATB_ANY_TO_FREE :: "nat \<Rightarrow> gc_state \<Rightarrow> gc_state" where
  "ATB_ANY_TO_FREE block s = s\<lparr>tbl := (tbl s)[block := 0]\<rparr>"

definition ATB_FREE_TO_HEAD :: "nat \<Rightarrow> gc_state \<Rightarrow> gc_state" where
  "ATB_FREE_TO_HEAD block s = s\<lparr>tbl := (tbl s)[block := tbl s ! block OR AT_HEAD]\<rparr>"

definition ATB_FREE_TO_TAIL :: "nat \<Rightarrow> gc_state \<Rightarrow> gc_state" where
  "ATB_FREE_TO_TAIL block s = s\<lparr>tbl := (tbl s)[block := tbl s ! block OR AT_TAIL]\<rparr>"

definition ATB_HEAD_TO_MARK :: "nat \<Rightarrow> gc_state \<Rightarrow> gc_state" where
  "ATB_HEAD_TO_MARK block s = s\<lparr>tbl := (tbl s)[block := tbl s ! block OR AT_MARK]\<rparr>"

text \<open>The mask \<^verbatim>\<open>~(AT_TAIL << shift)\<close> keeps the low bit of the field.\<close>

definition ATB_MARK_TO_HEAD :: "nat \<Rightarrow> gc_state \<Rightarrow> gc_state" where
  "ATB_MARK_TO_HEAD block s = s\<lparr>tbl := (tbl s)[block := tbl s ! block AND 1]\<rparr>"

text \<open>The finaliser bit of a block is a bit of the field \<open>block div 2\<close> behind the allocation table.\<close>

definition ftb_field :: "gc_state \<Rightarrow> nat \<Rightarrow> nat" where
  "ftb_field s block = n_blk s + block div 2"

definition FTB_GET :: "gc_state \<Rightarrow> nat \<Rightarrow> bool" where
  "FTB_GET s block \<longleftrightarrow> bit (tbl s ! ftb_field s block) (block mod 2)"

definition FTB_SET :: "nat \<Rightarrow> gc_state \<Rightarrow> gc_state" where
  "FTB_SET block s = s\<lparr>tbl := (tbl s)[ftb_field s block := set_bit (block mod 2) (tbl s ! ftb_field s block)]\<rparr>"

definition FTB_CLEAR :: "nat \<Rightarrow> gc_state \<Rightarrow> gc_state" where
  "FTB_CLEAR block s = s\<lparr>tbl := (tbl s)[ftb_field s block := unset_bit (block mod 2) (tbl s ! ftb_field s block)]\<rparr>"

definition VERIFY_PTR :: "gc_state \<Rightarrow> nat \<Rightarrow> bool" where
  "VERIFY_PTR s ptr \<longleftrightarrow> ptr mod BYTES_PER_BLOCK = 0 \<and> ptr \<ge> gc_pool_start s \<and> ptr < gc_pool_end s"

definition BLOCK_FROM_PTR :: "gc_state \<Rightarrow> nat \<Rightarrow> nat" where
  "BLOCK_FROM_PTR s ptr = (ptr - gc_pool_start s) div BYTES_PER_BLOCK"

definition PTR_FROM_BLOCK :: "gc_state \<Rightarrow> nat \<Rightarrow> nat" where
  "PTR_FROM_BLOCK s block = block * BYTES_PER_BLOCK + gc_pool_start s"

text \<open>\<^verbatim>\<open>memset\<close> of whole blocks to zero.\<close>

definition clear_blocks :: "nat \<Rightarrow> nat \<Rightarrow> gc_state \<Rightarrow> gc_state" where
  "clear_blocks block n s =
     s\<lparr>pool := take (block * WORDS_PER_BLOCK) (pool s) @ replicate (n * WORDS_PER_BLOCK) 0 @
        drop ((block + n) * WORDS_PER_BLOCK) (pool s)\<rparr>"

section \<open>Layout\<close>

text \<open>
  \<open>fill\<close> is the memory the heap is given, from which the pool keeps its contents. The result is
  \<^const>\<open>None\<close> if the assertion on the layout fails.
\<close>

definition gc_init :: "(nat \<Rightarrow> nat) \<Rightarrow> nat \<Rightarrow> nat \<Rightarrow> gc_state option" where
  "gc_init fill start end0 =
     (let top = end0 - end0 mod BYTES_PER_BLOCK;
          total_byte_len = top - start;
          byte_len = u32 (total_byte_len * 8) div (8 + 8 * BLOCKS_PER_ATB div BLOCKS_PER_FTB + 8 * BLOCKS_PER_ATB * BYTES_PER_BLOCK);
          gc_finaliser_table_start = start + byte_len;
          gc_finaliser_table_byte_len = (byte_len * BLOCKS_PER_ATB + BLOCKS_PER_FTB - 1) div BLOCKS_PER_FTB;
          gc_pool_block_len = byte_len * BLOCKS_PER_ATB;
          pool_start = top - gc_pool_block_len * BYTES_PER_BLOCK
      in if pool_start \<ge> gc_finaliser_table_start + gc_finaliser_table_byte_len
         then Some \<lparr>tbl = replicate (byte_len * 4 + gc_finaliser_table_byte_len * 4) 0,
                    gc_alloc_table_byte_len = byte_len, gc_pool_start = pool_start,
                    pool = map (\<lambda>i. fill (pool_start + 4 * i)) [0..<gc_pool_block_len * WORDS_PER_BLOCK],
                    gc_last_free_atb_index = 0, gc_lock_depth = 0, gc_auto_collect_enabled = True,
                    gc_stack_overflow = False, gc_alloc_threshold = 2 ^ 32 - 1, gc_alloc_amount = 0\<rparr>
         else None)"

definition gc_lock :: "gc_state \<Rightarrow> gc_state" where
  "gc_lock s = s\<lparr>gc_lock_depth := u16 (gc_lock_depth s + 1)\<rparr>"

definition gc_unlock :: "gc_state \<Rightarrow> gc_state" where
  "gc_unlock s = s\<lparr>gc_lock_depth := u16 (gc_lock_depth s + (2 ^ 16 - 1))\<rparr>"

definition gc_is_locked :: "gc_state \<Rightarrow> bool" where
  "gc_is_locked s \<longleftrightarrow> gc_lock_depth s \<noteq> 0"

section \<open>Marking\<close>

text \<open>
  The loop \<^verbatim>\<open>do { n_blocks += 1; } while (ATB_GET_KIND(block + n_blocks) == AT_TAIL)\<close>. It reads on past the
  last block; the model ends it at the end of the two tables.
\<close>

definition chain_len :: "gc_state \<Rightarrow> nat \<Rightarrow> nat" where
  "chain_len s block = 1 + length (takeWhile (\<lambda>k. k = AT_TAIL) (drop (block + 1) (tbl s)))"

text \<open>The words of a chain of blocks, which the collector takes for pointers.\<close>

definition block_words :: "gc_state \<Rightarrow> nat \<Rightarrow> nat list" where
  "block_words s block =
     take (chain_len s block * WORDS_PER_BLOCK) (drop (block * WORDS_PER_BLOCK) (pool s))"

definition mark_word :: "nat \<Rightarrow> gc_state \<times> nat list \<Rightarrow> gc_state \<times> nat list" where
  "mark_word ptr ss =
     (let (s, stack) = ss
      in if VERIFY_PTR s ptr
         then let childblock = BLOCK_FROM_PTR s ptr
              in if ATB_GET_KIND s childblock = AT_HEAD
                 then let s = ATB_HEAD_TO_MARK childblock s
                      in if length stack < MICROPY_ALLOC_GC_STACK_SIZE then (s, childblock # stack)
                         else (s\<lparr>gc_stack_overflow := True\<rparr>, stack)
                 else (s, stack)
         else (s, stack))"

text \<open>The unmarked heads, a bound on the work that is left.\<close>

definition heads :: "gc_state \<Rightarrow> nat" where
  "heads s = length (filter (\<lambda>k. k = AT_HEAD) (tbl s))"

lemma heads_mark:
  assumes "ATB_GET_KIND s b = AT_HEAD"
  shows "heads (ATB_HEAD_TO_MARK b s) + 1 = heads s"
proof -
  have b: "b < length (tbl s)" "tbl s ! b = AT_HEAD" using assms by (auto simp: ATB_GET_KIND_def split: if_splits)
  define xs ys where "xs = take b (tbl s)" and "ys = drop (Suc b) (tbl s)"
  have "tbl s = xs @ AT_HEAD # ys" unfolding xs_def ys_def using id_take_nth_drop [OF b(1)] b(2) by simp
  moreover have "tbl (ATB_HEAD_TO_MARK b s) = xs @ AT_MARK # ys"
    unfolding xs_def ys_def ATB_HEAD_TO_MARK_def using upd_conv_take_nth_drop [OF b(1), of 3] b(2) by simp
  ultimately show ?thesis by (simp add: heads_def)
qed

lemma mark_words_measure:
  "2 * heads (fst (fold mark_word ws ss)) + length (snd (fold mark_word ws ss)) \<le> 2 * heads (fst ss) + length (snd ss)"
proof (induction ws arbitrary: ss)
  case (Cons w ws)
  obtain s stack where ss: "ss = (s, stack)" by fastforce
  have "2 * heads (fst (mark_word w ss)) + length (snd (mark_word w ss)) \<le> 2 * heads s + length stack"
    using heads_mark [of s "BLOCK_FROM_PTR s w"] by (auto simp: mark_word_def ss Let_def heads_def)
  then show ?case using Cons.IH [of "mark_word w ss"] by (simp add: ss)
qed simp

function gc_mark_loop :: "nat \<Rightarrow> nat list \<Rightarrow> gc_state \<Rightarrow> gc_state" where
  "gc_mark_loop block stack s =
     (case fold mark_word (block_words s block) (s, stack) of
        (s, []) \<Rightarrow> s
      | (s, block # stack) \<Rightarrow> gc_mark_loop block stack s)"
  by pat_completeness auto
termination
proof (relation "measure (\<lambda>(block, stack, s). 2 * heads s + length stack)")
  fix block stack s s' st b' st'
  assume "(s', st) = fold mark_word (block_words s block) (s, stack)" "st = b' # st'"
  then show "((b', st', s'), block, stack, s) \<in> measure (\<lambda>(block, stack, s). 2 * heads s + length stack)"
    using mark_words_measure [of "block_words s block" "(s, stack)"] by (cases "fold mark_word (block_words s block) (s, stack)") simp
qed simp

declare gc_mark_loop.simps [simp del]

definition gc_mark_subtree :: "nat \<Rightarrow> gc_state \<Rightarrow> gc_state" where
  "gc_mark_subtree block s = gc_mark_loop block [] s"

text \<open>Marking marks heads only, and the overflow flag goes up only with a newly marked block.\<close>

definition progress :: "gc_state \<Rightarrow> gc_state \<Rightarrow> bool" where
  "progress s s' \<longleftrightarrow> heads s' \<le> heads s \<and> (\<not> gc_stack_overflow s \<longrightarrow> gc_stack_overflow s' \<longrightarrow> heads s' < heads s)"

lemma progress_refl: "progress s s"
  by (simp add: progress_def)

lemma progress_trans: "progress s s' \<Longrightarrow> progress s' s'' \<Longrightarrow> progress s s''"
  by (cases "gc_stack_overflow s'") (auto simp: progress_def)

lemma mark_word_progress: "progress (fst ss) (fst (mark_word w ss))"
  using heads_mark [of "fst ss" "BLOCK_FROM_PTR (fst ss) w"]
  by (auto simp: progress_def mark_word_def Let_def heads_def ATB_HEAD_TO_MARK_def split: prod.splits if_splits)

lemma mark_words_progress: "progress (fst ss) (fst (fold mark_word ws ss))"
proof (induction ws arbitrary: ss)
  case (Cons w ws)
  show ?case using progress_trans [OF mark_word_progress [of ss w] Cons.IH] by simp
qed (simp add: progress_refl)

lemma gc_mark_loop_progress: "progress s (gc_mark_loop block stack s)"
proof (induction block stack s rule: gc_mark_loop.induct)
  case (1 block stack s)
  have "progress s (fst (fold mark_word (block_words s block) (s, stack)))"
    using mark_words_progress [of "(s, stack)"] by simp
  then show ?case using 1
    by (auto simp: gc_mark_loop.simps [of block] intro: progress_trans split: prod.splits list.splits)
qed

text \<open>One pass of \<^verbatim>\<open>gc_deal_with_stack_overflow\<close> over the whole heap, and the loop around it.\<close>

definition overflow_step :: "nat \<Rightarrow> gc_state \<Rightarrow> gc_state" where
  "overflow_step block s = (if ATB_GET_KIND s block = AT_MARK then gc_mark_subtree block s else s)"

definition overflow_pass :: "gc_state \<Rightarrow> gc_state" where
  "overflow_pass s = fold overflow_step [0..<n_blk s] s"

lemma overflow_pass_progress: "progress s (overflow_pass s)"
proof -
  have "progress s (fold overflow_step bs s)" for bs
    by (induction bs arbitrary: s)
      (auto simp: overflow_step_def gc_mark_subtree_def intro: progress_refl progress_trans gc_mark_loop_progress)
  then show ?thesis by (simp add: overflow_pass_def)
qed

function gc_deal_with_stack_overflow :: "gc_state \<Rightarrow> gc_state" where
  "gc_deal_with_stack_overflow s =
     (if gc_stack_overflow s then gc_deal_with_stack_overflow (overflow_pass (s\<lparr>gc_stack_overflow := False\<rparr>)) else s)"
  by pat_completeness auto
termination
proof (relation "measure (\<lambda>s. 2 * heads s + of_bool (gc_stack_overflow s))")
  fix s :: gc_state assume "gc_stack_overflow s"
  then show "(overflow_pass (s\<lparr>gc_stack_overflow := False\<rparr>), s) \<in> measure (\<lambda>s. 2 * heads s + of_bool (gc_stack_overflow s))"
    using overflow_pass_progress [of "s\<lparr>gc_stack_overflow := False\<rparr>"]
    by (cases "gc_stack_overflow (overflow_pass (s\<lparr>gc_stack_overflow := False\<rparr>))") (auto simp: progress_def heads_def)
qed simp

declare gc_deal_with_stack_overflow.simps [simp del]

section \<open>Collection\<close>

text \<open>
  One block of \<^verbatim>\<open>gc_sweep\<close>. The state carries \<^verbatim>\<open>free_tail\<close> and the blocks whose finaliser is looked up, those
  with the finaliser bit and a type.
\<close>

definition sweep_step :: "nat \<Rightarrow> gc_state \<times> bool \<times> nat list \<Rightarrow> gc_state \<times> bool \<times> nat list" where
  "sweep_step block st =
     (let (s, free_tail, finalised) = st; kind = ATB_GET_KIND s block
      in if kind = AT_HEAD
         then let finalised =
                    (if FTB_GET s block \<and> pool s ! (block * WORDS_PER_BLOCK) \<noteq> 0 then finalised @ [block] else finalised);
                  s = (if FTB_GET s block then FTB_CLEAR block s else s)
              in (ATB_ANY_TO_FREE block s, True, finalised)
         else if kind = AT_TAIL
         then (if free_tail then (ATB_ANY_TO_FREE block s, free_tail, finalised) else st)
         else if kind = AT_MARK then (ATB_MARK_TO_HEAD block s, False, finalised)
         else st)"

definition gc_sweep :: "gc_state \<Rightarrow> gc_state \<times> nat list" where
  "gc_sweep s = (case fold sweep_step [0..<n_blk s] (s, False, []) of (s, _, finalised) \<Rightarrow> (s, finalised))"

definition root_step :: "nat \<Rightarrow> gc_state \<Rightarrow> gc_state" where
  "root_step ptr s =
     (if VERIFY_PTR s ptr
      then let block = BLOCK_FROM_PTR s ptr
           in if ATB_GET_KIND s block = AT_HEAD
              then gc_mark_subtree block (ATB_HEAD_TO_MARK block s)
              else s
      else s)"

definition gc_collect_root :: "nat list \<Rightarrow> gc_state \<Rightarrow> gc_state" where
  "gc_collect_root ptrs s = fold root_step ptrs s"

text \<open>\<open>ctx\<close> is the root pointer section of \<^verbatim>\<open>mp_state_ctx\<close>.\<close>

definition gc_collect_start :: "nat list \<Rightarrow> gc_state \<Rightarrow> gc_state" where
  "gc_collect_start ctx s =
     gc_collect_root ctx (s\<lparr>gc_lock_depth := gc_lock_depth s + 1, gc_alloc_amount := 0, gc_stack_overflow := False\<rparr>)"

definition gc_collect_end :: "gc_state \<Rightarrow> gc_state \<times> nat list" where
  "gc_collect_end s =
     (case gc_sweep (gc_deal_with_stack_overflow s) of
        (s, finalised) \<Rightarrow>
          (s\<lparr>gc_last_free_atb_index := 0, gc_lock_depth := gc_lock_depth s - 1\<rparr>, finalised))"

definition gc_sweep_all :: "gc_state \<Rightarrow> gc_state \<times> nat list" where
  "gc_sweep_all s = gc_collect_end (s\<lparr>gc_lock_depth := gc_lock_depth s + 1, gc_stack_overflow := False\<rparr>)"

text \<open>
  The port's \<^verbatim>\<open>gc_collect\<close>: the roots are those of the context and the words of registers and stacks.
\<close>

definition gc_collect :: "nat list \<Rightarrow> nat list \<Rightarrow> gc_state \<Rightarrow> gc_state \<times> nat list" where
  "gc_collect ctx stacks s = gc_collect_end (gc_collect_root stacks (gc_collect_start ctx s))"

text \<open>
  The statistics of \<^verbatim>\<open>gc_info\<close>. One round of its loop counts a block and looks at the kind of the next; the
  state carries \<^verbatim>\<open>len\<close> and \<^verbatim>\<open>len_free\<close>, the lengths of the chain and of the free run so far.
\<close>

record gc_info_t =
  info_total :: nat
  info_used :: nat
  info_free :: nat
  info_max_free :: nat
  info_num_1block :: nat
  info_num_2block :: nat
  info_max_block :: nat

definition info_step :: "gc_state \<Rightarrow> nat \<Rightarrow> gc_info_t \<times> nat \<times> nat \<Rightarrow> gc_info_t \<times> nat \<times> nat" where
  "info_step s block st =
     (let (info, len, len_free) = st; kind = ATB_GET_KIND s block;
          (info, len, len_free) =
            (if kind = AT_FREE then (info\<lparr>info_free := info_free info + 1\<rparr>, 0, len_free + 1)
             else if kind = AT_HEAD then (info\<lparr>info_used := info_used info + 1\<rparr>, 1, len_free)
             else if kind = AT_TAIL then (info\<lparr>info_used := info_used info + 1\<rparr>, len + 1, len_free)
             else (info, len, len_free));
          finish = (block + 1 = n_blk s);
          kind = (if finish then kind else ATB_GET_KIND s (block + 1))
      in if finish \<or> kind = AT_FREE \<or> kind = AT_HEAD
         then let info = (if len = 1 then info\<lparr>info_num_1block := info_num_1block info + 1\<rparr>
                          else if len = 2 then info\<lparr>info_num_2block := info_num_2block info + 1\<rparr> else info);
                  info = (if len > info_max_block info then info\<lparr>info_max_block := len\<rparr> else info)
              in if finish \<or> kind = AT_HEAD
                 then (if len_free > info_max_free info then info\<lparr>info_max_free := len_free\<rparr> else info, len, 0)
                 else (info, len, len_free)
         else (info, len, len_free))"

definition gc_info :: "gc_state \<Rightarrow> gc_info_t" where
  "gc_info s =
     (let info = \<lparr>info_total = gc_pool_end s - gc_pool_start s, info_used = 0, info_free = 0, info_max_free = 0,
                   info_num_1block = 0, info_num_2block = 0, info_max_block = 0\<rparr>;
          (info, _, _) = fold (info_step s) [0..<n_blk s] (info, 0, 0)
      in info\<lparr>info_used := info_used info * BYTES_PER_BLOCK, info_free := info_free info * BYTES_PER_BLOCK\<rparr>)"

section \<open>Allocation\<close>

text \<open>
  The search for \<open>n_blocks\<close> free blocks in a row from block \<open>b\<close>, which the code unrolls by four; the
  result is the last block of the run.
\<close>

function find_free :: "gc_state \<Rightarrow> nat \<Rightarrow> nat \<Rightarrow> nat \<Rightarrow> nat option" where
  "find_free s n_blocks b n_free =
     (if b < n_blk s
      then (if ATB_GET_KIND s b = AT_FREE
            then (if n_free + 1 \<ge> n_blocks then Some b else find_free s n_blocks (b + 1) (n_free + 1))
            else find_free s n_blocks (b + 1) 0)
      else None)"
  by pat_completeness auto
termination by (relation "measure (\<lambda>(s, n_blocks, b, n_free). n_blk s - b)") auto

declare find_free.simps [simp del]

text \<open>
  The label \<^verbatim>\<open>found\<close>. The code computes the first block as \<^verbatim>\<open>i - n_free + 1\<close> in wrapping arithmetic.
\<close>

definition take_blocks :: "nat \<Rightarrow> nat \<Rightarrow> bool \<Rightarrow> gc_state \<Rightarrow> gc_state \<times> nat option" where
  "take_blocks n_blocks end_block has_finaliser s =
     (let start_block = end_block + 1 - n_blocks;
          s = (if n_blocks = 1 then s\<lparr>gc_last_free_atb_index := (end_block + 1) div BLOCKS_PER_ATB\<rparr> else s);
          s = ATB_FREE_TO_HEAD start_block s;
          s = fold ATB_FREE_TO_TAIL [start_block + 1..<end_block + 1] s;
          ret_ptr = gc_pool_start s + start_block * BYTES_PER_BLOCK;
          s = s\<lparr>gc_alloc_amount := u32 (gc_alloc_amount s + n_blocks)\<rparr>;
          s = clear_blocks start_block (end_block - start_block + 1) s;
          s = (if has_finaliser
               then FTB_SET start_block (s\<lparr>pool := (pool s)[start_block * WORDS_PER_BLOCK := 0]\<rparr>) else s)
      in (s, Some ret_ptr))"

text \<open>
  \<open>collect\<close> stands for a call of \<^verbatim>\<open>gc_collect\<close> with the roots of the moment. The search starts over once
  after a collection.
\<close>

definition gc_alloc :: "(gc_state \<Rightarrow> gc_state) \<Rightarrow> nat \<Rightarrow> bool \<Rightarrow> gc_state \<Rightarrow> gc_state \<times> nat option" where
  "gc_alloc collect n_bytes has_finaliser s =
     (let n_blocks = u32 (n_bytes + BYTES_PER_BLOCK - 1) div BYTES_PER_BLOCK
      in if n_blocks = 0 then (s, None)
         else if gc_lock_depth s > 0 then (s, None)
         else
           let collected = \<not> gc_auto_collect_enabled s;
               now = (\<not> collected \<and> gc_alloc_amount s \<ge> gc_alloc_threshold s);
               s = (if now then collect s else s);
               collected = (collected \<or> now)
           in case find_free s n_blocks (gc_last_free_atb_index s * BLOCKS_PER_ATB) 0 of
                Some i \<Rightarrow> take_blocks n_blocks i has_finaliser s
              | None \<Rightarrow>
                  (if collected then (s, None)
                   else let s = collect s
                        in case find_free s n_blocks (gc_last_free_atb_index s * BLOCKS_PER_ATB) 0 of
                             Some i \<Rightarrow> take_blocks n_blocks i has_finaliser s
                           | None \<Rightarrow> (s, None)))"

text \<open>\<^verbatim>\<open>gc_free\<close>, \<^verbatim>\<open>gc_nbytes\<close> and \<^verbatim>\<open>gc_realloc\<close>; \<^const>\<open>None\<close> is a failed assertion.\<close>

definition free_chain :: "nat \<Rightarrow> gc_state \<Rightarrow> gc_state" where
  "free_chain block s = fold ATB_ANY_TO_FREE [block..<block + chain_len s block] s"

definition gc_free :: "nat option \<Rightarrow> gc_state \<Rightarrow> gc_state option" where
  "gc_free ptr s =
     (if gc_lock_depth s > 0 then Some s
      else case ptr of
             None \<Rightarrow> Some s
           | Some p \<Rightarrow>
               (if \<not> VERIFY_PTR s p then None
                else let block = BLOCK_FROM_PTR s p
                     in if ATB_GET_KIND s block \<noteq> AT_HEAD then None
                        else let s = FTB_CLEAR block s;
                                 s = (if block div BLOCKS_PER_ATB < gc_last_free_atb_index s
                                      then s\<lparr>gc_last_free_atb_index := block div BLOCKS_PER_ATB\<rparr> else s)
                             in Some (free_chain block s)))"

definition gc_nbytes :: "nat \<Rightarrow> gc_state \<Rightarrow> nat" where
  "gc_nbytes ptr s =
     (if VERIFY_PTR s ptr
      then let block = BLOCK_FROM_PTR s ptr
           in if ATB_GET_KIND s block = AT_HEAD then chain_len s block * BYTES_PER_BLOCK else 0
      else 0)"

text \<open>
  The loop of \<^verbatim>\<open>gc_realloc\<close> that counts the blocks of the chunk and the free blocks behind it.
\<close>

function realloc_count :: "gc_state \<Rightarrow> nat \<Rightarrow> nat \<Rightarrow> nat \<Rightarrow> nat \<Rightarrow> nat \<times> nat" where
  "realloc_count s new_blocks bl n_blocks n_free =
     (if bl < n_blk s
      then (let block_type = ATB_GET_KIND s bl
            in if block_type = AT_TAIL then realloc_count s new_blocks (bl + 1) (n_blocks + 1) n_free
               else if block_type = AT_FREE
               then (if n_blocks + (n_free + 1) \<ge> new_blocks then (n_blocks, n_free + 1)
                     else realloc_count s new_blocks (bl + 1) n_blocks (n_free + 1))
               else (n_blocks, n_free))
      else (n_blocks, n_free))"
  by pat_completeness auto
termination by (relation "measure (\<lambda>(s, new_blocks, bl, n_blocks, n_free). n_blk s - bl)") auto

declare realloc_count.simps [simp del]

definition copy_blocks :: "nat \<Rightarrow> nat \<Rightarrow> nat \<Rightarrow> gc_state \<Rightarrow> gc_state" where
  "copy_blocks from to n s =
     s\<lparr>pool := take (to * WORDS_PER_BLOCK) (pool s) @
        take (n * WORDS_PER_BLOCK) (drop (from * WORDS_PER_BLOCK) (pool s)) @
        drop ((to + n) * WORDS_PER_BLOCK) (pool s)\<rparr>"

text \<open>What \<^verbatim>\<open>gc_realloc\<close> does once the blocks are counted: keep, shrink, expand in place, or move.\<close>

definition realloc_blocks :: "(gc_state \<Rightarrow> gc_state) \<Rightarrow> nat \<Rightarrow> nat \<Rightarrow> bool \<Rightarrow> nat \<Rightarrow> nat \<Rightarrow> nat \<Rightarrow> nat \<Rightarrow> gc_state \<Rightarrow>
  (gc_state \<times> nat option) option" where
  "realloc_blocks collect ptr_in n_bytes allow_move block new_blocks n_blocks n_free s =
     (if new_blocks = n_blocks then Some (s, Some ptr_in)
      else if new_blocks < n_blocks
      then let s = fold ATB_ANY_TO_FREE [block + new_blocks..<block + n_blocks] s;
               s = (if (block + new_blocks) div BLOCKS_PER_ATB < gc_last_free_atb_index s
                    then s\<lparr>gc_last_free_atb_index := (block + new_blocks) div BLOCKS_PER_ATB\<rparr> else s)
           in Some (s, Some ptr_in)
      else if new_blocks \<le> n_blocks + n_free
      then if \<exists>bl \<in> set [block + n_blocks..<block + new_blocks]. ATB_GET_KIND s bl \<noteq> AT_FREE then None
           else let s = fold ATB_FREE_TO_TAIL [block + n_blocks..<block + new_blocks] s;
                    s = clear_blocks (block + n_blocks) (new_blocks - n_blocks) s
                in Some (s, Some ptr_in)
      else let ftb_state = FTB_GET s block
           in if \<not> allow_move then Some (s, None)
              else case gc_alloc collect n_bytes ftb_state s of
                     (s, None) \<Rightarrow> Some (s, None)
                   | (s, Some ptr_out) \<Rightarrow>
                       (case gc_free (Some ptr_in) (copy_blocks block (BLOCK_FROM_PTR s ptr_out) n_blocks s) of
                          None \<Rightarrow> None
                        | Some s \<Rightarrow> Some (s, Some ptr_out)))"

definition gc_realloc :: "(gc_state \<Rightarrow> gc_state) \<Rightarrow> nat option \<Rightarrow> nat \<Rightarrow> bool \<Rightarrow> gc_state \<Rightarrow>
  (gc_state \<times> nat option) option" where
  "gc_realloc collect ptr_in n_bytes allow_move s =
     (case ptr_in of
        None \<Rightarrow> Some (gc_alloc collect n_bytes False s)
      | Some ptr \<Rightarrow>
          (if n_bytes = 0 then map_option (\<lambda>s. (s, None)) (gc_free ptr_in s)
           else if gc_lock_depth s > 0 then Some (s, None)
           else if \<not> VERIFY_PTR s ptr then None
           else let block = BLOCK_FROM_PTR s ptr
                in if ATB_GET_KIND s block \<noteq> AT_HEAD then None
                   else let new_blocks = u32 (n_bytes + BYTES_PER_BLOCK - 1) div BYTES_PER_BLOCK;
                            (n_blocks, n_free) = realloc_count s new_blocks (block + 1) 1 0
                        in realloc_blocks collect ptr n_bytes allow_move block new_blocks n_blocks n_free s))"

end
