(* ===== verification/Gc_Mark.thy ===== *)
theory Gc_Mark
  imports Gc
begin

text \<open>
  The mark phase computes reachability: after the roots are traced and stack overflows are dealt
  with, the marked blocks are exactly the heads that can be reached from the roots, whatever the
  shape of the object graph and however often the 64-entry stack overflowed.
\<close>

section \<open>Reachability\<close>

definition tables_ok :: "gc_state \<Rightarrow> bool" where
  "tables_ok s \<longleftrightarrow> length (tbl s) = n_blk s + 4 * ((n_blk s + 7) div 8) \<and>
     length (pool s) = n_blk s * WORDS_PER_BLOCK \<and> (\<forall>k \<in> set (tbl s). k < 4)"

definition no_marks :: "gc_state \<Rightarrow> bool" where
  "no_marks s \<longleftrightarrow> (\<forall>b < n_blk s. tbl s ! b \<noteq> AT_MARK)"

text \<open>A word that points to the head of a chain.\<close>

definition points_to :: "gc_state \<Rightarrow> nat \<Rightarrow> nat \<Rightarrow> bool" where
  "points_to s p c \<longleftrightarrow> VERIFY_PTR s p \<and> BLOCK_FROM_PTR s p = c \<and> ATB_GET_KIND s c = AT_HEAD"

definition child :: "gc_state \<Rightarrow> nat \<Rightarrow> nat \<Rightarrow> bool" where
  "child s b c \<longleftrightarrow> (\<exists>p \<in> set (block_words s b). points_to s p c)"

inductive reach :: "gc_state \<Rightarrow> nat list \<Rightarrow> nat \<Rightarrow> bool" for s roots where
  reach_root: "p \<in> set roots \<Longrightarrow> points_to s p b \<Longrightarrow> reach s roots b"
| reach_child: "reach s roots b \<Longrightarrow> child s b c \<Longrightarrow> reach s roots c"

inductive_cases reach_elim: "reach s roots b"

lemma verify_block: "VERIFY_PTR s p \<Longrightarrow> BLOCK_FROM_PTR s p < n_blk s"
  by (auto simp: VERIFY_PTR_def BLOCK_FROM_PTR_def gc_pool_end_def BYTES_PER_BLOCK_def less_mult_imp_div_less)

lemma points_to_block: "points_to s p c \<Longrightarrow> c < n_blk s"
  using verify_block by (auto simp: points_to_def)

section \<open>States during marking\<close>

definition frame :: "gc_state \<Rightarrow> gc_state" where
  "frame s = s\<lparr>tbl := [], gc_stack_overflow := False\<rparr>"

definition marking :: "gc_state \<Rightarrow> gc_state \<Rightarrow> bool" where
  "marking s0 s \<longleftrightarrow> frame s = frame s0 \<and> length (tbl s) = length (tbl s0) \<and> n_blk s0 \<le> length (tbl s0) \<and>
     (\<forall>b < length (tbl s0). tbl s ! b = tbl s0 ! b \<or> (b < n_blk s0 \<and> tbl s0 ! b = AT_HEAD \<and> tbl s ! b = AT_MARK))"

definition marked :: "gc_state \<Rightarrow> gc_state \<Rightarrow> nat set" where
  "marked s0 s = {b. b < n_blk s0 \<and> tbl s0 ! b = AT_HEAD \<and> tbl s ! b = AT_MARK}"

text \<open>Closed under children, apart from the blocks that are still to be scanned.\<close>

definition child_closed :: "gc_state \<Rightarrow> nat set \<Rightarrow> bool" where
  "child_closed s0 R \<longleftrightarrow> (\<forall>b \<in> R. \<forall>c. child s0 b c \<longrightarrow> c \<in> R)"

definition closed_ex :: "gc_state \<Rightarrow> gc_state \<Rightarrow> nat set \<Rightarrow> bool" where
  "closed_ex s0 s P \<longleftrightarrow> gc_stack_overflow s \<or> (\<forall>b \<in> marked s0 s - P. \<forall>c. child s0 b c \<longrightarrow> c \<in> marked s0 s)"

lemma frame_simps [simp]:
  "frame (s\<lparr>tbl := t\<rparr>) = frame s" "frame (s\<lparr>gc_stack_overflow := v\<rparr>) = frame s"
  by (simp_all add: frame_def)

lemma marking_fields:
  assumes "marking s0 s"
  shows "n_blk s = n_blk s0" "VERIFY_PTR s = VERIFY_PTR s0" "BLOCK_FROM_PTR s = BLOCK_FROM_PTR s0" "pool s = pool s0"
proof -
  have f: "frame s = frame s0" using assms by (simp add: marking_def)
  have e: "gc_alloc_table_byte_len s = gc_alloc_table_byte_len s0" "gc_pool_start s = gc_pool_start s0"
    using arg_cong [OF f, of gc_alloc_table_byte_len] arg_cong [OF f, of gc_pool_start] by (simp_all add: frame_def)
  show "pool s = pool s0" using arg_cong [OF f, of pool] by (simp add: frame_def)
  show "n_blk s = n_blk s0" "VERIFY_PTR s = VERIFY_PTR s0" "BLOCK_FROM_PTR s = BLOCK_FROM_PTR s0"
    by (simp_all add: fun_eq_iff n_blk_def VERIFY_PTR_def BLOCK_FROM_PTR_def gc_pool_end_def e)
qed

lemma marking_tbl:
  assumes "marking s0 s" "b < n_blk s0"
  shows "b < length (tbl s)" "b < length (tbl s0)"
    "tbl s ! b = tbl s0 ! b \<or> (tbl s0 ! b = AT_HEAD \<and> tbl s ! b = AT_MARK)"
proof -
  show l: "b < length (tbl s)" "b < length (tbl s0)" using assms by (simp_all add: marking_def)
  show "tbl s ! b = tbl s0 ! b \<or> (tbl s0 ! b = AT_HEAD \<and> tbl s ! b = AT_MARK)"
    using assms(1) l(2) unfolding marking_def by blast
qed

lemma marking_words:
  assumes "marking s0 s"
  shows "block_words s b = block_words s0 b"
proof -
  have "map (\<lambda>k. k = AT_TAIL) (tbl s) = map (\<lambda>k. k = AT_TAIL) (tbl s0)"
    using assms by (auto simp: marking_def intro!: nth_equalityI)
  then have "map (\<lambda>k. k = AT_TAIL) (drop (b + 1) (tbl s)) = map (\<lambda>k. k = AT_TAIL) (drop (b + 1) (tbl s0))"
    by (metis drop_map)
  moreover have "length (takeWhile P xs) = length (takeWhile id (map P xs))" for P :: "nat \<Rightarrow> bool" and xs
    by (simp add: takeWhile_map comp_def)
  ultimately have "chain_len s b = chain_len s0 b" by (metis chain_len_def)
  then show ?thesis using marking_fields [OF assms] by (simp add: block_words_def)
qed

lemma marking_kind:
  assumes "marking s0 s" "c < n_blk s0" "ATB_GET_KIND s0 c = AT_HEAD"
  shows "c \<in> marked s0 s \<longleftrightarrow> ATB_GET_KIND s c \<noteq> AT_HEAD"
  using assms(2,3) marking_tbl [OF assms(1,2)] by (auto simp: marked_def ATB_GET_KIND_def)

lemma marking_head:
  assumes "marking s0 s" "c < n_blk s0" "ATB_GET_KIND s c = AT_HEAD"
  shows "ATB_GET_KIND s0 c = AT_HEAD" "c \<notin> marked s0 s"
  using assms(2,3) marking_tbl [OF assms(1,2)] by (auto simp: marked_def ATB_GET_KIND_def)

lemma marking_step:
  assumes m: "marking s0 s" and c: "c < n_blk s0" "ATB_GET_KIND s c = AT_HEAD"
  shows "marking s0 (ATB_HEAD_TO_MARK c s)" "marked s0 (ATB_HEAD_TO_MARK c s) = insert c (marked s0 s)"
proof -
  have k: "tbl s ! c = AT_HEAD" "c < length (tbl s)" using c(2) by (auto simp: ATB_GET_KIND_def split: if_splits)
  have k0: "tbl s0 ! c = AT_HEAD" using marking_tbl [OF m c(1)] k by auto
  have t: "ATB_HEAD_TO_MARK c s = s\<lparr>tbl := (tbl s)[c := 3]\<rparr>" by (simp add: ATB_HEAD_TO_MARK_def k)
  show "marking s0 (ATB_HEAD_TO_MARK c s)" using m c k0 k unfolding t by (auto simp: marking_def nth_list_update)
  show "marked s0 (ATB_HEAD_TO_MARK c s) = insert c (marked s0 s)"
    using k k0 c by (auto simp: t marked_def nth_list_update)
qed

lemma marking_refl: "n_blk s0 \<le> length (tbl s0) \<Longrightarrow> marking s0 s0"
  by (simp add: marking_def)

lemma marked_overflow [simp]: "marked s0 (s\<lparr>gc_stack_overflow := v\<rparr>) = marked s0 s"
  "marking s0 (s\<lparr>gc_stack_overflow := v\<rparr>) = marking s0 s"
  by (simp_all add: marked_def marking_def)

text \<open>Scanning one word: a pointer to a head marks it, and it goes on the stack or the flag goes up.\<close>

lemma mark_word_cases:
  assumes m: "marking s0 s"
  obtains (skip) "mark_word w (s, stack) = (s, stack)" "\<And>c. points_to s0 w c \<Longrightarrow> c \<in> marked s0 s"
  | (push) c s' where "points_to s0 w c" "mark_word w (s, stack) = (s', c # stack)" "marking s0 s'"
      "marked s0 s' = insert c (marked s0 s)" "gc_stack_overflow s' = gc_stack_overflow s"
  | (drop) c s' where "points_to s0 w c" "mark_word w (s, stack) = (s', stack)" "marking s0 s'"
      "marked s0 s' = insert c (marked s0 s)" "gc_stack_overflow s'"
proof -
  let ?c = "BLOCK_FROM_PTR s w"
  note f = marking_fields [OF m]
  show thesis
  proof (cases "VERIFY_PTR s w \<and> ATB_GET_KIND s ?c = AT_HEAD")
    case True
    then have c: "?c < n_blk s0" using verify_block [of s w] f by simp
    have pt: "points_to s0 w ?c" using marking_head [OF m c] True f by (simp add: points_to_def)
    note st = marking_step [OF m c conjunct2 [OF True]]
    show thesis
    proof (cases "length stack < MICROPY_ALLOC_GC_STACK_SIZE")
      case len: True
      then show thesis using True st pt
        by (intro push [of ?c "ATB_HEAD_TO_MARK ?c s"]) (simp_all add: mark_word_def Let_def ATB_HEAD_TO_MARK_def)
    next
      case False
      then show thesis using True st pt
        by (intro drop [of ?c "(ATB_HEAD_TO_MARK ?c s)\<lparr>gc_stack_overflow := True\<rparr>"]) (simp_all add: mark_word_def Let_def)
    qed
  next
    case False
    then have "mark_word w (s, stack) = (s, stack)" by (auto simp: mark_word_def Let_def)
    moreover have "c \<in> marked s0 s" if "points_to s0 w c" for c
      using that False f marking_kind [OF m points_to_block [OF that]] by (auto simp: points_to_def)
    ultimately show thesis by (rule skip)
  qed
qed

text \<open>
  The state of a scan of block \<open>blk\<close> with further blocks \<open>P\<close> still to be scanned, inside a set \<open>R\<close> of
  reachable blocks.
\<close>

definition scan_inv :: "gc_state \<Rightarrow> nat set \<Rightarrow> nat set \<Rightarrow> nat \<Rightarrow> gc_state \<times> nat list \<Rightarrow> bool" where
  "scan_inv s0 R P blk ss \<longleftrightarrow> marking s0 (fst ss) \<and> set (snd ss) \<subseteq> marked s0 (fst ss) \<and> marked s0 (fst ss) \<subseteq> R \<and>
     closed_ex s0 (fst ss) (insert blk (set (snd ss) \<union> P))"

lemma mark_word_scan:
  assumes inv: "scan_inv s0 R P blk ss" and R: "\<forall>c. points_to s0 w c \<longrightarrow> c \<in> R"
  shows "scan_inv s0 R P blk (mark_word w ss)" "marked s0 (fst ss) \<subseteq> marked s0 (fst (mark_word w ss))"
    "points_to s0 w c \<Longrightarrow> c \<in> marked s0 (fst (mark_word w ss))"
proof -
  obtain s stack where ss: "ss = (s, stack)" by fastforce
  have i: "marking s0 s" "set stack \<subseteq> marked s0 s" "marked s0 s \<subseteq> R" "closed_ex s0 s (insert blk (set stack \<union> P))"
    using inv by (simp_all add: scan_inv_def ss)
  have "scan_inv s0 R P blk (mark_word w ss) \<and> marked s0 (fst ss) \<subseteq> marked s0 (fst (mark_word w ss)) \<and>
      (\<forall>c. points_to s0 w c \<longrightarrow> c \<in> marked s0 (fst (mark_word w ss)))"
  proof (rule mark_word_cases [OF i(1), of w stack])
    assume "mark_word w (s, stack) = (s, stack)" "\<And>c. points_to s0 w c \<Longrightarrow> c \<in> marked s0 s"
    then show ?thesis using inv by (simp add: ss)
  next
    fix d s'
    assume p: "points_to s0 w d" "mark_word w (s, stack) = (s', d # stack)" "marking s0 s'"
      "marked s0 s' = insert d (marked s0 s)" "gc_stack_overflow s' = gc_stack_overflow s"
    have "closed_ex s0 s' (insert blk (set (d # stack) \<union> P))" using i(4) p(4,5) by (auto simp: closed_ex_def)
    moreover have "c = d" if "points_to s0 w c" for c using that p(1) by (simp add: points_to_def)
    moreover have "set (d # stack) \<subseteq> marked s0 s'" "marked s0 s' \<subseteq> R" using i(2,3) p(4) R p(1) by auto
    ultimately show ?thesis using p(3,4) unfolding ss p(2) scan_inv_def fst_conv snd_conv by blast
  next
    fix d s'
    assume p: "points_to s0 w d" "mark_word w (s, stack) = (s', stack)" "marking s0 s'"
      "marked s0 s' = insert d (marked s0 s)" "gc_stack_overflow s'"
    moreover have "c = d" if "points_to s0 w c" for c using that p(1) by (simp add: points_to_def)
    moreover have "set stack \<subseteq> marked s0 s'" "marked s0 s' \<subseteq> R" using i(2,3) p(4) R p(1) by auto
    ultimately show ?thesis unfolding ss p(2) scan_inv_def fst_conv snd_conv closed_ex_def by blast
  qed
  then show "scan_inv s0 R P blk (mark_word w ss)" "marked s0 (fst ss) \<subseteq> marked s0 (fst (mark_word w ss))"
    "points_to s0 w c \<Longrightarrow> c \<in> marked s0 (fst (mark_word w ss))" by blast+
qed

lemma mark_words_scan:
  assumes "scan_inv s0 R P blk ss" "\<forall>w \<in> set ws. \<forall>c. points_to s0 w c \<longrightarrow> c \<in> R"
  shows "scan_inv s0 R P blk (fold mark_word ws ss) \<and> marked s0 (fst ss) \<subseteq> marked s0 (fst (fold mark_word ws ss)) \<and>
    (\<forall>w \<in> set ws. \<forall>c. points_to s0 w c \<longrightarrow> c \<in> marked s0 (fst (fold mark_word ws ss)))"
  using assms
proof (induction ws arbitrary: ss)
  case (Cons w ws)
  have R: "\<forall>c. points_to s0 w c \<longrightarrow> c \<in> R" using Cons.prems(2) by simp
  note w = mark_word_scan [OF Cons.prems(1) R]
  have "scan_inv s0 R P blk (fold mark_word ws (mark_word w ss)) \<and>
      marked s0 (fst (mark_word w ss)) \<subseteq> marked s0 (fst (fold mark_word ws (mark_word w ss))) \<and>
      (\<forall>v \<in> set ws. \<forall>c. points_to s0 v c \<longrightarrow> c \<in> marked s0 (fst (fold mark_word ws (mark_word w ss))))"
    by (rule Cons.IH [OF w(1)]) (use Cons.prems(2) in auto)
  then show ?case using w(2,3) by auto
qed simp

lemma gc_mark_loop_correct:
  assumes "scan_inv s0 R P block (s, stack)" "block \<in> R" "child_closed s0 R"
  shows "marking s0 (gc_mark_loop block stack s) \<and> marked s0 s \<subseteq> marked s0 (gc_mark_loop block stack s) \<and>
    marked s0 (gc_mark_loop block stack s) \<subseteq> R \<and> closed_ex s0 (gc_mark_loop block stack s) P"
  using assms(1,2)
proof (induction block stack s rule: gc_mark_loop.induct)
  case (1 block stack s)
  have m: "marking s0 s" using "1.prems"(1) by (simp add: scan_inv_def)
  obtain s' st where f: "fold mark_word (block_words s block) (s, stack) = (s', st)" by fastforce
  have "\<forall>w \<in> set (block_words s block). \<forall>c. points_to s0 w c \<longrightarrow> c \<in> R"
    using assms(3) "1.prems"(2) marking_words [OF m] by (auto simp: child_closed_def child_def)
  from mark_words_scan [of s0 R P block "(s, stack)" "block_words s block", OF "1.prems"(1) this] f
  have sc: "scan_inv s0 R P block (s', st)" "marked s0 s \<subseteq> marked s0 s'"
    "\<forall>w \<in> set (block_words s block). \<forall>c. points_to s0 w c \<longrightarrow> c \<in> marked s0 s'" by auto
  have "\<forall>c. child s0 block c \<longrightarrow> c \<in> marked s0 s'" using sc(3) marking_words [OF m] by (auto simp: child_def)
  then have cl: "closed_ex s0 s' (set st \<union> P)" using sc(1) unfolding scan_inv_def closed_ex_def fst_conv snd_conv by blast
  show ?case
  proof (cases st)
    case Nil
    then show ?thesis using f sc cl by (simp add: gc_mark_loop.simps [of block stack s] scan_inv_def)
  next
    case (Cons b st')
    have "scan_inv s0 R P b (s', st')" using sc(1) cl Cons by (simp add: scan_inv_def)
    moreover have "b \<in> R" using sc(1) Cons by (auto simp: scan_inv_def)
    ultimately show ?thesis using "1.IH" [OF f [symmetric] Cons] sc(2) f Cons
      by (auto simp: gc_mark_loop.simps [of block stack s])
  qed
qed

section \<open>Roots and overflows\<close>

text \<open>A state between two traces: nothing is left to scan unless the stack overflowed.\<close>

definition traced :: "gc_state \<Rightarrow> nat set \<Rightarrow> gc_state \<Rightarrow> bool" where
  "traced s0 R s \<longleftrightarrow> marking s0 s \<and> marked s0 s \<subseteq> R \<and> closed_ex s0 s {}"

lemma subtree_correct:
  assumes "marking s0 s" "marked s0 s \<subseteq> R" "closed_ex s0 s (insert b P)" "b \<in> R"
    and "child_closed s0 R"
  shows "marking s0 (gc_mark_subtree b s)" "marked s0 s \<subseteq> marked s0 (gc_mark_subtree b s)"
    "marked s0 (gc_mark_subtree b s) \<subseteq> R" "closed_ex s0 (gc_mark_subtree b s) P"
proof -
  have "scan_inv s0 R P b (s, [])" using assms(1-3) by (simp add: scan_inv_def)
  from gc_mark_loop_correct [OF this assms(4,5)]
  show "marking s0 (gc_mark_subtree b s)" "marked s0 s \<subseteq> marked s0 (gc_mark_subtree b s)"
    "marked s0 (gc_mark_subtree b s) \<subseteq> R" "closed_ex s0 (gc_mark_subtree b s) P" by (simp_all add: gc_mark_subtree_def)
qed

lemma root_step_correct:
  assumes tr: "traced s0 R s" and R: "\<forall>c. points_to s0 p c \<longrightarrow> c \<in> R" "child_closed s0 R"
  shows "traced s0 R (root_step p s)" "marked s0 s \<subseteq> marked s0 (root_step p s)"
    "points_to s0 p c \<Longrightarrow> c \<in> marked s0 (root_step p s)"
proof -
  have m: "marking s0 s" "marked s0 s \<subseteq> R" "closed_ex s0 s {}" using tr by (simp_all add: traced_def)
  note f = marking_fields [OF m(1)]
  let ?b = "BLOCK_FROM_PTR s p"
  have "traced s0 R (root_step p s) \<and> marked s0 s \<subseteq> marked s0 (root_step p s) \<and>
      (\<forall>c. points_to s0 p c \<longrightarrow> c \<in> marked s0 (root_step p s))"
  proof (cases "VERIFY_PTR s p \<and> ATB_GET_KIND s ?b = AT_HEAD")
    case True
    have b: "?b < n_blk s0" using verify_block [of s p] True f by simp
    have pt: "points_to s0 p ?b" using marking_head [OF m(1) b] True f by (simp add: points_to_def)
    have uniq: "c = ?b" if "points_to s0 p c" for c using that pt by (simp add: points_to_def)
    let ?s = "ATB_HEAD_TO_MARK ?b s"
    note st = marking_step [OF m(1) b conjunct2 [OF True]]
    have bR: "?b \<in> R" using R(1) pt by blast
    have "gc_stack_overflow ?s = gc_stack_overflow s" by (simp add: ATB_HEAD_TO_MARK_def)
    then have "closed_ex s0 ?s (insert ?b {})" using m(3) st(2) by (auto simp: closed_ex_def)
    moreover have "marked s0 ?s \<subseteq> R" using st(2) m(2) bR by simp
    ultimately have "marking s0 (gc_mark_subtree ?b ?s)" "marked s0 ?s \<subseteq> marked s0 (gc_mark_subtree ?b ?s)"
      "marked s0 (gc_mark_subtree ?b ?s) \<subseteq> R" "closed_ex s0 (gc_mark_subtree ?b ?s) {}"
      using subtree_correct [OF st(1) _ _ bR R(2)] by blast+
    moreover have "root_step p s = gc_mark_subtree ?b ?s" using True by (simp add: root_step_def Let_def)
    ultimately show ?thesis using st(2) uniq by (auto simp: traced_def)
  next
    case False
    then have "root_step p s = s" by (auto simp: root_step_def Let_def)
    moreover have "c \<in> marked s0 s" if "points_to s0 p c" for c
      using that False f marking_kind [OF m(1) points_to_block [OF that]] by (auto simp: points_to_def)
    ultimately show ?thesis using tr by auto
  qed
  then show "traced s0 R (root_step p s)" "marked s0 s \<subseteq> marked s0 (root_step p s)"
    "points_to s0 p c \<Longrightarrow> c \<in> marked s0 (root_step p s)" by blast+
qed

lemma collect_root_correct:
  assumes "traced s0 R s" "\<forall>p \<in> set ptrs. \<forall>c. points_to s0 p c \<longrightarrow> c \<in> R" and R: "child_closed s0 R"
  shows "traced s0 R (gc_collect_root ptrs s) \<and> marked s0 s \<subseteq> marked s0 (gc_collect_root ptrs s) \<and>
    (\<forall>p \<in> set ptrs. \<forall>c. points_to s0 p c \<longrightarrow> c \<in> marked s0 (gc_collect_root ptrs s))"
  using assms(1,2) unfolding gc_collect_root_def
proof (induction ptrs arbitrary: s)
  case (Cons p ptrs)
  have p: "\<forall>c. points_to s0 p c \<longrightarrow> c \<in> R" using Cons.prems(2) by simp
  note st = root_step_correct [OF Cons.prems(1) p R]
  have "traced s0 R (fold root_step ptrs (root_step p s)) \<and>
      marked s0 (root_step p s) \<subseteq> marked s0 (fold root_step ptrs (root_step p s)) \<and>
      (\<forall>p' \<in> set ptrs. \<forall>c. points_to s0 p' c \<longrightarrow> c \<in> marked s0 (fold root_step ptrs (root_step p s)))"
    by (rule Cons.IH [OF st(1)]) (use Cons.prems(2) in auto)
  then show ?case using st(2,3) by auto
qed simp

lemma overflow_pass_correct:
  assumes "marking s0 s" "marked s0 s \<subseteq> R" "no_marks s0" and R: "child_closed s0 R"
  shows "traced s0 R (overflow_pass s) \<and> marked s0 s \<subseteq> marked s0 (overflow_pass s)"
proof -
  define P where "P i = {b \<in> marked s0 s. i \<le> b}" for i
  have "marking s0 (fold overflow_step [0..<i] s) \<and> marked s0 s \<subseteq> marked s0 (fold overflow_step [0..<i] s) \<and>
      marked s0 (fold overflow_step [0..<i] s) \<subseteq> R \<and> closed_ex s0 (fold overflow_step [0..<i] s) (P i)"
    if "i \<le> n_blk s0" for i
    using that
  proof (induction i)
    case 0
    show ?case using assms(1,2) by (auto simp: P_def closed_ex_def)
  next
    case (Suc i)
    let ?t = "fold overflow_step [0..<i] s"
    have t: "marking s0 ?t" "marked s0 s \<subseteq> marked s0 ?t" "marked s0 ?t \<subseteq> R" "closed_ex s0 ?t (P i)"
      using Suc by simp_all
    have i: "i < n_blk s0" using Suc.prems by simp
    have kind: "ATB_GET_KIND ?t i = AT_MARK \<longleftrightarrow> i \<in> marked s0 ?t"
      using marking_tbl [OF t(1) i] i assms(3) by (auto simp: ATB_GET_KIND_def marked_def no_marks_def)
    have step: "fold overflow_step [0..<Suc i] s = overflow_step i ?t" by simp
    show ?case
    proof (cases "i \<in> marked s0 ?t")
      case True
      have "P i \<subseteq> insert i (P (Suc i))" by (auto simp: P_def)
      then have "closed_ex s0 ?t (insert i (P (Suc i)))" using t(4) by (auto simp: closed_ex_def)
      moreover have "i \<in> R" using True t(3) by blast
      ultimately show ?thesis using subtree_correct [OF t(1,3) _ _ R, of i "P (Suc i)"] t(2) kind True
        unfolding step overflow_step_def by auto
    next
      case False
      then have "i \<notin> marked s0 s" using t(2) by blast
      then have "P (Suc i) = P i" unfolding P_def using le_antisym not_less_eq_eq by fastforce
      then show ?thesis using t kind False unfolding step overflow_step_def by simp
    qed
  qed
  from this [of "n_blk s0"] have "marking s0 (overflow_pass s) \<and> marked s0 s \<subseteq> marked s0 (overflow_pass s) \<and>
      marked s0 (overflow_pass s) \<subseteq> R \<and> closed_ex s0 (overflow_pass s) (P (n_blk s0))"
    using marking_fields(1) [OF assms(1)] by (simp add: overflow_pass_def)
  moreover have "P (n_blk s0) = {}" by (auto simp: P_def marked_def)
  ultimately show ?thesis by (simp add: traced_def)
qed

lemma deal_with_overflow_correct:
  assumes "traced s0 R s" "no_marks s0" and R: "child_closed s0 R"
  shows "traced s0 R (gc_deal_with_stack_overflow s) \<and> marked s0 s \<subseteq> marked s0 (gc_deal_with_stack_overflow s) \<and>
    \<not> gc_stack_overflow (gc_deal_with_stack_overflow s)"
  using assms(1)
proof (induction s rule: gc_deal_with_stack_overflow.induct)
  case (1 s)
  show ?case
  proof (cases "gc_stack_overflow s")
    case True
    let ?p = "overflow_pass (s\<lparr>gc_stack_overflow := False\<rparr>)"
    have "traced s0 R ?p \<and> marked s0 (s\<lparr>gc_stack_overflow := False\<rparr>) \<subseteq> marked s0 ?p"
      by (rule overflow_pass_correct [OF _ _ assms(2) R]) (use "1.prems" in \<open>simp_all add: traced_def\<close>)
    then show ?thesis using "1.IH" [OF True] True by (auto simp: gc_deal_with_stack_overflow.simps [of s])
  next
    case False
    then show ?thesis using "1.prems" by (simp add: gc_deal_with_stack_overflow.simps [of s])
  qed
qed

text \<open>The mark phase as a whole.\<close>

lemma mark_phase:
  fixes s0 :: gc_state and roots :: "nat list"
  assumes ok: "n_blk s0 \<le> length (tbl s0)" "no_marks s0" "\<not> gc_stack_overflow s0"
  defines "s \<equiv> gc_deal_with_stack_overflow (gc_collect_root roots s0)"
  shows "marking s0 s" "marked s0 s = {b. reach s0 roots b}" "\<not> gc_stack_overflow s"
proof -
  let ?R = "{b. reach s0 roots b}"
  have R: "child_closed s0 ?R" by (auto simp: child_closed_def intro: reach_child)
  have "marked s0 s0 = {}" by (auto simp: marked_def)
  then have "traced s0 ?R s0" using marking_refl [OF ok(1)] by (simp add: traced_def closed_ex_def)
  from collect_root_correct [OF this _ R, of roots]
  have r: "traced s0 ?R (gc_collect_root roots s0)"
    "\<forall>p \<in> set roots. \<forall>c. points_to s0 p c \<longrightarrow> c \<in> marked s0 (gc_collect_root roots s0)" by (auto intro: reach_root)
  have d: "traced s0 ?R s" "marked s0 (gc_collect_root roots s0) \<subseteq> marked s0 s" "\<not> gc_stack_overflow s"
    using deal_with_overflow_correct [OF r(1) ok(2) R] by (simp_all add: s_def)
  then have cl: "\<forall>b \<in> marked s0 s. \<forall>c. child s0 b c \<longrightarrow> c \<in> marked s0 s" by (simp add: traced_def closed_ex_def)
  have "b \<in> marked s0 s" if "reach s0 roots b" for b
    using that by induction (use r(2) d(2) cl in blast)+
  then show "marking s0 s" "marked s0 s = {b. reach s0 roots b}" "\<not> gc_stack_overflow s"
    using d by (auto simp: traced_def)
qed

end
