(* ===== verification/Gc_Sweep.thy ===== *)
theory Gc_Sweep
  imports Gc_Mark
begin

text \<open>
  The invariant of the heap and the effect of a whole collection: a chain of blocks survives
  exactly if its head is reachable from the roots, contents are not touched, and finalisers are
  looked up for the dead objects that have one.
\<close>

section \<open>Finaliser bits\<close>

lemma ftb_in_range: "tables_ok s \<Longrightarrow> b < n_blk s \<Longrightarrow> ftb_field s b < length (tbl s)"
  by (auto simp: tables_ok_def ftb_field_def)

lemma ftb_update_block: "b < n_blk s \<Longrightarrow> FTB_GET (s\<lparr>tbl := (tbl s)[b := k]\<rparr>) c = FTB_GET s c"
  by (simp add: FTB_GET_def ftb_field_def n_blk_def)

lemma ftb_clear_get:
  assumes "tables_ok s" "b < n_blk s"
  shows "FTB_GET (FTB_CLEAR b s) c \<longleftrightarrow> FTB_GET s c \<and> c \<noteq> b"
proof -
  have f: "ftb_field (FTB_CLEAR b s) = ftb_field s" by (simp add: fun_eq_iff FTB_CLEAR_def ftb_field_def n_blk_def)
  have eq: "ftb_field s c = ftb_field s b \<and> c mod 2 = b mod 2 \<longleftrightarrow> c = b"
    by (auto simp: ftb_field_def) (metis div_mult_mod_eq)
  show ?thesis
  proof (cases "ftb_field s c = ftb_field s b")
    case True
    then show ?thesis using eq ftb_in_range [OF assms] unfolding FTB_GET_def f
      by (auto simp: FTB_CLEAR_def bit_unset_bit_iff)
  next
    case False
    then show ?thesis unfolding FTB_GET_def f by (auto simp: FTB_CLEAR_def)
  qed
qed

lemma ftb_set_get:
  assumes "tables_ok s" "b < n_blk s"
  shows "FTB_GET (FTB_SET b s) c \<longleftrightarrow> FTB_GET s c \<or> c = b"
proof -
  have f: "ftb_field (FTB_SET b s) = ftb_field s" by (simp add: fun_eq_iff FTB_SET_def ftb_field_def n_blk_def)
  have eq: "ftb_field s c = ftb_field s b \<and> c mod 2 = b mod 2 \<longleftrightarrow> c = b"
    by (auto simp: ftb_field_def) (metis div_mult_mod_eq)
  show ?thesis
  proof (cases "ftb_field s c = ftb_field s b")
    case True
    then show ?thesis using eq ftb_in_range [OF assms] unfolding FTB_GET_def f
      by (auto simp: FTB_SET_def bit_set_bit_iff)
  next
    case False
    then show ?thesis unfolding FTB_GET_def f by (auto simp: FTB_SET_def)
  qed
qed

lemma field_mask_less:
  assumes "k < (4 :: nat)"
  shows "set_bit (b mod 2) k < 4" "unset_bit (b mod 2) k < 4"
proof -
  have k: "bit k n \<Longrightarrow> n < 2" for n using bit_below [of k 2 n] assms by simp
  have lt: "x < 4" if "\<And>n. bit x n \<Longrightarrow> n < 2" for x :: nat
  proof -
    have "take_bit 2 x = x" using that by (auto simp: bit_eq_iff bit_take_bit_iff)
    then show ?thesis by (metis take_bit_nat_less_exp power2_eq_square numeral_Bit0 mult_2 numeral_plus_numeral
        add_num_simps(1) one_add_one mult.commute numeral_One mult_numeral_1)
  qed
  have "b mod 2 < 2" by simp
  then show "set_bit (b mod 2) k < 4" "unset_bit (b mod 2) k < 4"
    using k by (auto simp: bit_set_bit_iff bit_unset_bit_iff intro!: lt)
qed

section \<open>The invariant of the heap\<close>

text \<open>
  The block that starts the chain a block is in.
\<close>

primrec head_of :: "gc_state \<Rightarrow> nat \<Rightarrow> nat" where
  "head_of s 0 = 0"
| "head_of s (Suc b) = (if tbl s ! Suc b = AT_TAIL then head_of s b else Suc b)"

definition heap_ok :: "gc_state \<Rightarrow> bool" where
  "heap_ok s \<longleftrightarrow> tables_ok s \<and> no_marks s \<and>
     (\<forall>b < n_blk s. tbl s ! b = AT_TAIL \<longrightarrow> 0 < b \<and> tbl s ! (b - 1) \<in> {AT_HEAD, AT_TAIL}) \<and>
     (\<forall>b < n_blk s. FTB_GET s b \<longrightarrow> tbl s ! b = AT_HEAD) \<and>
     (\<forall>b < n_blk s. b < gc_last_free_atb_index s * BLOCKS_PER_ATB \<longrightarrow> tbl s ! b \<noteq> AT_FREE)"

lemma head_of_head:
  assumes "heap_ok s" "b < n_blk s" "tbl s ! b \<in> {AT_HEAD, AT_TAIL}"
  shows "tbl s ! head_of s b = AT_HEAD" "head_of s b \<le> b"
proof -
  have "tbl s ! head_of s b = AT_HEAD \<and> head_of s b \<le> b"
    using assms(2,3)
  proof (induction b)
    case 0
    then show ?case using assms(1) by (auto simp: heap_ok_def)
  next
    case (Suc b)
    have "tbl s ! Suc b = AT_TAIL \<Longrightarrow> tbl s ! b \<in> {AT_HEAD, AT_TAIL}"
      using assms(1) Suc.prems(1) by (force simp: heap_ok_def)
    then show ?case using Suc by auto
  qed
  then show "tbl s ! head_of s b = AT_HEAD" "head_of s b \<le> b" by simp_all
qed

section \<open>Sweeping\<close>

text \<open>The kind of a block after a sweep that keeps the heads in \<open>M\<close>.\<close>

definition swept_kind :: "gc_state \<Rightarrow> nat set \<Rightarrow> nat \<Rightarrow> nat" where
  "swept_kind s0 M b = (if tbl s0 ! b = AT_HEAD then (if b \<in> M then AT_HEAD else AT_FREE)
     else if tbl s0 ! b = AT_TAIL then (if head_of s0 b \<in> M then AT_TAIL else AT_FREE) else AT_FREE)"

definition sweep_inv :: "gc_state \<Rightarrow> gc_state \<Rightarrow> nat set \<Rightarrow> nat \<Rightarrow> gc_state \<times> bool \<times> nat list \<Rightarrow> bool" where
  "sweep_inv s0 s M i st \<longleftrightarrow> (case st of (s', free_tail, finalised) \<Rightarrow>
     frame s' = frame s0 \<and> tables_ok s' \<and> gc_stack_overflow s' = gc_stack_overflow s \<and>
     (\<forall>b < i. tbl s' ! b = swept_kind s0 M b) \<and> (\<forall>b. i \<le> b \<and> b < n_blk s0 \<longrightarrow> tbl s' ! b = tbl s ! b) \<and>
     (\<forall>b. i = Suc b \<and> tbl s0 ! b \<in> {AT_HEAD, AT_TAIL} \<longrightarrow> free_tail = (head_of s0 b \<notin> M)) \<and>
     (\<forall>b < n_blk s0. FTB_GET s' b \<longleftrightarrow> FTB_GET s0 b \<and> \<not> (b < i \<and> tbl s0 ! b = AT_HEAD \<and> b \<notin> M)) \<and>
     finalised = filter (\<lambda>b. tbl s0 ! b = AT_HEAD \<and> b \<notin> M \<and> FTB_GET s0 b \<and> pool s0 ! (b * WORDS_PER_BLOCK) \<noteq> 0) [0..<i])"

lemma frame_fields:
  assumes "frame s = frame s0"
  shows "n_blk s = n_blk s0" "pool s = pool s0" "gc_lock_depth s = gc_lock_depth s0"
    "gc_pool_start s = gc_pool_start s0" "gc_alloc_table_byte_len s = gc_alloc_table_byte_len s0"
proof -
  show "gc_alloc_table_byte_len s = gc_alloc_table_byte_len s0" "pool s = pool s0" "gc_lock_depth s = gc_lock_depth s0"
    "gc_pool_start s = gc_pool_start s0"
    using arg_cong [OF assms, of gc_alloc_table_byte_len] arg_cong [OF assms, of pool]
      arg_cong [OF assms, of gc_lock_depth] arg_cong [OF assms, of gc_pool_start] by (simp_all add: frame_def)
  then show "n_blk s = n_blk s0" by (simp add: n_blk_def)
qed

lemma tables_ok_update:
  assumes "tables_ok s" "k < 4"
  shows "tables_ok (s\<lparr>tbl := (tbl s)[b := k]\<rparr>)"
proof -
  have "set ((tbl s)[b := k]) \<subseteq> insert k (set (tbl s))" by (rule set_update_subset_insert)
  then show ?thesis using assms by (auto simp: tables_ok_def n_blk_def)
qed

lemma tables_ok_nth: "tables_ok s \<Longrightarrow> i < length (tbl s) \<Longrightarrow> tbl s ! i < 4"
  by (auto simp: tables_ok_def)

lemma sweep_inv_skip:
  assumes inv: "sweep_inv s0 s M i (s', ft, fin)" and i: "tbl s0 ! i \<noteq> AT_HEAD" "tbl s' ! i = swept_kind s0 M i"
    "tbl s0 ! i = AT_TAIL \<longrightarrow> ft = (head_of s0 i \<notin> M)"
  shows "sweep_inv s0 s M (Suc i) (s', ft, fin)"
proof -
  have "tbl s' ! b = swept_kind s0 M b" if "b < Suc i" for b
    using inv that i(2) by (cases "b = i") (simp_all add: sweep_inv_def)
  moreover have "FTB_GET s' b \<longleftrightarrow> FTB_GET s0 b \<and> \<not> (b < Suc i \<and> tbl s0 ! b = AT_HEAD \<and> b \<notin> M)" if "b < n_blk s0" for b
    using inv that i(1) by (cases "b = i") (simp_all add: sweep_inv_def less_Suc_eq)
  ultimately show ?thesis using inv i(1,3) by (simp add: sweep_inv_def)
qed

lemma sweep_step_inv:
  assumes s0: "heap_ok s0" and s: "marking s0 s" and M: "M = marked s0 s" and i: "i < n_blk s0"
    and inv: "sweep_inv s0 s M i st"
  shows "sweep_inv s0 s M (Suc i) (sweep_step i st)"
proof -
  obtain s' ft fin where st: "st = (s', ft, fin)" by (metis prod_cases3)
  have fr: "frame s' = frame s0" and ok: "tables_ok s'" and ov: "gc_stack_overflow s' = gc_stack_overflow s"
    and dn: "\<forall>b < i. tbl s' ! b = swept_kind s0 M b" and todo: "\<forall>b. i \<le> b \<and> b < n_blk s0 \<longrightarrow> tbl s' ! b = tbl s ! b"
    and tail: "\<forall>b. i = Suc b \<and> tbl s0 ! b \<in> {AT_HEAD, AT_TAIL} \<longrightarrow> ft = (head_of s0 b \<notin> M)"
    and ftb: "\<forall>b < n_blk s0. FTB_GET s' b \<longleftrightarrow> FTB_GET s0 b \<and> \<not> (b < i \<and> tbl s0 ! b = AT_HEAD \<and> b \<notin> M)"
    and fin: "fin = filter (\<lambda>b. tbl s0 ! b = AT_HEAD \<and> b \<notin> M \<and> FTB_GET s0 b \<and> pool s0 ! (b * WORDS_PER_BLOCK) \<noteq> 0) [0..<i]"
    using inv by (simp_all add: sweep_inv_def st)
  note f = frame_fields [OF fr]
  have len: "n_blk s0 \<le> length (tbl s')" using ok f(1) by (simp add: tables_ok_def)
  have il: "i < length (tbl s')" "i < n_blk s'" using i len f(1) by simp_all
  have k: "ATB_GET_KIND s' i = tbl s ! i" using il todo i by (simp add: ATB_GET_KIND_def)
  have k0: "tbl s ! i = tbl s0 ! i \<or> (tbl s0 ! i = AT_HEAD \<and> tbl s ! i = AT_MARK)" using marking_tbl [OF s i] by simp
  have nm: "tbl s0 ! i \<noteq> AT_MARK" using s0 i by (simp add: heap_ok_def no_marks_def)
  have lt4: "tbl s0 ! i < 4" using s0 i by (auto simp: heap_ok_def intro: tables_ok_nth) (simp add: tables_ok_def)
  consider (dead) "tbl s ! i = AT_HEAD" "tbl s0 ! i = AT_HEAD" "i \<notin> M"
    | (live) "tbl s ! i = AT_MARK" "tbl s0 ! i = AT_HEAD" "i \<in> M"
    | (tl) "tbl s ! i = AT_TAIL" "tbl s0 ! i = AT_TAIL" | (free) "tbl s ! i = AT_FREE" "tbl s0 ! i = AT_FREE"
    using k0 nm lt4 i by (fastforce simp: M marked_def)
  then show ?thesis
  proof cases
    case dead
    define s1 where "s1 = (if FTB_GET s' i then FTB_CLEAR i s' else s')"
    have s1: "frame s1 = frame s0" "tables_ok s1" "length (tbl s1) = length (tbl s')" "\<forall>b < n_blk s0. tbl s1 ! b = tbl s' ! b"
      "gc_stack_overflow s1 = gc_stack_overflow s'" "\<forall>b. FTB_GET s1 b \<longleftrightarrow> FTB_GET s' b \<and> b \<noteq> i"
      using fr ok f(1) field_mask_less [OF tables_ok_nth [OF ok ftb_in_range [OF ok il(2)]], of i] ftb_clear_get [OF ok il(2)]
      by (auto simp: s1_def FTB_CLEAR_def ftb_field_def intro!: tables_ok_update)
    have r: "sweep_step i st = (s1\<lparr>tbl := (tbl s1)[i := 0]\<rparr>, True,
        if FTB_GET s' i \<and> pool s' ! (i * WORDS_PER_BLOCK) \<noteq> 0 then fin @ [i] else fin)"
      using dead k by (simp add: sweep_step_def st Let_def s1_def ATB_ANY_TO_FREE_def)
    have n1: "i < n_blk s1" using s1(1) frame_fields(1) i by metis
    have "FTB_GET s' i = FTB_GET s0 i" using ftb i by simp
    moreover have "head_of s0 i = i" using dead(2) by (cases i) simp_all
    ultimately show ?thesis
      unfolding r sweep_inv_def using s1 dn todo ftb dead i il f fin tables_ok_update [OF s1(2), of 0 i] ov
      by (auto simp: ftb_update_block [OF n1] nth_list_update swept_kind_def less_Suc_eq)
  next
    case live
    have r: "sweep_step i st = (s'\<lparr>tbl := (tbl s')[i := 1]\<rparr>, False, fin)"
      using live k todo i by (simp add: sweep_step_def st Let_def ATB_MARK_TO_HEAD_def)
    have "head_of s0 i = i" using live(2) by (cases i) simp_all
    then show ?thesis
      unfolding r sweep_inv_def using fr ok dn todo ftb live i il f fin tables_ok_update [OF ok, of 1 i] ov
      by (auto simp: ftb_update_block [OF il(2)] nth_list_update swept_kind_def less_Suc_eq)
  next
    case tl
    obtain j where j: "i = Suc j" "tbl s0 ! j \<in> {AT_HEAD, AT_TAIL}"
      using s0 tl(2) i by (cases i) (auto simp: heap_ok_def)
    have ft: "ft = (head_of s0 j \<notin> M)" using tail j by blast
    have h: "head_of s0 i = head_of s0 j" using j(1) tl(2) by simp
    show ?thesis
    proof (cases ft)
      case True
      have r: "sweep_step i st = (s'\<lparr>tbl := (tbl s')[i := 0]\<rparr>, ft, fin)"
        using tl k True by (simp add: sweep_step_def st Let_def ATB_ANY_TO_FREE_def)
      show ?thesis
        unfolding r sweep_inv_def using fr ok dn todo ftb tl i il f fin ft h True tables_ok_update [OF ok, of 0 i] ov
        by (auto simp: ftb_update_block [OF il(2)] nth_list_update swept_kind_def less_Suc_eq)
    next
      case False
      have r: "sweep_step i st = st" using tl k False by (simp add: sweep_step_def st Let_def)
      show ?thesis unfolding r
        by (subst st, rule sweep_inv_skip [OF inv [unfolded st]]) (use todo i tl ft h False in \<open>simp_all add: swept_kind_def\<close>)
    qed
  next
    case free
    have r: "sweep_step i st = st" using free k by (simp add: sweep_step_def st Let_def)
    show ?thesis unfolding r
      by (subst st, rule sweep_inv_skip [OF inv [unfolded st]]) (use todo i free in \<open>simp_all add: swept_kind_def\<close>)
  qed
qed

lemma sweep_correct:
  assumes s0: "heap_ok s0" and s: "marking s0 s" "gc_stack_overflow s = gc_stack_overflow s0" and M: "M = marked s0 s"
  shows "\<exists>s'. gc_sweep s = (s', filter (\<lambda>b. tbl s0 ! b = AT_HEAD \<and> b \<notin> M \<and> FTB_GET s0 b \<and>
      pool s0 ! (b * WORDS_PER_BLOCK) \<noteq> 0) [0..<n_blk s0]) \<and> frame s' = frame s0 \<and> tables_ok s' \<and>
    gc_stack_overflow s' = gc_stack_overflow s0 \<and> (\<forall>b < n_blk s0. tbl s' ! b = swept_kind s0 M b) \<and>
    (\<forall>b < n_blk s0. FTB_GET s' b \<longleftrightarrow> FTB_GET s0 b \<and> b \<in> M)"
proof -
  have n: "n_blk s = n_blk s0" using marking_fields(1) [OF s(1)] .
  have ok: "tables_ok s"
  proof -
    have "k < 4" if k: "k \<in> set (tbl s)" for k
    proof -
      obtain b where b: "b < length (tbl s)" "tbl s ! b = k" using k by (auto simp: in_set_conv_nth)
      then have "tbl s0 ! b < 4" using s0 s(1) by (auto simp: heap_ok_def marking_def intro: tables_ok_nth)
      then show ?thesis using b s(1) by (auto simp: marking_def)
    qed
    then show ?thesis using s0 s(1) n marking_fields(4) [OF s(1)] by (auto simp: heap_ok_def tables_ok_def marking_def)
  qed
  have ftb: "FTB_GET s b = FTB_GET s0 b" if "b < n_blk s0" for b
  proof -
    have "ftb_field s0 b < length (tbl s0)" using s0 that by (intro ftb_in_range) (simp_all add: heap_ok_def)
    moreover have "\<not> ftb_field s0 b < n_blk s0" by (simp add: ftb_field_def)
    ultimately have "tbl s ! ftb_field s0 b = tbl s0 ! ftb_field s0 b" using s(1) by (auto simp: marking_def)
    then show ?thesis by (simp add: FTB_GET_def ftb_field_def n)
  qed
  have "sweep_inv s0 s M i (fold sweep_step [0..<i] (s, False, []))" if "i \<le> n_blk s0" for i
    using that
  proof (induction i)
    case 0
    then show ?case using s ok ftb by (simp add: sweep_inv_def marking_def)
  next
    case (Suc i)
    then show ?case using sweep_step_inv [OF s0 s(1) M, of i] by simp
  qed
  from this [of "n_blk s0"] have inv: "sweep_inv s0 s M (n_blk s0) (fold sweep_step [0..<n_blk s] (s, False, []))" by (simp add: n)
  obtain s' ft fin where f: "fold sweep_step [0..<n_blk s] (s, False, []) = (s', ft, fin)" by (metis prod_cases3)
  have "FTB_GET s' b \<longleftrightarrow> FTB_GET s0 b \<and> b \<in> M" if "b < n_blk s0" for b
    using inv that s0 by (auto simp: f sweep_inv_def heap_ok_def)
  then show ?thesis using inv s(2) by (simp add: f gc_sweep_def sweep_inv_def)
qed

section \<open>A collection\<close>

definition survives :: "gc_state \<Rightarrow> nat list \<Rightarrow> nat \<Rightarrow> bool" where
  "survives s roots b \<longleftrightarrow> tbl s ! b \<noteq> AT_FREE \<and> reach s roots (head_of s b)"

lemma swept_kind_survives:
  assumes "heap_ok s" "b < n_blk s"
  shows "swept_kind s {b. reach s roots b} b = (if survives s roots b then tbl s ! b else AT_FREE)"
proof -
  have "tbl s ! b = AT_HEAD \<Longrightarrow> head_of s b = b" by (cases b) simp_all
  moreover have "tbl s ! b < 4" "tbl s ! b \<noteq> AT_MARK"
    using assms by (auto simp: heap_ok_def no_marks_def intro: tables_ok_nth) (simp_all add: tables_ok_def)
  ultimately show ?thesis by (auto simp: swept_kind_def survives_def)
qed

lemma collect_roots_append:
  "gc_collect_root stacks (gc_collect_start ctx s) =
   gc_collect_root (ctx @ stacks) (s\<lparr>gc_lock_depth := gc_lock_depth s + 1, gc_alloc_amount := 0, gc_stack_overflow := False\<rparr>)"
  by (simp add: gc_collect_start_def gc_collect_root_def)

lemma gc_collect_exact:
  assumes ok: "heap_ok s"
  shows "\<exists>s'. gc_collect ctx stacks s =
      (s', filter (\<lambda>b. tbl s ! b = AT_HEAD \<and> \<not> reach s (ctx @ stacks) b \<and> FTB_GET s b \<and>
         pool s ! (b * WORDS_PER_BLOCK) \<noteq> 0) [0..<n_blk s]) \<and>
    heap_ok s' \<and> pool s' = pool s \<and> gc_lock_depth s' = gc_lock_depth s \<and> n_blk s' = n_blk s \<and>
    gc_pool_start s' = gc_pool_start s \<and>
    (\<forall>b < n_blk s. tbl s' ! b = (if survives s (ctx @ stacks) b then tbl s ! b else AT_FREE)) \<and>
    (\<forall>b < n_blk s. FTB_GET s' b \<longleftrightarrow> FTB_GET s b \<and> reach s (ctx @ stacks) b)"
proof -
  define s0 where "s0 = s\<lparr>gc_lock_depth := gc_lock_depth s + 1, gc_alloc_amount := 0, gc_stack_overflow := False\<rparr>"
  let ?roots = "ctx @ stacks"
  have e: "tbl s0 = tbl s" "n_blk s0 = n_blk s" "pool s0 = pool s" "gc_pool_start s0 = gc_pool_start s"
    by (simp_all add: s0_def n_blk_def)
  have ftb0: "FTB_GET s0 b = FTB_GET s b" for b by (simp add: FTB_GET_def ftb_field_def e)
  have ok0: "heap_ok s0" using ok by (simp add: heap_ok_def tables_ok_def no_marks_def e ftb0) (simp add: s0_def)
  have pt: "points_to s0 p c = points_to s p c" for p c
    by (simp add: points_to_def VERIFY_PTR_def gc_pool_end_def BLOCK_FROM_PTR_def ATB_GET_KIND_def e)
  have ch: "child s0 = child s" by (simp add: fun_eq_iff child_def pt block_words_def chain_len_def e)
  have reach: "reach s0 ?roots b = reach s ?roots b" for b
  proof
    show "reach s0 ?roots b \<Longrightarrow> reach s ?roots b"
      by (induction rule: reach.induct) (auto intro: reach.intros simp: pt ch)
    show "reach s ?roots b \<Longrightarrow> reach s0 ?roots b"
      by (induction rule: reach.induct) (auto intro: reach.intros simp: pt ch)
  qed
  have hd: "head_of s0 b = head_of s b" for b by (induction b) (simp_all add: e)
  define s1 where "s1 = gc_deal_with_stack_overflow (gc_collect_root ?roots s0)"
  have len: "n_blk s0 \<le> length (tbl s0)" using ok0 by (simp add: heap_ok_def tables_ok_def)
  have m: "marking s0 s1" "marked s0 s1 = {b. reach s0 ?roots b}" "\<not> gc_stack_overflow s1"
    unfolding s1_def using mark_phase [OF len, of ?roots] ok0 by (simp_all add: heap_ok_def) (simp_all add: s0_def)
  obtain s2 where s2: "gc_sweep s1 = (s2, filter (\<lambda>b. tbl s0 ! b = AT_HEAD \<and> b \<notin> marked s0 s1 \<and> FTB_GET s0 b \<and>
      pool s0 ! (b * WORDS_PER_BLOCK) \<noteq> 0) [0..<n_blk s0])" "frame s2 = frame s0" "tables_ok s2"
    "\<forall>b < n_blk s0. tbl s2 ! b = swept_kind s0 (marked s0 s1) b" "\<forall>b < n_blk s0. FTB_GET s2 b \<longleftrightarrow> FTB_GET s0 b \<and> b \<in> marked s0 s1"
    using sweep_correct [OF ok0 m(1) _ refl] m(3) by (auto simp: s0_def)
  define s3 where "s3 = s2\<lparr>gc_last_free_atb_index := 0, gc_lock_depth := gc_lock_depth s2 - 1\<rparr>"
  have c: "gc_collect ctx stacks s = (s3, filter (\<lambda>b. tbl s ! b = AT_HEAD \<and> \<not> reach s ?roots b \<and> FTB_GET s b \<and>
         pool s ! (b * WORDS_PER_BLOCK) \<noteq> 0) [0..<n_blk s])"
    unfolding gc_collect_def collect_roots_append gc_collect_end_def s0_def [symmetric] s1_def [symmetric]
    by (simp add: s2(1) s3_def m(2) reach e ftb0)
  note f = frame_fields [OF s2(2)]
  have k: "\<forall>b < n_blk s. tbl s3 ! b = (if survives s ?roots b then tbl s ! b else AT_FREE)"
    using s2(4) swept_kind_survives [OF ok0, of _ ?roots] m(2) reach hd by (simp add: s3_def survives_def e)
  have ftb3: "FTB_GET s3 b \<longleftrightarrow> FTB_GET s b \<and> reach s ?roots b" if "b < n_blk s" for b
  proof -
    have "FTB_GET s3 b = FTB_GET s2 b" by (simp add: s3_def FTB_GET_def ftb_field_def n_blk_def)
    then show ?thesis using s2(5) that by (simp add: e m(2) reach ftb0)
  qed
  have n3: "n_blk s3 = n_blk s" "tbl s3 = tbl s2" using f e by (simp_all add: s3_def n_blk_def)
  have "tables_ok s3" using s2(3) by (simp add: tables_ok_def s3_def n_blk_def)
  moreover have "no_marks s3" using k ok n3 by (simp add: no_marks_def heap_ok_def)
  moreover have "0 < b \<and> tbl s3 ! (b - 1) \<in> {AT_HEAD, AT_TAIL}" if b: "b < n_blk s" "tbl s3 ! b = AT_TAIL" for b
  proof -
    have t: "tbl s ! b = AT_TAIL" "survives s ?roots b" using k b by (auto split: if_splits)
    then have p: "0 < b" "tbl s ! (b - 1) \<in> {AT_HEAD, AT_TAIL}" using ok b(1) by (auto simp: heap_ok_def)
    then have "head_of s b = head_of s (b - 1)" using t(1) by (cases b) simp_all
    then have "survives s ?roots (b - 1)" using t p by (auto simp: survives_def)
    then show ?thesis using k b(1) p by simp
  qed
  moreover have "tbl s3 ! b = AT_HEAD" if "b < n_blk s" "FTB_GET s3 b" for b
  proof -
    have "tbl s ! b = AT_HEAD" "reach s ?roots b" using that ftb3 ok by (auto simp: heap_ok_def)
    moreover from this have "head_of s b = b" by (cases b) simp_all
    ultimately show ?thesis using k that(1) by (simp add: survives_def)
  qed
  ultimately have "heap_ok s3" by (simp add: heap_ok_def n3) (simp add: s3_def)
  then show ?thesis using c k ftb3 n3 f e by (intro exI [of _ s3]) (simp add: s3_def s0_def)
qed

end
