(* ===== verification/Gc_Alloc.thy ===== *)
theory Gc_Alloc
  imports Gc_Sweep
begin

text \<open>
  Allocation and release: the search finds a run of free blocks if there is one, allocation takes
  exactly that run, and release gives back exactly the chain.
\<close>

section \<open>The search for free blocks\<close>

definition is_free :: "gc_state \<Rightarrow> nat \<Rightarrow> bool" where
  "is_free s b \<longleftrightarrow> ATB_GET_KIND s b = AT_FREE"

definition free_run :: "gc_state \<Rightarrow> nat \<Rightarrow> nat \<Rightarrow> bool" where
  "free_run s start n \<longleftrightarrow> start + n \<le> n_blk s \<and> (\<forall>j. start \<le> j \<and> j < start + n \<longrightarrow> is_free s j)"

lemma find_free_Some:
  assumes "find_free s n b f = Some e" "0 < n" "f < n" "f \<le> b" "\<forall>j. b - f \<le> j \<and> j < b \<longrightarrow> is_free s j"
  shows "n \<le> e + 1 \<and> b \<le> e \<and> free_run s (e + 1 - n) n \<and> (n = 1 \<longrightarrow> (\<forall>j. b \<le> j \<and> j < e \<longrightarrow> \<not> is_free s j))"
  using assms
proof (induction s n b f rule: find_free.induct)
  case (1 s n b f)
  have b: "b < n_blk s" using "1.prems"(1) by (simp add: find_free.simps [of s n b f] split: if_splits)
  show ?case
  proof (cases "is_free s b")
    case True
    show ?thesis
    proof (cases "f + 1 \<ge> n")
      case full: True
      then have "e = b" "n = f + 1" using "1.prems"(1,3) b True by (simp_all add: find_free.simps [of s n b f] is_free_def)
      then show ?thesis using "1.prems"(4,5) True b by (auto simp: free_run_def less_Suc_eq)
    next
      case False
      then have r: "find_free s n (b + 1) (f + 1) = Some e"
        using "1.prems"(1) b True by (simp add: find_free.simps [of s n b f] is_free_def)
      have "\<forall>j. b + 1 - (f + 1) \<le> j \<and> j < b + 1 \<longrightarrow> is_free s j" using "1.prems"(5) True less_Suc_eq by auto
      then show ?thesis using "1.IH"(1) [OF b _ False r] True False "1.prems" by (auto simp: is_free_def)
    qed
  next
    case False
    then have r: "find_free s n (b + 1) 0 = Some e"
      using "1.prems"(1) b by (simp add: find_free.simps [of s n b f] is_free_def)
    have "n \<le> e + 1 \<and> b + 1 \<le> e \<and> free_run s (e + 1 - n) n \<and> (n = 1 \<longrightarrow> (\<forall>j. b + 1 \<le> j \<and> j < e \<longrightarrow> \<not> is_free s j))"
      using "1.IH"(2) [OF b _ r] False "1.prems"(2) by (auto simp: is_free_def)
    then show ?thesis using False by (metis Suc_eq_plus1 Suc_leI add_leD1 le_neq_implies_less)
  qed
qed

lemma find_free_None:
  assumes "find_free s n b f = None" "f < n" "f \<le> b" "b - f \<le> start"
  shows "\<not> free_run s start n"
  using assms
proof (induction s n b f rule: find_free.induct)
  case (1 s n b f)
  show ?case
  proof (cases "b < n_blk s")
    case b: True
    show ?thesis
    proof (cases "is_free s b")
      case True
      then have f: "\<not> f + 1 \<ge> n" "find_free s n (b + 1) (f + 1) = None"
        using "1.prems"(1) b by (auto simp: find_free.simps [of s n b f] is_free_def split: if_splits)
      then show ?thesis using "1.IH"(1) [OF b _ f(1,2)] True "1.prems" by (simp add: is_free_def)
    next
      case False
      then have r: "find_free s n (b + 1) 0 = None"
        using "1.prems"(1) b by (simp add: find_free.simps [of s n b f] is_free_def)
      show ?thesis
      proof (cases "start \<le> b")
        case True
        then have "start \<le> b \<and> b < start + n" using "1.prems"(2-4) by linarith
        then show ?thesis using False by (auto simp: free_run_def)
      next
        case after: False
        then show ?thesis using "1.IH"(2) [OF b _ r] False "1.prems"(2) by (simp add: is_free_def)
      qed
    qed
  next
    case False
    then show ?thesis using "1.prems"(2-4) by (auto simp: free_run_def)
  qed
qed

section \<open>Updating a range of blocks\<close>

definition update_range :: "(nat \<Rightarrow> nat) \<Rightarrow> nat \<Rightarrow> nat \<Rightarrow> gc_state \<Rightarrow> gc_state" where
  "update_range g a b s =
     s\<lparr>tbl := map (\<lambda>i. if a \<le> i \<and> i < b then g (tbl s ! i) else tbl s ! i) [0..<length (tbl s)]\<rparr>"

lemma fold_update_range: "fold (\<lambda>i s. s\<lparr>tbl := (tbl s)[i := g (tbl s ! i)]\<rparr>) [a..<b] s = update_range g a b s"
proof (induction b)
  case 0
  have "map (\<lambda>i. tbl s ! i) [0..<length (tbl s)] = tbl s" by (rule map_nth)
  then show ?case by (simp add: update_range_def)
next
  case (Suc b)
  show ?case
  proof (cases "a \<le> b")
    case True
    let ?t = "map (\<lambda>i. if a \<le> i \<and> i < b then g (tbl s ! i) else tbl s ! i) [0..<length (tbl s)]"
    have "?t[b := g (?t ! b)] = map (\<lambda>i. if a \<le> i \<and> i < Suc b then g (tbl s ! i) else tbl s ! i) [0..<length (tbl s)]"
    proof (intro nth_equalityI)
      fix i assume "i < length (?t[b := g (?t ! b)])"
      then show "?t[b := g (?t ! b)] ! i = map (\<lambda>i. if a \<le> i \<and> i < Suc b then g (tbl s ! i) else tbl s ! i) [0..<length (tbl s)] ! i"
        using True by (cases "i = b") auto
    qed simp
    then show ?thesis using True Suc by (simp add: update_range_def)
  next
    case False
    then have "(\<lambda>i. if a \<le> i \<and> i < Suc b then g (tbl s ! i) else tbl s ! i) = (\<lambda>i. tbl s ! i)" by auto
    then show ?thesis using False by (simp only: update_range_def map_nth) simp
  qed
qed

lemma fold_to_tail: "fold ATB_FREE_TO_TAIL [a..<b] s = update_range (\<lambda>k. k OR AT_TAIL) a b s"
  using fold_update_range [of "\<lambda>k. k OR AT_TAIL" a b s] by (simp add: ATB_FREE_TO_TAIL_def [abs_def])

lemma fold_to_free: "fold ATB_ANY_TO_FREE [a..<b] s = update_range (\<lambda>k. 0) a b s"
  using fold_update_range [of "\<lambda>k. 0" a b s] by (simp add: ATB_ANY_TO_FREE_def [abs_def])

lemma update_range_nth:
  "length (tbl (update_range g a b s)) = length (tbl s)"
  "i < length (tbl s) \<Longrightarrow> tbl (update_range g a b s) ! i = (if a \<le> i \<and> i < b then g (tbl s ! i) else tbl s ! i)"
  by (simp_all add: update_range_def)

section \<open>Allocation\<close>

text \<open>The state after the blocks \<open>b\<close> to \<open>b + n - 1\<close> have been taken from \<open>t\<close>.\<close>

definition allocated :: "gc_state \<Rightarrow> nat \<Rightarrow> nat \<Rightarrow> bool \<Rightarrow> gc_state \<Rightarrow> bool" where
  "allocated t b n fin s' \<longleftrightarrow> n_blk s' = n_blk t \<and> gc_pool_start s' = gc_pool_start t \<and> gc_lock_depth s' = gc_lock_depth t \<and>
     (\<forall>i < n_blk t. tbl s' ! i = (if i = b then AT_HEAD else if b < i \<and> i < b + n then AT_TAIL else tbl t ! i)) \<and>
     (\<forall>i < n_blk t. FTB_GET s' i \<longleftrightarrow> FTB_GET t i \<or> (fin \<and> i = b)) \<and>
     (\<forall>i < length (pool t). pool s' ! i = (if b * WORDS_PER_BLOCK \<le> i \<and> i < (b + n) * WORDS_PER_BLOCK then 0 else pool t ! i))"

lemma clear_blocks_pool:
  assumes "(b + n) * WORDS_PER_BLOCK \<le> length (pool s)"
  shows "length (pool (clear_blocks b n s)) = length (pool s)"
    "i < length (pool s) \<Longrightarrow> pool (clear_blocks b n s) ! i =
      (if b * WORDS_PER_BLOCK \<le> i \<and> i < (b + n) * WORDS_PER_BLOCK then 0 else pool s ! i)"
  using assms by (auto simp: clear_blocks_def nth_append add_mult_distrib)

lemma frame_free_fields:
  "n_blk (s\<lparr>tbl := t\<rparr>) = n_blk s" "n_blk (s\<lparr>pool := p\<rparr>) = n_blk s" "n_blk (s\<lparr>gc_last_free_atb_index := l\<rparr>) = n_blk s"
  "n_blk (s\<lparr>gc_alloc_amount := a\<rparr>) = n_blk s"
  by (simp_all add: n_blk_def)

lemma take_blocks_correct:
  assumes ok: "heap_ok t" and n: "0 < n" "n \<le> e + 1" and run: "free_run t (e + 1 - n) n"
    and first: "n = 1 \<longrightarrow> (\<forall>j. gc_last_free_atb_index t * BLOCKS_PER_ATB \<le> j \<and> j < e \<longrightarrow> \<not> is_free t j)"
  shows "\<exists>s'. take_blocks n e fin t = (s', Some (PTR_FROM_BLOCK t (e + 1 - n))) \<and> heap_ok s' \<and> allocated t (e + 1 - n) n fin s'"
proof -
  define b where "b = e + 1 - n"
  have be: "e + 1 - n = b" "e + 1 = b + n" "e - b + 1 = n" using n by (auto simp: b_def)
  have tok: "tables_ok t" using ok by (simp add: heap_ok_def)
  have bn: "b + n \<le> n_blk t" "n_blk t \<le> length (tbl t)" using run tok by (auto simp: free_run_def b_def tables_ok_def)
  have free: "tbl t ! j = AT_FREE" if "b \<le> j" "j < b + n" for j
    using run [folded b_def] that bn by (auto simp: free_run_def is_free_def ATB_GET_KIND_def)
  define s1 where "s1 = (if n = 1 then t\<lparr>gc_last_free_atb_index := (e + 1) div BLOCKS_PER_ATB\<rparr> else t)"
  define s2 where "s2 = update_range (\<lambda>k. k OR AT_TAIL) (b + 1) (b + n) (ATB_FREE_TO_HEAD b s1)"
  define s3 where "s3 = clear_blocks b n (s2\<lparr>gc_alloc_amount := u32 (gc_alloc_amount s2 + n)\<rparr>)"
  define s4 where "s4 = (if fin then FTB_SET b (s3\<lparr>pool := (pool s3)[b * WORDS_PER_BLOCK := 0]\<rparr>) else s3)"
  have r: "take_blocks n e fin t = (s4, Some (PTR_FROM_BLOCK t b))"
    unfolding take_blocks_def Let_def be(1) s1_def [symmetric]
    unfolding be(2,3) fold_to_tail s2_def [symmetric] s3_def [symmetric] s4_def [symmetric]
    by (simp add: PTR_FROM_BLOCK_def s2_def update_range_def ATB_FREE_TO_HEAD_def s1_def)
  have t1: "tbl s1 = tbl t" "pool s1 = pool t" "n_blk s1 = n_blk t" by (simp_all add: s1_def n_blk_def)
  have len2: "length (tbl s2) = length (tbl t)" by (simp add: s2_def update_range_nth ATB_FREE_TO_HEAD_def t1)
  have k2: "tbl s2 ! i = (if i = b then AT_HEAD else if b < i \<and> i < b + n then AT_TAIL else tbl t ! i)"
    if "i < length (tbl t)" for i
    using that n(1) bn free [of i] free [of b] by (auto simp: s2_def update_range_nth ATB_FREE_TO_HEAD_def t1)
  have n2: "n_blk s2 = n_blk t" "pool s2 = pool t" by (simp_all add: s2_def update_range_def ATB_FREE_TO_HEAD_def n_blk_def t1 s1_def)
  have t3: "tbl s3 = tbl s2" by (simp add: s3_def clear_blocks_def)
  have "n_blk s3 = n_blk s2" by (simp add: s3_def clear_blocks_def n_blk_def)
  then have t3': "n_blk s3 = n_blk t" using n2 by simp
  note t3 = t3 t3'
  have pl: "(b + n) * WORDS_PER_BLOCK \<le> length (pool t)" using tok bn(1) by (simp add: tables_ok_def)
  have p3: "length (pool s3) = length (pool t)"
    "i < length (pool t) \<Longrightarrow> pool s3 ! i = (if b * WORDS_PER_BLOCK \<le> i \<and> i < (b + n) * WORDS_PER_BLOCK then 0 else pool t ! i)" for i
    using clear_blocks_pool [of b n "s2\<lparr>gc_alloc_amount := u32 (gc_alloc_amount s2 + n)\<rparr>"] pl n2(2) by (simp_all add: s3_def)
  have tok3: "tables_ok s3"
  proof -
    have "k < 4" if k: "k \<in> set (tbl s2)" for k
    proof -
      obtain i where "i < length (tbl t)" "k = tbl s2 ! i" using k len2 by (auto simp: in_set_conv_nth)
      then show ?thesis using k2 tables_ok_nth [OF tok] by auto
    qed
    then show ?thesis using tok p3 len2 t3 by (auto simp: tables_ok_def)
  qed
  have ftb3: "FTB_GET s3 i = FTB_GET t i" if "i < n_blk t" for i
  proof -
    have "ftb_field t i < length (tbl t)" using ftb_in_range [OF tok that] .
    moreover have "\<not> ftb_field t i < b + n" using bn by (simp add: ftb_field_def)
    ultimately show ?thesis using k2 [of "ftb_field t i"] n(1) by (auto simp: FTB_GET_def t3 ftb_field_def)
  qed
  have b3: "b < n_blk s3" using t3 bn n by simp
  have s4: "n_blk s4 = n_blk t" "length (tbl s4) = length (tbl t)" "tables_ok s4" "length (pool s4) = length (pool t)"
    "\<forall>i < n_blk t. tbl s4 ! i = tbl s2 ! i" "\<forall>i < n_blk t. FTB_GET s4 i \<longleftrightarrow> FTB_GET t i \<or> (fin \<and> i = b)"
    "\<forall>i < length (pool t). pool s4 ! i = pool s3 ! i"
  proof -
    let ?s = "s3\<lparr>pool := (pool s3)[b * WORDS_PER_BLOCK := 0]\<rparr>"
    have ok': "tables_ok ?s" "b < n_blk ?s" using tok3 b3 by (simp_all add: tables_ok_def n_blk_def)
    have ftb': "FTB_GET ?s i = FTB_GET s3 i" for i by (simp add: FTB_GET_def ftb_field_def n_blk_def)
    have w: "b * WORDS_PER_BLOCK < (b + n) * WORDS_PER_BLOCK" using n(1) by (simp add: WORDS_PER_BLOCK_def)
    have f: "tables_ok (FTB_SET b ?s)"
      unfolding FTB_SET_def using ok' field_mask_less(1) [OF tables_ok_nth [OF ok'(1) ftb_in_range [OF ok']], of b]
      by (intro tables_ok_update) simp_all
    have g: "i < n_blk t \<Longrightarrow> tbl (FTB_SET b ?s) ! i = tbl s3 ! i" for i
      using t3(2) by (simp add: FTB_SET_def ftb_field_def frame_free_fields)
    show "n_blk s4 = n_blk t" "length (tbl s4) = length (tbl t)" "tables_ok s4" "length (pool s4) = length (pool t)"
      using t3 len2 tok3 p3(1) f by (simp_all add: s4_def FTB_SET_def frame_free_fields)
    show "\<forall>i < n_blk t. tbl s4 ! i = tbl s2 ! i" using t3 g by (simp add: s4_def)
    show "\<forall>i < n_blk t. FTB_GET s4 i \<longleftrightarrow> FTB_GET t i \<or> (fin \<and> i = b)"
      using ftb_set_get [OF ok'] ftb' ftb3 by (simp add: s4_def)
    have lt: "b * WORDS_PER_BLOCK < length (pool t)" using w pl by (rule less_le_trans)
    have "pool s3 ! (b * WORDS_PER_BLOCK) = 0" using p3(2) [OF lt] w by simp
    then have "(pool s3)[b * WORDS_PER_BLOCK := 0] = pool s3" using lt p3(1) by (metis list_update_id)
    then show "\<forall>i < length (pool t). pool s4 ! i = pool s3 ! i" by (simp add: s4_def FTB_SET_def)
  qed
  have al: "allocated t b n fin s4"
    unfolding allocated_def using s4 k2 p3(2) bn(2)
    by (auto simp: s4_def FTB_SET_def s3_def clear_blocks_def s2_def update_range_def ATB_FREE_TO_HEAD_def s1_def)
  have k4: "tbl s4 ! i = (if i = b then AT_HEAD else if b < i \<and> i < b + n then AT_TAIL else tbl t ! i)" if "i < n_blk t" for i
    using s4(5) k2 that bn(2) by simp
  have lf: "gc_last_free_atb_index s4 = (if n = 1 then (e + 1) div BLOCKS_PER_ATB else gc_last_free_atb_index t)"
    by (simp add: s4_def FTB_SET_def s3_def clear_blocks_def s2_def update_range_def ATB_FREE_TO_HEAD_def s1_def)
  have "heap_ok s4"
    unfolding heap_ok_def s4(1)
  proof (intro conjI allI impI)
    show "tables_ok s4" by (rule s4(3))
    show "no_marks s4" using ok k4 s4(1) by (auto simp: no_marks_def heap_ok_def)
    fix i assume i: "i < n_blk t"
    show "FTB_GET s4 i \<Longrightarrow> tbl s4 ! i = AT_HEAD" using ok s4(6) i k4 [OF i] free [of i] by (auto simp: heap_ok_def)
    assume "tbl s4 ! i = AT_TAIL"
    then have tl: "b < i \<and> i < b + n \<or> (tbl t ! i = AT_TAIL \<and> i \<noteq> b)" using k4 [OF i] by (auto split: if_splits)
    then show "0 < i" using ok i by (auto simp: heap_ok_def)
    show "tbl s4 ! (i - 1) \<in> {AT_HEAD, AT_TAIL}" using tl k4 [of "i - 1"] i ok by (auto simp: heap_ok_def)
  next
    fix i assume i: "i < n_blk t" "i < gc_last_free_atb_index s4 * BLOCKS_PER_ATB"
    show "tbl s4 ! i \<noteq> AT_FREE"
    proof (cases "n = 1")
      case True
      then have "i < e + 1" using i(2) lf by (simp add: BLOCKS_PER_ATB_def)
      moreover have "e = b" using be True by simp
      moreover have "tbl t ! i \<noteq> AT_FREE" if "i < e"
      proof (cases "i < gc_last_free_atb_index t * BLOCKS_PER_ATB")
        case True then show ?thesis using ok i(1) by (simp add: heap_ok_def)
      next
        case False
        then have "\<not> is_free t i" using first \<open>n = 1\<close> that by simp
        then show ?thesis using i(1) bn(2) by (simp add: is_free_def ATB_GET_KIND_def)
      qed
      ultimately show ?thesis using k4 [OF i(1)] by (cases "i = b") auto
    next
      case False
      then show ?thesis using i lf ok k4 [OF i(1)] by (auto simp: heap_ok_def)
    qed
  qed
  then show ?thesis using r al unfolding b_def by blast
qed

text \<open>What \<^verbatim>\<open>gc_alloc\<close> asks of a collection: it keeps the invariant and does not move anything.\<close>

locale collector =
  fixes collect :: "gc_state \<Rightarrow> gc_state"
  assumes keeps_ok: "heap_ok s \<Longrightarrow> heap_ok (collect s)"
    and keeps_layout: "heap_ok s \<Longrightarrow> n_blk (collect s) = n_blk s \<and> gc_pool_start (collect s) = gc_pool_start s \<and>
      gc_lock_depth (collect s) = gc_lock_depth s \<and> pool (collect s) = pool s"
    and only_frees: "heap_ok s \<Longrightarrow> b < n_blk s \<Longrightarrow> tbl (collect s) ! b \<in> {tbl s ! b, AT_FREE}"
begin

lemma search_correct:
  assumes ok: "heap_ok t" and n: "0 < n"
    and r: "find_free t n (gc_last_free_atb_index t * BLOCKS_PER_ATB) 0 = r"
  shows "case r of
      Some e \<Rightarrow> (\<exists>b s'. free_run t b n \<and> take_blocks n e fin t = (s', Some (PTR_FROM_BLOCK t b)) \<and> heap_ok s' \<and> allocated t b n fin s')
    | None \<Rightarrow> \<not> (\<exists>b. free_run t b n)"
proof (cases r)
  case None
  have "\<not> free_run t b n" for b
  proof
    assume run: "free_run t b n"
    then have "b < n_blk t" "is_free t b" using n by (auto simp: free_run_def)
    then have "tbl t ! b = AT_FREE" using ok by (auto simp: is_free_def ATB_GET_KIND_def heap_ok_def tables_ok_def)
    then have "gc_last_free_atb_index t * BLOCKS_PER_ATB \<le> b" using ok \<open>b < n_blk t\<close> by (auto simp: heap_ok_def not_less [symmetric])
    then show False using find_free_None [of t n "gc_last_free_atb_index t * BLOCKS_PER_ATB" 0 b] r None n run by simp
  qed
  then show ?thesis using None by simp
next
  case (Some e)
  have vac: "\<forall>j. gc_last_free_atb_index t * BLOCKS_PER_ATB - 0 \<le> j \<and> j < gc_last_free_atb_index t * BLOCKS_PER_ATB \<longrightarrow> is_free t j"
    by auto
  have f: "n \<le> e + 1" "free_run t (e + 1 - n) n"
    "n = 1 \<longrightarrow> (\<forall>j. gc_last_free_atb_index t * BLOCKS_PER_ATB \<le> j \<and> j < e \<longrightarrow> \<not> is_free t j)"
    using find_free_Some [OF r [unfolded Some] n n le0 vac] by blast+
  from take_blocks_correct [OF ok n f(1,2,3), of fin] obtain s' where
    "take_blocks n e fin t = (s', Some (PTR_FROM_BLOCK t (e + 1 - n)))" "heap_ok s'" "allocated t (e + 1 - n) n fin s'" by blast
  then show ?thesis using f(2) Some unfolding Some option.case by blast
qed

lemma alloc_correct:
  assumes ok: "heap_ok s" and open_heap: "gc_lock_depth s = 0" and n: "n = u32 (n_bytes + BYTES_PER_BLOCK - 1) div BYTES_PER_BLOCK" "0 < n"
    and r: "gc_alloc collect n_bytes fin s = (s', ptr)"
  shows "\<exists>t. (t = s \<or> t = collect s) \<and> heap_ok t \<and>
    (case ptr of
       Some p \<Rightarrow> \<exists>b. free_run t b n \<and> p = PTR_FROM_BLOCK s b \<and> heap_ok s' \<and> allocated t b n fin s'
     | None \<Rightarrow> s' = t \<and> \<not> (\<exists>b. free_run t b n) \<and> (gc_auto_collect_enabled s \<longrightarrow> t = collect s))"
proof -
  have search: "\<exists>t. (t = s \<or> t = collect s) \<and> heap_ok t \<and>
    (case ptr of
       Some p \<Rightarrow> \<exists>b. free_run t b n \<and> p = PTR_FROM_BLOCK s b \<and> heap_ok s' \<and> allocated t b n fin s'
     | None \<Rightarrow> s' = t \<and> \<not> (\<exists>b. free_run t b n) \<and> (gc_auto_collect_enabled s \<longrightarrow> t = collect s))"
    if t: "t = s \<or> t = collect s" and stop: "gc_auto_collect_enabled s \<longrightarrow> t = collect s \<or>
        find_free t n (gc_last_free_atb_index t * BLOCKS_PER_ATB) 0 \<noteq> None"
      and res: "(case find_free t n (gc_last_free_atb_index t * BLOCKS_PER_ATB) 0 of
        Some i \<Rightarrow> take_blocks n i fin t | None \<Rightarrow> (t, None)) = (s', ptr)" for t
  proof -
    have okt: "heap_ok t" using t ok keeps_ok by auto
    have ps: "PTR_FROM_BLOCK t b = PTR_FROM_BLOCK s b" for b using t keeps_layout [OF ok] by (auto simp: PTR_FROM_BLOCK_def)
    show ?thesis
    proof (cases "find_free t n (gc_last_free_atb_index t * BLOCKS_PER_ATB) 0")
      case None
      then show ?thesis using search_correct [OF okt n(2) refl, of fin] t okt res stop by auto
    next
      case (Some e)
      then show ?thesis using search_correct [OF okt n(2) refl, of fin] t okt res ps by fastforce
    qed
  qed
  define now where "now = (gc_auto_collect_enabled s \<and> gc_alloc_amount s \<ge> gc_alloc_threshold s)"
  define t where "t = (if now then collect s else s)"
  let ?f = "find_free t n (gc_last_free_atb_index t * BLOCKS_PER_ATB) 0"
  have a: "(case ?f of Some i \<Rightarrow> take_blocks n i fin t
      | None \<Rightarrow> if \<not> gc_auto_collect_enabled s \<or> now then (t, None)
          else case find_free (collect t) n (gc_last_free_atb_index (collect t) * BLOCKS_PER_ATB) 0 of
                 Some i \<Rightarrow> take_blocks n i fin (collect t) | None \<Rightarrow> (collect t, None)) = (s', ptr)"
    using r open_heap n by (simp add: gc_alloc_def Let_def now_def t_def cong: option.case_cong if_cong)
  show ?thesis
  proof (cases "?f = None \<and> gc_auto_collect_enabled s \<and> \<not> now")
    case True
    then have "t = s" by (simp add: t_def)
    then show ?thesis using a True by (intro search [of "collect s"]) (simp_all cong: option.case_cong)
  next
    case False
    then have "(case ?f of Some i \<Rightarrow> take_blocks n i fin t | None \<Rightarrow> (t, None)) = (s', ptr)"
      using a by (auto split: option.splits if_splits)
    then show ?thesis using False by (intro search [of t]) (auto simp: t_def)
  qed
qed

end

interpretation rp2: collector "\<lambda>s. fst (gc_collect ctx stacks s)" for ctx stacks
proof
  fix s b
  assume ok: "heap_ok s"
  obtain s' log where g: "gc_collect ctx stacks s = (s', log)" "heap_ok s'" "pool s' = pool s" "gc_lock_depth s' = gc_lock_depth s"
    "n_blk s' = n_blk s" "gc_pool_start s' = gc_pool_start s"
    "\<forall>b < n_blk s. tbl s' ! b = (if survives s (ctx @ stacks) b then tbl s ! b else AT_FREE)"
    using gc_collect_exact [OF ok, of ctx stacks] by auto
  then show "heap_ok (fst (gc_collect ctx stacks s))"
    "n_blk (fst (gc_collect ctx stacks s)) = n_blk s \<and> gc_pool_start (fst (gc_collect ctx stacks s)) = gc_pool_start s \<and>
      gc_lock_depth (fst (gc_collect ctx stacks s)) = gc_lock_depth s \<and> pool (fst (gc_collect ctx stacks s)) = pool s"
    "b < n_blk s \<Longrightarrow> tbl (fst (gc_collect ctx stacks s)) ! b \<in> {tbl s ! b, AT_FREE}" by simp_all
qed

end
