(* ===== verification/Gc_Release.thy ===== *)
theory Gc_Release
  imports Gc_Alloc
begin

text \<open>
  Release, size and reallocation of a chain of blocks, and the statistics of the heap.
\<close>

section \<open>Chains\<close>

text \<open>
  The blocks \<open>b\<close> to \<open>b + n - 1\<close> are one chain. The code finds the end of a chain by the kind of the next
  block, also behind the last block of the heap, where it reads the first field of the finaliser
  table: a chain is closed if it ends before the last block or that field does not look like a
  tail.
\<close>

definition chain :: "gc_state \<Rightarrow> nat \<Rightarrow> nat \<Rightarrow> bool" where
  "chain s b n \<longleftrightarrow> 0 < n \<and> b + n \<le> n_blk s \<and> tbl s ! b = AT_HEAD \<and>
     (\<forall>j. b < j \<and> j < b + n \<longrightarrow> tbl s ! j = AT_TAIL) \<and> (b + n < n_blk s \<longrightarrow> tbl s ! (b + n) \<noteq> AT_TAIL)"

definition closed_chain :: "gc_state \<Rightarrow> nat \<Rightarrow> nat \<Rightarrow> bool" where
  "closed_chain s b n \<longleftrightarrow> chain s b n \<and> (b + n = n_blk s \<longrightarrow> tbl s ! n_blk s \<noteq> AT_TAIL)"

lemma chain_len_eq:
  assumes ok: "tables_ok s" and c: "closed_chain s b n"
  shows "chain_len s b = n"
proof -
  have len: "b + n < length (tbl s)" using assms by (auto simp: tables_ok_def closed_chain_def chain_def)
  have "takeWhile (\<lambda>k. k = AT_TAIL) (drop (b + 1) (tbl s)) = take (n - 1) (drop (b + 1) (tbl s))"
  proof (rule takeWhile_eq_take_P_nth)
    fix i assume "i < n - 1" "i < length (drop (b + 1) (tbl s))"
    then show "drop (b + 1) (tbl s) ! i = AT_TAIL" using c by (simp add: closed_chain_def chain_def)
  next
    have "tbl s ! (b + n) \<noteq> AT_TAIL" using c by (cases "b + n = n_blk s") (auto simp: closed_chain_def chain_def)
    moreover have "b + 1 + (n - 1) = b + n" using c by (simp add: closed_chain_def chain_def)
    ultimately show "drop (b + 1) (tbl s) ! (n - 1) \<noteq> AT_TAIL" using len by simp
  qed
  then show ?thesis using len c by (simp add: chain_len_def closed_chain_def chain_def)
qed

lemma chain_unique: "chain s b m \<Longrightarrow> chain s b n \<Longrightarrow> m = n"
proof -
  have "\<not> m < n" if "chain s b m" "chain s b n" for m n
    using that by (auto simp: chain_def)
  then show "chain s b m \<Longrightarrow> chain s b n \<Longrightarrow> m = n" by (metis linorder_neqE_nat)
qed

lemma head_chain:
  assumes "b < n_blk s" "tbl s ! b = AT_HEAD"
  shows "\<exists>n. chain s b n"
proof -
  define e where "e = (LEAST j. b < j \<and> (j < n_blk s \<longrightarrow> tbl s ! j \<noteq> AT_TAIL))"
  have ex: "b < n_blk s \<and> (n_blk s < n_blk s \<longrightarrow> tbl s ! n_blk s \<noteq> AT_TAIL)" using assms by simp
  have e: "b < e \<and> (e < n_blk s \<longrightarrow> tbl s ! e \<noteq> AT_TAIL)" unfolding e_def by (rule LeastI) (rule ex)
  have le: "e \<le> n_blk s" unfolding e_def by (rule Least_le) (rule ex)
  have "tbl s ! j = AT_TAIL" if "b < j" "j < e" for j using not_less_Least [of j] that unfolding e_def by blast
  then have "chain s b (e - b)" using e le assms by (simp add: chain_def)
  then show ?thesis by blast
qed

lemma block_ptr [simp]: "BLOCK_FROM_PTR s (PTR_FROM_BLOCK s b) = b"
  by (simp add: BLOCK_FROM_PTR_def PTR_FROM_BLOCK_def BYTES_PER_BLOCK_def)

lemma verify_ptr:
  "gc_pool_start s mod BYTES_PER_BLOCK = 0 \<Longrightarrow> b < n_blk s \<Longrightarrow> VERIFY_PTR s (PTR_FROM_BLOCK s b)"
  by (simp add: VERIFY_PTR_def PTR_FROM_BLOCK_def gc_pool_end_def BYTES_PER_BLOCK_def mod_add_eq)

section \<open>Release\<close>

text \<open>The state after the blocks \<open>b\<close> to \<open>b + n - 1\<close> have been given back.\<close>

definition released :: "gc_state \<Rightarrow> nat \<Rightarrow> nat \<Rightarrow> gc_state \<Rightarrow> bool" where
  "released s b n s' \<longleftrightarrow> n_blk s' = n_blk s \<and> gc_pool_start s' = gc_pool_start s \<and> pool s' = pool s \<and>
     gc_lock_depth s' = gc_lock_depth s \<and>
     (\<forall>i < n_blk s. tbl s' ! i = (if b \<le> i \<and> i < b + n then AT_FREE else tbl s ! i)) \<and>
     (\<forall>i < n_blk s. FTB_GET s' i \<longleftrightarrow> FTB_GET s i \<and> i \<noteq> b)"

lemma tables_ok_range:
  assumes "tables_ok s" "\<forall>k < 4. g k < 4"
  shows "tables_ok (update_range g a b s)"
proof -
  have "k < 4" if k: "k \<in> set (tbl (update_range g a b s))" for k
  proof -
    obtain i where "i < length (tbl s)" "k = tbl (update_range g a b s) ! i"
      using k update_range_nth(1) [of g a b s] by (auto simp: in_set_conv_nth)
    then show ?thesis using assms tables_ok_nth [OF assms(1)] by (simp add: update_range_nth)
  qed
  then show ?thesis using assms(1) update_range_nth(1) [of g a b s] by (simp add: tables_ok_def update_range_def n_blk_def)
qed

lemma ftb_update_range:
  assumes "tables_ok s" "b \<le> n_blk s" "i < n_blk s"
  shows "FTB_GET (update_range g a b s) i = FTB_GET s i"
proof -
  have "ftb_field s i < length (tbl s)" "\<not> ftb_field s i < b" using ftb_in_range [OF assms(1,3)] assms(2) by (simp_all add: ftb_field_def)
  moreover have "ftb_field (update_range g a b s) i = ftb_field s i" by (simp add: ftb_field_def update_range_def n_blk_def)
  ultimately show ?thesis by (simp add: FTB_GET_def update_range_nth)
qed

text \<open>Whatever is freed from \<open>m\<close> blocks into a chain to its end, the heap stays well formed.\<close>

lemma heap_ok_free:
  assumes ok: "heap_ok s" and c: "chain s b n" and m: "m \<le> n"
    and s': "tables_ok s'" "n_blk s' = n_blk s"
    and k: "\<forall>i < n_blk s. tbl s' ! i = (if b + m \<le> i \<and> i < b + n then AT_FREE else tbl s ! i)"
    and f: "\<forall>i < n_blk s. FTB_GET s' i \<longrightarrow> FTB_GET s i \<and> (m = 0 \<longrightarrow> i \<noteq> b)"
    and l: "gc_last_free_atb_index s' \<le> gc_last_free_atb_index s" "m < n \<longrightarrow> gc_last_free_atb_index s' \<le> (b + m) div BLOCKS_PER_ATB"
  shows "heap_ok s'"
  unfolding heap_ok_def s'(2)
proof (intro conjI allI impI)
  show "tables_ok s'" by (rule s'(1))
  show "no_marks s'" using ok k by (simp add: heap_ok_def no_marks_def s'(2))
  fix i assume i: "i < n_blk s"
  show "tbl s' ! i = AT_HEAD" if "FTB_GET s' i"
  proof -
    have h: "tbl s ! i = AT_HEAD" "m = 0 \<longrightarrow> i \<noteq> b" using ok f i that by (auto simp: heap_ok_def)
    then have "\<not> (b + m \<le> i \<and> i < b + n)" using c by (cases "i = b") (auto simp: chain_def)
    then show ?thesis using h k i by auto
  qed
  { assume t: "tbl s' ! i = AT_TAIL"
    then have t0: "tbl s ! i = AT_TAIL" "\<not> (b + m \<le> i \<and> i < b + n)" using k i by (auto split: if_splits)
    then have p: "0 < i" "tbl s ! (i - 1) \<in> {AT_HEAD, AT_TAIL}" using ok i by (auto simp: heap_ok_def)
    have "i \<noteq> b + n" using c t0 i by (auto simp: chain_def)
    then have "\<not> (b + m \<le> i - 1 \<and> i - 1 < b + n)" using t0(2) by auto
    then show "0 < i" "tbl s' ! (i - 1) \<in> {AT_HEAD, AT_TAIL}" using p k i by auto }
  assume "i < gc_last_free_atb_index s' * BLOCKS_PER_ATB"
  then have "i < gc_last_free_atb_index s * BLOCKS_PER_ATB" "m < n \<longrightarrow> i < b + m"
    using l by (auto simp: BLOCKS_PER_ATB_def)
  then show "tbl s' ! i \<noteq> AT_FREE" using ok k i by (auto simp: heap_ok_def)
qed

lemma ftb_clear_kind:
  assumes ok: "heap_ok s" and c: "closed_chain s b n"
  shows "closed_chain (FTB_CLEAR b s) b n"
proof -
  have lt: "b < n_blk s" using c by (auto simp: closed_chain_def chain_def)
  have tok: "tables_ok s" using ok by (simp add: heap_ok_def)
  have n: "n_blk (FTB_CLEAR b s) = n_blk s" by (simp add: FTB_CLEAR_def n_blk_def)
  have k: "tbl (FTB_CLEAR b s) ! i = tbl s ! i" if "i < n_blk s" for i using that by (simp add: FTB_CLEAR_def ftb_field_def)
  have ch: "chain (FTB_CLEAR b s) b n" using c k by (auto simp: closed_chain_def chain_def n)
  have "tbl (FTB_CLEAR b s) ! n_blk s \<noteq> AT_TAIL" if last: "b + n = n_blk s"
  proof
    assume two: "tbl (FTB_CLEAR b s) ! n_blk s = AT_TAIL"
    have f: "ftb_field s 0 = n_blk s" "ftb_field s 1 = n_blk s" "ftb_field (FTB_CLEAR b s) 1 = n_blk s" "ftb_field (FTB_CLEAR b s) 0 = n_blk s"
      by (simp_all add: ftb_field_def n)
    have "bit (2 :: nat) 1" "\<not> bit (2 :: nat) 0" by (simp_all add: bit_iff_odd)
    then have c1: "FTB_GET (FTB_CLEAR b s) 1" "\<not> FTB_GET (FTB_CLEAR b s) 0"
      unfolding FTB_GET_def f two by simp_all
    then have g: "FTB_GET s 1" "b \<noteq> 1" "FTB_GET s 0 \<longrightarrow> b = 0" using ftb_clear_get [OF tok lt] by auto
    have n1: "1 < n_blk s" using g lt last c by (cases "b = 0") (auto simp: n_blk_def BLOCKS_PER_ATB_def)
    then have h: "tbl s ! 1 = AT_HEAD" using ok g(1) by (simp add: heap_ok_def)
    then have "b \<noteq> 0" using c last n1 by (auto simp: closed_chain_def chain_def)
    then have "\<not> FTB_GET s 0" using g by simp
    moreover have "tbl s ! n_blk s < 4" using tables_ok_nth [OF tok, of "n_blk s"] tok lt by (auto simp: tables_ok_def)
    ultimately have "tbl s ! n_blk s \<in> {0, 1, 2, 3}" "odd (tbl s ! n_blk s div 2)" "even (tbl s ! n_blk s)"
      using g(1) unfolding FTB_GET_def f by (auto simp: bit_iff_odd)
    then show False using c last by (auto simp: closed_chain_def)
  qed
  then show ?thesis using ch n by (simp add: closed_chain_def)
qed

lemma gc_free_correct:
  assumes ok: "heap_ok s" and open_heap: "gc_lock_depth s = 0" and c: "closed_chain s b n"
    and align: "gc_pool_start s mod BYTES_PER_BLOCK = 0"
  shows "\<exists>s'. gc_free (Some (PTR_FROM_BLOCK s b)) s = Some s' \<and> heap_ok s' \<and> released s b n s'"
proof -
  have tok: "tables_ok s" using ok by (simp add: heap_ok_def)
  have b: "b < n_blk s" "b + n \<le> n_blk s" "tbl s ! b = AT_HEAD" "n_blk s \<le> length (tbl s)" "chain s b n"
    using c tok by (auto simp: closed_chain_def chain_def tables_ok_def)
  define s1 where "s1 = FTB_CLEAR b s"
  define s2 where "s2 = (if b div BLOCKS_PER_ATB < gc_last_free_atb_index s1
      then s1\<lparr>gc_last_free_atb_index := b div BLOCKS_PER_ATB\<rparr> else s1)"
  have tok1: "tables_ok s1" unfolding s1_def FTB_CLEAR_def
    using tok field_mask_less(2) [OF tables_ok_nth [OF tok ftb_in_range [OF tok b(1)]], of b] by (intro tables_ok_update) simp_all
  have e2: "tbl s2 = tbl s1" "n_blk s2 = n_blk s" "pool s2 = pool s" "gc_pool_start s2 = gc_pool_start s" "gc_lock_depth s2 = gc_lock_depth s"
    by (simp_all add: s2_def s1_def FTB_CLEAR_def n_blk_def)
  have e1: "n_blk s1 = n_blk s" "pool s1 = pool s" by (simp_all add: s1_def FTB_CLEAR_def n_blk_def)
  have tok2: "tables_ok s2" using tok1 unfolding tables_ok_def e1 e2(1,2,3) by simp
  have ftb2: "FTB_GET s2 i \<longleftrightarrow> FTB_GET s i \<and> i \<noteq> b" for i
    using ftb_clear_get [OF tok b(1), of i] e2 by (simp add: FTB_GET_def ftb_field_def s1_def [symmetric] e2) (simp add: s1_def FTB_CLEAR_def n_blk_def)
  have cl: "chain_len s2 b = n"
    using chain_len_eq [OF tok1 ftb_clear_kind [OF ok c, folded s1_def]] e2(1) by (simp add: chain_len_def)
  define s3 where "s3 = update_range (\<lambda>k. 0) b (b + n) s2"
  have r: "gc_free (Some (PTR_FROM_BLOCK s b)) s = Some s3"
    using open_heap verify_ptr [OF align b(1)] b
    by (simp add: gc_free_def Let_def ATB_GET_KIND_def s1_def [symmetric] s2_def [symmetric])
      (simp add: free_chain_def cl fold_to_free s3_def)
  have k: "\<forall>i < n_blk s. tbl s3 ! i = (if b \<le> i \<and> i < b + n then AT_FREE else tbl s ! i)"
    using b(4) e2(1) by (auto simp: s3_def update_range_nth s1_def FTB_CLEAR_def ftb_field_def)
  have ftb3: "\<forall>i < n_blk s. FTB_GET s3 i \<longleftrightarrow> FTB_GET s i \<and> i \<noteq> b"
    using ftb_update_range [OF tok2, of "b + n"] b(2) ftb2 e2(2) by (simp add: s3_def)
  have n3: "n_blk s3 = n_blk s" "gc_last_free_atb_index s3 = gc_last_free_atb_index s2" "pool s3 = pool s"
      "gc_pool_start s3 = gc_pool_start s" "gc_lock_depth s3 = gc_lock_depth s"
    using e2 by (simp_all add: s3_def update_range_def n_blk_def)
  have "tables_ok s3" using tables_ok_range [OF tok2, of "\<lambda>k. 0"] by (simp add: s3_def)
  moreover have "gc_last_free_atb_index s3 \<le> gc_last_free_atb_index s \<and> gc_last_free_atb_index s3 \<le> b div BLOCKS_PER_ATB"
    by (simp add: n3 s2_def s1_def FTB_CLEAR_def)
  ultimately have "heap_ok s3" by (intro heap_ok_free [OF ok b(5), of 0 s3]) (use k ftb3 n3(1) in simp_all)
  then show ?thesis using r k ftb3 n3 by (intro exI [of _ s3]) (simp add: released_def)
qed

section \<open>What an operation keeps\<close>

text \<open>The first \<open>k\<close> blocks at \<open>d\<close> in one state and at \<open>c\<close> in another hold the same words.\<close>

definition same_words :: "gc_state \<Rightarrow> nat \<Rightarrow> gc_state \<Rightarrow> nat \<Rightarrow> nat \<Rightarrow> bool" where
  "same_words s d s' c k \<longleftrightarrow>
     (\<forall>i < k * WORDS_PER_BLOCK. pool s' ! (c * WORDS_PER_BLOCK + i) = pool s ! (d * WORDS_PER_BLOCK + i))"

lemma same_words_trans: "same_words s d t c k \<Longrightarrow> same_words t c u e k \<Longrightarrow> same_words s d u e k"
  by (simp add: same_words_def)

lemma same_words_pool: "pool s' = pool s \<Longrightarrow> same_words s d s' d k"
  by (simp add: same_words_def)

lemma chain_kinds: "chain s d k \<Longrightarrow> d \<le> j \<Longrightarrow> j < d + k \<Longrightarrow> j < n_blk s \<and> tbl s ! j \<in> {AT_HEAD, AT_TAIL}"
  by (cases "j = d") (auto simp: chain_def)

lemma head_of_chain:
  assumes "chain s d k" "d \<le> j" "j < d + k"
  shows "head_of s j = d"
  using assms(2,3)
proof (induction j rule: dec_induct)
  case base
  then show ?case using assms(1) by (cases d) (auto simp: chain_def)
next
  case (step j)
  then have "tbl s ! Suc j = AT_TAIL" using assms(1) by (simp add: chain_def)
  then show ?case using step by simp
qed

lemma chains_disjoint:
  assumes "chain s b n" "chain s d k" "d \<noteq> b" "b \<le> j" "j < b + n"
  shows "\<not> (d \<le> j \<and> j < d + k)"
  using head_of_chain [OF assms(1,4,5)] head_of_chain [OF assms(2), of j] assms(3) by blast

lemma is_free_kind: "heap_ok t \<Longrightarrow> j < n_blk t \<Longrightarrow> is_free t j \<longleftrightarrow> tbl t ! j = AT_FREE"
  by (auto simp: is_free_def ATB_GET_KIND_def heap_ok_def tables_ok_def)

lemma free_disjoint:
  assumes "heap_ok t" "free_run t c m" "chain t d k" "d \<le> j" "j < d + k"
  shows "\<not> (c \<le> j \<and> j < c + m)"
proof
  assume "c \<le> j \<and> j < c + m"
  then have "is_free t j" using assms(2) by (simp add: free_run_def)
  then show False using chain_kinds [OF assms(3,4,5)] is_free_kind [OF assms(1), of j] by auto
qed

lemma after_free:
  assumes "heap_ok t" "free_run t c m" "0 < m" "c + m < n_blk t"
  shows "tbl t ! (c + m) \<noteq> AT_TAIL"
proof
  assume "tbl t ! (c + m) = AT_TAIL"
  then have "tbl t ! (c + m - 1) \<in> {AT_HEAD, AT_TAIL}" using assms(1,4) by (force simp: heap_ok_def)
  moreover have "is_free t (c + m - 1)" using assms(2,3) by (simp add: free_run_def)
  ultimately show False using is_free_kind [OF assms(1), of "c + m - 1"] assms(4) by auto
qed

lemma words_disjoint:
  assumes "\<forall>j. d \<le> j \<and> j < d + k \<longrightarrow> \<not> (c \<le> j \<and> j < c + m)" "i < k * WORDS_PER_BLOCK"
  shows "\<not> (c * WORDS_PER_BLOCK \<le> d * WORDS_PER_BLOCK + i \<and> d * WORDS_PER_BLOCK + i < (c + m) * WORDS_PER_BLOCK)"
proof
  assume a: "c * WORDS_PER_BLOCK \<le> d * WORDS_PER_BLOCK + i \<and> d * WORDS_PER_BLOCK + i < (c + m) * WORDS_PER_BLOCK"
  let ?j = "(d * WORDS_PER_BLOCK + i) div WORDS_PER_BLOCK"
  have "d \<le> ?j \<and> ?j < d + k" "c \<le> ?j \<and> ?j < c + m" using a assms(2) by (auto simp: WORDS_PER_BLOCK_def)
  then show False using assms(1) by blast
qed

lemma alloc_keeps:
  assumes ok: "heap_ok t" and run: "free_run t c m" "0 < m" and a: "allocated t c m fin s'" and ch: "chain t d k"
  shows "chain s' d k" "same_words t d s' d k"
proof -
  have dj: "\<forall>j. d \<le> j \<and> j < d + k \<longrightarrow> \<not> (c \<le> j \<and> j < c + m)" using free_disjoint [OF ok run(1) ch] by blast
  have n: "n_blk s' = n_blk t" and tb: "\<forall>i < n_blk t. tbl s' ! i = (if i = c then AT_HEAD else if c < i \<and> i < c + m then AT_TAIL else tbl t ! i)"
    and pl: "\<forall>i < length (pool t). pool s' ! i = (if c * WORDS_PER_BLOCK \<le> i \<and> i < (c + m) * WORDS_PER_BLOCK then 0 else pool t ! i)"
    using a by (simp_all add: allocated_def)
  have in_d: "tbl s' ! j = tbl t ! j" if j: "d \<le> j" "j < d + k" for j
  proof -
    have "j < n_blk t" using ch j by (simp add: chain_def)
    moreover have "j \<noteq> c" using dj j run(2) by auto
    ultimately show ?thesis using tb dj j by auto
  qed
  have "tbl s' ! (d + k) \<noteq> AT_TAIL" if lt: "d + k < n_blk t"
  proof -
    have "\<not> (c < d + k \<and> d + k < c + m)" using dj [rule_format, of "d + k - 1"] chain_def [of t d k] ch by linarith
    moreover have "tbl t ! (d + k) \<noteq> AT_TAIL" using ch lt by (simp add: chain_def)
    ultimately show ?thesis using tb lt by auto
  qed
  then show "chain s' d k" using ch in_d by (auto simp: chain_def n)
  have "(d + k) * WORDS_PER_BLOCK \<le> length (pool t)" using ok ch by (simp add: heap_ok_def tables_ok_def chain_def)
  then have "d * WORDS_PER_BLOCK + i < length (pool t)" if "i < k * WORDS_PER_BLOCK" for i using that by (simp add: add_mult_distrib)
  then show "same_words t d s' d k" using pl words_disjoint [OF dj] by (auto simp: same_words_def)
qed

lemma alloc_chain:
  assumes ok: "heap_ok t" and run: "free_run t c m" "0 < m" and a: "allocated t c m fin s'"
  shows "chain s' c m"
  using after_free [OF ok run] run a by (auto simp: chain_def allocated_def free_run_def)

lemma release_keeps:
  assumes r: "released s b n s'" and b: "chain s b n" and d: "chain s d k" "d \<noteq> b"
  shows "chain s' d k" "same_words s d s' d k"
proof -
  have n: "n_blk s' = n_blk s" and tb: "\<forall>i < n_blk s. tbl s' ! i = (if b \<le> i \<and> i < b + n then AT_FREE else tbl s ! i)"
    using r by (simp_all add: released_def)
  have "tbl s' ! j = tbl s ! j" if "d \<le> j" "j < d + k" for j
    using that tb chains_disjoint [OF b d, of j] chain_kinds [OF d(1) that] by auto
  then show "chain s' d k" using d(1) tb n by (auto simp: chain_def)
  show "same_words s d s' d k" using r by (intro same_words_pool) (simp add: released_def)
qed

lemma collect_keeps:
  assumes ok: "heap_ok s" and d: "chain s d k" "reach s (ctx @ stacks) d"
  shows "chain (fst (gc_collect ctx stacks s)) d k" "FTB_GET (fst (gc_collect ctx stacks s)) d = FTB_GET s d"
proof -
  define s' where "s' = fst (gc_collect ctx stacks s)"
  obtain s'' log where g: "gc_collect ctx stacks s = (s'', log)" "n_blk s'' = n_blk s"
    "\<forall>b < n_blk s. tbl s'' ! b = (if survives s (ctx @ stacks) b then tbl s ! b else AT_FREE)"
    "\<forall>b < n_blk s. FTB_GET s'' b \<longleftrightarrow> FTB_GET s b \<and> reach s (ctx @ stacks) b"
    using gc_collect_exact [OF ok, of ctx stacks] by auto
  then have e: "n_blk s' = n_blk s" "\<forall>b < n_blk s. tbl s' ! b = (if survives s (ctx @ stacks) b then tbl s ! b else AT_FREE)"
    "\<forall>b < n_blk s. FTB_GET s' b \<longleftrightarrow> FTB_GET s b \<and> reach s (ctx @ stacks) b"
    by (simp_all add: s'_def)
  have "tbl s' ! j = tbl s ! j" if j: "d \<le> j" "j < d + k" for j
    using e(2) chain_kinds [OF d(1) j] head_of_chain [OF d(1) j] d(2) by (auto simp: survives_def)
  then have "chain s' d k" using d(1) e(1,2) by (auto simp: chain_def)
  then show "chain (fst (gc_collect ctx stacks s)) d k" by (simp add: s'_def)
  have "d < n_blk s" using d(1) by (auto simp: chain_def)
  then have "FTB_GET s' d = FTB_GET s d" using e(3) d(2) by simp
  then show "FTB_GET (fst (gc_collect ctx stacks s)) d = FTB_GET s d" by (simp add: s'_def)
qed

section \<open>Reallocation\<close>

lemma count_tails:
  assumes "\<forall>j. bl \<le> j \<and> j < e \<longrightarrow> ATB_GET_KIND s j = AT_TAIL" "e \<le> n_blk s" "bl \<le> e"
  shows "realloc_count s m bl nb 0 = realloc_count s m e (nb + (e - bl)) 0"
  using assms(3,1)
proof (induction bl arbitrary: nb rule: inc_induct)
  case (step bl)
  have "ATB_GET_KIND s bl = AT_TAIL" "bl < n_blk s" using step.hyps step.prems assms(2) by auto
  then show ?case using step by (subst realloc_count.simps) simp
qed simp

lemma count_free:
  assumes "heap_ok s" "bl < n_blk s \<longrightarrow> tbl s ! bl \<noteq> AT_TAIL"
  shows "\<exists>f'. realloc_count s m bl nb f = (nb, f + f') \<and> (bl \<le> n_blk s \<longrightarrow> free_run s bl f')"
  using assms
proof (induction s m bl nb f rule: realloc_count.induct)
  case (1 s m bl nb f)
  show ?case
  proof (cases "bl < n_blk s \<and> is_free s bl")
    case True
    then have k: "ATB_GET_KIND s bl = AT_FREE" by (simp add: is_free_def)
    show ?thesis
    proof (cases "nb + (f + 1) \<ge> m")
      case full: True
      then have "realloc_count s m bl nb f = (nb, f + 1)" using True k by (simp add: realloc_count.simps [of s m bl])
      moreover have "free_run s bl 1" using True by (auto simp: free_run_def less_Suc_eq)
      ultimately show ?thesis by blast
    next
      case False
      have run1: "free_run s bl 1" using True by (auto simp: free_run_def less_Suc_eq)
      have "bl + 1 < n_blk s \<longrightarrow> tbl s ! (bl + 1) \<noteq> AT_TAIL" using after_free [OF "1.prems"(1) run1] by simp
      then obtain f' where f': "realloc_count s m (bl + 1) nb (f + 1) = (nb, f + 1 + f')"
        "bl + 1 \<le> n_blk s \<longrightarrow> free_run s (bl + 1) f'"
        using "1.IH"(2) [of "ATB_GET_KIND s bl"] "1.prems" True k False by auto
      then have "realloc_count s m bl nb f = (nb, f + (1 + f'))" using True k False by (simp add: realloc_count.simps [of s m bl])
      moreover have "free_run s bl (1 + f')"
      proof -
        have "is_free s j" if "bl \<le> j" "j < bl + (1 + f')" for j
          using that f'(2) True by (cases "j = bl") (auto simp: free_run_def)
        then show ?thesis using f'(2) True by (auto simp: free_run_def)
      qed
      ultimately show ?thesis by blast
    qed
  next
    case False
    have "realloc_count s m bl nb f = (nb, f)"
    proof (cases "bl < n_blk s")
      case True
      have "ATB_GET_KIND s bl \<noteq> AT_TAIL" using True "1.prems" by (auto simp: ATB_GET_KIND_def)
      then show ?thesis using False True by (subst realloc_count.simps) (simp add: Let_def is_free_def)
    qed (subst realloc_count.simps, simp)
    then show ?thesis by (intro exI [of _ 0]) (auto simp: free_run_def)
  qed
qed

lemma realloc_count_chain:
  assumes ok: "heap_ok s" and ch: "chain s b n"
  shows "\<exists>f. realloc_count s m (b + 1) 1 0 = (n, f) \<and> free_run s (b + n) f"
proof -
  have len: "n_blk s \<le> length (tbl s)" using ok by (simp add: heap_ok_def tables_ok_def)
  have "realloc_count s m (b + 1) 1 0 = realloc_count s m (b + n) (1 + (b + n - (b + 1))) 0"
    using ch len by (intro count_tails) (auto simp: chain_def ATB_GET_KIND_def)
  moreover have "1 + (b + n - (b + 1)) = n" "b + n \<le> n_blk s" using ch by (auto simp: chain_def)
  ultimately show ?thesis using count_free [OF ok, of "b + n" m n 0] ch by (auto simp: chain_def)
qed

text \<open>
  The outcome of a reallocation of the chain \<open>b\<close> of \<open>n\<close> blocks to \<open>m\<close> blocks: the result is a chain of \<open>m\<close>
  blocks with the old contents and finaliser bit, every other chain in \<open>live\<close> is as before, and on
  failure the old chain is.
\<close>

definition reallocated :: "gc_state \<Rightarrow> nat \<Rightarrow> nat \<Rightarrow> nat \<Rightarrow> (nat \<Rightarrow> bool) \<Rightarrow> gc_state \<times> nat option \<Rightarrow> bool" where
  "reallocated s b n m live r \<longleftrightarrow> (case r of (s', q) \<Rightarrow>
     heap_ok s' \<and> (\<forall>d k. chain s d k \<and> live d \<and> d \<noteq> b \<longrightarrow> chain s' d k \<and> same_words s d s' d k) \<and>
     (case q of None \<Rightarrow> chain s' b n \<and> same_words s b s' b n
      | Some p \<Rightarrow> (\<exists>c. p = PTR_FROM_BLOCK s c \<and> chain s' c m \<and> same_words s b s' c (min n m) \<and> (FTB_GET s' c \<longleftrightarrow> FTB_GET s b))))"

lemma realloc_shrink:
  assumes ok: "heap_ok s" and ch: "chain s b n" and m: "0 < m" "m < n"
    and s': "s' = update_range (\<lambda>k. 0) (b + m) (b + n) s"
    and s'': "s'' = (if (b + m) div BLOCKS_PER_ATB < gc_last_free_atb_index s'
      then s'\<lparr>gc_last_free_atb_index := (b + m) div BLOCKS_PER_ATB\<rparr> else s')"
  shows "reallocated s b n m live (s'', Some (PTR_FROM_BLOCK s b))"
proof -
  have tok: "tables_ok s" and len: "n_blk s \<le> length (tbl s)" using ok by (simp_all add: heap_ok_def tables_ok_def)
  have bn: "b + n \<le> n_blk s" "b < n_blk s" using ch by (auto simp: chain_def)
  have e: "tbl s'' = tbl s'" "n_blk s'' = n_blk s" "pool s'' = pool s" by (simp_all add: s'' s' update_range_def n_blk_def)
  have k: "\<forall>i < n_blk s. tbl s'' ! i = (if b + m \<le> i \<and> i < b + n then AT_FREE else tbl s ! i)"
    using len by (auto simp: e s' update_range_nth)
  have "ftb_field s'' = ftb_field s'" by (simp add: fun_eq_iff ftb_field_def s'' n_blk_def)
  then have f: "\<forall>i < n_blk s. FTB_GET s'' i = FTB_GET s i"
    using ftb_update_range [OF tok bn(1)] by (simp add: FTB_GET_def e s')
  have "tables_ok s'" using tables_ok_range [OF tok, of "\<lambda>k. 0"] by (simp add: s')
  then have "tables_ok s''" by (simp add: tables_ok_def s'' n_blk_def)
  then have "heap_ok s''"
    by (rule heap_ok_free [OF ok ch less_imp_le [OF m(2)]]) (use k f m e(2) in \<open>auto simp: s'' s' update_range_def\<close>)
  moreover have "chain s'' d l" if d: "chain s d l" "d \<noteq> b" for d l
  proof -
    have "tbl s'' ! j = tbl s ! j" if "d \<le> j" "j < d + l" for j
      using that chains_disjoint [OF ch d, of j] chain_kinds [OF d(1) that] k by auto
    then show ?thesis using d(1) k e(2) by (auto simp: chain_def)
  qed
  moreover have "chain s'' b m" using ch k m bn e(2) by (auto simp: chain_def)
  ultimately show ?thesis using f bn e(3) by (auto simp: reallocated_def intro: same_words_pool)
qed

lemma realloc_grow:
  assumes ok: "heap_ok s" and ch: "chain s b n" and m: "n < m" and run: "free_run s (b + n) (m - n)"
    and s': "s' = clear_blocks (b + n) (m - n) (update_range (\<lambda>k. k OR AT_TAIL) (b + n) (b + m) s)"
  shows "reallocated s b n m live (s', Some (PTR_FROM_BLOCK s b))"
proof -
  have tok: "tables_ok s" and len: "n_blk s \<le> length (tbl s)" using ok by (simp_all add: heap_ok_def tables_ok_def)
  have bm: "b + m \<le> n_blk s" "b < n_blk s" "b + n + (m - n) = b + m" using run ch m by (auto simp: chain_def free_run_def)
  define t where "t = update_range (\<lambda>k. k OR AT_TAIL) (b + n) (b + m) s"
  have e: "tbl s' = tbl t" "n_blk s' = n_blk s" "n_blk t = n_blk s" "pool t = pool s" "gc_last_free_atb_index s' = gc_last_free_atb_index s"
    by (simp_all add: s' t_def update_range_def n_blk_def clear_blocks_def)
  have fr: "tbl s ! i = AT_FREE" if "b + n \<le> i" "i < b + m" for i
    using run is_free_kind [OF ok, of i] that bm by (simp add: free_run_def)
  have k: "\<forall>i < n_blk s. tbl s' ! i = (if b + n \<le> i \<and> i < b + m then AT_TAIL else tbl s ! i)"
    using len fr by (auto simp: e t_def update_range_nth)
  have f: "\<forall>i < n_blk s. FTB_GET s' i = FTB_GET s i"
  proof -
    have "ftb_field s' = ftb_field t" by (simp add: fun_eq_iff ftb_field_def e)
    then show ?thesis using ftb_update_range [OF tok bm(1)] by (simp add: FTB_GET_def e t_def)
  qed
  have pl: "(b + n + (m - n)) * WORDS_PER_BLOCK \<le> length (pool t)" using tok bm by (simp add: tables_ok_def e)
  note pool = clear_blocks_pool [OF pl, folded s' [folded t_def], unfolded e(4) bm(3)]
  have "k OR 2 < 4" if "k < 4" for k :: nat
  proof -
    have "k < 2 ^ 2" "(2 :: nat) < 2 ^ 2" using that by simp_all
    then have "k OR 2 < 2 ^ 2" by (metis take_bit_or take_bit_nat_eq_self take_bit_nat_less_exp)
    then show ?thesis by simp
  qed
  then have "tables_ok t" unfolding t_def by (intro tables_ok_range [OF tok]) simp
  then have tok': "tables_ok s'" using pool(1) e by (simp add: tables_ok_def)
  have nf: "tbl s ! (b + m) \<noteq> AT_TAIL" if "b + m < n_blk s" using after_free [OF ok run] that m bm(3) by simp
  have hd: "tbl s ! i \<in> {AT_HEAD, AT_TAIL} \<Longrightarrow> \<not> (b + n \<le> i \<and> i < b + m)" for i using fr by auto
  have "heap_ok s'"
    unfolding heap_ok_def e(2,5)
  proof (intro conjI allI impI)
    show "tables_ok s'" by (rule tok')
    show "no_marks s'" using ok k by (simp add: heap_ok_def no_marks_def e(2))
    fix i assume i: "i < n_blk s"
    show "FTB_GET s' i \<Longrightarrow> tbl s' ! i = AT_HEAD" using f k ok i hd by (auto simp: heap_ok_def)
    show "i < gc_last_free_atb_index s * BLOCKS_PER_ATB \<Longrightarrow> tbl s' ! i \<noteq> AT_FREE" using k ok i by (simp add: heap_ok_def)
    assume t: "tbl s' ! i = AT_TAIL"
    show "0 < i" using ch t i k ok by (auto simp: chain_def heap_ok_def split: if_splits)
    consider "b + n < i \<and> i < b + m" | "i = b + n" | "tbl s ! i = AT_TAIL"
    proof (cases "b + n \<le> i \<and> i < b + m")
      case True then show ?thesis using that(1,2) by (cases "i = b + n") auto
    next
      case False then show ?thesis using t k i that(3) by auto
    qed
    then show "tbl s' ! (i - 1) \<in> {AT_HEAD, AT_TAIL}"
    proof cases
      case 1 then show ?thesis using k i by auto
    next
      case 2 then show ?thesis using chain_kinds [OF ch, of "i - 1"] ch k by (auto simp: chain_def)
    next
      case 3 then show ?thesis using ok i k by (auto simp: heap_ok_def)
    qed
  qed
  moreover have "chain s' d l \<and> same_words s d s' d l" if d: "chain s d l" "d \<noteq> b" for d l
  proof -
    have dj: "\<forall>j. d \<le> j \<and> j < d + l \<longrightarrow> \<not> (b + n \<le> j \<and> j < b + n + (m - n))"
      using free_disjoint [OF ok run d(1)] by blast
    then have "tbl s' ! j = tbl s ! j" if "d \<le> j" "j < d + l" for j
      using that chain_kinds [OF d(1) that] k bm(3) by auto
    moreover have "tbl s' ! (d + l) \<noteq> AT_TAIL" if lt: "d + l < n_blk s"
    proof -
      have l: "0 < l" using d(1) by (simp add: chain_def)
      have "d + l \<noteq> b + n"
        using chains_disjoint [OF ch d, of "b + n - 1"] chain_def [of s b n] ch l by linarith
      moreover have "\<not> (b + n < d + l \<and> d + l < b + m)" using dj [rule_format, of "d + l - 1"] l by linarith
      moreover have "tbl s ! (d + l) \<noteq> AT_TAIL" using d(1) lt by (simp add: chain_def)
      ultimately show ?thesis using k lt by auto
    qed
    moreover have "same_words s d s' d l"
    proof -
      have "(d + l) * WORDS_PER_BLOCK \<le> length (pool s)" using tok d(1) by (simp add: tables_ok_def chain_def)
      then show ?thesis using pool(2) words_disjoint [OF dj] bm(3) by (auto simp: same_words_def add_mult_distrib)
    qed
    ultimately show ?thesis using d(1) e(2) by (auto simp: chain_def)
  qed
  moreover have "chain s' b m" using ch k m bm nf e(2) by (auto simp: chain_def)
  moreover have "same_words s b s' b n"
    using pool(2) tok bm m by (auto simp: same_words_def add_mult_distrib tables_ok_def WORDS_PER_BLOCK_def)
  ultimately show ?thesis using f bm m by (auto simp: reallocated_def)
qed

lemma copy_blocks_pool:
  assumes "(from + n) * WORDS_PER_BLOCK \<le> length (pool s)" "(to + n) * WORDS_PER_BLOCK \<le> length (pool s)"
  shows "length (pool (copy_blocks from to n s)) = length (pool s)"
    "i < length (pool s) \<Longrightarrow> pool (copy_blocks from to n s) ! i =
      (if to * WORDS_PER_BLOCK \<le> i \<and> i < (to + n) * WORDS_PER_BLOCK
       then pool s ! (from * WORDS_PER_BLOCK + (i - to * WORDS_PER_BLOCK)) else pool s ! i)"
  using assms by (auto simp: copy_blocks_def nth_append add_mult_distrib)

lemma realloc_move:
  assumes ok: "heap_ok t" and lock: "gc_lock_depth t = 0" and align: "gc_pool_start t mod BYTES_PER_BLOCK = 0"
    and ch: "chain t b n" "b + n < n_blk t" and run: "free_run t c m" and nm: "n < m"
    and u: "allocated t c m fin u" "heap_ok u"
  shows "\<exists>s'. gc_free (Some (PTR_FROM_BLOCK t b)) (copy_blocks b c n u) = Some s' \<and> heap_ok s' \<and>
    chain s' c m \<and> same_words t b s' c n \<and> (FTB_GET s' c \<longleftrightarrow> FTB_GET t c \<or> fin) \<and>
    (\<forall>d k. chain t d k \<and> d \<noteq> b \<longrightarrow> chain s' d k \<and> same_words t d s' d k)"
proof -
  have m: "0 < m" "0 < n" using nm ch(1) by (simp_all add: chain_def)
  define v where "v = copy_blocks b c n u"
  have e: "n_blk u = n_blk t" "gc_pool_start u = gc_pool_start t" "gc_lock_depth u = 0"
    using u(1) lock by (simp_all add: allocated_def)
  have v: "tbl v = tbl u" "n_blk v = n_blk t" "gc_pool_start v = gc_pool_start t" "gc_lock_depth v = 0"
    "gc_last_free_atb_index v = gc_last_free_atb_index u"
    using e by (simp_all add: v_def copy_blocks_def n_blk_def)
  have bu: "chain u b n" and bw: "same_words t b u b n" using alloc_keeps [OF ok run m(1) u(1) ch(1)] .
  have cu: "chain u c m" using alloc_chain [OF ok run m(1) u(1)] .
  have bc: "c \<noteq> b" using chain_unique [OF bu] cu nm by blast
  have lp: "length (pool u) = n_blk t * WORDS_PER_BLOCK" using u(2) e by (simp add: heap_ok_def tables_ok_def)
  have bl: "(b + n) * WORDS_PER_BLOCK \<le> length (pool u)" "(c + n) * WORDS_PER_BLOCK \<le> length (pool u)"
    using ch(2) run nm lp by (auto simp: free_run_def)
  note pv = copy_blocks_pool [OF bl, folded v_def]
  have ftv: "FTB_GET v i = FTB_GET u i" for i using v e by (simp add: FTB_GET_def ftb_field_def)
  have okv: "heap_ok v"
    using u(2) pv(1) v e ftv by (simp add: heap_ok_def tables_ok_def no_marks_def)
  have chv: "chain v d k = chain u d k" for d k by (simp add: chain_def v e)
  have "closed_chain v b n" using bu ch(2) v by (simp add: closed_chain_def chv)
  then obtain s' where s': "gc_free (Some (PTR_FROM_BLOCK v b)) v = Some s'" "heap_ok s'" "released v b n s'"
    using gc_free_correct [OF okv v(4)] align v(3) by auto
  have ps: "PTR_FROM_BLOCK v b = PTR_FROM_BLOCK t b" by (simp add: PTR_FROM_BLOCK_def v)
  have bv: "chain v b n" using bu chv by simp
  have keep: "chain s' d k \<and> same_words t d s' d k" if d: "chain t d k" "d \<noteq> b" for d k
  proof -
    have du: "chain u d k" "same_words t d u d k" using alloc_keeps [OF ok run m(1) u(1) d(1)] .
    have "d \<noteq> c" using free_disjoint [OF ok run d(1), of d] d(1) m(1) by (auto simp: chain_def)
    have dj: "\<forall>j. d \<le> j \<and> j < d + k \<longrightarrow> \<not> (c \<le> j \<and> j < c + n)"
      using chains_disjoint [OF cu du(1) \<open>d \<noteq> c\<close>] nm by auto
    have "(d + k) * WORDS_PER_BLOCK \<le> length (pool u)" using lp d(1) by (simp add: chain_def)
    then have "same_words u d v d k"
      using pv(2) words_disjoint [OF dj] by (auto simp: same_words_def add_mult_distrib)
    then show ?thesis using release_keeps [OF s'(3) bv, of d k] du d(2) chv same_words_trans by blast
  qed
  have "same_words u b v c n" using pv(2) bl(2) by (auto simp: same_words_def add_mult_distrib)
  moreover have cs: "chain s' c m" using release_keeps(1) [OF s'(3) bv, of c m] cu chv bc by simp
  moreover have "pool s' = pool v" using s'(3) by (simp add: released_def)
  ultimately have cw: "same_words t b s' c n" using bw by (simp add: same_words_def)
  have "c < n_blk t" using run m by (simp add: free_run_def)
  then have "FTB_GET s' c \<longleftrightarrow> FTB_GET t c \<or> fin" using s'(3) u(1) bc ftv v by (simp add: released_def allocated_def)
  then show ?thesis using s' ps cs cw keep v_def by auto
qed

lemma gc_realloc_correct:
  assumes ok: "heap_ok s" and lock: "gc_lock_depth s = 0" and align: "gc_pool_start s mod BYTES_PER_BLOCK = 0"
    and ch: "chain s b n" "b + n < n_blk s" and live: "reach s (ctx @ stacks) b"
    and bytes: "0 < n_bytes" "n_bytes + BYTES_PER_BLOCK \<le> 2 ^ 32"
  shows "\<exists>r. gc_realloc (\<lambda>s. fst (gc_collect ctx stacks s)) (Some (PTR_FROM_BLOCK s b)) n_bytes allow_move s = Some r \<and>
    reallocated s b n ((n_bytes + BYTES_PER_BLOCK - 1) div BYTES_PER_BLOCK) (reach s (ctx @ stacks)) r"
proof -
  define m where "m = (n_bytes + BYTES_PER_BLOCK - 1) div BYTES_PER_BLOCK"
  have um: "u32 (n_bytes + BYTES_PER_BLOCK - 1) div BYTES_PER_BLOCK = m" "0 < m"
    using bytes by (simp_all add: m_def u32_id BYTES_PER_BLOCK_def)
  have b: "b < n_blk s" "tbl s ! b = AT_HEAD" "b < length (tbl s)"
    using ch ok by (auto simp: chain_def heap_ok_def tables_ok_def)
  let ?collect = "\<lambda>s. fst (gc_collect ctx stacks s)"
  obtain f where f: "realloc_count s m (b + 1) 1 0 = (n, f)" "free_run s (b + n) f" using realloc_count_chain [OF ok ch(1)] by blast
  have start: "gc_realloc ?collect (Some (PTR_FROM_BLOCK s b)) n_bytes allow_move s =
      realloc_blocks ?collect (PTR_FROM_BLOCK s b) n_bytes allow_move b m n f s"
    using bytes(1) lock verify_ptr [OF align b(1)] b um(1) f(1) by (simp add: gc_realloc_def ATB_GET_KIND_def)
  note step = realloc_blocks_def [of ?collect "PTR_FROM_BLOCK s b" n_bytes allow_move b m n f s]
  consider (same) "m = n" | (shrink) "m < n" | (grow) "n < m" "m \<le> n + f" | (stay) "n + f < m" "\<not> allow_move"
    | (move) "n + f < m" allow_move by linarith
  then have "\<exists>r. realloc_blocks ?collect (PTR_FROM_BLOCK s b) n_bytes allow_move b m n f s = Some r \<and>
    reallocated s b n m (reach s (ctx @ stacks)) r"
  proof cases
    case same
    have "reallocated s b n m (reach s (ctx @ stacks)) (s, Some (PTR_FROM_BLOCK s b))"
      using ok ch(1) same by (auto simp: reallocated_def intro!: same_words_pool)
    then show ?thesis unfolding step using same by simp
  next
    case shrink
    show ?thesis using realloc_shrink [OF ok ch(1) um(2) shrink refl refl] shrink
      by (simp add: step fold_to_free Let_def)
  next
    case grow
    have run: "free_run s (b + n) (m - n)" using f(2) grow by (auto simp: free_run_def)
    have "\<not> (\<exists>bl \<in> set [b + n..<b + m]. ATB_GET_KIND s bl \<noteq> AT_FREE)"
      using f(2) grow by (auto simp: free_run_def is_free_def)
    then show ?thesis using realloc_grow [OF ok ch(1) grow(1) run refl] grow
      by (simp add: step fold_to_tail Let_def)
  next
    case stay
    have "reallocated s b n m (reach s (ctx @ stacks)) (s, None)"
      using ok ch(1) by (auto simp: reallocated_def intro!: same_words_pool)
    then show ?thesis unfolding step using stay by simp
  next
    case move
    obtain s' q where a: "gc_alloc ?collect n_bytes (FTB_GET s b) s = (s', q)" by fastforce
    from rp2.alloc_correct [OF ok lock um(1) [symmetric] um(2) a] obtain t where t: "t = s \<or> t = ?collect s" "heap_ok t"
      "case q of Some p \<Rightarrow> \<exists>c. free_run t c m \<and> p = PTR_FROM_BLOCK s c \<and> heap_ok s' \<and> allocated t c m (FTB_GET s b) s'
       | None \<Rightarrow> s' = t" by (fastforce split: option.splits)
    have lay: "n_blk t = n_blk s" "gc_pool_start t = gc_pool_start s" "gc_lock_depth t = 0" "pool t = pool s"
      using t(1) rp2.keeps_layout [OF ok, of ctx stacks] lock by auto
    have keep: "chain t d k \<and> same_words s d t d k" if "chain s d k" "reach s (ctx @ stacks) d" for d k
      using t(1) collect_keeps(1) [OF ok that] that(1) same_words_pool [OF lay(4)] by auto
    show ?thesis
    proof (cases q)
      case None
      have "reallocated s b n m (reach s (ctx @ stacks)) (s', None)"
        using None t(2,3) keep ch(1) live by (simp add: reallocated_def)
      then show ?thesis unfolding step using a None move by simp
    next
      case (Some p)
      obtain c where c: "free_run t c m" "p = PTR_FROM_BLOCK s c" "heap_ok s'" "allocated t c m (FTB_GET s b) s'"
        using t(3) Some by auto
      have nc: "\<not> FTB_GET t c"
      proof -
        have "c < n_blk t" "is_free t c" using c(1) um(2) by (simp_all add: free_run_def)
        then show ?thesis using t(2) is_free_kind [OF t(2), of c] by (auto simp: heap_ok_def)
      qed
      have "n < m" using move(1) by simp
      from realloc_move [OF t(2) lay(3) _ _ _ c(1) this c(4,3), of b] obtain u where
        u: "gc_free (Some (PTR_FROM_BLOCK t b)) (copy_blocks b c n s') = Some u" "heap_ok u" "chain u c m"
          "same_words t b u c n" "FTB_GET u c \<longleftrightarrow> FTB_GET t c \<or> FTB_GET s b"
          "\<forall>d k. chain t d k \<and> d \<noteq> b \<longrightarrow> chain u d k \<and> same_words t d u d k"
        using keep [OF ch(1) live] ch(2) lay align by auto
      have "BLOCK_FROM_PTR s' p = c" "PTR_FROM_BLOCK t b = PTR_FROM_BLOCK s b"
        using c(2,4) lay(2) block_ptr [of s c] by (simp_all add: allocated_def BLOCK_FROM_PTR_def PTR_FROM_BLOCK_def)
      then have "realloc_blocks ?collect (PTR_FROM_BLOCK s b) n_bytes allow_move b m n f s = Some (u, Some p)"
        unfolding step using move a Some u(1) by simp
      moreover have "same_words s b u c (min n m)"
        using keep [OF ch(1) live] u(4) \<open>n < m\<close> same_words_trans by (simp add: min_def) blast
      moreover have "\<forall>d k. chain s d k \<and> reach s (ctx @ stacks) d \<and> d \<noteq> b \<longrightarrow> chain u d k \<and> same_words s d u d k"
        using keep u(6) same_words_trans by blast
      ultimately show ?thesis using u(2,3,5) c(2) nc by (auto simp: reallocated_def)
    qed
  qed
  then show ?thesis by (simp add: start m_def)
qed

end
