(* ===== verification/Gc_Info.thy ===== *)
theory Gc_Info
  imports Gc_Alloc
begin

text \<open>
  The layout of a new heap and the statistics of \<^verbatim>\<open>gc_info\<close>.
\<close>

section \<open>The lock\<close>

text \<open>
  The lock is a 16-bit counter: locks and unlocks cancel at any depth, and an unlock too many leaves the heap locked.
\<close>

lemma gc_lock_unlock: "gc_lock_depth s < 2 ^ 16 \<Longrightarrow> gc_unlock (gc_lock s) = s \<and> gc_lock (gc_unlock s) = s"
  by (simp add: gc_lock_def gc_unlock_def u16_def mod_simps)

lemma gc_unlock_too_many: "gc_lock_depth s = 0 \<Longrightarrow> gc_is_locked (gc_unlock s)"
  by (simp add: gc_unlock_def gc_is_locked_def u16_def)

section \<open>Layout\<close>

lemma layout_arith:
  assumes "bl = tot * 8 div (524 :: nat)" "ft = (bl * 4 + 7) div 8"
  shows "bl * 65 + ft \<le> tot" "tot < bl * 68 + 66"
proof -
  have d: "524 * bl \<le> tot * 8" "tot * 8 < 524 * bl + 524"
    using assms(1) by simp_all
  have "8 * ft \<le> bl * 4 + 7" using assms(2) by simp
  then have "131 * bl \<le> 2 * tot" "2 * ft \<le> bl + 1" using d by linarith+
  then show "bl * 65 + ft \<le> tot" by presburger
  show "tot < bl * 68 + 66" using d by linarith
qed

lemma gc_init_layout:
  assumes len: "start + BYTES_PER_BLOCK \<le> end0" "end0 - start < 2 ^ 29"
  shows "\<exists>s. gc_init fill start end0 = Some s \<and> heap_ok s \<and> gc_lock_depth s = 0 \<and> gc_auto_collect_enabled s \<and>
    gc_pool_end s = end0 - end0 mod BYTES_PER_BLOCK \<and> gc_pool_start s mod BYTES_PER_BLOCK = 0 \<and>
    start + length (tbl s) div 4 \<le> gc_pool_start s \<and> (\<forall>b < n_blk s. is_free s b) \<and>
    end0 - start < (n_blk s + 5) * (BYTES_PER_BLOCK + 1)"
proof -
  define top where "top = end0 - end0 mod 16"
  define tot where "tot = top - start"
  define bl where "bl = tot * 8 div 524"
  define ft where "ft = (bl * 4 + 7) div 8"
  define ps where "ps = top - bl * 64"
  have t: "tot < 2 ^ 29" "top = start + tot" "end0 - start < tot + 16"
    using len mod_less_divisor [of 16 end0] by (auto simp: tot_def top_def BYTES_PER_BLOCK_def)
  have u: "u32 (tot * 8) = tot * 8" using t(1) by (intro u32_id) simp
  note ar = layout_arith [OF bl_def ft_def]
  have ps: "start + bl + ft \<le> ps" "ps + bl * 64 = top" using ar(1) t(2) by (simp_all add: ps_def)
  define s where "s = \<lparr>tbl = replicate (bl * 4 + ft * 4) 0, gc_alloc_table_byte_len = bl, gc_pool_start = ps,
      pool = map (\<lambda>i. fill (ps + 4 * i)) [0..<bl * 4 * WORDS_PER_BLOCK],
      gc_last_free_atb_index = 0, gc_lock_depth = 0, gc_auto_collect_enabled = True,
      gc_stack_overflow = False, gc_alloc_threshold = 2 ^ 32 - 1, gc_alloc_amount = 0\<rparr>"
  have fold_defs: "2 * tot div 131 = bl" "(7 + bl * 4) div 8 = ft" "top - 64 * bl = ps" "top + 4 * i - 64 * bl = ps + 4 * i" for i
    using ps(2) by (simp_all add: bl_def ft_def ps_def add.commute mult.commute)
  have init: "gc_init fill start end0 = Some s"
    using ps(1) u by (simp add: gc_init_def Let_def s_def gc_consts(1,3,4) top_def [symmetric] tot_def [symmetric])
      (simp add: fold_defs)
  have n: "n_blk s = bl * 4" by (simp add: n_blk_def s_def BLOCKS_PER_ATB_def)
  have z: "tbl s ! i = 0" if "i < bl * 4 + ft * 4" for i using that by (simp add: s_def)
  have tok: "tables_ok s" using n by (auto simp: tables_ok_def s_def ft_def)
  have nf: "\<not> FTB_GET s b" if "b < n_blk s" for b
    using z [of "ftb_field s b"] ftb_in_range [OF tok that] by (simp add: FTB_GET_def) (simp add: s_def)
  have "heap_ok s"
    unfolding heap_ok_def using tok nf z n by (auto simp: no_marks_def) (simp_all add: s_def)
  moreover have "\<forall>b < n_blk s. is_free s b" using z n by (simp add: is_free_def ATB_GET_KIND_def)
  moreover have "gc_pool_end s = top" using ps(2) n by (simp add: gc_pool_end_def BYTES_PER_BLOCK_def) (simp add: s_def)
  moreover have "ps mod 16 = 0"
  proof -
    have "top mod 16 = 0" by (simp add: top_def)
    then show ?thesis using ps(2) by presburger
  qed
  moreover have "end0 - start < (n_blk s + 5) * (BYTES_PER_BLOCK + 1)" using ar(2) t(3) n by (simp add: BYTES_PER_BLOCK_def)
  moreover have "gc_pool_start s = ps" "length (tbl s) div 4 = bl + ft" "gc_lock_depth s = 0" "gc_auto_collect_enabled s"
    by (simp_all add: s_def)
  ultimately show ?thesis using init ps(1) by (simp add: top_def BYTES_PER_BLOCK_def)
qed

section \<open>Statistics\<close>

lemma info_step_fields:
  assumes st: "info_step s i (info, len, lf) = (info', len', lf')" and kind: "tbl s ! i \<in> {AT_FREE, AT_HEAD, AT_TAIL}"
    and len: "n_blk s \<le> length (tbl s)" "i < n_blk s"
  defines "lf1 \<equiv> (if is_free s i then lf + 1 else lf)"
    and "flush \<equiv> (i + 1 = n_blk s \<or> tbl s ! (i + 1) = AT_HEAD)"
  shows "info_free info' = info_free info + of_bool (is_free s i)"
    "info_used info' = info_used info + of_bool (\<not> is_free s i)" "info_total info' = info_total info"
    "lf' = (if flush then 0 else lf1)" "info_max_free info' = (if flush then max lf1 (info_max_free info) else info_max_free info)"
proof -
  have k: "ATB_GET_KIND s i = tbl s ! i" "i + 1 \<noteq> n_blk s \<Longrightarrow> ATB_GET_KIND s (i + 1) = tbl s ! (i + 1)"
    using len by (simp_all add: ATB_GET_KIND_def)
  have "info_free info' = info_free info + of_bool (is_free s i) \<and>
    info_used info' = info_used info + of_bool (\<not> is_free s i) \<and> info_total info' = info_total info \<and>
    lf' = (if flush then 0 else lf1) \<and> info_max_free info' = (if flush then max lf1 (info_max_free info) else info_max_free info)"
    using st kind k(1) k(2) [simplified]
    by (cases "i + 1 = n_blk s") (auto simp: info_step_def Let_def lf1_def flush_def is_free_def max_def split: if_splits prod.splits)
  then show "info_free info' = info_free info + of_bool (is_free s i)"
    "info_used info' = info_used info + of_bool (\<not> is_free s i)" "info_total info' = info_total info"
    "lf' = (if flush then 0 else lf1)" "info_max_free info' = (if flush then max lf1 (info_max_free info) else info_max_free info)"
    by blast+
qed

text \<open>After the first \<open>i\<close> blocks: \<open>lf\<close> is the length of the free run that ends there.\<close>

definition info_inv :: "gc_state \<Rightarrow> nat \<Rightarrow> gc_info_t \<times> nat \<times> nat \<Rightarrow> bool" where
  "info_inv s i st \<longleftrightarrow> (case st of (info, len, lf) \<Rightarrow>
     info_total info = n_blk s * BYTES_PER_BLOCK \<and> info_used info + info_free info = i \<and>
     info_free info = card {b. b < i \<and> is_free s b} \<and>
     lf \<le> i \<and> free_run s (i - lf) lf \<and> (i = n_blk s \<or> \<not> is_free s i \<longrightarrow> lf = 0) \<and>
     (\<forall>b k. i < n_blk s \<and> is_free s i \<and> free_run s b k \<and> b + k = i \<longrightarrow> k \<le> lf) \<and>
     (\<exists>b. free_run s b (info_max_free info)) \<and>
     (\<forall>b k. free_run s b k \<and> b + k \<le> i \<longrightarrow> k \<le> max lf (info_max_free info)))"

lemma free_run_snoc: "free_run s b (Suc k) \<longleftrightarrow> free_run s b k \<and> b + k < n_blk s \<and> is_free s (b + k)"
  by (auto simp: free_run_def less_Suc_eq)

lemma info_step_inv:
  assumes ok: "heap_ok s" and i: "i < n_blk s" and inv: "info_inv s i st"
  shows "info_inv s (Suc i) (info_step s i st)"
proof -
  obtain info len lf where st: "st = (info, len, lf)" by (metis prod_cases3)
  obtain info' len' lf' where st': "info_step s i (info, len, lf) = (info', len', lf')" by (metis prod_cases3)
  have len: "n_blk s \<le> length (tbl s)" using ok by (simp add: heap_ok_def tables_ok_def)
  have fk: "is_free s j \<longleftrightarrow> tbl s ! j = AT_FREE" if "j < n_blk s" for j
    using that len by (simp add: is_free_def ATB_GET_KIND_def)
  have kinds: "tbl s ! j \<in> {AT_FREE, AT_HEAD, AT_TAIL}" if "j < n_blk s" for j
  proof -
    have "tbl s ! j < 4" "tbl s ! j \<noteq> AT_MARK"
      using ok that len by (auto simp: heap_ok_def no_marks_def intro: tables_ok_nth)
    then show ?thesis by auto
  qed
  define lf1 where "lf1 = (if is_free s i then lf + 1 else lf)"
  define flush where "flush = (i + 1 = n_blk s \<or> tbl s ! (i + 1) = AT_HEAD)"
  note f = info_step_fields [OF st' kinds [OF i] len i, folded lf1_def flush_def]
  have I: "info_total info = n_blk s * BYTES_PER_BLOCK" "info_used info + info_free info = i"
    "info_free info = card {b. b < i \<and> is_free s b}" "lf \<le> i" "free_run s (i - lf) lf" "\<not> is_free s i \<longrightarrow> lf = 0"
    "\<forall>b k. is_free s i \<and> free_run s b k \<and> b + k = i \<longrightarrow> k \<le> lf" "\<exists>b. free_run s b (info_max_free info)"
    "\<forall>b k. free_run s b k \<and> b + k \<le> i \<longrightarrow> k \<le> max lf (info_max_free info)"
    using inv i by (auto simp: info_inv_def st)
  have set: "{b. b < Suc i \<and> is_free s b} = (if is_free s i then insert i {b. b < i \<and> is_free s b} else {b. b < i \<and> is_free s b})"
    by (auto simp: less_Suc_eq)
  have lf1: "lf1 \<le> Suc i" "free_run s (Suc i - lf1) lf1" using I(4,5,6) i by (auto simp: lf1_def free_run_snoc) (simp add: free_run_def)
  have run: "k \<le> lf1" if r: "free_run s b k" "b + k = Suc i" for b k
    using that I(7) by (cases k) (auto simp: lf1_def free_run_snoc)
  have nofree: "\<not> is_free s i" if "tbl s ! (i + 1) = AT_TAIL" "i + 1 < n_blk s"
    using ok that fk [OF i] by (force simp: heap_ok_def)
  have zero: "lf1 = 0" if "\<not> flush" "\<not> is_free s (Suc i)"
  proof -
    have "Suc i < n_blk s" using that(1) i by (auto simp: flush_def)
    then have "tbl s ! (i + 1) = AT_TAIL" using kinds [of "Suc i"] fk [of "Suc i"] that by (auto simp: flush_def)
    then show ?thesis using nofree \<open>Suc i < n_blk s\<close> I(6) by (simp add: lf1_def)
  qed
  have mx: "k \<le> max lf' (info_max_free info')" if "free_run s b k" "b + k \<le> Suc i" for b k
  proof (cases "b + k = Suc i")
    case True
    then show ?thesis using run [OF that(1)] f(4,5) by auto
  next
    case False
    then have "b + k \<le> i" using that(2) by simp
    then have "k \<le> max lf (info_max_free info)" using that(1) I(9) by blast
    moreover have "lf \<le> lf1" by (simp add: lf1_def)
    ultimately show ?thesis using f(4,5) by auto
  qed
  have ex: "\<exists>b. free_run s b (info_max_free info')" using I(8) lf1(2) f(5) by (auto simp: max_def)
  have e0: "free_run s (Suc i) 0" using i by (auto simp: free_run_def)
  have "lf' \<le> Suc i \<and> free_run s (Suc i - lf') lf'" using f(4) lf1 e0 by simp
  moreover have "lf' = 0" if "Suc i = n_blk s \<or> \<not> is_free s (Suc i)" using f(4) that zero by (auto simp: flush_def)
  moreover have "k \<le> lf'" if "Suc i < n_blk s" "is_free s (Suc i)" "free_run s b k" "b + k = Suc i" for b k
    using run [OF that(3,4)] f(4) that(1,2) fk [OF that(1)] by (auto simp: flush_def)
  ultimately have cur: "lf' \<le> Suc i \<and> free_run s (Suc i - lf') lf'" "Suc i = n_blk s \<or> \<not> is_free s (Suc i) \<longrightarrow> lf' = 0"
    "\<forall>b k. Suc i < n_blk s \<and> is_free s (Suc i) \<and> free_run s b k \<and> b + k = Suc i \<longrightarrow> k \<le> lf'"
    by blast+
  have mx': "\<forall>b k. free_run s b k \<and> b + k \<le> Suc i \<longrightarrow> k \<le> max lf' (info_max_free info')" using mx by blast
  have "info_total info' = n_blk s * BYTES_PER_BLOCK" "info_used info' + info_free info' = Suc i"
    "info_free info' = card {b. b < Suc i \<and> is_free s b}" using I(1,2,3) f(1,2,3) set by simp_all
  then show ?thesis using cur mx' ex unfolding info_inv_def st st' prod.case by blast
qed

lemma gc_info_correct:
  assumes ok: "heap_ok s"
  shows "info_total (gc_info s) = n_blk s * BYTES_PER_BLOCK"
    "info_used (gc_info s) + info_free (gc_info s) = info_total (gc_info s)"
    "info_free (gc_info s) = card {b. b < n_blk s \<and> is_free s b} * BYTES_PER_BLOCK"
    "free_run s b k \<Longrightarrow> k \<le> info_max_free (gc_info s)" "\<exists>b. free_run s b (info_max_free (gc_info s))"
proof -
  define info0 where "info0 = \<lparr>info_total = gc_pool_end s - gc_pool_start s, info_used = 0, info_free = 0, info_max_free = 0,
                   info_num_1block = 0, info_num_2block = 0, info_max_block = 0\<rparr>"
  have "info_inv s i (fold (info_step s) [0..<i] (info0, 0, 0))" if "i \<le> n_blk s" for i
    using that
  proof (induction i)
    case 0
    then show ?case by (auto simp: info_inv_def info0_def gc_pool_end_def free_run_def)
  next
    case (Suc i)
    then show ?case using info_step_inv [OF ok, of i] by simp
  qed
  then have inv: "info_inv s (n_blk s) (fold (info_step s) [0..<n_blk s] (info0, 0, 0))" by blast
  obtain info len lf where f: "fold (info_step s) [0..<n_blk s] (info0, 0, 0) = (info, len, lf)" by (metis prod_cases3)
  have I: "info_total info = n_blk s * BYTES_PER_BLOCK" "info_used info + info_free info = n_blk s"
    "info_free info = card {b. b < n_blk s \<and> is_free s b}" "\<exists>b. free_run s b (info_max_free info)"
    "\<forall>b k. free_run s b k \<and> b + k \<le> n_blk s \<longrightarrow> k \<le> info_max_free info"
    using inv by (auto simp: info_inv_def f)
  have g: "gc_info s = info\<lparr>info_used := info_used info * BYTES_PER_BLOCK, info_free := info_free info * BYTES_PER_BLOCK\<rparr>"
    by (simp add: gc_info_def Let_def info0_def [symmetric] f)
  show "info_total (gc_info s) = n_blk s * BYTES_PER_BLOCK"
    "info_free (gc_info s) = card {b. b < n_blk s \<and> is_free s b} * BYTES_PER_BLOCK"
    "\<exists>b. free_run s b (info_max_free (gc_info s))" using I by (simp_all add: g)
  show "info_used (gc_info s) + info_free (gc_info s) = info_total (gc_info s)"
    using I(1,2) by (simp add: g add_mult_distrib [symmetric])
  show "free_run s b k \<Longrightarrow> k \<le> info_max_free (gc_info s)" using I(5) by (auto simp: g free_run_def)
qed

end
