(* ===== verification/Gc_Spec.thy ===== *)
theory Gc_Spec
  imports Gc_Release Gc_Info
begin

text \<open>
  The promises of the heap: layout, collection, allocation, release, reallocation and statistics.
  Each is shown at a small heap of eight blocks.
\<close>

section \<open>A small heap\<close>

text \<open>
  Eight blocks from address 16 on: a chain of two blocks with a finaliser, a chain of one block
  that points to block 4, a free block, block 4, a dead block, and two free blocks.
\<close>

definition sample_heap :: gc_state where
  "sample_heap = \<lparr>tbl = [1, 2, 1, 0, 1, 1, 0, 0, 1, 0, 0, 0], gc_alloc_table_byte_len = 2, gc_pool_start = 16,
     pool = (replicate 32 0)[8 := 80], gc_last_free_atb_index = 0, gc_lock_depth = 0, gc_auto_collect_enabled = True,
     gc_stack_overflow = False, gc_alloc_threshold = 2 ^ 32 - 1, gc_alloc_amount = 0\<rparr>"

definition sample_roots :: "nat list" where
  "sample_roots = [48]"

lemma all_less_8: "(\<forall>b < (8 :: nat). P b) \<longleftrightarrow> P 0 \<and> P 1 \<and> P 2 \<and> P 3 \<and> P 4 \<and> P 5 \<and> P 6 \<and> P 7"
  by (simp add: numeral_eq_Suc All_less_Suc conj_ac)

lemma sample_n_blk [simp]: "n_blk sample_heap = 8"
  by (simp add: n_blk_def sample_heap_def BLOCKS_PER_ATB_def)

lemma sample_tbl [simp]: "tbl sample_heap = [1, 2, 1, 0, 1, 1, 0, 0, 1, 0, 0, 0]" "gc_lock_depth sample_heap = 0"
  "gc_pool_start sample_heap = 16" "gc_auto_collect_enabled sample_heap"
  by (simp_all add: sample_heap_def)

lemma sample_ftb: "FTB_GET sample_heap b \<longleftrightarrow> b = 0" if "b < 8"
proof -
  have "\<forall>b < 8. FTB_GET sample_heap b \<longleftrightarrow> b = 0"
    by (simp add: all_less_8 FTB_GET_def ftb_field_def bit_iff_odd)
  then show ?thesis using that by blast
qed

lemma sample_ok: "heap_ok sample_heap"
proof -
  have "tables_ok sample_heap" by (simp add: tables_ok_def sample_heap_def n_blk_def gc_consts)
  moreover have "no_marks sample_heap" by (simp add: no_marks_def all_less_8)
  moreover have "\<forall>b < 8. FTB_GET sample_heap b \<longrightarrow> tbl sample_heap ! b = AT_HEAD"
    using sample_ftb by simp
  ultimately show ?thesis by (simp add: heap_ok_def all_less_8) (simp add: sample_heap_def)
qed

lemma sample_chain: "chain sample_heap 2 1"
  by (simp add: chain_def)

lemma sample_reach: "reach sample_heap sample_roots 2"
  by (rule reach_root [of 48])
    (simp_all add: sample_roots_def points_to_def VERIFY_PTR_def BLOCK_FROM_PTR_def gc_pool_end_def ATB_GET_KIND_def BYTES_PER_BLOCK_def)

section \<open>Properties\<close>

text \<open>
  C34: A new heap: for any memory region of at least one block and less than 512 MB the assertion on the
  layout holds, the tables lie before the pool, the pool is aligned and reaches to the last whole block
  of the region, every block is free, the invariant of the heap holds, and apart from a constant the
  region is used up.
\<close>

theorem gc_init_establishes_invariant:
  assumes "start + BYTES_PER_BLOCK \<le> end0" "end0 - start < 2 ^ 29"
  shows "\<exists>s. gc_init fill start end0 = Some s \<and> heap_ok s \<and> gc_lock_depth s = 0 \<and> gc_auto_collect_enabled s \<and>
    gc_pool_end s = end0 - end0 mod BYTES_PER_BLOCK \<and> gc_pool_start s mod BYTES_PER_BLOCK = 0 \<and>
    start + length (tbl s) div 4 \<le> gc_pool_start s \<and> (\<forall>b < n_blk s. is_free s b) \<and>
    end0 - start < (n_blk s + 5) * (BYTES_PER_BLOCK + 1)"
  using assms by (rule gc_init_layout)

theorem gc_init_establishes_invariant_witness:
  "\<exists>s. gc_init (\<lambda>_. 0) 536870912 (536870912 + 192 * 1024) = Some s \<and> heap_ok s \<and> 11000 < n_blk s"
proof -
  from gc_init_establishes_invariant [of 536870912 "536870912 + 192 * 1024" "\<lambda>_. 0"] obtain s where
    "gc_init (\<lambda>_. 0) 536870912 (536870912 + 192 * 1024) = Some s" "heap_ok s"
    "192 * 1024 < (n_blk s + 5) * (BYTES_PER_BLOCK + 1)" by (auto simp: BYTES_PER_BLOCK_def)
  then show ?thesis by (intro exI [of _ s]) (simp add: BYTES_PER_BLOCK_def)
qed

text \<open>
  C2: A collection is exact with respect to its roots: a block keeps its kind if it belongs to a chain
  whose head the roots reach, through any number of pointers in live blocks and however often the
  mark stack overflows, and is free otherwise. The contents of the pool do not change, exactly the
  reachable blocks keep their finaliser bit, the finalisers run are those of the unreachable objects with
  the bit and a type, and the invariant of the heap holds again. Words behind the end of the pool are
  taken to be no pointers.
\<close>

theorem gc_collect_frees_exactly_unreachable:
  assumes "heap_ok s"
  shows "\<exists>s'. gc_collect ctx stacks s =
      (s', filter (\<lambda>b. tbl s ! b = AT_HEAD \<and> \<not> reach s (ctx @ stacks) b \<and> FTB_GET s b \<and>
         pool s ! (b * WORDS_PER_BLOCK) \<noteq> 0) [0..<n_blk s]) \<and>
    heap_ok s' \<and> pool s' = pool s \<and> gc_lock_depth s' = gc_lock_depth s \<and> n_blk s' = n_blk s \<and>
    gc_pool_start s' = gc_pool_start s \<and>
    (\<forall>b < n_blk s. tbl s' ! b = (if survives s (ctx @ stacks) b then tbl s ! b else AT_FREE)) \<and>
    (\<forall>b < n_blk s. FTB_GET s' b \<longleftrightarrow> FTB_GET s b \<and> reach s (ctx @ stacks) b)"
  using assms by (rule gc_collect_exact)

theorem gc_collect_frees_exactly_unreachable_witness:
  "\<exists>s' log. gc_collect sample_roots [] sample_heap = (s', log) \<and> heap_ok s' \<and> tbl s' ! 2 = AT_HEAD \<and> tbl s' ! 3 = AT_FREE"
proof -
  from gc_collect_frees_exactly_unreachable [OF sample_ok, of sample_roots "[]"] obtain s' log where
    s': "gc_collect sample_roots [] sample_heap = (s', log)" "heap_ok s'"
      "\<forall>b < 8. tbl s' ! b = (if survives sample_heap sample_roots b then tbl sample_heap ! b else AT_FREE)" by auto
  have "survives sample_heap sample_roots 2" using sample_reach by (simp add: survives_def numeral_2_eq_2)
  then show ?thesis using s' by (auto simp: survives_def)
qed

text \<open>
  C9: Allocation: with an unlocked heap, the search runs in the given state or after a collection. If it
  returns memory, this is a run of free blocks that is large enough; it becomes one chain of zeroed
  blocks, with the finaliser bit if asked for, nothing else changes and the invariant holds. If it
  returns nothing, there is no free run of that size, and with automatic collection enabled there is
  none after a collection either.
\<close>

theorem gc_alloc_sound_and_complete:
  assumes "heap_ok s" "gc_lock_depth s = 0" "n = u32 (n_bytes + BYTES_PER_BLOCK - 1) div BYTES_PER_BLOCK" "0 < n"
    "gc_alloc (\<lambda>s. fst (gc_collect ctx stacks s)) n_bytes fin s = (s', ptr)"
  shows "\<exists>t. (t = s \<or> t = fst (gc_collect ctx stacks s)) \<and> heap_ok t \<and>
    (case ptr of
       Some p \<Rightarrow> \<exists>b. free_run t b n \<and> p = PTR_FROM_BLOCK s b \<and> heap_ok s' \<and> allocated t b n fin s'
     | None \<Rightarrow> s' = t \<and> \<not> (\<exists>b. free_run t b n) \<and> (gc_auto_collect_enabled s \<longrightarrow> t = fst (gc_collect ctx stacks s)))"
  using assms by (rule rp2.alloc_correct)

theorem gc_alloc_sound_and_complete_witness:
  "\<exists>s' ptr t. gc_alloc (\<lambda>s. fst (gc_collect sample_roots [] s)) 20 True sample_heap = (s', ptr) \<and> heap_ok t \<and>
    (case ptr of Some p \<Rightarrow> \<exists>b. free_run t b 2 \<and> heap_ok s' \<and> allocated t b 2 True s' | None \<Rightarrow> \<not> (\<exists>b. free_run t b 2))"
proof -
  obtain s' ptr where a: "gc_alloc (\<lambda>s. fst (gc_collect sample_roots [] s)) 20 True sample_heap = (s', ptr)" by fastforce
  have "2 = u32 (20 + BYTES_PER_BLOCK - 1) div BYTES_PER_BLOCK" by (simp add: BYTES_PER_BLOCK_def u32_def)
  from gc_alloc_sound_and_complete [OF sample_ok _ this _ a] a show ?thesis by (fastforce split: option.splits)
qed

text \<open>
  C33: Release: for the chain of \<open>n\<close> blocks at \<open>b\<close>, which ends before the last block or not next to a tail-like
  field of the finaliser table, \<^verbatim>\<open>gc_nbytes\<close> returns its size and \<^verbatim>\<open>gc_free\<close> gives back exactly its
  blocks and clears exactly its finaliser bit; the contents and all other chains stay, and the
  invariant holds.
\<close>

theorem gc_free_releases_exactly_chain:
  assumes "heap_ok s" "gc_lock_depth s = 0" "closed_chain s b n" "gc_pool_start s mod BYTES_PER_BLOCK = 0"
  shows "gc_nbytes (PTR_FROM_BLOCK s b) s = n * BYTES_PER_BLOCK \<and>
    (\<exists>s'. gc_free (Some (PTR_FROM_BLOCK s b)) s = Some s' \<and> heap_ok s' \<and> released s b n s' \<and>
       (\<forall>d k. chain s d k \<and> d \<noteq> b \<longrightarrow> chain s' d k \<and> same_words s d s' d k))"
proof -
  have c: "chain s b n" "b < n_blk s" "tbl s ! b = AT_HEAD" "b < length (tbl s)" "tables_ok s"
    using assms(1,3) by (auto simp: closed_chain_def chain_def heap_ok_def tables_ok_def)
  have "gc_nbytes (PTR_FROM_BLOCK s b) s = n * BYTES_PER_BLOCK"
    using verify_ptr [OF assms(4) c(2)] c chain_len_eq [OF c(5) assms(3)] by (simp add: gc_nbytes_def ATB_GET_KIND_def)
  then show ?thesis using gc_free_correct [OF assms] release_keeps [OF _ c(1)] by blast
qed

theorem gc_free_releases_exactly_chain_witness:
  "closed_chain sample_heap 2 1 \<and> gc_nbytes 48 sample_heap = 16 \<and>
   (\<exists>s'. gc_free (Some 48) sample_heap = Some s' \<and> released sample_heap 2 1 s')"
proof -
  have c: "closed_chain sample_heap 2 1" using sample_chain by (simp add: closed_chain_def)
  have p: "PTR_FROM_BLOCK sample_heap 2 = 48" by (simp add: PTR_FROM_BLOCK_def BYTES_PER_BLOCK_def)
  show ?thesis using gc_free_releases_exactly_chain [OF sample_ok _ c] c by (auto simp: p BYTES_PER_BLOCK_def)
qed

text \<open>
  C12: Reallocation of a reachable chain that ends before the last block never fails an assertion,
  whether it keeps, shrinks, extends in place, moves or gives up, and whether or not a collection
  runs on the way. The result is a chain of the requested size with the old contents, as far as they fit,
  and the old finaliser bit; every other reachable chain is as before; on failure the old chain is.
\<close>

theorem gc_realloc_preserves_contents:
  assumes "heap_ok s" "gc_lock_depth s = 0" "gc_pool_start s mod BYTES_PER_BLOCK = 0"
    "chain s b n" "b + n < n_blk s" "reach s (ctx @ stacks) b"
    "0 < n_bytes" "n_bytes + BYTES_PER_BLOCK \<le> 2 ^ 32"
  shows "\<exists>r. gc_realloc (\<lambda>s. fst (gc_collect ctx stacks s)) (Some (PTR_FROM_BLOCK s b)) n_bytes allow_move s = Some r \<and>
    reallocated s b n ((n_bytes + BYTES_PER_BLOCK - 1) div BYTES_PER_BLOCK) (reach s (ctx @ stacks)) r"
  using assms by (rule gc_realloc_correct)

theorem gc_realloc_preserves_contents_witness:
  "\<exists>r. gc_realloc (\<lambda>s. fst (gc_collect sample_roots [] s)) (Some (PTR_FROM_BLOCK sample_heap 2)) 40 True sample_heap = Some r \<and>
    reallocated sample_heap 2 1 3 (reach sample_heap sample_roots) r"
  using gc_realloc_preserves_contents [OF sample_ok _ _ sample_chain, of sample_roots "[]" 40 True] sample_reach
  by (simp add: BYTES_PER_BLOCK_def)

text \<open>
  The statistics: used and free bytes add up to the size of the pool, the free bytes are those of the free
  blocks, and \<^verbatim>\<open>max_free\<close> is the length of a longest run of free blocks, the largest size that can be
  allocated without a collection.
\<close>

theorem gc_info_exact:
  assumes "heap_ok s"
  shows "info_total (gc_info s) = gc_pool_end s - gc_pool_start s \<and>
    info_used (gc_info s) + info_free (gc_info s) = info_total (gc_info s) \<and>
    info_free (gc_info s) = card {b. b < n_blk s \<and> is_free s b} * BYTES_PER_BLOCK \<and>
    (\<forall>n. n \<le> info_max_free (gc_info s) \<longleftrightarrow> (\<exists>b. free_run s b n))"
proof -
  obtain b where "free_run s b (info_max_free (gc_info s))" using gc_info_correct(5) [OF assms] by blast
  then have "free_run s b n" if "n \<le> info_max_free (gc_info s)" for n
    using that by (auto simp: free_run_def)
  then show ?thesis using gc_info_correct(1-3) [OF assms] gc_info_correct(4) [OF assms] by (auto simp: gc_pool_end_def)
qed

theorem gc_info_exact_witness:
  "heap_ok sample_heap \<and> info_total (gc_info sample_heap) = 128 \<and> 2 \<le> info_max_free (gc_info sample_heap)"
proof -
  have "free_run sample_heap 6 2" by (auto simp: free_run_def is_free_def ATB_GET_KIND_def less_Suc_eq numeral_eq_Suc)
  then show ?thesis using gc_info_exact [OF sample_ok] sample_ok by (auto simp: gc_pool_end_def BYTES_PER_BLOCK_def)
qed

section \<open>The end of the heap\<close>

text \<open>
  A chain that ends at the last block when block 1, but not block 0, has a finaliser: the field behind
  the allocation table reads as a tail, so the chain looks one block longer than it is, and releasing it
  clears the finaliser bit of block 1.
\<close>

definition overrun_heap :: gc_state where
  "overrun_heap = \<lparr>tbl = [1, 1, 0, 1, 2, 0, 0, 0], gc_alloc_table_byte_len = 1, gc_pool_start = 16,
     pool = replicate 16 0, gc_last_free_atb_index = 0, gc_lock_depth = 0, gc_auto_collect_enabled = True,
     gc_stack_overflow = False, gc_alloc_threshold = 2 ^ 32 - 1, gc_alloc_amount = 0\<rparr>"

lemma last_block_overrun:
  "gc_nbytes 64 overrun_heap = 32" "FTB_GET overrun_heap 1"
  "\<exists>s. gc_free (Some 64) overrun_heap = Some s \<and> \<not> FTB_GET s 1 \<and> tbl s ! 1 = AT_HEAD"
proof -
  have n: "n_blk overrun_heap = 4" by (simp add: overrun_heap_def n_blk_def BLOCKS_PER_ATB_def)
  have v: "VERIFY_PTR overrun_heap 64" "BLOCK_FROM_PTR overrun_heap 64 = 3"
    by (simp_all add: VERIFY_PTR_def gc_pool_end_def n BLOCK_FROM_PTR_def BYTES_PER_BLOCK_def) (simp_all add: overrun_heap_def)
  have t: "tbl overrun_heap = [1, 1, 0, 1, 2, 0, 0, 0]" "gc_lock_depth overrun_heap = 0" "gc_last_free_atb_index overrun_heap = 0"
    by (simp_all add: overrun_heap_def)
  show "gc_nbytes 64 overrun_heap = 32"
    by (simp add: gc_nbytes_def v ATB_GET_KIND_def t chain_len_def BYTES_PER_BLOCK_def)
  show "FTB_GET overrun_heap 1" unfolding FTB_GET_def ftb_field_def n t by (simp add: bit_iff_odd)
  have c: "FTB_CLEAR 3 overrun_heap = overrun_heap"
    by (simp add: FTB_CLEAR_def ftb_field_def n t)
  have "gc_free (Some 64) overrun_heap = Some (free_chain 3 overrun_heap)"
    by (simp add: gc_free_def v ATB_GET_KIND_def t c)
  moreover have "free_chain 3 overrun_heap = overrun_heap\<lparr>tbl := [1, 1, 0, 0, 0, 0, 0, 0]\<rparr>"
    by (simp add: free_chain_def chain_len_def t ATB_ANY_TO_FREE_def upt_rec numeral_eq_Suc)
  ultimately show "\<exists>s. gc_free (Some 64) overrun_heap = Some s \<and> \<not> FTB_GET s 1 \<and> tbl s ! 1 = AT_HEAD"
    using n by (simp add: FTB_GET_def ftb_field_def n_blk_def)
qed

end
