(* ===== verification/Wifi_Buffer.thy ===== *)
theory Wifi_Buffer
  imports Ringbuf
begin

text \<open>
  The receive buffer of the WiFi drivers, \<^verbatim>\<open>ports/rp2/buffer.c\<close>: a circular buffer whose front index is one
  cell before the first byte, with block transfers and a search for a byte pattern.
\<close>

section \<open>Operations\<close>

text \<open>The indices are 16 bits wide, the size 32 bits.\<close>

record Buffer_t =
  front :: nat
  rear :: nat
  buffer :: "byte list"
  maxSize :: nat

definition Buffer_Init :: "nat \<Rightarrow> Buffer_t" where
  "Buffer_Init sz = \<lparr>front = 0, rear = 0, buffer = (replicate sz 0)[0 := 32], maxSize = sz\<rparr>"

definition Buffer_Size :: "Buffer_t \<Rightarrow> nat" where
  "Buffer_Size b = nat ((int (rear b) - int (front b) + int (maxSize b)) mod 2 ^ 32) mod maxSize b"

definition Buffer_Size2 :: "Buffer_t \<Rightarrow> nat \<Rightarrow> nat" where
  "Buffer_Size2 b index = nat ((int index - int (front b) + int (maxSize b)) mod 2 ^ 32) mod maxSize b"

definition Buffer_StartPostion :: "Buffer_t \<Rightarrow> nat" where
  "Buffer_StartPostion b = (front b + 1) mod maxSize b"

definition Buffer_Clear :: "Buffer_t \<Rightarrow> Buffer_t" where
  "Buffer_Clear b = b\<lparr>front := 0, rear := 0\<rparr>"

definition put_byte :: "byte \<Rightarrow> Buffer_t \<Rightarrow> Buffer_t" where
  "put_byte d b = (let r = u16 ((rear b + 1) mod maxSize b) in b\<lparr>rear := r, buffer := (buffer b)[r := d]\<rparr>)"

text \<open>A block transfer that is refused returns \<^const>\<open>None\<close> and leaves the buffer as it is.\<close>

definition Buffer_Puts :: "byte list \<Rightarrow> Buffer_t \<Rightarrow> Buffer_t option" where
  "Buffer_Puts data b =
     (if maxSize b - Buffer_Size b \<le> length data then None else Some (fold put_byte data b))"

fun get_bytes :: "nat \<Rightarrow> Buffer_t \<Rightarrow> byte list \<times> Buffer_t" where
  "get_bytes 0 b = ([], b)"
| "get_bytes (Suc n) b =
     (let f = u16 ((front b + 1) mod maxSize b); (ds, b') = get_bytes n (b\<lparr>front := f\<rparr>)
      in (buffer b ! f # ds, b'))"

definition Buffer_Gets :: "nat \<Rightarrow> Buffer_t \<Rightarrow> (byte list \<times> Buffer_t) option" where
  "Buffer_Gets n b = (if Buffer_Size b < n then None else Some (get_bytes n b))"

text \<open>The loop of \<^verbatim>\<open>Buffer_Query\<close>; the result is the position of the pattern or -1.\<close>

fun query_loop :: "Buffer_t \<Rightarrow> byte list \<Rightarrow> nat \<Rightarrow> nat \<Rightarrow> nat \<Rightarrow> int \<Rightarrow> int" where
  "query_loop b data 0 index indexData indexReturn = -1"
| "query_loop b data (Suc size') index indexData indexReturn =
     (if buffer b ! index = data ! indexData
      then let ret = (if indexData = 0 then int index else indexReturn); indexData = indexData + 1
           in if indexData = length data then ret
              else query_loop b data size' ((index + 1) mod maxSize b) indexData ret
      else if buffer b ! index = data ! 0
      then if 1 = length data then int index
           else query_loop b data size' ((index + 1) mod maxSize b) 1 (int index)
      else query_loop b data size' ((index + 1) mod maxSize b) 0 (-1))"

definition Buffer_Query :: "Buffer_t \<Rightarrow> byte list \<Rightarrow> nat \<Rightarrow> int" where
  "Buffer_Query b data startPosition =
     query_loop b data (nat ((int (rear b) - int startPosition + 1 + int (maxSize b)) mod 2 ^ 32) mod maxSize b)
       startPosition 0 (-1)"

lemma query_loop_numeral:
  "query_loop b data (numeral n) index indexData indexReturn =
     (if buffer b ! index = data ! indexData
      then let ret = (if indexData = 0 then int index else indexReturn); indexData = indexData + 1
           in if indexData = length data then ret
              else query_loop b data (pred_numeral n) ((index + 1) mod maxSize b) indexData ret
      else if buffer b ! index = data ! 0
      then if 1 = length data then int index
           else query_loop b data (pred_numeral n) ((index + 1) mod maxSize b) 1 (int index)
      else query_loop b data (pred_numeral n) ((index + 1) mod maxSize b) 0 (-1))"
  by (simp only: numeral_eq_Suc query_loop.simps)

section \<open>Contents\<close>

definition buffer_ok :: "Buffer_t \<Rightarrow> bool" where
  "buffer_ok b \<longleftrightarrow> 0 < maxSize b \<and> maxSize b \<le> 2 ^ 16 \<and> length (buffer b) = maxSize b \<and> front b < maxSize b \<and> rear b < maxSize b"

definition buffer_items :: "Buffer_t \<Rightarrow> byte list" where
  "buffer_items b = window (buffer b) (front b + 1) (ring_dist (maxSize b) (front b) (rear b))"

definition buffer_cap :: "Buffer_t \<Rightarrow> nat" where
  "buffer_cap b = maxSize b - 1"

lemma wrap_diff: "i \<le> m \<Longrightarrow> j \<le> m \<Longrightarrow> m \<le> 2 ^ 16 \<Longrightarrow> nat ((int j - int i + int m) mod 2 ^ 32) = m + j - i"
proof -
  assume a: "i \<le> m" "j \<le> m" "m \<le> 2 ^ 16"
  then have "(int j - int i + int m) mod 2 ^ 32 = int j - int i + int m" by (intro mod_pos_pos_trivial) simp_all
  also have "\<dots> = int (m + j - i)" using a by (simp add: of_nat_diff)
  finally show ?thesis by simp
qed

lemma Buffer_Size_dist: "buffer_ok b \<Longrightarrow> Buffer_Size b = ring_dist (maxSize b) (front b) (rear b)"
  unfolding Buffer_Size_def ring_dist_def by (subst wrap_diff) (simp_all add: buffer_ok_def)

lemma Buffer_Size_items: "buffer_ok b \<Longrightarrow> Buffer_Size b = length (buffer_items b)"
  by (simp add: Buffer_Size_dist buffer_items_def)

lemma index_u16: "buffer_ok b \<Longrightarrow> u16 (i mod maxSize b) = i mod maxSize b"
proof -
  assume "buffer_ok b"
  then have "i mod maxSize b < maxSize b" "maxSize b \<le> 2 ^ 16" by (simp_all add: buffer_ok_def)
  then show ?thesis by (intro u16_id) linarith
qed

lemma put_byte_items:
  assumes ok: "buffer_ok b" and room: "length (buffer_items b) < buffer_cap b"
  shows "buffer_ok (put_byte d b) \<and> buffer_items (put_byte d b) = buffer_items b @ [d] \<and> maxSize (put_byte d b) = maxSize b"
proof -
  note f = ok [unfolded buffer_ok_def]
  have p: "put_byte d b = b\<lparr>rear := (rear b + 1) mod maxSize b, buffer := (buffer b)[(rear b + 1) mod maxSize b := d]\<rparr>"
    by (simp add: put_byte_def Let_def index_u16 [OF ok])
  have n: "(rear b + 1) mod maxSize b \<noteq> front b"
    using room f ring_dist_Suc(1) [of "front b" "maxSize b" "rear b"] by (auto simp: buffer_items_def buffer_cap_def)
  let ?n = "ring_dist (maxSize b) (front b) (rear b)"
  have "(front b + 1 + ?n) mod maxSize b = (rear b + 1) mod maxSize b"
    using ring_dist_add [of "front b" "maxSize b" "rear b"] f by (metis Suc_eq_plus1 add.commute add.left_commute mod_add_left_eq)
  moreover have "?n < length (buffer b)" using f ring_dist_less [of "maxSize b" "front b" "rear b"] by simp
  ultimately have "window ((buffer b)[(rear b + 1) mod maxSize b := d]) (front b + 1) (Suc ?n) = window (buffer b) (front b + 1) ?n @ [d]"
    using window_put [of ?n "buffer b" "front b + 1" d] f by simp
  then show ?thesis using f ring_dist_Suc(2) [of "front b" "maxSize b" "rear b"] n by (simp add: p buffer_ok_def buffer_items_def)
qed

lemma puts_items:
  assumes "buffer_ok b" "length (buffer_items b) + length data \<le> buffer_cap b"
  shows "buffer_ok (fold put_byte data b) \<and> buffer_items (fold put_byte data b) = buffer_items b @ data \<and>
    maxSize (fold put_byte data b) = maxSize b"
  using assms
proof (induction data arbitrary: b)
  case (Cons d data)
  have "length (buffer_items b) < buffer_cap b" using Cons.prems(2) by simp
  note p = put_byte_items [OF Cons.prems(1) this, of d]
  show ?case using Cons.IH [of "put_byte d b"] p Cons.prems(2) by (simp add: buffer_cap_def)
qed simp

lemma get_bytes_items:
  assumes "buffer_ok b" "n \<le> length (buffer_items b)" "get_bytes n b = (ds, b')"
  shows "buffer_ok b' \<and> buffer_items b = ds @ buffer_items b' \<and> length ds = n \<and> maxSize b' = maxSize b"
  using assms
proof (induction n arbitrary: b ds)
  case (Suc n)
  note f = Suc.prems(1) [unfolded buffer_ok_def]
  let ?f = "(front b + 1) mod maxSize b"
  obtain es where e: "get_bytes n (b\<lparr>front := ?f\<rparr>) = (es, b')" "ds = buffer b ! ?f # es"
    using Suc.prems(3) by (auto simp: Let_def index_u16 [OF Suc.prems(1)] split: prod.splits)
  have ne: "rear b \<noteq> front b" using Suc.prems(2) f ring_dist_0 [of "front b" "maxSize b" "rear b"] by (auto simp: buffer_items_def)
  have "ring_dist (maxSize b) (front b) (rear b) = Suc (ring_dist (maxSize b) ?f (rear b))"
    using ring_dist_Suc(3) [of "front b" "maxSize b" "rear b"] ring_dist_0 [of "front b" "maxSize b" "rear b"] f ne by auto
  moreover have "window (buffer b) (?f + 1) k = window (buffer b) (Suc (front b + 1)) k" for k
    using window_mod [of "buffer b" "?f + 1" k] window_mod [of "buffer b" "Suc (front b + 1)" k] f
    by (simp add: mod_Suc_eq)
  ultimately have it: "buffer_items b = buffer b ! ?f # buffer_items (b\<lparr>front := ?f\<rparr>)"
    using f by (simp add: buffer_items_def window_Suc)
  have "buffer_ok (b\<lparr>front := ?f\<rparr>)" using f by (simp add: buffer_ok_def)
  then show ?case using Suc.IH [OF _ _ e(1)] it e(2) Suc.prems(2) by simp
qed simp

lemma Buffer_Puts_spec:
  assumes "buffer_ok b"
  shows "Buffer_Puts data b = None \<longleftrightarrow> length (buffer_items b) + length data > buffer_cap b"
    "Buffer_Puts data b = Some b' \<Longrightarrow> buffer_ok b' \<and> buffer_items b' = buffer_items b @ data \<and> maxSize b' = maxSize b"
proof -
  have "length (buffer_items b) < maxSize b"
    using assms ring_dist_less [of "maxSize b"] by (simp add: buffer_items_def buffer_ok_def)
  then have full: "maxSize b - Buffer_Size b \<le> length data \<longleftrightarrow> length (buffer_items b) + length data > buffer_cap b"
    unfolding Buffer_Size_items [OF assms] buffer_cap_def by linarith
  then show "Buffer_Puts data b = None \<longleftrightarrow> length (buffer_items b) + length data > buffer_cap b"
    by (simp add: Buffer_Puts_def)
  show "Buffer_Puts data b = Some b' \<Longrightarrow> buffer_ok b' \<and> buffer_items b' = buffer_items b @ data \<and> maxSize b' = maxSize b"
    using puts_items [OF assms, of data] full by (auto simp: Buffer_Puts_def split: if_splits)
qed

lemma Buffer_Gets_spec:
  assumes "buffer_ok b"
  shows "Buffer_Gets n b = None \<longleftrightarrow> length (buffer_items b) < n"
    "Buffer_Gets n b = Some (ds, b') \<Longrightarrow> buffer_ok b' \<and> buffer_items b = ds @ buffer_items b' \<and> length ds = n \<and> maxSize b' = maxSize b"
  using get_bytes_items [OF assms, of n ds b'] by (auto simp: Buffer_Gets_def Buffer_Size_items [OF assms] split: if_splits)

interpretation wbq: bounded_queue buffer_ok buffer_items buffer_cap "\<lambda>v. Buffer_Puts [v]"
  "\<lambda>b. map_option (\<lambda>(ds, b). (hd ds, b)) (Buffer_Gets 1 b)"
proof
  fix q q' :: Buffer_t and v :: byte
  assume ok: "buffer_ok q"
  show le: "length (buffer_items q) \<le> buffer_cap q"
    using ok ring_dist_less [of "maxSize q" "front q" "rear q"] by (simp add: buffer_items_def buffer_cap_def buffer_ok_def)
  show "Buffer_Puts [v] q = None \<longleftrightarrow> length (buffer_items q) = buffer_cap q"
    using Buffer_Puts_spec(1) [OF ok, of "[v]"] le by auto
  show "Buffer_Puts [v] q = Some q' \<Longrightarrow> buffer_ok q' \<and> buffer_items q' = buffer_items q @ [v] \<and> buffer_cap q' = buffer_cap q"
    using Buffer_Puts_spec(2) [OF ok] by (auto simp: buffer_cap_def)
  show "map_option (\<lambda>(ds, b). (hd ds, b)) (Buffer_Gets 1 q) = None \<longleftrightarrow> buffer_items q = []"
    using Buffer_Gets_spec(1) [OF ok, of 1] by simp
  assume "map_option (\<lambda>(ds, b). (hd ds, b)) (Buffer_Gets 1 q) = Some (v, q')"
  then obtain ds where "Buffer_Gets 1 q = Some (ds, q')" "v = hd ds" by auto
  then show "buffer_ok q' \<and> buffer_items q = v # buffer_items q' \<and> buffer_cap q' = buffer_cap q"
    using Buffer_Gets_spec(2) [OF ok, of 1 ds q'] by (auto simp: buffer_cap_def length_Suc_conv)
qed

section \<open>The search\<close>

text \<open>The pattern occurs at offset \<open>i\<close> of the bytes \<open>w\<close>.\<close>

definition occurs :: "byte list \<Rightarrow> byte list \<Rightarrow> nat \<Rightarrow> bool" where
  "occurs w data i \<longleftrightarrow> i + length data \<le> length w \<and> (\<forall>t < length data. w ! (i + t) = data ! t)"

text \<open>
  The state of the search after \<open>k\<close> bytes: the last \<open>j\<close> of them match the start of the pattern. Without
  a second occurrence of its first byte in the pattern, no earlier occurrence has been missed.
\<close>

definition query_inv :: "byte list \<Rightarrow> byte list \<Rightarrow> nat \<Rightarrow> nat \<Rightarrow> bool" where
  "query_inv w data k j \<longleftrightarrow> j \<le> k \<and> j < length data \<and> k \<le> length w \<and> (\<forall>t < j. w ! (k - j + t) = data ! t) \<and>
     (hd data \<notin> set (tl data) \<longrightarrow> (\<forall>i < k - j. \<not> occurs w data i))"

lemma query_inv_match:
  assumes inv: "query_inv w data k j" and k: "k < length w" "w ! k = data ! j"
  shows "j + 1 < length data \<Longrightarrow> query_inv w data (k + 1) (j + 1)" "j + 1 = length data \<Longrightarrow> occurs w data (k - j)"
proof -
  have m: "w ! (k - j + t) = data ! t" if "t < j + 1" for t
    using inv that k by (cases "t = j") (auto simp: query_inv_def)
  show "j + 1 < length data \<Longrightarrow> query_inv w data (k + 1) (j + 1)" using inv m k by (auto simp: query_inv_def)
  show "j + 1 = length data \<Longrightarrow> occurs w data (k - j)" using inv m k by (auto simp: query_inv_def occurs_def)
qed

lemma query_inv_restart:
  assumes inv: "query_inv w data k j" and k: "k < length w" "w ! k \<noteq> data ! j"
  shows "query_inv w data k 0" "w ! k \<noteq> data ! 0 \<Longrightarrow> query_inv w data (k + 1) 0"
proof -
  have ne: "data \<noteq> []" using inv by (auto simp: query_inv_def)
  have no: "\<not> occurs w data i" if u: "hd data \<notin> set (tl data)" and i: "i < k" for i
  proof (cases "i < k - j")
    case True then show ?thesis using inv u by (simp add: query_inv_def)
  next
    case False
    show ?thesis
    proof
      assume o: "occurs w data i"
      show False
      proof (cases "i = k - j")
        case True
        then have "w ! (i + j) = data ! j" using o inv by (auto simp: occurs_def query_inv_def)
        then show False using k(2) True inv by (simp add: query_inv_def)
      next
        case later: False
        define t where "t = i - (k - j)"
        have t: "0 < t" "t < j" "i = k - j + t" using False later i by (auto simp: t_def)
        have "w ! i = data ! t" unfolding t(3) using inv t(2) unfolding query_inv_def by blast
        moreover have "w ! i = hd data" using o ne by (simp add: occurs_def hd_conv_nth) (metis add.right_neutral length_greater_0_conv)
        moreover have "data ! t \<in> set (tl data)"
          using t inv by (auto simp: query_inv_def in_set_conv_nth nth_tl intro!: exI [of _ "t - 1"])
        ultimately show False using u by simp
      qed
    qed
  qed
  then show "query_inv w data k 0" using inv k(1) ne by (auto simp: query_inv_def)
  assume z: "w ! k \<noteq> data ! 0"
  have "\<not> occurs w data k" using z ne by (auto simp: occurs_def)
  then show "query_inv w data (k + 1) 0" using no k(1) ne by (auto simp: query_inv_def less_Suc_eq)
qed

text \<open>The result of a search of \<open>w\<close>, which starts at position \<open>p\<close> of the buffer.\<close>

definition query_result :: "byte list \<Rightarrow> byte list \<Rightarrow> nat \<Rightarrow> nat \<Rightarrow> int \<Rightarrow> bool" where
  "query_result w data p m r \<longleftrightarrow>
     (r = -1 \<and> (hd data \<notin> set (tl data) \<longrightarrow> (\<forall>i. \<not> occurs w data i))) \<or>
     (\<exists>i. r = int ((p + i) mod m) \<and> occurs w data i \<and> (hd data \<notin> set (tl data) \<longrightarrow> (\<forall>i' < i. \<not> occurs w data i')))"

lemma query_result_found:
  assumes "query_inv w data k j" "k < length w" "w ! k = data ! j" "j + 1 = length data"
  shows "query_result w data p m (int ((p + (k - j)) mod m))"
  unfolding query_result_def
  by (intro disjI2 exI [of _ "k - j"]) (use query_inv_match(2) [OF assms] assms(1) in \<open>simp add: query_inv_def\<close>)

lemma query_loop_result:
  assumes b: "length (buffer b) = maxSize b" "0 < maxSize b" and w: "w = window (buffer b) p n"
    and inv: "query_inv w data (n - sz) j" "sz \<le> n" and idx: "index = (p + (n - sz)) mod maxSize b"
    and ret: "ret = (if j = 0 then -1 else int ((p + (n - sz - j)) mod maxSize b))"
  shows "query_result w data p (maxSize b) (query_loop b data sz index j ret)"
  using inv idx ret
proof (induction sz arbitrary: index j ret)
  case 0
  have "\<forall>i. \<not> occurs w data i" if "hd data \<notin> set (tl data)"
  proof (intro allI notI)
    fix i assume o: "occurs w data i"
    then have "i < n - j" using 0 w by (auto simp: occurs_def query_inv_def)
    then show False using 0 that o by (auto simp: query_inv_def)
  qed
  then show ?case by (simp add: query_result_def)
next
  case (Suc sz)
  define k where "k = n - Suc sz"
  have k: "k < length w" "n - sz = k + 1" "sz \<le> n" using Suc.prems(2) w by (auto simp: k_def)
  have kw: "buffer b ! index = w ! k" using Suc.prems(3) k(1) b w by (simp add: window_def k_def)
  have ix: "(index + 1) mod maxSize b = (p + (n - sz)) mod maxSize b"
    using Suc.prems(3) k(2) unfolding k_def by (simp add: mod_Suc_eq)
  have inv: "query_inv w data k j" using Suc.prems(1) by (simp add: k_def)
  then have ne: "data \<noteq> []" "j \<le> k" by (auto simp: query_inv_def)
  have at: "int index = int ((p + k) mod maxSize b)" using Suc.prems(3) by (simp add: k_def)
  show ?case
  proof (cases "w ! k = data ! j")
    case True
    have r: "(if j = 0 then int index else ret) = int ((p + (k - j)) mod maxSize b)"
      using Suc.prems(4) at ne by (simp add: k_def [symmetric])
    show ?thesis
    proof (cases "j + 1 = length data")
      case whole: True
      then show ?thesis using query_result_found [OF inv k(1) True whole] True kw r by simp
    next
      case False
      then have "query_inv w data (n - sz) (j + 1)" using query_inv_match(1) [OF inv k(1) True] inv k(2) by (auto simp: query_inv_def)
      from Suc.IH [OF this k(3) ix, of "int ((p + (k - j)) mod maxSize b)"] show ?thesis
        using True kw False r k(2) by (simp add: Let_def)
    qed
  next
    case mis: False
    note re = query_inv_restart [OF inv k(1) mis]
    show ?thesis
    proof (cases "w ! k = data ! 0")
      case True
      show ?thesis
      proof (cases "1 = length data")
        case one: True
        then show ?thesis using query_result_found [OF re(1) k(1) True, of p "maxSize b"] mis True kw at by simp
      next
        case False
        then have "query_inv w data (n - sz) 1" using query_inv_match(1) [OF re(1) k(1) True] ne k(2)
          by (metis One_nat_def Suc_eq_plus1 add_0 length_0_conv less_one linorder_neqE_nat)
        from Suc.IH [OF this k(3) ix, of "int index"] show ?thesis using mis True kw False at k(2) by simp
      qed
    next
      case False
      have "query_inv w data (n - sz) 0" using re(2) [OF False] k(2) by simp
      from Suc.IH [OF this k(3) ix, of "-1"] show ?thesis using mis False kw by simp
    qed
  qed
qed

section \<open>Properties\<close>

text \<open>
  C15: The receive buffer refines a bounded queue of bytes: a block is put exactly if it fits into the
  \<^verbatim>\<open>maxSize - 1\<close> usable cells, and then appended; a block is got exactly if there are enough bytes, and then it
  is the oldest bytes in order; over any interleaving of single-byte transfers nothing is lost,
  duplicated or reordered; the size is the number of bytes and clearing empties the buffer.
\<close>

theorem wifi_buffer_refines_queue:
  assumes "buffer_ok b"
  shows "(case Buffer_Puts data b of
      None \<Rightarrow> length (buffer_items b) + length data > buffer_cap b
    | Some b' \<Rightarrow> buffer_ok b' \<and> buffer_items b' = buffer_items b @ data) \<and>
   (case Buffer_Gets n b of
      None \<Rightarrow> length (buffer_items b) < n
    | Some (ds, b') \<Rightarrow> buffer_ok b' \<and> ds = take n (buffer_items b) \<and> buffer_items b' = drop n (buffer_items b)) \<and>
   Buffer_Size b = length (buffer_items b) \<and> buffer_ok (Buffer_Clear b) \<and> buffer_items (Buffer_Clear b) = [] \<and>
   (\<forall>ops ins outs b'. queue_run (\<lambda>v. Buffer_Puts [v]) (\<lambda>b. map_option (\<lambda>(ds, b). (hd ds, b)) (Buffer_Gets 1 b)) ops b = (ins, outs, b') \<longrightarrow>
      buffer_items b @ ins = outs @ buffer_items b')"
proof -
  have p: "case Buffer_Puts data b of None \<Rightarrow> length (buffer_items b) + length data > buffer_cap b
    | Some b' \<Rightarrow> buffer_ok b' \<and> buffer_items b' = buffer_items b @ data"
    using Buffer_Puts_spec [OF assms, of data] by (simp split: option.split)
  have g: "case Buffer_Gets n b of None \<Rightarrow> length (buffer_items b) < n
    | Some (ds, b') \<Rightarrow> buffer_ok b' \<and> ds = take n (buffer_items b) \<and> buffer_items b' = drop n (buffer_items b)"
  proof (cases "Buffer_Gets n b")
    case None
    then show ?thesis using Buffer_Gets_spec(1) [OF assms, of n] by simp
  next
    case (Some r)
    then show ?thesis using Buffer_Gets_spec(2) [OF assms, of n "fst r" "snd r"] by (auto simp: split_beta)
  qed
  have "buffer_ok (Buffer_Clear b)" "buffer_items (Buffer_Clear b) = []"
    using assms by (simp_all add: Buffer_Clear_def buffer_ok_def buffer_items_def ring_dist_def)
  then show ?thesis using p g Buffer_Size_items [OF assms] wbq.fifo [OF assms] by blast
qed

theorem wifi_buffer_refines_queue_witness:
  "\<exists>b. buffer_ok b \<and> buffer_items b = [1, 2, 3] \<and> Buffer_Puts [4, 5] b = None"
proof -
  have ok: "buffer_ok (Buffer_Init 5)" by (simp add: Buffer_Init_def buffer_ok_def)
  have it: "buffer_items (Buffer_Init 5) = []" "buffer_cap (Buffer_Init 5) = 4"
    by (simp_all add: Buffer_Init_def buffer_items_def ring_dist_def buffer_cap_def)
  obtain b where b: "Buffer_Puts [1, 2, 3] (Buffer_Init 5) = Some b" "buffer_ok b" "buffer_items b = [1, 2, 3]"
    using conjunct1 [OF wifi_buffer_refines_queue [OF ok, of "[1, 2, 3]" 0]] it
    by (cases "Buffer_Puts [1, 2, 3] (Buffer_Init 5)") auto
  have "maxSize b = 5" using Buffer_Puts_spec(2) [OF ok b(1)] by (simp add: Buffer_Init_def)
  then show ?thesis using b Buffer_Puts_spec(1) [OF b(2), of "[4, 5]"] by (auto simp: buffer_cap_def)
qed

text \<open>
  C36: The search for a pattern from a position on: a result other than -1 is the position of an occurrence of the
  whole pattern in the bytes from that position to the last one, around the end of the buffer. If the first byte
  of the pattern does not occur in it again, the result is the first occurrence, and -1 means that there is
  none.
\<close>

theorem Buffer_Query_correct:
  assumes "buffer_ok b" "p < maxSize b" "data \<noteq> []"
  shows "query_result (window (buffer b) p (ring_dist (maxSize b) p ((rear b + 1) mod maxSize b))) data p (maxSize b)
    (Buffer_Query b data p)"
proof -
  note f = assms(1) [unfolded buffer_ok_def]
  have "int (rear b) - int p + 1 = int (rear b + 1) - int p" by simp
  then have "nat ((int (rear b) - int p + 1 + int (maxSize b)) mod 2 ^ 32) = maxSize b + (rear b + 1) - p"
    using wrap_diff [of p "maxSize b" "rear b + 1"] f assms(2) by simp
  moreover have "(maxSize b + (rear b + 1) - p) mod maxSize b = ring_dist (maxSize b) p ((rear b + 1) mod maxSize b)"
    using f assms(2) by (auto simp: ring_dist_def mod_if)
  ultimately have q: "Buffer_Query b data p = query_loop b data (ring_dist (maxSize b) p ((rear b + 1) mod maxSize b)) p 0 (-1)"
    by (simp add: Buffer_Query_def)
  show ?thesis unfolding q
    by (rule query_loop_result [OF _ _ refl]) (use f assms in \<open>simp_all add: query_inv_def\<close>)
qed

theorem Buffer_Query_correct_witness:
  "query_result [65, 13, 10] [13, 10] 1 5 (Buffer_Query \<lparr>front = 0, rear = 3, buffer = [32, 65, 13, 10, 0], maxSize = 5\<rparr> [13, 10] 1) \<and>
   Buffer_Query \<lparr>front = 0, rear = 3, buffer = [32, 65, 13, 10, 0], maxSize = 5\<rparr> [13, 10] 1 = 2"
proof -
  let ?b = "\<lparr>front = 0, rear = 3, buffer = [32, 65, 13, 10, 0], maxSize = 5\<rparr> :: Buffer_t"
  have "buffer_ok ?b" by (simp add: buffer_ok_def)
  moreover have "window (buffer ?b) 1 (ring_dist 5 1 4) = [65, 13, 10]"
    by (simp add: window_def ring_dist_def upt_rec)
  moreover have "Buffer_Query ?b [13, 10] 1 = 2" by (simp add: Buffer_Query_def query_loop_numeral)
  ultimately show ?thesis using Buffer_Query_correct [of ?b 1 "[13, 10]"] by simp
qed

text \<open>With a repeated first byte the search can miss an occurrence: \<^verbatim>\<open>aab\<close> in \<^verbatim>\<open>aaab\<close>.\<close>

lemma query_misses_occurrence:
  "Buffer_Query \<lparr>front = 0, rear = 4, buffer = [32, 97, 97, 97, 98, 0], maxSize = 6\<rparr> [97, 97, 98] 1 = -1"
  "occurs [97, 97, 97, 98] [97, 97, 98] 1"
  by (simp add: Buffer_Query_def query_loop_numeral)
    (simp add: occurs_def numeral_3_eq_3 All_less_Suc)

end
