(* ===== verification/Scheduler.thy ===== *)
theory Scheduler
  imports Queue
begin

text \<open>
  The scheduler of soft interrupt callbacks, \<^verbatim>\<open>py/scheduler.c\<close>. An interrupt handler, the virtual machine and a running
  callback call its functions in any order, so the component is a transition system whose steps are the atomic sections
  of the code. \<^verbatim>\<open>mp_sched_exception\<close> has no atomic section and is one step here: it does two stores, and a
  handler on the same core that interrupts it runs to its end and can only set the pending state that the
  second store sets too; two cores that run it at once are outside the model.
\<close>

section \<open>State\<close>

type_synonym sched_item = "nat \<times> nat"  \<comment> \<open>function and argument\<close>

record sched =
  sched_state :: int
  sched_len :: nat
  sched_idx :: nat
  sched_queue :: "sched_item list"
  mp_pending_exception :: "nat option"

definition MICROPY_SCHEDULER_DEPTH :: nat where "MICROPY_SCHEDULER_DEPTH = 8"

abbreviation (input) MP_SCHED_IDLE :: int where "MP_SCHED_IDLE \<equiv> 1"
abbreviation (input) MP_SCHED_LOCKED :: int where "MP_SCHED_LOCKED \<equiv> -1"
abbreviation (input) MP_SCHED_PENDING :: int where "MP_SCHED_PENDING \<equiv> 0"

definition IDX_MASK :: "nat \<Rightarrow> nat" where
  "IDX_MASK i = i AND (MICROPY_SCHEDULER_DEPTH - 1)"

definition mp_sched_num_pending :: "sched \<Rightarrow> nat" where
  "mp_sched_num_pending s = sched_len s"

definition mp_sched_full :: "sched \<Rightarrow> bool" where
  "mp_sched_full s \<longleftrightarrow> mp_sched_num_pending s = MICROPY_SCHEDULER_DEPTH"

definition mp_sched_empty :: "sched \<Rightarrow> bool" where
  "mp_sched_empty s \<longleftrightarrow> mp_sched_num_pending s = 0"

section \<open>Operations\<close>

definition mp_sched_exception :: "nat \<Rightarrow> sched \<Rightarrow> sched" where
  "mp_sched_exception exc s =
     (let s = s\<lparr>mp_pending_exception := Some exc\<rparr>
      in if sched_state s = MP_SCHED_IDLE then s\<lparr>sched_state := MP_SCHED_PENDING\<rparr> else s)"

definition mp_sched_lock :: "sched \<Rightarrow> sched" where
  "mp_sched_lock s =
     (if sched_state s < 0 then s\<lparr>sched_state := sched_state s - 1\<rparr> else s\<lparr>sched_state := MP_SCHED_LOCKED\<rparr>)"

text \<open>\<^const>\<open>None\<close> is a failed assertion.\<close>

definition mp_sched_unlock :: "sched \<Rightarrow> sched option" where
  "mp_sched_unlock s =
     (if sched_state s < 0
      then let s = s\<lparr>sched_state := sched_state s + 1\<rparr>
           in Some (if sched_state s = 0
                    then if mp_pending_exception s \<noteq> None \<or> mp_sched_num_pending s \<noteq> 0
                         then s\<lparr>sched_state := MP_SCHED_PENDING\<rparr> else s\<lparr>sched_state := MP_SCHED_IDLE\<rparr>
                    else s)
      else None)"

definition mp_sched_schedule :: "sched_item \<Rightarrow> sched \<Rightarrow> sched \<times> bool" where
  "mp_sched_schedule item s =
     (if \<not> mp_sched_full s
      then let s = (if sched_state s = MP_SCHED_IDLE then s\<lparr>sched_state := MP_SCHED_PENDING\<rparr> else s);
               iput = IDX_MASK (sched_idx s + sched_len s)
           in (s\<lparr>sched_len := sched_len s + 1, sched_queue := (sched_queue s)[iput := item]\<rparr>, True)
      else (s, False))"

text \<open>Taking the next item off the queue, in \<^verbatim>\<open>mp_handle_pending_tail\<close>.\<close>

definition sched_take :: "sched \<Rightarrow> (sched_item \<times> sched) option" where
  "sched_take s =
     (if \<not> mp_sched_empty s
      then Some (sched_queue s ! sched_idx s, s\<lparr>sched_idx := IDX_MASK (sched_idx s + 1), sched_len := sched_len s - 1\<rparr>)
      else None)"

text \<open>
  What an atomic section of \<^verbatim>\<open>mp_handle_pending\<close> decides: nothing is pending, an exception is raised, a callback is
  called, or there is only the lock to be released.
\<close>

datatype outcome = Skip | Raise nat | Call sched_item | NoCall

definition mp_handle_pending_tail :: "sched \<Rightarrow> sched \<times> outcome" where
  "mp_handle_pending_tail s =
     (let s = s\<lparr>sched_state := MP_SCHED_LOCKED\<rparr>
      in case sched_take s of Some (item, s) \<Rightarrow> (s, Call item) | None \<Rightarrow> (s, NoCall))"

definition mp_handle_pending_begin :: "bool \<Rightarrow> sched \<Rightarrow> sched \<times> outcome" where
  "mp_handle_pending_begin raise_exc s =
     (if sched_state s = MP_SCHED_PENDING
      then case mp_pending_exception s of
             Some obj \<Rightarrow>
               (let s = s\<lparr>mp_pending_exception := None\<rparr>;
                    s = (if mp_sched_num_pending s = 0 then s\<lparr>sched_state := MP_SCHED_IDLE\<rparr> else s)
                in if raise_exc then (s, Raise obj) else mp_handle_pending_tail s)
           | None \<Rightarrow> mp_handle_pending_tail s
      else (s, Skip))"

text \<open>The whole function; \<open>call\<close> is the effect of the protected call of a callback on the scheduler.\<close>

definition mp_handle_pending :: "(sched_item \<Rightarrow> sched \<Rightarrow> sched) \<Rightarrow> bool \<Rightarrow> sched \<Rightarrow> (sched \<times> outcome) option" where
  "mp_handle_pending call raise_exc s =
     (case mp_handle_pending_begin raise_exc s of
        (s, Call item) \<Rightarrow> map_option (\<lambda>s. (s, Call item)) (mp_sched_unlock (call item s))
      | (s, NoCall) \<Rightarrow> map_option (\<lambda>s. (s, NoCall)) (mp_sched_unlock s)
      | r \<Rightarrow> Some r)"

section \<open>Transition system\<close>

datatype event = Schedule sched_item bool | Exception nat | Lock | Unlock | Handle outcome

text \<open>The lock depth is a 16-bit integer; fewer than 32768 locks are nested.\<close>

inductive sched_step :: "sched \<Rightarrow> event \<Rightarrow> sched \<Rightarrow> bool" where
  schedule: "mp_sched_schedule item s = (s', ok) \<Longrightarrow> sched_step s (Schedule item ok) s'"
| raise: "sched_step s (Exception exc) (mp_sched_exception exc s)"
| lock: "- (2 ^ 15) < sched_state s \<Longrightarrow> sched_step s Lock (mp_sched_lock s)"
| unlock: "mp_sched_unlock s = Some s' \<Longrightarrow> sched_step s Unlock s'"
| handle: "mp_handle_pending_begin raise_exc s = (s', out) \<Longrightarrow> sched_step s (Handle out) s'"

inductive_cases step_elims:
  "sched_step s (Schedule item ok) s'" "sched_step s (Exception exc) s'" "sched_step s Lock s'"
  "sched_step s Unlock s'" "sched_step s (Handle out) s'"

inductive sched_run :: "sched \<Rightarrow> event list \<Rightarrow> sched \<Rightarrow> bool" where
  run_nil: "sched_run s [] s"
| run_snoc: "sched_run s es s' \<Longrightarrow> sched_step s' e s'' \<Longrightarrow> sched_run s (es @ [e]) s''"

definition sched_init :: sched where
  "sched_init = \<lparr>sched_state = MP_SCHED_IDLE, sched_len = 0, sched_idx = 0,
     sched_queue = replicate MICROPY_SCHEDULER_DEPTH (0, 0), mp_pending_exception = None\<rparr>"

text \<open>
  The invariant: the queue is well formed, and the state is idle or pending exactly according to whether
  there is work, unless the scheduler is locked.
\<close>

definition sched_queue_ok :: "sched \<Rightarrow> bool" where
  "sched_queue_ok s \<longleftrightarrow> length (sched_queue s) = MICROPY_SCHEDULER_DEPTH \<and> sched_idx s < MICROPY_SCHEDULER_DEPTH \<and>
     sched_len s \<le> MICROPY_SCHEDULER_DEPTH"

definition has_work :: "sched \<Rightarrow> bool" where
  "has_work s \<longleftrightarrow> sched_len s \<noteq> 0 \<or> mp_pending_exception s \<noteq> None"

definition sched_inv :: "sched \<Rightarrow> bool" where
  "sched_inv s \<longleftrightarrow> sched_queue_ok s \<and> - (2 ^ 15) \<le> sched_state s \<and>
     (0 \<le> sched_state s \<longrightarrow> sched_state s = (if has_work s then MP_SCHED_PENDING else MP_SCHED_IDLE))"

definition sched_items :: "sched \<Rightarrow> sched_item list" where
  "sched_items s = window (sched_queue s) (sched_idx s) (sched_len s)"

definition sched_put :: "sched_item \<Rightarrow> sched \<Rightarrow> sched option" where
  "sched_put item s = (case mp_sched_schedule item s of (s', ok) \<Rightarrow> if ok then Some s' else None)"

lemma IDX_MASK_mod: "IDX_MASK i = i mod MICROPY_SCHEDULER_DEPTH"
proof -
  have "i AND mask 3 = i mod 2 ^ 3" by (simp only: take_bit_eq_mask [symmetric] take_bit_eq_mod)
  then show ?thesis by (simp add: IDX_MASK_def MICROPY_SCHEDULER_DEPTH_def mask_eq_exp_minus_1)
qed

lemma schedule_items:
  assumes ok: "sched_queue_ok s" and r: "mp_sched_schedule item s = (s', True)"
  shows "sched_queue_ok s' \<and> sched_items s' = sched_items s @ [item]"
proof -
  have full: "\<not> mp_sched_full s" using r by (auto simp: mp_sched_schedule_def)
  define s1 where "s1 = (if sched_state s = MP_SCHED_IDLE then s\<lparr>sched_state := MP_SCHED_PENDING\<rparr> else s)"
  have f: "sched_idx s1 = sched_idx s" "sched_len s1 = sched_len s" "sched_queue s1 = sched_queue s" by (simp_all add: s1_def)
  have s': "s' = s1\<lparr>sched_len := sched_len s + 1, sched_queue := (sched_queue s)[(sched_idx s + sched_len s) mod MICROPY_SCHEDULER_DEPTH := item]\<rparr>"
    using r full by (auto simp: mp_sched_schedule_def Let_def IDX_MASK_mod s1_def)
  have len: "sched_len s < length (sched_queue s)" using ok full by (simp add: sched_queue_ok_def mp_sched_full_def mp_sched_num_pending_def)
  then show ?thesis using window_put [OF len, of "sched_idx s" item] ok f
    by (simp add: s' sched_items_def sched_queue_ok_def)
qed

lemma take_items:
  assumes ok: "sched_queue_ok s"
  shows "sched_take s = None \<longleftrightarrow> sched_items s = []"
    "sched_take s = Some (item, s') \<Longrightarrow> sched_queue_ok s' \<and> sched_items s = item # sched_items s'"
proof -
  show "sched_take s = None \<longleftrightarrow> sched_items s = []"
    by (auto simp: sched_take_def mp_sched_empty_def mp_sched_num_pending_def sched_items_def length_0_conv [symmetric] simp del: length_0_conv)
  assume t: "sched_take s = Some (item, s')"
  then obtain n where n: "sched_len s = Suc n" by (cases "sched_len s") (auto simp: sched_take_def mp_sched_empty_def mp_sched_num_pending_def)
  have e: "item = sched_queue s ! sched_idx s" "s' = s\<lparr>sched_idx := (sched_idx s + 1) mod MICROPY_SCHEDULER_DEPTH, sched_len := n\<rparr>"
    using t n by (auto simp: sched_take_def mp_sched_empty_def mp_sched_num_pending_def IDX_MASK_mod)
  have d: "MICROPY_SCHEDULER_DEPTH = length (sched_queue s)" using ok by (simp add: sched_queue_ok_def)
  have "sched_idx s mod length (sched_queue s) = sched_idx s" using ok d by (simp add: sched_queue_ok_def)
  then show "sched_queue_ok s' \<and> sched_items s = item # sched_items s'"
    using ok n window_mod [of "sched_queue s" "Suc (sched_idx s)" n]
    by (simp add: e sched_items_def window_Suc d) (auto simp: sched_queue_ok_def)
qed

interpretation sq: bounded_queue sched_queue_ok sched_items "\<lambda>_. MICROPY_SCHEDULER_DEPTH" sched_put sched_take
proof
  fix q q' :: sched and v :: sched_item
  assume ok: "sched_queue_ok q"
  show "sched_put v q = None \<longleftrightarrow> length (sched_items q) = MICROPY_SCHEDULER_DEPTH"
    by (auto simp: sched_put_def mp_sched_schedule_def Let_def sched_items_def mp_sched_full_def mp_sched_num_pending_def)
  show "sched_put v q = Some q' \<Longrightarrow> sched_queue_ok q' \<and> sched_items q' = sched_items q @ [v] \<and> MICROPY_SCHEDULER_DEPTH = MICROPY_SCHEDULER_DEPTH"
    using schedule_items [OF ok, of v q'] by (auto simp: sched_put_def split: prod.splits if_splits)
  show "sched_take q = None \<longleftrightarrow> sched_items q = []" by (rule take_items(1) [OF ok])
  show "sched_take q = Some (v, q') \<Longrightarrow> sched_queue_ok q' \<and> sched_items q = v # sched_items q' \<and> MICROPY_SCHEDULER_DEPTH = MICROPY_SCHEDULER_DEPTH"
    using take_items(2) [OF ok] by simp
  show "length (sched_items q) \<le> MICROPY_SCHEDULER_DEPTH" using ok by (simp add: sched_items_def sched_queue_ok_def)
qed

section \<open>Invariant\<close>

lemmas sched_defs = sched_inv_def has_work_def sched_queue_ok_def mp_sched_num_pending_def mp_sched_empty_def mp_sched_full_def

lemma schedule_inv: "sched_inv s \<Longrightarrow> mp_sched_schedule item s = (s', ok) \<Longrightarrow> sched_inv s'"
  by (auto simp: mp_sched_schedule_def Let_def sched_defs split: if_splits)

lemma exception_inv: "sched_inv s \<Longrightarrow> sched_inv (mp_sched_exception exc s)"
  by (auto simp: mp_sched_exception_def Let_def sched_defs split: if_splits)

lemma lock_inv: "sched_inv s \<Longrightarrow> - (2 ^ 15) < sched_state s \<Longrightarrow> sched_inv (mp_sched_lock s)"
  by (auto simp: mp_sched_lock_def sched_defs)

lemma unlock_inv: "sched_inv s \<Longrightarrow> mp_sched_unlock s = Some s' \<Longrightarrow> sched_inv s'"
  by (auto simp: mp_sched_unlock_def Let_def sched_defs split: if_splits)

lemma tail_inv: "sched_queue_ok s \<Longrightarrow> mp_handle_pending_tail s = (s', out) \<Longrightarrow> sched_inv s' \<and> sched_state s' = -1"
  by (auto simp: mp_handle_pending_tail_def Let_def sched_take_def sched_defs IDX_MASK_mod MICROPY_SCHEDULER_DEPTH_def split: if_splits)

lemma begin_inv: "sched_inv s \<Longrightarrow> mp_handle_pending_begin raise_exc s = (s', out) \<Longrightarrow> sched_inv s'"
  using tail_inv [of "s\<lparr>mp_pending_exception := None\<rparr>" s' out] tail_inv [of s s' out]
    tail_inv [of "s\<lparr>mp_pending_exception := None, sched_state := MP_SCHED_IDLE\<rparr>" s' out]
  by (auto simp: mp_handle_pending_begin_def Let_def sched_defs split: if_splits option.splits)

lemma step_inv: "sched_step s e s' \<Longrightarrow> sched_inv s \<Longrightarrow> sched_inv s'"
  by (induction rule: sched_step.induct) (auto intro: schedule_inv exception_inv lock_inv unlock_inv begin_inv)

lemma run_inv: "sched_run s es s' \<Longrightarrow> sched_inv s \<Longrightarrow> sched_inv s'"
  by (induction rule: sched_run.induct) (auto intro: step_inv)

lemma init_inv: "sched_inv sched_init"
  by (simp add: sched_defs sched_init_def MICROPY_SCHEDULER_DEPTH_def)

section \<open>Order of the callbacks\<close>

fun accepted :: "event \<Rightarrow> sched_item list" where
  "accepted (Schedule item True) = [item]"
| "accepted _ = []"

fun called :: "event \<Rightarrow> sched_item list" where
  "called (Handle (Call item)) = [item]"
| "called _ = []"

lemma tail_items:
  assumes "sched_queue_ok s" "mp_handle_pending_tail s = (s', out)"
  shows "sched_items s = called (Handle out) @ sched_items s'" "out = NoCall \<Longrightarrow> sched_items s = []"
    "out \<noteq> Skip" "\<forall>exc. out \<noteq> Raise exc"
proof -
  let ?s = "s\<lparr>sched_state := MP_SCHED_LOCKED\<rparr>"
  have ok: "sched_queue_ok ?s" using assms(1) by (simp add: sched_queue_ok_def)
  have it: "sched_items ?s = sched_items s" by (simp add: sched_items_def)
  show "sched_items s = called (Handle out) @ sched_items s'" "out = NoCall \<Longrightarrow> sched_items s = []"
    "out \<noteq> Skip" "\<forall>exc. out \<noteq> Raise exc"
    using assms(2) take_items [OF ok] it by (auto simp: mp_handle_pending_tail_def split: option.splits prod.splits)
qed

lemma step_items:
  assumes "sched_step s e s'" "sched_inv s"
  shows "sched_items s @ accepted e = called e @ sched_items s'"
  using assms
proof (induction rule: sched_step.induct)
  case (schedule item s s' ok)
  then show ?case using schedule_items [of s item s']
    by (cases ok) (auto simp: sched_inv_def mp_sched_schedule_def Let_def split: if_splits)
next
  case (raise s exc)
  then show ?case by (simp add: mp_sched_exception_def Let_def sched_items_def)
next
  case (lock s)
  then show ?case by (simp add: mp_sched_lock_def sched_items_def)
next
  case (unlock s s')
  then show ?case by (auto simp: mp_sched_unlock_def Let_def sched_items_def split: if_splits)
next
  case (handle raise_exc s s' out)
  have ok: "sched_queue_ok s" "sched_queue_ok (s\<lparr>mp_pending_exception := None\<rparr>)"
      "sched_queue_ok (s\<lparr>mp_pending_exception := None, sched_state := MP_SCHED_IDLE\<rparr>)"
    using handle.prems by (simp_all add: sched_inv_def sched_queue_ok_def)
  have it: "sched_items (s\<lparr>mp_pending_exception := None\<rparr>) = sched_items s"
      "sched_items (s\<lparr>mp_pending_exception := None, sched_state := MP_SCHED_IDLE\<rparr>) = sched_items s"
    by (simp_all add: sched_items_def)
  show ?case using handle.hyps tail_items(1) [OF ok(1), of s' out] tail_items(1) [OF ok(2), of s' out] tail_items(1) [OF ok(3), of s' out]
    by (auto simp: mp_handle_pending_begin_def Let_def it split: if_splits option.splits)
qed

text \<open>
  C7: The scheduler as a transition system: after any interleaving of its atomic sections the queue is well
  formed, an unlocked scheduler is pending exactly if there is a callback or an exception to handle, so no
  wake-up is lost, and the callbacks called, followed by those still queued, are exactly the accepted
  ones in the order they were scheduled.
\<close>

theorem scheduler_invariant_and_order:
  assumes "sched_run sched_init es s"
  shows "sched_inv s \<and> concat (map accepted es) = concat (map called es) @ sched_items s"
proof -
  have "sched_inv s' \<and> concat (map accepted es) = concat (map called es) @ sched_items s'"
    if "sched_run s es s'" "sched_inv s" "sched_items s = []" for s s'
    using that
  proof (induction rule: sched_run.induct)
    case (run_snoc s es s' e s'')
    then show ?case using step_items [of s' e s''] step_inv [of s' e s''] by simp
  qed simp
  then show ?thesis using assms init_inv by (simp add: sched_items_def sched_init_def)
qed

theorem scheduler_invariant_and_order_witness:
  "\<exists>s. sched_run sched_init [Schedule (1, 2) True, Handle (Call (1, 2))] s \<and> sched_inv s"
proof -
  obtain s1 where s1: "mp_sched_schedule (1, 2) sched_init = (s1, True)" "sched_state s1 = 0" "mp_pending_exception s1 = None"
    "sched_len s1 = 1" "sched_queue s1 ! sched_idx s1 = (1, 2)"
    by (auto simp: mp_sched_schedule_def sched_init_def mp_sched_full_def mp_sched_num_pending_def MICROPY_SCHEDULER_DEPTH_def Let_def
        IDX_MASK_mod)
  obtain s2 where s2: "mp_handle_pending_begin True s1 = (s2, Call (1, 2))"
    using s1 by (simp add: mp_handle_pending_begin_def mp_handle_pending_tail_def sched_take_def mp_sched_empty_def mp_sched_num_pending_def Let_def)
  have "sched_run sched_init ([] @ [Schedule (1, 2) True]) s1"
    by (rule run_snoc [OF run_nil]) (rule sched_step.schedule [OF s1(1)])
  then have "sched_run sched_init (([] @ [Schedule (1, 2) True]) @ [Handle (Call (1, 2))]) s2"
    by (rule run_snoc) (rule sched_step.handle [OF s2])
  then show ?thesis using scheduler_invariant_and_order by fastforce
qed

section \<open>Progress\<close>

text \<open>Calls of \<^verbatim>\<open>mp_handle_pending(true)\<close> with callbacks that do not use the scheduler.\<close>

fun handle_all :: "nat \<Rightarrow> sched \<Rightarrow> (outcome list \<times> sched) option" where
  "handle_all 0 s = Some ([], s)"
| "handle_all (Suc n) s =
     (case mp_handle_pending (\<lambda>item s. s) True s of
        None \<Rightarrow> None
      | Some (s, out) \<Rightarrow> map_option (\<lambda>(outs, s). (out # outs, s)) (handle_all n s))"

lemma handle_exception:
  assumes "sched_inv s" "0 \<le> sched_state s" "mp_pending_exception s = Some exc"
  shows "\<exists>s'. mp_handle_pending call True s = Some (s', Raise exc) \<and> sched_inv s' \<and> 0 \<le> sched_state s' \<and>
    mp_pending_exception s' = None \<and> sched_items s' = sched_items s"
  using assms by (auto simp: mp_handle_pending_def mp_handle_pending_begin_def Let_def sched_defs sched_items_def)

lemma handle_call:
  assumes inv: "sched_inv s" "0 \<le> sched_state s" "mp_pending_exception s = None" and it: "sched_items s = item # items"
  shows "\<exists>s'. mp_handle_pending (\<lambda>item s. s) True s = Some (s', Call item) \<and> sched_inv s' \<and> 0 \<le> sched_state s' \<and>
    mp_pending_exception s' = None \<and> sched_items s' = items"
proof -
  have "sched_len s \<noteq> 0" using arg_cong [OF it, of length] by (simp add: sched_items_def)
  then have pend: "sched_state s = 0" using inv by (simp add: sched_inv_def has_work_def)
  define s0 where "s0 = s\<lparr>sched_state := MP_SCHED_LOCKED\<rparr>"
  have ok: "sched_queue_ok s0" and i0: "sched_items s0 = item # items"
    using inv it by (simp_all add: s0_def sched_inv_def sched_queue_ok_def sched_items_def)
  obtain i s1 where t: "sched_take s0 = Some (i, s1)" using take_items(1) [OF ok] i0 by fastforce
  have t1: "sched_queue_ok s1" "i = item" "sched_items s1 = items" using take_items(2) [OF ok t] i0 by simp_all
  have f: "sched_state s1 = -1" "mp_pending_exception s1 = None" using t inv(3) by (auto simp: sched_take_def s0_def split: if_splits)
  define s2 where "s2 = s1\<lparr>sched_state := if sched_len s1 \<noteq> 0 then MP_SCHED_PENDING else MP_SCHED_IDLE\<rparr>"
  have "mp_handle_pending_begin True s = (s1, Call item)"
    using pend inv(3) t t1(2) by (simp add: mp_handle_pending_begin_def mp_handle_pending_tail_def s0_def [symmetric])
  moreover have "mp_sched_unlock s1 = Some s2"
    using f by (simp add: mp_sched_unlock_def s2_def mp_sched_num_pending_def)
  ultimately have "mp_handle_pending (\<lambda>item s. s) True s = Some (s2, Call item)" by (simp add: mp_handle_pending_def)
  moreover have "sched_inv s2" "sched_items s2 = items" "mp_pending_exception s2 = None" "0 \<le> sched_state s2"
    using t1 f by (simp_all add: s2_def sched_inv_def sched_queue_ok_def sched_items_def has_work_def)
  ultimately show ?thesis by blast
qed

text \<open>
  C35: Progress: an unlocked scheduler that handles its pending work as often as there is work raises the
  pending exception, then calls every queued callback once, in order, and is idle afterwards, when the
  callbacks schedule nothing new; no assertion fails.
\<close>

theorem scheduler_drains:
  assumes "sched_inv s" "0 \<le> sched_state s"
    "outs = (case mp_pending_exception s of None \<Rightarrow> [] | Some exc \<Rightarrow> [Raise exc]) @ map Call (sched_items s)"
  shows "\<exists>s'. handle_all (length outs) s = Some (outs, s') \<and> sched_state s' = MP_SCHED_IDLE \<and> sched_items s' = []"
proof -
  have calls: "\<exists>s'. handle_all (length items) s = Some (map Call items, s') \<and> sched_state s' = MP_SCHED_IDLE \<and> sched_items s' = []"
    if "sched_inv s" "0 \<le> sched_state s" "mp_pending_exception s = None" "sched_items s = items" for s items
    using that
  proof (induction items arbitrary: s)
    case Nil
    then show ?case by (auto simp: sched_inv_def has_work_def sched_items_def length_0_conv [symmetric] simp del: length_0_conv)
  next
    case (Cons item items)
    from handle_call [OF Cons.prems] Cons.IH show ?case by fastforce
  qed
  show ?thesis
  proof (cases "mp_pending_exception s")
    case None
    then show ?thesis using calls [OF assms(1,2) None refl] assms(3) by simp
  next
    case (Some exc)
    obtain s1 where s1: "mp_handle_pending (\<lambda>item s. s) True s = Some (s1, Raise exc)" "sched_inv s1" "0 \<le> sched_state s1"
        "mp_pending_exception s1 = None" "sched_items s1 = sched_items s"
      using handle_exception [OF assms(1,2) Some] by blast
    then show ?thesis using calls [OF s1(2-5)] assms(3) Some by auto
  qed
qed

theorem scheduler_drains_witness:
  "\<exists>s'. handle_all (length [Raise 9, Call (1, 2)]) (mp_sched_exception 9 (fst (mp_sched_schedule (1, 2) sched_init))) = Some ([Raise 9, Call (1, 2)], s') \<and>
    sched_state s' = 1"
proof -
  let ?s = "mp_sched_exception 9 (fst (mp_sched_schedule (1, 2) sched_init))"
  obtain s1 where s1: "mp_sched_schedule (1, 2) sched_init = (s1, True)" "sched_state s1 = 0" "sched_items s1 = [(1, 2)]"
    by (auto simp: mp_sched_schedule_def sched_init_def mp_sched_full_def mp_sched_num_pending_def MICROPY_SCHEDULER_DEPTH_def Let_def
        IDX_MASK_mod sched_items_def window_Suc)
  have "sched_inv s1" using schedule_inv [OF init_inv s1(1)] .
  then have "sched_inv ?s" using exception_inv s1(1) by simp
  moreover have "sched_state ?s = 0" "mp_pending_exception ?s = Some 9" "sched_items ?s = [(1, 2)]"
    using s1 by (simp_all add: mp_sched_exception_def sched_items_def)
  ultimately show ?thesis using scheduler_drains [of ?s "[Raise 9, Call (1, 2)]"] by auto
qed

end
