(* ===== verification/Qstr.thy ===== *)
theory Qstr
  imports Mp_Obj
begin

text \<open>
  The pool of interned strings, \<^verbatim>\<open>py/qstr.c\<close>: a string is stored once, as a record of hash, length and bytes in a
  chunk of memory, and named by its index over a chain of pools. The theory shows that interning is
  stable and injective, which is why an interned string can be named by its contents elsewhere.
\<close>

section \<open>State\<close>

text \<open>A pointer to a record is a chunk of memory and an offset; the pools are listed from the last one.\<close>

type_synonym q_ptr = "nat \<times> nat"

record qstr_pool_t =
  total_prev_len :: nat
  pool_alloc :: nat
  qstrs :: "q_ptr list"

record qstr_state =
  pools :: "qstr_pool_t list"
  chunks :: "nat list list"
  qstr_last_chunk :: "nat option"
  qstr_last_alloc :: nat
  qstr_last_used :: nat

datatype qstr_error = NameTooLong | MemoryError nat

text \<open>What the allocator answers: growing a chunk in place, a new chunk, one of exact size, a new pool.\<close>

record qstr_mem =
  grow_ok :: bool
  chunk_ok :: bool
  exact_ok :: bool
  pool_ok :: bool

definition MICROPY_ALLOC_QSTR_ENTRIES_INIT :: nat where "MICROPY_ALLOC_QSTR_ENTRIES_INIT = 10"
definition MICROPY_ALLOC_QSTR_CHUNK_INIT :: nat where "MICROPY_ALLOC_QSTR_CHUNK_INIT = 128"

definition Q_GET_HASH :: "qstr_state \<Rightarrow> q_ptr \<Rightarrow> nat" where
  "Q_GET_HASH s q = chunks s ! fst q ! snd q"

definition Q_GET_LENGTH :: "qstr_state \<Rightarrow> q_ptr \<Rightarrow> nat" where
  "Q_GET_LENGTH s q = chunks s ! fst q ! (snd q + 1)"

definition Q_GET_DATA :: "qstr_state \<Rightarrow> q_ptr \<Rightarrow> nat list" where
  "Q_GET_DATA s q = drop (snd q + 2) (chunks s ! fst q)"

section \<open>Operations\<close>

definition qstr_init :: "qstr_pool_t list \<Rightarrow> nat list list \<Rightarrow> qstr_state" where
  "qstr_init const_pools rom =
     \<lparr>pools = const_pools, chunks = rom, qstr_last_chunk = None, qstr_last_alloc = 0, qstr_last_used = 0\<rparr>"

fun find_in_pools :: "qstr_pool_t list \<Rightarrow> nat \<Rightarrow> q_ptr option" where
  "find_in_pools [] q = None"
| "find_in_pools (pool # prev) q =
     (if q < total_prev_len pool then find_in_pools prev q
      else if q - total_prev_len pool < length (qstrs pool) then Some (qstrs pool ! (q - total_prev_len pool)) else None)"

definition find_qstr :: "nat \<Rightarrow> qstr_state \<Rightarrow> q_ptr option" where
  "find_qstr q s = find_in_pools (pools s) q"

definition qstr_add :: "bool \<Rightarrow> q_ptr \<Rightarrow> qstr_state \<Rightarrow> (qstr_error + nat) \<times> qstr_state" where
  "qstr_add may_alloc q_ptr s =
     (let last = hd (pools s);
          new_alloc = max MICROPY_ALLOC_QSTR_ENTRIES_INIT (pool_alloc last * 2);
          full = (length (qstrs last) \<ge> pool_alloc last)
      in if full \<and> \<not> may_alloc then (Inl (MemoryError new_alloc), s)
         else let s = (if full
                       then s\<lparr>pools := \<lparr>total_prev_len = total_prev_len last + length (qstrs last),
                                         pool_alloc = new_alloc, qstrs = []\<rparr> # pools s\<rparr>
                       else s);
                  last = hd (pools s);
                  last = last\<lparr>qstrs := qstrs last @ [q_ptr]\<rparr>
              in (Inr (total_prev_len last + length (qstrs last) - 1), s\<lparr>pools := last # tl (pools s)\<rparr>))"

text \<open>The search through the pools, from the last one.\<close>

fun find_index :: "('a \<Rightarrow> bool) \<Rightarrow> 'a list \<Rightarrow> nat option" where
  "find_index P [] = None"
| "find_index P (x # xs) = (if P x then Some 0 else map_option Suc (find_index P xs))"

fun find_strn_in :: "(q_ptr \<Rightarrow> bool) \<Rightarrow> qstr_pool_t list \<Rightarrow> nat" where
  "find_strn_in match [] = 0"
| "find_strn_in match (pool # prev) =
     (case find_index match (qstrs pool) of
        Some i \<Rightarrow> total_prev_len pool + i
      | None \<Rightarrow> find_strn_in match prev)"

definition q_matches :: "nat list \<Rightarrow> qstr_state \<Rightarrow> q_ptr \<Rightarrow> bool" where
  "q_matches str s q \<longleftrightarrow> Q_GET_HASH s q = qstr_compute_hash str \<and> Q_GET_LENGTH s q = length str \<and>
     take (length str) (Q_GET_DATA s q) = str"

definition qstr_find_strn :: "nat list \<Rightarrow> qstr_state \<Rightarrow> nat" where
  "qstr_find_strn str s = find_strn_in (q_matches str s) (pools s)"

text \<open>Making room at the end of the last chunk, or giving it up.\<close>

definition qstr_grow :: "bool \<Rightarrow> nat \<Rightarrow> qstr_state \<Rightarrow> qstr_state" where
  "qstr_grow may_grow n_bytes s =
     (case qstr_last_chunk s of
        None \<Rightarrow> s
      | Some c \<Rightarrow>
          (if qstr_last_used s + n_bytes > qstr_last_alloc s
           then if \<not> may_grow
                then s\<lparr>chunks := (chunks s)[c := take (qstr_last_used s) (chunks s ! c)], qstr_last_chunk := None\<rparr>
                else s\<lparr>chunks := (chunks s)[c := chunks s ! c @ replicate n_bytes 0],
                       qstr_last_alloc := qstr_last_alloc s + n_bytes\<rparr>
           else s))"

definition qstr_new_chunk :: "qstr_mem \<Rightarrow> nat \<Rightarrow> qstr_state \<Rightarrow> qstr_state option" where
  "qstr_new_chunk mem n_bytes s =
     (case qstr_last_chunk s of
        Some c \<Rightarrow> Some s
      | None \<Rightarrow>
          (let al = max n_bytes MICROPY_ALLOC_QSTR_CHUNK_INIT;
               al = (if chunk_ok mem then Some al else if exact_ok mem then Some n_bytes else None)
           in map_option (\<lambda>al. s\<lparr>chunks := chunks s @ [replicate al 0], qstr_last_chunk := Some (length (chunks s)),
                qstr_last_alloc := al, qstr_last_used := 0\<rparr>) al))"

definition qstr_record :: "nat list \<Rightarrow> nat list" where
  "qstr_record str = [qstr_compute_hash str, length str mod 256] @ str @ [0]"

definition qstr_store :: "nat list \<Rightarrow> nat \<Rightarrow> qstr_state \<Rightarrow> q_ptr \<times> qstr_state" where
  "qstr_store str c s =
     (let off = qstr_last_used s; n_bytes = 1 + 1 + length str + 1; mem = chunks s ! c
      in ((c, off), s\<lparr>chunks := (chunks s)[c := take off mem @ qstr_record str @ drop (off + n_bytes) mem],
                      qstr_last_used := off + n_bytes\<rparr>))"

definition qstr_from_strn :: "qstr_mem \<Rightarrow> nat list \<Rightarrow> qstr_state \<Rightarrow> (qstr_error + nat) \<times> qstr_state" where
  "qstr_from_strn mem str s =
     (let q = qstr_find_strn str s
      in if q \<noteq> 0 then (Inr q, s)
         else if length str \<ge> 2 ^ 8 then (Inl NameTooLong, s)
         else let n_bytes = 1 + 1 + length str + 1; s = qstr_grow (grow_ok mem) n_bytes s
              in case qstr_new_chunk mem n_bytes s of
                   None \<Rightarrow> (Inl (MemoryError n_bytes), s)
                 | Some s \<Rightarrow>
                     (let (q_ptr, s) = qstr_store str (the (qstr_last_chunk s)) s
                      in qstr_add (pool_ok mem) q_ptr s))"

definition qstr_hash :: "nat \<Rightarrow> qstr_state \<Rightarrow> nat option" where
  "qstr_hash q s = map_option (Q_GET_HASH s) (find_qstr q s)"

definition qstr_len :: "nat \<Rightarrow> qstr_state \<Rightarrow> nat option" where
  "qstr_len q s = map_option (Q_GET_LENGTH s) (find_qstr q s)"

definition qstr_data :: "nat \<Rightarrow> qstr_state \<Rightarrow> nat list option" where
  "qstr_data q s = map_option (\<lambda>qd. take (Q_GET_LENGTH s qd) (Q_GET_DATA s qd)) (find_qstr q s)"

section \<open>Representation\<close>

text \<open>
  The bytes of an entry; \<^const>\<open>None\<close> is the null entry at index 0, whose hash byte is 0 so that no search
  finds it.
\<close>

definition entry_bytes :: "nat list option \<Rightarrow> nat list" where
  "entry_bytes nm = (case nm of None \<Rightarrow> [0, 0, 0] | Some str \<Rightarrow> qstr_record str)"

definition entry_ok :: "qstr_state \<Rightarrow> q_ptr \<Rightarrow> nat list option \<Rightarrow> bool" where
  "entry_ok s q nm \<longleftrightarrow> fst q < length (chunks s) \<and> (\<forall>str. nm = Some str \<longrightarrow> length str < 256) \<and>
     (qstr_last_chunk s = Some (fst q) \<longrightarrow> snd q + length (entry_bytes nm) \<le> qstr_last_used s) \<and>
     take (length (entry_bytes nm)) (drop (snd q) (chunks s ! fst q)) = entry_bytes nm"

fun pools_rep :: "qstr_state \<Rightarrow> qstr_pool_t list \<Rightarrow> nat list option list \<Rightarrow> bool" where
  "pools_rep s [] names \<longleftrightarrow> names = []"
| "pools_rep s (p # ps) names \<longleftrightarrow> total_prev_len p \<le> length names \<and>
     pools_rep s ps (take (total_prev_len p) names) \<and> list_all2 (entry_ok s) (qstrs p) (drop (total_prev_len p) names)"

definition chunk_state_ok :: "qstr_state \<Rightarrow> bool" where
  "chunk_state_ok s \<longleftrightarrow> (\<forall>c. qstr_last_chunk s = Some c \<longrightarrow> c < length (chunks s) \<and>
     length (chunks s ! c) = qstr_last_alloc s \<and> qstr_last_used s \<le> qstr_last_alloc s)"

definition qstr_inv :: "qstr_state \<Rightarrow> nat list list \<Rightarrow> bool" where
  "qstr_inv s strs \<longleftrightarrow> pools s \<noteq> [] \<and> pools_rep s (pools s) (None # map Some strs) \<and> distinct strs \<and> chunk_state_ok s"

lemma qstr_record_length [simp]: "length (qstr_record str) = length str + 3"
  by (simp add: qstr_record_def)

lemma entry_bytes_ne [simp]: "entry_bytes nm \<noteq> []"
  by (simp add: entry_bytes_def qstr_record_def split: option.split)

lemma entry_read:
  assumes "entry_ok s q nm"
  shows "Q_GET_HASH s q = (case nm of None \<Rightarrow> 0 | Some str \<Rightarrow> qstr_compute_hash str)"
    "Q_GET_LENGTH s q = (case nm of None \<Rightarrow> 0 | Some str \<Rightarrow> length str)"
    "nm = Some str \<Longrightarrow> take (length str) (Q_GET_DATA s q) = str"
proof -
  define bs where "bs = entry_bytes nm"
  let ?c = "drop (snd q) (chunks s ! fst q)"
  have t: "take (length bs) ?c = bs" using assms by (simp add: entry_ok_def bs_def)
  have nth: "?c ! i = bs ! i" if "i < length bs" for i using t that by (metis nth_take)
  have len: "2 < length bs" by (simp add: bs_def entry_bytes_def split: option.split)
  then have lc: "2 < length ?c" using t by (metis length_take min_less_iff_conj)
  then have off: "chunks s ! fst q ! (snd q + i) = ?c ! i" if "i < 3" for i using that by simp
  show "Q_GET_HASH s q = (case nm of None \<Rightarrow> 0 | Some str \<Rightarrow> qstr_compute_hash str)"
    using off [of 0] nth [of 0] len by (simp add: Q_GET_HASH_def bs_def entry_bytes_def qstr_record_def split: option.split)
  show "Q_GET_LENGTH s q = (case nm of None \<Rightarrow> 0 | Some str \<Rightarrow> length str)"
    using off [of 1] nth [of 1] len assms by (auto simp: Q_GET_LENGTH_def bs_def entry_bytes_def qstr_record_def entry_ok_def split: option.split)
  assume nm: "nm = Some str"
  have "take (length str) (drop 2 (take (length bs) ?c)) = take (length str) (drop 2 bs)" using t by simp
  then show "take (length str) (Q_GET_DATA s q) = str"
    by (simp add: Q_GET_DATA_def bs_def entry_bytes_def nm qstr_record_def drop_take min_def add.commute)
qed

lemma q_matches_entry:
  assumes "entry_ok s q nm"
  shows "q_matches str s q \<longleftrightarrow> nm = Some str"
proof (cases nm)
  case None
  then show ?thesis using entry_read(1) [OF assms] qstr_compute_hash_range [of str] by (simp add: q_matches_def)
next
  case (Some t)
  have e: "Q_GET_HASH s q = qstr_compute_hash t" "Q_GET_LENGTH s q = length t" "take (length t) (Q_GET_DATA s q) = t"
    using entry_read(1,2) [OF assms] entry_read(3) [OF assms, of t] Some by simp_all
  show ?thesis
  proof
    assume "q_matches str s q"
    then have "length t = length str" "take (length str) (Q_GET_DATA s q) = str" using e(2) by (simp_all add: q_matches_def)
    then have "t = str" using e(3) by metis
    then show "nm = Some str" by (simp add: Some)
  next
    assume "nm = Some str"
    then show "q_matches str s q" using e Some unfolding q_matches_def by blast
  qed
qed

section \<open>Searching\<close>

lemma list_all2_drop_nth: "list_all2 P xs (drop n ys) \<Longrightarrow> n \<le> q \<Longrightarrow> q < length ys \<Longrightarrow> q - n < length xs \<and> P (xs ! (q - n)) (ys ! q)"
  by (auto simp: list_all2_conv_all_nth dest: spec [of _ "q - n"])

lemma find_in_pools_rep:
  assumes "pools_rep s ps names" "q < length names"
  shows "\<exists>p. find_in_pools ps q = Some p \<and> entry_ok s p (names ! q)"
  using assms
proof (induction ps arbitrary: names)
  case (Cons p ps)
  show ?case
  proof (cases "q < total_prev_len p")
    case True
    then show ?thesis using Cons.IH [of "take (total_prev_len p) names"] Cons.prems by auto
  next
    case False
    then show ?thesis using list_all2_drop_nth [of "entry_ok s" "qstrs p" "total_prev_len p" names q] Cons.prems by auto
  qed
qed simp

lemma find_index_Some: "find_index P xs = Some i \<Longrightarrow> i < length xs \<and> P (xs ! i)"
  by (induction xs arbitrary: i) (auto split: if_splits)

lemma find_index_None: "find_index P xs = None \<longleftrightarrow> (\<forall>x \<in> set xs. \<not> P x)"
  by (induction xs) auto

lemma find_strn_rep:
  assumes "pools_rep s ps names"
  shows "(find_strn_in (q_matches str s) ps < length names \<and> names ! find_strn_in (q_matches str s) ps = Some str) \<or>
    (find_strn_in (q_matches str s) ps = 0 \<and> Some str \<notin> set names)"
  using assms
proof (induction ps arbitrary: names)
  case Nil
  then show ?case by simp
next
  case (Cons p ps)
  let ?t = "total_prev_len p"
  have l: "list_all2 (entry_ok s) (qstrs p) (drop ?t names)" "?t \<le> length names" using Cons.prems by simp_all
  have m: "q_matches str s (qstrs p ! i) \<longleftrightarrow> names ! (?t + i) = Some str" if "i < length (qstrs p)" for i
    using l that q_matches_entry by (auto simp: list_all2_conv_all_nth)
  show ?case
  proof (cases "find_index (q_matches str s) (qstrs p)")
    case (Some i)
    then have i: "i < length (qstrs p)" "names ! (?t + i) = Some str" using find_index_Some [OF Some] m by auto
    have "?t + i < length names" using i(1) l by (auto simp: list_all2_conv_all_nth)
    then show ?thesis using Some i by simp
  next
    case None
    have none: "Some str \<notin> set (drop ?t names)"
    proof
      assume "Some str \<in> set (drop ?t names)"
      then obtain i where "i < length (qstrs p)" "drop ?t names ! i = Some str" using l by (auto simp: in_set_conv_nth list_all2_conv_all_nth)
      then show False using None m l by (auto simp: find_index_None)
    qed
    have "set names = set (take ?t names) \<union> set (drop ?t names)" by (metis append_take_drop_id set_append)
    then show ?thesis using None none Cons.IH [of "take ?t names"] Cons.prems by auto
  qed
qed

section \<open>Adding a string\<close>

lemma pools_rep_mono:
  assumes "pools_rep s ps names" "\<forall>q nm. entry_ok s q nm \<longrightarrow> entry_ok s' q nm"
  shows "pools_rep s' ps names"
  using assms(1)
proof (induction ps arbitrary: names)
  case (Cons p ps)
  then show ?case using assms(2) by (auto intro: list_all2_mono)
qed simp

lemma entry_ok_append:
  assumes "entry_ok s q nm" "chunks s' ! fst q = chunks s ! fst q @ zs" "fst q < length (chunks s')"
    "qstr_last_chunk s' = Some (fst q) \<longrightarrow> snd q + length (entry_bytes nm) \<le> qstr_last_used s'"
  shows "entry_ok s' q nm"
proof -
  let ?c = "drop (snd q) (chunks s ! fst q)"
  have t: "take (length (entry_bytes nm)) ?c = entry_bytes nm" using assms(1) by (simp add: entry_ok_def)
  have le: "length (entry_bytes nm) \<le> length ?c" using t by (metis length_take min.cobounded1)
  have "0 < length (entry_bytes nm)" by simp
  then have "snd q \<le> length (chunks s ! fst q)" using le unfolding length_drop by linarith
  then have "take (length (entry_bytes nm)) (drop (snd q) (chunks s' ! fst q)) = entry_bytes nm" using t le by (simp add: assms(2))
  then show ?thesis using assms by (simp add: entry_ok_def)
qed

lemma qstr_grow_keeps:
  assumes "chunk_state_ok s"
  shows "pools (qstr_grow g n s) = pools s" "chunk_state_ok (qstr_grow g n s)"
    "entry_ok s q nm \<Longrightarrow> entry_ok (qstr_grow g n s) q nm"
    "qstr_last_chunk (qstr_grow g n s) = Some c \<Longrightarrow> qstr_last_used (qstr_grow g n s) + n \<le> qstr_last_alloc (qstr_grow g n s)"
proof -
  show "pools (qstr_grow g n s) = pools s" by (simp add: qstr_grow_def split: option.split)
  show "chunk_state_ok (qstr_grow g n s)" using assms by (auto simp: chunk_state_ok_def qstr_grow_def split: option.split)
  show "qstr_last_chunk (qstr_grow g n s) = Some c \<Longrightarrow> qstr_last_used (qstr_grow g n s) + n \<le> qstr_last_alloc (qstr_grow g n s)"
    using assms by (auto simp: chunk_state_ok_def qstr_grow_def split: option.splits if_splits)
  assume e: "entry_ok s q nm"
  show "entry_ok (qstr_grow g n s) q nm"
  proof (cases "qstr_last_chunk s = Some (fst q) \<and> qstr_last_used s + n > qstr_last_alloc s")
    case True
    have c: "fst q < length (chunks s)" "length (chunks s ! fst q) = qstr_last_alloc s" "qstr_last_used s \<le> qstr_last_alloc s"
      using assms True by (auto simp: chunk_state_ok_def)
    show ?thesis
    proof (cases g)
      case grow: True
      show ?thesis by (rule entry_ok_append [OF e, of _ "replicate n 0"]) (use True grow c e in \<open>simp_all add: qstr_grow_def entry_ok_def\<close>)
    next
      case False
      have "snd q + length (entry_bytes nm) \<le> qstr_last_used s" using e True by (simp add: entry_ok_def)
      then have "length (entry_bytes nm) \<le> qstr_last_used s - snd q" by linarith
      then have "take (length (entry_bytes nm)) (drop (snd q) (take (qstr_last_used s) (chunks s ! fst q))) = entry_bytes nm"
        using e by (simp add: entry_ok_def drop_take min_absorb1)
      then show ?thesis using e True False c by (simp add: qstr_grow_def entry_ok_def)
    qed
  next
    case False
    then have "chunks (qstr_grow g n s) ! fst q = chunks s ! fst q" "length (chunks (qstr_grow g n s)) = length (chunks s)"
        "qstr_last_chunk (qstr_grow g n s) = Some (fst q) \<Longrightarrow> qstr_last_chunk s = Some (fst q)"
        "qstr_last_used (qstr_grow g n s) = qstr_last_used s"
      by (auto simp: qstr_grow_def split: option.splits if_splits)
    then show ?thesis using e by (intro entry_ok_append [OF e, of _ "[]"]) (auto simp: entry_ok_def)
  qed
qed

lemma qstr_new_chunk_keeps:
  assumes "chunk_state_ok s" "qstr_new_chunk mem n s = Some s'"
    "\<forall>c. qstr_last_chunk s = Some c \<longrightarrow> qstr_last_used s + n \<le> qstr_last_alloc s"
  shows "pools s' = pools s" "chunk_state_ok s'" "\<forall>q nm. entry_ok s q nm \<longrightarrow> entry_ok s' q nm"
    "\<exists>c. qstr_last_chunk s' = Some c" "qstr_last_used s' + n \<le> qstr_last_alloc s'"
proof -
  have "pools s' = pools s \<and> chunk_state_ok s' \<and> (\<forall>q nm. entry_ok s q nm \<longrightarrow> entry_ok s' q nm) \<and>
      (\<exists>c. qstr_last_chunk s' = Some c) \<and> qstr_last_used s' + n \<le> qstr_last_alloc s'"
  proof (cases "qstr_last_chunk s")
    case None
    define al where "al = (if chunk_ok mem then max n MICROPY_ALLOC_QSTR_CHUNK_INIT else n)"
    have al: "n \<le> al" "s' = s\<lparr>chunks := chunks s @ [replicate al 0], qstr_last_chunk := Some (length (chunks s)),
                qstr_last_alloc := al, qstr_last_used := 0\<rparr>"
      using assms(2) None by (auto simp: qstr_new_chunk_def Let_def al_def split: if_splits)
    have "entry_ok s' q nm" if "entry_ok s q nm" for q nm
      by (rule entry_ok_append [OF that, of _ "[]"]) (use that al in \<open>simp_all add: entry_ok_def nth_append\<close>)
    then show ?thesis using al by (simp add: chunk_state_ok_def)
  next
    case (Some c)
    then show ?thesis using assms by (simp add: qstr_new_chunk_def)
  qed
  then show "pools s' = pools s" "chunk_state_ok s'" "\<forall>q nm. entry_ok s q nm \<longrightarrow> entry_ok s' q nm"
    "\<exists>c. qstr_last_chunk s' = Some c" "qstr_last_used s' + n \<le> qstr_last_alloc s'" by blast+
qed

lemma qstr_store_keeps:
  assumes ok: "chunk_state_ok s" "qstr_last_chunk s = Some c" "qstr_last_used s + (length str + 3) \<le> qstr_last_alloc s"
    and len: "length str < 256" and r: "qstr_store str c s = (p, s')"
  shows "pools s' = pools s" "chunk_state_ok s'" "\<forall>q nm. entry_ok s q nm \<longrightarrow> entry_ok s' q nm" "entry_ok s' p (Some str)"
proof -
  let ?off = "qstr_last_used s" and ?m = "chunks s ! c"
  have c: "c < length (chunks s)" "length ?m = qstr_last_alloc s" using ok by (auto simp: chunk_state_ok_def)
  let ?m' = "take ?off ?m @ qstr_record str @ drop (?off + (length str + 3)) ?m"
  have s': "s' = s\<lparr>chunks := (chunks s)[c := ?m'], qstr_last_used := ?off + (length str + 3)\<rparr>" and p: "p = (c, ?off)"
    using r by (auto simp: qstr_store_def Let_def numeral_3_eq_3)
  show "pools s' = pools s" by (simp add: s')
  have lm: "length ?m' = qstr_last_alloc s" using ok(3) c by simp
  show "chunk_state_ok s'" using ok c lm by (simp add: chunk_state_ok_def s')
  show "entry_ok s' p (Some str)" using c ok(2,3) len by (simp add: entry_ok_def s' p entry_bytes_def)
  show "\<forall>q nm. entry_ok s q nm \<longrightarrow> entry_ok s' q nm"
  proof (intro allI impI)
    fix q nm assume e: "entry_ok s q nm"
    show "entry_ok s' q nm"
    proof (cases "fst q = c")
      case True
      have u: "snd q + length (entry_bytes nm) \<le> ?off" using e True ok(2) by (simp add: entry_ok_def)
      then have le: "length (entry_bytes nm) \<le> ?off - snd q" by linarith
      have t0: "take (length (entry_bytes nm)) (drop (snd q) ?m) = entry_bytes nm" using e True by (simp add: entry_ok_def)
      have "take (length (entry_bytes nm)) (drop (snd q) ?m') = take (length (entry_bytes nm)) (drop (snd q) (take ?off ?m))"
        using u ok(3) c le by simp
      also have "\<dots> = entry_bytes nm" using t0 le by (simp add: drop_take min_absorb1)
      finally show ?thesis using e True c u by (simp add: entry_ok_def s')
    next
      case False
      then show ?thesis by (intro entry_ok_append [OF e, of _ "[]"]) (use e False ok(2) in \<open>simp_all add: entry_ok_def s'\<close>)
    qed
  qed
qed

lemma qstr_add_rep:
  assumes ne: "pools s \<noteq> []" and rep: "pools_rep s (pools s) names" and e: "entry_ok s p nm" and r: "qstr_add b p s = (res, s')"
  shows "case res of
      Inl err \<Rightarrow> s' = s
    | Inr q \<Rightarrow> q = length names \<and> pools s' \<noteq> [] \<and> pools_rep s' (pools s') (names @ [nm]) \<and>
        length (qstrs (hd (pools s'))) \<le> pool_alloc (hd (pools s')) \<and>
        chunks s' = chunks s \<and> qstr_last_chunk s' = qstr_last_chunk s \<and> qstr_last_alloc s' = qstr_last_alloc s \<and>
        qstr_last_used s' = qstr_last_used s"
proof -
  obtain l ps where ps: "pools s = l # ps" using ne by (cases "pools s") auto
  have rl: "total_prev_len l \<le> length names" "pools_rep s ps (take (total_prev_len l) names)"
    "list_all2 (entry_ok s) (qstrs l) (drop (total_prev_len l) names)" using rep by (simp_all add: ps)
  have len: "length names = total_prev_len l + length (qstrs l)"
    using rl(1,3) by (auto dest: list_all2_lengthD)
  have mono: "pools_rep (s\<lparr>pools := xs\<rparr>) ys ns \<longleftrightarrow> pools_rep s ys ns" for xs ys ns
  proof -
    have "entry_ok (s\<lparr>pools := xs\<rparr>) = entry_ok s" by (simp add: fun_eq_iff entry_ok_def)
    then show ?thesis by (induction ys arbitrary: ns) simp_all
  qed
  have eo: "entry_ok (s\<lparr>pools := xs\<rparr>) = entry_ok s" for xs by (simp add: fun_eq_iff entry_ok_def)
  let ?na = "max MICROPY_ALLOC_QSTR_ENTRIES_INIT (pool_alloc l * 2)"
  show ?thesis
  proof (cases "length (qstrs l) \<ge> pool_alloc l")
    case True
    show ?thesis
    proof (cases b)
      case b: True
      let ?new = "\<lparr>total_prev_len = total_prev_len l + length (qstrs l), pool_alloc = ?na, qstrs = [p]\<rparr>"
      have "res = Inr (length names)" "s' = s\<lparr>pools := ?new # l # ps\<rparr>"
        using r True b len by (auto simp: qstr_add_def Let_def ps)
      moreover have "1 \<le> ?na" by (simp add: MICROPY_ALLOC_QSTR_ENTRIES_INIT_def)
      ultimately show ?thesis using rep e len by (simp add: mono eo ps del: max.bounded_iff)
    next
      case False
      then show ?thesis using r True by (auto simp: qstr_add_def Let_def ps)
    qed
  next
    case False
    have "res = Inr (length names)" "s' = s\<lparr>pools := l\<lparr>qstrs := qstrs l @ [p]\<rparr> # ps\<rparr>"
      using r False len by (auto simp: qstr_add_def Let_def ps)
    then show ?thesis using rl e False by (simp add: mono eo list_all2_appendI)
  qed
qed

section \<open>Interning\<close>

lemma find_in_pools_out: "pools_rep s ps names \<Longrightarrow> length names \<le> q \<Longrightarrow> find_in_pools ps q = None"
proof (induction ps arbitrary: names)
  case (Cons p ps)
  have "length (qstrs p) = length names - total_prev_len p" "total_prev_len p \<le> length names"
    using Cons.prems(1) by (auto dest: list_all2_lengthD)
  then show ?case using Cons.prems(2) by auto
qed simp

lemma qstr_read:
  assumes "qstr_inv s strs"
  shows "i < length strs \<Longrightarrow> qstr_data (Suc i) s = Some (strs ! i) \<and> qstr_len (Suc i) s = Some (length (strs ! i)) \<and>
      qstr_hash (Suc i) s = Some (qstr_compute_hash (strs ! i))"
    "length strs < q \<Longrightarrow> qstr_data q s = None"
proof -
  have rep: "pools_rep s (pools s) (None # map Some strs)" using assms by (simp add: qstr_inv_def)
  show "length strs < q \<Longrightarrow> qstr_data q s = None"
    using find_in_pools_out [OF rep, of q] by (simp add: qstr_data_def find_qstr_def)
  assume i: "i < length strs"
  then obtain p where p: "find_in_pools (pools s) (Suc i) = Some p" "entry_ok s p (Some (strs ! i))"
    using find_in_pools_rep [OF rep, of "Suc i"] by auto
  show "qstr_data (Suc i) s = Some (strs ! i) \<and> qstr_len (Suc i) s = Some (length (strs ! i)) \<and>
      qstr_hash (Suc i) s = Some (qstr_compute_hash (strs ! i))"
    using entry_read(1,2) [OF p(2)] entry_read(3) [OF p(2) refl] p(1) by (simp add: qstr_data_def qstr_len_def qstr_hash_def find_qstr_def)
qed

lemma qstr_find_correct:
  assumes "qstr_inv s strs"
  shows "str \<in> set strs \<Longrightarrow> \<exists>i < length strs. strs ! i = str \<and> qstr_find_strn str s = Suc i"
    "str \<notin> set strs \<Longrightarrow> qstr_find_strn str s = 0"
proof -
  have "pools_rep s (pools s) (None # map Some strs)" using assms by (simp add: qstr_inv_def)
  note r = find_strn_rep [OF this, of str, folded qstr_find_strn_def]
  show "str \<in> set strs \<Longrightarrow> \<exists>i < length strs. strs ! i = str \<and> qstr_find_strn str s = Suc i"
    using r by (cases "qstr_find_strn str s") auto
  show "str \<notin> set strs \<Longrightarrow> qstr_find_strn str s = 0"
    using r by (cases "qstr_find_strn str s") (auto simp: in_set_conv_nth)
qed

lemma qstr_intern_new:
  assumes inv: "qstr_inv s strs" and new: "str \<notin> set strs" and r: "qstr_from_strn mem str s = (res, s')"
  shows "case res of
      Inl err \<Rightarrow> qstr_inv s' strs \<and> (err = NameTooLong \<longleftrightarrow> 256 \<le> length str)
    | Inr q \<Rightarrow> q = Suc (length strs) \<and> qstr_inv s' (strs @ [str]) \<and> length (qstrs (hd (pools s'))) \<le> pool_alloc (hd (pools s'))"
proof -
  have z: "qstr_find_strn str s = 0" using qstr_find_correct(2) [OF inv new] .
  have i: "pools s \<noteq> []" "pools_rep s (pools s) (None # map Some strs)" "distinct strs" "chunk_state_ok s"
    using inv by (simp_all add: qstr_inv_def)
  show ?thesis
  proof (cases "256 \<le> length str")
    case True
    then show ?thesis using r z inv by (auto simp: qstr_from_strn_def)
  next
    case False
    define n where "n = 1 + 1 + length str + 1"
    define s1 where "s1 = qstr_grow (grow_ok mem) n s"
    note g = qstr_grow_keeps [OF i(4), where g = "grow_ok mem" and n = n, folded s1_def]
    have rep1: "pools_rep s1 (pools s1) (None # map Some strs)" using pools_rep_mono [OF i(2), of s1] g(1,3) by simp
    show ?thesis
    proof (cases "qstr_new_chunk mem n s1")
      case None
      then have "res = Inl (MemoryError n)" "s' = s1" using r z False by (auto simp: qstr_from_strn_def Let_def n_def s1_def)
      then show ?thesis using False rep1 g(1,2) i by (simp add: qstr_inv_def)
    next
      case (Some s2)
      have room1: "\<forall>c. qstr_last_chunk s1 = Some c \<longrightarrow> qstr_last_used s1 + n \<le> qstr_last_alloc s1" using g(4) by blast
      note c = qstr_new_chunk_keeps [OF g(2) Some room1]
      obtain c2 where c2: "qstr_last_chunk s2 = Some c2" using c(4) by blast
      obtain p s3 where st: "qstr_store str c2 s2 = (p, s3)" by fastforce
      have room: "qstr_last_used s2 + (length str + 3) \<le> qstr_last_alloc s2" using c(5) by (simp add: n_def)
      note k = qstr_store_keeps [OF c(2) c2 room _ st]
      have lt: "length str < 256" using False by simp
      have rep3: "pools_rep s3 (pools s3) (None # map Some strs)"
        using pools_rep_mono [OF pools_rep_mono [OF rep1 c(3)] k(3) [OF lt]] c(1) k(1) [OF lt] by simp
      have ne3: "pools s3 \<noteq> []" using i(1) g(1) c(1) k(1) [OF lt] by simp
      have add: "qstr_add (pool_ok mem) p s3 = (res, s')"
        using r z False Some st c2 unfolding qstr_from_strn_def Let_def n_def [symmetric] s1_def [symmetric] by simp
      from qstr_add_rep [OF ne3 rep3 k(4) [OF lt] add] show ?thesis
        using add k(2) [OF lt] rep3 ne3 i(3) new False
        by (auto simp: qstr_inv_def chunk_state_ok_def qstr_add_def Let_def split: sum.splits if_splits)
    qed
  qed
qed

text \<open>
  C38: Interning a string: a string that is in the pool keeps its number and nothing changes; a new one
  gets the next number, whatever the allocator answers on the way, and stays within the allocated pool. The
  number then reads back the string, its length and its hash, is found again, and is the only number of this
  string; the numbers of all other strings read as before. If interning fails, because the
  string is longer than 255 bytes or there is no memory, the pool holds the same strings as before.
\<close>

theorem qstr_interning:
  assumes "qstr_inv s strs" "qstr_from_strn mem str s = (res, s')"
  shows "case res of
      Inl err \<Rightarrow> qstr_inv s' strs \<and> str \<notin> set strs \<and> (err = NameTooLong \<longleftrightarrow> 256 \<le> length str)
    | Inr q \<Rightarrow> 0 < q \<and> qstr_inv s' (if str \<in> set strs then strs else strs @ [str]) \<and> (str \<in> set strs \<longrightarrow> s' = s) \<and>
        qstr_data q s' = Some str \<and> qstr_len q s' = Some (length str) \<and> qstr_hash q s' = Some (qstr_compute_hash str) \<and>
        qstr_find_strn str s' = q \<and> (\<forall>q'. 0 < q' \<and> qstr_data q' s' = Some str \<longrightarrow> q' = q) \<and>
        (\<forall>i < length strs. qstr_data (Suc i) s' = Some (strs ! i) \<and> qstr_data (Suc i) s = Some (strs ! i))"
proof -
  have uniq: "q' = Suc i" if inv: "qstr_inv t ts" and i: "i < length ts" "ts ! i = str" and q': "0 < q'" "qstr_data q' t = Some str" for t ts i q'
  proof -
    obtain j where j: "q' = Suc j" using q'(1) by (cases q') auto
    have "j < length ts" using qstr_read(2) [OF inv, of q'] q'(2) j by (cases "length ts < q'") auto
    moreover from this have "ts ! j = str" using qstr_read(1) [OF inv, of j] q'(2) j by simp
    ultimately show ?thesis using inv i j by (auto simp: qstr_inv_def nth_eq_iff_index_eq)
  qed
  show ?thesis
  proof (cases "str \<in> set strs")
    case True
    then obtain i where i: "i < length strs" "strs ! i = str" "qstr_find_strn str s = Suc i"
      using qstr_find_correct(1) [OF assms(1)] by blast
    then have "res = Inr (Suc i)" "s' = s" using assms(2) by (simp_all add: qstr_from_strn_def)
    then show ?thesis using True i qstr_read(1) [OF assms(1)] uniq [OF assms(1) i(1,2)] assms(1) by auto
  next
    case False
    note n = qstr_intern_new [OF assms(1) False assms(2)]
    show ?thesis
    proof (cases res)
      case (Inl err)
      then show ?thesis using n False by simp
    next
      case (Inr q)
      have q: "q = Suc (length strs)" "qstr_inv s' (strs @ [str])" using n Inr by simp_all
      have f: "qstr_find_strn str s' = q"
      proof -
        obtain i where "i < length (strs @ [str])" "(strs @ [str]) ! i = str" "qstr_find_strn str s' = Suc i"
          using qstr_find_correct(1) [OF q(2), of str] by auto
        then show ?thesis using False q(1) by (cases "i = length strs") (auto simp: nth_append)
      qed
      have old: "qstr_data (Suc i) s' = Some (strs ! i)" if "i < length strs" for i
        using qstr_read(1) [OF q(2), of i] that by (simp add: nth_append)
      show ?thesis using Inr q f qstr_read(1) [OF q(2), of "length strs"] old qstr_read(1) [OF assms(1)] False
          uniq [OF q(2), of "length strs"] by simp
    qed
  qed
qed

text \<open>A pool with the null entry and the string \<^verbatim>\<open>a\<close>.\<close>

definition sample_qstrs :: qstr_state where
  "sample_qstrs = qstr_init [\<lparr>total_prev_len = 0, pool_alloc = 2, qstrs = [(0, 0), (1, 0)]\<rparr>] [[0, 0, 0], qstr_record [97]]"

lemma sample_qstrs_inv: "qstr_inv sample_qstrs [[97]]"
  by (simp add: qstr_inv_def sample_qstrs_def qstr_init_def chunk_state_ok_def entry_ok_def entry_bytes_def)

theorem qstr_interning_witness:
  "\<exists>q s'. qstr_from_strn \<lparr>grow_ok = True, chunk_ok = True, exact_ok = True, pool_ok = True\<rparr> [98] sample_qstrs = (Inr q, s') \<and>
     qstr_data q s' = Some [98] \<and> qstr_inv s' [[97], [98]]"
proof -
  let ?m = "\<lparr>grow_ok = True, chunk_ok = True, exact_ok = True, pool_ok = True\<rparr>"
  obtain res s' where r: "qstr_from_strn ?m [98] sample_qstrs = (res, s')" by fastforce
  have "qstr_find_strn [98] sample_qstrs = 0" using qstr_find_correct(2) [OF sample_qstrs_inv] by simp
  then have "\<exists>q. res = Inr q" using r
    by (auto simp: qstr_from_strn_def qstr_new_chunk_def qstr_grow_def sample_qstrs_def qstr_init_def qstr_store_def qstr_add_def Let_def)
  then show ?thesis using qstr_interning [OF sample_qstrs_inv r] r by auto
qed

end
