(* ===== verification/Timeutils.thy ===== *)
theory Timeutils
  imports Signed_Div
begin

text \<open>
  Calendar arithmetic, \<^verbatim>\<open>lib/timeutils/timeutils.c\<close>: seconds since 2000-01-01 to a broken-down time and back.
  The divisions of signed numbers round towards zero, as in C; the unsigned ones wrap to 32 bits.
\<close>

section \<open>Definitions\<close>

record timeutils_struct_time_t =
  tm_year :: int
  tm_mon :: int
  tm_mday :: int
  tm_hour :: int
  tm_min :: int
  tm_sec :: int
  tm_wday :: int
  tm_yday :: int

definition LEAPOCH :: int where "LEAPOCH = (31 + 29) * 86400"
definition DAYS_PER_400Y :: int where "DAYS_PER_400Y = 365 * 400 + 97"
definition DAYS_PER_100Y :: int where "DAYS_PER_100Y = 365 * 100 + 24"
definition DAYS_PER_4Y :: int where "DAYS_PER_4Y = 365 * 4 + 1"

definition days_since_jan1 :: "int list" where
  "days_since_jan1 = [0, 31, 59, 90, 120, 151, 181, 212, 243, 273, 304, 334, 365]"

definition u8w :: "int \<Rightarrow> int" where "u8w x = x mod 2 ^ 8"
definition u16w :: "int \<Rightarrow> int" where "u16w x = x mod 2 ^ 16"
definition u32w :: "int \<Rightarrow> int" where "u32w x = x mod 2 ^ 32"

definition timeutils_is_leap_year :: "int \<Rightarrow> bool" where
  "timeutils_is_leap_year year \<longleftrightarrow> (year mod 4 = 0 \<and> year mod 100 \<noteq> 0) \<or> year mod 400 = 0"

definition timeutils_days_in_month :: "int \<Rightarrow> int \<Rightarrow> int" where
  "timeutils_days_in_month year month =
     (let mdays = days_since_jan1 ! nat month - days_since_jan1 ! nat (month - 1)
      in if month = 2 \<and> timeutils_is_leap_year year then mdays + 1 else mdays)"

definition timeutils_year_day :: "int \<Rightarrow> int \<Rightarrow> int \<Rightarrow> int" where
  "timeutils_year_day year month date =
     (let yday = days_since_jan1 ! nat (month - 1) + date
      in if month \<ge> 3 \<and> timeutils_is_leap_year year then yday + 1 else yday)"

text \<open>The table of month lengths from March on, and the loop over it; reading past its end is \<^const>\<open>None\<close>.\<close>

definition days_in_month :: "int list" where
  "days_in_month = [31, 30, 31, 30, 31, 31, 30, 31, 30, 31, 31, 29]"

fun month_loop :: "int list \<Rightarrow> int \<Rightarrow> int \<Rightarrow> (int \<times> int) option" where
  "month_loop [] days month = None"
| "month_loop (n # ns) days month = (if n \<le> days then month_loop ns (days - n) (month + 1) else Some (month, days))"

text \<open>
  The quotient by a cycle, which is corrected if it is \<open>full\<close>, and the remaining days; the code does this for
  centuries, four years and years.
\<close>

definition cycle_split :: "int \<Rightarrow> int \<Rightarrow> int \<Rightarrow> int \<times> int" where
  "cycle_split cycle full days =
     (let q = days sdiv cycle; q = (if q = full then q - 1 else q) in (q, days - q * cycle))"

text \<open>From days since 2000-03-01 to a year that starts in March, and the day in it.\<close>

definition year_of_days :: "int \<Rightarrow> int \<times> int" where
  "year_of_days days =
     (let qc_cycles = days sdiv DAYS_PER_400Y; days = days smod DAYS_PER_400Y;
          (qc_cycles, days) = (if days < 0 then (qc_cycles - 1, days + DAYS_PER_400Y) else (qc_cycles, days));
          (c_cycles, days) = cycle_split DAYS_PER_100Y 4 days;
          (q_cycles, days) = cycle_split DAYS_PER_4Y 25 days;
          (years, days) = cycle_split 365 4 days
      in (2000 + years + 4 * q_cycles + 100 * c_cycles + 400 * qc_cycles, days))"

definition civil_of_days :: "int \<Rightarrow> (int \<times> int \<times> int) option" where
  "civil_of_days days =
     (let (year, days) = year_of_days days; year = u16w year
      in case month_loop days_in_month days 0 of
           None \<Rightarrow> None
         | Some (month, days) \<Rightarrow>
             (let mon = u8w (month + 2);
                  (mon, year) = (if mon \<ge> 12 then (u8w (mon - 12), u16w (year + 1)) else (mon, year))
              in Some (year, u8w (mon + 1), u8w (days + 1))))"

definition timeutils_seconds_since_2000_to_struct_time :: "int \<Rightarrow> timeutils_struct_time_t option" where
  "timeutils_seconds_since_2000_to_struct_time t =
     (let seconds = s32 (t - LEAPOCH);
          days = seconds sdiv 86400; seconds = seconds smod 86400;
          (days, seconds) = (if seconds < 0 then (days - 1, seconds + 86400) else (days, seconds));
          wday = (days + 2) smod 7; wday = (if wday < 0 then wday + 7 else wday)
      in case civil_of_days days of
           None \<Rightarrow> None
         | Some (year, mon, mday) \<Rightarrow>
             Some \<lparr>tm_year = year, tm_mon = mon, tm_mday = mday, tm_hour = u8w (seconds sdiv 3600),
                   tm_min = u8w (seconds sdiv 60 smod 60), tm_sec = u8w (seconds smod 60), tm_wday = u8w wday,
                   tm_yday = u16w (timeutils_year_day year mon mday)\<rparr>)"

definition timeutils_seconds_since_2000 :: "int \<Rightarrow> int \<Rightarrow> int \<Rightarrow> int \<Rightarrow> int \<Rightarrow> int \<Rightarrow> int" where
  "timeutils_seconds_since_2000 year month date hour minute second =
     u32w (second + minute * 60 + hour * 3600 +
       (timeutils_year_day year month date - 1 + u32w (year - 2000 + 3) div 4 - u32w (year - 2000 + 99) div 100 +
        u32w (year - 2000 + 399) div 400) * 86400 +
       (year - 2000) * 31536000)"

text \<open>The two loops of \<^verbatim>\<open>timeutils_mktime_2000\<close> that carry days into months.\<close>

partial_function (option) mday_up :: "int \<Rightarrow> int \<Rightarrow> int \<Rightarrow> (int \<times> int \<times> int) option" where
  "mday_up year month mday =
     (if mday < 1
      then let (month, year) = (if month - 1 = 0 then (12, u32w (year - 1)) else (month - 1, year))
           in mday_up year month (mday + timeutils_days_in_month year month)
      else Some (year, month, mday))"

partial_function (option) mday_down :: "int \<Rightarrow> int \<Rightarrow> int \<Rightarrow> (int \<times> int \<times> int) option" where
  "mday_down year month mday =
     (if mday > timeutils_days_in_month year month
      then let mday = mday - timeutils_days_in_month year month;
               (month, year) = (if month + 1 = 13 then (1, u32w (year + 1)) else (month + 1, year))
           in mday_down year month mday
      else Some (year, month, mday))"

text \<open>The carry from seconds to minutes, from minutes to hours and from hours to days.\<close>

definition carry :: "int \<Rightarrow> int \<Rightarrow> int \<Rightarrow> int \<times> int" where
  "carry k lo hi =
     (let hi = s32 (hi + lo sdiv k); lo = lo smod k in if lo < 0 then (lo + k, s32 (hi - 1)) else (lo, hi))"

definition carry_month :: "int \<Rightarrow> int \<Rightarrow> int \<times> int" where
  "carry_month year month =
     (let month = s32 (month - 1); year = u32w (year + month sdiv 12); month = month smod 12;
          (month, year) = (if month < 0 then (month + 12, u32w (year - 1)) else (month, year))
      in (year, month + 1))"

definition timeutils_mktime_2000 :: "int \<Rightarrow> int \<Rightarrow> int \<Rightarrow> int \<Rightarrow> int \<Rightarrow> int \<Rightarrow> int option" where
  "timeutils_mktime_2000 year month mday hours minutes seconds =
     (let (seconds, minutes) = carry 60 seconds minutes;
          (minutes, hours) = carry 60 minutes hours;
          (hours, mday) = carry 24 hours mday;
          (year, month) = carry_month year month
      in case mday_up year month mday of
           None \<Rightarrow> None
         | Some (year, month, mday) \<Rightarrow>
             (case mday_down year month mday of
                None \<Rightarrow> None
              | Some (year, month, mday) \<Rightarrow> Some (timeutils_seconds_since_2000 year month mday hours minutes seconds)))"

text \<open>The port counts from 1970, in 64 bits.\<close>

definition TIMEUTILS_SECONDS_1970_TO_2000 :: int where "TIMEUTILS_SECONDS_1970_TO_2000 = 946684800"

definition timeutils_seconds_since_epoch_to_struct_time :: "int \<Rightarrow> timeutils_struct_time_t option" where
  "timeutils_seconds_since_epoch_to_struct_time t =
     timeutils_seconds_since_2000_to_struct_time (u32w (t - TIMEUTILS_SECONDS_1970_TO_2000))"

definition timeutils_mktime :: "int \<Rightarrow> int \<Rightarrow> int \<Rightarrow> int \<Rightarrow> int \<Rightarrow> int \<Rightarrow> int option" where
  "timeutils_mktime year month mday hours minutes seconds =
     map_option (\<lambda>t. t + TIMEUTILS_SECONDS_1970_TO_2000) (timeutils_mktime_2000 year month mday hours minutes seconds)"

definition timeutils_seconds_since_epoch :: "int \<Rightarrow> int \<Rightarrow> int \<Rightarrow> int \<Rightarrow> int \<Rightarrow> int \<Rightarrow> int" where
  "timeutils_seconds_since_epoch year month date hour minute second =
     timeutils_seconds_since_2000 year month date hour minute second + TIMEUTILS_SECONDS_1970_TO_2000"

section \<open>The calendar\<close>

text \<open>
  The reference: the number of the first day of a year, counted from 2000-01-01, in the proleptic
  Gregorian calendar, determined by its value for 2000 and the length of a year.
\<close>

definition leap :: "int \<Rightarrow> bool" where
  "leap y \<longleftrightarrow> (4 dvd y \<and> \<not> 100 dvd y) \<or> 400 dvd y"

definition year_start :: "int \<Rightarrow> int" where
  "year_start y = 365 * (y - 2000) + (y - 2000 + 3) div 4 - (y - 2000 + 99) div 100 + (y - 2000 + 399) div 400"

definition month_start :: "int \<Rightarrow> int \<Rightarrow> int" where
  "month_start y m = days_since_jan1 ! nat (m - 1) + of_bool (3 \<le> m \<and> leap y)"

definition day_number :: "int \<Rightarrow> int \<Rightarrow> int \<Rightarrow> int" where
  "day_number y m d = year_start y + month_start y m + d - 1"

lemma leap_year_eq: "timeutils_is_leap_year y \<longleftrightarrow> leap y"
  by (auto simp: timeutils_is_leap_year_def leap_def mod_eq_0_iff_dvd)

lemma leap_offset: "leap (2000 + n) \<longleftrightarrow> (4 dvd n \<and> \<not> 100 dvd n) \<or> 400 dvd n"
  by (simp add: leap_def dvd_add_right_iff)

text \<open>The first of March, from which the code counts.\<close>

definition march_start :: "int \<Rightarrow> int" where
  "march_start n = 365 * n + n div 4 - n div 100 + n div 400"

lemma year_start_march: "year_start (2000 + n) + of_bool (leap (2000 + n)) = march_start n + 1"
proof -
  have c: "(n + 3) div 4 = n div 4 + (if 4 dvd n then 0 else 1)" "(n + 99) div 100 = n div 100 + (if 100 dvd n then 0 else 1)"
    "(n + 399) div 400 = n div 400 + (if 400 dvd n then 0 else 1)"
    using div_ceil [of 4 n] div_ceil [of 100 n] div_ceil [of 400 n] by simp_all
  have "100 dvd n \<Longrightarrow> 4 dvd n" "400 dvd n \<Longrightarrow> 100 dvd n"
    using dvd_trans [of 4 100 n] dvd_trans [of 100 400 n] by simp_all
  then show ?thesis by (auto simp: year_start_def march_start_def c leap_offset)
qed

lemma year_start_next: "year_start (2000 + n + 1) = march_start n + 366"
proof -
  have "(n + 4) div 4 = n div 4 + 1" "(n + 100) div 100 = n div 100 + 1" "(n + 400) div 400 = n div 400 + 1" by simp_all
  then show ?thesis by (simp add: year_start_def march_start_def algebra_simps)
qed

lemma year_start_recurrence: "year_start 2000 = 0" "year_start (y + 1) = year_start y + 365 + of_bool (leap y)"
proof -
  show "year_start 2000 = 0" by (simp add: year_start_def)
  show "year_start (y + 1) = year_start y + 365 + of_bool (leap y)"
    using year_start_next [of "y - 2000"] year_start_march [of "y - 2000"] by simp
qed

section \<open>From days to a date\<close>

text \<open>The position of a day in a year that starts in March.\<close>

lemma month_loop_sums:
  assumes "\<forall>k \<in> set ns. 0 \<le> k" "0 \<le> d" "d < sum_list ns"
  shows "\<exists>i < length ns. month_loop ns d m = Some (m + int i, d - sum_list (take i ns)) \<and>
    0 \<le> d - sum_list (take i ns) \<and> d - sum_list (take i ns) < ns ! i"
  using assms
proof (induction ns arbitrary: d m)
  case (Cons n ns)
  show ?case
  proof (cases "n \<le> d")
    case True
    then obtain i where "i < length ns" "month_loop ns (d - n) (m + 1) = Some (m + 1 + int i, d - n - sum_list (take i ns))"
      "0 \<le> d - n - sum_list (take i ns)" "d - n - sum_list (take i ns) < ns ! i"
      using Cons.IH [of "d - n" "m + 1"] Cons.prems by auto
    then show ?thesis using True by (intro exI [of _ "Suc i"]) (simp add: algebra_simps)
  next
    case False
    then show ?thesis using Cons.prems by (intro exI [of _ 0]) simp
  qed
qed simp

lemma month_sums:
  "\<forall>i < 12. (if i < 10 then sum_list (take i days_in_month) = days_since_jan1 ! (i + 2) - 59
     else sum_list (take i days_in_month) = 306 + days_since_jan1 ! (i - 10))"
  by code_simp

lemma month_loop_correct:
  assumes "0 \<le> d" "d < 366"
  shows "\<exists>i < 12. \<exists>r. month_loop days_in_month d 0 = Some (int i, r) \<and> 0 \<le> r \<and> r < days_in_month ! i \<and>
    (if i < 10 then d = days_since_jan1 ! (i + 2) - 59 + r else d = 306 + days_since_jan1 ! (i - 10) + r)"
proof -
  have "\<forall>k \<in> set days_in_month. 0 \<le> k" "sum_list days_in_month = 366" "length days_in_month = 12" by (simp_all add: days_in_month_def)
  then obtain i where i: "i < 12" "month_loop days_in_month d 0 = Some (int i, d - sum_list (take i days_in_month))"
    "0 \<le> d - sum_list (take i days_in_month)" "d - sum_list (take i days_in_month) < days_in_month ! i"
    using month_loop_sums [of days_in_month d 0] assms by auto
  then show ?thesis using month_sums by (intro exI [of _ i] conjI exI [of _ "d - sum_list (take i days_in_month)"]) (auto split: if_splits)
qed

text \<open>A quotient that is capped at \<open>m\<close>.\<close>

lemma capped_quotient:
  fixes r k m :: int
  assumes "0 \<le> r" "0 < k" "r \<le> (m + 1) * k" "0 \<le> m" "q = (if r div k = m + 1 then m else r div k)"
  shows "0 \<le> q" "q \<le> m" "0 \<le> r - q * k" "r - q * k \<le> k" "r - q * k = k \<Longrightarrow> q = m"
proof -
  define p t where "p = r div k" and "t = r mod k"
  have r: "r = p * k + t" "0 \<le> t" "t < k" using assms(2) by (simp_all add: p_def t_def)
  have p0: "0 \<le> p" using assms(1,2) by (simp add: p_def pos_imp_zdiv_nonneg_iff)
  have p1: "p \<le> m + 1"
  proof (rule ccontr)
    assume "\<not> p \<le> m + 1"
    then have "(m + 2) * k \<le> p * k" using assms(2) by (intro mult_right_mono) simp_all
    then show False using assms(2,3) r by (simp add: algebra_simps)
  qed
  show "0 \<le> q" "q \<le> m" using p0 p1 assms(4,5) by (auto simp: p_def)
  have "(p = m + 1 \<and> q = m \<and> t = 0) \<or> (p \<le> m \<and> q = p)"
  proof (cases "p = m + 1")
    case True
    then have "t = 0" using assms(3) r by simp
    then show ?thesis using True assms(5) by (simp add: p_def)
  next
    case False
    then show ?thesis using p1 assms(5) by (simp add: p_def)
  qed
  then show "0 \<le> r - q * k" "r - q * k \<le> k" "r - q * k = k \<Longrightarrow> q = m" using r assms(2) by (auto simp: algebra_simps)
qed

text \<open>The cycles: the day \<open>days\<close> is day \<open>d\<close> of the year from March 2000 + \<open>n\<close> on.\<close>

lemma cycles_correct:
  fixes days :: int
  defines "qc \<equiv> days div 146097" and "r \<equiv> days mod 146097"
  defines "c \<equiv> (if r div 36524 = 4 then 3 else r div 36524)"
  defines "r1 \<equiv> r - c * 36524"
  defines "q \<equiv> (if r1 div 1461 = 25 then 24 else r1 div 1461)"
  defines "r2 \<equiv> r1 - q * 1461"
  defines "y \<equiv> (if r2 div 365 = 4 then 3 else r2 div 365)"
  defines "d \<equiv> r2 - y * 365"
  defines "n \<equiv> y + 4 * q + 100 * c + 400 * qc"
  shows "0 \<le> d" "d < 366" "days = march_start n + d" "d = 365 \<longrightarrow> leap (2000 + n + 1)" "0 \<le> days \<longrightarrow> 0 \<le> n"
    "-60 \<le> days \<and> days < 0 \<longrightarrow> n = -1 \<and> 306 \<le> d" "days < 146097 \<longrightarrow> n \<le> 399" "0 \<le> r" "0 \<le> r1" "0 \<le> r2"
proof -
  have r: "0 \<le> r" "r < 146097" "days = 146097 * qc + r" by (simp_all add: r_def qc_def)
  have c: "0 \<le> c" "c \<le> 3" "0 \<le> r1" "r1 \<le> 36524" "r1 = 36524 \<Longrightarrow> c = 3"
    using capped_quotient [of r 36524 3 c] r by (simp_all add: c_def r1_def)
  have q: "0 \<le> q" "q \<le> 24" "0 \<le> r2" "r2 \<le> 1461"
    using capped_quotient [of r1 1461 24 q] c by (simp_all add: q_def r2_def)
  have r1: "r1 = q * 1461 + r2" by (simp add: r2_def)
  have "r2 = 1461 \<Longrightarrow> q = 24" using capped_quotient(5) [of r1 1461 24 q] c by (simp add: q_def r2_def)
  then have r2: "r2 \<le> 1460" using r1 c(4) q(4) by linarith
  have y: "0 \<le> y" "y \<le> 3" "0 \<le> d" "d \<le> 365" "d = 365 \<Longrightarrow> y = 3"
    using capped_quotient [of r2 365 3 y] q r2 by (simp_all add: y_def d_def)
  show "0 \<le> d" "d < 366" using y by simp_all
  have "n div 4 = q + 25 * c + 100 * qc" by (rule int_div_pos_eq [of _ _ _ y]) (use y in \<open>simp_all add: n_def\<close>)
  moreover have "n div 100 = c + 4 * qc" by (rule int_div_pos_eq [of _ _ _ "y + 4 * q"]) (use y q in \<open>simp_all add: n_def\<close>)
  moreover have "n div 400 = qc" by (rule int_div_pos_eq [of _ _ _ "y + 4 * q + 100 * c"]) (use y q c in \<open>simp_all add: n_def\<close>)
  ultimately have "march_start n = 146097 * qc + 36524 * c + 1461 * q + 365 * y" by (simp add: march_start_def n_def)
  moreover have "r = c * 36524 + q * 1461 + y * 365 + d" by (simp add: d_def r2_def r1_def)
  ultimately show "days = march_start n + d" using r(3) by simp
  show "d = 365 \<longrightarrow> leap (2000 + n + 1)"
  proof
    assume "d = 365"
    then have e: "y = 3" "r2 = 1460" using y(5) by (simp_all add: d_def)
    have n1: "n + 1 = 100 * (c + 4 * qc) + 4 * (q + 1)" using e by (simp add: n_def)
    have "(4 dvd (n + 1) \<and> \<not> 100 dvd (n + 1)) \<or> 400 dvd (n + 1)"
    proof (cases "q = 24")
      case True
      then have "c = 3" using c(5) r1 e by simp
      then have "n + 1 = 400 * (qc + 1)" using True n1 by simp
      then show ?thesis by simp
    next
      case False
      have "\<not> 100 dvd (n + 1)"
      proof
        assume "100 dvd (n + 1)"
        then have "100 dvd 4 * (q + 1)" unfolding n1 by (simp add: dvd_add_right_iff)
        then show False using zdvd_imp_le [of 100 "4 * (q + 1)"] q False by simp
      qed
      moreover have "4 dvd (n + 1)" unfolding n1 by (intro dvd_add) simp_all
      ultimately show ?thesis by simp
    qed
    then show "leap (2000 + n + 1)" using leap_offset [of "n + 1"] by (simp add: add.assoc)
  qed
  show "0 \<le> days \<longrightarrow> 0 \<le> n" using y q c unfolding n_def qc_def by (simp add: pos_imp_zdiv_nonneg_iff)
  show "0 \<le> r" "0 \<le> r1" "0 \<le> r2" using r c q by simp_all
  show "days < 146097 \<longrightarrow> n \<le> 399"
  proof
    assume "days < 146097"
    then have "qc \<le> 0" using r by linarith
    then show "n \<le> 399" using y q c by (simp add: n_def)
  qed
  show "-60 \<le> days \<and> days < 0 \<longrightarrow> n = -1 \<and> 306 \<le> d"
  proof
    assume neg: "-60 \<le> days \<and> days < 0"
    then have "qc = -1" using r by linarith
    then have "r = days + 146097" using r(3) by simp
    have rc: "r = c * 36524 + r1" "r2 = y * 365 + d" by (simp_all add: r1_def d_def)
    then have c3: "c = 3" using c neg \<open>r = days + 146097\<close> by linarith
    then have q24: "q = 24" using rc r1 r2 q neg \<open>r = days + 146097\<close> by linarith
    then have "y = 3" using rc r1 y c3 neg \<open>r = days + 146097\<close> by linarith
    then show "n = -1 \<and> 306 \<le> d" using c3 q24 \<open>qc = -1\<close> rc r1 neg \<open>r = days + 146097\<close> by (simp add: n_def)
  qed
qed

definition valid_date :: "int \<Rightarrow> int \<Rightarrow> int \<Rightarrow> bool" where
  "valid_date y m d \<longleftrightarrow> 1 \<le> m \<and> m \<le> 12 \<and> 1 \<le> d \<and> d \<le> timeutils_days_in_month y m"

lemma month_lengths:
  "\<forall>i < 12. days_in_month ! i = (if i < 10 then days_since_jan1 ! (i + 3) - days_since_jan1 ! (i + 2)
     else days_since_jan1 ! (i - 9) - days_since_jan1 ! (i - 10) + of_bool (i = 11))"
  by code_simp

text \<open>A month and a day of the year that starts in March, as a date.\<close>

lemma march_date:
  assumes i: "i < 12" and r: "0 \<le> r" "r < days_in_month ! i"
    and d: "if i < 10 then d = days_since_jan1 ! (i + 2) - 59 + r else d = 306 + days_since_jan1 ! (i - 10) + r"
    and l: "d = 365 \<longrightarrow> leap (2000 + n + 1)"
  shows "i < 10 \<Longrightarrow> valid_date (2000 + n) (int i + 3) (r + 1) \<and> day_number (2000 + n) (int i + 3) (r + 1) = march_start n + d + 60"
    "10 \<le> i \<Longrightarrow> valid_date (2000 + n + 1) (int i - 9) (r + 1) \<and> day_number (2000 + n + 1) (int i - 9) (r + 1) = march_start n + d + 60"
proof -
  note len = month_lengths [rule_format, OF i]
  assume "i < 10"
  have a: "nat (int i + 3) = i + 3" "nat (int i + 3 - 1) = i + 2" by simp_all
  have "valid_date (2000 + n) (int i + 3) (r + 1)"
    using \<open>i < 10\<close> r len unfolding valid_date_def timeutils_days_in_month_def Let_def a by simp
  moreover have "day_number (2000 + n) (int i + 3) (r + 1) = march_start n + d + 60"
    using year_start_march [of n] d \<open>i < 10\<close> unfolding day_number_def month_start_def a by simp
  ultimately show "valid_date (2000 + n) (int i + 3) (r + 1) \<and> day_number (2000 + n) (int i + 3) (r + 1) = march_start n + d + 60" ..
next
  note len = month_lengths [rule_format, OF i]
  assume late: "10 \<le> i"
  then have a: "nat (int i - 9) = i - 9" "nat (int i - 9 - 1) = i - 10" by arith+
  have dl: "r + 1 \<le> days_since_jan1 ! (i - 9) - days_since_jan1 ! (i - 10) \<or> (i = 11 \<and> leap (2000 + n + 1))"
  proof (cases "i = 11")
    case True
    have "days_in_month ! 11 = 29" "days_since_jan1 ! 2 - days_since_jan1 ! 1 = 28" "days_since_jan1 ! 1 = 31"
      by (simp_all add: days_in_month_def days_since_jan1_def)
    then have "days_in_month ! i = 29" "days_since_jan1 ! (i - 9) - days_since_jan1 ! (i - 10) = 28" "d = 337 + r"
      using d True by simp_all
    then show ?thesis using r l True by (cases "r = 28") auto
  next
    case False
    then show ?thesis using r len late i by simp
  qed
  then have "valid_date (2000 + n + 1) (int i - 9) (r + 1)"
    using late i r len unfolding valid_date_def timeutils_days_in_month_def Let_def a leap_year_eq by auto
  moreover have "day_number (2000 + n + 1) (int i - 9) (r + 1) = march_start n + d + 60"
    using year_start_next [of n] d late i unfolding day_number_def month_start_def a by simp
  ultimately show "valid_date (2000 + n + 1) (int i - 9) (r + 1) \<and> day_number (2000 + n + 1) (int i - 9) (r + 1) = march_start n + d + 60" ..
qed

lemma u16w_id: "0 \<le> x \<Longrightarrow> x < 2 ^ 16 \<Longrightarrow> u16w x = x"
  by (simp add: u16w_def)

lemma u8w_id: "0 \<le> x \<Longrightarrow> x < 2 ^ 8 \<Longrightarrow> u8w x = x"
  by (simp add: u8w_def)

lemma month_length_le: "i < 12 \<Longrightarrow> days_in_month ! i \<le> 31"
proof -
  have "\<forall>i < 12. days_in_month ! i \<le> 31" by code_simp
  then show "i < 12 \<Longrightarrow> days_in_month ! i \<le> 31" by blast
qed

lemma cycle_split_cap:
  "0 \<le> r \<Longrightarrow> 0 < k \<Longrightarrow> full = m + 1 \<Longrightarrow> q = (if r div k = full then m else r div k) \<Longrightarrow> cycle_split k full r = (q, r - q * k)"
  by (simp add: cycle_split_def sdiv_nonneg Let_def)

lemma civil_of_days_correct:
  assumes "-60 \<le> days" "days < 146097"
  shows "\<exists>y m d. civil_of_days days = Some (y, m, d) \<and> valid_date y m d \<and> day_number y m d = days + 60 \<and> 2000 \<le> y \<and> y \<le> 2400"
proof -
  define qc r where "qc = days div 146097" and "r = days mod 146097"
  define c where "c = (if r div 36524 = 4 then 3 else r div 36524)"
  define r1 where "r1 = r - c * 36524"
  define q where "q = (if r1 div 1461 = 25 then 24 else r1 div 1461)"
  define r2 where "r2 = r1 - q * 1461"
  define y where "y = (if r2 div 365 = 4 then 3 else r2 div 365)"
  define d where "d = r2 - y * 365"
  define n where "n = y + 4 * q + 100 * c + 400 * qc"
  note cyc = cycles_correct [of days, folded qc_def r_def, folded c_def, folded r1_def, folded q_def, folded r2_def, folded y_def,
      folded d_def, folded n_def]
  obtain i rest where i: "i < 12" "month_loop days_in_month d 0 = Some (int i, rest)" "0 \<le> rest" "rest < days_in_month ! i"
    "if i < 10 then d = days_since_jan1 ! (i + 2) - 59 + rest else d = 306 + days_since_jan1 ! (i - 10) + rest"
    using month_loop_correct [OF cyc(1,2)] by blast
  have nb: "-1 \<le> n" "n \<le> 399" "10 \<le> i \<or> 0 \<le> n"
  proof -
    show "-1 \<le> n" "n \<le> 399" using cyc(5,6,7) assms by (cases "0 \<le> days"; auto)+
    show "10 \<le> i \<or> 0 \<le> n"
    proof (cases "0 \<le> days")
      case False
      then have "306 \<le> d" using cyc(6) assms by simp
      moreover have "d < 306" if "i < 10"
      proof -
        have "\<forall>j < 10. days_since_jan1 ! (j + 2) - 59 + days_in_month ! j \<le> 306" by code_simp
        then show ?thesis using i(4,5) that by fastforce
      qed
      ultimately show ?thesis by linarith
    qed (use cyc(5) in simp)
  qed
  have fl: "(if days smod 146097 < 0 then (days sdiv 146097 - 1, days smod 146097 + 146097) else (days sdiv 146097, days smod 146097)) = (qc, r)"
    using floor_correction [of 146097 days] by (simp add: qc_def r_def)
  have sp: "cycle_split 36524 4 r = (c, r1)" "cycle_split 1461 25 r1 = (q, r2)" "cycle_split 365 4 r2 = (y, d)"
    by (rule cycle_split_cap [OF cyc(8) _ _ c_def, folded r1_def], simp, simp,
      rule cycle_split_cap [OF cyc(9) _ _ q_def, folded r2_def], simp, simp,
      rule cycle_split_cap [OF cyc(10) _ _ y_def, folded d_def], simp, simp)
  have yd: "year_of_days days = (2000 + n, d)"
  proof (cases "days smod 146097 < 0")
    case True
    then have "days sdiv 146097 = qc + 1" "days smod 146097 + 146097 = r" using fl by simp_all
    then show ?thesis using True sp by (simp add: year_of_days_def DAYS_PER_400Y_def DAYS_PER_100Y_def DAYS_PER_4Y_def n_def)
  next
    case False
    then have "days sdiv 146097 = qc" "days smod 146097 = r" using fl by simp_all
    then show ?thesis using False sp by (simp add: year_of_days_def DAYS_PER_400Y_def DAYS_PER_100Y_def DAYS_PER_4Y_def n_def)
  qed
  have rest: "rest < 31" using i(1,4) month_length_le [of i] by simp
  note date = march_date [OF i(1,3,4,5) cyc(4)]
  show ?thesis
  proof (cases "i < 10")
    case True
    then have "civil_of_days days = Some (2000 + n, int i + 3, rest + 1)"
      using nb i(1,3) rest by (simp add: civil_of_days_def yd i(2) Let_def u16w_id u8w_id)
    then show ?thesis using date(1) [OF True] nb True cyc(3) by simp
  next
    case False
    then have "civil_of_days days = Some (2000 + n + 1, int i - 9, rest + 1)"
      using nb i(1,3) rest by (simp add: civil_of_days_def yd i(2) Let_def u16w_id u8w_id)
    then show ?thesis using date(2) nb False cyc(3) by simp
  qed
qed

section \<open>From seconds to a broken-down time\<close>

lemma year_day_eq: "timeutils_year_day y m d = month_start y m + d"
  by (simp add: timeutils_year_day_def month_start_def leap_year_eq Let_def)

lemma u32w_id: "0 \<le> x \<Longrightarrow> x < 2 ^ 32 \<Longrightarrow> u32w x = x"
  by (simp add: u32w_def)

lemma since_2000_eq:
  assumes "2000 \<le> y" "y < 2 ^ 31"
  shows "timeutils_seconds_since_2000 y m d h mi sec = u32w (day_number y m d * 86400 + h * 3600 + mi * 60 + sec)"
proof -
  have w: "u32w (y - 2000 + 3) = y - 2000 + 3" "u32w (y - 2000 + 99) = y - 2000 + 99" "u32w (y - 2000 + 399) = y - 2000 + 399"
    using assms by (simp_all add: u32w_id)
  show ?thesis
    unfolding timeutils_seconds_since_2000_def year_day_eq day_number_def year_start_def w by (simp add: algebra_simps)
qed

lemma month_start_range: "1 \<le> m \<Longrightarrow> m \<le> 12 \<Longrightarrow> 0 \<le> month_start y m \<and> month_start y m \<le> 335"
proof -
  assume m: "1 \<le> m" "m \<le> 12"
  have "\<forall>i < 12. 0 \<le> days_since_jan1 ! i \<and> days_since_jan1 ! i \<le> 334" by code_simp
  moreover have "nat (m - 1) < 12" using m by simp
  ultimately have "0 \<le> days_since_jan1 ! nat (m - 1)" "days_since_jan1 ! nat (m - 1) \<le> 334" by blast+
  then show ?thesis by (simp add: month_start_def)
qed

lemma month_length_range: "1 \<le> m \<Longrightarrow> m \<le> 12 \<Longrightarrow> 28 \<le> timeutils_days_in_month y m \<and> timeutils_days_in_month y m \<le> 31"
proof -
  assume m: "1 \<le> m" "m \<le> 12"
  define i where "i = nat (m - 1)"
  have i: "i < 12" "nat m = i + 1" "m = int i + 1" using m by (auto simp: i_def)
  have "\<forall>i < 12. 28 \<le> days_since_jan1 ! (i + 1) - days_since_jan1 ! i \<and> days_since_jan1 ! (i + 1) - days_since_jan1 ! i \<le> 31 \<and>
      (i = 1 \<longrightarrow> days_since_jan1 ! (i + 1) - days_since_jan1 ! i = 28)" by code_simp
  then have "28 \<le> days_since_jan1 ! (i + 1) - days_since_jan1 ! i \<and> days_since_jan1 ! (i + 1) - days_since_jan1 ! i \<le> 31 \<and>
      (i = 1 \<longrightarrow> days_since_jan1 ! (i + 1) - days_since_jan1 ! i = 28)" using i(1) by blast
  then show ?thesis using i by (auto simp: timeutils_days_in_month_def Let_def)
qed

lemma clock_split: "0 \<le> s \<Longrightarrow> s div 3600 * 3600 + s div 60 mod 60 * 60 + s mod 60 = s" for s :: int
proof -
  have "s div 60 div 60 = s div 3600" using zdiv_zmult2_eq [of 60 s 60] by simp
  then have "s div 3600 * 60 + s div 60 mod 60 = s div 60" using div_mult_mod_eq [of "s div 60" 60] by simp
  moreover have "s div 60 * 60 + s mod 60 = s" by simp
  ultimately show ?thesis by linarith
qed

text \<open>The conversion is right for every time below \<open>2 ^ 31\<close> seconds after 2000-03-01.\<close>

lemma struct_time_correct:
  assumes "0 \<le> t" "t < 2 ^ 31 + LEAPOCH"
  shows "\<exists>tm. timeutils_seconds_since_2000_to_struct_time t = Some tm \<and>
    valid_date (tm_year tm) (tm_mon tm) (tm_mday tm) \<and> day_number (tm_year tm) (tm_mon tm) (tm_mday tm) = t div 86400 \<and>
    0 \<le> tm_hour tm \<and> tm_hour tm < 24 \<and> 0 \<le> tm_min tm \<and> tm_min tm < 60 \<and> 0 \<le> tm_sec tm \<and> tm_sec tm < 60 \<and>
    tm_hour tm * 3600 + tm_min tm * 60 + tm_sec tm = t mod 86400 \<and>
    tm_wday tm = (t div 86400 + 5) mod 7 \<and> tm_yday tm = month_start (tm_year tm) (tm_mon tm) + tm_mday tm \<and>
    timeutils_seconds_since_2000 (tm_year tm) (tm_mon tm) (tm_mday tm) (tm_hour tm) (tm_min tm) (tm_sec tm) = t"
proof -
  define secs where "secs = t - LEAPOCH"
  define days where "days = secs div 86400"
  define s where "s = secs mod 86400"
  have "secs = t + (- 60) * 86400" by (simp add: secs_def LEAPOCH_def)
  then have dt: "days = t div 86400 - 60" "s = t mod 86400"
    unfolding days_def s_def using div_mult_self1 [of 86400 t "- 60"] mod_mult_self1 [of t "- 60" 86400] by simp_all
  have sr: "0 \<le> s" "s < 86400" by (simp_all add: s_def)
  have t0: "0 \<le> t div 86400" using assms(1) by (simp add: pos_imp_zdiv_nonneg_iff)
  have "t < 86400 * 24916" using assms(2) by (simp add: LEAPOCH_def)
  then have t1: "t div 86400 < 24916" by (simp add: div_less_iff_less_mult)
  have secs: "s32 (t - LEAPOCH) = secs" using assms by (simp add: secs_def s32_id LEAPOCH_def)
  have fl: "(if secs smod 86400 < 0 then (secs sdiv 86400 - 1, secs smod 86400 + 86400) else (secs sdiv 86400, secs smod 86400)) = (days, s)"
    using floor_correction [of 86400 secs] by (simp add: days_def s_def)
  have wd: "(if (days + 2) smod 7 < 0 then (days + 2) smod 7 + 7 else (days + 2) smod 7) = (days + 2) mod 7"
    using floor_correction [of 7 "days + 2"] by (auto split: if_splits)
  obtain y m d where c: "civil_of_days days = Some (y, m, d)" "valid_date y m d" "day_number y m d = days + 60" "2000 \<le> y" "y \<le> 2400"
    using civil_of_days_correct [of days] dt t0 t1 by auto
  define tm where "tm = \<lparr>tm_year = y, tm_mon = m, tm_mday = d, tm_hour = s div 3600, tm_min = s div 60 mod 60, tm_sec = s mod 60,
      tm_wday = (days + 2) mod 7, tm_yday = month_start y m + d\<rparr>"
  have yr: "0 \<le> month_start y m + d" "month_start y m + d < 2 ^ 16"
    using month_start_range [of m y] month_length_range [of m y] c(2) by (auto simp: valid_date_def)
  have hr: "0 \<le> s div 3600" "s div 3600 < 24" using sr by (simp_all add: pos_imp_zdiv_nonneg_iff div_less_iff_less_mult)
  have min0: "0 \<le> s div 60" using sr by (simp add: pos_imp_zdiv_nonneg_iff)
  have w7: "0 \<le> (days + 2) mod 7" "(days + 2) mod 7 < 7" by simp_all
  have m60: "s div 60 mod 60 < 60" "s mod 60 < 60" "0 \<le> s div 60 mod 60" "0 \<le> s mod 60" by simp_all
  have r: "timeutils_seconds_since_2000_to_struct_time t = Some tm"
    unfolding timeutils_seconds_since_2000_to_struct_time_def secs Let_def fl prod.case wd c(1) option.case tm_def
    using sr hr min0 w7 m60 yr by (simp add: sdiv_nonneg u8w_id u16w_id year_day_eq)
  have wd5: "(days + 2) mod 7 = (t div 86400 + 5) mod 7"
  proof -
    have "t div 86400 + 5 = (days + 2) + 9 * 7" using dt by simp
    then show ?thesis by (metis mod_mult_self1)
  qed
  have clock: "s div 3600 * 3600 + s div 60 mod 60 * 60 + s mod 60 = t mod 86400" using clock_split [OF sr(1)] dt by simp
  have inv: "timeutils_seconds_since_2000 y m d (s div 3600) (s div 60 mod 60) (s mod 60) = t"
  proof -
    have "day_number y m d * 86400 + s div 3600 * 3600 + s div 60 mod 60 * 60 + s mod 60 = t"
      using clock c(3) dt(1) div_mult_mod_eq [of t 86400] by linarith
    then show ?thesis using since_2000_eq [of y] c(4,5) assms by (simp add: u32w_id LEAPOCH_def)
  qed
  have dn: "day_number y m d = t div 86400" using c(3) dt(1) by simp
  have sel: "tm_year tm = y" "tm_mon tm = m" "tm_mday tm = d" "tm_hour tm = s div 3600" "tm_min tm = s div 60 mod 60"
    "tm_sec tm = s mod 60" "tm_wday tm = (days + 2) mod 7" "tm_yday tm = month_start y m + d" by (simp_all add: tm_def)
  show ?thesis by (intro exI [of _ tm] conjI; (unfold sel)?) (fact r c(2) dn hr m60 clock wd5 inv refl)+
qed

end
