(* ===== verification/Timeutils_Mktime.thy ===== *)
theory Timeutils_Mktime
  imports Timeutils
begin

text \<open>
  \<^verbatim>\<open>timeutils_mktime_2000\<close> of \<^verbatim>\<open>lib/timeutils/timeutils.c\<close>: the normalisation of a time whose fields are out of
  their ranges. Its loops end, and the result is the time the fields add up to.
\<close>

section \<open>Carries\<close>

lemma carry_eq:
  assumes "k = 24 \<or> k = 60" "- (2 ^ 30) \<le> hi" "hi < 2 ^ 30" "- (2 ^ 30) \<le> lo" "lo < 2 ^ 30"
  shows "carry k lo hi = (lo mod k, hi + lo div k)"
proof -
  have b: "- (2 ^ 30) \<le> lo div k" "lo div k < 2 ^ 30 - 1" using assms by auto
  have w: "s32 (hi + lo div k) = hi + lo div k" "s32 (hi + (lo div k + 1)) = hi + (lo div k + 1)"
    using b assms by (auto intro!: s32_id)
  have "0 < k" using assms(1) by auto
  then show ?thesis using floor_cases [of k lo] w by (cases "lo smod k < 0") (auto simp: carry_def)
qed

lemma carry_month_eq:
  assumes "- (2 ^ 30) \<le> month" "month < 2 ^ 30" "0 \<le> year" "year < 2 ^ 31" "0 \<le> year + (month - 1) div 12"
  shows "carry_month year month = (year + (month - 1) div 12, (month - 1) mod 12 + 1)"
proof -
  have m: "s32 (month - 1) = month - 1" using assms by (simp add: s32_id)
  have b: "(month - 1) div 12 < 2 ^ 30" using assms by simp
  have "u32w (year + (month - 1) div 12) = year + (month - 1) div 12"
    "u32w (year + ((month - 1) div 12 + 1)) = year + ((month - 1) div 12 + 1)"
    using assms b by (auto intro!: u32w_id)
  then show ?thesis
    using floor_cases [of 12 "month - 1"] unfolding carry_month_def Let_def m by (cases "(month - 1) smod 12 < 0") auto
qed

lemma days_in_month_start:
  assumes "1 \<le> m" "m \<le> 12"
  shows "m < 12 \<Longrightarrow> month_start y (m + 1) = month_start y m + timeutils_days_in_month y m"
    "m = 12 \<Longrightarrow> month_start y m + timeutils_days_in_month y m = 365 + of_bool (leap y)"
proof -
  define i where "i = nat (m - 1)"
  have i: "m = int i + 1" "i < 12" using assms by (auto simp: i_def)
  then have n: "nat m = i + 1" "nat (m - 1) = i" "nat (m + 1 - 1) = i + 1" by simp_all
  show "month_start y (m + 1) = month_start y m + timeutils_days_in_month y m" if "m < 12"
    using i unfolding month_start_def timeutils_days_in_month_def n Let_def leap_year_eq by auto
  show "month_start y m + timeutils_days_in_month y m = 365 + of_bool (leap y)" if "m = 12"
    using that by (simp add: month_start_def timeutils_days_in_month_def days_since_jan1_def)
qed

lemma day_number_next_month:
  assumes "1 \<le> m" "m \<le> 12" "(m', y') = (if m + 1 = 13 then (1, y + 1) else (m + 1, y))"
  shows "day_number y' m' d = day_number y m (d + timeutils_days_in_month y m)"
  using days_in_month_start [OF assms(1,2), of y] assms year_start_recurrence(2) [of y]
  by (auto simp: day_number_def month_start_def [of "y + 1" 1] days_since_jan1_def split: if_splits)

lemma year_start_negative: "y < 2000 \<Longrightarrow> year_start y < - 335"
proof -
  assume y: "y < 2000"
  define n where "n = y - 2000"
  have "n < 0" using y by (simp add: n_def)
  moreover have "4 * ((n + 3) div 4) \<le> n + 3" "400 * ((n + 399) div 400) \<le> n + 399" "n \<le> 100 * ((n + 99) div 100)" by linarith+
  ultimately show ?thesis unfolding year_start_def n_def [symmetric] by linarith
qed

lemma month_end:
  assumes "1 \<le> m" "m \<le> 12"
  shows "month_start y m + timeutils_days_in_month y m \<le> 365 + of_bool (leap y)"
proof -
  define i where "i = nat (m - 1)"
  have i: "m = int i + 1" "i < 12" using assms by (auto simp: i_def)
  have "\<forall>i < 12. days_since_jan1 ! (i + 1) \<le> 365" by code_simp
  then have "days_since_jan1 ! (i + 1) \<le> 365" using i(2) by blast
  moreover have "nat m = i + 1" "nat (m - 1) = i" using i by simp_all
  ultimately show ?thesis unfolding month_start_def timeutils_days_in_month_def Let_def leap_year_eq
    by (auto simp: numeral_2_eq_2)
qed

lemma valid_date_year:
  assumes "valid_date y m d" "0 \<le> day_number y m d"
  shows "2000 \<le> y"
proof (rule ccontr)
  assume "\<not> 2000 \<le> y"
  then have "year_start (y + 1) \<le> 0" using year_start_negative [of "y + 1"] year_start_recurrence(1) by (cases "y = 1999") auto
  moreover have "month_start y m + timeutils_days_in_month y m \<le> 365 + of_bool (leap y)"
    using month_end [of m y] assms(1) by (simp add: valid_date_def)
  ultimately show False using assms year_start_recurrence(2) [of y] by (simp add: day_number_def valid_date_def)
qed

text \<open>The loop that makes the day positive ends, on the same day.\<close>

lemma mday_up_correct:
  assumes "1 \<le> m" "m \<le> 12" "0 \<le> y" "y < 2 ^ 32" "0 \<le> day_number y m d"
  shows "\<exists>y' m' d'. mday_up y m d = Some (y', m', d') \<and> 1 \<le> m' \<and> m' \<le> 12 \<and> 0 \<le> y' \<and> y' \<le> y \<and> 1 \<le> d' \<and>
    d' \<le> max d 31 \<and> day_number y' m' d' = day_number y m d"
  using assms
proof (induction "nat (1 - d)" arbitrary: y m d rule: less_induct)
  case less
  show ?case
  proof (cases "d < 1")
    case False
    then show ?thesis using less.prems by (simp add: mday_up.simps)
  next
    case True
    obtain m0 y0 where prev: "(m0, y0) = (if m - 1 = 0 then (12, y - 1) else (m - 1, y))" by (metis surj_pair)
    have "2000 \<le> y"
      using less.prems True year_start_negative [of y] month_start_range [of m y] by (force simp: day_number_def)
    then have u: "u32w (y - 1) = y - 1" "0 \<le> y0" "y0 \<le> y" "1 \<le> m0" "m0 \<le> 12"
      using less.prems prev by (auto simp: u32w_id split: if_splits)
    have dn: "day_number y m d = day_number y0 m0 (d + timeutils_days_in_month y0 m0)"
      by (rule day_number_next_month) (use prev u less.prems in \<open>auto split: if_splits\<close>)
    have len: "28 \<le> timeutils_days_in_month y0 m0" "timeutils_days_in_month y0 m0 \<le> 31" using month_length_range u by auto
    have step: "mday_up y m d = mday_up y0 m0 (d + timeutils_days_in_month y0 m0)"
      using True prev u(1) by (subst mday_up.simps) (auto split: if_splits)
    have "\<exists>y' m' d'. mday_up y0 m0 (d + timeutils_days_in_month y0 m0) = Some (y', m', d') \<and> 1 \<le> m' \<and> m' \<le> 12 \<and> 0 \<le> y' \<and> y' \<le> y0 \<and>
        1 \<le> d' \<and> d' \<le> max (d + timeutils_days_in_month y0 m0) 31 \<and> day_number y' m' d' = day_number y0 m0 (d + timeutils_days_in_month y0 m0)"
      by (rule less.hyps) (use True u less.prems dn len in auto)
    then show ?thesis using step dn u True len by fastforce
  qed
qed

text \<open>So does the loop that brings it into the month.\<close>

lemma mday_down_correct:
  assumes "1 \<le> m" "m \<le> 12" "0 \<le> y" "y + d < 2 ^ 32" "1 \<le> d"
  shows "\<exists>y' m' d'. mday_down y m d = Some (y', m', d') \<and> valid_date y' m' d' \<and> 0 \<le> y' \<and> y' + d' \<le> y + d \<and>
    day_number y' m' d' = day_number y m d"
  using assms
proof (induction "nat d" arbitrary: y m d rule: less_induct)
  case less
  show ?case
  proof (cases "timeutils_days_in_month y m < d")
    case False
    then show ?thesis using less.prems by (simp add: mday_down.simps valid_date_def)
  next
    case True
    obtain m1 y1 where suc: "(m1, y1) = (if m + 1 = 13 then (1, y + 1) else (m + 1, y))" by (metis surj_pair)
    have len: "28 \<le> timeutils_days_in_month y m" using month_length_range less.prems by auto
    have u: "u32w (y + 1) = y + 1" "0 \<le> y1" "y1 \<le> y + 1" "1 \<le> m1" "m1 \<le> 12"
      using less.prems suc True len by (auto simp: u32w_id split: if_splits)
    define d1 where "d1 = d - timeutils_days_in_month y m"
    have dn: "day_number y1 m1 d1 = day_number y m d"
      using day_number_next_month [OF less.prems(1,2) suc, of d1] by (simp add: d1_def)
    have step: "mday_down y m d = mday_down y1 m1 d1"
      using True suc u(1) by (subst mday_down.simps) (auto simp: d1_def Let_def split: if_splits)
    have "\<exists>y' m' d'. mday_down y1 m1 d1 = Some (y', m', d') \<and> valid_date y' m' d' \<and> 0 \<le> y' \<and> y' + d' \<le> y1 + d1 \<and>
        day_number y' m' d' = day_number y1 m1 d1"
      by (rule less.hyps) (use True u less.prems len in \<open>auto simp: d1_def\<close>)
    moreover have "y1 + d1 \<le> y + d" using u len by (simp add: d1_def)
    ultimately show ?thesis using step dn by fastforce
  qed
qed

lemma mktime_2000_correct:
  assumes "0 \<le> year" "year < 2 ^ 28" "\<bar>month\<bar> < 2 ^ 28" "\<bar>mday\<bar> < 2 ^ 28" "\<bar>hours\<bar> < 2 ^ 28" "\<bar>minutes\<bar> < 2 ^ 28" "\<bar>seconds\<bar> < 2 ^ 28"
    and "y = year + (month - 1) div 12" "0 \<le> y" "m = (month - 1) mod 12 + 1"
    and "t = day_number y m mday * 86400 + hours * 3600 + minutes * 60 + seconds" "0 \<le> t"
  shows "timeutils_mktime_2000 year month mday hours minutes seconds = Some (t mod 2 ^ 32)"
proof -
  define q1 s where "q1 = seconds div 60" and "s = seconds mod 60"
  define mi1 where "mi1 = minutes + q1"
  define q2 mi where "q2 = mi1 div 60" and "mi = mi1 mod 60"
  define h1 where "h1 = hours + q2"
  define q3 h where "q3 = h1 div 24" and "h = h1 mod 24"
  define d1 where "d1 = mday + q3"
  define q4 where "q4 = (month - 1) div 12"
  have e: "q1 * 60 + s = seconds" "q2 * 60 + mi = mi1" "q3 * 24 + h = h1" "q4 * 12 + (m - 1) = month - 1"
    by (simp_all add: q1_def s_def q2_def mi_def q3_def h_def q4_def assms(10))
  have clk: "0 \<le> h" "h < 24" "0 \<le> mi" "mi < 60" "0 \<le> s" "s < 60" by (simp_all add: h_def mi_def s_def)
  have m: "1 \<le> m" "m \<le> 12" by (simp_all add: assms(10))
  note n = assms(2-7) [simplified abs_less_iff]
  have b1: "- (2 ^ 29) \<le> mi1 \<and> mi1 < 2 ^ 29" using n e(1) clk mi1_def by simp
  then have b2: "- (2 ^ 29) \<le> h1 \<and> h1 < 2 ^ 29" using n e(2) clk h1_def by simp
  then have b3: "- (2 ^ 29) \<le> d1 \<and> d1 < 2 ^ 29" using n e(3) clk d1_def by simp
  have y: "y < 2 ^ 30" using n e(4) m assms(8) [folded q4_def] by simp
  have c: "carry 60 seconds minutes = (s, mi1)" "carry 60 mi1 hours = (mi, h1)" "carry 24 h1 mday = (h, d1)"
    using carry_eq [of 60 minutes seconds, folded q1_def s_def, folded mi1_def] carry_eq [of 60 hours mi1, folded q2_def mi_def, folded h1_def]
      carry_eq [of 24 mday h1, folded q3_def h_def, folded d1_def] n b1 b2 by simp_all
  have cm: "carry_month year month = (y, m)"
    unfolding assms(8,10) by (rule carry_month_eq) (use n assms(1,8,9) in simp_all)
  have t: "t = day_number y m d1 * 86400 + h * 3600 + mi * 60 + s"
  proof -
    have "hours = q3 * 24 + h - q2" "minutes = q2 * 60 + mi - q1" "seconds = q1 * 60 + s"
      using e(1-3) mi1_def h1_def by simp_all
    then show ?thesis unfolding assms(11) day_number_def d1_def by (simp add: algebra_simps)
  qed
  have dn: "0 \<le> day_number y m d1" using assms(12) t clk by linarith
  obtain y1 m1 d2 where u: "mday_up y m d1 = Some (y1, m1, d2)" "1 \<le> m1" "m1 \<le> 12" "0 \<le> y1" "y1 \<le> y" "1 \<le> d2"
    "d2 \<le> max d1 31" "day_number y1 m1 d2 = day_number y m d1"
    using mday_up_correct [of m y d1] m y dn assms(9) by auto
  have u7: "y1 + d2 < 2 ^ 31" using u(5,7) y b3 by (simp add: max_def split: if_splits)
  obtain y2 m2 d3 where v: "mday_down y1 m1 d2 = Some (y2, m2, d3)" "valid_date y2 m2 d3" "0 \<le> y2" "y2 + d3 \<le> y1 + d2"
    "day_number y2 m2 d3 = day_number y1 m1 d2"
    using mday_down_correct [of m1 y1 d2] u(2-6) u7 by auto
  have r: "2000 \<le> y2" "y2 < 2 ^ 31"
  proof -
    show "2000 \<le> y2" using valid_date_year [OF v(2)] dn u(8) v(5) by simp
    show "y2 < 2 ^ 31" using v(2,4) u7 by (simp add: valid_date_def)
  qed
  then have "timeutils_seconds_since_2000 y2 m2 d3 h mi s = t mod 2 ^ 32"
    using since_2000_eq [OF r, of m2 d3 h mi s] t u(8) v(5) by (simp add: u32w_def)
  then show ?thesis by (simp add: timeutils_mktime_2000_def c cm u(1) v(1))
qed

lemma year_start_ge: "2000 \<le> y \<Longrightarrow> 365 * (y - 2000) \<le> year_start y"
proof -
  assume y: "2000 \<le> y"
  define n where "n = y - 2000"
  have n: "0 \<le> n" using y by (simp add: n_def)
  then have "n \<le> 4 * ((n + 3) div 4)" "0 \<le> (n + 399) div 400" "100 * ((n + 99) div 100) \<le> n + 99" by linarith+
  then show ?thesis using n unfolding year_start_def n_def [symmetric] by linarith
qed

lemma mktime_fields:
  assumes v: "valid_date y m d" and dn: "day_number y m d = u div 86400" and u: "0 \<le> u" "u < 2 ^ 32"
    and "0 \<le> h" "h < 24" "0 \<le> mi" "mi < 60" "0 \<le> s" "s < 60" "h * 3600 + mi * 60 + s = u mod 86400"
  shows "timeutils_mktime_2000 y m d h mi s = Some (u mod 2 ^ 32)"
proof -
  have q: "0 \<le> u div 86400" "u div 86400 < 2 ^ 17" using u by (simp_all add: pos_imp_zdiv_nonneg_iff div_less_iff_less_mult)
  have y: "2000 \<le> y" using valid_date_year [OF v] dn q by simp
  have m: "1 \<le> m" "m \<le> 12" "1 \<le> d" "d \<le> 31" using v month_length_range [of m y] by (auto simp: valid_date_def)
  have "y < 2 ^ 28" using year_start_ge [OF y] dn q(2) m month_start_range [of m y] by (simp add: day_number_def)
  moreover have "u = day_number y m d * 86400 + h * 3600 + mi * 60 + s"
    using assms(11) dn div_mult_mod_eq [of u 86400] by linarith
  moreover have "(m - 1) div 12 = 0" "(m - 1) mod 12 = m - 1" using m by simp_all
  ultimately show ?thesis using y m u(1) assms(5-10) by (intro mktime_2000_correct [of y m d h mi s y m]) simp_all
qed

section \<open>The clock of the port\<close>

text \<open>
  C39: A time \<open>t\<close> of the port, in seconds since 1970, from 2000-01-01 on and less than \<open>2 ^ 31\<close> seconds after
  2000-03-01, converts to a broken-down time and back. The date is valid and is the day of the Gregorian calendar that many days
  after 2000-01-01; hour, minute and second are in range and add up to the rest of the day; the
  weekday (2000-01-01 is a Saturday, 5) and the day of the year are right; both
  \<^verbatim>\<open>timeutils_seconds_since_epoch\<close> and \<^verbatim>\<open>timeutils_mktime\<close> give \<open>t\<close> back. The epoch is the one the port configures
  (\<^verbatim>\<open>MICROPY_EPOCH_IS_1970\<close>); \<^verbatim>\<open>docs/library/utime.rst\<close> gives 2000 for embedded ports.
\<close>

theorem epoch_time_roundtrip:
  assumes "t = TIMEUTILS_SECONDS_1970_TO_2000 + u" "0 \<le> u" "u < 2 ^ 31 + LEAPOCH"
  shows "\<exists>tm. timeutils_seconds_since_epoch_to_struct_time t = Some tm \<and>
    valid_date (tm_year tm) (tm_mon tm) (tm_mday tm) \<and> day_number (tm_year tm) (tm_mon tm) (tm_mday tm) = u div 86400 \<and>
    0 \<le> tm_hour tm \<and> tm_hour tm < 24 \<and> 0 \<le> tm_min tm \<and> tm_min tm < 60 \<and> 0 \<le> tm_sec tm \<and> tm_sec tm < 60 \<and>
    tm_hour tm * 3600 + tm_min tm * 60 + tm_sec tm = u mod 86400 \<and>
    tm_wday tm = (u div 86400 + 5) mod 7 \<and> tm_yday tm = month_start (tm_year tm) (tm_mon tm) + tm_mday tm \<and>
    timeutils_seconds_since_epoch (tm_year tm) (tm_mon tm) (tm_mday tm) (tm_hour tm) (tm_min tm) (tm_sec tm) = t \<and>
    timeutils_mktime (tm_year tm) (tm_mon tm) (tm_mday tm) (tm_hour tm) (tm_min tm) (tm_sec tm) = Some t"
proof -
  have u: "u32w (t - TIMEUTILS_SECONDS_1970_TO_2000) = u" using assms by (simp add: u32w_id LEAPOCH_def)
  obtain tm where tm: "timeutils_seconds_since_2000_to_struct_time u = Some tm" "valid_date (tm_year tm) (tm_mon tm) (tm_mday tm)"
    "day_number (tm_year tm) (tm_mon tm) (tm_mday tm) = u div 86400" "0 \<le> tm_hour tm" "tm_hour tm < 24" "0 \<le> tm_min tm" "tm_min tm < 60"
    "0 \<le> tm_sec tm" "tm_sec tm < 60" "tm_hour tm * 3600 + tm_min tm * 60 + tm_sec tm = u mod 86400"
    "tm_wday tm = (u div 86400 + 5) mod 7" "tm_yday tm = month_start (tm_year tm) (tm_mon tm) + tm_mday tm"
    "timeutils_seconds_since_2000 (tm_year tm) (tm_mon tm) (tm_mday tm) (tm_hour tm) (tm_min tm) (tm_sec tm) = u"
    using struct_time_correct [OF assms(2,3)] by blast
  have "timeutils_mktime_2000 (tm_year tm) (tm_mon tm) (tm_mday tm) (tm_hour tm) (tm_min tm) (tm_sec tm) = Some (u mod 2 ^ 32)"
    by (rule mktime_fields [OF tm(2,3) _ _ tm(4-10)]) (use assms in \<open>simp_all add: LEAPOCH_def\<close>)
  then have "timeutils_mktime (tm_year tm) (tm_mon tm) (tm_mday tm) (tm_hour tm) (tm_min tm) (tm_sec tm) = Some t"
    using assms by (simp add: timeutils_mktime_def LEAPOCH_def)
  moreover have "timeutils_seconds_since_epoch (tm_year tm) (tm_mon tm) (tm_mday tm) (tm_hour tm) (tm_min tm) (tm_sec tm) = t"
    using tm(13) assms(1) by (simp add: timeutils_seconds_since_epoch_def)
  moreover have "timeutils_seconds_since_epoch_to_struct_time t = Some tm"
    by (simp add: timeutils_seconds_since_epoch_to_struct_time_def u tm(1))
  ultimately show ?thesis using tm(2-12) by blast
qed

theorem epoch_time_roundtrip_witness:
  "\<exists>tm. timeutils_seconds_since_epoch_to_struct_time 1709164800 = Some tm \<and> day_number (tm_year tm) (tm_mon tm) (tm_mday tm) = 8825 \<and>
    timeutils_mktime (tm_year tm) (tm_mon tm) (tm_mday tm) (tm_hour tm) (tm_min tm) (tm_sec tm) = Some 1709164800"
  using epoch_time_roundtrip [of 1709164800 762480000] by (auto simp: LEAPOCH_def TIMEUTILS_SECONDS_1970_TO_2000_def)

text \<open>
  C40: \<^verbatim>\<open>timeutils_mktime\<close> returns, also for months, days, hours, minutes and seconds out of their ranges, and its
  result is the time they add up to: the day with the number given by the year, the month and the day, plus
  the hours, minutes and seconds, whatever their signs, counted from 1970, where the part after 2000 is taken modulo
  \<open>2 ^ 32\<close>. This holds for arguments below \<open>2 ^ 28\<close> in absolute value whose time is not before 2000. The documentation of
  \<^verbatim>\<open>utime.mktime\<close> counts from 2000, which is \<open>946684800\<close> seconds less.
\<close>

theorem mktime_correct:
  assumes "0 \<le> year" "year < 2 ^ 28" "\<bar>month\<bar> < 2 ^ 28" "\<bar>mday\<bar> < 2 ^ 28" "\<bar>hours\<bar> < 2 ^ 28" "\<bar>minutes\<bar> < 2 ^ 28" "\<bar>seconds\<bar> < 2 ^ 28"
    and "y = year + (month - 1) div 12" "0 \<le> y" "m = (month - 1) mod 12 + 1"
    and "t = day_number y m mday * 86400 + hours * 3600 + minutes * 60 + seconds" "0 \<le> t"
  shows "timeutils_mktime year month mday hours minutes seconds = Some (946684800 + t mod 2 ^ 32)"
  unfolding timeutils_mktime_def mktime_2000_correct [OF assms] by (simp add: TIMEUTILS_SECONDS_1970_TO_2000_def)

theorem mktime_correct_witness: "timeutils_mktime 2021 14 (- 5) 30 (- 90) 3600 = Some (946684800 + 696576600)"
proof -
  have "day_number 2022 2 (- 5) * 86400 + 30 * 3600 + (- 90) * 60 + 3600 = 696576600" by code_simp
  then have "timeutils_mktime 2021 14 (- 5) 30 (- 90) 3600 = Some (946684800 + 696576600 mod 2 ^ 32)"
    by (intro mktime_correct [where y = 2022 and m = 2]) (erule sym | simp)+
  then show ?thesis by simp
qed

text \<open>
  A time from 2068 on is \<open>2 ^ 31\<close> seconds or more after 2000-03-01, and the signed difference wraps: the time of
  2070-01-01 converts to a date in 1933.
\<close>

lemma late_time_wraps:
  "timeutils_seconds_since_2000 2070 1 1 0 0 0 = 2209075200"
  "map_option (\<lambda>tm. (tm_year tm, tm_mon tm, tm_mday tm)) (timeutils_seconds_since_2000_to_struct_time 2209075200) = Some (1933, 11, 25)"
  by code_simp+

end
