(* ===== verification/Spec2Isabelle.thy ===== *)
theory Spec2Isabelle
  imports Mpz_Spec Mp_Int_Spec Mp_Dict_Spec Mp_ObjSet Mp_List_Spec Mp_Range Deque Vstr Gc_Spec Wifi_Buffer Scheduler Qstr Timeutils_Mktime
begin

text \<open>
  \<^bold>\<open>MicroPython for the RP2040 with WiFi drivers: the runtime core.\<close>

  The repository is MicroPython with a port for the RP2040 (\<^verbatim>\<open>ports/rp2\<close>) that adds drivers for WiFi
  modules on SPI and UART. The development models the parts of the runtime the rest of the
  program is built on, as the port configures them for a 32-bit Arm chip: 16-bit digits of long integers,
  16-byte heap blocks with finalisers and conservative clearing, a mark stack of 64 entries, a scheduler
  queue of 8 entries, one-byte string hashes, ordered dictionaries.

  \<^bold>\<open>Long integers\<close> (\<^verbatim>\<open>py/mpz.c\<close>, \<^verbatim>\<open>py/mpz.h\<close>). \<^verbatim>\<open>Mpn\<close>, \<^verbatim>\<open>Mpn_Bitwise\<close> and \<^verbatim>\<open>Mpn_Div\<close> hold the digit-array
  functions: a digit array is a list of digits below \<open>2 ^ 16\<close>, least significant first, and a function
  returns the digits written and the length it computes. \<^verbatim>\<open>Mpz\<close>, \<^verbatim>\<open>Mpz_Pow\<close> and \<^verbatim>\<open>Mpz_Conv\<close> hold the
  operations on \<^verbatim>\<open>mpz_t\<close>, with the sign, the allocated length, the flag for fixed digits, and errors as values
  of a sum type: a failed assertion, a write past the allocated digits, a loop without end.
  The lemmas show that each operation computes the mathematical value, keeps the representation
  canonical, and returns no error. \<^verbatim>\<open>Mpz_Spec\<close> states the results over \<^typ>\<open>int\<close>. Loops whose number of
  rounds depends on values (division, powers, printing) run on fuel, which the theorems show to be
  enough: they are stated as results, not as conditional on a result.

  \<^bold>\<open>Integers of the language\<close> (\<^verbatim>\<open>py/smallint.c\<close>, \<^verbatim>\<open>py/objint_mpz.c\<close>, and the integer cases of \<^verbatim>\<open>py/runtime.c\<close>). \<^verbatim>\<open>Small_Int\<close>
  holds the 31-bit integers in an object word, with the division of \<^verbatim>\<open>Signed_Div\<close>; \<^verbatim>\<open>Mp_Int\<close> the integer objects and the
  unary and binary operators of the runtime, which change to long integers where a small one overflows;
  \<^verbatim>\<open>Mp_Int_Spec\<close> shows that every operator computes the result of the unbounded integers, whatever the
  representation of its operands, or raises the exception of Python. The departures of the code from Python (shift counts
  from \<open>2 ^ 31\<close> on, zero to the power zero with a long zero) are cases of the theorem of their own.

  \<^bold>\<open>Maps, dictionaries and sets\<close> (\<^verbatim>\<open>py/map.c\<close>, \<^verbatim>\<open>py/objdict.c\<close>, \<^verbatim>\<open>py/objset.c\<close>, with the equality and hash of
  \<^verbatim>\<open>py/obj.c\<close>, \<^verbatim>\<open>py/objstr.c\<close> and \<^verbatim>\<open>py/qstr.c\<close>). \<^verbatim>\<open>Hash_Table\<close> holds the probing of open addressing with
  deleted slots, \<^verbatim>\<open>Mp_Map\<close> the operations on \<^verbatim>\<open>mp_map_t\<close>, both as a hash table and as an ordered array.
  Its locale \<^verbatim>\<open>obj_keys\<close> states what the map asks of equality and hash of keys; \<^verbatim>\<open>Mp_Obj\<close> interprets it with
  the objects of the program. The locale \<^verbatim>\<open>map_interface\<close> of \<^verbatim>\<open>Mp_Map_Laws\<close> is the contract of a map,
  which hash tables and ordered arrays fulfil (two sublocales); \<^verbatim>\<open>Mp_Dict\<close> builds the dictionary methods on
  it and \<^verbatim>\<open>Mp_Dict_Spec\<close> states that they refine finite maps and association lists. \<^verbatim>\<open>Mp_Set\<close> and
  \<^verbatim>\<open>Mp_ObjSet\<close> do the same for sets.

  \<^bold>\<open>Lists and slices\<close> (\<^verbatim>\<open>py/objlist.c\<close>, \<^verbatim>\<open>py/sequence.c\<close>, \<^verbatim>\<open>py/objslice.c\<close>). \<^verbatim>\<open>Quicksort\<close> holds the sort over an array with
  its two scans, the depth of its calls and, in the locale \<^verbatim>\<open>sort_order\<close>, that it sorts by any comparison whose order is
  transitive. \<^verbatim>\<open>Mp_List\<close> holds the buffer of a list word by word and every operation on it, with an error for each
  access outside the buffer or to a word without an object. \<^verbatim>\<open>Mp_List_Laws\<close> and \<^verbatim>\<open>Mp_Slice_Laws\<close> show that each operation
  keeps the representation and gives what Python gives. Integer arguments are converted as the code does, with
  \<^verbatim>\<open>OverflowError\<close> from \<open>2 ^ 31\<close> on; an insertion takes its index from the object word. \<^verbatim>\<open>Mp_List_Spec\<close> puts them together:
  any sequence of method calls simulates Python's lists, less the slices with a step that the code does not implement
  for assignment and deletion (locale \<^verbatim>\<open>bounded_simulation\<close>), sorting uses the comparison of the integers above, and the
  comparison of sequences is the lexicographic order (locale \<^verbatim>\<open>ordered_elements\<close>, for integers and for bytes). Lists are below
  \<open>2 ^ 27\<close> elements, half a gigabyte of object words. The loop that extracts a slice is a partial function of the model,
  and is shown to return, for steps that with the length stay within \<open>2 ^ 31\<close>. \<^verbatim>\<open>Mp_Range\<close> (\<^verbatim>\<open>py/objrange.c\<close>) shows that a range
  of small integers, with its slices, is the progression it stands for, within bounds on its span, its steps and its
  length, and what goes wrong beyond them.

  \<^bold>\<open>Text\<close> (\<^verbatim>\<open>py/unicode.c\<close>, \<^verbatim>\<open>py/vstr.c\<close>). \<^verbatim>\<open>Unicode\<close> holds the table of ASCII attributes and the functions on UTF-8, and shows that
  encoding and decoding are inverse. \<^verbatim>\<open>Vstr\<close> holds the string buffers, whose operations simulate a sequence of bytes, again
  by \<^verbatim>\<open>bounded_simulation\<close> (theory \<^verbatim>\<open>Simulation\<close>), with memory of their own or a fixed array.

  \<^bold>\<open>Interned strings\<close> (\<^verbatim>\<open>py/qstr.c\<close>, theory \<^verbatim>\<open>Qstr\<close>). A string is stored once and named by an index over a chain of
  pools. The state holds the pools and the chunks of memory with the records, byte by byte; the answers of
  the allocator are a parameter. Interning is shown to be stable and injective, which is why \<^verbatim>\<open>Mp_Obj\<close> can
  compare interned strings by their contents.

  \<^bold>\<open>The garbage-collected heap\<close> (\<^verbatim>\<open>py/gc.c\<close>, and \<^verbatim>\<open>gc_collect\<close> of \<^verbatim>\<open>ports/rp2/main.c\<close>). \<^verbatim>\<open>Gc\<close> holds the state
  and every operation; the allocation table and the finaliser table are one list, as they are adjacent
  in memory and the code reads across the border. \<^verbatim>\<open>Gc_Mark\<close> shows that marking with the bounded stack
  computes reachability, \<^verbatim>\<open>Gc_Sweep\<close> that a collection frees exactly the unreachable chains, \<^verbatim>\<open>Gc_Alloc\<close>
  that allocation is sound and complete, for any collector that fulfils the locale \<^verbatim>\<open>collector\<close>,
  \<^verbatim>\<open>Gc_Release\<close> treats release and reallocation, \<^verbatim>\<open>Gc_Info\<close> layout and statistics, and \<^verbatim>\<open>Gc_Spec\<close> states
  the results. All loops of the collector are shown to end; the measure counts unmarked heads.

  \<^bold>\<open>Queues\<close>. \<^verbatim>\<open>Queue\<close> states the contract of a bounded queue as the locale \<^verbatim>\<open>bounded_queue\<close> and proves
  once that it neither loses nor reorders values over any interleaving of operations. Four circular
  buffers implement it: the deques of the language (\<^verbatim>\<open>py/objdeque.c\<close>, theory \<^verbatim>\<open>Deque\<close>), the ring buffer of the drivers (\<^verbatim>\<open>py/ringbuf.c\<close>, theory \<^verbatim>\<open>Ringbuf\<close>), the receive
  buffer of the WiFi drivers (\<^verbatim>\<open>ports/rp2/buffer.c\<close>, theory \<^verbatim>\<open>Wifi_Buffer\<close>, with its pattern search) and the
  queue of the scheduler.

  \<^bold>\<open>The scheduler\<close> (\<^verbatim>\<open>py/scheduler.c\<close>, theory \<^verbatim>\<open>Scheduler\<close>) is a transition system whose steps are the atomic
  sections of the code, and \<^verbatim>\<open>mp_sched_exception\<close> as one step; its invariant and the order of callbacks hold over all interleavings, and it
  makes progress.

  \<^bold>\<open>The calendar\<close> (\<^verbatim>\<open>lib/timeutils/timeutils.c\<close>). \<^verbatim>\<open>Timeutils\<close> holds the conversions between seconds and dates, with
  division towards zero and the widths of the fields, and a reference calendar by the lengths of years and
  months; it shows that the date of a time is right. Times count from 1970, as the port configures them, and not from 2000 as
  the documentation of \<^verbatim>\<open>utime\<close> says. \<^verbatim>\<open>Timeutils_Mktime\<close> treats dates whose fields are out of range: the
  carry loops, which are partial functions in the model, return, and the round trip holds.

  \<^bold>\<open>Not modelled.\<close> The compiler, the virtual machine and the native emitters, whose state is the whole
  runtime; floating-point numbers (a parameter of the integer operators); the object types that are thin layers over the C library or
  over hardware; the drivers, file systems and network code, which are input and output; threads (one thread
  holds the heap mutex throughout); the vendored libraries and the other ports. The manifest lists
  them with their reasons. Sizes and addresses are natural numbers with the wrap-around to 32 or 16 bits
  written where the code can reach it; \<^verbatim>\<open>Prelude\<close> has these operations and the shared lemmas.
\<close>

end
